(* ===== verification/Prelude.thy ===== *)
theory Prelude
  imports Main "HOL-Library.Word" "HOL-Library.Char_ord" "HOL-Library.List_Lexorder"
begin

text \<open>
  What every component theory shares: the machine types of the client, the
  standard-library operations the Rust sources rely on (checked and saturating
  arithmetic on unsigned 64-bit counters, UTF-8 validation as
  \<^verbatim>\<open>core::str::from_utf8\<close> performs it, the UTF-16 projections of
  \<^verbatim>\<open>String\<close>), and the generic lemmas about them.

  Conventions.  A Rust \<^verbatim>\<open>Vec<u8>\<close> or \<^verbatim>\<open>&[u8]\<close> is a \<open>byte list\<close>;
  a Rust \<^verbatim>\<open>String\<close> is a HOL \<open>string\<close> holding its UTF-8 bytes; where the
  code works on code points it is a list of scalar values.  A
  \<^verbatim>\<open>Result<T, E>\<close> is \<open>'e + 'a\<close> with the error on the left.
\<close>

section \<open>Machine types\<close>

type_synonym byte = "8 word"
type_synonym u16 = "16 word"
type_synonym u32 = "32 word"
type_synonym u64 = "64 word"
type_synonym bytes = "byte list"

text \<open>A Unicode scalar value, and a string as the list of its scalar values.\<close>
type_synonym scalar = nat
type_synonym scalars = "scalar list"

type_synonym ('e, 'a) rust_result = "'e + 'a"

abbreviation Err :: "'e \<Rightarrow> 'e + 'a" where "Err \<equiv> Inl"
abbreviation Ok :: "'a \<Rightarrow> 'e + 'a" where "Ok \<equiv> Inr"

named_theorems arith_ops "unsigned readings of the machine arithmetic"
named_theorems frame_simps "one-step equations of the byte splitters"
named_theorems err_simps "equations of the error carriers"

section \<open>Result and option plumbing\<close>

definition bind_result :: "'e + 'a \<Rightarrow> ('a \<Rightarrow> 'e + 'b) \<Rightarrow> 'e + 'b" where
  "bind_result r f = (case r of Inl e \<Rightarrow> Inl e | Inr a \<Rightarrow> f a)"

lemma bind_result_simps [simp]:
  "bind_result (Inl e) f = Inl e"
  "bind_result (Inr a) f = f a"
  by (simp_all add: bind_result_def)

lemma bind_result_Inr:
  "bind_result r f = Inr b \<longleftrightarrow> (\<exists>a. r = Inr a \<and> f a = Inr b)"
  by (cases r) simp_all

text \<open>The first error of a list of results, or all their values.\<close>

fun collect_results :: "('e + 'a) list \<Rightarrow> 'e + 'a list" where
  "collect_results [] = Ok []"
| "collect_results (r # rs) = bind_result r (\<lambda>x. bind_result (collect_results rs) (\<lambda>xs. Ok (x # xs)))"

lemma collect_results_Ok: "collect_results rs = Ok xs \<Longrightarrow> rs = map Inr xs"
  by (induction rs arbitrary: xs) (auto simp: bind_result_Inr)

definition map_err :: "('e \<Rightarrow> 'f) \<Rightarrow> 'e + 'a \<Rightarrow> 'f + 'a" where
  "map_err f r = (case r of Inl e \<Rightarrow> Inl (f e) | Inr a \<Rightarrow> Inr a)"

lemma map_err_simps [simp]:
  "map_err f (Inl e) = Inl (f e)"
  "map_err f (Inr a) = Inr a"
  by (simp_all add: map_err_def)

lemma map_err_Inr [simp]: "map_err f r = Inr a \<longleftrightarrow> r = Inr a"
  by (cases r) simp_all

definition is_some :: "'a option \<Rightarrow> bool" where
  "is_some x = (x \<noteq> None)"

lemma is_some_simps [simp]: "is_some (Some a)" "\<not> is_some None"
  by (simp_all add: is_some_def)

section \<open>Unsigned arithmetic\<close>

definition checked_add :: "u64 \<Rightarrow> u64 \<Rightarrow> u64 option" where
  "checked_add a b = (if unat a + unat b < 2 ^ 64 then Some (a + b) else None)"

definition saturating_add :: "u64 \<Rightarrow> u64 \<Rightarrow> u64" where
  "saturating_add a b = (if unat a + unat b < 2 ^ 64 then a + b else - 1)"

definition saturating_sub :: "u64 \<Rightarrow> u64 \<Rightarrow> u64" where
  "saturating_sub a b = (if b \<le> a then a - b else 0)"

lemma unat_lt_64 [simp]: "unat (a :: u64) < 18446744073709551616"
  using unsigned_less [of a] by simp

lemma unat_max_64: "unat (- 1 :: u64) = 2 ^ 64 - 1"
  by (simp add: unsigned_minus_1_eq_mask mask_eq_exp_minus_1)

lemma unat_add_small:
  assumes "unat (a :: u64) + unat b < 2 ^ 64"
  shows "unat (a + b) = unat a + unat b"
  using assms by (simp add: unat_word_ariths)

lemma checked_add_Some [arith_ops]:
  "checked_add a b = Some c \<longleftrightarrow> unat a + unat b < 2 ^ 64 \<and> unat c = unat a + unat b"
  by (auto simp: checked_add_def unat_add_small intro: word_unat_eq_iff [THEN iffD2])

lemma checked_add_None [arith_ops]:
  "checked_add a b = None \<longleftrightarrow> 2 ^ 64 \<le> unat a + unat b"
  by (auto simp: checked_add_def)

lemma unat_saturating_add [arith_ops]:
  "unat (saturating_add a b) = min (unat a + unat b) (2 ^ 64 - 1)"
  by (auto simp: saturating_add_def unat_add_small unat_max_64)

lemma unat_saturating_sub [arith_ops]:
  "unat (saturating_sub a b) = unat a - unat b"
  by (auto simp: saturating_sub_def word_le_nat_alt unat_sub)

lemma saturating_add_comm: "saturating_add a b = saturating_add b a"
  by (simp add: word_unat_eq_iff arith_ops add.commute)

section \<open>UTF-8\<close>

text \<open>
  \<open>utf8_error\<close> is the run of \<^verbatim>\<open>core::str::from_utf8\<close>: None for valid input,
  otherwise the number of bytes valid up to the error and the length of the
  malformed sequence (None when the input ends inside a sequence).
\<close>

definition is_cont :: "byte \<Rightarrow> bool" where
  "is_cont b \<longleftrightarrow> 0x80 \<le> b \<and> b \<le> 0xBF"

definition utf8_width :: "byte \<Rightarrow> nat" where
  "utf8_width b =
    (if b < 0x80 then 1 else if b < 0xC2 then 0 else if b < 0xE0 then 2
     else if b < 0xF0 then 3 else if b < 0xF5 then 4 else 0)"

definition second_ok3 :: "byte \<Rightarrow> byte \<Rightarrow> bool" where
  "second_ok3 a b \<longleftrightarrow>
    (if a = 0xE0 then 0xA0 \<le> b \<and> b \<le> 0xBF
     else if a = 0xED then 0x80 \<le> b \<and> b \<le> 0x9F
     else is_cont b)"

definition second_ok4 :: "byte \<Rightarrow> byte \<Rightarrow> bool" where
  "second_ok4 a b \<longleftrightarrow>
    (if a = 0xF0 then 0x90 \<le> b \<and> b \<le> 0xBF
     else if a = 0xF4 then 0x80 \<le> b \<and> b \<le> 0x8F
     else is_cont b)"

fun utf8_error_from :: "nat \<Rightarrow> bytes \<Rightarrow> (nat \<times> nat option) option" where
  "utf8_error_from n [] = None"
| "utf8_error_from n (a # r) =
    (case utf8_width a of
       Suc 0 \<Rightarrow> utf8_error_from (n + 1) r
     | Suc (Suc 0) \<Rightarrow>
         (case r of [] \<Rightarrow> Some (n, None)
          | b # r1 \<Rightarrow> if is_cont b then utf8_error_from (n + 2) r1 else Some (n, Some 1))
     | Suc (Suc (Suc 0)) \<Rightarrow>
         (case r of [] \<Rightarrow> Some (n, None)
          | b # r1 \<Rightarrow> if \<not> second_ok3 a b then Some (n, Some 1)
             else (case r1 of [] \<Rightarrow> Some (n, None)
               | c # r2 \<Rightarrow> if is_cont c then utf8_error_from (n + 3) r2 else Some (n, Some 2)))
     | Suc (Suc (Suc (Suc 0))) \<Rightarrow>
         (case r of [] \<Rightarrow> Some (n, None)
          | b # r1 \<Rightarrow> if \<not> second_ok4 a b then Some (n, Some 1)
             else (case r1 of [] \<Rightarrow> Some (n, None)
               | c # r2 \<Rightarrow> if \<not> is_cont c then Some (n, Some 2)
                  else (case r2 of [] \<Rightarrow> Some (n, None)
                    | d # r3 \<Rightarrow> if is_cont d then utf8_error_from (n + 4) r3
                                 else Some (n, Some 3))))
     | _ \<Rightarrow> Some (n, Some 1))"

definition utf8_error :: "bytes \<Rightarrow> (nat \<times> nat option) option" where
  "utf8_error bs = utf8_error_from 0 bs"

definition string_of_bytes :: "bytes \<Rightarrow> string" where
  "string_of_bytes bs = map (\<lambda>b. char_of (unat b)) bs"

definition bytes_of_string :: "string \<Rightarrow> bytes" where
  "bytes_of_string s = map (\<lambda>c. word_of_nat (of_char c)) s"

definition from_utf8 :: "bytes \<Rightarrow> (nat \<times> nat option) + string" where
  "from_utf8 bs = (case utf8_error bs of None \<Rightarrow> Ok (string_of_bytes bs) | Some e \<Rightarrow> Err e)"

lemma utf8_width_ascii [simp]: "b < 0x80 \<Longrightarrow> utf8_width b = 1"
  by (simp add: utf8_width_def)

lemma utf8_error_ascii:
  "\<forall>b \<in> set bs. b < 0x80 \<Longrightarrow> utf8_error_from n bs = None"
  by (induction bs arbitrary: n) simp_all

lemma length_string_of_bytes [simp]: "length (string_of_bytes bs) = length bs"
  by (simp add: string_of_bytes_def)

lemma bytes_of_string_of_bytes [simp]: "bytes_of_string (string_of_bytes bs) = bs"
proof -
  have "word_of_nat (of_char (char_of (unat b) :: char)) = b" for b :: byte
  proof -
    have "unat b < 2 ^ LENGTH(8)" by (rule unsigned_less)
    then show ?thesis by simp
  qed
  then show ?thesis
    by (simp add: bytes_of_string_def string_of_bytes_def map_idI)
qed

lemma string_of_bytes_of_string [simp]: "string_of_bytes (bytes_of_string s) = s"
proof -
  have "char_of (unat (word_of_nat (of_char c) :: byte)) = c" for c :: char
    by (simp add: unat_of_nat)
  then show ?thesis
    by (simp add: bytes_of_string_def string_of_bytes_def map_idI)
qed

text \<open>\<^verbatim>\<open>String::from_utf8_lossy\<close>: each maximal invalid sequence becomes U+FFFD.\<close>

function utf8_lossy :: "bytes \<Rightarrow> string" where
  "utf8_lossy bs =
    (if bs = [] then []
     else (case utf8_error bs of
        None \<Rightarrow> string_of_bytes bs
      | Some (n, None) \<Rightarrow> string_of_bytes (take n bs @ [0xEF, 0xBF, 0xBD])
      | Some (n, Some k) \<Rightarrow>
          string_of_bytes (take n bs @ [0xEF, 0xBF, 0xBD]) @ utf8_lossy (drop (n + max 1 k) bs)))"
  by pat_completeness auto
termination
  by (relation "measure length") (simp_all add: max_def)

declare utf8_lossy.simps [simp del]

section \<open>UTF-16\<close>

definition is_high :: "u16 \<Rightarrow> bool" where
  "is_high u \<longleftrightarrow> 0xD800 \<le> u \<and> u < 0xDC00"

definition is_low :: "u16 \<Rightarrow> bool" where
  "is_low u \<longleftrightarrow> 0xDC00 \<le> u \<and> u < 0xE000"

definition is_scalar :: "scalar \<Rightarrow> bool" where
  "is_scalar c \<longleftrightarrow> c < 0xD800 \<or> 0xE000 \<le> c \<and> c < 0x110000"

text \<open>\<^verbatim>\<open>str::encode_utf16\<close>, one scalar value at a time.\<close>

definition utf16_of_scalar :: "scalar \<Rightarrow> u16 list" where
  "utf16_of_scalar c =
    (if c < 0x10000 then [word_of_nat c]
     else [word_of_nat (0xD800 + (c - 0x10000) div 0x400),
           word_of_nat (0xDC00 + (c - 0x10000) mod 0x400)])"

definition encode_utf16 :: "scalars \<Rightarrow> u16 list" where
  "encode_utf16 s = concat (map utf16_of_scalar s)"

definition join_pair :: "u16 \<Rightarrow> u16 \<Rightarrow> scalar" where
  "join_pair h l = 0x10000 + (unat h - 0xD800) * 0x400 + (unat l - 0xDC00)"

text \<open>\<^verbatim>\<open>String::from_utf16_lossy\<close>: an unpaired surrogate becomes U+FFFD.\<close>

fun from_utf16_lossy :: "u16 list \<Rightarrow> scalars" where
  "from_utf16_lossy [] = []"
| "from_utf16_lossy [u] = [if is_high u \<or> is_low u then 0xFFFD else unat u]"
| "from_utf16_lossy (u # v # r) =
    (if is_high u \<and> is_low v then join_pair u v # from_utf16_lossy r
     else (if is_high u \<or> is_low u then 0xFFFD else unat u) # from_utf16_lossy (v # r))"

lemma lossy_bmp:
  assumes "\<not> is_high u" "\<not> is_low u"
  shows "from_utf16_lossy (u # r) = unat u # from_utf16_lossy r"
  using assms by (cases r) simp_all

lemma lossy_pair:
  assumes "is_high h" "is_low l"
  shows "from_utf16_lossy (h # l # r) = join_pair h l # from_utf16_lossy r"
  using assms by simp

lemma unat_u16_of_nat: "n < 65536 \<Longrightarrow> unat (word_of_nat n :: u16) = n"
  by (simp add: unat_of_nat)

lemma lossy_scalar:
  assumes "is_scalar c"
  shows "from_utf16_lossy (utf16_of_scalar c @ r) = c # from_utf16_lossy r"
proof (cases "c < 0x10000")
  case True
  then have u: "unat (word_of_nat c :: u16) = c" by (simp add: unat_u16_of_nat)
  moreover have "\<not> is_high (word_of_nat c)" "\<not> is_low (word_of_nat c)"
    using assms True u
    by (auto simp: is_high_def is_low_def is_scalar_def word_le_nat_alt word_less_nat_alt)
  ultimately show ?thesis
    using True by (simp add: utf16_of_scalar_def lossy_bmp)
next
  case False
  define k where "k = c - 0x10000"
  have c: "c = 0x10000 + k" and k: "k < 0x100000"
    using False assms by (auto simp: k_def is_scalar_def)
  have hi: "unat (word_of_nat (0xD800 + k div 0x400) :: u16) = 0xD800 + k div 0x400"
    using k by (intro unat_u16_of_nat) (simp add: div_less_iff_less_mult less_mult_imp_div_less)
  have lo: "unat (word_of_nat (0xDC00 + k mod 0x400) :: u16) = 0xDC00 + k mod 0x400"
  proof (intro unat_u16_of_nat)
    have "k mod 0x400 < 0x400" by simp
    then show "0xDC00 + k mod 0x400 < 65536" by linarith
  qed
  have "k div 0x400 < 0x400" using k by (simp add: less_mult_imp_div_less)
  then have "is_high (word_of_nat (0xD800 + k div 0x400))"
    unfolding is_high_def word_le_nat_alt word_less_nat_alt hi by simp
  moreover have "k mod 0x400 < 0x400" by simp
  then have "is_low (word_of_nat (0xDC00 + k mod 0x400))"
    unfolding is_low_def word_le_nat_alt word_less_nat_alt lo by simp
  moreover have "join_pair (word_of_nat (0xD800 + k div 0x400))
                           (word_of_nat (0xDC00 + k mod 0x400)) = c"
    unfolding join_pair_def hi lo c by (simp add: mult.commute)
  ultimately show ?thesis
    using False by (simp add: utf16_of_scalar_def k_def [symmetric] lossy_pair)
qed

lemma lossy_encode_append:
  "\<forall>c \<in> set s. is_scalar c \<Longrightarrow> from_utf16_lossy (encode_utf16 s @ r) = s @ from_utf16_lossy r"
  by (induction s) (simp_all add: encode_utf16_def lossy_scalar)

text \<open>\<^verbatim>\<open>String::from_utf16(..).is_err()\<close>: some surrogate is unpaired.\<close>

fun utf16_valid :: "u16 list \<Rightarrow> bool" where
  "utf16_valid [] = True"
| "utf16_valid [u] = (\<not> is_high u \<and> \<not> is_low u)"
| "utf16_valid (u # v # us) =
    (if is_high u then is_low v \<and> utf16_valid us
     else \<not> is_low u \<and> utf16_valid (v # us))"

section \<open>Lists\<close>

definition ends_with :: "'a list \<Rightarrow> 'a list \<Rightarrow> bool" where
  "ends_with xs suf \<longleftrightarrow> length suf \<le> length xs \<and> drop (length xs - length suf) xs = suf"

lemma ends_with_append [simp]: "ends_with (xs @ suf) suf"
  by (simp add: ends_with_def)

lemma ends_with_iff: "ends_with xs suf \<longleftrightarrow> (\<exists>p. xs = p @ suf)"
  by (auto simp: ends_with_def) (metis append_take_drop_id)

definition strip_prefix :: "'a list \<Rightarrow> 'a list \<Rightarrow> 'a list option" where
  "strip_prefix p xs =
    (if take (length p) xs = p then Some (drop (length p) xs) else None)"

lemma strip_prefix_append [simp]: "strip_prefix p (p @ xs) = Some xs"
  by (simp add: strip_prefix_def)

lemma strip_prefix_Some: "strip_prefix p xs = Some r \<longleftrightarrow> xs = p @ r"
  by (auto simp: strip_prefix_def) (metis append_take_drop_id)

definition strip_suffix :: "'a list \<Rightarrow> 'a list \<Rightarrow> 'a list option" where
  "strip_suffix s xs =
    (if ends_with xs s then Some (take (length xs - length s) xs) else None)"

text \<open>\<^verbatim>\<open>slice::split\<close> on one separator: always at least one piece.\<close>

fun split_on :: "'a \<Rightarrow> 'a list \<Rightarrow> 'a list list" where
  "split_on s [] = [[]]"
| "split_on s (x # xs) =
    (if x = s then [] # split_on s xs
     else (case split_on s xs of [] \<Rightarrow> [[x]] | p # ps \<Rightarrow> (x # p) # ps))"

lemma split_on_nonempty [simp]: "split_on s xs \<noteq> []"
  by (induction xs) (auto split: list.splits)

lemma split_on_no_sep: "s \<notin> set xs \<Longrightarrow> split_on s xs = [xs]"
  by (induction xs) auto

lemma split_on_append_sep:
  "s \<notin> set xs \<Longrightarrow> split_on s (xs @ s # ys) = xs # split_on s ys"
  by (induction xs) auto

lemma split_on_pieces: "p \<in> set (split_on s xs) \<Longrightarrow> s \<notin> set p"
  by (induction xs arbitrary: p) (auto split: list.splits if_splits)

lemma split_on_subset: "p \<in> set (split_on s xs) \<Longrightarrow> set p \<subseteq> set xs"
  by (induction xs arbitrary: p) (auto split: list.splits if_splits, blast+)

text \<open>Joining with a separator, the inverse of splitting.\<close>

fun join_with :: "'a \<Rightarrow> 'a list list \<Rightarrow> 'a list" where
  "join_with s [] = []"
| "join_with s [p] = p"
| "join_with s (p # q # ps) = p @ s # join_with s (q # ps)"

lemma join_split: "join_with s (split_on s xs) = xs"
proof (induction xs)
  case (Cons x xs)
  obtain p ps where "split_on s xs = p # ps" by (cases "split_on s xs") auto
  with Cons show ?case by (cases ps) auto
qed simp

section \<open>Strings\<close>

text \<open>
  \<^verbatim>\<open>str::trim\<close> on UTF-8 bytes: the encodings of the code points with the Unicode
  property White_Space.
\<close>

definition utf8_seq :: "nat list \<Rightarrow> string" where
  "utf8_seq ns = map char_of ns"

definition whitespace_seqs :: "string list" where
  "whitespace_seqs =
    map utf8_seq ([[9], [10], [11], [12], [13], [32], [0xC2, 0x85], [0xC2, 0xA0], [0xE1, 0x9A, 0x80]]
      @ map (\<lambda>n. [0xE2, 0x80, 0x80 + n]) [0..<11]
      @ [[0xE2, 0x80, 0xA8], [0xE2, 0x80, 0xA9], [0xE2, 0x80, 0xAF], [0xE2, 0x81, 0x9F],
         [0xE3, 0x80, 0x80]])"

lemma whitespace_nonempty: "w \<in> set whitespace_seqs \<Longrightarrow> w \<noteq> []"
  by (auto simp: whitespace_seqs_def utf8_seq_def)

definition starts_with :: "'a list \<Rightarrow> 'a list \<Rightarrow> bool" where
  "starts_with s p \<longleftrightarrow> take (length p) s = p"

fun drop_seqs :: "nat \<Rightarrow> string list \<Rightarrow> string \<Rightarrow> string" where
  "drop_seqs 0 ws s = s"
| "drop_seqs (Suc n) ws s =
    (case find (\<lambda>w. w \<noteq> [] \<and> starts_with s w) ws of
       Some w \<Rightarrow> drop_seqs n ws (drop (length w) s)
     | None \<Rightarrow> s)"

definition trim_start :: "string \<Rightarrow> string" where
  "trim_start s = drop_seqs (length s) whitespace_seqs s"

definition trim_end :: "string \<Rightarrow> string" where
  "trim_end s = rev (drop_seqs (length s) (map rev whitespace_seqs) (rev s))"

definition trim :: "string \<Rightarrow> string" where
  "trim s = trim_end (trim_start s)"

text \<open>Printable ASCII has nothing to trim.\<close>

definition printable :: "char \<Rightarrow> bool" where
  "printable c \<longleftrightarrow> 33 \<le> (of_char c :: nat) \<and> (of_char c :: nat) < 127"

lemma whitespace_ends: "list_all (\<lambda>w. \<not> printable (hd w) \<and> \<not> printable (last w)) whitespace_seqs"
  by (simp add: whitespace_seqs_def utf8_seq_def printable_def upt_rec)

lemma drop_seqs_stop:
  assumes "\<And>w. w \<in> set ws \<Longrightarrow> \<not> printable (hd w)" "s \<noteq> [] \<Longrightarrow> printable (hd s)"
  shows "drop_seqs n ws s = s"
proof -
  have "find (\<lambda>w. w \<noteq> [] \<and> starts_with s w) ws = None"
    unfolding find_None_iff starts_with_def
  proof (intro notI, elim exE conjE)
    fix w assume w: "w \<in> set ws" "w \<noteq> []" "take (length w) s = w"
    then have "s \<noteq> []" "hd s = hd w" by (auto, metis hd_take length_greater_0_conv)
    then show False using assms w by metis
  qed
  then show ?thesis by (cases n) simp_all
qed

lemma trim_printable: "list_all printable s \<Longrightarrow> trim s = s"
proof -
  assume s: "list_all printable s"
  have "trim_start s = s"
    unfolding trim_start_def
    by (rule drop_seqs_stop) (use whitespace_ends s in \<open>auto simp: list_all_iff\<close>)
  moreover have "drop_seqs (length s) (map rev whitespace_seqs) (rev s) = rev s"
  proof (rule drop_seqs_stop)
    fix w assume "w \<in> set (map rev whitespace_seqs)"
    then obtain v where "v \<in> set whitespace_seqs" "w = rev v" by auto
    then show "\<not> printable (hd w)" using whitespace_ends by (auto simp: list_all_iff hd_rev)
  next
    assume "rev s \<noteq> []"
    then show "printable (hd (rev s))" using s by (simp add: list_all_iff hd_rev)
  qed
  ultimately show "trim s = s" by (simp add: trim_def trim_end_def)
qed

definition split_once :: "'a \<Rightarrow> 'a list \<Rightarrow> ('a list \<times> 'a list) option" where
  "split_once c s =
    (if List.member s c
     then Some (takeWhile (\<lambda>x. x \<noteq> c) s, tl (dropWhile (\<lambda>x. x \<noteq> c) s)) else None)"

lemma split_once_Some:
  assumes "split_once c s = Some (a, b)"
  shows "s = a @ c # b \<and> c \<notin> set a"
proof -
  have mem: "c \<in> set s" and a: "a = takeWhile (\<lambda>x. x \<noteq> c) s"
    and b: "b = tl (dropWhile (\<lambda>x. x \<noteq> c) s)"
    using assms by (auto simp: split_once_def split: if_splits)
  obtain d ds where d: "dropWhile (\<lambda>x. x \<noteq> c) s = d # ds"
    using mem by (metis (mono_tags, lifting) dropWhile_eq_Nil_conv list.exhaust)
  then have "d = c" using hd_dropWhile [of "\<lambda>x. x \<noteq> c" s] by simp
  then have "s = a @ c # b" using a b d by (metis list.sel(3) takeWhile_dropWhile_id)
  then show ?thesis using a by (auto dest: set_takeWhileD)
qed

text \<open>The text of an unsigned integer of the given range: an optional \<open>+\<close>, then digits.\<close>

definition is_digit :: "char \<Rightarrow> bool" where
  "is_digit c \<longleftrightarrow> CHR ''0'' \<le> c \<and> c \<le> CHR ''9''"

definition digit_val :: "char \<Rightarrow> nat" where
  "digit_val c = of_char c - 48"

definition parse_digits :: "string \<Rightarrow> nat option" where
  "parse_digits s =
    (if s \<noteq> [] \<and> list_all is_digit s
     then Some (foldl (\<lambda>n c. 10 * n + digit_val c) 0 s) else None)"

definition parse_unsigned :: "nat \<Rightarrow> string \<Rightarrow> nat option" where
  "parse_unsigned bits s =
    (case parse_digits (if take 1 s = ''+'' then drop 1 s else s) of
       Some n \<Rightarrow> if n < 2 ^ bits then Some n else None
     | None \<Rightarrow> None)"

text \<open>\<^verbatim>\<open>usize::to_string\<close>.\<close>

definition digit :: "nat \<Rightarrow> char" where
  "digit d = char_of (48 + d)"

fun decimal :: "nat \<Rightarrow> string" where
  "decimal n = (if n < 10 then [digit n] else decimal (n div 10) @ [digit (n mod 10)])"

declare decimal.simps [simp del]

lemma digit_inj:
  assumes "a < 10" "b < 10"
  shows "digit a = digit b \<longleftrightarrow> a = b"
proof
  assume "digit a = digit b"
  then have "(of_char (digit a) :: nat) = of_char (digit b)" by simp
  then show "a = b" using assms by (simp add: digit_def)
qed simp

lemma decimal_inj: "decimal a = decimal b \<longleftrightarrow> a = b"
proof (induction a arbitrary: b rule: less_induct)
  case (less a)
  have nonempty: "decimal n \<noteq> []" for n by (subst decimal.simps) simp
  show ?case
  proof (cases "a < 10"; cases "b < 10")
    assume "a < 10" "b < 10"
    then show ?thesis by (simp add: decimal.simps digit_inj)
  next
    assume "a < 10" "\<not> b < 10"
    then show ?thesis using nonempty [of "b div 10"] by (subst (1 2) decimal.simps) auto
  next
    assume "\<not> a < 10" "b < 10"
    then show ?thesis using nonempty [of "a div 10"] by (subst (1 2) decimal.simps) auto
  next
    assume ab: "\<not> a < 10" "\<not> b < 10"
    then have "decimal a = decimal b \<longleftrightarrow> a div 10 = b div 10 \<and> a mod 10 = b mod 10"
      using less [of "a div 10" "b div 10"] by (subst (1 2) decimal.simps) (simp add: digit_inj)
    also have "\<dots> \<longleftrightarrow> a = b" by (metis div_mult_mod_eq)
    finally show ?thesis .
  qed
qed

text \<open>Keeping the value of an option that satisfies a test.\<close>

definition filter_option :: "('a \<Rightarrow> bool) \<Rightarrow> 'a option \<Rightarrow> 'a option" where
  "filter_option P x = (case x of Some v \<Rightarrow> if P v then Some v else None | None \<Rightarrow> None)"

lemma filter_option_simps [simp]:
  "filter_option P None = None"
  "filter_option P (Some v) = (if P v then Some v else None)"
  by (simp_all add: filter_option_def)

lemma filter_option_Some [simp]: "filter_option P x = Some v \<longleftrightarrow> x = Some v \<and> P v"
  by (cases x) auto

lemma filter_option_id: "(\<And>v. x = Some v \<Longrightarrow> P v) \<Longrightarrow> filter_option P x = x"
  by (cases x) auto

definition or_keep :: "'a option \<Rightarrow> 'a option \<Rightarrow> 'a option" where
  "or_keep newer older = (case newer of Some v \<Rightarrow> Some v | None \<Rightarrow> older)"

lemma or_keep_simps [simp]: "or_keep (Some v) o2 = Some v" "or_keep None o2 = o2"
  by (simp_all add: or_keep_def)

end
