(* ===== verification/Json_Value.thy ===== *)
theory Json_Value
  imports Prelude
begin

text \<open>
  The JSON values the client holds as \<^verbatim>\<open>serde_json::Value\<close>.  The crate builds
  serde_json with \<^verbatim>\<open>preserve_order\<close> and \<^verbatim>\<open>float_roundtrip\<close>: an object is an
  insertion-ordered association list with distinct keys, a number is an
  unsigned, a negative or a floating-point literal.  Floats are carried as
  their IEEE bit pattern: no modelled code computes with them.
\<close>

type_synonym f64 = "64 word"

datatype json_number = PosInt u64 | NegInt "64 word" | Float f64

datatype json =
    JNull
  | JBool bool
  | JNumber json_number
  | JString string
  | JArray "json list"
  | JObject "(string \<times> json) list"

section \<open>Readers\<close>

fun as_u64 :: "json \<Rightarrow> u64 option" where
  "as_u64 (JNumber (PosInt n)) = Some n"
| "as_u64 _ = None"

fun as_bool :: "json \<Rightarrow> bool option" where
  "as_bool (JBool b) = Some b"
| "as_bool _ = None"

fun as_str :: "json \<Rightarrow> string option" where
  "as_str (JString s) = Some s"
| "as_str _ = None"

fun is_object :: "json \<Rightarrow> bool" where
  "is_object (JObject _) = True"
| "is_object _ = False"

fun is_null :: "json \<Rightarrow> bool" where
  "is_null JNull = True"
| "is_null _ = False"

text \<open>\<^verbatim>\<open>Value::get\<close> with a string key: None on anything but an object.\<close>

fun jget :: "json \<Rightarrow> string \<Rightarrow> json option" where
  "jget (JObject kvs) k = map_of kvs k"
| "jget _ _ = None"

section \<open>JSON pointers\<close>

definition array_index :: "string \<Rightarrow> nat option" where
  "array_index s =
    (if take 1 s = ''0'' \<and> length s \<noteq> 1 then None
     else (case parse_digits s of
             Some n \<Rightarrow> if n < 2 ^ 64 then Some n else None
           | None \<Rightarrow> None))"

text \<open>\<^verbatim>\<open>token.replace("~1", "/").replace("~0", "~")\<close>\<close>

fun replace2 :: "'a \<Rightarrow> 'a \<Rightarrow> 'a \<Rightarrow> 'a list \<Rightarrow> 'a list" where
  "replace2 a b c (x # y # r) =
    (if x = a \<and> y = b then c # replace2 a b c r else x # replace2 a b c (y # r))"
| "replace2 a b c s = s"

definition unescape_token :: "string \<Rightarrow> string" where
  "unescape_token t =
    replace2 (CHR ''~'') (CHR ''0'') (CHR ''~'') (replace2 (CHR ''~'') (CHR ''1'') (CHR ''/'') t)"

fun pointer_step :: "json \<Rightarrow> string \<Rightarrow> json option" where
  "pointer_step (JObject kvs) t = map_of kvs t"
| "pointer_step (JArray xs) t =
    (case array_index t of
       Some i \<Rightarrow> if i < length xs then Some (xs ! i) else None
     | None \<Rightarrow> None)"
| "pointer_step _ _ = None"

fun pointer_walk :: "json \<Rightarrow> string list \<Rightarrow> json option" where
  "pointer_walk v [] = Some v"
| "pointer_walk v (t # ts) =
    (case pointer_step v (unescape_token t) of
       Some w \<Rightarrow> pointer_walk w ts
     | None \<Rightarrow> None)"

definition pointer :: "json \<Rightarrow> string \<Rightarrow> json option" where
  "pointer v p =
    (if p = [] then Some v
     else if hd p \<noteq> CHR ''/'' then None
     else pointer_walk v (tl (split_on (CHR ''/'') p)))"

section \<open>Objects as insertion-ordered maps\<close>

text \<open>\<^verbatim>\<open>Map::insert\<close>: an existing key keeps its position, a new one goes last.\<close>

fun obj_insert :: "string \<Rightarrow> 'v \<Rightarrow> (string \<times> 'v) list \<Rightarrow> (string \<times> 'v) list" where
  "obj_insert k v [] = [(k, v)]"
| "obj_insert k v ((k', v') # r) =
    (if k' = k then (k, v) # r else (k', v') # obj_insert k v r)"

lemma map_of_obj_insert [simp]: "map_of (obj_insert k v m) = (map_of m)(k \<mapsto> v)"
  by (induction m) auto

lemma map_fst_obj_insert:
  "map fst (obj_insert k v m) =
    (if k \<in> set (map fst m) then map fst m else map fst m @ [k])"
proof (induction m)
  case (Cons p m)
  then show ?case by (cases p) (simp del: set_map)
qed simp

lemma keys_obj_insert: "fst ` set (obj_insert k v m) = insert k (fst ` set m)"
proof -
  have "set (map fst (obj_insert k v m)) = insert k (set (map fst m))"
    unfolding map_fst_obj_insert by auto
  then show ?thesis by simp
qed

lemma distinct_obj_insert: "distinct (map fst m) \<Longrightarrow> distinct (map fst (obj_insert k v m))"
  by (simp add: map_fst_obj_insert)

lemma obj_insert_same: "map_of m k = Some v \<Longrightarrow> obj_insert k v m = m"
  by (induction m) auto

lemma obj_insert_idem [simp]: "obj_insert k v (obj_insert k w m) = obj_insert k v m"
  by (induction m) auto

lemma obj_insert_new: "k \<notin> fst ` set m \<Longrightarrow> obj_insert k v m = m @ [(k, v)]"
  by (induction m) auto

lemma as_u64_Some: "as_u64 v = Some n \<longleftrightarrow> v = JNumber (PosInt n)"
  by (cases v rule: as_u64.cases) auto

lemma jget_Some_object: "jget v k = Some w \<Longrightarrow> is_object v"
  by (cases v) auto

text \<open>Well-formed values: every object in the tree has distinct keys.\<close>

fun wf_json :: "json \<Rightarrow> bool" where
  "wf_json (JArray xs) = list_all wf_json xs"
| "wf_json (JObject kvs) = (distinct (map fst kvs) \<and> list_all (\<lambda>kv. wf_json (snd kv)) kvs)"
| "wf_json _ = True"

lemma wf_json_member:
  assumes "wf_json (JObject kvs)" "map_of kvs k = Some v"
  shows "wf_json v"
proof -
  have "(k, v) \<in> set kvs" using assms(2) by (rule map_of_SomeD)
  then show ?thesis using assms(1) by (auto simp: list_all_iff)
qed

section \<open>Equality and assignment\<close>

text \<open>
  \<^verbatim>\<open>Value\<close> equality: floats compare as IEEE numbers, so the two zeros are
  equal; objects compare as maps, whatever their insertion order.
\<close>

fun number_eq :: "json_number \<Rightarrow> json_number \<Rightarrow> bool" where
  "number_eq (Float a) (Float b) \<longleftrightarrow>
    a = b \<or> (a = 0 \<or> a = 0x8000000000000000) \<and> (b = 0 \<or> b = 0x8000000000000000)"
| "number_eq a b \<longleftrightarrow> a = b"

lemma size_map_of: "map_of kvs k = Some v \<Longrightarrow> size v < size (JObject kvs)"
proof (induction kvs)
  case (Cons p kvs)
  then show ?case by (cases p) (auto split: if_splits)
qed simp

lemma size_member: "y \<in> set ys \<Longrightarrow> size y < size (JArray ys)"
  using size_list_estimation' [of y ys "size y" size] by simp

function json_eq :: "json \<Rightarrow> json \<Rightarrow> bool" where
  "json_eq a b =
    (case (a, b) of
       (JNumber m, JNumber n) \<Rightarrow> number_eq m n
     | (JArray xs, JArray ys) \<Rightarrow>
         length xs = length ys \<and> list_all (\<lambda>(x, y). json_eq x y) (zip xs ys)
     | (JObject xs, JObject ys) \<Rightarrow>
         length xs = length ys \<and>
         list_all (\<lambda>(k, x). case map_of ys k of Some y \<Rightarrow> json_eq x y | None \<Rightarrow> False) xs
     | _ \<Rightarrow> a = b)"
  by pat_completeness auto
termination
  by (relation "measure (\<lambda>(a, b). size b)")
     (auto dest!: set_zip_rightD size_member size_map_of)

declare json_eq.simps [simp del]

text \<open>\<^verbatim>\<open>value[key] = new\<close> on an object.\<close>

fun jset :: "json \<Rightarrow> string \<Rightarrow> json \<Rightarrow> json" where
  "jset (JObject kvs) k v = JObject (obj_insert k v kvs)"
| "jset other k v = other"

lemma jget_jset [simp]:
  "is_object j \<Longrightarrow> jget (jset j k v) k' = (if k' = k then Some v else jget j k')"
  by (cases j) auto

lemma is_object_jset [simp]: "is_object (jset j k v) = is_object j"
  by (cases j) auto

text \<open>A pointer of two named steps reads like two \<^verbatim>\<open>get\<close> calls.\<close>

definition plain_key :: "string \<Rightarrow> bool" where
  "plain_key k \<longleftrightarrow> k \<noteq> [] \<and> CHR ''~'' \<notin> set k \<and> CHR ''/'' \<notin> set k \<and> \<not> list_all is_digit k"

lemma replace2_absent: "a \<notin> set s \<Longrightarrow> replace2 a b c s = s"
  by (induction a b c s rule: replace2.induct) auto

lemma unescape_plain [simp]: "CHR ''~'' \<notin> set k \<Longrightarrow> unescape_token k = k"
  by (simp add: unescape_token_def replace2_absent)

lemma pointer_step_plain: "plain_key k \<Longrightarrow> pointer_step v k = jget v k"
  by (cases v) (auto simp: plain_key_def array_index_def parse_digits_def)

lemma split_on_slash: "plain_key k \<Longrightarrow> split_on (CHR ''/'') k = [k]"
  by (simp add: plain_key_def split_on_no_sep)

lemma pointer_one:
  assumes "plain_key a"
  shows "pointer v (CHR ''/'' # a) = jget v a"
  using assms
  by (simp add: pointer_def split_on_slash pointer_step_plain plain_key_def split: option.split)

lemma pointer_two:
  assumes "plain_key a" "plain_key b"
  shows "pointer v (CHR ''/'' # a @ CHR ''/'' # b) =
    (case jget v a of Some w \<Rightarrow> jget w b | None \<Rightarrow> None)"
proof -
  have "split_on (CHR ''/'') (a @ CHR ''/'' # b) = [a, b]"
    using assms split_on_append_sep [of "CHR ''/''" a b] by (simp add: plain_key_def split_on_no_sep)
  then show ?thesis
    using assms pointer_step_plain
    by (simp add: pointer_def plain_key_def split: option.split)
qed

end
