(* ===== verification/Protocol_Types.thy ===== *)
theory Protocol_Types
  imports Json_Value
begin

text \<open>
  The closed enumerations of \<^verbatim>\<open>src/protocol/provider.rs\<close> that every other
  component reads: wire protocols, directory routes, credential schemes,
  billing modes and usage regions; and the identifiers of
  \<^verbatim>\<open>src/protocol/ids.rs\<close>, opaque strings.
\<close>

type_synonym provider_id = string
type_synonym tool_use_id = string
type_synonym response_id = string

text \<open>A \<^verbatim>\<open>JsonPayload\<close> is kept as its exact JSON source text.\<close>
type_synonym json_payload = string

datatype protocol_family =
    AnthropicMessages
  | OpenAiChat
  | OpenAiResponses
  | GeminiGenerateContent
  | GeminiInteractions
  | VertexClaude
  | VertexGemini
  | BedrockClaude
  | AzureOpenAi
  | FoundryClaude

definition protocol_families :: "protocol_family list" where
  "protocol_families =
    [AnthropicMessages, OpenAiChat, OpenAiResponses, GeminiGenerateContent, GeminiInteractions,
     VertexClaude, VertexGemini, BedrockClaude, AzureOpenAi, FoundryClaude]"

fun encodes_response_format :: "protocol_family \<Rightarrow> bool" where
  "encodes_response_format GeminiInteractions = False"
| "encodes_response_format _ = True"

text \<open>The derived \<^verbatim>\<open>Ord\<close>: the position in the declaration.\<close>

fun protocol_index :: "protocol_family \<Rightarrow> nat" where
  "protocol_index AnthropicMessages = 0"
| "protocol_index OpenAiChat = 1"
| "protocol_index OpenAiResponses = 2"
| "protocol_index GeminiGenerateContent = 3"
| "protocol_index GeminiInteractions = 4"
| "protocol_index VertexClaude = 5"
| "protocol_index VertexGemini = 6"
| "protocol_index BedrockClaude = 7"
| "protocol_index AzureOpenAi = 8"
| "protocol_index FoundryClaude = 9"

lemma protocol_index_inj: "protocol_index p = protocol_index q \<Longrightarrow> p = q"
  by (cases p; cases q) simp_all

instantiation protocol_family :: linorder
begin

definition less_eq_protocol_family :: "protocol_family \<Rightarrow> protocol_family \<Rightarrow> bool" where
  "less_eq_protocol_family p q \<longleftrightarrow> protocol_index p \<le> protocol_index q"

definition less_protocol_family :: "protocol_family \<Rightarrow> protocol_family \<Rightarrow> bool" where
  "less_protocol_family p q \<longleftrightarrow> protocol_index p < protocol_index q"

instance
  by standard
    (auto simp: less_eq_protocol_family_def less_protocol_family_def intro: protocol_index_inj)

end

lemma protocol_families_complete: "p \<in> set protocol_families"
  by (cases p) (simp_all add: protocol_families_def)

text \<open>The serde name of each family (\<^verbatim>\<open>rename_all = "snake_case"\<close>).\<close>

fun protocol_name :: "protocol_family \<Rightarrow> string" where
  "protocol_name AnthropicMessages = ''anthropic_messages''"
| "protocol_name OpenAiChat = ''open_ai_chat''"
| "protocol_name OpenAiResponses = ''open_ai_responses''"
| "protocol_name GeminiGenerateContent = ''gemini_generate_content''"
| "protocol_name GeminiInteractions = ''gemini_interactions''"
| "protocol_name VertexClaude = ''vertex_claude''"
| "protocol_name VertexGemini = ''vertex_gemini''"
| "protocol_name BedrockClaude = ''bedrock_claude''"
| "protocol_name AzureOpenAi = ''azure_open_ai''"
| "protocol_name FoundryClaude = ''foundry_claude''"

definition protocol_of_name :: "string \<Rightarrow> protocol_family option" where
  "protocol_of_name s = find (\<lambda>p. protocol_name p = s) protocol_families"

datatype directory_route = SameAsProtocol | NotPublished | Shape protocol_family

fun directory_shape :: "directory_route \<Rightarrow> protocol_family \<Rightarrow> protocol_family option" where
  "directory_shape SameAsProtocol protocol = Some protocol"
| "directory_shape NotPublished protocol = None"
| "directory_shape (Shape family) protocol = Some family"

fun serialize_route :: "directory_route \<Rightarrow> string" where
  "serialize_route SameAsProtocol = ''same_as_protocol''"
| "serialize_route NotPublished = ''none''"
| "serialize_route (Shape family) = protocol_name family"

definition deserialize_route :: "string \<Rightarrow> directory_route option" where
  "deserialize_route raw =
    (if raw = ''same_as_protocol'' then Some SameAsProtocol
     else if raw = ''none'' then Some NotPublished
     else map_option Shape (protocol_of_name raw))"

lemma protocol_of_name_name [simp]: "protocol_of_name (protocol_name p) = Some p"
  by (cases p) (simp_all add: protocol_of_name_def protocol_families_def)

lemma protocol_name_of:
  assumes "protocol_of_name s = Some p"
  shows "s = protocol_name p"
  using assms by (auto simp: protocol_of_name_def find_Some_iff)

datatype auth_strategy =
    ApiKey | Bearer | OAuthBearer | ChatGptPlan | CopilotBearer | ChatGptOAuth
  | GcpToken | AwsSigV4 | AzureToken | NoAuth

datatype credential_config =
    CredEnv string
  | CredStatic string
  | CredHostManaged string
  | CredNone

datatype billing_mode = PerToken | Subscription | FreeOfCharge | UnknownBilling

datatype region = ChinaMainland | International

text \<open>Only a static credential refuses to be written back out.\<close>

definition serialize_credential :: "credential_config \<Rightarrow> string + (string \<times> string) list" where
  "serialize_credential c =
    (case c of
       CredStatic _ \<Rightarrow> Err ''static credentials cannot be persisted''
     | CredEnv var \<Rightarrow> Ok [(''source'', ''env''), (''var'', var)]
     | CredHostManaged key \<Rightarrow> Ok [(''source'', ''host_managed''), (''key'', key)]
     | CredNone \<Rightarrow> Ok [(''source'', ''none'')])"

text \<open>The reading direction: the derived \<^verbatim>\<open>Deserialize\<close> with \<^verbatim>\<open>source\<close> as tag.\<close>

definition deserialize_credential :: "(string \<times> string) list \<Rightarrow> credential_config option" where
  "deserialize_credential kvs =
    (case map_of kvs ''source'' of
       None \<Rightarrow> None
     | Some src \<Rightarrow>
         if src = ''env'' then map_option CredEnv (map_of kvs ''var'')
         else if src = ''static'' then map_option CredStatic (map_of kvs ''value'')
         else if src = ''host_managed'' then map_option CredHostManaged (map_of kvs ''key'')
         else if src = ''none'' then Some CredNone
         else None)"

text \<open>
  A directory route survives serialisation: reading back the written text
  gives the route, the two reserved words never being the name of a family.
\<close>

theorem directory_route_roundtrip:
  "deserialize_route (serialize_route r) = Some r"
proof (cases r)
  case (Shape p)
  then show ?thesis by (cases p) (simp_all add: deserialize_route_def protocol_of_name_def
    protocol_families_def)
qed (simp_all add: deserialize_route_def)

text \<open>
  A persisted credential never carries a static secret: serialisation fails
  exactly on static credentials, and whatever it writes reads back to the
  same configuration.
\<close>

theorem credential_persistence:
  "(case serialize_credential c of
      Inl e \<Rightarrow> (\<exists>s. c = CredStatic s)
    | Inr kvs \<Rightarrow> (\<nexists>s. c = CredStatic s) \<and> deserialize_credential kvs = Some c)"
  by (cases c) (simp_all add: serialize_credential_def deserialize_credential_def)

end
