(* ===== verification/Errors.thy ===== *)
theory Errors
  imports Protocol_Types
begin

text \<open>
  The error taxonomy of \<^verbatim>\<open>src/protocol/llm.rs\<close>: the variants of
  \<^verbatim>\<open>LlmError\<close>, their field-less kinds, the two carriers that wrap another
  error (provider response text and the proxy-auth helper challenge), the
  operations that attach and remove carriers, and the tri-state reductions of
  the Native Anthropic error evidence.

  A formatted message is kept as the list of the pieces its \<^verbatim>\<open>format!\<close> call
  joins, interpolated values included; the rendering itself is not modelled.
\<close>

section \<open>Messages and provider text\<close>

datatype msg_part =
    Lit string
  | Dec nat
  | Hex8 u32
  | DebugStr string
  | Utf8Err "nat \<times> nat option"

type_synonym message = "msg_part list"

text \<open>Durations in nanoseconds.\<close>
type_synonym duration = nat

text \<open>
  \<^verbatim>\<open>ProviderErrorText\<close>: the lossy display text, as scalar values, and the
  authoritative UTF-16 code units.
\<close>

record provider_error_text =
  display :: scalars
  utf16_code_units :: "u16 list"

definition new_provider_text :: "scalars \<Rightarrow> u16 list \<Rightarrow> provider_error_text option" where
  "new_provider_text d units =
    (if from_utf16_lossy units = d
     then Some \<lparr> display = d, utf16_code_units = units \<rparr> else None)"

definition provider_text_of_string :: "scalars \<Rightarrow> provider_error_text option" where
  "provider_text_of_string d = new_provider_text d (encode_utf16 d)"

text \<open>The None of the next two is the \<^verbatim>\<open>expect\<close> of the source failing.\<close>

definition prefixed :: "provider_error_text \<Rightarrow> scalars \<Rightarrow> provider_error_text option" where
  "prefixed t p = new_provider_text (p @ display t) (encode_utf16 p @ utf16_code_units t)"

definition wf_provider_text :: "provider_error_text \<Rightarrow> bool" where
  "wf_provider_text t \<longleftrightarrow> from_utf16_lossy (utf16_code_units t) = display t"

record provider_file_source =
  pf_protocol :: protocol_family
  pf_provider_id :: provider_id
  pf_profile_name :: string
  pf_endpoint_fingerprint :: string
  pf_account_scope :: "string option"
  pf_file_id :: string
  pf_uri :: "string option"
  pf_expires_at :: "string option"
  pf_processing_status :: "string option"
  pf_media_type :: "string option"
  pf_purpose :: "string option"

record proxy_auth_helper_challenge =
  challenge_status :: u16
  proxy_authenticate :: "bytes option"

section \<open>Native Anthropic evidence\<close>

record thinking_binding_controls_evidence =
  explicit_refusal :: bool
  token_refusal :: bool
  invalid_beta_flag :: bool

datatype thinking_type_rejection = RejectEnabled | RejectAdaptive

datatype model_provider_family = FirstParty | Bedrock | Vertex | Foundry | OtherFamily

record hq_known_error_evidence =
  normalized_status :: u16
  model_refused :: "bool option"
  afk_mode_beta_rejected :: "bool option"
  advisor_tool_result_rejected :: "bool option"
  advisor_tool_model_rejected :: "bool option"
  encrypted_search_payload_rejected :: "bool option"
  encrypted_code_execution_payload_rejected :: "bool option"
  media_input_rejected :: "bool option"
  named_beta_rejected :: "bool option"
  cache_keepalive_beta_rejected :: "bool option"
  thinking_resumption_beta_rejected :: "bool option"
  thinking_binding_controls_rejected :: "bool option"
  thinking_type_rejected :: "bool option"
  thinking_signature_rejected :: "bool option"
  mid_conversation_system_rejected :: "bool option"
  tool_addition_rejected :: "bool option"
  tool_definition_rejected :: "bool option"
  cache_control_field_rejected :: "bool option"
  per_message_effort_rejected :: "bool option"
  per_turn_timing_rejected :: "bool option"
  effort_unsupported :: "bool option"
  structured_outputs_rejected :: "bool option"

definition hq_claims :: "hq_known_error_evidence \<Rightarrow> bool option list" where
  "hq_claims e =
    [model_refused e,
     afk_mode_beta_rejected e,
     advisor_tool_result_rejected e,
     advisor_tool_model_rejected e,
     encrypted_search_payload_rejected e,
     encrypted_code_execution_payload_rejected e,
     media_input_rejected e,
     named_beta_rejected e,
     cache_keepalive_beta_rejected e,
     thinking_resumption_beta_rejected e,
     thinking_binding_controls_rejected e,
     thinking_type_rejected e,
     thinking_signature_rejected e,
     mid_conversation_system_rejected e,
     tool_addition_rejected e,
     tool_definition_rejected e,
     cache_control_field_rejected e,
     per_message_effort_rejected e,
     per_turn_timing_rejected e,
     effort_unsupported e,
     structured_outputs_rejected e]"

definition hq_aggregate_claim :: "hq_known_error_evidence \<Rightarrow> bool option" where
  "hq_aggregate_claim e =
    (if Some True \<in> set (hq_claims e) then Some True
     else if list_all (\<lambda>claim. claim = Some False) (hq_claims e) then Some False
     else None)"

record hrn15_error_evidence =
  original_status :: u16
  prefix_lock_message_match :: bool
  prompt_too_long :: bool
  context_overflow :: bool
  credit_balance_too_low :: bool
  organization_disabled :: bool
  fast_mode_not_enabled :: bool
  advisor_model_unavailable :: bool
  dlp_request_denied :: bool
  policy_blocked :: bool
  output_blocked_by_content_filter :: bool
  native_hie_claim :: bool
  native_su_claim :: bool
  hrn_mid_conversation_system_rejected :: bool
  hrn_encrypted_search_payload_rejected :: bool
  hrn_encrypted_code_execution_payload_rejected :: bool

definition non_prefix_claims :: "hrn15_error_evidence \<Rightarrow> bool list" where
  "non_prefix_claims e =
    [prompt_too_long e,
     context_overflow e,
     credit_balance_too_low e,
     organization_disabled e,
     fast_mode_not_enabled e,
     advisor_model_unavailable e,
     dlp_request_denied e,
     policy_blocked e,
     output_blocked_by_content_filter e,
     native_hie_claim e,
     native_su_claim e,
     hrn_mid_conversation_system_rejected e,
     hrn_encrypted_search_payload_rejected e,
     hrn_encrypted_code_execution_payload_rejected e]"

definition hrn15_aggregate_claim :: "hrn15_error_evidence \<Rightarrow> bool option \<Rightarrow> bool option" where
  "hrn15_aggregate_claim e prefix_lock_heal_declined =
    (if True \<in> set (non_prefix_claims e) then Some True
     else if \<not> prefix_lock_message_match e then Some False
     else map_option Not
            (if original_status e = 422 then Some False else prefix_lock_heal_declined))"

record thinking_prefix_mismatch =
  mismatch_block :: "(u32 \<times> u32) option"
  mismatch_kind :: "string option"

record native_anthropic_error_response =
  response_body :: "json_payload option"
  response_prefix_mismatch :: "thinking_prefix_mismatch option"
  api_error_name :: "string option"
  amzn_error_type :: "string option"
  unified_representative_claim :: "string option"
  unified_overage_disabled_reason :: "string option"

record native_anthropic_error_facts =
  facts_provider_id :: provider_id
  facts_protocol :: protocol_family
  request_authority :: "string option"
  thinking_resumption_refused :: bool
  thinking_resumption_beta_requested :: "bool option"
  thinking_resumption_beta_refused :: bool
  facts_thinking_type_rejection :: "thinking_type_rejection option"
  thinking_binding_controls_beta_requested :: "bool option"
  facts_binding_controls_evidence :: "thinking_binding_controls_evidence option"
  hq_model_source :: "json_payload option"
  hq_model_provider_family :: "model_provider_family option"
  facts_hq_known_error_evidence :: "hq_known_error_evidence option"
  facts_hrn15_evidence :: "hrn15_error_evidence option"
  facts_response :: "native_anthropic_error_response option"

section \<open>The error type\<close>

datatype llm_error_kind =
    AuthenticationKind
  | PermissionDeniedKind
  | InvalidRequestKind
  | RateLimitedKind
  | QuotaExceededKind
  | ContextOverflowKind
  | RequestTooLargeKind
  | ModelUnavailableKind
  | ProviderInternalKind
  | ProviderTimeoutKind
  | OverloadedKind
  | TransportKind
  | TransportTimeoutKind
  | FileUploadOutcomeUnknownKind
  | ProviderFileProcessingKind
  | TlsCertKind
  | StreamInterruptedKind
  | CostUnavailableKind
  | UnsupportedCapabilityKind

definition llm_error_kinds :: "llm_error_kind list" where
  "llm_error_kinds =
    [AuthenticationKind,
     PermissionDeniedKind,
     InvalidRequestKind,
     RateLimitedKind,
     QuotaExceededKind,
     ContextOverflowKind,
     RequestTooLargeKind,
     ModelUnavailableKind,
     ProviderInternalKind,
     ProviderTimeoutKind,
     OverloadedKind,
     TransportKind,
     TransportTimeoutKind,
     FileUploadOutcomeUnknownKind,
     ProviderFileProcessingKind,
     TlsCertKind,
     StreamInterruptedKind,
     CostUnavailableKind,
     UnsupportedCapabilityKind]"

datatype llm_error =
    Authentication message
  | PermissionDenied message
  | InvalidRequest message
  | RateLimited message "duration option"
  | QuotaExceeded message
  | ContextOverflow message "u64 option" "u64 option"
  | RequestTooLarge message
  | ModelUnavailable message
  | ProviderInternal message
  | ProviderResponse u16 "string option" json llm_error_kind "duration option"
  | ProxyTunnelResponse u16 "bytes option"
  | ProxyAuthHelperRetry llm_error "proxy_auth_helper_challenge option"
  | ProviderTimeout message "u16 option"
  | Overloaded message bool
  | Transport message
  | TransportTimeout message
  | FileUploadOutcomeUnknown message
  | ProviderFileProcessing message provider_file_source
  | TlsCert message
  | StreamInterrupted message
  | CostUnavailable message
  | UnsupportedCapability message
  | ProviderErrorText llm_error provider_error_text "native_anthropic_error_facts option"

section \<open>Carriers\<close>

fun classification_source :: "llm_error \<Rightarrow> llm_error" where
  "classification_source (ProviderErrorText source t facts) = classification_source source"
| "classification_source (ProxyAuthHelperRetry source c) = classification_source source"
| "classification_source other = other"

text \<open>Writing through \<^verbatim>\<open>classification_source_mut\<close> applies \<open>f\<close> at the innermost error.\<close>

fun map_classification_source :: "(llm_error \<Rightarrow> llm_error) \<Rightarrow> llm_error \<Rightarrow> llm_error" where
  "map_classification_source f (ProviderErrorText source t facts) =
    ProviderErrorText (map_classification_source f source) t facts"
| "map_classification_source f (ProxyAuthHelperRetry source c) =
    ProxyAuthHelperRetry (map_classification_source f source) c"
| "map_classification_source f other = f other"

fun into_classification_source :: "llm_error \<Rightarrow> llm_error" where
  "into_classification_source (ProviderErrorText source t facts) =
    into_classification_source source"
| "into_classification_source (ProxyAuthHelperRetry source c) =
    ProxyAuthHelperRetry (into_classification_source source) c"
| "into_classification_source other = other"

fun helper_challenge :: "llm_error \<Rightarrow> proxy_auth_helper_challenge option" where
  "helper_challenge (ProxyAuthHelperRetry source c) = c"
| "helper_challenge (ProviderErrorText source t facts) = helper_challenge source"
| "helper_challenge _ = None"

definition with_proxy_auth_helper_challenge ::
  "llm_error \<Rightarrow> proxy_auth_helper_challenge \<Rightarrow> llm_error" where
  "with_proxy_auth_helper_challenge e c = ProxyAuthHelperRetry e (Some c)"

fun error_provider_text :: "llm_error \<Rightarrow> provider_error_text option" where
  "error_provider_text (ProviderErrorText source t facts) = Some t"
| "error_provider_text (ProxyAuthHelperRetry source c) = error_provider_text source"
| "error_provider_text _ = None"

fun native_facts :: "llm_error \<Rightarrow> native_anthropic_error_facts option" where
  "native_facts (ProviderErrorText source t facts) = facts"
| "native_facts (ProxyAuthHelperRetry source c) = native_facts source"
| "native_facts _ = None"

fun with_provider_error_text :: "llm_error \<Rightarrow> provider_error_text \<Rightarrow> llm_error" where
  "with_provider_error_text (ProviderErrorText source t0 facts) t =
    ProviderErrorText (into_classification_source source) t facts"
| "with_provider_error_text (ProxyAuthHelperRetry source c) t =
    ProxyAuthHelperRetry (with_provider_error_text source t) c"
| "with_provider_error_text other t =
    ProviderErrorText (into_classification_source other) t None"

definition with_native_anthropic_error ::
  "llm_error \<Rightarrow> provider_error_text \<Rightarrow> native_anthropic_error_facts \<Rightarrow> llm_error" where
  "with_native_anthropic_error e t facts =
    ProviderErrorText (into_classification_source e) t (Some facts)"

fun with_native_anthropic_request_authority ::
  "llm_error \<Rightarrow> string option \<Rightarrow> llm_error" where
  "with_native_anthropic_request_authority (ProviderErrorText source t (Some facts)) authority =
    ProviderErrorText source t (Some (facts \<lparr> request_authority := authority \<rparr>))"
| "with_native_anthropic_request_authority (ProviderErrorText source t None) authority =
    ProviderErrorText (with_native_anthropic_request_authority source authority) t None"
| "with_native_anthropic_request_authority (ProxyAuthHelperRetry source c) authority =
    ProxyAuthHelperRetry (with_native_anthropic_request_authority source authority) c"
| "with_native_anthropic_request_authority other authority = other"

definition with_optional_provider_error_text ::
  "llm_error \<Rightarrow> provider_error_text option \<Rightarrow> llm_error" where
  "with_optional_provider_error_text e t =
    (case t of Some t \<Rightarrow> with_provider_error_text e t | None \<Rightarrow> e)"

text \<open>
  The outer match of \<^verbatim>\<open>kind\<close>, on the innermost error.  The carriers' arm is
  \<^verbatim>\<open>unreachable!\<close> in the source: None here.
\<close>

fun variant_kind :: "llm_error \<Rightarrow> llm_error_kind option" where
  "variant_kind (Authentication m) = Some AuthenticationKind"
| "variant_kind (PermissionDenied m) = Some PermissionDeniedKind"
| "variant_kind (InvalidRequest m) = Some InvalidRequestKind"
| "variant_kind (RateLimited m r) = Some RateLimitedKind"
| "variant_kind (QuotaExceeded m) = Some QuotaExceededKind"
| "variant_kind (ContextOverflow m l a) = Some ContextOverflowKind"
| "variant_kind (RequestTooLarge m) = Some RequestTooLargeKind"
| "variant_kind (ModelUnavailable m) = Some ModelUnavailableKind"
| "variant_kind (ProviderInternal m) = Some ProviderInternalKind"
| "variant_kind (ProviderResponse s i b classification r) = Some classification"
| "variant_kind (ProxyTunnelResponse s h) = Some TransportKind"
| "variant_kind (ProviderTimeout m s) = Some ProviderTimeoutKind"
| "variant_kind (Overloaded m b) = Some OverloadedKind"
| "variant_kind (Transport m) = Some TransportKind"
| "variant_kind (TransportTimeout m) = Some TransportTimeoutKind"
| "variant_kind (FileUploadOutcomeUnknown m) = Some FileUploadOutcomeUnknownKind"
| "variant_kind (ProviderFileProcessing m f) = Some ProviderFileProcessingKind"
| "variant_kind (TlsCert m) = Some TlsCertKind"
| "variant_kind (StreamInterrupted m) = Some StreamInterruptedKind"
| "variant_kind (CostUnavailable m) = Some CostUnavailableKind"
| "variant_kind (UnsupportedCapability m) = Some UnsupportedCapabilityKind"
| "variant_kind (ProviderErrorText source t facts) = None"
| "variant_kind (ProxyAuthHelperRetry source c) = None"

definition kind :: "llm_error \<Rightarrow> llm_error_kind option" where
  "kind e = variant_kind (classification_source e)"

section \<open>Lemmas\<close>

text \<open>An error that carries no other one.\<close>

fun is_carrier :: "llm_error \<Rightarrow> bool" where
  "is_carrier (ProviderErrorText source t facts) = True"
| "is_carrier (ProxyAuthHelperRetry source c) = True"
| "is_carrier _ = False"

lemma classification_source_plain [simp]: "\<not> is_carrier (classification_source e)"
  by (induction e) simp_all

lemma variant_kind_Some: "\<not> is_carrier e \<Longrightarrow> variant_kind e \<noteq> None"
  by (cases e) simp_all

lemma classification_source_into [simp]:
  "classification_source (into_classification_source e) = classification_source e"
  by (induction e) simp_all

lemma classification_source_text [simp]:
  "classification_source (with_provider_error_text e t) = classification_source e"
  by (induction e t rule: with_provider_error_text.induct) simp_all

lemma classification_source_authority [simp]:
  "classification_source (with_native_anthropic_request_authority e a) = classification_source e"
  by (induction e a rule: with_native_anthropic_request_authority.induct) simp_all

lemma helper_challenge_into [simp]:
  "helper_challenge (into_classification_source e) = helper_challenge e"
  by (induction e) simp_all

lemma helper_challenge_text [simp]:
  "helper_challenge (with_provider_error_text e t) = helper_challenge e"
  by (induction e t rule: with_provider_error_text.induct) simp_all

lemma helper_challenge_authority [simp]:
  "helper_challenge (with_native_anthropic_request_authority e a) = helper_challenge e"
  by (induction e a rule: with_native_anthropic_request_authority.induct) simp_all

lemma native_facts_text [simp]:
  "native_facts (with_provider_error_text e t) = native_facts e"
  by (induction e t rule: with_provider_error_text.induct) simp_all

lemma error_text_of_text [simp]:
  "error_provider_text (with_provider_error_text e t) = Some t"
  by (induction e t rule: with_provider_error_text.induct) simp_all

lemma error_text_authority [simp]:
  "error_provider_text (with_native_anthropic_request_authority e a) = error_provider_text e"
  by (induction e a rule: with_native_anthropic_request_authority.induct) simp_all

lemma no_text_into [simp]: "error_provider_text (into_classification_source e) = None"
  by (induction e) simp_all

lemma no_facts_into [simp]: "native_facts (into_classification_source e) = None"
  by (induction e) simp_all

lemmas carrier_simps =
  classification_source_into classification_source_text classification_source_authority
  helper_challenge_into helper_challenge_text helper_challenge_authority

lemma llm_error_kinds_complete: "k \<in> set llm_error_kinds"
  by (cases k) (simp_all add: llm_error_kinds_def)

section \<open>Properties\<close>

text \<open>
  C1. Classification is total and survives every carrier: the unreachable arm
  of \<^verbatim>\<open>LlmError::kind\<close> is never taken, and attaching provider text, Native
  facts, a request authority or a proxy challenge, in any order and nesting,
  leaves the kind unchanged.
\<close>

theorem kind_total_and_preserved:
  "kind e \<noteq> None
   \<and> kind (with_optional_provider_error_text e ot) = kind e
   \<and> kind (with_native_anthropic_error e t facts) = kind e
   \<and> kind (with_native_anthropic_request_authority e a) = kind e
   \<and> kind (with_proxy_auth_helper_challenge e c) = kind e
   \<and> kind (into_classification_source e) = kind e"
  by (simp add: kind_def variant_kind_Some with_optional_provider_error_text_def
      with_native_anthropic_error_def with_proxy_auth_helper_challenge_def split: option.split)

text \<open>
  The proxy-auth helper challenge, which the host checks before retry and
  failover, is never lost by later decoration of the error, and attaching
  provider text keeps the Native facts and installs exactly that text.
\<close>

theorem decoration_keeps_challenge_and_facts:
  "helper_challenge (with_optional_provider_error_text e ot) = helper_challenge e
   \<and> helper_challenge (with_native_anthropic_error e t facts) = helper_challenge e
   \<and> helper_challenge (with_native_anthropic_request_authority e a) = helper_challenge e
   \<and> native_facts (with_provider_error_text e t) = native_facts e
   \<and> error_provider_text (with_provider_error_text e t) = Some t
   \<and> native_facts (with_native_anthropic_error e t facts) = Some facts
   \<and> error_provider_text (with_native_anthropic_request_authority e a) = error_provider_text e"
  by (simp add: with_optional_provider_error_text_def with_native_anthropic_error_def
      split: option.split)

text \<open>
  C1. Provider error text never panics: for text made of scalar values the
  UTF-16 projection of a plain string and of a prefixed text always matches its
  display, so the two \<^verbatim>\<open>expect\<close> calls succeed, and prefixing prepends to both
  views.
\<close>

theorem provider_text_projection:
  assumes "\<forall>c \<in> set p. is_scalar c" and "wf_provider_text t"
  shows "(\<exists>u. provider_text_of_string p = Some u \<and> wf_provider_text u \<and> display u = p)
    \<and> (\<exists>u. prefixed t p = Some u \<and> wf_provider_text u \<and> display u = p @ display t
             \<and> utf16_code_units u = encode_utf16 p @ utf16_code_units t)"
  using assms lossy_encode_append [of p "[]"] lossy_encode_append [of p "utf16_code_units t"]
  by (simp_all add: provider_text_of_string_def prefixed_def new_provider_text_def
      wf_provider_text_def)

theorem provider_text_projection_witness:
  "(\<exists>u. prefixed \<lparr> display = [0xFFFD], utf16_code_units = [0xD83D] \<rparr> [0x1F600] = Some u
        \<and> wf_provider_text u \<and> display u = [0x1F600] @ [0xFFFD]
        \<and> utf16_code_units u = encode_utf16 [0x1F600] @ [0xD83D])
   \<and> (\<exists>u. provider_text_of_string [0x1F600] = Some u \<and> wf_provider_text u
        \<and> display u = [0x1F600])"
  using provider_text_projection
    [of "[0x1F600]" "\<lparr> display = [0xFFFD], utf16_code_units = [0xD83D] \<rparr>"]
  by (simp add: is_scalar_def wf_provider_text_def is_high_def)

text \<open>
  The HQ evidence reduces as a three-valued disjunction over all 21
  predicates: true as soon as one is observed true, false only when every one
  is observed false, unknown otherwise.
\<close>

theorem hq_aggregate_is_kleene_or:
  "hq_aggregate_claim e =
    foldr (\<lambda>a b. if a = Some True \<or> b = Some True then Some True
                 else if a = Some False \<and> b = Some False then Some False else None)
          (hq_claims e) (Some False)"
proof -
  define f :: "bool option \<Rightarrow> bool option \<Rightarrow> bool option" where
    "f = (\<lambda>a b. if a = Some True \<or> b = Some True then Some True
                else if a = Some False \<and> b = Some False then Some False else None)"
  have "(if Some True \<in> set cs then Some True
         else if list_all (\<lambda>c. c = Some False) cs then Some False else None)
        = foldr f cs (Some False)" for cs
    by (induction cs) (auto simp: f_def split: if_splits)
  then show ?thesis by (simp add: hq_aggregate_claim_def f_def)
qed

text \<open>
  The Hrn15 reduction is unknown only for the one missing host
  observation: a prefix-lock match on a status other than 422 with no other
  classifier positive and no observed marker; a wrapped 422 can never carry
  the marker, so there the reduction is always known.
\<close>

theorem hrn15_unknown_iff:
  "hrn15_aggregate_claim e declined = None \<longleftrightarrow>
    prefix_lock_message_match e \<and> True \<notin> set (non_prefix_claims e)
    \<and> original_status e \<noteq> 422 \<and> declined = None"
  by (auto simp: hrn15_aggregate_claim_def)

end
