(* ===== verification/Framing.thy ===== *)
theory Framing
  imports Errors
begin

text \<open>
  The contract both byte splitters of \<^verbatim>\<open>src/framing/\<close> keep towards the stream
  decoders: a batch of bytes yields the frames it completed and possibly the
  error that stopped it, and how the transport cuts the stream into chunks is
  invisible.  \<open>Sse\<close> and \<open>Event_Stream\<close> interpret the locale on their own push
  operations; \<open>Stream_Decoder\<close> uses its consequences.
\<close>

text \<open>A caller feeding one chunk after another, stopping at the first error.\<close>

fun feed_chunks ::
  "('s \<Rightarrow> 'b list \<Rightarrow> 's \<times> 'f list \<times> 'e option) \<Rightarrow> 's \<Rightarrow> 'b list list \<Rightarrow> 's \<times> 'f list \<times> 'e option"
where
  "feed_chunks push s [] = (s, [], None)"
| "feed_chunks push s (c # cs) =
    (case push s c of
       (s1, fs, Some e) \<Rightarrow> (s1, fs, Some e)
     | (s1, fs, None) \<Rightarrow>
         (case feed_chunks push s1 cs of (s2, fs2, e) \<Rightarrow> (s2, fs @ fs2, e)))"

locale batch_splitter =
  fixes push :: "'s \<Rightarrow> 'b list \<Rightarrow> 's \<times> 'f list \<times> 'e option"
    and healthy :: "'s \<Rightarrow> bool"
  assumes push_nil: "healthy s \<Longrightarrow> push s [] = (s, [], None)"
    and push_healthy: "healthy s \<Longrightarrow> push s xs = (s', fs, None) \<Longrightarrow> healthy s'"
    and push_append: "healthy s \<Longrightarrow> push s xs = (s1, fs1, None) \<Longrightarrow>
      push s (xs @ ys) = (case push s1 ys of (s2, fs2, e) \<Rightarrow> (s2, fs1 @ fs2, e))"
    and push_error: "healthy s \<Longrightarrow> push s xs = (s1, fs, Some e) \<Longrightarrow>
      push s (xs @ ys) = (s1, fs, Some e)"
begin

lemma feed_chunks_concat:
  "healthy s \<Longrightarrow> feed_chunks push s cs = push s (concat cs)"
proof (induction cs arbitrary: s)
  case Nil
  then show ?case by (simp add: push_nil)
next
  case (Cons c cs)
  obtain s1 fs e where p: "push s c = (s1, fs, e)" by (cases "push s c") auto
  show ?case
  proof (cases e)
    case None
    then show ?thesis
      using p Cons push_append [of s c s1 fs "concat cs"] push_healthy [of s c s1 fs] by simp
  next
    case (Some e')
    then show ?thesis using p Cons.prems push_error [of s c s1 fs e'] by simp
  qed
qed

lemma chunking_invisible:
  assumes "healthy s" "concat cs = concat ds"
  shows "feed_chunks push s cs = feed_chunks push s ds"
  using assms by (simp add: feed_chunks_concat)

lemma feed_chunks_healthy:
  assumes "healthy s" "feed_chunks push s cs = (s', fs, None)"
  shows "healthy s'"
  using assms push_healthy by (simp add: feed_chunks_concat)

lemma frames_monotone:
  assumes "healthy s"
  shows "\<exists>rest. fst (snd (push s (xs @ ys))) = fst (snd (push s xs)) @ rest"
proof -
  obtain s1 fs e where p: "push s xs = (s1, fs, e)" by (cases "push s xs") auto
  then show ?thesis
    using assms push_append [of s xs s1 fs ys] push_error [of s xs s1 fs]
    by (cases e) (auto split: prod.splits)
qed

end

end
