(* ===== verification/Sse.thy ===== *)
theory Sse
  imports Framing
begin

text \<open>
  \<^verbatim>\<open>src/framing/sse.rs\<close>: the incremental splitter of a server-sent-event byte
  stream.  The state is the partial event and the flag that swallows the LF of
  a CRLF pair cut by a chunk boundary.  The reference semantics (\<open>normalize_eol\<close>
  followed by \<open>cut_events\<close>) is stated on the whole input at once; the splitter
  is shown to compute it for every chunking, within its memory bound.
\<close>

section \<open>The splitter\<close>

definition max_event_bytes :: nat where
  "max_event_bytes = 8 * 1024 * 1024"

abbreviation LF :: byte where "LF \<equiv> 10"
abbreviation CR :: byte where "CR \<equiv> 13"

definition data_colon :: bytes where
  "data_colon = [100, 97, 116, 97, 58]"

definition data_word :: bytes where
  "data_word = [100, 97, 116, 97]"

record sse_splitter =
  buffer :: bytes
  skip_lf :: bool

definition new_sse :: sse_splitter where
  "new_sse = \<lparr> buffer = [], skip_lf = False \<rparr>"

text \<open>The payload one line contributes, None for any other field.\<close>

definition line_value :: "bytes \<Rightarrow> bytes option" where
  "line_value raw =
    (let line = (case strip_suffix [CR] raw of Some l \<Rightarrow> l | None \<Rightarrow> raw) in
     map_option (\<lambda>v. if v \<noteq> [] \<and> hd v = 32 then tl v else v)
       (case strip_prefix data_colon line of
          Some v \<Rightarrow> Some v
        | None \<Rightarrow> if line = data_word then Some [] else None))"

fun parse_lines :: "bytes list \<Rightarrow> bytes \<Rightarrow> bool \<Rightarrow> bytes option" where
  "parse_lines [] data has_data = (if has_data then Some data else None)"
| "parse_lines (line # lines) data has_data =
    (case line_value line of
       None \<Rightarrow> parse_lines lines data has_data
     | Some v \<Rightarrow> parse_lines lines ((if has_data then data @ [LF] else data) @ v) True)"

definition parse_event :: "bytes \<Rightarrow> bytes option" where
  "parse_event event = parse_lines (split_on LF event) [] False"

definition event_too_large :: llm_error where
  "event_too_large = StreamInterrupted
    [Lit ''SSE event exceeds the '', Dec max_event_bytes, Lit ''-byte limit'']"

fun push_loop ::
  "sse_splitter \<Rightarrow> bytes \<Rightarrow> bytes list \<Rightarrow> sse_splitter \<times> bytes list \<times> llm_error option"
where
  "push_loop s [] frames = (s, frames, None)"
| "push_loop s (b # bs) frames =
    (if skip_lf s \<and> b = LF then push_loop (s \<lparr> skip_lf := False \<rparr>) bs frames
     else
       let s1 = (if b = CR then s \<lparr> buffer := buffer s @ [LF], skip_lf := True \<rparr>
                 else s \<lparr> buffer := buffer s @ [b], skip_lf := False \<rparr>) in
       if ends_with (buffer s1) [LF, LF] then
         push_loop (s1 \<lparr> buffer := [] \<rparr>) bs
           (case parse_event (butlast (buffer s1)) of
              Some frame \<Rightarrow> frames @ [frame] | None \<Rightarrow> frames)
       else if max_event_bytes < length (buffer s1) then
         (s1 \<lparr> buffer := [] \<rparr>, frames, Some event_too_large)
       else push_loop s1 bs frames)"

definition push_batch ::
  "sse_splitter \<Rightarrow> bytes \<Rightarrow> sse_splitter \<times> bytes list \<times> llm_error option" where
  "push_batch s bs = push_loop s bs []"

definition sse_push ::
  "sse_splitter \<Rightarrow> bytes \<Rightarrow> sse_splitter \<times> (llm_error + bytes list)" where
  "sse_push s bs =
    (case push_batch s bs of
       (s', frames, Some e) \<Rightarrow> (s', Err e)
     | (s', frames, None) \<Rightarrow> (s', Ok frames))"

definition sse_finish :: "sse_splitter \<Rightarrow> sse_splitter \<times> (llm_error + bytes option)" where
  "sse_finish s = (\<lparr> buffer = [], skip_lf = False \<rparr>, Ok (parse_event (buffer s)))"

section \<open>Reference semantics\<close>

text \<open>Every CR, LF and CRLF becomes one LF.\<close>

fun normalize_eol :: "bytes \<Rightarrow> bytes" where
  "normalize_eol [] = []"
| "normalize_eol [a] = [if a = CR then LF else a]"
| "normalize_eol (a # b # r) =
    (if a = CR \<and> b = LF then LF # normalize_eol r
     else (if a = CR then LF else a) # normalize_eol (b # r))"

text \<open>The events a blank line completes, and the unterminated rest.\<close>

fun cut_events :: "bytes \<Rightarrow> bytes \<Rightarrow> bytes list \<times> bytes" where
  "cut_events acc [] = ([], acc)"
| "cut_events acc (b # bs) =
    (if ends_with (acc @ [b]) [LF, LF]
     then (case cut_events [] bs of (es, r) \<Rightarrow> ((acc @ [b]) # es, r))
     else cut_events (acc @ [b]) bs)"

definition event_frames :: "bytes list \<Rightarrow> bytes list" where
  "event_frames es = List.map_filter (\<lambda>e. parse_event (butlast e)) es"

text \<open>An encoder of one event, the writer's side of the format.\<close>

definition encode_event :: "bytes \<Rightarrow> bytes" where
  "encode_event payload =
    concat (map (\<lambda>line. data_colon @ [32] @ line @ [LF]) (split_on LF payload)) @ [LF]"

section \<open>Lemmas\<close>

lemma event_frames_simps [simp]:
  "event_frames [] = []"
  "event_frames (e # es) =
    (case parse_event (butlast e) of Some f \<Rightarrow> f # event_frames es | None \<Rightarrow> event_frames es)"
  by (simp_all add: event_frames_def split: option.split)

text \<open>Accumulated frames only prefix the result.\<close>

lemma push_loop_prepend:
  "push_loop s bs (frames @ fs) =
    (fst (push_loop s bs fs), frames @ fst (snd (push_loop s bs fs)), snd (snd (push_loop s bs fs)))"
  by (induction bs arbitrary: s fs) (simp_all add: Let_def split: option.split)

lemma push_loop_frames:
  "push_loop s bs frames =
    (fst (push_loop s bs []), frames @ fst (snd (push_loop s bs [])), snd (snd (push_loop s bs [])))"
  using push_loop_prepend [of s bs frames "[]"] by simp

lemma push_loop_append:
  "push_loop s (xs @ ys) frames =
    (case push_loop s xs frames of
       (s1, fs, Some e) \<Rightarrow> (s1, fs, Some e)
     | (s1, fs, None) \<Rightarrow> push_loop s1 ys fs)"
  by (induction xs arbitrary: s frames) (simp_all add: Let_def split: option.split)

interpretation sse: batch_splitter push_batch "\<lambda>_. True"
proof unfold_locales
  show "push_batch s [] = (s, [], None)" for s by (simp add: push_batch_def)
next
  fix s xs s1 fs1 ys
  assume "push_batch s xs = (s1, fs1, None)"
  then show "push_batch s (xs @ ys) =
      (case push_batch s1 ys of (s2, fs2, e) \<Rightarrow> (s2, fs1 @ fs2, e))"
    by (simp add: push_batch_def push_loop_append) (subst push_loop_frames, simp add: split_beta)
next
  fix s xs s1 fs e ys
  assume "push_batch s xs = (s1, fs, Some e)"
  then show "push_batch s (xs @ ys) = (s1, fs, Some e)"
    by (simp add: push_batch_def push_loop_append)
qed simp_all


subsection \<open>The memory bound\<close>

lemma push_loop_bounded:
  assumes "length (buffer s) \<le> max_event_bytes"
  shows "length (buffer (fst (push_loop s bs frames))) \<le> max_event_bytes"
  using assms
  by (induction bs arbitrary: s frames) (auto simp: Let_def not_less)

subsection \<open>Refinement of the reference semantics\<close>

text \<open>The normaliser with the splitter's flag made explicit.\<close>

fun norm_from :: "bool \<Rightarrow> bytes \<Rightarrow> bytes" where
  "norm_from skip [] = []"
| "norm_from skip (b # bs) =
    (if skip \<and> b = LF then norm_from False bs
     else if b = CR then LF # norm_from True bs
     else b # norm_from False bs)"

lemma norm_from_skip: "b \<noteq> LF \<Longrightarrow> norm_from True (b # r) = norm_from False (b # r)"
  by simp

lemma normalize_eol_norm_from: "normalize_eol bs = norm_from False bs"
proof (induction bs rule: normalize_eol.induct)
  case (3 a b r)
  then show ?case by (cases "a = CR"; cases "b = LF") simp_all
qed simp_all

lemma normalize_eol_id: "CR \<notin> set bs \<Longrightarrow> normalize_eol bs = bs"
  by (induction bs rule: normalize_eol.induct) auto

lemma cut_events_grows:
  "cut_events acc bs = (es, r) \<Longrightarrow>
    (case es of [] \<Rightarrow> length acc \<le> length r | e # _ \<Rightarrow> length acc < length e)"
proof (induction bs arbitrary: acc es r)
  case (Cons b bs)
  show ?case
  proof (cases "ends_with (acc @ [b]) [LF, LF]")
    case True
    then show ?thesis using Cons.prems by (auto split: prod.splits)
  next
    case False
    then have "cut_events (acc @ [b]) bs = (es, r)" using Cons.prems by simp
    from Cons.IH [OF this] show ?thesis by (auto split: list.splits)
  qed
qed simp

definition fits :: "bytes \<Rightarrow> bool" where
  "fits e \<longleftrightarrow> length e \<le> Suc max_event_bytes"

definition reference_run :: "bytes \<Rightarrow> bytes \<Rightarrow> bytes \<times> bytes list \<times> llm_error option" where
  "reference_run acc bs =
    (case cut_events acc bs of (es, rest) \<Rightarrow>
       if list_all fits es \<and> length rest \<le> max_event_bytes
       then (rest, event_frames es, None)
       else ([], event_frames (takeWhile fits es), Some event_too_large))"

lemma reference_run_Nil:
  "length acc \<le> max_event_bytes \<Longrightarrow> reference_run acc [] = (acc, [], None)"
  by (simp add: reference_run_def)

lemma reference_run_event:
  assumes "ends_with (acc @ [b]) [LF, LF]" "length acc \<le> max_event_bytes"
  shows "reference_run acc (b # bs) =
    (case reference_run [] bs of (r, fs, e) \<Rightarrow>
       (r, (case parse_event acc of Some f \<Rightarrow> f # fs | None \<Rightarrow> fs), e))"
  using assms by (auto simp: reference_run_def fits_def split: prod.splits option.splits)

lemma reference_run_more:
  assumes "\<not> ends_with (acc @ [b]) [LF, LF]"
  shows "reference_run acc (b # bs) = reference_run (acc @ [b]) bs"
  using assms by (simp add: reference_run_def)

lemma reference_run_overflow:
  assumes "max_event_bytes < length acc" "\<not> ends_with acc [LF, LF]"
  shows "reference_run acc bs = ([], [], Some event_too_large)"
proof -
  obtain es r where c: "cut_events acc bs = (es, r)" by (cases "cut_events acc bs")
  show ?thesis
  proof (cases es)
    case Nil
    then show ?thesis using cut_events_grows [OF c] assms c by (simp add: reference_run_def)
  next
    case (Cons e es')
    then have "\<not> fits e" using cut_events_grows [OF c] assms by (simp add: fits_def)
    then show ?thesis using c Cons by (simp add: reference_run_def)
  qed
qed

lemma push_loop_reference:
  assumes "length (buffer s) \<le> max_event_bytes"
  shows "(case push_loop s bs frames of (s', fs, e) \<Rightarrow> (buffer s', fs, e)) =
         (case reference_run (buffer s) (norm_from (skip_lf s) bs) of
            (r, fs, e) \<Rightarrow> (r, frames @ fs, e))"
  using assms
proof (induction bs arbitrary: s frames)
  case Nil
  then show ?case by (simp add: reference_run_Nil)
next
  case (Cons b bs)
  show ?case
  proof (cases "skip_lf s \<and> b = LF")
    case True
    then show ?thesis using Cons by simp
  next
    case False
    define c where "c = (if b = CR then LF else b)"
    define s1 where "s1 = \<lparr> buffer = buffer s @ [c], skip_lf = (b = CR) \<rparr>"
    have s1: "(if b = CR then s \<lparr> buffer := buffer s @ [LF], skip_lf := True \<rparr>
               else s \<lparr> buffer := buffer s @ [b], skip_lf := False \<rparr>) = s1"
      by (simp add: s1_def c_def)
    have step: "push_loop s (b # bs) frames =
        (if ends_with (buffer s1) [LF, LF] then
           push_loop (s1 \<lparr> buffer := [] \<rparr>) bs
             (case parse_event (butlast (buffer s1)) of
                Some frame \<Rightarrow> frames @ [frame] | None \<Rightarrow> frames)
         else if max_event_bytes < length (buffer s1) then
           (s1 \<lparr> buffer := [] \<rparr>, frames, Some event_too_large)
         else push_loop s1 bs frames)"
      by (simp only: push_loop.simps if_not_P [OF False] s1 Let_def)
    have norm: "norm_from (skip_lf s) (b # bs) = c # norm_from (b = CR) bs"
      using False by (auto simp: c_def)
    consider (ev) "ends_with (buffer s1) [LF, LF]"
      | (big) "\<not> ends_with (buffer s1) [LF, LF]" "max_event_bytes < length (buffer s1)"
      | (more) "\<not> ends_with (buffer s1) [LF, LF]" "length (buffer s1) \<le> max_event_bytes"
      by linarith
    then show ?thesis
    proof cases
      case ev
      then show ?thesis
        using Cons.prems unfolding step norm
          Cons.IH [of "s1 \<lparr> buffer := [] \<rparr>"
            "case parse_event (butlast (buffer s1)) of Some f \<Rightarrow> frames @ [f] | None \<Rightarrow> frames"]
        by (subst reference_run_event)
           (use Cons.IH [of "s1 \<lparr> buffer := [] \<rparr>"] in
             \<open>auto simp: s1_def split: prod.splits option.splits\<close>)
    next
      case big
      then show ?thesis
        using reference_run_overflow [of "buffer s1"] unfolding step norm
        by (subst reference_run_more) (simp_all add: s1_def)
    next
      case more
      then show ?thesis
        using Cons.IH [of s1 frames] unfolding step norm
        by (subst reference_run_more) (simp_all add: s1_def)
    qed
  qed
qed

subsection \<open>Encoding\<close>

lemma ends_with_blank_last:
  assumes "ends_with (acc @ [b]) [LF, LF]"
  shows "b = LF \<and> acc \<noteq> [] \<and> last acc = LF"
proof -
  obtain p where "acc @ [b] = (p @ [LF]) @ [LF]" using assms by (auto simp: ends_with_iff)
  then have "acc = p @ [LF]" "b = LF" by (simp_all only: append1_eq_conv)
  then show ?thesis by simp
qed

lemma cut_events_no_LF:
  "LF \<notin> set l \<Longrightarrow> cut_events acc (l @ r) = cut_events (acc @ l) r"
proof (induction l arbitrary: acc)
  case (Cons b l)
  then have "\<not> ends_with (acc @ [b]) [LF, LF]" using ends_with_blank_last by fastforce
  then show ?case using Cons by simp
qed simp

lemma cut_events_line:
  assumes "LF \<notin> set l" "l \<noteq> []"
  shows "cut_events acc (l @ LF # r) = cut_events (acc @ l @ [LF]) r"
proof -
  have "last (acc @ l) \<noteq> LF" using assms by (metis last_append last_in_set)
  then have "\<not> ends_with ((acc @ l) @ [LF]) [LF, LF]" using ends_with_blank_last by blast
  then show ?thesis using assms cut_events_no_LF [of l acc "LF # r"] by simp
qed

definition event_line :: "bytes \<Rightarrow> bytes" where
  "event_line line = data_colon @ [32] @ line"

lemma event_line_no_LF: "LF \<notin> set line \<Longrightarrow> LF \<notin> set (event_line line)"
  by (simp add: event_line_def data_colon_def)

lemma event_line_nonempty [simp]: "event_line line \<noteq> []"
  by (simp add: event_line_def)

definition event_body :: "bytes list \<Rightarrow> bytes" where
  "event_body ls = concat (map (\<lambda>l. event_line l @ [LF]) ls)"

lemma event_body_simps [simp]:
  "event_body [] = []"
  "event_body (l # ls) = event_line l @ LF # event_body ls"
  by (simp_all add: event_body_def)

lemma encode_event_body: "encode_event p = event_body (split_on LF p) @ [LF]"
  by (simp add: encode_event_def event_body_def event_line_def)

lemma cut_events_body:
  "\<forall>l \<in> set ls. LF \<notin> set l \<Longrightarrow> cut_events acc (event_body ls @ r) = cut_events (acc @ event_body ls) r"
proof (induction ls arbitrary: acc)
  case (Cons l ls)
  then show ?case
    using cut_events_line [of "event_line l" acc "event_body ls @ r"] event_line_no_LF [of l] by simp
qed simp

lemma event_body_last: "ls \<noteq> [] \<Longrightarrow> \<exists>b. event_body ls = b @ [LF]"
  by (induction ls rule: rev_induct) (auto simp: event_body_def)

lemma cut_events_encode: "cut_events [] (encode_event p) = ([encode_event p], [])"
proof -
  have "\<forall>l \<in> set (split_on LF p). LF \<notin> set l" using split_on_pieces by fast
  then have "cut_events [] (encode_event p) = cut_events (event_body (split_on LF p)) [LF]"
    by (simp add: encode_event_body cut_events_body)
  moreover obtain b where "event_body (split_on LF p) = b @ [LF]"
    using event_body_last [of "split_on LF p"] by auto
  then have "ends_with (event_body (split_on LF p) @ [LF]) [LF, LF]"
    using ends_with_append [of b "[LF, LF]"] by simp
  ultimately show ?thesis by (simp add: encode_event_body)
qed

lemma split_on_body:
  "\<forall>l \<in> set ls. LF \<notin> set l \<Longrightarrow> split_on LF (event_body ls) = map event_line ls @ [[]]"
proof (induction ls)
  case (Cons l ls)
  then show ?case using split_on_append_sep [of LF "event_line l"] event_line_no_LF [of l] by simp
qed simp

lemma line_value_event_line:
  assumes "CR \<notin> set l"
  shows "line_value (event_line l) = Some l"
proof -
  have "\<not> ends_with (event_line l) [CR]"
    using assms by (auto simp: ends_with_iff event_line_def data_colon_def append_eq_append_conv2
        Cons_eq_append_conv)
  moreover have "event_line l = data_colon @ 32 # l" by (simp add: event_line_def)
  then have "strip_prefix data_colon (event_line l) = Some (32 # l)" by simp
  ultimately show ?thesis by (simp add: line_value_def strip_suffix_def)
qed

lemma line_value_empty [simp]: "line_value [] = None"
  by (simp add: line_value_def strip_suffix_def ends_with_def strip_prefix_def data_colon_def
      data_word_def)

lemma parse_lines_encoded:
  "\<forall>l \<in> set ls. CR \<notin> set l \<Longrightarrow>
    parse_lines (map event_line ls @ [[]]) data True =
      Some (data @ concat (map (\<lambda>l. LF # l) ls))"
  by (induction ls arbitrary: data) (simp_all add: line_value_event_line)

lemma join_with_concat: "join_with s (p # ps) = p @ concat (map (\<lambda>q. s # q) ps)"
  by (induction ps arbitrary: p) simp_all

lemma parse_event_body:
  assumes "CR \<notin> set p"
  shows "parse_event (event_body (split_on LF p)) = Some p"
proof -
  obtain q qs where q: "split_on LF p = q # qs" by (cases "split_on LF p") auto
  have noLF: "\<forall>l \<in> set (q # qs). LF \<notin> set l" using split_on_pieces q by metis
  have noCR: "\<forall>l \<in> set (q # qs). CR \<notin> set l" using split_on_subset assms q by (metis subsetD)
  have "parse_event (event_body (q # qs)) = Some (q @ concat (map (\<lambda>l. LF # l) qs))"
    using noCR by (simp only: parse_event_def split_on_body [OF noLF])
      (simp add: line_value_event_line parse_lines_encoded)
  also have "q @ concat (map (\<lambda>l. LF # l) qs) = p"
    using join_split [of LF p] q by (simp add: join_with_concat)
  finally show ?thesis using q by simp
qed


section \<open>Properties\<close>

text \<open>
  Chunking is invisible: however the transport cuts the byte stream, even
  inside a CRLF pair or a UTF-8 sequence, feeding the chunks one by one gives
  the frames, the error and the final state of feeding the whole stream.
\<close>

theorem sse_chunking_invisible:
  "feed_chunks push_batch s chunks = push_batch s (concat chunks)"
  by (rule sse.feed_chunks_concat) simp

text \<open>
  C4. The splitter computes the reference semantics: after normalising every
  CR, LF and CRLF to LF the stream is cut at blank lines, each completed event
  gives its joined data payload, and the run fails, having delivered exactly
  the frames before it, precisely when an event outgrows the limit.
\<close>

theorem sse_refines_reference:
  "(case push_batch new_sse input of (s, frames, err) \<Rightarrow> (buffer s, frames, err)) =
   (case cut_events [] (normalize_eol input) of (es, rest) \<Rightarrow>
      if list_all (\<lambda>e. length e \<le> Suc max_event_bytes) es \<and> length rest \<le> max_event_bytes
      then (rest, event_frames es, None)
      else ([], event_frames (takeWhile (\<lambda>e. length e \<le> Suc max_event_bytes) es),
            Some event_too_large))"
  using push_loop_reference [of new_sse input "[]"]
  by (simp add: push_batch_def new_sse_def normalize_eol_norm_from reference_run_def
      fits_def [abs_def] split: prod.splits)

text \<open>
  The partial event a hostile stream can make the splitter retain never
  exceeds the limit, whatever is pushed, errors included.
\<close>

theorem sse_buffer_bounded:
  assumes "length (buffer s) \<le> max_event_bytes"
  shows "length (buffer (fst (push_batch s bs))) \<le> max_event_bytes"
  unfolding push_batch_def using assms by (rule push_loop_bounded)

theorem sse_buffer_bounded_witness:
  "length (buffer (fst (push_batch \<lparr> buffer = [100, 97], skip_lf = True \<rparr> [10, 116, 97, 58, 13])))
     \<le> max_event_bytes"
  using sse_buffer_bounded [of "\<lparr> buffer = [100, 97], skip_lf = True \<rparr>" "[10, 116, 97, 58, 13]"]
  by (simp add: max_event_bytes_def)

text \<open>An encoded event goes through the splitter whole.\<close>

lemma push_loop_no_CR:
  "CR \<notin> set bs \<Longrightarrow> \<not> skip_lf s \<Longrightarrow> \<not> skip_lf (fst (push_loop s bs frames))"
  by (induction bs arbitrary: s frames) (auto simp: Let_def)

lemma encode_event_no_CR: "CR \<notin> set p \<Longrightarrow> CR \<notin> set (encode_event p)"
  using split_on_subset [of _ LF p] by (auto simp: encode_event_def data_colon_def)

lemma push_encoded:
  assumes "CR \<notin> set p" "length (encode_event p) \<le> Suc max_event_bytes"
  shows "push_batch new_sse (encode_event p) = (new_sse, [p], None)"
proof -
  note noCR = encode_event_no_CR [OF assms(1)]
  have "reference_run [] (norm_from False (encode_event p)) = ([], [p], None)"
    using assms(2) parse_event_body [OF assms(1)] normalize_eol_id [OF noCR]
    by (simp add: reference_run_def normalize_eol_norm_from [symmetric] cut_events_encode fits_def)
       (simp add: encode_event_body)
  moreover have "\<not> skip_lf (fst (push_loop new_sse (encode_event p) []))"
    using push_loop_no_CR [OF noCR] by (simp add: new_sse_def)
  ultimately show ?thesis
    using push_loop_reference [of new_sse "encode_event p" "[]"]
    by (auto simp: push_batch_def new_sse_def split: prod.splits)
qed

text \<open>
  Round trip: a stream of encoded events, each payload free of CR and
  within the limit, decodes to exactly those payloads in order, multi-line and
  empty payloads included, and leaves the splitter as new.
\<close>

theorem sse_roundtrip:
  assumes "\<And>p. p \<in> set ps \<Longrightarrow> CR \<notin> set p \<and> length (encode_event p) \<le> Suc max_event_bytes"
  shows "push_batch new_sse (concat (map encode_event ps)) = (new_sse, ps, None)"
  using assms
proof (induction ps)
  case (Cons p ps)
  then show ?case
    using sse.push_append [of new_sse "encode_event p"] push_encoded [of p] by simp
qed (simp add: push_batch_def)

theorem sse_roundtrip_witness:
  "push_batch new_sse (concat (map encode_event [[123, 10, 10, 125], []])) =
    (new_sse, [[123, 10, 10, 125], []], None)"
  by (rule sse_roundtrip) (auto simp: encode_event_def data_colon_def max_event_bytes_def)

text \<open>
  A provider that closes without the final blank line still gets its last
  event decoded: pushing all but the last byte of an encoded event completes
  nothing, and finishing then yields the payload and resets the splitter.
\<close>

theorem sse_finish_flushes_last_event:
  assumes "CR \<notin> set p" "length (encode_event p) \<le> Suc max_event_bytes"
  shows "(case push_batch new_sse (butlast (encode_event p)) of
            (s, frames, err) \<Rightarrow> frames = [] \<and> err = None \<and> sse_finish s = (new_sse, Ok (Some p)))"
proof -
  let ?b = "event_body (split_on LF p)"
  have "\<forall>l \<in> set (split_on LF p). LF \<notin> set l" using split_on_pieces by fast
  then have "cut_events [] ?b = ([], ?b)"
    using cut_events_body [of "split_on LF p" "[]" "[]"] by simp
  moreover have "CR \<notin> set ?b" using encode_event_no_CR [OF assms(1)] by (simp add: encode_event_body)
  ultimately have "reference_run [] (norm_from False ?b) = (?b, [], None)"
    using assms(2) normalize_eol_id [of ?b]
    by (simp add: reference_run_def normalize_eol_norm_from [symmetric] encode_event_body)
  then show ?thesis
    using push_loop_reference [of new_sse ?b "[]"] parse_event_body [OF assms(1)]
    by (auto simp: push_batch_def new_sse_def encode_event_body sse_finish_def split: prod.splits)
qed

theorem sse_finish_flushes_last_event_witness:
  "(case push_batch new_sse (butlast (encode_event [104, 105])) of
      (s, frames, err) \<Rightarrow> frames = [] \<and> err = None \<and> sse_finish s = (new_sse, Ok (Some [104, 105])))"
  by (rule sse_finish_flushes_last_event) (simp_all add: encode_event_def data_colon_def max_event_bytes_def)

end
