(* ===== verification/Event_Stream.thy ===== *)
theory Event_Stream
  imports Framing
begin

unbundle bit_operations_syntax

text \<open>
  \<^verbatim>\<open>src/framing/eventstream.rs\<close>: the AWS event-stream binary framing.  The
  CRC table and CRC-32, the header decoder, and the splitter with its
  length-field defences; a one-pass reference parser of the whole stream, and
  the encoder a provider runs, for the round trip.
\<close>

section \<open>CRC-32\<close>

definition crc_step :: "u32 \<Rightarrow> u32" where
  "crc_step crc = (if crc AND 1 \<noteq> 0 then drop_bit 1 crc XOR 0xEDB88320 else drop_bit 1 crc)"

definition make_crc_table :: "u32 list" where
  "make_crc_table = map (\<lambda>i. (crc_step ^^ 8) (word_of_nat i)) [0..<256]"

definition crc32_update :: "u32 \<Rightarrow> byte \<Rightarrow> u32" where
  "crc32_update crc b =
    (let idx = unat ((crc XOR ucast b) AND 0xFF) in
     drop_bit 8 crc XOR make_crc_table ! idx)"

definition crc32 :: "bytes \<Rightarrow> u32" where
  "crc32 data = NOT (foldl crc32_update 0xFFFFFFFF data)"

text \<open>The specification: the reflected polynomial applied bit by bit.\<close>

definition crc32_bitwise :: "bytes \<Rightarrow> u32" where
  "crc32_bitwise data =
    NOT (foldl (\<lambda>crc b. (crc_step ^^ 8) (crc XOR ucast b)) 0xFFFFFFFF data)"

section \<open>Messages and headers\<close>

record event_stream_message =
  headers :: "(string \<times> string) list"
  payload :: bytes

definition header :: "event_stream_message \<Rightarrow> string \<Rightarrow> string option" where
  "header m name = map_of (headers m) name"

definition prelude_bytes :: nat where "prelude_bytes = 12"
definition frame_overhead :: nat where "frame_overhead = 16"
definition max_frame_bytes :: nat where "max_frame_bytes = 8 * 1024 * 1024"

abbreviation interrupted :: "message \<Rightarrow> llm_error" where
  "interrupted m \<equiv> StreamInterrupted m"

definition be_nat :: "bytes \<Rightarrow> nat" where
  "be_nat bs = foldl (\<lambda>n b. n * 256 + unat b) 0 bs"

definition take_bytes :: "bytes \<Rightarrow> nat \<Rightarrow> string \<Rightarrow> llm_error + bytes \<times> bytes" where
  "take_bytes data n what =
    (if length data < n
     then Err (interrupted [Lit ''event-stream truncated while reading '', Lit what])
     else Ok (take n data, drop n data))"

definition take_u8 :: "bytes \<Rightarrow> llm_error + byte \<times> bytes" where
  "take_u8 data =
    bind_result (take_bytes data 1 ''byte'') (\<lambda>(h, rest). Ok (hd h, rest))"

definition take_u16 :: "bytes \<Rightarrow> string \<Rightarrow> llm_error + nat \<times> bytes" where
  "take_u16 data what =
    bind_result (take_bytes data 2 what) (\<lambda>(h, rest). Ok (be_nat h, rest))"

definition skip_bytes :: "bytes \<Rightarrow> nat \<Rightarrow> string \<Rightarrow> llm_error + (string \<times> string) option \<times> bytes" where
  "skip_bytes data n what =
    bind_result (take_bytes data n what) (\<lambda>(h, rest). Ok (None, rest))"

text \<open>The value of one header, after its name and its type byte.\<close>

definition decode_header_value ::
  "string \<Rightarrow> byte \<Rightarrow> bytes \<Rightarrow> llm_error + (string \<times> string) option \<times> bytes" where
  "decode_header_value name value_type data =
    (if value_type = 0 \<or> value_type = 1 then Ok (None, data)
     else if value_type = 2 then skip_bytes data 1 ''i8 header value''
     else if value_type = 3 then skip_bytes data 2 ''i16 header value''
     else if value_type = 4 then skip_bytes data 4 ''i32 header value''
     else if value_type = 5 \<or> value_type = 8 then skip_bytes data 8 ''8-byte header value''
     else if value_type = 6 then
       bind_result (take_u16 data ''bytes header length'')
         (\<lambda>(len, rest). skip_bytes rest len ''bytes header value'')
     else if value_type = 7 then
       bind_result (take_u16 data ''string header length'') (\<lambda>(len, rest).
         bind_result (take_bytes rest len ''string header value'') (\<lambda>(v, rest2).
         bind_result (map_err (\<lambda>e. interrupted [Lit ''event-stream header '', DebugStr name,
                                          Lit '' is not UTF-8: '', Utf8Err e]) (from_utf8 v)) (\<lambda>s.
           Ok (Some (name, s), rest2))))
     else if value_type = 9 then skip_bytes data 16 ''uuid header value''
     else Err (interrupted [Lit ''event-stream header '', DebugStr name,
                            Lit '' has unknown value type '', Dec (unat value_type)]))"

definition decode_header :: "bytes \<Rightarrow> llm_error + (string \<times> string) option \<times> bytes" where
  "decode_header data =
    bind_result (take_u8 data) (\<lambda>(name_len, d1).
      bind_result (take_bytes d1 (unat name_len) ''header name'') (\<lambda>(name_bytes, d2).
      bind_result (map_err (\<lambda>e. interrupted [Lit ''event-stream header name is not UTF-8: '',
                                       Utf8Err e]) (from_utf8 name_bytes)) (\<lambda>name.
      bind_result (take_u8 d2) (\<lambda>(value_type, d3).
        decode_header_value name value_type d3))))"

lemma take_bytes_Ok:
  "take_bytes data n what = Ok (h, rest) \<longleftrightarrow> n \<le> length data \<and> h = take n data \<and> rest = drop n data"
  by (auto simp: take_bytes_def)

lemma take_u8_Ok: "take_u8 data = Ok (b, rest) \<longleftrightarrow> data = b # rest"
  by (cases data) (auto simp: take_u8_def take_bytes_def)

lemma take_u16_shrinks: "take_u16 data what = Ok (n, rest) \<Longrightarrow> length rest \<le> length data"
  by (auto simp: take_u16_def bind_result_Inr take_bytes_Ok)

lemma skip_bytes_shrinks: "skip_bytes data n what = Ok (h, rest) \<Longrightarrow> length rest \<le> length data"
  by (auto simp: skip_bytes_def bind_result_Inr take_bytes_Ok)

lemma drop_Cons_shrinks: "drop n xs = y # ys \<Longrightarrow> length ys < length xs"
  by (drule arg_cong [where f = length]) simp

lemma decode_header_value_shrinks:
  assumes "decode_header_value name ty data = Ok (h, rest)"
  shows "length rest \<le> length data"
  using assms
  unfolding decode_header_value_def
  by (auto simp: bind_result_Inr take_bytes_Ok
      dest!: take_u16_shrinks skip_bytes_shrinks split: if_splits)

lemma decode_header_shrinks:
  assumes "decode_header data = Ok (h, rest)"
  shows "length rest < length data"
  using assms
  unfolding decode_header_def
  by (auto simp: bind_result_Inr take_bytes_Ok take_u8_Ok
      dest!: decode_header_value_shrinks drop_Cons_shrinks)

function decode_headers ::
  "bytes \<Rightarrow> (string \<times> string) list \<Rightarrow> llm_error + (string \<times> string) list" where
  "decode_headers data hs =
    (if data = [] then Ok hs
     else (case decode_header data of
             Inl e \<Rightarrow> Err e
           | Inr (h, rest) \<Rightarrow>
               decode_headers rest (case h of Some p \<Rightarrow> hs @ [p] | None \<Rightarrow> hs)))"
  by auto
termination
  by (relation "measure (\<lambda>(data, hs). length data)") (auto dest: decode_header_shrinks)

declare decode_headers.simps [simp del]

section \<open>The splitter\<close>

text \<open>
  The checks on the first twelve bytes, made before waiting for the rest of the
  frame: the total length and the header length when all of them pass.
\<close>

definition check_prelude :: "bytes \<Rightarrow> llm_error + nat \<times> nat" where
  "check_prelude buf =
    (let total_len = be_nat (take 4 buf);
         headers_len = be_nat (take 4 (drop 4 buf));
         want = (word_of_nat (be_nat (take 4 (drop 8 buf))) :: u32);
         got = crc32 (take 8 buf) in
     if got \<noteq> want then
       Err (interrupted [Lit ''event-stream prelude CRC mismatch: expected 0x'', Hex8 want,
                         Lit '', got 0x'', Hex8 got])
     else if total_len < frame_overhead then
       Err (interrupted [Lit ''event-stream frame total_len='', Dec total_len,
                         Lit '' is below the minimum '', Dec frame_overhead])
     else if max_frame_bytes < total_len then
       Err (interrupted [Lit ''event-stream frame total_len='', Dec total_len,
                         Lit '' exceeds the '', Dec max_frame_bytes, Lit ''-byte limit''])
     else if total_len - frame_overhead < headers_len then
       Err (interrupted [Lit ''event-stream headers_len='', Dec headers_len,
                         Lit '' overflows total_len='', Dec total_len])
     else Ok (total_len, headers_len))"

text \<open>A complete frame: the message CRC, then the headers and the payload.\<close>

definition decode_frame :: "bytes \<Rightarrow> nat \<Rightarrow> llm_error + event_stream_message" where
  "decode_frame frame headers_len =
    (let total_len = length frame;
         want = (word_of_nat (be_nat (drop (total_len - 4) frame)) :: u32);
         got = crc32 (take (total_len - 4) frame);
         headers_end = prelude_bytes + headers_len in
     if got \<noteq> want then
       Err (interrupted [Lit ''event-stream message CRC mismatch: expected 0x'', Hex8 want,
                         Lit '', got 0x'', Hex8 got])
     else
       bind_result (decode_headers (take headers_len (drop prelude_bytes frame)) []) (\<lambda>hs.
         Ok \<lparr> headers = hs,
               payload = take (total_len - 4 - headers_end) (drop headers_end frame) \<rparr>))"

lemma check_prelude_bounds:
  assumes "check_prelude buf = Ok (total_len, headers_len)"
  shows "16 \<le> total_len" "total_len \<le> max_frame_bytes" "headers_len \<le> total_len - 16"
  using assms by (auto simp: check_prelude_def Let_def frame_overhead_def split: if_splits)

text \<open>
  Both reads of the loop: extend the buffer from the unread input up to
  \<open>want\<close> bytes, if it is shorter.
\<close>

definition fill :: "bytes \<Rightarrow> bytes \<Rightarrow> nat \<Rightarrow> bytes \<times> bytes" where
  "fill buf unread want =
    (let n = (if length buf < want then min (length unread) (want - length buf) else 0)
     in (buf @ take n unread, drop n unread))"

lemma fill_append: "fill buf unread want = (b, u) \<Longrightarrow> b @ u = buf @ unread"
  by (auto simp: fill_def Let_def)

lemma fill_length:
  "fill buf unread want = (b, u) \<Longrightarrow>
    length b = max (length buf) (min want (length buf + length unread))"
  by (auto simp: fill_def Let_def)

lemma turn_consumes:
  assumes "(buf1, unread1) = fill buf unread prelude_bytes"
    and "check_prelude buf1 = Inr (total_len, headers_len)"
    and "(buf2, unread2) = fill buf1 unread1 total_len"
    and "\<not> length buf2 < total_len"
  shows "length unread2 < length buf + length unread"
proof -
  have "buf2 @ unread2 = buf @ unread"
    using assms fill_append [of buf unread prelude_bytes buf1 unread1]
      fill_append [of buf1 unread1 total_len buf2 unread2] by simp
  then have "length buf2 + length unread2 = length buf + length unread"
    by (metis length_append)
  then show ?thesis using assms(4) check_prelude_bounds(1) [OF assms(2)] by simp
qed

function feed_loop ::
  "bytes \<Rightarrow> bytes \<Rightarrow> event_stream_message list
    \<Rightarrow> bytes \<times> event_stream_message list \<times> llm_error option" where
  "feed_loop buf unread messages =
    (case fill buf unread prelude_bytes of (buf1, unread1) \<Rightarrow>
     if length buf1 < prelude_bytes then (buf1, messages, None)
     else
       (case check_prelude buf1 of
          Inl e \<Rightarrow> (buf1, messages, Some e)
        | Inr (total_len, headers_len) \<Rightarrow>
            (case fill buf1 unread1 total_len of (buf2, unread2) \<Rightarrow>
             if length buf2 < total_len then (buf2, messages, None)
             else
               (case decode_frame (take total_len buf2) headers_len of
                  Inl e \<Rightarrow> (buf2, messages, Some e)
                | Inr message \<Rightarrow>
                    if unread2 = [] then ([], messages @ [message], None)
                    else feed_loop [] unread2 (messages @ [message])))))"
  by pat_completeness auto
termination
  by (relation "measure (\<lambda>(buf, unread, messages). length buf + length unread)")
     (auto dest: turn_consumes)

declare feed_loop.simps [simp del]

record event_stream_splitter =
  buf :: bytes

definition feed_batch ::
  "event_stream_splitter \<Rightarrow> bytes
    \<Rightarrow> event_stream_splitter \<times> event_stream_message list \<times> llm_error option" where
  "feed_batch s chunk =
    (case feed_loop (buf s) chunk [] of (b, messages, e) \<Rightarrow> (\<lparr> buf = b \<rparr>, messages, e))"

definition feed ::
  "event_stream_splitter \<Rightarrow> bytes
    \<Rightarrow> event_stream_splitter \<times> (llm_error + event_stream_message list)" where
  "feed s chunk =
    (case feed_batch s chunk of
       (s', messages, Some e) \<Rightarrow> (s', Err e)
     | (s', messages, None) \<Rightarrow> (s', Ok messages))"

definition stream_finish :: "event_stream_splitter \<Rightarrow> llm_error + unit" where
  "stream_finish s =
    (if buf s = [] then Ok ()
     else Err (interrupted [Lit ''event-stream ended mid-frame with '', Dec (length (buf s)),
                            Lit '' unconsumed bytes'']))"

section \<open>Reference parser\<close>

text \<open>The whole stream at once: no buffer, no chunks.\<close>

function parse_frames ::
  "bytes \<Rightarrow> bytes \<times> event_stream_message list \<times> llm_error option" where
  "parse_frames bs =
    (if length bs < prelude_bytes then (bs, [], None)
     else
       (case check_prelude bs of
          Inl e \<Rightarrow> (take prelude_bytes bs, [], Some e)
        | Inr (total_len, headers_len) \<Rightarrow>
            if length bs < total_len then (bs, [], None)
            else
              (case decode_frame (take total_len bs) headers_len of
                 Inl e \<Rightarrow> (take total_len bs, [], Some e)
               | Inr message \<Rightarrow>
                   (case parse_frames (drop total_len bs) of
                      (rest, messages, e) \<Rightarrow> (rest, message # messages, e)))))"
  by auto
termination
  by (relation "measure length")
     (auto simp: prelude_bytes_def dest: check_prelude_bounds(1))

declare parse_frames.simps [simp del]


section \<open>Lemmas\<close>

subsection \<open>CRC-32\<close>

lemma crc_step_alt: "crc_step x = drop_bit 1 x XOR (if odd x then 0xEDB88320 else 0)"
  by (simp add: crc_step_def and_one_eq odd_iff_mod_2_eq_one)

lemma crc_step_xor: "crc_step (x XOR y) = crc_step x XOR crc_step y"
  by (simp add: crc_step_alt drop_bit_xor even_xor_iff xor.assoc xor.left_commute)

lemma crc_steps_xor: "(crc_step ^^ n) (x XOR y) = (crc_step ^^ n) x XOR (crc_step ^^ n) y"
  by (induction n) (simp_all add: crc_step_xor)

lemma crc_steps_shift: "take_bit n x = 0 \<Longrightarrow> (crc_step ^^ n) x = drop_bit n x"
proof (induction n arbitrary: x)
  case (Suc n)
  have "even x" using Suc.prems by (metis even_take_bit_eq even_zero nat.simps(3))
  then have s: "crc_step x = drop_bit 1 x" by (simp add: crc_step_alt)
  have "take_bit n (drop_bit 1 x) = drop_bit 1 (take_bit (Suc n) x)"
    by (simp add: drop_bit_take_bit)
  then have "take_bit n (crc_step x) = 0" using Suc.prems s by simp
  then show ?case using Suc.IH s by (simp add: funpow_swap1)
qed simp

lemma crc32_update_bitwise: "crc32_update crc b = (crc_step ^^ 8) (crc XOR ucast b)"
proof -
  define x :: u32 where "x = crc XOR ucast b"
  have m: "(0xFF :: u32) = mask 8" by (simp add: mask_eq_exp_minus_1)
  have "x AND mask 8 = take_bit 8 x" by (simp add: take_bit_eq_mask)
  then have "unat (x AND mask 8) < 256"
    using take_bit_nat_less_exp [of 8 "unat x"] by (simp add: unsigned_take_bit_eq)
  then have low: "make_crc_table ! unat (x AND mask 8) = (crc_step ^^ 8) (x AND mask 8)"
    by (simp add: make_crc_table_def)
  have split: "x = (x AND NOT (mask 8)) XOR (x AND mask 8)"
    by (rule bit_eqI) (auto simp: bit_simps)
  have "take_bit 8 (x AND NOT (mask 8)) = 0"
    by (rule bit_eqI) (auto simp: bit_simps)
  then have "(crc_step ^^ 8) x = drop_bit 8 (x AND NOT (mask 8)) XOR (crc_step ^^ 8) (x AND mask 8)"
    by (subst split) (simp only: crc_steps_xor crc_steps_shift)
  moreover have "drop_bit 8 (x AND NOT (mask 8)) = drop_bit 8 crc"
    by (rule bit_eqI) (auto simp: bit_simps x_def dest: bit_imp_le_length)
  ultimately show ?thesis
    unfolding crc32_update_def Let_def m x_def [symmetric] low by simp
qed

lemma crc32_eq_bitwise: "crc32 data = crc32_bitwise data"
  by (simp add: crc32_def crc32_bitwise_def crc32_update_bitwise [abs_def])

subsection \<open>Big-endian fields\<close>

fun be_bytes :: "nat \<Rightarrow> nat \<Rightarrow> bytes" where
  "be_bytes 0 n = []"
| "be_bytes (Suc k) n = be_bytes k (n div 256) @ [word_of_nat (n mod 256)]"

lemma length_be_bytes [simp]: "length (be_bytes k n) = k"
  by (induction k arbitrary: n) simp_all

lemma be_nat_append: "be_nat (xs @ [b]) = be_nat xs * 256 + unat b"
  by (simp add: be_nat_def)

lemma be_nat_bytes: "be_nat (be_bytes k n) = n mod 256 ^ k"
proof (induction k arbitrary: n)
  case (Suc k)
  have "unat (word_of_nat (n mod 256) :: byte) = n mod 256"
    by (simp add: unat_of_nat)
  then have "be_nat (be_bytes (Suc k) n) = (n div 256 mod 256 ^ k) * 256 + n mod 256"
    by (simp add: be_nat_append Suc)
  also have "\<dots> = n mod (256 * 256 ^ k)" by (simp add: mod_mult2_eq)
  finally show ?case by simp
qed (simp add: be_nat_def)

subsection \<open>The splitter computes the reference parser\<close>

definition healthy_buf :: "bytes \<Rightarrow> bool" where
  "healthy_buf b \<longleftrightarrow> length b < prelude_bytes \<or>
    (case check_prelude b of Inr (total_len, headers_len) \<Rightarrow> length b < total_len | Inl _ \<Rightarrow> False)"

lemma fill_take:
  "fill b unread want = (take (max (length b) want) (b @ unread), drop (max (length b) want) (b @ unread))"
  by (auto simp: fill_def Let_def max_def min_def)

lemma check_prelude_take: "12 \<le> n \<Longrightarrow> check_prelude (take n bs) = check_prelude bs"
  by (simp add: check_prelude_def min_def drop_take)

lemma check_prelude_append: "12 \<le> length bs \<Longrightarrow> check_prelude (bs @ ys) = check_prelude bs"
  by (simp add: check_prelude_def)

lemma parse_frames_Nil [simp]: "parse_frames [] = ([], [], None)"
  by (simp add: parse_frames.simps prelude_bytes_def)

lemma healthy_Nil [simp]: "healthy_buf []"
  by (simp add: healthy_buf_def prelude_bytes_def)

text \<open>What one turn of the loop does, on a healthy buffer, in terms of the whole input.\<close>

lemma feed_loop_turn:
  assumes "healthy_buf b"
  shows "feed_loop b unread messages =
    (let bs = b @ unread in
     if length bs < prelude_bytes then (bs, messages, None)
     else
       (case check_prelude bs of
          Inl e \<Rightarrow> (take prelude_bytes bs, messages, Some e)
        | Inr (total_len, headers_len) \<Rightarrow>
            if length bs < total_len then (bs, messages, None)
            else
              (case decode_frame (take total_len bs) headers_len of
                 Inl e \<Rightarrow> (take total_len bs, messages, Some e)
               | Inr message \<Rightarrow>
                   if drop total_len bs = [] then ([], messages @ [message], None)
                   else feed_loop [] (drop total_len bs) (messages @ [message]))))"
proof (cases "length b < 12")
  case True
  let ?bs = "b @ unread"
  have f1: "fill b unread 12 = (take 12 ?bs, drop 12 ?bs)"
    using True by (simp add: fill_take max_def)
  show ?thesis
  proof (cases "length ?bs < 12")
    case short: True
    then show ?thesis by (subst feed_loop.simps) (simp add: f1 prelude_bytes_def)
  next
    case long: False
    have f2: "fill (take 12 ?bs) (drop 12 ?bs) t = (take t ?bs, drop t ?bs)"
      if "check_prelude ?bs = Inr (t, h)" for t h
      using check_prelude_bounds(1) [OF that] long
      by (simp add: fill_take max_def del: take_append drop_append)
    define bs where "bs = ?bs"
    have c: "check_prelude (take 12 bs) = check_prelude bs" by (simp add: check_prelude_take)
    show ?thesis
    proof (cases "check_prelude bs")
      case (Inl e)
      then show ?thesis
        using long f1 c unfolding feed_loop.simps [of b] bs_def [symmetric]
        by (simp add: prelude_bytes_def)
    next
      case (Inr y)
      obtain t h where y: "y = (t, h)" by (cases y)
      then have f2': "fill (take 12 bs) (drop 12 bs) t = (take t bs, drop t bs)"
        using f2 Inr bs_def by simp
      show ?thesis
        using long f1 f2' c Inr y unfolding feed_loop.simps [of b] bs_def [symmetric]
        by (simp add: prelude_bytes_def)
    qed
  qed
next
  case False
  let ?bs = "b @ unread"
  obtain t h where p: "check_prelude b = Inr (t, h)" and l: "length b < t"
    using assms False by (auto simp: healthy_buf_def prelude_bytes_def split: sum.splits prod.splits)
  have f1: "fill b unread 12 = (b, unread)"
    using False by (simp add: fill_take max_def)
  have f2: "fill b unread t = (take t ?bs, drop t ?bs)"
    using l by (simp add: fill_take max_def)
  have p': "check_prelude ?bs = Inr (t, h)" using False p by (simp add: check_prelude_append)
  show ?thesis
    using False
    by (subst feed_loop.simps) (simp add: f1 f2 p p' prelude_bytes_def Let_def del: take_append drop_append)
qed

lemma feed_loop_parse:
  assumes "healthy_buf b"
  shows "feed_loop b unread messages =
    (case parse_frames (b @ unread) of (r, fs, e) \<Rightarrow> (r, messages @ fs, e))"
  using assms
proof (induction "b @ unread" arbitrary: b unread messages rule: parse_frames.induct)
  case 1
  note turn = feed_loop_turn [OF 1(2)]
  show ?case
  proof (cases "length (b @ unread) < prelude_bytes")
    case True
    then show ?thesis
      using 1 by (subst parse_frames.simps) (simp add: turn)
  next
    case long: False
    show ?thesis
    proof (cases "check_prelude (b @ unread)")
      case (Inl e)
      then show ?thesis
        using 1 long by (subst parse_frames.simps) (simp add: turn del: take_append)
    next
      case p: (Inr y)
      obtain t h where y: "y = (t, h)" by (cases y)
      consider (partial) "length (b @ unread) < t"
        | (bad) e where "\<not> length (b @ unread) < t" "decode_frame (take t (b @ unread)) h = Inl e"
        | (good) m where "\<not> length (b @ unread) < t" "decode_frame (take t (b @ unread)) h = Inr m"
        by (cases "decode_frame (take t (b @ unread)) h") blast+
      then show ?thesis
      proof cases
        case partial
        then show ?thesis using 1 long p y
          by (subst parse_frames.simps) (simp add: turn)
      next
        case bad
        then show ?thesis using 1 long p y
          by (subst parse_frames.simps) (simp add: turn Let_def del: take_append length_append)
      next
        case good
        have ih: "feed_loop [] (drop t (b @ unread)) (messages @ [m]) =
            (case parse_frames (drop t (b @ unread)) of (r, fs, e) \<Rightarrow> (r, (messages @ [m]) @ fs, e))"
          using 1(1) [OF long p y [symmetric] good(1) good(2), of "[]"] by simp
        show ?thesis using 1 long p y good ih
          by (subst parse_frames.simps)
             (auto simp add: turn Let_def simp del: take_append drop_append length_append
               split: prod.split)
      qed
    qed
  qed
qed

subsection \<open>The reference parser on a growing input\<close>

lemma parse_frames_short: "length bs < prelude_bytes \<Longrightarrow> parse_frames bs = (bs, [], None)"
  by (subst parse_frames.simps) simp

lemma parse_frames_prelude_error:
  "\<not> length bs < prelude_bytes \<Longrightarrow> check_prelude bs = Inl e \<Longrightarrow>
    parse_frames bs = (take prelude_bytes bs, [], Some e)"
  by (subst parse_frames.simps) simp

lemma parse_frames_partial:
  "\<not> length bs < prelude_bytes \<Longrightarrow> check_prelude bs = Inr (t, h) \<Longrightarrow> length bs < t \<Longrightarrow>
    parse_frames bs = (bs, [], None)"
  by (subst parse_frames.simps) simp

lemma parse_frames_bad:
  "\<not> length bs < prelude_bytes \<Longrightarrow> check_prelude bs = Inr (t, h) \<Longrightarrow> \<not> length bs < t \<Longrightarrow>
    decode_frame (take t bs) h = Inl e \<Longrightarrow> parse_frames bs = (take t bs, [], Some e)"
  by (subst parse_frames.simps) simp

lemma parse_frames_good:
  "\<not> length bs < prelude_bytes \<Longrightarrow> check_prelude bs = Inr (t, h) \<Longrightarrow> \<not> length bs < t \<Longrightarrow>
    decode_frame (take t bs) h = Inr m \<Longrightarrow>
    parse_frames bs =
      (case parse_frames (drop t bs) of (r, ms, e) \<Rightarrow> (r, m # ms, e))"
  by (subst parse_frames.simps) simp

lemma parse_frames_cases:
  obtains (short) "length bs < prelude_bytes"
  | (prelude) e where "\<not> length bs < prelude_bytes" "check_prelude bs = Inl e"
  | (partial) t h where "\<not> length bs < prelude_bytes" "check_prelude bs = Inr (t, h)" "length bs < t"
  | (bad) t h e where "\<not> length bs < prelude_bytes" "check_prelude bs = Inr (t, h)"
      "\<not> length bs < t" "decode_frame (take t bs) h = Inl e"
  | (good) t h m where "\<not> length bs < prelude_bytes" "check_prelude bs = Inr (t, h)"
      "\<not> length bs < t" "decode_frame (take t bs) h = Inr m"
proof (cases "length bs < prelude_bytes")
  case False
  show ?thesis
  proof (cases "check_prelude bs")
    case (Inl e)
    then show ?thesis using False prelude by blast
  next
    case (Inr y)
    obtain t h where "y = (t, h)" by (cases y)
    then show ?thesis
      using False Inr partial bad good by (cases "decode_frame (take t bs) h") blast+
  qed
qed (use short in blast)

lemma parse_frames_append:
  "parse_frames (bs @ ys) =
    (case parse_frames bs of
       (r, ms, Some e) \<Rightarrow> (r, ms, Some e)
     | (r, ms, None) \<Rightarrow>
         (case parse_frames (r @ ys) of (r2, ms2, e) \<Rightarrow> (r2, ms @ ms2, e)))"
proof (induction bs rule: length_induct)
  case (1 bs)
  have pre: "check_prelude (bs @ ys) = check_prelude bs" if "\<not> length bs < prelude_bytes"
    using that by (simp add: check_prelude_append prelude_bytes_def)
  show ?case
  proof (cases bs rule: parse_frames_cases)
    case short
    then show ?thesis by (simp add: parse_frames_short split: prod.split)
  next
    case (prelude e)
    then show ?thesis
      using parse_frames_prelude_error [of "bs @ ys"] by (simp add: parse_frames_prelude_error pre)
  next
    case (partial t h)
    then show ?thesis by (simp add: parse_frames_partial [OF partial] split: prod.split)
  next
    case (bad t h e)
    then show ?thesis
      using parse_frames_bad [of "bs @ ys" t h e] by (simp add: parse_frames_bad [OF bad] pre)
  next
    case (good t h m)
    have "t > 0" using check_prelude_bounds(1) [OF good(2)] by simp
    then have ih: "parse_frames (drop t bs @ ys) =
        (case parse_frames (drop t bs) of
           (r, ms, Some e) \<Rightarrow> (r, ms, Some e)
         | (r, ms, None) \<Rightarrow>
             (case parse_frames (r @ ys) of (r2, ms2, e) \<Rightarrow> (r2, ms @ ms2, e)))"
      using 1 good(1) by (simp add: prelude_bytes_def)
    have "parse_frames (bs @ ys) =
        (case parse_frames (drop t bs @ ys) of (r, ms, e) \<Rightarrow> (r, m # ms, e))"
      using parse_frames_good [of "bs @ ys" t h m] good pre by simp
    then show ?thesis
      unfolding ih parse_frames_good [OF good] by (auto split: prod.splits option.splits)
  qed
qed

lemma parse_frames_healthy: "parse_frames bs = (r, ms, None) \<Longrightarrow> healthy_buf r"
proof (induction bs arbitrary: ms rule: length_induct)
  case (1 bs)
  show ?case
  proof (cases bs rule: parse_frames_cases)
    case (good t h m)
    have "t > 0" using check_prelude_bounds(1) [OF good(2)] by simp
    then have "length (drop t bs) < length bs" using good(1) by (simp add: prelude_bytes_def)
    moreover obtain ms' where "parse_frames (drop t bs) = (r, ms', None)"
      using "1.prems" parse_frames_good [OF good] by (auto split: prod.splits)
    ultimately show ?thesis using "1.IH" by blast
  qed (use "1.prems" in \<open>auto simp: parse_frames_short parse_frames_prelude_error
         parse_frames_partial parse_frames_bad healthy_buf_def\<close>)
qed

lemma healthy_parse: "healthy_buf b \<Longrightarrow> parse_frames b = (b, [], None)"
  by (cases b rule: parse_frames_cases)
    (auto simp: healthy_buf_def parse_frames_short parse_frames_partial)

definition healthy_stream :: "event_stream_splitter \<Rightarrow> bool" where
  "healthy_stream s = healthy_buf (buf s)"

lemma feed_batch_parse:
  "healthy_stream s \<Longrightarrow> feed_batch s xs =
    (case parse_frames (buf s @ xs) of (r, ms, e) \<Rightarrow> (\<lparr> buf = r \<rparr>, ms, e))"
  by (simp add: feed_batch_def healthy_stream_def feed_loop_parse split: prod.split)

interpretation es: batch_splitter feed_batch healthy_stream
proof unfold_locales
  fix s assume "healthy_stream s"
  then show "feed_batch s [] = (s, [], None)"
    by (simp add: feed_batch_parse) (simp add: healthy_stream_def healthy_parse)
next
  fix s xs s' fs assume "healthy_stream s" "feed_batch s xs = (s', fs, None)"
  then show "healthy_stream s'"
    by (auto simp: feed_batch_parse healthy_stream_def dest: parse_frames_healthy split: prod.splits)
next
  fix s xs s1 fs1 ys
  assume h: "healthy_stream s" and f: "feed_batch s xs = (s1, fs1, None)"
  then have p: "parse_frames (buf s @ xs) = (buf s1, fs1, None)"
    by (auto simp: feed_batch_parse split: prod.splits)
  then have "healthy_stream s1" by (simp add: healthy_stream_def parse_frames_healthy)
  then show "feed_batch s (xs @ ys) =
      (case feed_batch s1 ys of (s2, fs2, e) \<Rightarrow> (s2, fs1 @ fs2, e))"
    using h p parse_frames_append [of "buf s @ xs" ys]
    by (simp add: feed_batch_parse split: prod.split)
next
  fix s xs s1 fs e ys
  assume h: "healthy_stream s" and f: "feed_batch s xs = (s1, fs, Some e)"
  then have "parse_frames (buf s @ xs) = (buf s1, fs, Some e)"
    by (auto simp: feed_batch_parse split: prod.splits)
  then show "feed_batch s (xs @ ys) = (s1, fs, Some e)"
    using h parse_frames_append [of "buf s @ xs" ys] by (simp add: feed_batch_parse)
qed

subsection \<open>Bounds\<close>

lemma parse_frames_rest_bound:
  "length (fst (parse_frames bs)) \<le> max_frame_bytes"
proof (induction bs rule: length_induct)
  case (1 bs)
  show ?case
  proof (cases bs rule: parse_frames_cases)
    case (good t h m)
    have "t > 0" using check_prelude_bounds(1) [OF good(2)] by simp
    then have "length (drop t bs) < length bs" using good(1) by (simp add: prelude_bytes_def)
    then have "length (fst (parse_frames (drop t bs))) \<le> max_frame_bytes" using 1 by blast
    then show ?thesis by (simp add: parse_frames_good [OF good] split_beta)
  next
    case (partial t h)
    then show ?thesis
      using check_prelude_bounds(2) [OF partial(2)] by (simp add: parse_frames_partial [OF partial])
  next
    case (bad t h e)
    then show ?thesis
      using check_prelude_bounds(2) [OF bad(2)] by (simp add: parse_frames_bad [OF bad])
  qed (simp_all add: parse_frames_short parse_frames_prelude_error prelude_bytes_def max_frame_bytes_def)
qed

subsection \<open>Encoding\<close>

definition encode_header :: "string \<times> string \<Rightarrow> bytes" where
  "encode_header h =
    be_bytes 1 (length (fst h)) @ bytes_of_string (fst h)
      @ [7] @ be_bytes 2 (length (snd h)) @ bytes_of_string (snd h)"

definition encode_headers :: "(string \<times> string) list \<Rightarrow> bytes" where
  "encode_headers hs = concat (map encode_header hs)"

definition encode_frame :: "event_stream_message \<Rightarrow> bytes" where
  "encode_frame m =
    (let hs = encode_headers (headers m);
         lens = be_bytes 4 (16 + length hs + length (payload m)) @ be_bytes 4 (length hs);
         body = lens @ be_bytes 4 (unat (crc32 lens)) @ hs @ payload m in
     body @ be_bytes 4 (unat (crc32 body)))"

text \<open>The headers the format can carry: names and values within their length fields.\<close>

definition header_fits :: "string \<times> string \<Rightarrow> bool" where
  "header_fits h \<longleftrightarrow> length (fst h) < 256 \<and> length (snd h) < 65536
    \<and> utf8_error (bytes_of_string (fst h)) = None \<and> utf8_error (bytes_of_string (snd h)) = None"

definition message_fits :: "event_stream_message \<Rightarrow> bool" where
  "message_fits m \<longleftrightarrow> list_all header_fits (headers m)
    \<and> 16 + length (encode_headers (headers m)) + length (payload m) \<le> max_frame_bytes"

lemma length_bytes_of_string [simp]: "length (bytes_of_string s) = length s"
  by (simp add: bytes_of_string_def)

lemma from_utf8_bytes: "utf8_error (bytes_of_string s) = None \<Longrightarrow> from_utf8 (bytes_of_string s) = Ok s"
  by (simp add: from_utf8_def)

lemma take_bytes_append: "take_bytes (xs @ ys) (length xs) what = Ok (xs, ys)"
  by (simp add: take_bytes_def)

lemma take_u16_be:
  assumes "n < 65536"
  shows "take_u16 (be_bytes 2 n @ ys) what = Ok (n, ys)"
  using take_bytes_append [of "be_bytes 2 n" ys what] be_nat_bytes [of 2 n] assms
  by (simp add: take_u16_def)

lemma take_u8_Cons: "take_u8 (b # x) = Ok (b, x)"
  by (simp add: take_u8_Ok)

lemma decode_string_value:
  assumes "length v < 65536" "utf8_error (bytes_of_string v) = None"
  shows "decode_header_value n 7 (be_bytes 2 (length v) @ bytes_of_string v @ r)
    = Ok (Some (n, v), r)"
proof -
  have "take_bytes (bytes_of_string v @ r) (length v) w = Ok (bytes_of_string v, r)" for w
    using take_bytes_append [of "bytes_of_string v" r w] by simp
  then show ?thesis
    using assms take_u16_be [OF assms(1)] by (simp add: decode_header_value_def from_utf8_bytes)
qed

lemma decode_encode_header:
  assumes "header_fits h"
  shows "decode_header (encode_header h @ r) = Ok (Some h, r)"
proof -
  obtain n v where h: "h = (n, v)" by (cases h)
  define len where "len = (word_of_nat (length n) :: byte)"
  define tail where "tail = be_bytes 2 (length v) @ bytes_of_string v @ r"
  have len: "unat len = length n" using assms h by (simp add: header_fits_def len_def unat_of_nat)
  have one: "be_bytes 1 (length n) = [len]"
    using assms h unfolding One_nat_def by (simp add: header_fits_def len_def)
  have "take_bytes (bytes_of_string n @ 7 # tail) (unat len) w = Ok (bytes_of_string n, 7 # tail)" for w
    using take_bytes_append [of "bytes_of_string n" "7 # tail" w] len by simp
  moreover have "decode_header_value n 7 tail = Ok (Some (n, v), r)"
    using assms h decode_string_value by (simp add: tail_def header_fits_def)
  moreover have "encode_header h @ r = len # bytes_of_string n @ 7 # tail"
    using h one by (simp add: encode_header_def tail_def)
  ultimately show ?thesis
    using assms h by (simp add: decode_header_def take_u8_Cons from_utf8_bytes header_fits_def)
qed

lemma decode_headers_simps:
  "decode_headers [] hs = Ok hs"
  "data \<noteq> [] \<Longrightarrow> decode_header data = Ok (h, rest) \<Longrightarrow>
    decode_headers data hs = decode_headers rest (case h of Some p \<Rightarrow> hs @ [p] | None \<Rightarrow> hs)"
  by (subst decode_headers.simps, simp)+

lemma decode_encode_headers:
  "list_all header_fits hs \<Longrightarrow> decode_headers (encode_headers hs) acc = Ok (acc @ hs)"
proof (induction hs arbitrary: acc)
  case (Cons h hs)
  have "encode_header h @ encode_headers hs \<noteq> []" by (simp add: encode_header_def)
  then show ?case
    using Cons decode_headers_simps(2) [OF _ decode_encode_header [of h "encode_headers hs"], of acc]
    by (simp add: encode_headers_def)
qed (simp add: encode_headers_def decode_headers_simps)

lemma word_of_be_nat: "word_of_nat (be_nat (be_bytes 4 (unat w))) = (w :: u32)"
proof -
  have "unat w < 2 ^ LENGTH(32)" by (rule unsigned_less)
  then have "be_nat (be_bytes 4 (unat w)) = unat w" by (simp add: be_nat_bytes)
  then show ?thesis by simp
qed

lemma encode_frame_shape:
  obtains lens c1 c2 where
    "encode_frame m = lens @ c1 @ encode_headers (headers m) @ payload m @ c2"
    "lens = be_bytes 4 (16 + length (encode_headers (headers m)) + length (payload m))
              @ be_bytes 4 (length (encode_headers (headers m)))"
    "c1 = be_bytes 4 (unat (crc32 lens))"
    "c2 = be_bytes 4 (unat (crc32 (lens @ c1 @ encode_headers (headers m) @ payload m)))"
  by (rule that [OF _ refl refl refl]) (simp add: encode_frame_def Let_def)

lemma length_encode_frame:
  "length (encode_frame m) = 16 + length (encode_headers (headers m)) + length (payload m)"
  by (simp add: encode_frame_def Let_def)

lemma check_prelude_encode:
  assumes "message_fits m"
  shows "check_prelude (encode_frame m @ r) =
    Ok (length (encode_frame m), length (encode_headers (headers m)))"
proof -
  define hs where "hs = encode_headers (headers m)"
  define n where "n = 16 + length hs + length (payload m)"
  obtain lens c1 c2 where e: "encode_frame m = lens @ c1 @ hs @ payload m @ c2"
    and lens: "lens = be_bytes 4 n @ be_bytes 4 (length hs)"
    and c1: "c1 = be_bytes 4 (unat (crc32 lens))"
    using encode_frame_shape [of m] unfolding hs_def n_def by metis
  have n: "n \<le> max_frame_bytes" using assms by (simp add: n_def hs_def message_fits_def)
  then have b: "be_nat (be_bytes 4 n) = n" "be_nat (be_bytes 4 (length hs)) = length hs"
    by (simp_all add: be_nat_bytes max_frame_bytes_def n_def)
  have l: "length lens = 8" "length c1 = 4" by (simp_all add: lens c1)
  have t: "take 4 (encode_frame m @ r) = be_bytes 4 n"
    "take 4 (drop 4 (encode_frame m @ r)) = be_bytes 4 (length hs)"
    by (simp_all add: e lens)
  have t8: "take 8 (encode_frame m @ r) = lens" "take 4 (drop 8 (encode_frame m @ r)) = c1"
    using l by (simp_all add: e)
  show ?thesis
    using n unfolding check_prelude_def Let_def t t8 b
    by (simp add: c1 word_of_be_nat frame_overhead_def length_encode_frame n_def hs_def)
qed

lemma decode_encode_frame:
  assumes "message_fits m"
  shows "decode_frame (encode_frame m) (length (encode_headers (headers m))) = Ok m"
proof -
  define hs where "hs = encode_headers (headers m)"
  define body where "body = take (length (encode_frame m) - 4) (encode_frame m)"
  obtain lens c1 c2 where e: "encode_frame m = lens @ c1 @ hs @ payload m @ c2"
    and lens: "lens = be_bytes 4 (16 + length hs + length (payload m)) @ be_bytes 4 (length hs)"
    and c1: "c1 = be_bytes 4 (unat (crc32 lens))"
    and c2: "c2 = be_bytes 4 (unat (crc32 (lens @ c1 @ hs @ payload m)))"
    using encode_frame_shape [of m] unfolding hs_def by metis
  have l: "length lens = 8" "length c1 = 4" by (simp_all add: lens c1)
  have body: "body = lens @ c1 @ hs @ payload m" using l by (simp add: body_def e c2)
  have crc: "drop (length (encode_frame m) - 4) (encode_frame m) = be_bytes 4 (unat (crc32 body))"
    using l by (simp add: e c2 body)
  have h: "take (length hs) (drop 12 (encode_frame m)) = hs" using l by (simp add: e)
  have p: "take (length (encode_frame m) - 4 - (12 + length hs)) (drop (12 + length hs) (encode_frame m))
      = payload m"
    using l by (simp add: e c2)
  have "decode_headers hs [] = Ok (headers m)"
    using assms decode_encode_headers [of "headers m" "[]"] by (simp add: hs_def message_fits_def)
  then show ?thesis
    unfolding decode_frame_def Let_def body_def [symmetric] crc prelude_bytes_def
      hs_def [symmetric] h p word_of_be_nat by simp
qed

lemma parse_encoded:
  assumes "message_fits m"
  shows "parse_frames (encode_frame m @ r) = (case parse_frames r of (r', ms, e) \<Rightarrow> (r', m # ms, e))"
  using parse_frames_good [of "encode_frame m @ r" "length (encode_frame m)"
      "length (encode_headers (headers m))" m]
    check_prelude_encode [OF assms] decode_encode_frame [OF assms]
  by (simp add: prelude_bytes_def length_encode_frame)

section \<open>Properties\<close>

text \<open>
  The table-driven CRC computes the IEEE polynomial: for every input the
  256-entry table lookup agrees with the bit-serial reflected CRC-32.
\<close>

theorem crc32_table_correct: "crc32 data = crc32_bitwise data"
  by (rule crc32_eq_bitwise)

text \<open>
  C7. Chunking is invisible to the binary splitter: on a healthy splitter,
  feeding the chunks one by one gives the messages, the error and the state of
  feeding the whole stream, and equals one pass of the reference parser over
  the buffered and the new bytes.
\<close>

theorem eventstream_chunking_invisible:
  assumes "healthy_stream s"
  shows "feed_chunks feed_batch s chunks = feed_batch s (concat chunks)
    \<and> feed_batch s (concat chunks) =
        (case parse_frames (buf s @ concat chunks) of (r, ms, e) \<Rightarrow> (\<lparr> buf = r \<rparr>, ms, e))"
  using es.feed_chunks_concat [OF assms] feed_batch_parse [OF assms] by simp

theorem eventstream_chunking_invisible_witness:
  "feed_chunks feed_batch \<lparr> buf = [1, 2] \<rparr> [[3], [], [4, 5]]
     = feed_batch \<lparr> buf = [1, 2] \<rparr> (concat [[3], [], [4, 5]])
   \<and> feed_batch \<lparr> buf = [1, 2] \<rparr> (concat [[3], [], [4, 5]]) = (\<lparr> buf = [1, 2, 3, 4, 5] \<rparr>, [], None)"
  using eventstream_chunking_invisible [of "\<lparr> buf = [1, 2] \<rparr>" "[[3], [], [4, 5]]"]
  by (simp add: healthy_stream_def healthy_buf_def prelude_bytes_def parse_frames_short)

text \<open>
  A hostile length field cannot make the splitter buffer: on a healthy
  splitter the retained bytes never exceed the frame limit, whatever is fed and
  whether or not it fails, and a stream that ended without error leaves either
  fewer than twelve bytes or a prefix of a frame whose prelude passed its CRC
  and length checks.
\<close>

theorem eventstream_buffer_bounded:
  assumes "healthy_stream s"
  shows "length (buf (fst (feed_batch s bs))) \<le> max_frame_bytes
    \<and> (snd (snd (feed_batch s bs)) = None \<longrightarrow> healthy_stream (fst (feed_batch s bs)))"
proof -
  obtain r ms e where p: "parse_frames (buf s @ bs) = (r, ms, e)" by (cases "parse_frames (buf s @ bs)")
  then show ?thesis
    using parse_frames_rest_bound [of "buf s @ bs"] parse_frames_healthy [of "buf s @ bs" r ms]
    by (auto simp: feed_batch_parse [OF assms] healthy_stream_def)
qed

theorem eventstream_buffer_bounded_witness:
  "length (buf (fst (feed_batch \<lparr> buf = [0, 0, 0] \<rparr> [16, 255]))) \<le> max_frame_bytes"
  using eventstream_buffer_bounded [of "\<lparr> buf = [0, 0, 0] \<rparr>" "[16, 255]"]
  by (simp add: healthy_stream_def healthy_buf_def prelude_bytes_def)

text \<open>
  C29. Round trip: a stream of encoded frames, each with string headers and a
  payload that fit the format, decodes to exactly those messages in order and
  leaves a clean splitter, so that ending there is no error.
\<close>

theorem eventstream_roundtrip:
  assumes "list_all message_fits ms"
  shows "feed_batch \<lparr> buf = [] \<rparr> (concat (map encode_frame ms)) = (\<lparr> buf = [] \<rparr>, ms, None)
    \<and> stream_finish \<lparr> buf = [] \<rparr> = Ok ()"
proof -
  have "parse_frames (concat (map encode_frame ms)) = ([], ms, None)"
    using assms by (induction ms) (simp_all add: parse_encoded)
  then show ?thesis
    by (simp add: feed_batch_parse healthy_stream_def stream_finish_def)
qed

theorem eventstream_roundtrip_witness:
  "feed_batch \<lparr> buf = [] \<rparr>
     (concat (map encode_frame [\<lparr> headers = [('':event-type'', ''chunk'')], payload = [1, 2, 3] \<rparr>]))
   = (\<lparr> buf = [] \<rparr>, [\<lparr> headers = [('':event-type'', ''chunk'')], payload = [1, 2, 3] \<rparr>], None)"
proof -
  have "utf8_error (bytes_of_string '':event-type'') = None" by code_simp
  moreover have "utf8_error (bytes_of_string ''chunk'') = None" by code_simp
  ultimately show ?thesis
    using eventstream_roundtrip
      [of "[\<lparr> headers = [('':event-type'', ''chunk'')], payload = [1, 2, 3] \<rparr>]"]
    by (simp add: message_fits_def header_fits_def encode_headers_def encode_header_def
        max_frame_bytes_def)
qed

text \<open>
  A stream cut inside a frame is reported: if the healthy splitter holds a
  partial frame, finishing fails and names the number of unconsumed bytes, and
  after a whole number of frames it succeeds.
\<close>

theorem eventstream_truncation_detected:
  assumes "message_fits m" "0 < k" "k < length (encode_frame m)"
  shows "(case feed_batch \<lparr> buf = [] \<rparr> (take k (encode_frame m)) of
            (s, ms, err) \<Rightarrow> ms = [] \<and> err = None \<and>
              stream_finish s = Err (interrupted [Lit ''event-stream ended mid-frame with '', Dec k,
                                                  Lit '' unconsumed bytes'']))"
proof -
  let ?bs = "take k (encode_frame m)"
  have "parse_frames ?bs = (?bs, [], None)"
  proof (cases "k < 12")
    case True
    then show ?thesis using assms by (simp add: parse_frames_short prelude_bytes_def)
  next
    case False
    then have "check_prelude ?bs = check_prelude (encode_frame m)" by (simp add: check_prelude_take)
    then show ?thesis
      using False assms check_prelude_encode [OF assms(1), of "[]"]
        parse_frames_partial [of ?bs "length (encode_frame m)" "length (encode_headers (headers m))"]
      by (simp add: prelude_bytes_def)
  qed
  moreover have "encode_frame m \<noteq> []" using length_encode_frame [of m] by auto
  ultimately show ?thesis
    using assms(2,3)
    by (auto simp: feed_batch_parse healthy_stream_def stream_finish_def length_encode_frame)
qed

theorem eventstream_truncation_detected_witness:
  "(case feed_batch \<lparr> buf = [] \<rparr> (take 13 (encode_frame \<lparr> headers = [], payload = [7] \<rparr>)) of
      (s, ms, err) \<Rightarrow> ms = [] \<and> err = None \<and>
        stream_finish s = Err (interrupted [Lit ''event-stream ended mid-frame with '', Dec 13,
                                            Lit '' unconsumed bytes'']))"
  by (rule eventstream_truncation_detected)
     (simp_all add: message_fits_def encode_headers_def max_frame_bytes_def length_encode_frame)

end
