(* ===== verification/Usage_Report.thy ===== *)
theory Usage_Report
  imports Errors
begin

text \<open>
  Token accounting: \<^verbatim>\<open>Usage\<close>, \<^verbatim>\<open>ReportedCost\<close> and \<^verbatim>\<open>UsageReport\<close>
  (\<^verbatim>\<open>src/protocol/llm.rs\<close>, \<^verbatim>\<open>src/protocol/usage_report.rs\<close>), the merge and the
  validation of provider reports (\<^verbatim>\<open>src/codecs/usage.rs\<close>), and the four wires'
  decoders into disjoint billable buckets (\<^verbatim>\<open>src/codecs/*/decode.rs\<close>).
  Parsing a response body and converting a floating-point price are parameters.
\<close>

section \<open>Counters\<close>

record server_tool_usage =
  web_search_requests :: "u64 option"
  web_fetch_requests :: "u64 option"
  web_extractor_requests :: "u64 option"
  file_search_requests :: "u64 option"
  code_interpreter_requests :: "u64 option"

record reported_cost =
  nano_usd :: u64

definition cost_saturating_add :: "reported_cost \<Rightarrow> reported_cost \<Rightarrow> reported_cost" where
  "cost_saturating_add a b = \<lparr> nano_usd = saturating_add (nano_usd a) (nano_usd b) \<rparr>"

record usage =
  input_tokens :: u64
  output_tokens :: u64
  cache_read_tokens :: u64
  cache_write_tokens :: u64
  cache_write_1h_tokens :: u64
  reasoning_tokens :: u64
  cost :: "reported_cost option"
  server_tool_usage :: "server_tool_usage option"

definition default_usage :: usage where
  "default_usage = \<lparr> input_tokens = 0, output_tokens = 0, cache_read_tokens = 0,
     cache_write_tokens = 0, cache_write_1h_tokens = 0, reasoning_tokens = 0,
     cost = None, server_tool_usage = None \<rparr>"

definition usage_total :: "usage \<Rightarrow> u64" where
  "usage_total u =
    saturating_add (saturating_add (saturating_add (input_tokens u) (output_tokens u))
      (cache_read_tokens u)) (cache_write_tokens u)"

datatype usage_state = Missing | Partial | Complete | Invalid

record usage_report =
  report_usage :: "usage option"
  report_state :: usage_state

definition default_report :: usage_report where
  "default_report = \<lparr> report_usage = None, report_state = Missing \<rparr>"

definition measured :: "usage \<Rightarrow> usage_state \<Rightarrow> usage_report" where
  "measured u st = \<lparr> report_usage = Some u, report_state = st \<rparr>"

definition complete_usage :: "usage_report \<Rightarrow> usage option" where
  "complete_usage r = (if report_state r = Complete then report_usage r else None)"

definition report_of_usage :: "usage \<Rightarrow> usage_report" where
  "report_of_usage u = measured u Partial"

section \<open>Reading and folding raw reports\<close>

definition counter :: "json \<Rightarrow> string \<Rightarrow> u64 option" where
  "counter raw key = Option.bind (jget raw key) as_u64"

definition counter_at :: "json \<Rightarrow> string \<Rightarrow> u64 option" where
  "counter_at raw path = Option.bind (pointer raw path) as_u64"

text \<open>A later report over an earlier one, key by key, in place.\<close>

function (sequential) fold_report :: "json \<Rightarrow> json \<Rightarrow> json"
  and fold_entries :: "(string \<times> json) list \<Rightarrow> (string \<times> json) list \<Rightarrow> (string \<times> json) list"
where
  "fold_report (JObject seed) (JObject delta) = JObject (fold_entries seed delta)"
| "fold_report seed delta = delta"
| "fold_entries seed [] = seed"
| "fold_entries seed ((key, v) # delta) =
    fold_entries
      (obj_insert key
        (case map_of seed key of
           Some existing \<Rightarrow> if is_object existing \<and> is_object v then fold_report existing v else v
         | None \<Rightarrow> v) seed)
      delta"
  by pat_completeness auto
termination
  by (relation "measure (\<lambda>x. case x of Inl (s, d) \<Rightarrow> Suc (2 * size d) | Inr (s, d) \<Rightarrow> 2 * size (JObject d))")
     auto

section \<open>Report shapes and validation\<close>

record report_shape =
  shape_input :: string
  shape_output :: string
  shape_total :: "string list"
  shape_subsets :: "(string \<times> bool) list"
  independent_counters :: "string list"
  thoughts :: "string option"
  thoughts_are_extra :: bool
  cache_creation :: "(string \<times> string \<times> string list) option"

definition not_a_counter :: "json option \<Rightarrow> bool" where
  "not_a_counter v = (case v of Some w \<Rightarrow> as_u64 w = None | None \<Rightarrow> False)"

definition or_zero :: "u64 option \<Rightarrow> u64" where
  "or_zero v = (case v of Some n \<Rightarrow> n | None \<Rightarrow> 0)"

text \<open>\<^verbatim>\<open>try_fold(0, |sum, n| sum.checked_add(n))\<close>\<close>

fun checked_sum :: "u64 \<Rightarrow> u64 list \<Rightarrow> u64 option" where
  "checked_sum acc [] = Some acc"
| "checked_sum acc (n # ns) =
    (case checked_add acc n of Some s \<Rightarrow> checked_sum s ns | None \<Rightarrow> None)"

text \<open>The split of cache writes by lifetime against the total it must account for.\<close>

definition cache_split_ok :: "json \<Rightarrow> string \<Rightarrow> string \<Rightarrow> string list \<Rightarrow> bool" where
  "cache_split_ok raw grp total_key parts =
    (case jget raw grp of
       None \<Rightarrow> True
     | Some creation \<Rightarrow>
         if is_null creation then counter raw total_key = Some 0
         else if \<not> is_object creation then False
         else
           (case counter raw total_key of
              None \<Rightarrow> False
            | Some stated \<Rightarrow>
                if list_ex (\<lambda>k. not_a_counter (jget creation k)) parts then False
                else
                  (case checked_sum 0 (map (\<lambda>k. or_zero (counter creation k)) parts) of
                     None \<Rightarrow> False
                   | Some parts_sum \<Rightarrow>
                       let derivable_missing = (jget creation (hd parts) = None);
                           others_stated = list_ex (\<lambda>k. jget creation k \<noteq> None) (tl parts) in
                       \<not> (stated < parts_sum \<or>
                          \<not> (derivable_missing \<and> others_stated) \<and> parts_sum \<noteq> stated))))"

definition thoughts_of :: "json \<Rightarrow> report_shape \<Rightarrow> u64 option" where
  "thoughts_of raw shape =
    (case thoughts shape of
       Some key \<Rightarrow> if not_a_counter (jget raw key) then None else Some (or_zero (counter raw key))
     | None \<Rightarrow> Some 0)"

text \<open>The total the provider must state: all buckets added once, overflow rejected.\<close>

definition expected_total :: "json \<Rightarrow> report_shape \<Rightarrow> u64 \<Rightarrow> u64 \<Rightarrow> u64 \<Rightarrow> u64 option" where
  "expected_total raw shape input output extra =
    Option.bind (checked_add input output) (\<lambda>e.
    Option.bind (if thoughts_are_extra shape then checked_add e extra else Some e) (\<lambda>e.
    checked_sum e (map (\<lambda>k. or_zero (counter raw k)) (independent_counters shape))))"

definition totals_agree :: "json \<Rightarrow> string list \<Rightarrow> u64 \<Rightarrow> bool" where
  "totals_agree raw keys expected =
    list_all (\<lambda>k. case jget raw k of None \<Rightarrow> True | Some v \<Rightarrow> as_u64 v = Some expected) keys"

definition is_complete :: "json \<Rightarrow> report_shape \<Rightarrow> bool" where
  "is_complete raw shape =
    (case (counter raw (shape_input shape), counter raw (shape_output shape)) of
       (Some input, Some output) \<Rightarrow>
         \<not> list_ex (\<lambda>(path, _). not_a_counter (pointer raw path)) (shape_subsets shape)
         \<and> \<not> list_ex (\<lambda>key. not_a_counter (jget raw key)) (independent_counters shape)
         \<and> list_all (\<lambda>(path, by_input).
              (case counter_at raw path of
                 Some n \<Rightarrow> n \<le> (if by_input then input else output) | None \<Rightarrow> True))
             (shape_subsets shape)
         \<and> (case checked_sum 0 (map (\<lambda>(path, _). or_zero (counter_at raw path))
                                  (filter snd (shape_subsets shape))) of
              Some cached \<Rightarrow> cached \<le> input | None \<Rightarrow> False)
         \<and> (case thoughts_of raw shape of
              None \<Rightarrow> False
            | Some extra \<Rightarrow>
                (case expected_total raw shape input output extra of
                   None \<Rightarrow> False
                 | Some expected \<Rightarrow>
                     totals_agree raw (shape_total shape) expected
                     \<and> (case cache_creation shape of
                          Some (grp, total_key, parts) \<Rightarrow>
                            cache_split_ok raw grp total_key parts
                        | None \<Rightarrow> True)))
     | _ \<Rightarrow> False)"

definition anthropic_shape :: report_shape where
  "anthropic_shape = \<lparr>
     shape_input = ''input_tokens'',
     shape_output = ''output_tokens'',
     shape_total = [''total_tokens''],
     shape_subsets = [(''/output_tokens_details/thinking_tokens'', False),
                      (''/reasoning_output_tokens'', False)],
     independent_counters = [''cache_read_input_tokens'', ''cache_creation_input_tokens''],
     thoughts = None,
     thoughts_are_extra = False,
     cache_creation = Some (''cache_creation'', ''cache_creation_input_tokens'',
       [''ephemeral_5m_input_tokens'', ''ephemeral_1h_input_tokens'']) \<rparr>"

definition openai_chat_shape :: report_shape where
  "openai_chat_shape = \<lparr>
     shape_input = ''prompt_tokens'',
     shape_output = ''completion_tokens'',
     shape_total = [''total_tokens''],
     shape_subsets = [(''/prompt_tokens_details/cached_tokens'', True),
                      (''/prompt_tokens_details/cache_write_tokens'', True),
                      (''/completion_tokens_details/reasoning_tokens'', False)],
     independent_counters = [],
     thoughts = None,
     thoughts_are_extra = False,
     cache_creation = None \<rparr>"

definition openai_responses_shape :: report_shape where
  "openai_responses_shape = \<lparr>
     shape_input = ''input_tokens'',
     shape_output = ''output_tokens'',
     shape_total = [''total_tokens''],
     shape_subsets = [(''/input_tokens_details/cached_tokens'', True),
                      (''/input_tokens_details/cache_write_tokens'', True),
                      (''/output_tokens_details/reasoning_tokens'', False)],
     independent_counters = [],
     thoughts = None,
     thoughts_are_extra = False,
     cache_creation = None \<rparr>"

definition gemini_shape :: report_shape where
  "gemini_shape = \<lparr>
     shape_input = ''promptTokenCount'',
     shape_output = ''candidatesTokenCount'',
     shape_total = [''totalTokenCount''],
     shape_subsets = [(''/cachedContentTokenCount'', True)],
     independent_counters = [''toolUsePromptTokenCount''],
     thoughts = Some ''thoughtsTokenCount'',
     thoughts_are_extra = True,
     cache_creation = None \<rparr>"

definition interactions_shape :: report_shape where
  "interactions_shape = \<lparr>
     shape_input = ''total_input_tokens'',
     shape_output = ''total_output_tokens'',
     shape_total = [''total_tokens''],
     shape_subsets = [(''/total_cached_tokens'', True)],
     independent_counters = [''total_tool_use_tokens''],
     thoughts = Some ''total_thought_tokens'',
     thoughts_are_extra = True,
     cache_creation = None \<rparr>"

definition malformed_report :: "json \<Rightarrow> report_shape \<Rightarrow> bool" where
  "malformed_report raw shape =
    (\<not> is_object raw
     \<or> list_ex (\<lambda>key. not_a_counter (jget raw key)) [shape_input shape, shape_output shape]
     \<or> list_ex (\<lambda>(path, _). not_a_counter (pointer raw path)) (shape_subsets shape)
     \<or> list_ex (\<lambda>key. not_a_counter (jget raw key)) (independent_counters shape)
     \<or> list_ex (\<lambda>key. not_a_counter (jget raw key)) (shape_total shape)
     \<or> (case thoughts shape of Some key \<Rightarrow> not_a_counter (jget raw key) | None \<Rightarrow> False)
     \<or> (case cache_creation shape of
          None \<Rightarrow> False
        | Some (grp, stated, parts) \<Rightarrow>
            (case jget raw grp of
               None \<Rightarrow> False
             | Some v \<Rightarrow>
                 if is_null v then (case counter raw stated of Some n \<Rightarrow> n \<noteq> 0 | None \<Rightarrow> False)
                 else \<not> is_object v \<or> list_ex (\<lambda>key. not_a_counter (jget v key)) parts)))"

definition report :: "json option \<Rightarrow> report_shape \<Rightarrow> (json \<Rightarrow> usage) \<Rightarrow> bool \<Rightarrow> usage_report" where
  "report raw shape decode final_report =
    (case raw of
       None \<Rightarrow> default_report
     | Some raw \<Rightarrow>
         if is_null raw then default_report
         else
           let complete = is_complete raw shape;
               invalid = malformed_report raw shape
                 \<or> (counter raw (shape_input shape) \<noteq> None
                    \<and> counter raw (shape_output shape) \<noteq> None \<and> \<not> complete) in
           measured (decode raw)
             (if invalid then Invalid else if complete \<and> final_report then Complete else Partial))"

section \<open>The wires' decoders\<close>

definition n_at :: "json \<Rightarrow> string \<Rightarrow> u64" where
  "n_at u k = or_zero (counter u k)"

definition detail :: "json \<Rightarrow> string \<Rightarrow> string \<Rightarrow> u64" where
  "detail u grp key =
    or_zero (Option.bind (jget u grp) (\<lambda>d. Option.bind (jget d key) as_u64))"

definition anthropic_usage :: "json \<Rightarrow> usage" where
  "anthropic_usage u =
    (let web_search = counter_at u ''/server_tool_use/web_search_requests'';
         web_fetch = counter_at u ''/server_tool_use/web_fetch_requests'';
         file_search = counter_at u ''/server_tool_use/file_search_requests'';
         code_execution = counter_at u ''/server_tool_use/code_execution_requests'' in
     \<lparr> input_tokens = n_at u ''input_tokens'',
       output_tokens = n_at u ''output_tokens'',
       cache_read_tokens = n_at u ''cache_read_input_tokens'',
       cache_write_tokens = n_at u ''cache_creation_input_tokens'',
       cache_write_1h_tokens = or_zero (counter_at u ''/cache_creation/ephemeral_1h_input_tokens''),
       reasoning_tokens = or_zero (counter_at u ''/output_tokens_details/thinking_tokens''),
       cost = None,
       server_tool_usage =
         (if is_some web_search \<or> is_some web_fetch \<or> is_some file_search \<or> is_some code_execution
          then Some \<lparr> web_search_requests = web_search, web_fetch_requests = web_fetch,
                 web_extractor_requests = None, file_search_requests = file_search,
                 code_interpreter_requests = code_execution \<rparr>
          else None) \<rparr>)"

definition openai_chat_usage :: "(json \<Rightarrow> reported_cost option) \<Rightarrow> json \<Rightarrow> usage" where
  "openai_chat_usage cost_of u =
    (let cache_read = detail u ''prompt_tokens_details'' ''cached_tokens'';
         cache_write = detail u ''prompt_tokens_details'' ''cache_write_tokens'' in
     \<lparr> input_tokens = saturating_sub (saturating_sub (n_at u ''prompt_tokens'') cache_read) cache_write,
       output_tokens = n_at u ''completion_tokens'',
       cache_read_tokens = cache_read,
       cache_write_tokens = cache_write,
       cache_write_1h_tokens = 0,
       reasoning_tokens = detail u ''completion_tokens_details'' ''reasoning_tokens'',
       cost = Option.bind (jget u ''cost'') cost_of,
       server_tool_usage = None \<rparr>)"

definition responses_tool_usage :: "json \<Rightarrow> server_tool_usage option" where
  "responses_tool_usage u =
    (let web_search = counter_at u ''/x_tools/web_search/count'';
         web_extractor = counter_at u ''/x_tools/web_extractor/count'';
         file_search = counter_at u ''/x_tools/file_search/count'';
         code_interpreter = counter_at u ''/x_tools/code_interpreter/count'' in
     if is_some web_search \<or> is_some web_extractor \<or> is_some file_search \<or> is_some code_interpreter
     then Some \<lparr> web_search_requests = web_search, web_fetch_requests = None,
            web_extractor_requests = web_extractor, file_search_requests = file_search,
            code_interpreter_requests = code_interpreter \<rparr>
     else None)"

definition openai_responses_usage :: "json \<Rightarrow> usage" where
  "openai_responses_usage u =
    (let cache_read = detail u ''input_tokens_details'' ''cached_tokens'';
         cache_write = detail u ''input_tokens_details'' ''cache_write_tokens'' in
     \<lparr> input_tokens = saturating_sub (saturating_sub (n_at u ''input_tokens'') cache_read) cache_write,
       output_tokens = n_at u ''output_tokens'',
       cache_read_tokens = cache_read,
       cache_write_tokens = cache_write,
       cache_write_1h_tokens = 0,
       reasoning_tokens = detail u ''output_tokens_details'' ''reasoning_tokens'',
       cost = None,
       server_tool_usage = responses_tool_usage u \<rparr>)"

definition gemini_usage :: "json \<Rightarrow> usage" where
  "gemini_usage u =
    (let prompt = n_at u ''promptTokenCount'';
         cached = n_at u ''cachedContentTokenCount'';
         thought = n_at u ''thoughtsTokenCount'' in
     \<lparr> input_tokens = saturating_add (saturating_sub prompt cached)
                        (n_at u ''toolUsePromptTokenCount''),
       output_tokens = saturating_add (n_at u ''candidatesTokenCount'') thought,
       cache_read_tokens = cached,
       cache_write_tokens = 0,
       cache_write_1h_tokens = 0,
       reasoning_tokens = thought,
       cost = None,
       server_tool_usage = None \<rparr>)"

definition interactions_usage :: "json \<Rightarrow> usage" where
  "interactions_usage u =
    (let input = n_at u ''total_input_tokens'';
         cached = n_at u ''total_cached_tokens'';
         thought = n_at u ''total_thought_tokens'' in
     default_usage \<lparr>
       input_tokens := saturating_add (saturating_sub input cached)
                         (n_at u ''total_tool_use_tokens''),
       cache_read_tokens := cached,
       output_tokens := saturating_add (n_at u ''total_output_tokens'') thought,
       reasoning_tokens := thought \<rparr>)"

section \<open>Normalisation and dispatch\<close>

definition qwen_normalize_usage :: "json \<Rightarrow> json" where
  "qwen_normalize_usage raw =
    (case jget raw ''prompt_tokens_details'' of
       None \<Rightarrow> raw
     | Some details \<Rightarrow>
         if \<not> is_object details then
           jset raw ''prompt_tokens_details'' (JObject [(''cache_write_tokens'', JNull)])
         else
           (case jget details ''cache_creation_input_tokens'' of
              None \<Rightarrow> raw
            | Some created \<Rightarrow>
                jset raw ''prompt_tokens_details''
                  (jset details ''cache_write_tokens''
                    (case jget details ''cache_write_tokens'' of
                       Some existing \<Rightarrow> if \<not> json_eq existing created then JNull else created
                     | None \<Rightarrow> created))))"

definition adopt_cached_tokens :: "json \<Rightarrow> json" where
  "adopt_cached_tokens raw =
    (if pointer raw ''/prompt_tokens_details/cached_tokens'' \<noteq> None then raw
     else
       (case jget raw ''cached_tokens'' of
          None \<Rightarrow> raw
        | Some cached \<Rightarrow>
            let details = (case jget raw ''prompt_tokens_details'' of
                             Some d \<Rightarrow> if is_object d then d else JObject []
                           | None \<Rightarrow> JObject []) in
            jset raw ''prompt_tokens_details'' (jset details ''cached_tokens'' cached)))"

definition normalize_usage :: "json \<Rightarrow> bool \<Rightarrow> bool \<Rightarrow> json" where
  "normalize_usage raw separate_reasoning qwen_cache =
    (let n1 = adopt_cached_tokens raw;
         n2 = (if qwen_cache then qwen_normalize_usage n1 else n1) in
     if separate_reasoning then
       (case counter raw ''completion_tokens'' of
          None \<Rightarrow> n2
        | Some output \<Rightarrow>
            let reasoning = or_zero (counter_at raw ''/completion_tokens_details/reasoning_tokens'') in
            jset n2 ''completion_tokens''
              (case checked_add output reasoning of
                 None \<Rightarrow> JNull | Some stated \<Rightarrow> JNumber (PosInt stated)))
     else n2)"

definition response_report ::
  "(bytes \<Rightarrow> json option) \<Rightarrow> (json \<Rightarrow> reported_cost option) \<Rightarrow> bytes
    \<Rightarrow> protocol_family \<Rightarrow> bool \<Rightarrow> bool \<Rightarrow> usage_report" where
  "response_report from_slice cost_of body protocol reasoning_tokens_separate qwen_applies =
    (let parsed = (case from_slice body of Some v \<Rightarrow> v | None \<Rightarrow> JNull);
         body = (case jget parsed ''response'' of
                   Some r \<Rightarrow> if is_object r then r else parsed | None \<Rightarrow> parsed) in
     case protocol of
       AnthropicMessages \<Rightarrow> report (jget body ''usage'') anthropic_shape anthropic_usage True
     | BedrockClaude \<Rightarrow> report (jget body ''usage'') anthropic_shape anthropic_usage True
     | VertexClaude \<Rightarrow> report (jget body ''usage'') anthropic_shape anthropic_usage True
     | FoundryClaude \<Rightarrow> report (jget body ''usage'') anthropic_shape anthropic_usage True
     | GeminiGenerateContent \<Rightarrow> report (jget body ''usageMetadata'') gemini_shape gemini_usage True
     | VertexGemini \<Rightarrow> report (jget body ''usageMetadata'') gemini_shape gemini_usage True
     | GeminiInteractions \<Rightarrow> report (jget body ''usage'') interactions_shape interactions_usage True
     | OpenAiResponses \<Rightarrow>
         report (jget body ''usage'') openai_responses_shape openai_responses_usage True
     | OpenAiChat \<Rightarrow>
         report (map_option (\<lambda>raw. normalize_usage raw reasoning_tokens_separate qwen_applies)
                   (jget body ''usage''))
           openai_chat_shape (openai_chat_usage cost_of) True
     | AzureOpenAi \<Rightarrow>
         report (map_option (\<lambda>raw. normalize_usage raw reasoning_tokens_separate qwen_applies)
                   (jget body ''usage''))
           openai_chat_shape (openai_chat_usage cost_of) True)"

section \<open>Lemmas\<close>

subsection \<open>Arithmetic\<close>

lemma or_zero_simps [simp]: "or_zero (Some n) = n" "or_zero None = 0"
  by (simp_all add: or_zero_def)

lemma checked_sum_Some [arith_ops]:
  "checked_sum acc ns = Some s \<longleftrightarrow>
    unat acc + sum_list (map unat ns) < 2 ^ 64 \<and> unat s = unat acc + sum_list (map unat ns)"
proof (induction ns arbitrary: acc)
  case Nil
  show ?case by (auto simp: word_unat_eq_iff)
next
  case (Cons n ns)
  show ?case
  proof (cases "checked_add acc n")
    case None
    then have "2 ^ 64 \<le> unat acc + unat n" by (simp only: checked_add_None)
    then show ?thesis using None by simp
  next
    case (Some t)
    then have "unat acc + unat n < 2 ^ 64 \<and> unat t = unat acc + unat n"
      by (simp only: checked_add_Some)
    then show ?thesis using Cons Some by (simp add: add.assoc)
  qed
qed

lemma unat_usage_total:
  "unat (usage_total u) =
    min (unat (input_tokens u) + unat (output_tokens u) + unat (cache_read_tokens u)
          + unat (cache_write_tokens u)) (2 ^ 64 - 1)"
  by (simp add: usage_total_def arith_ops)

lemma usage_total_exact:
  assumes "unat (input_tokens u) + unat (output_tokens u) + unat (cache_read_tokens u)
          + unat (cache_write_tokens u) = unat n"
  shows "usage_total u = n"
proof -
  have "unat n \<le> 18446744073709551615" using unat_lt_64 [of n] by linarith
  then have "min (unat n) (2 ^ 64 - 1) = unat n" by simp
  then show ?thesis by (simp only: word_unat_eq_iff unat_usage_total assms)
qed

subsection \<open>Folding\<close>

definition merge_value :: "json option \<Rightarrow> json \<Rightarrow> json" where
  "merge_value e v =
    (case e of
       Some existing \<Rightarrow> if is_object existing \<and> is_object v then fold_report existing v else v
     | None \<Rightarrow> v)"

lemma fold_entries_Cons:
  "fold_entries seed ((key, v) # delta) =
    fold_entries (obj_insert key (merge_value (map_of seed key) v) seed) delta"
  by (simp add: merge_value_def)

lemma map_of_fold_entries:
  assumes "distinct (map fst d)"
  shows "map_of (fold_entries s d) k =
    (case map_of d k of None \<Rightarrow> map_of s k | Some v \<Rightarrow> Some (merge_value (map_of s k) v))"
  using assms
proof (induction d arbitrary: s)
  case (Cons p d)
  obtain key v where p: "p = (key, v)" by (cases p)
  have "map_of d key = None" using Cons.prems p by (simp add: map_of_eq_None_iff)
  then show ?case
    using Cons by (simp add: p fold_entries_Cons del: fold_entries.simps split: option.split)
qed simp

lemma distinct_fold_entries:
  "distinct (map fst s) \<Longrightarrow> distinct (map fst (fold_entries s d))"
proof (induction d arbitrary: s)
  case (Cons p d)
  then show ?case
    by (cases p) (simp add: fold_entries_Cons distinct_obj_insert del: fold_entries.simps)
qed simp

lemma fold_entries_stable:
  assumes "\<And>k v. (k, v) \<in> set d \<Longrightarrow> \<exists>w. map_of s k = Some w \<and> merge_value (Some w) v = w"
  shows "fold_entries s d = s"
  using assms
proof (induction d)
  case (Cons p d)
  obtain key v where p: "p = (key, v)" by (cases p)
  obtain w where w: "map_of s key = Some w" "merge_value (Some w) v = w" using Cons.prems p by auto
  then have "obj_insert key (merge_value (map_of s key) v) s = s" by (simp add: obj_insert_same)
  then show ?case using Cons p by (simp add: fold_entries_Cons del: fold_entries.simps)
qed simp

lemma merge_value_object: "is_object (merge_value e v) = is_object v"
  by (cases e; cases v) (auto simp: merge_value_def elim: is_object.elims)

lemma merge_value_idem:
  "wf_json v \<Longrightarrow> merge_value (Some v) v = v \<and>
    merge_value (Some (merge_value e v)) v = merge_value e v"
proof (induction v arbitrary: e)
  case (JObject kvs)
  have self: "merge_value (Some v) v = v" "merge_value (Some (merge_value e v)) v = merge_value e v"
    if "(k, v) \<in> set kvs" for k v e
    using JObject that by (auto simp: list_all_iff)
  have d: "distinct (map fst kvs)" using JObject.prems by simp
  have a: "fold_entries kvs kvs = kvs"
    by (rule fold_entries_stable) (use d self in auto)
  have b: "fold_entries (fold_entries s kvs) kvs = fold_entries s kvs" for s
    by (rule fold_entries_stable) (use d self in \<open>auto simp: map_of_fold_entries\<close>)
  show ?case
    using a b by (cases e) (auto simp: merge_value_def elim!: is_object.elims)
qed (auto simp: merge_value_def split: option.split)

subsection \<open>What a complete report guarantees\<close>

lemma is_complete_facts:
  assumes "is_complete raw shape"
  obtains input outp extra expected where
    "counter raw (shape_input shape) = Some input"
    "counter raw (shape_output shape) = Some outp"
    "thoughts_of raw shape = Some extra"
    "expected_total raw shape input outp extra = Some expected"
    "totals_agree raw (shape_total shape) expected"
    "\<And>path by_input. (path, by_input) \<in> set (shape_subsets shape) \<Longrightarrow>
      or_zero (counter_at raw path) \<le> (if by_input then input else outp)"
    "sum_list (map (\<lambda>(path, _). unat (or_zero (counter_at raw path)))
       (filter snd (shape_subsets shape))) \<le> unat input"
    "\<not> list_ex (\<lambda>(path, _). not_a_counter (pointer raw path)) (shape_subsets shape)"
    "\<not> list_ex (\<lambda>key. not_a_counter (jget raw key)) (independent_counters shape)"
    "case cache_creation shape of
       Some (grp, total_key, parts) \<Rightarrow> cache_split_ok raw grp total_key parts | None \<Rightarrow> True"
proof -
  obtain input outp where io: "counter raw (shape_input shape) = Some input"
    "counter raw (shape_output shape) = Some outp"
    using assms by (auto simp: is_complete_def split: option.splits)
  obtain extra where ex: "thoughts_of raw shape = Some extra"
    using assms io by (auto simp: is_complete_def split: option.splits)
  obtain expected where exp: "expected_total raw shape input outp extra = Some expected"
    using assms io ex by (auto simp: is_complete_def split: option.splits)
  obtain cached where c: "checked_sum 0 (map (\<lambda>(path, _). or_zero (counter_at raw path))
      (filter snd (shape_subsets shape))) = Some cached" "cached \<le> input"
    using assms io by (auto simp: is_complete_def split: option.splits)
  have sum: "sum_list (map (\<lambda>(path, _). unat (or_zero (counter_at raw path)))
      (filter snd (shape_subsets shape))) \<le> unat input"
    using c by (simp add: checked_sum_Some word_le_nat_alt comp_def case_prod_unfold)
  note rest = assms [unfolded is_complete_def io option.case prod.case ex exp]
  show thesis
    by (rule that [OF io ex exp _ _ sum])
       (use rest in \<open>auto simp: list_all_iff or_zero_def split: option.splits\<close>)
qed

text \<open>The wires, each with the shape its reports are validated against.\<close>

definition wires :: "(json \<Rightarrow> reported_cost option) \<Rightarrow> (report_shape \<times> (json \<Rightarrow> usage)) list" where
  "wires cost_of =
    [(anthropic_shape, anthropic_usage), (openai_chat_shape, openai_chat_usage cost_of),
     (openai_responses_shape, openai_responses_usage), (gemini_shape, gemini_usage),
     (interactions_shape, interactions_usage)]"

text \<open>
  The decoded buckets are a partition of the bill: they add up to the
  provider's own total without saturating, and the two breakdowns stay inside
  the bucket they belong to.
\<close>

definition partitions_bill :: "json \<Rightarrow> report_shape \<Rightarrow> usage \<Rightarrow> bool" where
  "partitions_bill raw shape u \<longleftrightarrow>
    (case thoughts_of raw shape of
       None \<Rightarrow> False
     | Some extra \<Rightarrow>
         (case expected_total raw shape (n_at raw (shape_input shape))
                 (n_at raw (shape_output shape)) extra of
            None \<Rightarrow> False
          | Some expected \<Rightarrow>
              unat (input_tokens u) + unat (output_tokens u) + unat (cache_read_tokens u)
                + unat (cache_write_tokens u) = unat expected
              \<and> usage_total u = expected
              \<and> totals_agree raw (shape_total shape) expected))
    \<and> cache_write_1h_tokens u \<le> cache_write_tokens u
    \<and> reasoning_tokens u \<le> output_tokens u"

lemma partitions_billI:
  assumes "counter raw (shape_input shape) = Some input"
    "counter raw (shape_output shape) = Some outp"
    "thoughts_of raw shape = Some extra"
    "expected_total raw shape input outp extra = Some expected"
    "totals_agree raw (shape_total shape) expected"
    "unat (input_tokens u) + unat (output_tokens u) + unat (cache_read_tokens u)
       + unat (cache_write_tokens u) = unat expected"
    "cache_write_1h_tokens u \<le> cache_write_tokens u"
    "reasoning_tokens u \<le> output_tokens u"
  shows "partitions_bill raw shape u"
  using assms usage_total_exact [OF assms(6)] by (simp add: partitions_bill_def n_at_def)

lemma expected_total_value:
  assumes "expected_total raw shape input outp extra = Some expected"
  shows "unat expected = unat input + unat outp
    + (if thoughts_are_extra shape then unat extra else 0)
    + sum_list (map (\<lambda>k. unat (or_zero (counter raw k))) (independent_counters shape))"
  using assms
  by (auto simp: expected_total_def bind_eq_Some_conv checked_add_Some checked_sum_Some comp_def
      split: if_splits)

lemma detail_pointer:
  assumes "plain_key a" "plain_key b"
  shows "detail u a b = or_zero (counter_at u (CHR ''/'' # a @ CHR ''/'' # b))"
  using assms by (simp add: detail_def counter_at_def pointer_two split: option.split)

lemma plain_keys [simp]:
  "plain_key ''prompt_tokens_details''" "plain_key ''cached_tokens''"
  "plain_key ''cache_write_tokens''" "plain_key ''completion_tokens_details''"
  "plain_key ''reasoning_tokens''" "plain_key ''input_tokens_details''"
  "plain_key ''output_tokens_details''" "plain_key ''thinking_tokens''"
  "plain_key ''cachedContentTokenCount''" "plain_key ''total_cached_tokens''"
  "plain_key ''cache_creation''" "plain_key ''ephemeral_1h_input_tokens''"
  by (simp_all add: plain_key_def is_digit_def)

lemmas chat_details =
  detail_pointer [of "''prompt_tokens_details''" "''cached_tokens''", simplified]
  detail_pointer [of "''prompt_tokens_details''" "''cache_write_tokens''", simplified]
  detail_pointer [of "''completion_tokens_details''" "''reasoning_tokens''", simplified]

lemmas responses_details =
  detail_pointer [of "''input_tokens_details''" "''cached_tokens''", simplified]
  detail_pointer [of "''input_tokens_details''" "''cache_write_tokens''", simplified]
  detail_pointer [of "''output_tokens_details''" "''reasoning_tokens''", simplified]

lemma partition_folded:
  assumes "is_complete raw shape" "shape \<in> {openai_chat_shape, openai_responses_shape}"
    and "shape_subsets shape = [(pr, True), (pw, True), (pz, False)]"
    and "cache_read_tokens u = or_zero (counter_at raw pr)"
    and "cache_write_tokens u = or_zero (counter_at raw pw)"
    and "reasoning_tokens u = or_zero (counter_at raw pz)"
    and "input_tokens u = saturating_sub (saturating_sub (n_at raw (shape_input shape))
           (cache_read_tokens u)) (cache_write_tokens u)"
    and "output_tokens u = n_at raw (shape_output shape)" "cache_write_1h_tokens u = 0"
  shows "partitions_bill raw shape u"
proof (rule is_complete_facts [OF assms(1)])
  fix input outp extra expected
  assume c: "counter raw (shape_input shape) = Some input"
    "counter raw (shape_output shape) = Some outp" "thoughts_of raw shape = Some extra"
    and e: "expected_total raw shape input outp extra = Some expected"
    and t: "totals_agree raw (shape_total shape) expected"
    and sub: "\<And>path by_input. (path, by_input) \<in> set (shape_subsets shape) \<Longrightarrow>
      or_zero (counter_at raw path) \<le> (if by_input then input else outp)"
    and sum: "sum_list (map (\<lambda>(path, _). unat (or_zero (counter_at raw path)))
       (filter snd (shape_subsets shape))) \<le> unat input"
  have "unat expected = unat input + unat outp"
    using expected_total_value [OF e] assms(2)
    by (auto simp: openai_chat_shape_def openai_responses_shape_def)
  moreover have "unat (cache_read_tokens u) + unat (cache_write_tokens u) \<le> unat input"
    using sum assms(3-5) by simp
  moreover have "reasoning_tokens u \<le> outp" using sub [of pz False] assms(3,6) by simp
  ultimately show ?thesis
    using c assms(7-9)
    by (intro partitions_billI [OF c e t]) (simp_all add: n_at_def unat_saturating_sub)
qed

lemma partition_chat:
  "is_complete raw openai_chat_shape \<Longrightarrow>
    partitions_bill raw openai_chat_shape (openai_chat_usage cf raw)"
  by (rule partition_folded
      [where pr = "''/prompt_tokens_details/cached_tokens''"
         and pw = "''/prompt_tokens_details/cache_write_tokens''"
         and pz = "''/completion_tokens_details/reasoning_tokens''"])
     (simp_all add: openai_chat_usage_def chat_details openai_chat_shape_def Let_def)

lemma partition_responses:
  "is_complete raw openai_responses_shape \<Longrightarrow>
    partitions_bill raw openai_responses_shape (openai_responses_usage raw)"
  by (rule partition_folded
      [where pr = "''/input_tokens_details/cached_tokens''"
         and pw = "''/input_tokens_details/cache_write_tokens''"
         and pz = "''/output_tokens_details/reasoning_tokens''"])
     (simp_all add: openai_responses_usage_def responses_details openai_responses_shape_def Let_def)

text \<open>The two Gemini wires count thinking outside the output tokens.\<close>

lemma partition_thinking:
  assumes "is_complete raw shape" "shape \<in> {gemini_shape, interactions_shape}"
    and "shape_subsets shape = [(CHR ''/'' # k, True)]" "plain_key k"
    and "independent_counters shape = [tool]" "thoughts shape = Some th"
    and "cache_read_tokens u = n_at raw k" "cache_write_tokens u = 0"
    and "reasoning_tokens u = n_at raw th"
    and "input_tokens u = saturating_add (saturating_sub (n_at raw (shape_input shape))
           (cache_read_tokens u)) (n_at raw tool)"
    and "output_tokens u = saturating_add (n_at raw (shape_output shape)) (reasoning_tokens u)"
    and "cache_write_1h_tokens u = 0"
  shows "partitions_bill raw shape u"
proof (rule is_complete_facts [OF assms(1)])
  fix input outp extra expected
  assume c: "counter raw (shape_input shape) = Some input"
    "counter raw (shape_output shape) = Some outp" "thoughts_of raw shape = Some extra"
    and e: "expected_total raw shape input outp extra = Some expected"
    and t: "totals_agree raw (shape_total shape) expected"
    and sum: "sum_list (map (\<lambda>(path, _). unat (or_zero (counter_at raw path)))
       (filter snd (shape_subsets shape))) \<le> unat input"
  have th: "extra = n_at raw th"
    using c(3) assms(6) by (auto simp: thoughts_of_def n_at_def split: if_splits)
  have x: "unat expected = unat input + unat outp + unat extra + unat (n_at raw tool)"
    using expected_total_value [OF e] assms(2,5)
    by (auto simp: gemini_shape_def interactions_shape_def n_at_def)
  have "unat expected < 18446744073709551616" by simp
  then have lim: "unat input + unat outp + unat extra + unat (n_at raw tool) < 18446744073709551616"
    by (simp only: x)
  have cached: "unat (n_at raw k) \<le> unat input"
    using sum assms(3,4) by (simp add: n_at_def counter_def counter_at_def pointer_one)
  have "unat (input_tokens u) = unat input - unat (n_at raw k) + unat (n_at raw tool)"
    using c lim assms(7,10) by (simp add: n_at_def arith_ops)
  moreover have o: "unat (output_tokens u) = unat outp + unat extra"
    using c lim assms(9,11) th by (simp add: n_at_def arith_ops)
  moreover have "reasoning_tokens u \<le> output_tokens u"
    using assms(9) th o by (simp add: word_le_nat_alt)
  ultimately show ?thesis
    using x cached assms(7,8,12) by (intro partitions_billI [OF c e t]) simp_all
qed

lemma partition_gemini:
  "is_complete raw gemini_shape \<Longrightarrow> partitions_bill raw gemini_shape (gemini_usage raw)"
  by (rule partition_thinking
      [where k = "''cachedContentTokenCount''" and tool = "''toolUsePromptTokenCount''"
         and th = "''thoughtsTokenCount''"])
     (simp_all add: gemini_usage_def gemini_shape_def Let_def)

lemma partition_interactions:
  "is_complete raw interactions_shape \<Longrightarrow>
    partitions_bill raw interactions_shape (interactions_usage raw)"
  by (rule partition_thinking
      [where k = "''total_cached_tokens''" and tool = "''total_tool_use_tokens''"
         and th = "''total_thought_tokens''"])
     (simp_all add: interactions_usage_def interactions_shape_def default_usage_def Let_def)

lemma counter_not_object: "\<not> is_object v \<Longrightarrow> jget v k = None"
  by (cases v) auto

lemma cache_split_1h:
  assumes "cache_split_ok raw ''cache_creation'' tk [''ephemeral_5m_input_tokens'', one]"
  shows "or_zero (Option.bind (jget raw ''cache_creation'') (\<lambda>d. counter d one)) \<le> n_at raw tk"
proof (cases "jget raw ''cache_creation''")
  case (Some creation)
  show ?thesis
  proof (cases "is_object creation")
    case True
    then have nn: "\<not> is_null creation" by (cases creation) auto
    obtain stated where "counter raw tk = Some stated"
      using assms Some True nn by (auto simp: cache_split_ok_def split: option.splits)
    moreover obtain s where s: "checked_sum 0 (map (\<lambda>k. or_zero (counter creation k))
        [''ephemeral_5m_input_tokens'', one]) = Some s" "s \<le> stated"
      using assms Some True nn calculation
      by (auto simp: cache_split_ok_def Let_def not_less split: option.splits if_splits)
    moreover have "or_zero (counter creation one) \<le> s"
      using s(1) by (simp only: checked_sum_Some word_le_nat_alt) simp
    ultimately show ?thesis using Some by (auto simp: n_at_def)
  qed (use Some in \<open>simp add: counter_def counter_not_object\<close>)
qed simp

lemma partition_anthropic:
  assumes "is_complete raw anthropic_shape"
  shows "partitions_bill raw anthropic_shape (anthropic_usage raw)"
proof (rule is_complete_facts [OF assms])
  fix input outp extra expected
  assume c: "counter raw (shape_input anthropic_shape) = Some input"
    "counter raw (shape_output anthropic_shape) = Some outp"
    "thoughts_of raw anthropic_shape = Some extra"
    and e: "expected_total raw anthropic_shape input outp extra = Some expected"
    and t: "totals_agree raw (shape_total anthropic_shape) expected"
    and sub: "\<And>path by_input. (path, by_input) \<in> set (shape_subsets anthropic_shape) \<Longrightarrow>
      or_zero (counter_at raw path) \<le> (if by_input then input else outp)"
    and split: "case cache_creation anthropic_shape of
       Some (grp, total_key, parts) \<Rightarrow> cache_split_ok raw grp total_key parts | None \<Rightarrow> True"
  have "unat expected = unat input + unat outp + unat (n_at raw ''cache_read_input_tokens'')
      + unat (n_at raw ''cache_creation_input_tokens'')"
    using expected_total_value [OF e] by (simp add: anthropic_shape_def n_at_def)
  moreover have "or_zero (counter_at raw ''/cache_creation/ephemeral_1h_input_tokens'')
      \<le> n_at raw ''cache_creation_input_tokens''"
  proof -
    have "counter_at raw ''/cache_creation/ephemeral_1h_input_tokens'' =
        Option.bind (jget raw ''cache_creation'') (\<lambda>d. counter d ''ephemeral_1h_input_tokens'')"
      using pointer_two [of "''cache_creation''" "''ephemeral_1h_input_tokens''" raw]
      by (simp add: counter_at_def counter_def split: option.split)
    then show ?thesis using cache_split_1h split by (simp add: anthropic_shape_def)
  qed
  moreover have "or_zero (counter_at raw ''/output_tokens_details/thinking_tokens'') \<le> outp"
    using sub [of "''/output_tokens_details/thinking_tokens''" False]
    by (simp add: anthropic_shape_def)
  ultimately show ?thesis
    using c by (intro partitions_billI [OF c e t])
      (simp_all add: anthropic_usage_def Let_def n_at_def anthropic_shape_def)
qed

subsection \<open>Classification\<close>

lemma cache_split_ok_wellformed:
  assumes "cache_split_ok raw grp stated parts"
  shows "\<not> (case jget raw grp of None \<Rightarrow> False
     | Some v \<Rightarrow>
         if is_null v then (case counter raw stated of Some n \<Rightarrow> n \<noteq> 0 | None \<Rightarrow> False)
         else \<not> is_object v \<or> list_ex (\<lambda>key. not_a_counter (jget v key)) parts)"
proof (cases "jget raw grp")
  case (Some v)
  consider "is_null v" | "\<not> is_null v" "\<not> is_object v" | "\<not> is_null v" "is_object v" by blast
  then show ?thesis
  proof cases
    case 3
    then show ?thesis using assms Some
      by (cases "list_ex (\<lambda>key. not_a_counter (jget v key)) parts")
         (auto simp: cache_split_ok_def split: option.splits)
  qed (use assms Some in \<open>simp_all add: cache_split_ok_def\<close>)
qed simp

lemma complete_not_malformed:
  assumes "is_complete raw shape"
  shows "\<not> malformed_report raw shape"
proof (rule is_complete_facts [OF assms])
  fix input outp extra expected
  assume c: "counter raw (shape_input shape) = Some input" "counter raw (shape_output shape) = Some outp"
    and th: "thoughts_of raw shape = Some extra"
    and t: "totals_agree raw (shape_total shape) expected"
    and sub: "\<not> list_ex (\<lambda>(path, _). not_a_counter (pointer raw path)) (shape_subsets shape)"
    and ind: "\<not> list_ex (\<lambda>key. not_a_counter (jget raw key)) (independent_counters shape)"
    and cc: "case cache_creation shape of
       Some (grp, total_key, parts) \<Rightarrow> cache_split_ok raw grp total_key parts | None \<Rightarrow> True"
  have obj: "is_object raw" using c(1) by (auto simp: counter_def bind_eq_Some_conv dest: jget_Some_object)
  have io: "\<not> not_a_counter (jget raw (shape_input shape))" "\<not> not_a_counter (jget raw (shape_output shape))"
    using c by (auto simp: counter_def bind_eq_Some_conv not_a_counter_def)
  have tot: "\<not> list_ex (\<lambda>key. not_a_counter (jget raw key)) (shape_total shape)"
    using t by (auto simp: totals_agree_def list_all_iff list_ex_iff not_a_counter_def split: option.splits)
  have tho: "\<not> (case thoughts shape of Some key \<Rightarrow> not_a_counter (jget raw key) | None \<Rightarrow> False)"
    using th by (auto simp: thoughts_of_def split: option.splits if_splits)
  have cre: "\<not> (case cache_creation shape of None \<Rightarrow> False
        | Some (grp, stated, parts) \<Rightarrow>
            (case jget raw grp of None \<Rightarrow> False
             | Some v \<Rightarrow>
                 if is_null v then (case counter raw stated of Some n \<Rightarrow> n \<noteq> 0 | None \<Rightarrow> False)
                 else \<not> is_object v \<or> list_ex (\<lambda>key. not_a_counter (jget v key)) parts))"
  proof (cases "cache_creation shape")
    case (Some x)
    obtain g tk ps where "x = (g, tk, ps)" by (cases x)
    then show ?thesis
      using cc Some cache_split_ok_wellformed [of raw g tk ps] by (simp split del: if_split)
  qed simp
  show ?thesis using obj io sub ind tot tho cre by (simp add: malformed_report_def)
qed

lemma complete_counters:
  "is_complete raw shape \<Longrightarrow>
    counter raw (shape_input shape) \<noteq> None \<and> counter raw (shape_output shape) \<noteq> None"
  by (auto simp: is_complete_def split: option.splits)

section \<open>Properties\<close>

text \<open>
  C3. A complete report is billable, on every wire: the decoded buckets are
  disjoint, add up to the total the provider states without saturating, and
  the one-hour cache writes and the reasoning tokens stay inside their bucket.
\<close>

theorem complete_report_partitions_bill:
  assumes "(shape, decode) \<in> set (wires cost_of)"
    and "report_state (report (Some raw) shape decode fin) = Complete"
  shows "report_usage (report (Some raw) shape decode fin) = Some (decode raw)
    \<and> partitions_bill raw shape (decode raw)"
proof -
  have "is_complete raw shape" "\<not> is_null raw"
    using assms(2) by (auto simp: report_def Let_def measured_def default_report_def split: if_splits)
  then show ?thesis
    using assms(1) partition_anthropic partition_chat partition_responses partition_gemini
      partition_interactions
    by (auto simp: wires_def report_def Let_def measured_def)
qed

definition sample_gemini_report :: json where
  "sample_gemini_report =
     JObject [(''promptTokenCount'', JNumber (PosInt 10)),
              (''cachedContentTokenCount'', JNumber (PosInt 4)),
              (''candidatesTokenCount'', JNumber (PosInt 3)),
              (''thoughtsTokenCount'', JNumber (PosInt 2)),
              (''totalTokenCount'', JNumber (PosInt 15))]"

theorem complete_report_partitions_bill_witness:
  "partitions_bill sample_gemini_report gemini_shape (gemini_usage sample_gemini_report)
   \<and> input_tokens (gemini_usage sample_gemini_report) = 6"
proof -
  have "is_complete sample_gemini_report gemini_shape"
    by (simp add: is_complete_def sample_gemini_report_def gemini_shape_def counter_def counter_at_def
        not_a_counter_def pointer_one [of "''cachedContentTokenCount''", simplified] thoughts_of_def
        expected_total_def totals_agree_def checked_add_def)
  then have "report_state (report (Some sample_gemini_report) gemini_shape gemini_usage True) = Complete"
    using complete_not_malformed by (simp add: report_def measured_def sample_gemini_report_def)
  moreover have "(gemini_shape, gemini_usage) \<in> set (wires (\<lambda>_. None))" by (simp add: wires_def)
  moreover have "input_tokens (gemini_usage sample_gemini_report) = 6"
    by (simp add: gemini_usage_def n_at_def counter_def sample_gemini_report_def
        saturating_add_def saturating_sub_def)
  ultimately show ?thesis using complete_report_partitions_bill by blast
qed

text \<open>
  The state of a report is decided by its content alone: Missing exactly
  when nothing was sent, Complete exactly when it is consistent and final,
  Invalid when a stated field is malformed or the required counters contradict
  the rest, Partial otherwise; in particular no report is both consistent and
  malformed.
\<close>

theorem report_state_classification:
  "report_state (report raw shape decode fin) =
    (case raw of
       None \<Rightarrow> Missing
     | Some r \<Rightarrow>
         if is_null r then Missing
         else if is_complete r shape then (if fin then Complete else Partial)
         else if malformed_report r shape
              \<or> counter r (shape_input shape) \<noteq> None \<and> counter r (shape_output shape) \<noteq> None
         then Invalid else Partial)"
  using complete_not_malformed
  by (auto simp: report_def default_report_def measured_def Let_def split: option.split)

text \<open>
  Merging is by presence, not by value: for objects with distinct keys a
  counter the later report states wins even when it is zero, one it omits
  keeps the seed's value, the merged report is again well formed, and merging
  the same report twice changes nothing.
\<close>

theorem fold_merges_on_presence:
  assumes "wf_json (JObject s)" "wf_json (JObject d)"
  shows "counter (fold_report (JObject s) (JObject d)) k =
      (case map_of d k of None \<Rightarrow> counter (JObject s) k | Some v \<Rightarrow> as_u64 v)
    \<and> fold_report (fold_report (JObject s) (JObject d)) (JObject d) = fold_report (JObject s) (JObject d)
    \<and> distinct (map fst (fold_entries s d))"
proof -
  have d: "distinct (map fst s)" "distinct (map fst d)" using assms by simp_all
  have "as_u64 (merge_value e v) = as_u64 v" for e v
    by (cases e; cases v) (auto simp: merge_value_def elim!: is_object.elims)
  then have "counter (fold_report (JObject s) (JObject d)) k =
      (case map_of d k of None \<Rightarrow> counter (JObject s) k | Some v \<Rightarrow> as_u64 v)"
    by (simp add: counter_def map_of_fold_entries d split: option.split)
  moreover have "fold_report (fold_report (JObject s) (JObject d)) (JObject d)
      = fold_report (JObject s) (JObject d)"
    using merge_value_idem [OF assms(2), of "Some (JObject s)"] by (simp add: merge_value_def)
  ultimately show ?thesis using d distinct_fold_entries by blast
qed

theorem fold_merges_on_presence_witness:
  "counter (fold_report (JObject [(''a'', JNumber (PosInt 7)), (''b'', JNumber (PosInt 5))])
                        (JObject [(''a'', JNumber (PosInt 0))])) ''a'' = Some 0
   \<and> counter (fold_report (JObject [(''a'', JNumber (PosInt 7)), (''b'', JNumber (PosInt 5))])
                        (JObject [(''a'', JNumber (PosInt 0))])) ''b'' = Some 5"
  using fold_merges_on_presence
    [of "[(''a'', JNumber (PosInt 7)), (''b'', JNumber (PosInt 5))]" "[(''a'', JNumber (PosInt 0))]" "''a''"]
    fold_merges_on_presence
    [of "[(''a'', JNumber (PosInt 7)), (''b'', JNumber (PosInt 5))]" "[(''a'', JNumber (PosInt 0))]" "''b''"]
  by (simp add: counter_def)

text \<open>
  Separately reported reasoning that overflows the output counter can never
  be billed: the normalised Chat report then has no output counter and its
  report is Invalid, while without overflow the output counter is their sum.
\<close>

theorem separate_reasoning_overflow_invalid:
  assumes "counter raw ''completion_tokens'' = Some outp"
  shows "(case checked_add outp
            (or_zero (counter_at raw ''/completion_tokens_details/reasoning_tokens'')) of
       None \<Rightarrow> report_state (report (Some (normalize_usage raw True qwen))
                 openai_chat_shape decode fin) = Invalid
     | Some n \<Rightarrow> counter (normalize_usage raw True qwen) ''completion_tokens'' = Some n)"
proof -
  have obj: "is_object raw"
    using assms by (auto simp: counter_def bind_eq_Some_conv dest: jget_Some_object)
  have a: "is_object (adopt_cached_tokens raw)"
    using obj by (simp add: adopt_cached_tokens_def Let_def split: option.split)
  then have q: "is_object (qwen_normalize_usage (adopt_cached_tokens raw))"
    by (simp add: qwen_normalize_usage_def split: option.split)
  define n2 where "n2 = (if qwen then qwen_normalize_usage (adopt_cached_tokens raw)
                         else adopt_cached_tokens raw)"
  have n2: "is_object n2" using a q by (simp add: n2_def)
  have norm: "normalize_usage raw True qwen = jset n2 ''completion_tokens''
      (case checked_add outp (or_zero (counter_at raw ''/completion_tokens_details/reasoning_tokens'')) of
         None \<Rightarrow> JNull | Some n \<Rightarrow> JNumber (PosInt n))"
    using assms by (simp add: normalize_usage_def n2_def Let_def)
  have "\<not> is_null (jset n2 k v)" for k v using n2 by (cases n2) auto
  then show ?thesis
    using n2 unfolding norm
    by (auto simp: counter_def report_def Let_def measured_def malformed_report_def not_a_counter_def
        openai_chat_shape_def split: option.split)
qed

definition sample_overflow_report :: json where
  "sample_overflow_report =
    JObject [(''completion_tokens'', JNumber (PosInt (- 1))),
             (''completion_tokens_details'', JObject [(''reasoning_tokens'', JNumber (PosInt 1))])]"

theorem separate_reasoning_overflow_invalid_witness:
  "report_state (report (Some (normalize_usage sample_overflow_report True False))
     openai_chat_shape openai_responses_usage True) = Invalid"
proof -
  have "counter sample_overflow_report ''completion_tokens'' = Some (- 1)"
    by (simp add: counter_def sample_overflow_report_def)
  moreover have "checked_add (- 1)
      (or_zero (counter_at sample_overflow_report ''/completion_tokens_details/reasoning_tokens'')) = None"
    by (simp add: chat_details(3) [symmetric] detail_def sample_overflow_report_def checked_add_def
        unat_max_64)
  ultimately show ?thesis
    using separate_reasoning_overflow_invalid
      [of sample_overflow_report "- 1" False openai_responses_usage True] by simp
qed

end
