(* ===== verification/Inference.thy ===== *)
theory Inference
  imports Protocol_Types
begin

text \<open>
  Inference controls and their support facts (\<^verbatim>\<open>src/protocol/inference.rs\<close>,
  and the capability facts of \<^verbatim>\<open>src/protocol/llm.rs\<close>): what a model and a
  connection are known to support, how a later observation overlays an earlier
  one, how a connection restricts a model, and the consistency every merge
  restores.  A \<^verbatim>\<open>BTreeMap\<close> over a closed enumeration is a partial function,
  iterated in the declaration order of its keys.
\<close>

section \<open>Capabilities\<close>

datatype capability_support = Unknown | Supported | Unsupported

datatype model_capability =
    Vision | Documents | Tools | Reasoning | SignedReasoning | Streaming | StructuredOutput

record model_capability_support =
  vision :: capability_support
  documents :: capability_support
  tools :: capability_support
  reasoning :: capability_support
  signed_reasoning :: capability_support
  streaming :: capability_support
  structured_output :: capability_support

definition default_capability_support :: model_capability_support where
  "default_capability_support = \<lparr> vision = Unknown, documents = Unknown, tools = Unknown,
     reasoning = Unknown, signed_reasoning = Unknown, streaming = Unknown,
     structured_output = Unknown \<rparr>"

fun capability_get :: "model_capability_support \<Rightarrow> model_capability \<Rightarrow> capability_support" where
  "capability_get c Vision = vision c"
| "capability_get c Documents = documents c"
| "capability_get c Tools = tools c"
| "capability_get c Reasoning = reasoning c"
| "capability_get c SignedReasoning = signed_reasoning c"
| "capability_get c Streaming = streaming c"
| "capability_get c StructuredOutput = structured_output c"

section \<open>Controls\<close>

datatype reasoning_effort =
    NoEffort | Minimal | Low | Medium | High | XHigh | MaxEffort

definition reasoning_efforts :: "reasoning_effort list" where
  "reasoning_efforts = [NoEffort, Minimal, Low, Medium, High, XHigh, MaxEffort]"

fun effort_name :: "reasoning_effort \<Rightarrow> string" where
  "effort_name NoEffort = ''none''"
| "effort_name Minimal = ''minimal''"
| "effort_name Low = ''low''"
| "effort_name Medium = ''medium''"
| "effort_name High = ''high''"
| "effort_name XHigh = ''xhigh''"
| "effort_name MaxEffort = ''max''"

datatype thinking_mode = Disabled | Enabled | Adaptive

definition thinking_modes :: "thinking_mode list" where
  "thinking_modes = [Disabled, Enabled, Adaptive]"

datatype thinking_budget = Tokens u32 | Dynamic

record thinking_config =
  tc_mode :: "thinking_mode option"
  tc_budget :: "thinking_budget option"
  tc_effort :: "reasoning_effort option"

datatype service_tier = Standard | Fast

record thinking_mode_support =
  ms_support :: capability_support
  effort_levels :: "reasoning_effort list option"
  forced_tool_choice_support :: capability_support

definition default_mode_support :: thinking_mode_support where
  "default_mode_support =
    \<lparr> ms_support = Unknown, effort_levels = None, forced_tool_choice_support = Unknown \<rparr>"

record budget_support =
  bs_support :: capability_support
  min_tokens :: "u32 option"
  max_tokens :: "u32 option"
  bs_dynamic :: capability_support
  hard_limit :: "bool option"

record effort_support =
  es_support :: capability_support
  with_disabled_thinking :: capability_support
  levels :: "reasoning_effort list option"
  level_support :: "reasoning_effort \<Rightarrow> capability_support option"
  es_default :: "reasoning_effort option"

record inference_features =
  thinking :: capability_support
  modes :: "thinking_mode list option"
  mode_support :: "thinking_mode \<Rightarrow> thinking_mode_support option"
  default_mode :: "thinking_mode option"
  budget :: budget_support
  effort :: effort_support
  fast :: capability_support
  default_service_tier :: "service_tier option"
  requirements :: "string list"
  feature_sources :: "string list"

definition default_features :: inference_features where
  "default_features = \<lparr>
     thinking = Unknown, modes = None, mode_support = (\<lambda>_. None), default_mode = None,
     budget = \<lparr> bs_support = Unknown, min_tokens = None, max_tokens = None,
                bs_dynamic = Unknown, hard_limit = None \<rparr>,
     effort = \<lparr> es_support = Unknown, with_disabled_thinking = Unknown, levels = None,
                level_support = (\<lambda>_. None), es_default = None \<rparr>,
     fast = Unknown, default_service_tier = None, requirements = [], feature_sources = [] \<rparr>"

datatype reasoning_wire =
    WireOpenAiChat | WireOpenAiResponses | WireAnthropic | WireGemini | ThinkingType
  | EnableThinking | ReasoningObject | WireUnavailable

section \<open>Effective support\<close>

definition contains :: "'a list \<Rightarrow> 'a \<Rightarrow> bool" where
  "contains xs x = List.member xs x"

lemma contains_iff [simp]: "contains xs x \<longleftrightarrow> x \<in> set xs"
  by (simp add: contains_def)

text \<open>\<^verbatim>\<open>option.is_some_and(|v| !v.contains(&x))\<close>\<close>

definition excluded :: "'a list option \<Rightarrow> 'a \<Rightarrow> bool" where
  "excluded allowed x = (case allowed of Some v \<Rightarrow> \<not> contains v x | None \<Rightarrow> False)"

definition effort_mode_error ::
  "inference_features \<Rightarrow> thinking_mode option \<Rightarrow> reasoning_effort \<Rightarrow> string option" where
  "effort_mode_error f mode e =
    (if (mode = Some Enabled \<or> mode = Some Adaptive) \<and> e = NoEffort
     then Some ''enabled thinking conflicts with effort none''
     else if mode = Some Disabled \<and> e \<noteq> NoEffort
             \<and> with_disabled_thinking (effort f) = Unsupported
     then Some ''disabled thinking conflicts with a reasoning effort''
     else None)"

definition supports_mode :: "inference_features \<Rightarrow> thinking_mode \<Rightarrow> capability_support" where
  "supports_mode f mode =
    (if mode \<noteq> Disabled \<and> thinking f = Unsupported then Unsupported
     else
       let explicit = (case mode_support f mode of Some s \<Rightarrow> ms_support s | None \<Rightarrow> Unknown) in
       if explicit = Unsupported \<or> excluded (modes f) mode then Unsupported
       else if explicit = Supported \<or> modes f \<noteq> None then Supported
       else Unknown)"

definition supports_effort ::
  "inference_features \<Rightarrow> thinking_mode option \<Rightarrow> reasoning_effort \<Rightarrow> capability_support" where
  "supports_effort f mode0 e =
    (if effort_mode_error f mode0 e \<noteq> None then Unsupported
     else
       let mode = (case mode0 of Some m \<Rightarrow> Some m | None \<Rightarrow> default_mode f) in
       if es_support (effort f) = Unsupported
          \<or> excluded (levels (effort f)) e
          \<or> level_support (effort f) e = Some Unsupported
          \<or> e = NoEffort \<and> supports_mode f Disabled = Unsupported
          \<or> (case mode of
               None \<Rightarrow> False
             | Some m \<Rightarrow>
                 supports_mode f m = Unsupported
                 \<or> (case mode_support f m of
                      Some s \<Rightarrow> excluded (effort_levels s) e | None \<Rightarrow> False))
       then Unsupported
       else if levels (effort f) \<noteq> None \<or> level_support (effort f) e = Some Supported
       then Supported
       else Unknown)"

definition forced_tool_choice :: "inference_features \<Rightarrow> thinking_mode \<Rightarrow> capability_support" where
  "forced_tool_choice f mode =
    (if supports_mode f mode = Unsupported then Unsupported
     else (case mode_support f mode of
             Some s \<Rightarrow> forced_tool_choice_support s | None \<Rightarrow> Unknown))"

section \<open>Consistency after a merge\<close>

text \<open>
  The statements of \<^verbatim>\<open>restrict_to_modes\<close> in order, one function each; a later
  one reads what the earlier ones wrote.
\<close>

definition drop_refused_modes :: "inference_features \<Rightarrow> inference_features" where
  "drop_refused_modes f = f \<lparr> modes := map_option (filter (\<lambda>m.
      case mode_support f m of None \<Rightarrow> True | Some s \<Rightarrow> ms_support s \<noteq> Unsupported)) (modes f) \<rparr>"

definition drop_refused_levels :: "inference_features \<Rightarrow> inference_features" where
  "drop_refused_levels f = f \<lparr> effort := (effort f) \<lparr> levels := map_option (filter (\<lambda>e.
      level_support (effort f) e \<noteq> Some Unsupported)) (levels (effort f)) \<rparr> \<rparr>"

definition check_default_mode :: "inference_features \<Rightarrow> inference_features" where
  "check_default_mode f = f \<lparr> default_mode :=
      filter_option (\<lambda>m. supports_mode f m \<noteq> Unsupported) (default_mode f) \<rparr>"

definition check_default_effort :: "inference_features \<Rightarrow> inference_features" where
  "check_default_effort f = f \<lparr> effort := (effort f) \<lparr> es_default :=
      filter_option (\<lambda>e. supports_effort f None e \<noteq> Unsupported) (es_default (effort f)) \<rparr> \<rparr>"

definition close_thinking :: "inference_features \<Rightarrow> inference_features" where
  "close_thinking f =
    (if thinking f = Unsupported then
       f \<lparr> modes := map_option (filter (\<lambda>m. m = Disabled)) (modes f),
           default_mode := filter_option (\<lambda>m. m = Disabled) (default_mode f),
           budget := (budget f) \<lparr> bs_support := Unsupported \<rparr> \<rparr>
     else f)"

definition close_budget :: "inference_features \<Rightarrow> inference_features" where
  "close_budget f =
    (if bs_support (budget f) = Unsupported then
       f \<lparr> budget := (budget f) \<lparr> bs_dynamic := Unsupported, min_tokens := None,
                                    max_tokens := None, hard_limit := None \<rparr> \<rparr>
     else f)"

definition close_effort :: "inference_features \<Rightarrow> inference_features" where
  "close_effort f =
    (let f1 = (if es_support (effort f) = Unsupported
               then f \<lparr> effort := (effort f) \<lparr> levels := Some [] \<rparr> \<rparr> else f) in
     case levels (effort f1) of
       None \<Rightarrow> f1
     | Some ls \<Rightarrow> f1 \<lparr> effort := (effort f1) \<lparr> es_default :=
                     filter_option (contains ls) (es_default (effort f1)) \<rparr> \<rparr>)"

definition close_fast :: "inference_features \<Rightarrow> inference_features" where
  "close_fast f =
    (if fast f = Unsupported \<and> default_service_tier f = Some Fast
     then f \<lparr> default_service_tier := None \<rparr> else f)"

definition close_modes :: "inference_features \<Rightarrow> inference_features" where
  "close_modes f =
    (case modes f of
       None \<Rightarrow> f
     | Some ms \<Rightarrow>
         let f1 = f \<lparr> default_mode := filter_option (contains ms) (default_mode f) \<rparr> in
         if contains ms Disabled then f1
         else f1 \<lparr> effort := (effort f1) \<lparr>
                levels := map_option (filter (\<lambda>e. e \<noteq> NoEffort)) (levels (effort f1)),
                es_default := filter_option (\<lambda>e. e \<noteq> NoEffort) (es_default (effort f1)) \<rparr> \<rparr>)"

definition restrict_to_modes :: "inference_features \<Rightarrow> inference_features" where
  "restrict_to_modes f =
    close_modes (close_fast (close_effort (close_budget (close_thinking
      (check_default_effort (check_default_mode (drop_refused_levels (drop_refused_modes f))))))))"

section \<open>Overlay\<close>

definition update_allowed ::
  "'a list option \<Rightarrow> 'a \<Rightarrow> capability_support \<Rightarrow> 'a list option" where
  "update_allowed allowed v support =
    (case allowed of
       None \<Rightarrow> None
     | Some xs \<Rightarrow>
         if support = Unsupported then Some (filter (\<lambda>x. x \<noteq> v) xs)
         else if support = Supported \<and> \<not> contains xs v then Some (xs @ [v])
         else Some xs)"

definition known :: "capability_support \<Rightarrow> capability_support \<Rightarrow> capability_support" where
  "known newer older = (if newer \<noteq> Unknown then newer else older)"

definition overlay_modes :: "inference_features \<Rightarrow> inference_features \<Rightarrow> inference_features" where
  "overlay_modes f other =
    (case modes other of
       None \<Rightarrow> f
     | Some ms \<Rightarrow>
         f \<lparr> modes := Some ms,
             mode_support := (\<lambda>m. map_option (\<lambda>s. s \<lparr> ms_support :=
                (if contains ms m then Supported else Unsupported) \<rparr>) (mode_support f m)) \<rparr>)"

definition overlay_mode ::
  "inference_features \<Rightarrow> inference_features \<Rightarrow> thinking_mode \<Rightarrow> inference_features" where
  "overlay_mode other f mode =
    (case mode_support other mode of
       None \<Rightarrow> f
     | Some observed \<Rightarrow>
         let current = (case mode_support f mode of Some s \<Rightarrow> s | None \<Rightarrow> default_mode_support);
             updated = \<lparr> ms_support = known (ms_support observed) (ms_support current),
                         effort_levels = or_keep (effort_levels observed) (effort_levels current),
                         forced_tool_choice_support =
                           known (forced_tool_choice_support observed)
                                 (forced_tool_choice_support current) \<rparr> in
         f \<lparr> mode_support := (mode_support f)(mode \<mapsto> updated),
             modes := (if ms_support observed \<noteq> Unknown
                       then update_allowed (modes f) mode (ms_support observed)
                       else modes f) \<rparr>)"

definition overlay_level ::
  "effort_support \<Rightarrow> effort_support \<Rightarrow> reasoning_effort \<Rightarrow> effort_support" where
  "overlay_level other f e =
    (case level_support other e of
       None \<Rightarrow> f
     | Some s \<Rightarrow>
         if s = Unknown then f
         else f \<lparr> level_support := (level_support f)(e \<mapsto> s),
                  levels := update_allowed (levels f) e s \<rparr>)"

definition overlay_budget :: "budget_support \<Rightarrow> budget_support \<Rightarrow> budget_support" where
  "overlay_budget f other =
    \<lparr> bs_support = known (bs_support other) (bs_support f),
      min_tokens = or_keep (min_tokens other) (min_tokens f),
      max_tokens = or_keep (max_tokens other) (max_tokens f),
      bs_dynamic = known (bs_dynamic other) (bs_dynamic f),
      hard_limit = or_keep (hard_limit other) (hard_limit f) \<rparr>"

definition overlay_effort :: "effort_support \<Rightarrow> effort_support \<Rightarrow> effort_support" where
  "overlay_effort f other =
    (let f1 = f \<lparr> es_support := known (es_support other) (es_support f),
                 with_disabled_thinking :=
                   known (with_disabled_thinking other) (with_disabled_thinking f) \<rparr>;
         f2 = (if levels other \<noteq> None
               then f1 \<lparr> levels := levels other, level_support := (\<lambda>_. None) \<rparr> else f1);
         f3 = foldl (overlay_level other) f2 reasoning_efforts in
     f3 \<lparr> es_default := or_keep (es_default other) (es_default f3) \<rparr>)"

definition push_new :: "'a list \<Rightarrow> 'a list \<Rightarrow> 'a list" where
  "push_new xs ys = foldl (\<lambda>acc y. if contains acc y then acc else acc @ [y]) xs ys"

definition overlay :: "inference_features \<Rightarrow> inference_features \<Rightarrow> inference_features" where
  "overlay f other =
    (let f1 = f \<lparr> thinking := known (thinking other) (thinking f) \<rparr>;
         f2 = foldl (overlay_mode other) (overlay_modes f1 other) thinking_modes;
         f3 = f2 \<lparr> default_mode := or_keep (default_mode other) (default_mode f2),
                   budget := overlay_budget (budget f2) (budget other),
                   effort := overlay_effort (effort f2) (effort other),
                   fast := known (fast other) (fast f2),
                   default_service_tier :=
                     or_keep (default_service_tier other) (default_service_tier f2),
                   requirements := push_new (requirements f2) (requirements other),
                   feature_sources := push_new (feature_sources f2) (feature_sources other) \<rparr> in
     restrict_to_modes f3)"

section \<open>Connection restrictions\<close>

definition limit :: "capability_support \<Rightarrow> capability_support \<Rightarrow> capability_support" where
  "limit own conn = (if conn = Unsupported then Unsupported else own)"

definition restrict_list :: "'a list option \<Rightarrow> 'a list option \<Rightarrow> 'a list option" where
  "restrict_list own allowed =
    (case allowed of
       None \<Rightarrow> own
     | Some a \<Rightarrow> Some (case own of None \<Rightarrow> a | Some v \<Rightarrow> filter (contains a) v))"

definition limit_mode ::
  "thinking_mode_support option \<Rightarrow> thinking_mode_support option \<Rightarrow> thinking_mode_support option" where
  "limit_mode own conn =
    (case conn of
       None \<Rightarrow> own
     | Some lim \<Rightarrow>
         let o1 = (case own of Some s \<Rightarrow> s | None \<Rightarrow> default_mode_support) in
         Some \<lparr> ms_support = limit (ms_support o1) (ms_support lim),
                effort_levels = restrict_list (effort_levels o1) (effort_levels lim),
                forced_tool_choice_support =
                  limit (forced_tool_choice_support o1) (forced_tool_choice_support lim) \<rparr>)"

definition combine_option :: "('a \<Rightarrow> 'a \<Rightarrow> 'a) \<Rightarrow> 'a option \<Rightarrow> 'a option \<Rightarrow> 'a option" where
  "combine_option g a b =
    (case (a, b) of
       (Some x, Some y) \<Rightarrow> Some (g x y)
     | (None, _) \<Rightarrow> b
     | (_, None) \<Rightarrow> a)"

definition limit_effort :: "effort_support \<Rightarrow> effort_support \<Rightarrow> effort_support" where
  "limit_effort own conn =
    \<lparr> es_support = limit (es_support own) (es_support conn),
      with_disabled_thinking =
        (if with_disabled_thinking own = Unknown \<or> with_disabled_thinking conn = Unsupported
         then with_disabled_thinking conn else with_disabled_thinking own),
      levels = restrict_list (levels own) (levels conn),
      level_support = (\<lambda>e. if level_support conn e = Some Unsupported then Some Unsupported
                           else level_support own e),
      es_default = es_default own \<rparr>"

definition limit_budget :: "budget_support \<Rightarrow> budget_support \<Rightarrow> budget_support" where
  "limit_budget own conn =
    \<lparr> bs_support = limit (bs_support own) (bs_support conn),
      min_tokens = combine_option max (min_tokens own) (min_tokens conn),
      max_tokens = combine_option min (max_tokens own) (max_tokens conn),
      bs_dynamic = limit (bs_dynamic own) (bs_dynamic conn),
      hard_limit = hard_limit own \<rparr>"

definition on_connection :: "inference_features \<Rightarrow> inference_features \<Rightarrow> inference_features" where
  "on_connection own conn =
    restrict_to_modes
      (own \<lparr> default_service_tier := or_keep (default_service_tier own) (default_service_tier conn),
             mode_support := (\<lambda>m. limit_mode (mode_support own m) (mode_support conn m)),
             thinking := limit (thinking own) (thinking conn),
             budget := limit_budget (budget own) (budget conn),
             effort := limit_effort (effort own) (effort conn),
             fast := limit (fast own) (fast conn),
             modes := restrict_list (modes own) (modes conn),
             requirements := push_new (requirements own) (requirements conn),
             feature_sources := push_new (feature_sources own) (feature_sources conn) \<rparr>)"

definition reasoning_wire_of :: "reasoning_wire option \<Rightarrow> protocol_family \<Rightarrow> reasoning_wire" where
  "reasoning_wire_of declared protocol =
    (case declared of
       Some w \<Rightarrow> w
     | None \<Rightarrow>
         if protocol = OpenAiChat \<or> protocol = AzureOpenAi then WireOpenAiChat
         else if protocol = OpenAiResponses then WireOpenAiResponses
         else if protocol = GeminiGenerateContent \<or> protocol = GeminiInteractions
                 \<or> protocol = VertexGemini then WireGemini
         else WireAnthropic)"

definition profile_features ::
  "reasoning_wire option \<Rightarrow> protocol_family \<Rightarrow> inference_features \<Rightarrow> inference_features" where
  "profile_features declared protocol features =
    on_connection features
      (default_features \<lparr> effort := (effort default_features) \<lparr> with_disabled_thinking :=
         (case reasoning_wire_of declared protocol of
            WireAnthropic \<Rightarrow> Supported
          | WireUnavailable \<Rightarrow> Unknown
          | _ \<Rightarrow> Unsupported) \<rparr> \<rparr>)"

section \<open>Lemmas\<close>

text \<open>The facts a feature record must not contradict.\<close>

definition consistent_features :: "inference_features \<Rightarrow> bool" where
  "consistent_features f \<longleftrightarrow>
    (case modes f of None \<Rightarrow> True | Some ms \<Rightarrow>
       list_all (\<lambda>m. (case mode_support f m of None \<Rightarrow> True | Some s \<Rightarrow> ms_support s \<noteq> Unsupported)) ms
       \<and> (thinking f = Unsupported \<longrightarrow> list_all (\<lambda>m. m = Disabled) ms))
    \<and> (case levels (effort f) of None \<Rightarrow> True | Some ls \<Rightarrow>
         list_all (\<lambda>e. level_support (effort f) e \<noteq> Some Unsupported) ls
         \<and> (excluded (modes f) Disabled \<longrightarrow> \<not> contains ls NoEffort))
    \<and> (case default_mode f of None \<Rightarrow> True | Some m \<Rightarrow> supports_mode f m \<noteq> Unsupported)
    \<and> (case es_default (effort f) of None \<Rightarrow> True
       | Some e \<Rightarrow> supports_effort f None e \<noteq> Unsupported)
    \<and> (thinking f = Unsupported \<longrightarrow> bs_support (budget f) = Unsupported)
    \<and> (bs_support (budget f) = Unsupported \<longrightarrow>
         bs_dynamic (budget f) = Unsupported \<and> min_tokens (budget f) = None
         \<and> max_tokens (budget f) = None \<and> hard_limit (budget f) = None)
    \<and> (es_support (effort f) = Unsupported \<longrightarrow> levels (effort f) = Some [])
    \<and> \<not> (fast f = Unsupported \<and> default_service_tier f = Some Fast)"

named_theorems restrict_defs

lemmas [restrict_defs] = drop_refused_modes_def drop_refused_levels_def check_default_mode_def
  check_default_effort_def close_thinking_def close_budget_def close_effort_def close_fast_def
  close_modes_def

lemma excluded_simps [simp]:
  "\<not> excluded None x"
  "excluded (Some v) x \<longleftrightarrow> x \<notin> set v"
  by (simp_all add: excluded_def)

text \<open>What each step leaves untouched; every field is written by few of them.\<close>

lemma drop_refused_modes_fields [simp]:
  "thinking (drop_refused_modes f) = thinking f"
  "mode_support (drop_refused_modes f) = mode_support f"
  "level_support (effort (drop_refused_modes f)) = level_support (effort f)"
  "es_support (effort (drop_refused_modes f)) = es_support (effort f)"
  "with_disabled_thinking (effort (drop_refused_modes f)) = with_disabled_thinking (effort f)"
  "fast (drop_refused_modes f) = fast f"
  "default_mode (drop_refused_modes f) = default_mode f"
  "levels (effort (drop_refused_modes f)) = levels (effort f)"
  "es_default (effort (drop_refused_modes f)) = es_default (effort f)"
  "budget (drop_refused_modes f) = budget f"
  "default_service_tier (drop_refused_modes f) = default_service_tier f"
  by (simp_all add: drop_refused_modes_def Let_def split: option.split)

lemma drop_refused_levels_fields [simp]:
  "thinking (drop_refused_levels f) = thinking f"
  "mode_support (drop_refused_levels f) = mode_support f"
  "level_support (effort (drop_refused_levels f)) = level_support (effort f)"
  "es_support (effort (drop_refused_levels f)) = es_support (effort f)"
  "with_disabled_thinking (effort (drop_refused_levels f)) = with_disabled_thinking (effort f)"
  "fast (drop_refused_levels f) = fast f"
  "modes (drop_refused_levels f) = modes f"
  "default_mode (drop_refused_levels f) = default_mode f"
  "es_default (effort (drop_refused_levels f)) = es_default (effort f)"
  "budget (drop_refused_levels f) = budget f"
  "default_service_tier (drop_refused_levels f) = default_service_tier f"
  by (simp_all add: drop_refused_levels_def Let_def split: option.split)

lemma check_default_mode_fields [simp]:
  "thinking (check_default_mode f) = thinking f"
  "mode_support (check_default_mode f) = mode_support f"
  "level_support (effort (check_default_mode f)) = level_support (effort f)"
  "es_support (effort (check_default_mode f)) = es_support (effort f)"
  "with_disabled_thinking (effort (check_default_mode f)) = with_disabled_thinking (effort f)"
  "fast (check_default_mode f) = fast f"
  "modes (check_default_mode f) = modes f"
  "levels (effort (check_default_mode f)) = levels (effort f)"
  "es_default (effort (check_default_mode f)) = es_default (effort f)"
  "budget (check_default_mode f) = budget f"
  "default_service_tier (check_default_mode f) = default_service_tier f"
  by (simp_all add: check_default_mode_def Let_def split: option.split)

lemma check_default_effort_fields [simp]:
  "thinking (check_default_effort f) = thinking f"
  "mode_support (check_default_effort f) = mode_support f"
  "level_support (effort (check_default_effort f)) = level_support (effort f)"
  "es_support (effort (check_default_effort f)) = es_support (effort f)"
  "with_disabled_thinking (effort (check_default_effort f)) = with_disabled_thinking (effort f)"
  "fast (check_default_effort f) = fast f"
  "modes (check_default_effort f) = modes f"
  "default_mode (check_default_effort f) = default_mode f"
  "levels (effort (check_default_effort f)) = levels (effort f)"
  "budget (check_default_effort f) = budget f"
  "default_service_tier (check_default_effort f) = default_service_tier f"
  by (simp_all add: check_default_effort_def Let_def split: option.split)

lemma close_thinking_fields [simp]:
  "thinking (close_thinking f) = thinking f"
  "mode_support (close_thinking f) = mode_support f"
  "level_support (effort (close_thinking f)) = level_support (effort f)"
  "es_support (effort (close_thinking f)) = es_support (effort f)"
  "with_disabled_thinking (effort (close_thinking f)) = with_disabled_thinking (effort f)"
  "fast (close_thinking f) = fast f"
  "levels (effort (close_thinking f)) = levels (effort f)"
  "es_default (effort (close_thinking f)) = es_default (effort f)"
  "default_service_tier (close_thinking f) = default_service_tier f"
  by (simp_all add: close_thinking_def Let_def split: option.split)

lemma close_budget_fields [simp]:
  "thinking (close_budget f) = thinking f"
  "mode_support (close_budget f) = mode_support f"
  "level_support (effort (close_budget f)) = level_support (effort f)"
  "es_support (effort (close_budget f)) = es_support (effort f)"
  "with_disabled_thinking (effort (close_budget f)) = with_disabled_thinking (effort f)"
  "fast (close_budget f) = fast f"
  "modes (close_budget f) = modes f"
  "default_mode (close_budget f) = default_mode f"
  "levels (effort (close_budget f)) = levels (effort f)"
  "es_default (effort (close_budget f)) = es_default (effort f)"
  "default_service_tier (close_budget f) = default_service_tier f"
  by (simp_all add: close_budget_def Let_def split: option.split)

lemma close_effort_fields [simp]:
  "thinking (close_effort f) = thinking f"
  "mode_support (close_effort f) = mode_support f"
  "level_support (effort (close_effort f)) = level_support (effort f)"
  "es_support (effort (close_effort f)) = es_support (effort f)"
  "with_disabled_thinking (effort (close_effort f)) = with_disabled_thinking (effort f)"
  "fast (close_effort f) = fast f"
  "modes (close_effort f) = modes f"
  "default_mode (close_effort f) = default_mode f"
  "budget (close_effort f) = budget f"
  "default_service_tier (close_effort f) = default_service_tier f"
  by (simp_all add: close_effort_def Let_def split: option.split)

lemma close_fast_fields [simp]:
  "thinking (close_fast f) = thinking f"
  "mode_support (close_fast f) = mode_support f"
  "level_support (effort (close_fast f)) = level_support (effort f)"
  "es_support (effort (close_fast f)) = es_support (effort f)"
  "with_disabled_thinking (effort (close_fast f)) = with_disabled_thinking (effort f)"
  "fast (close_fast f) = fast f"
  "modes (close_fast f) = modes f"
  "default_mode (close_fast f) = default_mode f"
  "levels (effort (close_fast f)) = levels (effort f)"
  "es_default (effort (close_fast f)) = es_default (effort f)"
  "budget (close_fast f) = budget f"
  by (simp_all add: close_fast_def Let_def split: option.split)

lemma close_modes_fields [simp]:
  "thinking (close_modes f) = thinking f"
  "mode_support (close_modes f) = mode_support f"
  "level_support (effort (close_modes f)) = level_support (effort f)"
  "es_support (effort (close_modes f)) = es_support (effort f)"
  "with_disabled_thinking (effort (close_modes f)) = with_disabled_thinking (effort f)"
  "fast (close_modes f) = fast f"
  "modes (close_modes f) = modes f"
  "budget (close_modes f) = budget f"
  "default_service_tier (close_modes f) = default_service_tier f"
  by (simp_all add: close_modes_def Let_def split: option.split)

lemma restrict_fields [simp]:
  "thinking (restrict_to_modes f) = thinking f"
  "mode_support (restrict_to_modes f) = mode_support f"
  "level_support (effort (restrict_to_modes f)) = level_support (effort f)"
  "es_support (effort (restrict_to_modes f)) = es_support (effort f)"
  "with_disabled_thinking (effort (restrict_to_modes f)) = with_disabled_thinking (effort f)"
  "fast (restrict_to_modes f) = fast f"
  by (simp_all add: restrict_to_modes_def)

lemma restrict_modes:
  "modes (restrict_to_modes f) = map_option (filter (\<lambda>m.
     (case mode_support f m of None \<Rightarrow> True | Some s \<Rightarrow> ms_support s \<noteq> Unsupported)
     \<and> (thinking f = Unsupported \<longrightarrow> m = Disabled))) (modes f)"
proof -
  have "modes (restrict_to_modes f) = modes (close_thinking (drop_refused_modes f))"
    by (simp add: restrict_to_modes_def close_thinking_def)
  also have "\<dots> = map_option (filter (\<lambda>m.
     (case mode_support f m of None \<Rightarrow> True | Some s \<Rightarrow> ms_support s \<noteq> Unsupported)
     \<and> (thinking f = Unsupported \<longrightarrow> m = Disabled))) (modes f)"
    by (cases "modes f") (auto simp: close_thinking_def drop_refused_modes_def intro!: filter_cong)
  finally show ?thesis .
qed

lemma restrict_excluded_modes: "excluded (modes f) m \<Longrightarrow> excluded (modes (restrict_to_modes f)) m"
  by (cases "modes f") (auto simp: restrict_modes)

text \<open>The effort levels left, and the default effort left.\<close>

lemma restrict_levels_subset:
  "excluded (levels (effort f)) e \<Longrightarrow> excluded (levels (effort (restrict_to_modes f))) e"
proof -
  have "excluded (levels (effort (close_modes g))) e" if "excluded (levels (effort g)) e" for g
    using that by (cases "levels (effort g)") (auto simp: close_modes_def Let_def split: option.split)
  moreover have "excluded (levels (effort (close_effort g))) e" if "excluded (levels (effort g)) e" for g
    using that by (cases "levels (effort g)") (auto simp: close_effort_def Let_def split: option.split)
  moreover have "excluded (levels (effort (drop_refused_levels g))) e"
    if "excluded (levels (effort g)) e" for g
    using that by (cases "levels (effort g)") (auto simp: drop_refused_levels_def)
  ultimately show "excluded (levels (effort f)) e \<Longrightarrow> ?thesis"
    by (simp add: restrict_to_modes_def)
qed

lemma supports_mode_Unsupported:
  "supports_mode f m = Unsupported \<longleftrightarrow>
    m \<noteq> Disabled \<and> thinking f = Unsupported
    \<or> (\<exists>s. mode_support f m = Some s \<and> ms_support s = Unsupported)
    \<or> excluded (modes f) m"
  by (cases "mode_support f m") (auto simp: supports_mode_def Let_def)

lemma effort_error_None [simp]: "effort_mode_error f None e = None"
  by (simp add: effort_mode_error_def)

lemma supports_effort_Unsupported:
  "supports_effort f mode e = Unsupported \<longleftrightarrow>
    effort_mode_error f mode e \<noteq> None
    \<or> es_support (effort f) = Unsupported
    \<or> excluded (levels (effort f)) e
    \<or> level_support (effort f) e = Some Unsupported
    \<or> e = NoEffort \<and> supports_mode f Disabled = Unsupported
    \<or> (\<exists>m. (mode = Some m \<or> mode = None \<and> default_mode f = Some m) \<and>
         (supports_mode f m = Unsupported
          \<or> (\<exists>s. mode_support f m = Some s \<and> excluded (effort_levels s) e)))"
  by (cases mode; cases "default_mode f")
     (auto simp: supports_effort_def Let_def split: option.split)

text \<open>The written fields after all nine steps, each as one expression.\<close>

abbreviation kept_levels :: "inference_features \<Rightarrow> reasoning_effort list option" where
  "kept_levels f \<equiv>
    (if es_support (effort f) = Unsupported then Some []
     else map_option (filter (\<lambda>e. level_support (effort f) e \<noteq> Some Unsupported)) (levels (effort f)))"

abbreviation checked :: "inference_features \<Rightarrow> inference_features" where
  "checked f \<equiv> check_default_mode (drop_refused_levels (drop_refused_modes f))"

lemma close_modes_levels:
  "levels (effort (close_modes f)) =
    (if excluded (modes f) Disabled then map_option (filter (\<lambda>e. e \<noteq> NoEffort)) (levels (effort f))
     else levels (effort f))"
  by (cases "modes f") (simp_all add: close_modes_def Let_def)

lemma close_modes_defaults:
  "default_mode (close_modes f) =
    filter_option (\<lambda>m. \<not> excluded (modes f) m) (default_mode f)"
  "es_default (effort (close_modes f)) =
    filter_option (\<lambda>e. excluded (modes f) Disabled \<longrightarrow> e \<noteq> NoEffort) (es_default (effort f))"
  by (cases "modes f"; cases "default_mode f"; cases "es_default (effort f)";
      simp add: close_modes_def Let_def)+

lemma close_effort_levels:
  "levels (effort (close_effort f)) =
    (if es_support (effort f) = Unsupported then Some [] else levels (effort f))"
  by (cases "levels (effort f)") (simp_all add: close_effort_def Let_def)

lemma close_effort_default:
  "es_default (effort (close_effort f)) =
    filter_option (\<lambda>e. \<not> excluded (levels (effort (close_effort f))) e) (es_default (effort f))"
  by (cases "levels (effort f)"; cases "es_default (effort f)")
     (simp_all add: close_effort_def Let_def)

lemma restrict_levels:
  "levels (effort (restrict_to_modes f)) =
    (if excluded (modes (restrict_to_modes f)) Disabled
     then map_option (filter (\<lambda>e. e \<noteq> NoEffort)) (kept_levels f) else kept_levels f)"
proof -
  have "modes (restrict_to_modes f) = modes (close_fast (close_effort (close_budget (close_thinking
      (check_default_effort (checked f))))))"
    by (simp add: restrict_to_modes_def)
  then show ?thesis
    by (simp add: restrict_to_modes_def close_modes_levels close_effort_levels)
       (simp add: drop_refused_levels_def)
qed

lemma restrict_default_mode:
  "default_mode (restrict_to_modes f) = Some m \<Longrightarrow>
    default_mode f = Some m \<and> default_mode (checked f) = Some m
    \<and> supports_mode (drop_refused_levels (drop_refused_modes f)) m \<noteq> Unsupported
    \<and> \<not> excluded (modes (restrict_to_modes f)) m"
  by (simp add: restrict_to_modes_def close_modes_defaults)
     (auto simp: close_thinking_def check_default_mode_def split: if_splits)

lemma restrict_es_default:
  "es_default (effort (restrict_to_modes f)) = Some e \<Longrightarrow>
    supports_effort (checked f) None e \<noteq> Unsupported
    \<and> \<not> excluded (levels (effort (restrict_to_modes f))) e
    \<and> (e = NoEffort \<longrightarrow> \<not> excluded (modes (restrict_to_modes f)) Disabled)"
  by (simp add: restrict_to_modes_def close_modes_defaults close_modes_levels close_effort_default)
     (cases "levels (effort (close_effort (close_budget (close_thinking (check_default_effort
        (checked f))))))"; auto simp: check_default_effort_def)

lemma restrict_default_mode_supported:
  assumes "default_mode (restrict_to_modes f) = Some m"
  shows "supports_mode (restrict_to_modes f) m \<noteq> Unsupported"
  using restrict_default_mode [OF assms] by (simp add: supports_mode_Unsupported)

lemma restrict_default_effort_supported:
  assumes "es_default (effort (restrict_to_modes f)) = Some e"
  shows "supports_effort (restrict_to_modes f) None e \<noteq> Unsupported"
proof -
  note facts = restrict_es_default [OF assms]
  have "supports_mode (restrict_to_modes f) Disabled \<noteq> Unsupported" if "e = NoEffort"
    using facts that by (auto simp: supports_effort_Unsupported supports_mode_Unsupported)
  moreover have "\<not> (\<exists>s. mode_support f m = Some s \<and> excluded (effort_levels s) e)"
    if "default_mode (restrict_to_modes f) = Some m" for m
    using facts restrict_default_mode [OF that] by (auto simp: supports_effort_Unsupported)
  ultimately show ?thesis
    using facts restrict_default_mode_supported by (auto simp: supports_effort_Unsupported)
qed

lemma restrict_budget:
  "budget (restrict_to_modes f) =
    (let b = (if thinking f = Unsupported then (budget f) \<lparr> bs_support := Unsupported \<rparr> else budget f) in
     if bs_support b = Unsupported
     then b \<lparr> bs_dynamic := Unsupported, min_tokens := None, max_tokens := None, hard_limit := None \<rparr>
     else b)"
  by (simp add: restrict_to_modes_def close_budget_def close_thinking_def Let_def)

lemma restrict_tier:
  "default_service_tier (restrict_to_modes f) =
    (if fast f = Unsupported \<and> default_service_tier f = Some Fast then None
     else default_service_tier f)"
  by (simp add: restrict_to_modes_def close_fast_def)

lemma restrict_consistent: "consistent_features (restrict_to_modes f)"
  unfolding consistent_features_def
proof (intro conjI)
  show "case modes (restrict_to_modes f) of None \<Rightarrow> True | Some ms \<Rightarrow>
     list_all (\<lambda>m. case mode_support (restrict_to_modes f) m of None \<Rightarrow> True
        | Some s \<Rightarrow> ms_support s \<noteq> Unsupported) ms
     \<and> (thinking (restrict_to_modes f) = Unsupported \<longrightarrow> list_all (\<lambda>m. m = Disabled) ms)"
    by (cases "modes f") (auto simp: restrict_modes list_all_iff)
  show "case levels (effort (restrict_to_modes f)) of None \<Rightarrow> True | Some ls \<Rightarrow>
     list_all (\<lambda>e. level_support (effort (restrict_to_modes f)) e \<noteq> Some Unsupported) ls
     \<and> (excluded (modes (restrict_to_modes f)) Disabled \<longrightarrow> \<not> contains ls NoEffort)"
    by (cases "levels (effort f)") (auto simp: restrict_levels list_all_iff)
  show "case default_mode (restrict_to_modes f) of None \<Rightarrow> True
     | Some m \<Rightarrow> supports_mode (restrict_to_modes f) m \<noteq> Unsupported"
    using restrict_default_mode_supported by (simp split: option.split)
  show "case es_default (effort (restrict_to_modes f)) of None \<Rightarrow> True
     | Some e \<Rightarrow> supports_effort (restrict_to_modes f) None e \<noteq> Unsupported"
    using restrict_default_effort_supported by (simp split: option.split)
qed (auto simp: restrict_budget restrict_tier restrict_levels Let_def)

lemma map_filter_id: "(\<And>v. x = Some v \<Longrightarrow> list_all P v) \<Longrightarrow> map_option (filter P) x = x"
  by (cases x) (auto simp: filter_id_conv list_all_iff)

text \<open>On a consistent record every step is the identity.\<close>

lemma consistent_restrict:
  assumes c: "consistent_features f"
  shows "restrict_to_modes f = f"
proof -
  note c' = c [unfolded consistent_features_def]
  have "map_option (filter (\<lambda>m. case mode_support f m of None \<Rightarrow> True
      | Some s \<Rightarrow> ms_support s \<noteq> Unsupported)) (modes f) = modes f"
    by (rule map_filter_id) (use c' in simp)
  then have modes: "drop_refused_modes f = f" by (simp only: drop_refused_modes_def) simp
  have "map_option (filter (\<lambda>e. level_support (effort f) e \<noteq> Some Unsupported)) (levels (effort f))
      = levels (effort f)"
    by (rule map_filter_id) (use c' in simp)
  then have levels: "drop_refused_levels f = f" by (simp only: drop_refused_levels_def) simp
  have "filter_option (\<lambda>m. supports_mode f m \<noteq> Unsupported) (default_mode f) = default_mode f"
    by (rule filter_option_id) (use c' in simp)
  then have dm: "check_default_mode f = f" by (simp only: check_default_mode_def) simp
  have "filter_option (\<lambda>e. supports_effort f None e \<noteq> Unsupported) (es_default (effort f))
      = es_default (effort f)"
    by (rule filter_option_id) (use c' in simp)
  then have de: "check_default_effort f = f" by (simp only: check_default_effort_def) simp
  have th: "close_thinking f = f"
  proof (cases "thinking f = Unsupported")
    case True
    have "map_option (filter (\<lambda>m. m = Disabled)) (modes f) = modes f"
      using c' True by (intro map_filter_id) simp
    moreover have "filter_option (\<lambda>m. m = Disabled) (default_mode f) = default_mode f"
      using c' True by (intro filter_option_id) (simp add: supports_mode_Unsupported)
    moreover have "(budget f) \<lparr> bs_support := Unsupported \<rparr> = budget f"
      using c' True by (cases "budget f") simp
    ultimately show ?thesis by (simp add: close_thinking_def)
  qed (simp add: close_thinking_def)
  have bu: "close_budget f = f"
  proof (cases "bs_support (budget f) = Unsupported")
    case True
    then have "(budget f) \<lparr> bs_dynamic := Unsupported, min_tokens := None, max_tokens := None,
        hard_limit := None \<rparr> = budget f"
      using c' by (cases "budget f") simp
    then show ?thesis by (simp add: close_budget_def)
  qed (simp add: close_budget_def)
  have ef: "close_effort f = f"
  proof -
    have 1: "(if es_support (effort f) = Unsupported
        then f \<lparr> effort := (effort f) \<lparr> levels := Some [] \<rparr> \<rparr> else f) = f"
    proof (cases "es_support (effort f) = Unsupported")
      case True
      then have "(effort f) \<lparr> levels := Some [] \<rparr> = effort f" using c' by (cases "effort f") simp
      then show ?thesis by simp
    qed simp
    have "filter_option (contains ls) (es_default (effort f)) = es_default (effort f)"
      if "levels (effort f) = Some ls" for ls
      using c' that by (intro filter_option_id) (simp add: supports_effort_Unsupported)
    then show ?thesis unfolding close_effort_def 1 Let_def by (simp split: option.split)
  qed
  have fa: "close_fast f = f" using c' by (simp add: close_fast_def)
  have mo: "close_modes f = f"
  proof (cases "modes f")
    case (Some ms)
    have "filter_option (contains ms) (default_mode f) = default_mode f"
      using c' Some by (intro filter_option_id) (simp add: supports_mode_Unsupported)
    moreover have "map_option (filter (\<lambda>e. e \<noteq> NoEffort)) (levels (effort f)) = levels (effort f)"
      if "Disabled \<notin> set ms"
      using c' Some that by (intro map_filter_id) (auto simp: list_all_iff)
    moreover have "filter_option (\<lambda>e. e \<noteq> NoEffort) (es_default (effort f)) = es_default (effort f)"
      if "Disabled \<notin> set ms"
      using c' Some that
      by (intro filter_option_id) (auto simp: supports_effort_Unsupported supports_mode_Unsupported)
    ultimately show ?thesis using Some by (simp add: close_modes_def Let_def)
  qed (simp add: close_modes_def)
  show ?thesis
    unfolding restrict_to_modes_def modes levels dm de th bu ef fa mo ..
qed

lemma overlay_default: "overlay f default_features = restrict_to_modes f"
proof -
  have "foldl (overlay_mode default_features) f thinking_modes = f"
    by (simp add: thinking_modes_def overlay_mode_def default_features_def)
  moreover have "overlay_modes f default_features = f" for f
    by (simp add: overlay_modes_def default_features_def)
  moreover have "overlay_budget b (budget default_features) = b" for b
    by (cases b) (simp add: overlay_budget_def default_features_def known_def or_keep_def)
  moreover have "overlay_effort e (effort default_features) = e" for e
    by (cases e) (simp add: overlay_effort_def default_features_def known_def or_keep_def
        reasoning_efforts_def overlay_level_def)
  ultimately show ?thesis
    by (simp add: overlay_def known_def or_keep_def push_new_def Let_def)
       (simp add: default_features_def thinking_modes_def overlay_mode_def)
qed

lemma excluded_restrict_list:
  "excluded own x \<or> excluded allowed x \<Longrightarrow> excluded (restrict_list own allowed) x"
  by (cases own; cases allowed) (auto simp: restrict_list_def)

lemma limit_Unsupported [simp]: "limit a b = Unsupported \<longleftrightarrow> a = Unsupported \<or> b = Unsupported"
  by (simp add: limit_def)

lemma limit_mode_support:
  assumes "\<exists>s. (own = Some s \<or> conn = Some s) \<and> ms_support s = Unsupported"
  shows "\<exists>s. limit_mode own conn = Some s \<and> ms_support s = Unsupported"
  using assms by (cases own; cases conn) (auto simp: limit_mode_def)

lemma limit_mode_levels:
  assumes "\<exists>s. (own = Some s \<or> conn = Some s) \<and> excluded (effort_levels s) e"
  shows "\<exists>s. limit_mode own conn = Some s \<and> excluded (effort_levels s) e"
  using assms by (cases own; cases conn) (auto simp: limit_mode_def intro: excluded_restrict_list)

lemma on_connection_restricts_mode:
  assumes "supports_mode own m = Unsupported \<or> supports_mode conn m = Unsupported"
  shows "supports_mode (on_connection own conn) m = Unsupported"
proof -
  let ?raw = "own \<lparr> default_service_tier := or_keep (default_service_tier own) (default_service_tier conn),
             mode_support := (\<lambda>m. limit_mode (mode_support own m) (mode_support conn m)),
             thinking := limit (thinking own) (thinking conn),
             budget := limit_budget (budget own) (budget conn),
             effort := limit_effort (effort own) (effort conn),
             fast := limit (fast own) (fast conn),
             modes := restrict_list (modes own) (modes conn),
             requirements := push_new (requirements own) (requirements conn),
             feature_sources := push_new (feature_sources own) (feature_sources conn) \<rparr>"
  have oc: "on_connection own conn = restrict_to_modes ?raw" by (simp add: on_connection_def)
  consider "m \<noteq> Disabled" "thinking own = Unsupported \<or> thinking conn = Unsupported"
    | "\<exists>s. (mode_support own m = Some s \<or> mode_support conn m = Some s) \<and> ms_support s = Unsupported"
    | "excluded (modes own) m \<or> excluded (modes conn) m"
    using assms by (auto simp: supports_mode_Unsupported)
  then show ?thesis
  proof cases
    case 2
    from limit_mode_support [OF this] show ?thesis by (simp add: oc supports_mode_Unsupported)
  next
    case 3
    then have "excluded (modes ?raw) m" using excluded_restrict_list by force
    from restrict_excluded_modes [OF this] show ?thesis by (simp add: oc supports_mode_Unsupported)
  qed (simp add: oc supports_mode_Unsupported)
qed

lemma on_connection_restricts_effort:
  assumes "supports_effort own (Some m) e = Unsupported \<or> supports_effort conn (Some m) e = Unsupported"
  shows "supports_effort (on_connection own conn) (Some m) e = Unsupported"
proof -
  let ?r = "on_connection own conn"
  have mode: "supports_mode own k = Unsupported \<or> supports_mode conn k = Unsupported \<Longrightarrow>
      supports_mode ?r k = Unsupported" for k
    by (rule on_connection_restricts_mode)
  have lv: "excluded (levels (effort own)) e \<or> excluded (levels (effort conn)) e \<Longrightarrow>
      excluded (levels (effort ?r)) e"
    by (auto simp: on_connection_def limit_effort_def intro!: restrict_levels_subset
        intro: excluded_restrict_list)
  have ls: "level_support (effort own) e = Some Unsupported \<or> level_support (effort conn) e = Some Unsupported \<Longrightarrow>
      level_support (effort ?r) e = Some Unsupported"
    by (auto simp: on_connection_def limit_effort_def)
  have es: "es_support (effort own) = Unsupported \<or> es_support (effort conn) = Unsupported \<Longrightarrow>
      es_support (effort ?r) = Unsupported"
    by (auto simp: on_connection_def limit_effort_def)
  have er: "effort_mode_error own (Some m) e \<noteq> None \<or> effort_mode_error conn (Some m) e \<noteq> None \<Longrightarrow>
      effort_mode_error ?r (Some m) e \<noteq> None"
    by (auto simp: effort_mode_error_def on_connection_def limit_effort_def split: if_splits)
  have el: "(\<exists>s. (mode_support own m = Some s \<or> mode_support conn m = Some s) \<and> excluded (effort_levels s) e) \<Longrightarrow>
      (\<exists>s. mode_support ?r m = Some s \<and> excluded (effort_levels s) e)"
    using limit_mode_levels [of "mode_support own m" "mode_support conn m" e]
    by (simp add: on_connection_def)
  from assms consider
      "effort_mode_error own (Some m) e \<noteq> None \<or> effort_mode_error conn (Some m) e \<noteq> None"
    | "es_support (effort own) = Unsupported \<or> es_support (effort conn) = Unsupported"
    | "excluded (levels (effort own)) e \<or> excluded (levels (effort conn)) e"
    | "level_support (effort own) e = Some Unsupported \<or> level_support (effort conn) e = Some Unsupported"
    | "e = NoEffort" "supports_mode own Disabled = Unsupported \<or> supports_mode conn Disabled = Unsupported"
    | "supports_mode own m = Unsupported \<or> supports_mode conn m = Unsupported"
    | "\<exists>s. (mode_support own m = Some s \<or> mode_support conn m = Some s) \<and> excluded (effort_levels s) e"
    by (auto simp: supports_effort_Unsupported)
  then show ?thesis
    by cases (use er es lv ls mode el in \<open>simp_all add: supports_effort_Unsupported\<close>)
qed

section \<open>Properties\<close>

text \<open>
  Every merge leaves consistent facts: after an overlay or a connection
  restriction the default mode and the default effort are themselves
  supported, refused modes and levels are gone, an unsupported budget or
  effort carries no limits or levels, and a Fast default never survives an
  unsupported Fast tier.
\<close>

theorem merged_features_consistent:
  "consistent_features (overlay f other) \<and> consistent_features (on_connection own conn)
    \<and> consistent_features (profile_features wire protocol own)"
  by (simp add: overlay_def on_connection_def profile_features_def Let_def restrict_consistent)

text \<open>
  A connection only ever narrows a model: a mode, or an effort under an
  explicit mode, that the model or the connection refuses stays refused on
  the connection.
\<close>

theorem connection_never_widens:
  "(supports_mode own m = Unsupported \<or> supports_mode conn m = Unsupported \<longrightarrow>
      supports_mode (on_connection own conn) m = Unsupported)
   \<and> (supports_effort own (Some m) e = Unsupported \<or> supports_effort conn (Some m) e = Unsupported \<longrightarrow>
      supports_effort (on_connection own conn) (Some m) e = Unsupported)"
  using on_connection_restricts_mode on_connection_restricts_effort by blast

theorem connection_never_widens_witness:
  "supports_mode (on_connection default_features
      (default_features \<lparr> modes := Some [Disabled] \<rparr>)) Adaptive = Unsupported"
  using connection_never_widens
    [of default_features Adaptive "default_features \<lparr> modes := Some [Disabled] \<rparr>"]
  by (simp add: supports_mode_Unsupported default_features_def)

text \<open>
  Missing facts preserve known ones: on consistent facts, overlaying an
  observation that states nothing changes nothing, and restoring consistency
  is idempotent.
\<close>

theorem empty_overlay_preserves:
  "overlay (overlay f other) default_features = overlay f other
   \<and> restrict_to_modes (restrict_to_modes f) = restrict_to_modes f"
  using consistent_restrict [OF restrict_consistent]
  by (simp add: overlay_default) (simp add: overlay_def Let_def)

text \<open>
  A connection's list of modes does establish support: for a model that
  states nothing, a mode the connection lists becomes Supported on that
  connection, although it was Unknown for the model.
\<close>

theorem connection_modes_establish_support:
  "supports_mode default_features m = Unknown
   \<and> supports_mode (on_connection default_features (default_features \<lparr> modes := Some [m] \<rparr>)) m
      = Supported"
proof -
  have "modes (on_connection default_features (default_features \<lparr> modes := Some [m] \<rparr>)) = Some [m]"
    by (simp add: on_connection_def restrict_modes restrict_list_def default_features_def
        limit_mode_def limit_def)
  moreover have "mode_support (on_connection default_features (default_features \<lparr> modes := Some [m] \<rparr>)) m = None"
    by (simp add: on_connection_def default_features_def limit_mode_def)
  moreover have "thinking (on_connection default_features (default_features \<lparr> modes := Some [m] \<rparr>)) = Unknown"
    by (simp add: on_connection_def default_features_def limit_def)
  ultimately show ?thesis by (simp add: supports_mode_def default_features_def)
qed

end
