(* ===== verification/Provider.thy ===== *)
theory Provider
  imports Errors Inference
begin

text \<open>
  Connection configuration (\<^verbatim>\<open>src/protocol/provider.rs\<close>,
  \<^verbatim>\<open>src/protocol/price_quote.rs\<close>, \<^verbatim>\<open>src/protocol/context.rs\<close>): profiles,
  models, failover triggers, peak schedules and price lists, with the
  operations on them that routing and billing use.  A float is its IEEE bit
  pattern; the settings of the independent services (images, embeddings, ...)
  are carried as their serialised JSON and never read here.
\<close>

section \<open>Failover policy\<close>

record failover_triggers =
  rate_limit :: bool
  on_overloaded :: bool
  server_error :: bool
  network :: bool
  auth :: bool

definition default_triggers :: failover_triggers where
  "default_triggers = \<lparr> rate_limit = True, on_overloaded = True, server_error = True,
     network = True, auth = True \<rparr>"

definition no_triggers :: failover_triggers where
  "no_triggers = \<lparr> rate_limit = False, on_overloaded = False, server_error = False,
     network = False, auth = False \<rparr>"

definition triggers_empty :: "failover_triggers \<Rightarrow> bool" where
  "triggers_empty t = (\<not> (rate_limit t \<or> on_overloaded t \<or> server_error t \<or> network t \<or> auth t))"

fun kind_triggers :: "failover_triggers \<Rightarrow> llm_error_kind \<Rightarrow> bool" where
  "kind_triggers t RateLimitedKind = rate_limit t"
| "kind_triggers t QuotaExceededKind = rate_limit t"
| "kind_triggers t OverloadedKind = on_overloaded t"
| "kind_triggers t ProviderInternalKind = server_error t"
| "kind_triggers t ProviderTimeoutKind = server_error t"
| "kind_triggers t TransportKind = network t"
| "kind_triggers t TransportTimeoutKind = network t"
| "kind_triggers t AuthenticationKind = auth t"
| "kind_triggers t PermissionDeniedKind = auth t"
| "kind_triggers t _ = False"

definition triggers_match :: "failover_triggers \<Rightarrow> llm_error \<Rightarrow> bool" where
  "triggers_match t e = (case kind e of Some k \<Rightarrow> kind_triggers t k | None \<Rightarrow> False)"

record connection_spec =
  protocol_profiles :: "(protocol_family \<times> string) list"
  default_protocol :: "protocol_family option"
  cs_group :: "string option"
  cs_connection_id :: "string option"
  cs_order :: u32
  cs_hidden :: bool
  failover :: failover_triggers

definition default_connection :: connection_spec where
  "default_connection = \<lparr> protocol_profiles = [], default_protocol = None, cs_group = None,
     cs_connection_id = None, cs_order = 0, cs_hidden = False, failover = no_triggers \<rparr>"

section \<open>Context facts\<close>

datatype context_policy = Auto | Long | Custom u64

record context_recommendation =
  rec_input_tokens :: u64
  rec_source :: string
  rec_verified_at :: string

record context_metadata =
  shared_window :: "bool option"
  thinking_max_input_tokens :: "u64 option"
  recommendation :: "context_recommendation option"
  application :: "context_policy option"

definition validate_context :: "context_metadata \<Rightarrow> string + unit" where
  "validate_context c =
    (if thinking_max_input_tokens c = Some 0
     then Err ''thinking input limit must be positive''
     else if application c = Some (Custom 0)
     then Err ''custom context input budget must be positive''
     else if (case recommendation c of
                Some r \<Rightarrow> rec_input_tokens r = 0 \<or> trim (rec_source r) = []
                          \<or> trim (rec_verified_at r) = []
              | None \<Rightarrow> False)
     then Err ''context recommendation requires a positive input limit, source and verification date''
     else Ok ())"

section \<open>Prices\<close>

record token_rates =
  tr_input :: "f64 option"
  tr_output :: "f64 option"
  tr_cache_read :: "f64 option"
  tr_cache_write :: "f64 option"
  tr_cache_write_1h :: "f64 option"
  tr_reasoning :: "f64 option"
  tr_web_search :: "f64 option"

datatype submission = Interactive | Batch

datatype price_bucket =
    InputBucket | OutputBucket | CacheReadBucket | CacheWriteBucket | CacheWrite1hBucket
  | ReasoningBucket | WebSearchRequestBucket

record price_multiplier =
  factor :: f64
  buckets :: "price_bucket list"

record price_boundary =
  local_time :: string
  time_zone :: "string option"

record price_rule =
  rule_multiplier :: "price_multiplier option"
  rule_service_tier :: service_tier
  rule_submission :: submission
  min_input_tokens :: "u64 option"
  max_input_tokens :: "u64 option"
  valid_from :: "price_boundary option"
  valid_until :: "price_boundary option"
  rates :: token_rates
  rule_source :: "string option"
  rule_verified_at :: "string option"
  apply_peak_schedule :: bool

record quota_price =
  quota_service_tier :: service_tier
  quota_multiplier :: f64
  quota_unit :: string
  quota_source :: string
  quota_verified_at :: "string option"

record batch_pricing =
  bp_cache_write_1h :: "f64 option"
  bp_input :: "f64 option"
  bp_output :: "f64 option"
  bp_cache_read :: "f64 option"
  bp_cache_write :: "f64 option"
  bp_reasoning :: "f64 option"

record token_pricing =
  currency :: "string option"
  cache_write_1h_per_million :: "f64 option"
  rules :: "price_rule list"
  quota :: "quota_price list"
  verified_at :: "string option"
  input_per_million :: "f64 option"
  output_per_million :: "f64 option"
  cache_read_per_million :: "f64 option"
  cache_write_per_million :: "f64 option"
  reasoning_per_million :: "f64 option"
  web_search_per_request :: "f64 option"
  tp_source :: "string option"
  tp_batch :: "batch_pricing option"

definition input_output :: "f64 \<Rightarrow> f64 \<Rightarrow> token_pricing" where
  "input_output inp outp = \<lparr>
     currency = Some ''USD'', cache_write_1h_per_million = None, rules = [], quota = [],
     verified_at = None, input_per_million = Some inp, output_per_million = Some outp,
     cache_read_per_million = None, cache_write_per_million = None,
     reasoning_per_million = Some outp, web_search_per_request = None,
     tp_source = None, tp_batch = None \<rparr>"

definition with_fixed_standard_override :: "token_pricing \<Rightarrow> token_pricing" where
  "with_fixed_standard_override p = p \<lparr> rules := [\<lparr>
     rule_multiplier = None, rule_service_tier = Standard, rule_submission = Interactive,
     min_input_tokens = None, max_input_tokens = None, valid_from = None, valid_until = None,
     rates = \<lparr> tr_input = input_per_million p, tr_output = output_per_million p,
               tr_cache_read = cache_read_per_million p,
               tr_cache_write = cache_write_per_million p,
               tr_cache_write_1h = cache_write_1h_per_million p,
               tr_reasoning = reasoning_per_million p,
               tr_web_search = web_search_per_request p \<rparr>,
     rule_source = None, rule_verified_at = None, apply_peak_schedule = False \<rparr>] \<rparr>"

section \<open>Peak schedules\<close>

record peak_schedule =
  utc_windows :: "string list"
  weekdays_only :: bool
  off_peak_multiplier :: f64

definition window_minutes :: "string \<Rightarrow> bool \<Rightarrow> nat option" where
  "window_minutes s is_end =
    Option.bind (split_once (CHR '':'') (trim s)) (\<lambda>(h, m).
    Option.bind (parse_unsigned 32 h) (\<lambda>h.
    Option.bind (parse_unsigned 32 m) (\<lambda>m.
      if h < 24 \<and> m < 60 \<or> is_end \<and> h = 24 \<and> m = 0 then Some (h * 60 + m) else None)))"

definition parse_window :: "string \<Rightarrow> (nat \<times> nat) option" where
  "parse_window w =
    Option.bind (split_once (CHR ''-'') w) (\<lambda>(from_part, to_part).
    Option.bind (window_minutes from_part False) (\<lambda>a.
    Option.bind (window_minutes to_part True) (\<lambda>b.
      if a < b then Some (a, b) else None)))"

text \<open>IEEE double comparisons on the bit pattern.\<close>

definition f64_finite :: "f64 \<Rightarrow> bool" where
  "f64_finite x \<longleftrightarrow> (unat x div 2 ^ 52) mod 2 ^ 11 \<noteq> 2 ^ 11 - 1"

definition f64_nan :: "f64 \<Rightarrow> bool" where
  "f64_nan x \<longleftrightarrow> \<not> f64_finite x \<and> unat x mod 2 ^ 52 \<noteq> 0"

definition f64_negative :: "f64 \<Rightarrow> bool" where
  "f64_negative x \<longleftrightarrow> \<not> f64_nan x \<and> 2 ^ 63 < unat x"

definition validate_schedule :: "peak_schedule \<Rightarrow> message + unit" where
  "validate_schedule s =
    (if utc_windows s = [] then Err [Lit ''at least one UTC window is required'']
     else if \<not> f64_finite (off_peak_multiplier s) \<or> f64_negative (off_peak_multiplier s)
     then Err [Lit ''off-peak multiplier must be finite and non-negative'']
     else (case find (\<lambda>w. parse_window w = None) (utc_windows s) of
             Some w \<Rightarrow> Err [Lit ''invalid UTC window '', DebugStr w]
           | None \<Rightarrow> Ok ()))"

definition is_peak :: "peak_schedule \<Rightarrow> u64 \<Rightarrow> bool" where
  "is_peak s unix_seconds =
    (let day = unat unix_seconds div 86400;
         minute_of_day = (unat unix_seconds mod 86400) div 60 in
     if weekdays_only s \<and> (day + 3) mod 7 \<ge> 5 then False
     else list_ex (\<lambda>(a, b). a \<le> minute_of_day \<and> minute_of_day < b)
            (List.map_filter parse_window (utc_windows s)))"

record pricing_config =
  pc_billing_mode :: billing_mode
  peak :: "peak_schedule option"

section \<open>Models\<close>

datatype context_window_source = Catalog | Observation | ExplicitWindow | UnknownWindow

record model_metadata =
  mm_context :: "context_metadata option"
  application_output_tokens :: "u32 option"
  mm_family :: "string option"
  mm_status :: "string option"
  release_date :: "string option"
  last_updated :: "string option"
  knowledge_cutoff :: "string option"
  input_modalities :: "string list"
  output_modalities :: "string list"
  context_window_tokens :: "u64 option"
  context_window_source :: context_window_source
  mm_max_input_tokens :: "u64 option"
  max_output_tokens :: "u64 option"
  open_weights :: "bool option"
  mm_attachments :: "bool option"
  temperature_control :: "bool option"

definition default_metadata :: model_metadata where
  "default_metadata = \<lparr> mm_context = None, application_output_tokens = None, mm_family = None,
     mm_status = None, release_date = None, last_updated = None, knowledge_cutoff = None,
     input_modalities = [], output_modalities = [], context_window_tokens = None,
     context_window_source = UnknownWindow, mm_max_input_tokens = None,
     max_output_tokens = None, open_weights = None, mm_attachments = None,
     temperature_control = None \<rparr>"

record model_info =
  mi_features :: inference_features
  mi_pricing :: "token_pricing option"

datatype foundry_hosting = HostedAzure | HostedAnthropic

record foundry_deployment =
  hosting :: foundry_hosting
  model_id :: string

record model_profile =
  info :: model_info
  display_model :: string
  request_model :: string
  billing_model :: string
  foundry :: "foundry_deployment option"
  hidden :: bool
  aliases :: "string list"
  description :: "string option"
  metadata :: model_metadata
  capability_support :: "model_capability_support option"
  pricing :: "token_pricing option"
  billing_mode_override :: "billing_mode option"

definition capability_support_for :: "model_profile \<Rightarrow> model_capability \<Rightarrow> capability_support" where
  "capability_support_for m c =
    (case capability_support m of Some s \<Rightarrow> capability_get s c | None \<Rightarrow> Unknown)"

definition billing_mode_on :: "model_profile \<Rightarrow> pricing_config \<Rightarrow> billing_mode" where
  "billing_mode_on m connection =
    (case billing_mode_override m of Some b \<Rightarrow> b | None \<Rightarrow> pc_billing_mode connection)"

definition answers_to :: "model_profile \<Rightarrow> string \<Rightarrow> bool" where
  "answers_to m wanted \<longleftrightarrow>
    display_model m = wanted \<or> request_model m = wanted \<or> list_ex (\<lambda>a. a = wanted) (aliases m)"

section \<open>Connections\<close>

record signing_config =
  sc_region :: "string option"
  sc_service :: "string option"
  sc_project :: "string option"

record azure_config =
  api_version :: "string option"
  azure_deployment :: "string option"

record provider_pricing_info =
  currencies :: "string list"
  units :: "string list"
  dimensions :: "string list"
  pricing_sources :: "string list"

record provider_info =
  pi_features :: inference_features
  pi_pricing :: provider_pricing_info
  pi_display_name :: "string option"
  pi_description :: "string option"
  console_url :: "string option"
  api_key_url :: "string option"
  docs_url :: "string option"
  credential_hint :: "string option"

datatype fast_wire = WirePriority | WireFast | WireSpeed | WireNoFast

record inference_wire =
  iw_reasoning :: "reasoning_wire option"
  iw_fast :: "fast_wire option"
  fast_beta :: "string option"
  tier_response_header :: "string option"
  enabled_requires_budget :: "bool option"

text \<open>
  The optional services of a profile: a setting as JSON, nothing for the default
  (an empty image configuration, or a setting that is inherited).
\<close>

datatype service =
    ImageService | EmbeddingService | RetrievalService | BatchService | DeferredService
  | BackgroundService | AudioService | InteractionService | GeminiFileSearchService
  | GlmKnowledgeService

record provider_profile =
  inference :: inference_wire
  chat_enabled :: bool
  regions :: "region list"
  provider_id :: provider_id
  profile_name :: string
  base_url :: string
  protocol :: protocol_family
  model_list :: directory_route
  auth_strategy :: auth_strategy
  credential :: credential_config
  models :: "model_profile list"
  service_settings :: "service \<Rightarrow> json option"
  profile_pricing :: pricing_config
  signing :: "signing_config option"
  azure :: "azure_config option"
  supports_websockets :: bool
  supports_websocket_compression :: bool
  websocket_connect_timeout_ms :: "u64 option"
  connection :: connection_spec
  profile_info :: provider_info
  extra :: json

definition supports_region :: "provider_profile \<Rightarrow> region \<Rightarrow> bool" where
  "supports_region p r = contains (regions p) r"

definition group_of :: "provider_profile \<Rightarrow> string" where
  "group_of p = (case cs_group (connection p) of Some g \<Rightarrow> g | None \<Rightarrow> profile_name p)"

definition connection_id_of :: "provider_profile \<Rightarrow> string" where
  "connection_id_of p =
    (case cs_connection_id (connection p) of Some c \<Rightarrow> c | None \<Rightarrow> ''default'')"

definition connection_sort_key :: "provider_profile \<Rightarrow> nat \<times> string" where
  "connection_sort_key p = (unat (cs_order (connection p)), profile_name p)"

section \<open>Lemmas\<close>

lemma window_minutes_bound:
  "window_minutes s e = Some n \<Longrightarrow> n < 1440 \<or> e \<and> n = 1440"
  by (auto simp: window_minutes_def bind_eq_Some_conv split: if_splits)

lemma parse_window_bounds:
  "parse_window w = Some (a, b) \<Longrightarrow> a < b \<and> b \<le> 1440"
  by (auto simp: parse_window_def bind_eq_Some_conv split: if_splits dest!: window_minutes_bound)

section \<open>Properties\<close>

text \<open>
  Failover never hides a request another endpoint would reject identically:
  whatever the policy and however the error is decorated, a context overflow,
  an oversized or invalid request, an unsupported capability or an interrupted
  stream is no trigger, and an empty policy triggers on nothing.
\<close>

theorem failover_trigger_kinds:
  "(triggers_match t e \<longrightarrow>
      kind e \<in> Some ` {RateLimitedKind, QuotaExceededKind, OverloadedKind, ProviderInternalKind,
        ProviderTimeoutKind, TransportKind, TransportTimeoutKind, AuthenticationKind,
        PermissionDeniedKind})
   \<and> triggers_match t (with_optional_provider_error_text e text) = triggers_match t e
   \<and> (triggers_empty t \<longrightarrow> \<not> triggers_match t e)"
proof -
  have "kind (with_optional_provider_error_text e text) = kind e"
    by (simp add: kind_def with_optional_provider_error_text_def split: option.split)
  moreover have "triggers_match t e \<longrightarrow>
      kind e \<in> Some ` {RateLimitedKind, QuotaExceededKind, OverloadedKind, ProviderInternalKind,
        ProviderTimeoutKind, TransportKind, TransportTimeoutKind, AuthenticationKind,
        PermissionDeniedKind}"
    by (auto simp: triggers_match_def split: option.splits elim!: kind_triggers.elims)
  moreover have "triggers_empty t \<longrightarrow> \<not> triggers_match t e"
    by (auto simp: triggers_match_def triggers_empty_def split: option.splits elim!: kind_triggers.elims)
  ultimately show ?thesis by (simp add: triggers_match_def)
qed

theorem failover_trigger_kinds_witness:
  "kind (RateLimited [Lit ''429''] None) \<in> Some ` {RateLimitedKind, QuotaExceededKind,
      OverloadedKind, ProviderInternalKind, ProviderTimeoutKind, TransportKind,
      TransportTimeoutKind, AuthenticationKind, PermissionDeniedKind}
   \<and> \<not> triggers_match no_triggers (RateLimited [Lit ''429''] None)"
  using failover_trigger_kinds [of default_triggers "RateLimited [Lit ''429''] None"]
    failover_trigger_kinds [of no_triggers "RateLimited [Lit ''429''] None"]
  by (simp add: triggers_match_def default_triggers_def no_triggers_def triggers_empty_def kind_def)

text \<open>
  Peak pricing is weekly and half-open: shifting a time by whole weeks
  changes nothing, a peak minute lies inside a parsed window whose end is
  already off-peak, and with weekdays only no Saturday or Sunday is peak.
\<close>

theorem peak_windows:
  "(unat t + 604800 * k < 2 ^ 64 \<longrightarrow> is_peak s (t + of_nat (604800 * k)) = is_peak s t)
   \<and> (is_peak s t \<longrightarrow>
        (\<exists>w a b. contains (utc_windows s) w \<and> parse_window w = Some (a, b) \<and> a < b \<and> b \<le> 1440
           \<and> a * 60 \<le> unat t mod 86400 \<and> unat t mod 86400 < b * 60))
   \<and> (is_peak s t \<and> weekdays_only s \<longrightarrow> (unat t div 86400 + 3) mod 7 < 5)"
proof (intro conjI impI)
  assume lim: "unat t + 604800 * k < 2 ^ 64"
  then have small: "unat (of_nat (604800 * k) :: u64) = 604800 * k"
    by (simp only: unat_of_nat) simp
  then have u: "unat (t + of_nat (604800 * k)) = unat t + 604800 * k"
    using lim unat_add_small [of t "of_nat (604800 * k)"] by simp
  have "(unat t + 604800 * k) div 86400 = unat t div 86400 + 7 * k" by simp
  moreover have "(unat t + 604800 * k) mod 86400 = unat t mod 86400"
    using mod_mult_self2 [of "unat t" 86400 "7 * k"] by simp
  moreover have "(unat t div 86400 + 7 * k + 3) mod 7 = (unat t div 86400 + 3) mod 7"
    using mod_mult_self2 [of "unat t div 86400 + 3" 7 k] by (simp add: add.commute add.left_commute)
  ultimately show "is_peak s (t + of_nat (604800 * k)) = is_peak s t"
    by (simp only: is_peak_def u Let_def)
next
  assume "is_peak s t"
  then obtain w a b where w: "w \<in> set (utc_windows s)" "parse_window w = Some (a, b)"
    and m: "a \<le> unat t mod 86400 div 60" "unat t mod 86400 div 60 < b"
    by (auto simp: is_peak_def Let_def list_ex_iff List.map_filter_def split: if_splits)
  have "a * 60 \<le> unat t mod 86400" using m(1) by linarith
  moreover have "unat t mod 86400 < b * 60" using m(2) by (simp add: div_less_iff_less_mult)
  ultimately show "\<exists>w a b. contains (utc_windows s) w \<and> parse_window w = Some (a, b) \<and> a < b
      \<and> b \<le> 1440 \<and> a * 60 \<le> unat t mod 86400 \<and> unat t mod 86400 < b * 60"
    using w parse_window_bounds by (metis contains_iff)
next
  assume "is_peak s t \<and> weekdays_only s"
  then show "(unat t div 86400 + 3) mod 7 < 5"
    by (auto simp: is_peak_def Let_def split: if_splits)
qed

text \<open>
  A schedule that validates has no dead window: at least one, each of them
  parsed to a non-empty range of minutes within one day, and its multiplier is
  a finite number.
\<close>

theorem validated_schedule_windows:
  assumes "validate_schedule s = Ok ()"
  shows "utc_windows s \<noteq> [] \<and> f64_finite (off_peak_multiplier s)
    \<and> list_all (\<lambda>w. \<exists>a b. parse_window w = Some (a, b) \<and> a < b \<and> b \<le> 1440) (utc_windows s)"
proof -
  have f: "find (\<lambda>w. parse_window w = None) (utc_windows s) = None"
    using assms by (auto simp: validate_schedule_def split: if_splits option.splits)
  then have "parse_window w \<noteq> None" if "w \<in> set (utc_windows s)" for w
    using that by (simp add: find_None_iff)
  then show ?thesis
    using assms parse_window_bounds
    by (auto simp: validate_schedule_def list_all_iff split: if_splits) fastforce
qed

text \<open>A schedule in the shape the presets ship, used by the witnesses.\<close>

definition sample_schedule :: peak_schedule where
  "sample_schedule =
    \<lparr> utc_windows = [''01:00-04:00'', ''22:30-24:00''], weekdays_only = True, off_peak_multiplier = 0 \<rparr>"

lemma sample_windows:
  "parse_window ''01:00-04:00'' = Some (60, 240)" "parse_window ''22:30-24:00'' = Some (1350, 1440)"
  by (simp_all add: parse_window_def split_once_def window_minutes_def trim_printable printable_def
      parse_unsigned_def parse_digits_def is_digit_def digit_val_def)

theorem peak_windows_witness:
  "is_peak sample_schedule 5400 \<and> is_peak sample_schedule (5400 + of_nat (604800 * 2))"
proof -
  have p: "is_peak sample_schedule 5400"
    by (simp add: is_peak_def sample_schedule_def sample_windows List.map_filter_def)
  then show ?thesis using peak_windows [of 5400 2 sample_schedule] by simp
qed

theorem validated_schedule_windows_witness:
  "list_all (\<lambda>w. \<exists>a b. parse_window w = Some (a, b) \<and> a < b \<and> b \<le> 1440) (utc_windows sample_schedule)"
proof -
  have "validate_schedule sample_schedule = Ok ()"
    by (simp add: validate_schedule_def sample_schedule_def sample_windows f64_finite_def
        f64_negative_def)
  from validated_schedule_windows [OF this] show ?thesis by simp
qed

end
