(* ===== verification/Routing.thy ===== *)
theory Routing
  imports Provider
begin

text \<open>
  Model routing: the immutable snapshot and its indexes
  (\<^verbatim>\<open>src/client/snapshot.rs\<close>), and the resolution of a model reference into
  a head connection and its failover chain (\<^verbatim>\<open>src/client/resolve.rs\<close>,
  \<^verbatim>\<open>src/client/route.rs\<close>).

  A borrowed row \<^verbatim>\<open>(&ProviderProfile, &ModelProfile)\<close> is the pair of its
  positions in the snapshot, so that pointer equality is equality of positions.
  A \<^verbatim>\<open>BTreeMap\<close> with string keys is a map.  An out-of-range \<^verbatim>\<open>Vec::remove\<close> is
  the failure \<open>IndexPanic\<close>.
\<close>

section \<open>Snapshot\<close>

record runtime_snapshot =
  snap_region :: region
  profiles :: "provider_profile list"
  by_name :: "string \<Rightarrow> nat option"
  model_index :: "string \<Rightarrow> (nat \<times> nat) list option"
  tracked :: "(string \<Rightarrow> string set option) option"

definition annotate_model :: "inference_features \<Rightarrow> model_profile \<Rightarrow> model_profile" where
  "annotate_model connection_features m =
    m \<lparr> info := \<lparr> mi_features = on_connection (mi_features (info m)) connection_features,
                  mi_pricing = pricing m \<rparr> \<rparr>"

definition annotate_profile :: "provider_profile \<Rightarrow> provider_profile" where
  "annotate_profile p =
    (let features = profile_features (iw_reasoning (inference p)) (protocol p)
                      (pi_features (profile_info p)) in
     p \<lparr> profile_info := (profile_info p) \<lparr> pi_features := features \<rparr>,
         models := map (annotate_model features) (models p) \<rparr>)"

definition model_names :: "model_profile \<Rightarrow> string list" where
  "model_names m = sort (remdups (aliases m @ [request_model m, display_model m]))"

definition push_row ::
  "nat \<times> nat \<Rightarrow> (string \<Rightarrow> (nat \<times> nat) list option) \<Rightarrow> string
    \<Rightarrow> (string \<Rightarrow> (nat \<times> nat) list option)" where
  "push_row row index name =
    index(name \<mapsto> (case index name of Some rows \<Rightarrow> rows | None \<Rightarrow> []) @ [row])"

definition index_models ::
  "nat \<Rightarrow> provider_profile \<Rightarrow> (string \<Rightarrow> (nat \<times> nat) list option)
    \<Rightarrow> (string \<Rightarrow> (nat \<times> nat) list option)" where
  "index_models pi p index =
    (if \<not> chat_enabled p then index
     else foldl (\<lambda>idx (mi, m). foldl (push_row (pi, mi)) idx (model_names m))
            index (enumerate 0 (models p)))"

definition new_snapshot ::
  "region \<Rightarrow> provider_profile list \<Rightarrow> (string \<Rightarrow> string set option) option \<Rightarrow> runtime_snapshot" where
  "new_snapshot r ps0 trk =
    (let ps = map annotate_profile ps0 in
     \<lparr> snap_region = r,
       profiles = ps,
       by_name = foldl (\<lambda>names (pi, p). names(profile_name p \<mapsto> pi)) (\<lambda>_. None) (enumerate 0 ps),
       model_index = foldl (\<lambda>idx (pi, p). index_models pi p idx) (\<lambda>_. None) (enumerate 0 ps),
       tracked = trk \<rparr>)"

definition profile_at :: "runtime_snapshot \<Rightarrow> nat \<Rightarrow> provider_profile" where
  "profile_at s pi = profiles s ! pi"

definition model_at :: "runtime_snapshot \<Rightarrow> nat \<times> nat \<Rightarrow> model_profile" where
  "model_at s row = models (profile_at s (fst row)) ! snd row"

definition named_profile :: "runtime_snapshot \<Rightarrow> string \<Rightarrow> nat option" where
  "named_profile s name = by_name s name"

definition tracks :: "runtime_snapshot \<Rightarrow> provider_profile \<Rightarrow> model_profile \<Rightarrow> bool" where
  "tracks s p m =
    (case tracked s of
       None \<Rightarrow> True
     | Some trk \<Rightarrow>
         (case trk (provider_id p) of
            Some ids \<Rightarrow> request_model m \<in> ids
          | None \<Rightarrow> False))"

definition rows_for :: "runtime_snapshot \<Rightarrow> string \<Rightarrow> (nat \<times> nat) list" where
  "rows_for s name = (case model_index s name of Some rows \<Rightarrow> rows | None \<Rightarrow> [])"

definition available :: "runtime_snapshot \<Rightarrow> nat \<Rightarrow> bool" where
  "available s pi = supports_region (profile_at s pi) (snap_region s)"

section \<open>Routes\<close>

record connection_hop =
  hop_profile_name :: string
  hop_request_model :: string

record pricing_model_ref =
  pricing_provider_id :: provider_id
  ref_billing_model :: string
  ref_request_model :: string
  ref_display_model :: string

record resolved_route =
  route_provider_id :: provider_id
  route_profile_name :: string
  route_request_model :: string
  route_display_model :: string
  pricing_model :: pricing_model_ref
  route_capability_support :: model_capability_support
  connection_chain :: "connection_hop list"
  route_failover :: failover_triggers

record request_route =
  route :: resolved_route
  connections :: "(nat \<times> nat) list"

datatype resolve_error =
    UnsupportedProtocol string protocol_family
  | UnknownModel string
  | AmbiguousAcrossGroups string "string list"
  | AmbiguousNativeAndQualified string "string list" "string list"
  | DuplicateOnProfile string string

datatype resolve_failure = ResolveFailure resolve_error | IndexPanic

definition hop_of :: "runtime_snapshot \<Rightarrow> nat \<times> nat \<Rightarrow> connection_hop" where
  "hop_of s row =
    \<lparr> hop_profile_name = profile_name (profile_at s (fst row)),
      hop_request_model = request_model (model_at s row) \<rparr>"

definition pricing_ref :: "runtime_snapshot \<Rightarrow> nat \<times> nat \<Rightarrow> pricing_model_ref" where
  "pricing_ref s row =
    \<lparr> pricing_provider_id = provider_id (profile_at s (fst row)),
      ref_billing_model = billing_model (model_at s row),
      ref_request_model = request_model (model_at s row),
      ref_display_model = display_model (model_at s row) \<rparr>"

definition promote_head ::
  "runtime_snapshot \<Rightarrow> request_route \<Rightarrow> nat \<Rightarrow> resolve_failure + request_route" where
  "promote_head s r index =
    (if length (connections r) \<le> index then Err IndexPanic
     else
       let selected = connections r ! index;
           p = profile_at s (fst selected);
           m = model_at s selected;
           conns = selected # (take index (connections r) @ drop (Suc index) (connections r)) in
       Ok \<lparr> route = (route r) \<lparr>
              route_provider_id := provider_id p,
              route_profile_name := profile_name p,
              route_request_model := request_model m,
              route_display_model := display_model m,
              pricing_model := pricing_ref s selected,
              route_capability_support :=
                (case capability_support m of Some c \<Rightarrow> c | None \<Rightarrow> default_capability_support),
              route_failover := failover (connection p),
              connection_chain := map (hop_of s) (tl conns) \<rparr>,
            connections = conns \<rparr>)"

definition retain_provider ::
  "runtime_snapshot \<Rightarrow> request_route \<Rightarrow> string \<Rightarrow> llm_error + request_route" where
  "retain_provider s r pid =
    (if (case connections r of [] \<Rightarrow> True | head # _ \<Rightarrow> provider_id (profile_at s (fst head)) \<noteq> pid)
     then Err (InvalidRequest [Lit ''bound provider no longer matches the selected route''])
     else
       let conns = filter (\<lambda>c. provider_id (profile_at s (fst c)) = pid) (connections r) in
       Ok \<lparr> route = (route r) \<lparr> connection_chain := map (hop_of s) (tl conns) \<rparr>,
            connections = conns \<rparr>)"

section \<open>Resolution\<close>

definition match_key :: "runtime_snapshot \<Rightarrow> bool \<Rightarrow> nat \<times> nat \<Rightarrow> bool \<times> nat \<times> string" where
  "match_key s prefer_visible row =
    (let p = profile_at s (fst row) in
     (prefer_visible \<and> cs_hidden (connection p), connection_sort_key p))"

text \<open>The comparison the two \<^verbatim>\<open>sort_by\<close> calls use, read as a lexicographic order.\<close>

definition key_le :: "bool \<times> nat \<times> string \<Rightarrow> bool \<times> nat \<times> string \<Rightarrow> bool" where
  "key_le a b =
    (case (a, b) of ((h, n, x), (h', n', y)) \<Rightarrow>
       (\<not> h \<and> h') \<or> h = h' \<and> (n < n' \<or> n = n' \<and> x \<le> y))"

text \<open>A stable insertion sort, as \<^verbatim>\<open>sort_by\<close> is stable.\<close>

fun insert_by :: "('a \<Rightarrow> 'a \<Rightarrow> bool) \<Rightarrow> 'a \<Rightarrow> 'a list \<Rightarrow> 'a list" where
  "insert_by le x [] = [x]"
| "insert_by le x (y # ys) = (if le x y then x # y # ys else y # insert_by le x ys)"

definition sort_by :: "('a \<Rightarrow> 'a \<Rightarrow> bool) \<Rightarrow> 'a list \<Rightarrow> 'a list" where
  "sort_by le xs = foldr (insert_by le) xs []"

definition sort_matches ::
  "runtime_snapshot \<Rightarrow> bool \<Rightarrow> (nat \<times> nat) list \<Rightarrow> (nat \<times> nat) list" where
  "sort_matches s prefer_visible rows =
    sort_by (\<lambda>a b. key_le (match_key s prefer_visible a) (match_key s prefer_visible b)) rows"

text \<open>\<^verbatim>\<open>chunk_by(|a, b| a.0 == b.0)\<close>: maximal runs of rows of one profile.\<close>

fun chunk_rows :: "(nat \<times> nat) list \<Rightarrow> (nat \<times> nat) list list" where
  "chunk_rows [] = []"
| "chunk_rows (r # rs) =
    (case chunk_rows rs of
       [] \<Rightarrow> [[r]]
     | c # cs \<Rightarrow> if fst (hd c) = fst r then (r # c) # cs else [r] # c # cs)"

definition names_a_connection :: "runtime_snapshot \<Rightarrow> string \<Rightarrow> bool" where
  "names_a_connection s name =
    (case named_profile s name of Some pi \<Rightarrow> available s pi | None \<Rightarrow> False)"

definition qualifier_selects :: "runtime_snapshot \<Rightarrow> string \<Rightarrow> nat \<Rightarrow> bool" where
  "qualifier_selects s qualifier pi =
    (if names_a_connection s qualifier then profile_name (profile_at s pi) = qualifier
     else group_of (profile_at s pi) = qualifier)"

definition in_scope :: "runtime_snapshot \<Rightarrow> string option \<Rightarrow> nat \<Rightarrow> bool" where
  "in_scope s scope pi =
    (case scope of Some q \<Rightarrow> qualifier_selects s q pi | None \<Rightarrow> True)"

definition native_matches :: "runtime_snapshot \<Rightarrow> string \<Rightarrow> string option \<Rightarrow> (nat \<times> nat) list" where
  "native_matches s requested scope =
    (let found = filter (\<lambda>(pi, mi). available s pi \<and> in_scope s scope pi) (rows_for s requested);
         visible = (\<lambda>(pi, mi). \<not> cs_hidden (connection (profile_at s pi))) in
     if scope = None \<and> list_ex visible found then filter visible found else found)"

definition qualified_matches :: "runtime_snapshot \<Rightarrow> string \<Rightarrow> string option \<Rightarrow> (nat \<times> nat) list" where
  "qualified_matches s requested scope =
    (case split_once (CHR ''/'') requested of
       None \<Rightarrow> []
     | Some (qualifier, bare) \<Rightarrow>
         if scope = None \<or> scope = Some qualifier
         then filter (\<lambda>(pi, mi). available s pi \<and> qualifier_selects s qualifier pi) (rows_for s bare)
         else [])"

text \<open>\<^verbatim>\<open>names.sort(); names.dedup()\<close>\<close>

definition sorted_names :: "string list \<Rightarrow> string list" where
  "sorted_names names = remdups_adj (sort names)"

definition profile_names :: "runtime_snapshot \<Rightarrow> (nat \<times> nat) list \<Rightarrow> string list" where
  "profile_names s rows = sorted_names (map (\<lambda>row. profile_name (profile_at s (fst row))) rows)"

fun adjacent_same_profile :: "runtime_snapshot \<Rightarrow> (nat \<times> nat) list \<Rightarrow> string option" where
  "adjacent_same_profile s (a # b # rest) =
    (if profile_name (profile_at s (fst a)) = profile_name (profile_at s (fst b))
     then Some (profile_name (profile_at s (fst a)))
     else adjacent_same_profile s (b # rest))"
| "adjacent_same_profile s _ = None"

text \<open>What a chunk of rows of one profile contributes to the failover chain of the head.\<close>

definition sibling_row :: "runtime_snapshot \<Rightarrow> nat \<times> nat \<Rightarrow> (nat \<times> nat) list \<Rightarrow> (nat \<times> nat) option" where
  "sibling_row s head rows =
    (let provider = profile_at s (fst head);
         model = model_at s head;
         billing = billing_mode_on model (profile_pricing provider);
         c = profile_at s (fst (hd rows)) in
     if \<not> available s (fst (hd rows))
        \<or> group_of c \<noteq> group_of provider
        \<or> profile_name c = profile_name provider
        \<or> auth_strategy provider = ChatGptPlan
        \<or> auth_strategy c = ChatGptPlan
     then None
     else
       (case filter (\<lambda>row. request_model (model_at s row) = request_model model
                  \<and> billing_mode_on (model_at s row) (profile_pricing c) = billing) rows of
          [row] \<Rightarrow> Some row
        | _ \<Rightarrow> None))"

definition siblings_of :: "runtime_snapshot \<Rightarrow> nat \<times> nat \<Rightarrow> (nat \<times> nat) list" where
  "siblings_of s head =
    sort_by (\<lambda>a b. key_le (match_key s False a) (match_key s False b))
      (List.map_filter (sibling_row s head)
        (chunk_rows (rows_for s (request_model (model_at s head)))))"

definition route_for :: "runtime_snapshot \<Rightarrow> nat \<times> nat \<Rightarrow> (nat \<times> nat) list \<Rightarrow> request_route" where
  "route_for s head siblings =
    (let provider = profile_at s (fst head); model = model_at s head in
     \<lparr> route = \<lparr>
         route_provider_id = provider_id provider,
         route_profile_name = profile_name provider,
         route_request_model = request_model model,
         route_display_model = display_model model,
         pricing_model = pricing_ref s head,
         route_capability_support =
           (case capability_support model of Some c \<Rightarrow> c | None \<Rightarrow> default_capability_support),
         connection_chain = map (hop_of s) siblings,
         route_failover = failover (connection provider) \<rparr>,
       connections = head # siblings \<rparr>)"

definition resolve_precedence ::
  "runtime_snapshot \<Rightarrow> string \<Rightarrow> string option \<Rightarrow> bool \<Rightarrow> resolve_error + request_route" where
  "resolve_precedence s requested scope prefer_native =
    (let native = native_matches s requested scope;
         qualified0 = qualified_matches s requested scope;
         qualified = (if prefer_native \<and> native \<noteq> [] then [] else qualified0) in
     if scope = None \<and> native \<noteq> [] \<and> qualified \<noteq> []
        \<and> hd (sort_matches s True native) \<noteq> hd (sort_matches s True qualified)
     then Err (AmbiguousNativeAndQualified requested (profile_names s native)
                 (profile_names s qualified))
     else
       let chosen = (if native = [] then qualified else native);
           groups = sorted_names (map (\<lambda>row. group_of (profile_at s (fst row))) chosen) in
       if chosen = [] then Err (UnknownModel requested)
       else if 1 < length groups then Err (AmbiguousAcrossGroups requested groups)
       else
         (case adjacent_same_profile s chosen of
            Some name \<Rightarrow> Err (DuplicateOnProfile requested name)
          | None \<Rightarrow>
              let head = hd (sort_matches s (scope = None) chosen) in
              Ok (route_for s head (siblings_of s head))))"

definition retain_protocol ::
  "runtime_snapshot \<Rightarrow> protocol_family \<Rightarrow> request_route \<Rightarrow> request_route" where
  "retain_protocol s fam r =
    r \<lparr> connections := filter (\<lambda>c. protocol (profile_at s (fst c)) = fam) (connections r) \<rparr>"

definition resolve_alternate ::
  "runtime_snapshot \<Rightarrow> nat \<Rightarrow> string \<Rightarrow> protocol_family \<Rightarrow> resolve_failure + request_route" where
  "resolve_alternate s head_pi model fam =
    (let head = profile_at s head_pi;
         invalid = Err (ResolveFailure (UnsupportedProtocol (profile_name head) fam)) in
     case map_of (protocol_profiles (connection head)) fam of
       None \<Rightarrow> invalid
     | Some name \<Rightarrow>
         (case named_profile s name of
            None \<Rightarrow> invalid
          | Some target_pi \<Rightarrow>
              let target = profile_at s target_pi in
              if provider_id target \<noteq> provider_id head
                 \<or> credential target \<noteq> credential head
                 \<or> protocol target \<noteq> fam
                 \<or> pc_billing_mode (profile_pricing target) \<noteq> pc_billing_mode (profile_pricing head)
              then invalid
              else
                (case resolve_precedence s model (Some name) True of
                   Inl e \<Rightarrow> Err (ResolveFailure e)
                 | Inr selected \<Rightarrow> promote_head s (retain_protocol s fam selected) 0)))"

definition resolve_with_protocol ::
  "runtime_snapshot \<Rightarrow> string \<Rightarrow> string option \<Rightarrow> protocol_family option
    \<Rightarrow> resolve_failure + request_route" where
  "resolve_with_protocol s requested scope fam =
    (case resolve_precedence s requested scope False of
       Inl (UnknownModel m) \<Rightarrow>
         let owner = (case scope of Some q \<Rightarrow> Some q
                      | None \<Rightarrow> map_option fst (split_once (CHR ''/'') requested)) in
         (case Option.bind owner (named_profile s) of
            None \<Rightarrow> Err (ResolveFailure (UnknownModel m))
          | Some head_pi \<Rightarrow>
              if \<not> available s head_pi then Err (ResolveFailure (UnknownModel m))
              else
                let head = profile_at s head_pi in
                (case or_keep fam (default_protocol (connection head)) of
                   None \<Rightarrow> Err (ResolveFailure (UnknownModel m))
                 | Some format \<Rightarrow>
                     if format = protocol head then Err (ResolveFailure (UnknownModel m))
                     else
                       let model = (case strip_prefix (profile_name head @ ''/'') requested of
                                      Some bare \<Rightarrow> bare | None \<Rightarrow> requested) in
                       resolve_alternate s head_pi model format))
     | Inl e \<Rightarrow> Err (ResolveFailure e)
     | Inr source \<Rightarrow>
         let head_pi = fst (hd (connections source));
             head = profile_at s head_pi;
             wanted = (case or_keep fam (default_protocol (connection head)) of
                         Some f \<Rightarrow> f | None \<Rightarrow> protocol head) in
         if protocol head = wanted
         then promote_head s (retain_protocol s wanted source) 0
         else resolve_alternate s head_pi (route_request_model (route source)) wanted)"

definition resolve_in ::
  "runtime_snapshot \<Rightarrow> string \<Rightarrow> string option \<Rightarrow> resolve_failure + resolved_route" where
  "resolve_in s requested scope =
    (case resolve_with_protocol s requested scope None of
       Inl e \<Rightarrow> Err e | Inr r \<Rightarrow> Ok (route r))"

definition resolve :: "runtime_snapshot \<Rightarrow> string \<Rightarrow> resolve_failure + resolved_route" where
  "resolve s model = resolve_in s model None"

section \<open>The routing catalog\<close>

definition resolve_prefer_native ::
  "runtime_snapshot \<Rightarrow> string \<Rightarrow> string option \<Rightarrow> resolve_failure + resolved_route" where
  "resolve_prefer_native s model scope =
    (case resolve_precedence s model scope True of
       Inl e \<Rightarrow> Err (ResolveFailure e)
     | Inr resolved \<Rightarrow>
         let selected = profile_at s (fst (hd (connections resolved))) in
         if (case default_protocol (connection selected) of
               None \<Rightarrow> True | Some f \<Rightarrow> f = protocol selected)
         then (case promote_head s (retain_protocol s (protocol selected) resolved) 0 of
                 Inl e \<Rightarrow> Err e | Inr r \<Rightarrow> Ok (route r))
         else (case resolve_with_protocol s (route_request_model (route resolved))
                      (Some (profile_name selected)) None of
                 Inl e \<Rightarrow> Err e | Inr r \<Rightarrow> Ok (route r)))"

definition resolve_for_connection_failover ::
  "runtime_snapshot \<Rightarrow> string \<Rightarrow> string option \<Rightarrow> resolve_failure + resolved_route" where
  "resolve_for_connection_failover s model scope =
    (case resolve_precedence s model scope True of
       Inl e \<Rightarrow> Err (ResolveFailure e)
     | Inr resolved \<Rightarrow>
         let head = profile_at s (fst (hd (connections resolved))) in
         if (case default_protocol (connection head) of None \<Rightarrow> True | Some f \<Rightarrow> f = protocol head)
         then Ok (route resolved)
         else (case resolve_with_protocol s (route_request_model (route resolved))
                      (Some (profile_name head)) None of
                 Inl e \<Rightarrow> Err e
               | Inr selected \<Rightarrow>
                   (case resolve_precedence s (route_request_model (route selected))
                           (Some (route_profile_name (route selected))) True of
                      Inl e \<Rightarrow> Err (ResolveFailure e) | Inr r \<Rightarrow> Ok (route r))))"

section \<open>Lemmas\<close>

subsection \<open>Sorting\<close>

locale total_preorder =
  fixes le :: "'a \<Rightarrow> 'a \<Rightarrow> bool"
  assumes le_total: "le x y \<or> le y x"
    and le_trans: "le x y \<Longrightarrow> le y z \<Longrightarrow> le x z"
begin

lemma insert_sorted: "sorted_wrt le xs \<Longrightarrow> sorted_wrt le (insert_by le x xs)"
proof (induction xs)
  case (Cons y ys)
  have set_ins: "set (insert_by le x zs) = insert x (set zs)" for zs
    by (induction zs) auto
  show ?case
  proof (cases "le x y")
    case True
    then show ?thesis using Cons.prems le_trans by auto
  next
    case False
    then have "le y x" using le_total by blast
    then show ?thesis using False Cons by (auto simp: set_ins)
  qed
qed simp

lemma sort_by_sorted: "sorted_wrt le (sort_by le xs)"
  by (induction xs) (simp_all add: sort_by_def insert_sorted)

end

lemma mset_insert_by [simp]: "set (insert_by le x xs) = insert x (set xs)"
  by (induction xs) auto

lemma length_insert_by [simp]: "length (insert_by le x xs) = Suc (length xs)"
  by (induction xs) auto

lemma set_sort_by [simp]: "set (sort_by le xs) = set xs"
  by (induction xs) (simp_all add: sort_by_def)

lemma length_sort_by [simp]: "length (sort_by le xs) = length xs"
  by (induction xs) (simp_all add: sort_by_def)

lemma sort_by_Nil [simp]: "sort_by le xs = [] \<longleftrightarrow> xs = []"
  by (metis length_0_conv length_sort_by)

interpretation match_order: total_preorder
  "\<lambda>a b. key_le (match_key s v a) (match_key s v b)" for s v
proof
  show "key_le (match_key s v a) (match_key s v b) \<or> key_le (match_key s v b) (match_key s v a)" for a b
    by (auto simp: key_le_def match_key_def Let_def connection_sort_key_def)
  show "key_le (match_key s v a) (match_key s v b) \<Longrightarrow> key_le (match_key s v b) (match_key s v c) \<Longrightarrow>
      key_le (match_key s v a) (match_key s v c)" for a b c
    by (auto simp: key_le_def match_key_def Let_def connection_sort_key_def split: if_splits)
qed

subsection \<open>The indexes\<close>

definition rows_of :: "(string \<Rightarrow> (nat \<times> nat) list option) \<Rightarrow> string \<Rightarrow> (nat \<times> nat) list" where
  "rows_of index name = (case index name of Some rows \<Rightarrow> rows | None \<Rightarrow> [])"

lemma rows_of_push [simp]:
  "rows_of (push_row row index name) n = (if n = name then rows_of index n @ [row] else rows_of index n)"
  by (simp add: push_row_def rows_of_def)

lemma rows_of_pushes:
  "distinct names \<Longrightarrow> rows_of (foldl (push_row row) index names) n =
    rows_of index n @ (if n \<in> set names then [row] else [])"
  by (induction names arbitrary: index) auto

lemma model_names_answers [simp]: "n \<in> set (model_names m) \<longleftrightarrow> answers_to m n"
  by (auto simp: model_names_def answers_to_def list_ex_iff)

lemma distinct_model_names [simp]: "distinct (model_names m)"
  by (simp add: model_names_def)

definition profile_rows :: "nat \<Rightarrow> provider_profile \<Rightarrow> string \<Rightarrow> (nat \<times> nat) list" where
  "profile_rows pi p n =
    (if chat_enabled p
     then map (\<lambda>(mi, m). (pi, mi)) (filter (\<lambda>(mi, m). answers_to m n) (enumerate 0 (models p)))
     else [])"

lemma profile_rows_fst: "(pi', mi) \<in> set (profile_rows pi p n) \<Longrightarrow> pi' = pi"
  by (auto simp: profile_rows_def split: if_splits)

lemma find_SomeD: "find P xs = Some x \<Longrightarrow> x \<in> set xs \<and> P x"
  by (auto simp: find_Some_iff)

lemma rows_of_index_models: "rows_of (index_models pi p index) n = rows_of index n @ profile_rows pi p n"
proof -
  have "rows_of (foldl (\<lambda>idx (mi, m). foldl (push_row (pi, mi)) idx (model_names m)) index ms) n =
      rows_of index n @ map (\<lambda>(mi, m). (pi, mi)) (filter (\<lambda>(mi, m). answers_to m n) ms)" for ms
    by (induction ms arbitrary: index) (auto simp: rows_of_pushes)
  then show ?thesis by (simp add: index_models_def profile_rows_def)
qed

lemma rows_of_index_profiles:
  "rows_of (foldl (\<lambda>idx (pi, p). index_models pi p idx) index ps) n =
    rows_of index n @ concat (map (\<lambda>(pi, p). profile_rows pi p n) ps)"
  by (induction ps arbitrary: index) (auto simp: rows_of_index_models)

lemma rows_for_new:
  assumes "s = new_snapshot r ps trk"
  shows "rows_for s n = concat (map (\<lambda>(pi, p). profile_rows pi p n) (enumerate 0 (profiles s)))"
proof -
  have "rows_for s n = rows_of (model_index s) n" by (simp add: rows_for_def rows_of_def)
  also have "\<dots> = rows_of (\<lambda>_. None) n
      @ concat (map (\<lambda>(pi, p). profile_rows pi p n) (enumerate 0 (profiles s)))"
    using assms by (simp add: new_snapshot_def Let_def rows_of_index_profiles)
  finally show ?thesis by (simp add: rows_of_def)
qed

definition built :: "runtime_snapshot \<Rightarrow> bool" where
  "built s \<longleftrightarrow> (\<exists>r ps trk. s = new_snapshot r ps trk)"

lemma row_facts:
  assumes "built s" "(pi, mi) \<in> set (rows_for s n)"
  shows "pi < length (profiles s)" "chat_enabled (profile_at s pi)"
    "mi < length (models (profile_at s pi))" "answers_to (model_at s (pi, mi)) n"
proof -
  obtain r ps trk where "s = new_snapshot r ps trk" using assms(1) by (auto simp: built_def)
  from rows_for_new [OF this, of n] assms(2) obtain p where
    p: "(pi, p) \<in> set (enumerate 0 (profiles s))" "(pi, mi) \<in> set (profile_rows pi p n)"
    by (auto dest: profile_rows_fst)
  then have pi: "pi < length (profiles s)" "p = profile_at s pi"
    by (auto simp: in_set_enumerate_eq profile_at_def)
  then show "pi < length (profiles s)" "chat_enabled (profile_at s pi)"
    "mi < length (models (profile_at s pi))" "answers_to (model_at s (pi, mi)) n"
    using p(2) by (auto simp: profile_rows_def in_set_enumerate_eq model_at_def split: if_splits)
qed

lemma by_name_fold:
  "foldl (\<lambda>names (pi, p). names(profile_name p \<mapsto> pi)) index ps n =
    (case find (\<lambda>(pi, p). profile_name p = n) (rev ps) of
       Some (pi, p) \<Rightarrow> Some pi | None \<Rightarrow> index n)"
  by (induction ps rule: rev_induct) auto

lemma named_profile_facts:
  assumes "built s" "named_profile s n = Some pi"
  shows "pi < length (profiles s)" "profile_name (profile_at s pi) = n"
proof -
  obtain r ps trk where s: "s = new_snapshot r ps trk" using assms(1) by (auto simp: built_def)
  have "find (\<lambda>(pi, p). profile_name p = n) (rev (enumerate 0 (profiles s))) \<noteq> None
      \<and> (\<exists>p. find (\<lambda>(pi, p). profile_name p = n) (rev (enumerate 0 (profiles s))) = Some (pi, p))"
    using assms(2) s by (auto simp: named_profile_def new_snapshot_def Let_def by_name_fold split: option.splits)
  then obtain p where "find (\<lambda>(pi, p). profile_name p = n) (rev (enumerate 0 (profiles s)))
      = Some (pi, p)"
    by blast
  then have "(pi, p) \<in> set (enumerate 0 (profiles s))" "profile_name p = n"
    by (auto dest: find_SomeD)
  then show "pi < length (profiles s)" "profile_name (profile_at s pi) = n"
    by (auto simp: in_set_enumerate_eq profile_at_def)
qed

subsection \<open>Matches\<close>

lemma native_matches_sub:
  "row \<in> set (native_matches s requested scope) \<Longrightarrow>
    row \<in> set (rows_for s requested) \<and> available s (fst row) \<and> in_scope s scope (fst row)"
  by (auto simp: native_matches_def Let_def split: if_splits)

lemma qualified_matches_sub:
  "row \<in> set (qualified_matches s requested scope) \<Longrightarrow>
    \<exists>q bare. split_once (CHR ''/'') requested = Some (q, bare) \<and> (scope = None \<or> scope = Some q)
      \<and> row \<in> set (rows_for s bare) \<and> available s (fst row) \<and> qualifier_selects s q (fst row)"
  by (cases "split_once (CHR ''/'') requested")
     (auto simp: qualified_matches_def split: if_splits)

text \<open>What resolution promises about the rows it may start on.\<close>

definition serves :: "runtime_snapshot \<Rightarrow> string \<Rightarrow> string option \<Rightarrow> nat \<times> nat \<Rightarrow> bool" where
  "serves s requested scope row \<longleftrightarrow>
    available s (fst row) \<and> fst row < length (profiles s) \<and> chat_enabled (profile_at s (fst row))
    \<and> snd row < length (models (profile_at s (fst row)))
    \<and> (case scope of Some q \<Rightarrow> qualifier_selects s q (fst row) | None \<Rightarrow> True)
    \<and> (answers_to (model_at s row) requested
       \<or> (case split_once (CHR ''/'') requested of
            Some (q, bare) \<Rightarrow> qualifier_selects s q (fst row) \<and> answers_to (model_at s row) bare
          | None \<Rightarrow> False))"

lemma native_serves:
  "built s \<Longrightarrow> row \<in> set (native_matches s requested scope) \<Longrightarrow> serves s requested scope row"
  using native_matches_sub [of row s requested scope] row_facts [of s "fst row" "snd row" requested]
  by (auto simp: serves_def in_scope_def split: option.splits)

lemma qualified_serves:
  assumes "built s" "row \<in> set (qualified_matches s requested scope)"
  shows "serves s requested scope row"
proof -
  obtain q bare where q: "split_once (CHR ''/'') requested = Some (q, bare)"
    "scope = None \<or> scope = Some q" "row \<in> set (rows_for s bare)" "available s (fst row)"
    "qualifier_selects s q (fst row)"
    using qualified_matches_sub [OF assms(2)] by blast
  then show ?thesis
    using row_facts [OF assms(1), of "fst row" "snd row" bare] by (auto simp: serves_def)
qed

lemma resolve_precedence_Inr:
  assumes "resolve_precedence s requested scope pn = Inr r"
  obtains chosen where "chosen \<noteq> []"
    "chosen = native_matches s requested scope \<or> chosen = qualified_matches s requested scope"
    "length (sorted_names (map (\<lambda>row. group_of (profile_at s (fst row))) chosen)) \<le> 1"
    "adjacent_same_profile s chosen = None"
    "r = route_for s (hd (sort_matches s (scope = None) chosen))
           (siblings_of s (hd (sort_matches s (scope = None) chosen)))"
    "scope = None \<Longrightarrow> \<not> pn \<Longrightarrow> native_matches s requested scope \<noteq> [] \<Longrightarrow>
       qualified_matches s requested scope \<noteq> [] \<Longrightarrow>
       hd (sort_matches s True (native_matches s requested scope))
         = hd (sort_matches s True (qualified_matches s requested scope))"
proof -
  define chosen where "chosen = (if native_matches s requested scope = []
      then (if pn \<and> native_matches s requested scope \<noteq> [] then [] else qualified_matches s requested scope)
      else native_matches s requested scope)"
  show thesis
    by (rule that [of chosen])
       (use assms in \<open>auto simp: resolve_precedence_def Let_def chosen_def not_less
          split: if_splits option.splits\<close>)
qed

lemma sort_matches_hd:
  assumes "rows \<noteq> []"
  shows "hd (sort_matches s v rows) \<in> set rows"
proof -
  have "sort_matches s v rows \<noteq> []" using assms by (simp add: sort_matches_def)
  then have "hd (sort_matches s v rows) \<in> set (sort_matches s v rows)" by simp
  then show ?thesis by (simp add: sort_matches_def)
qed

lemma resolve_head_serves:
  assumes "built s" "resolve_precedence s requested scope pn = Inr r"
  shows "\<exists>head. r = route_for s head (siblings_of s head) \<and> serves s requested scope head"
proof (rule resolve_precedence_Inr [OF assms(2)])
  fix chosen
  assume "chosen \<noteq> []"
    "chosen = native_matches s requested scope \<or> chosen = qualified_matches s requested scope"
    "r = route_for s (hd (sort_matches s (scope = None) chosen))
           (siblings_of s (hd (sort_matches s (scope = None) chosen)))"
  then show ?thesis
    using sort_matches_hd [of chosen s "scope = None"] native_serves [OF assms(1)]
      qualified_serves [OF assms(1)] by blast
qed

subsection \<open>Failover siblings\<close>

definition one_profile :: "(nat \<times> nat) set \<Rightarrow> (nat \<times> nat) list \<Rightarrow> bool" where
  "one_profile R rows \<longleftrightarrow> rows \<noteq> [] \<and> set rows \<subseteq> R \<and> fst ` set rows = {fst (hd rows)}"

lemma one_profile_mono: "one_profile R rows \<Longrightarrow> R \<subseteq> R' \<Longrightarrow> one_profile R' rows"
  by (auto simp only: one_profile_def)

lemma one_profile_Cons:
  "one_profile R c \<Longrightarrow> fst (hd c) = fst r \<Longrightarrow> one_profile (insert r R) (r # c)"
  by (auto simp only: one_profile_def list.set list.sel image_insert)

lemma chunk_rows_one_profile: "rows \<in> set (chunk_rows rs) \<Longrightarrow> one_profile (set rs) rows"
proof (induction rs arbitrary: rows)
  case (Cons r rs)
  show ?case
  proof (cases "chunk_rows rs")
    case Nil
    then show ?thesis using Cons.prems by (simp add: one_profile_def)
  next
    case chunks: (Cons c cs)
    have c: "one_profile (set rs) c" using Cons.IH [of c] chunks by simp
    have sub: "set rs \<subseteq> set (r # rs)" by (rule set_subset_Cons)
    consider (new) "rows = [r]" | (join) "rows = r # c" "fst (hd c) = fst r" | (old) "rows \<in> set (c # cs)"
      using Cons.prems chunks by (auto split: if_splits)
    then show ?thesis
    proof cases
      case new
      then show ?thesis by (simp add: one_profile_def)
    next
      case join
      then show ?thesis using one_profile_Cons [OF c] by simp
    next
      case old
      then have "one_profile (set rs) rows" using Cons.IH [of rows] chunks by simp
      then show ?thesis using one_profile_mono sub by blast
    qed
  qed
qed simp

text \<open>What every connection of a chain shares with the head.\<close>

definition may_replace :: "runtime_snapshot \<Rightarrow> nat \<times> nat \<Rightarrow> nat \<times> nat \<Rightarrow> bool" where
  "may_replace s head row \<longleftrightarrow>
    available s (fst row) \<and> fst row < length (profiles s) \<and> chat_enabled (profile_at s (fst row))
    \<and> snd row < length (models (profile_at s (fst row)))
    \<and> group_of (profile_at s (fst row)) = group_of (profile_at s (fst head))
    \<and> profile_name (profile_at s (fst row)) \<noteq> profile_name (profile_at s (fst head))
    \<and> request_model (model_at s row) = request_model (model_at s head)
    \<and> billing_mode_on (model_at s row) (profile_pricing (profile_at s (fst row)))
        = billing_mode_on (model_at s head) (profile_pricing (profile_at s (fst head)))
    \<and> auth_strategy (profile_at s (fst head)) \<noteq> ChatGptPlan
    \<and> auth_strategy (profile_at s (fst row)) \<noteq> ChatGptPlan"

lemma sibling_row_facts:
  assumes "built s" "rows \<in> set (chunk_rows (rows_for s n))" "sibling_row s head rows = Some row"
  shows "may_replace s head row"
proof -
  have rows: "set rows \<subseteq> set (rows_for s n)" "fst ` set rows = {fst (hd rows)}"
    using chunk_rows_one_profile [OF assms(2)] by (simp_all add: one_profile_def)
  have f: "filter (\<lambda>row. request_model (model_at s row) = request_model (model_at s head)
      \<and> billing_mode_on (model_at s row) (profile_pricing (profile_at s (fst (hd rows))))
        = billing_mode_on (model_at s head) (profile_pricing (profile_at s (fst head)))) rows = [row]"
    using assms(3) by (auto simp: sibling_row_def Let_def split: if_splits list.splits)
  then have row: "row \<in> set rows" "request_model (model_at s row) = request_model (model_at s head)"
    "billing_mode_on (model_at s row) (profile_pricing (profile_at s (fst (hd rows))))
      = billing_mode_on (model_at s head) (profile_pricing (profile_at s (fst head)))"
    by (auto dest: filter_eq_ConsD)
  then have fst_row: "fst row = fst (hd rows)" using rows by blast
  obtain pi mi where pm: "row = (pi, mi)" by (cases row)
  have "(pi, mi) \<in> set (rows_for s n)" using row(1) rows(1) pm by blast
  note facts = row_facts [OF assms(1) this]
  have "available s (fst row)" "group_of (profile_at s (fst row)) = group_of (profile_at s (fst head))"
    "profile_name (profile_at s (fst row)) \<noteq> profile_name (profile_at s (fst head))"
    "auth_strategy (profile_at s (fst head)) \<noteq> ChatGptPlan"
    "auth_strategy (profile_at s (fst row)) \<noteq> ChatGptPlan"
    using assms(3) unfolding fst_row by (simp_all add: sibling_row_def Let_def split: if_splits)
  then show ?thesis
    using facts row(2,3) fst_row pm by (simp add: may_replace_def)
qed

lemma siblings_facts:
  assumes "built s"
  shows "list_all (may_replace s head) (siblings_of s head)"
    "sorted_wrt (\<lambda>a b. key_le (match_key s False a) (match_key s False b)) (siblings_of s head)"
proof -
  show "list_all (may_replace s head) (siblings_of s head)"
    unfolding list_all_iff
  proof
    fix row
    assume "row \<in> set (siblings_of s head)"
    then obtain rows where "rows \<in> set (chunk_rows (rows_for s (request_model (model_at s head))))"
      "sibling_row s head rows = Some row"
      by (auto simp: siblings_of_def List.map_filter_def simp del: split_paired_Ex)
    then show "may_replace s head row" by (rule sibling_row_facts [OF assms])
  qed
  show "sorted_wrt (\<lambda>a b. key_le (match_key s False a) (match_key s False b)) (siblings_of s head)"
    by (simp add: siblings_of_def match_order.sort_by_sorted)
qed

end
