(* ===== verification/Resolution.thy ===== *)
theory Resolution
  imports Routing
begin

text \<open>
  What model resolution promises: the row it starts on serves the reference, the
  failover chain holds only connections that may stand in for it, a selected wire
  format is honoured on the same account, and resolution does not index past the
  end of the connections it kept.
\<close>

section \<open>A sample catalog\<close>

definition sample_model :: "string \<Rightarrow> model_profile" where
  "sample_model name = \<lparr>
     info = \<lparr> mi_features = default_features, mi_pricing = None \<rparr>,
     display_model = name, request_model = name, billing_model = name, foundry = None,
     hidden = False, aliases = [], description = None, metadata = default_metadata,
     capability_support = None, pricing = None, billing_mode_override = None \<rparr>"

definition sample_profile ::
  "string \<Rightarrow> string option \<Rightarrow> region list \<Rightarrow> protocol_family
    \<Rightarrow> (protocol_family \<times> string) list \<Rightarrow> string list \<Rightarrow> provider_profile" where
  "sample_profile name grp rs fam alternates names = \<lparr>
     inference = \<lparr> iw_reasoning = None, iw_fast = None, fast_beta = None,
                    tier_response_header = None, enabled_requires_budget = None \<rparr>,
     chat_enabled = True, regions = rs, provider_id = ''p'', profile_name = name,
     base_url = '''', protocol = fam, model_list = NotPublished, auth_strategy = ApiKey,
     credential = CredNone, models = map sample_model names, service_settings = \<lambda>_. None,
     profile_pricing = \<lparr> pc_billing_mode = PerToken, peak = None \<rparr>, signing = None,
     azure = None, supports_websockets = False, supports_websocket_compression = False,
     websocket_connect_timeout_ms = None,
     connection = default_connection \<lparr> cs_group := grp, protocol_profiles := alternates \<rparr>,
     profile_info = \<lparr> pi_features = default_features, 
                      pi_pricing = \<lparr> currencies = [], units = [], dimensions = [], pricing_sources = [] \<rparr>,
                      pi_display_name = None, pi_description = None, console_url = None,
                      api_key_url = None, docs_url = None, credential_hint = None \<rparr>,
     extra = JNull \<rparr>"

lemma annotate_profile_simps [simp]:
  "profile_name (annotate_profile p) = profile_name p"
  "provider_id (annotate_profile p) = provider_id p"
  "chat_enabled (annotate_profile p) = chat_enabled p"
  "regions (annotate_profile p) = regions p"
  "protocol (annotate_profile p) = protocol p"
  "auth_strategy (annotate_profile p) = auth_strategy p"
  "credential (annotate_profile p) = credential p"
  "profile_pricing (annotate_profile p) = profile_pricing p"
  "connection (annotate_profile p) = connection p"
  "group_of (annotate_profile p) = group_of p"
  "connection_sort_key (annotate_profile p) = connection_sort_key p"
  "supports_region (annotate_profile p) r = supports_region p r"
  by (simp_all add: annotate_profile_def Let_def group_of_def connection_sort_key_def supports_region_def
      split: option.split)

lemma annotate_model_simps [simp]:
  "display_model (annotate_model f m) = display_model m"
  "request_model (annotate_model f m) = request_model m"
  "billing_model (annotate_model f m) = billing_model m"
  "aliases (annotate_model f m) = aliases m"
  "capability_support (annotate_model f m) = capability_support m"
  "billing_mode_on (annotate_model f m) pc = billing_mode_on m pc"
  "answers_to (annotate_model f m) n = answers_to m n"
  by (simp_all add: annotate_model_def billing_mode_on_def answers_to_def)

lemma models_annotate_profile:
  "models (annotate_profile p) = map (annotate_model (profile_features (iw_reasoning (inference p))
     (protocol p) (pi_features (profile_info p)))) (models p)"
  by (simp add: annotate_profile_def Let_def)

text \<open>Evaluation of a fresh snapshot: rows by filtering, profiles by position.\<close>

lemma new_snapshot_simps:
  "profiles (new_snapshot r ps trk) = map annotate_profile ps"
  "snap_region (new_snapshot r ps trk) = r"
  "tracked (new_snapshot r ps trk) = trk"
  by (simp_all add: new_snapshot_def Let_def)

lemma profile_rows_annotate [simp]:
  "profile_rows pi (annotate_profile p) n =
    (if chat_enabled p
     then map (\<lambda>(mi, m). (pi, mi)) (filter (\<lambda>(mi, m). answers_to m n) (enumerate 0 (models p)))
     else [])"
proof -
  have "map (\<lambda>(mi, m). (pi, mi)) (filter (\<lambda>(mi, m). answers_to m n) (enumerate k (map (annotate_model f) ms)))
      = map (\<lambda>(mi, m). (pi, mi)) (filter (\<lambda>(mi, m). answers_to m n) (enumerate k ms))" for k f ms
    by (induction ms arbitrary: k) auto
  then show ?thesis by (simp add: profile_rows_def models_annotate_profile)
qed

lemma rows_for_sample:
  "rows_for (new_snapshot r ps trk) n =
    concat (map (\<lambda>(pi, p). profile_rows pi p n) (enumerate 0 (map annotate_profile ps)))"
  using rows_for_new [of "new_snapshot r ps trk" r ps trk n] by (simp add: new_snapshot_simps)

lemma named_profile_sample:
  "named_profile (new_snapshot r ps trk) n =
    map_option fst (find (\<lambda>(pi, p). profile_name p = n) (rev (enumerate 0 (map annotate_profile ps))))"
  by (simp add: named_profile_def new_snapshot_def Let_def by_name_fold split: option.splits)

lemma profile_at_sample:
  "i < length ps \<Longrightarrow> profile_at (new_snapshot r ps trk) i = annotate_profile (ps ! i)"
  by (simp add: profile_at_def new_snapshot_simps)

lemma model_names_at_sample:
  assumes "i < length ps" "j < length (models (ps ! i))"
  shows "request_model (model_at (new_snapshot r ps trk) (i, j)) = request_model (models (ps ! i) ! j)"
    "display_model (model_at (new_snapshot r ps trk) (i, j)) = display_model (models (ps ! i) ! j)"
    "billing_model (model_at (new_snapshot r ps trk) (i, j)) = billing_model (models (ps ! i) ! j)"
    "capability_support (model_at (new_snapshot r ps trk) (i, j)) = capability_support (models (ps ! i) ! j)"
    "billing_mode_on (model_at (new_snapshot r ps trk) (i, j)) pc = billing_mode_on (models (ps ! i) ! j) pc"
    "answers_to (model_at (new_snapshot r ps trk) (i, j)) n = answers_to (models (ps ! i) ! j) n"
  using assms by (simp_all add: model_at_def profile_at_sample models_annotate_profile)

lemma sample_simps [simp]:
  "request_model (sample_model n) = n"
  "display_model (sample_model n) = n"
  "answers_to (sample_model n) x \<longleftrightarrow> n = x"
  "capability_support (sample_model n) = None"
  "billing_mode_on (sample_model n) pc = pc_billing_mode pc"
  "profile_name (sample_profile a g rs fam alts ns) = a"
  "provider_id (sample_profile a g rs fam alts ns) = ''p''"
  "chat_enabled (sample_profile a g rs fam alts ns)"
  "regions (sample_profile a g rs fam alts ns) = rs"
  "protocol (sample_profile a g rs fam alts ns) = fam"
  "auth_strategy (sample_profile a g rs fam alts ns) = ApiKey"
  "credential (sample_profile a g rs fam alts ns) = CredNone"
  "pc_billing_mode (profile_pricing (sample_profile a g rs fam alts ns)) = PerToken"
  "models (sample_profile a g rs fam alts ns) = map sample_model ns"
  "cs_hidden (connection (sample_profile a g rs fam alts ns)) = False"
  "default_protocol (connection (sample_profile a g rs fam alts ns)) = None"
  "protocol_profiles (connection (sample_profile a g rs fam alts ns)) = alts"
  "group_of (sample_profile a g rs fam alts ns) = (case g of Some x \<Rightarrow> x | None \<Rightarrow> a)"
  "connection_sort_key (sample_profile a g rs fam alts ns) = (0, a)"
  "supports_region (sample_profile a g rs fam alts ns) r = contains rs r"
  by (simp_all add: sample_model_def sample_profile_def answers_to_def billing_mode_on_def
      default_connection_def group_of_def connection_sort_key_def supports_region_def
      split: option.split)

text \<open>Rules that compute resolution on such a catalog.\<close>

lemmas sample_eval =
  rows_for_sample named_profile_sample profile_at_sample model_names_at_sample new_snapshot_simps
  available_def in_scope_def qualifier_selects_def names_a_connection_def
  native_matches_def qualified_matches_def sorted_names_def sort_matches_def sort_by_def
  match_key_def key_le_def siblings_of_def sibling_row_def split_once_def


definition two_wires :: "runtime_snapshot" where
  "two_wires = new_snapshot International
    [sample_profile ''a'' (Some ''g'') [International] OpenAiChat
       [(OpenAiResponses, ''b'')] [''m''],
     sample_profile ''b'' (Some ''g'') [International] OpenAiResponses [] [''m'']] None"

lemma built_new [simp]: "built (new_snapshot r ps trk)"
  by (auto simp: built_def)

lemma two_wires_built [simp]: "built two_wires"
  by (simp add: two_wires_def)

lemma two_wires_route:
  "resolve_precedence two_wires ''m'' None False = Ok (route_for two_wires (0, 0) [(1, 0)])"
proof -
  have rows: "native_matches two_wires ''m'' None = [(0, 0), (1, 0)]"
    "qualified_matches two_wires ''m'' None = []"
    by (simp_all add: two_wires_def sample_eval contains_def Let_def)
  have sibs: "siblings_of two_wires (0, 0) = [(1, 0)]"
    by (simp add: two_wires_def sample_eval contains_def Let_def List.map_filter_def)
  have order: "sort_matches two_wires True [(0, 0), (1, 0)] = [(0, 0), (1, 0)]"
    by (simp add: two_wires_def sample_eval contains_def Let_def)
  have groups: "group_of (profile_at two_wires 0) = ''g''" "group_of (profile_at two_wires 1) = ''g''"
    "profile_name (profile_at two_wires 0) = ''a''" "profile_name (profile_at two_wires 1) = ''b''"
    by (simp_all add: two_wires_def sample_eval)
  show ?thesis
    using rows sibs order groups
    by (simp add: resolve_precedence_def Let_def sorted_names_def)
qed

section \<open>Where resolution starts\<close>

lemma route_for_connections [simp]: "connections (route_for s head sibs) = head # sibs"
  by (simp add: route_for_def Let_def)

text \<open>
  A model reference that resolves on a snapshot resolves to a connection that serves it: the
  connection is enabled, supports the snapshot's region, lies in the requested scope, and has
  a model row answering to the reference itself, or to the part after the slash when the part
  before it selects that connection. The reported route names exactly that row, and the chain
  it reports is the list of the connections kept behind the head.
\<close>

theorem resolution_serves_request:
  assumes "resolve_precedence (new_snapshot r ps trk) requested scope pn = Ok res"
  shows "case connections res of
      [] \<Rightarrow> False
    | head # sibs \<Rightarrow>
        serves (new_snapshot r ps trk) requested scope head
        \<and> route_profile_name (route res) = profile_name (profile_at (new_snapshot r ps trk) (fst head))
        \<and> route_request_model (route res) = request_model (model_at (new_snapshot r ps trk) head)
        \<and> pricing_model (route res) = pricing_ref (new_snapshot r ps trk) head
        \<and> connection_chain (route res) = map (hop_of (new_snapshot r ps trk)) sibs"
proof -
  obtain head where "res = route_for (new_snapshot r ps trk) head (siblings_of (new_snapshot r ps trk) head)"
    "serves (new_snapshot r ps trk) requested scope head"
    using resolve_head_serves [OF built_new assms] by blast
  then show ?thesis by (simp add: route_for_def Let_def)
qed

theorem resolution_serves_request_witness:
  "serves two_wires ''m'' None (0, 0)"
  using resolution_serves_request [OF two_wires_route [unfolded two_wires_def]]
  by (simp add: two_wires_def)

text \<open>
  C20. Every connection of the failover chain may stand in for the head: it is available in the
  region, belongs to the head's group under another profile name, sends the same wire model,
  bills the row the same way, and neither side uses the plan whose tokens are bound to one
  account. The chain is ordered by the connections' order and name.
\<close>

theorem failover_chain_may_replace:
  assumes "resolve_precedence (new_snapshot r ps trk) requested scope pn = Ok res"
  shows "list_all (may_replace (new_snapshot r ps trk) (hd (connections res))) (tl (connections res))
    \<and> sorted_wrt (\<lambda>a b. key_le (match_key (new_snapshot r ps trk) False a)
                               (match_key (new_snapshot r ps trk) False b)) (tl (connections res))"
proof -
  obtain head where "res = route_for (new_snapshot r ps trk) head (siblings_of (new_snapshot r ps trk) head)"
    using resolve_head_serves [OF built_new assms] by blast
  then show ?thesis using siblings_facts [OF built_new] by simp
qed

theorem failover_chain_may_replace_witness: "may_replace two_wires (0, 0) (1, 0)"
  using failover_chain_may_replace [OF two_wires_route [unfolded two_wires_def]]
  by (simp add: two_wires_def)

text \<open>The rows resolution chooses among: the native ones, and the qualified ones when there are none.\<close>

definition candidates :: "runtime_snapshot \<Rightarrow> string \<Rightarrow> string option \<Rightarrow> (nat \<times> nat) list" where
  "candidates s requested scope =
    (if native_matches s requested scope = [] then qualified_matches s requested scope
     else native_matches s requested scope)"

lemma hd_sorted_least:
  assumes "rows \<noteq> []" "row \<in> set rows"
  shows "key_le (match_key s v (hd (sort_matches s v rows))) (match_key s v row)"
proof -
  have sorted: "sorted_wrt (\<lambda>a b. key_le (match_key s v a) (match_key s v b)) (sort_matches s v rows)"
    by (simp add: sort_matches_def match_order.sort_by_sorted)
  have mem: "row \<in> set (sort_matches s v rows)" using assms(2) by (simp add: sort_matches_def)
  then obtain x xs where xs: "sort_matches s v rows = x # xs" by (cases "sort_matches s v rows") auto
  then have "row = x \<or> row \<in> set xs" using mem by simp
  moreover have "key_le (match_key s v x) (match_key s v x)"
    using match_order.le_total [of s v x x] by simp
  ultimately show ?thesis using sorted xs by auto
qed

lemma length_le_1_all_eq: "length xs \<le> 1 \<Longrightarrow> x \<in> set xs \<Longrightarrow> y \<in> set xs \<Longrightarrow> x = y"
  by (cases xs) (auto simp: Suc_le_eq)

lemma set_sorted_names [simp]: "set (sorted_names xs) = set xs"
  by (simp add: sorted_names_def)

text \<open>
  An answer is never a guess: all rows a resolved reference could mean belong to the group of
  the connection chosen, that connection is the least of them in the ordering by visibility (for
  an unscoped reference), declared order and profile name, and for an unscoped reference with
  both a native and a qualified reading the two readings agree on it.
\<close>

theorem resolution_unambiguous:
  assumes "resolve_precedence s requested scope False = Ok res"
  shows "let head = hd (connections res) in
    head \<in> set (candidates s requested scope)
    \<and> list_all (\<lambda>row. group_of (profile_at s (fst row)) = group_of (profile_at s (fst head))
          \<and> key_le (match_key s (scope = None) head) (match_key s (scope = None) row))
        (candidates s requested scope)
    \<and> (if scope = None \<and> native_matches s requested scope \<noteq> []
          \<and> qualified_matches s requested scope \<noteq> []
       then hd (sort_matches s True (qualified_matches s requested scope)) = head else True)"
proof -
  define rows where "rows = candidates s requested scope"
  have parts: "rows \<noteq> []"
    "length (sorted_names (map (\<lambda>row. group_of (profile_at s (fst row))) rows)) \<le> 1"
    "connections res = hd (sort_matches s (scope = None) rows)
        # siblings_of s (hd (sort_matches s (scope = None) rows))"
    "scope = None \<and> native_matches s requested scope \<noteq> [] \<and> qualified_matches s requested scope \<noteq> []
      \<Longrightarrow> hd (sort_matches s True (native_matches s requested scope))
        = hd (sort_matches s True (qualified_matches s requested scope))"
    using assms
    by (auto simp: resolve_precedence_def Let_def rows_def candidates_def not_less
        split: if_splits option.splits)
  define head where "head = hd (sort_matches s (scope = None) rows)"
  have mem: "head \<in> set rows" using sort_matches_hd [OF parts(1)] by (simp add: head_def)
  have grp: "group_of (profile_at s (fst row)) = group_of (profile_at s (fst head))"
    if "row \<in> set rows" for row
    by (rule length_le_1_all_eq [OF parts(2)]) (use that mem in auto)
  have least: "key_le (match_key s (scope = None) head) (match_key s (scope = None) row)"
    if "row \<in> set rows" for row
    using hd_sorted_least [OF parts(1) that] by (simp add: head_def)
  have agree: "scope = None \<and> native_matches s requested scope \<noteq> [] \<and> qualified_matches s requested scope \<noteq> []
      \<Longrightarrow> hd (sort_matches s True (qualified_matches s requested scope)) = head"
    using parts(4) by (auto simp: head_def rows_def candidates_def)
  have all: "list_all (\<lambda>row. group_of (profile_at s (fst row)) = group_of (profile_at s (fst head))
      \<and> key_le (match_key s (scope = None) head) (match_key s (scope = None) row)) rows"
    unfolding list_all_iff using grp least by blast
  have "hd (connections res) = head" using parts(3) by (simp add: head_def)
  moreover have "if scope = None \<and> native_matches s requested scope \<noteq> []
          \<and> qualified_matches s requested scope \<noteq> []
       then hd (sort_matches s True (qualified_matches s requested scope)) = head else True"
    using agree by (simp only: if_split [of "\<lambda>b. b"]) blast
  ultimately show ?thesis
    using mem all unfolding rows_def by (simp only: Let_def simp_thms)
qed

theorem resolution_unambiguous_witness:
  "(0, 0) \<in> set (candidates two_wires ''m'' None)"
  using resolution_unambiguous [OF two_wires_route] by (simp add: Let_def)

section \<open>Wire formats\<close>

lemma promote_head_0:
  "promote_head s r 0 =
    (case connections r of
       [] \<Rightarrow> Err IndexPanic
     | head # sibs \<Rightarrow> Ok \<lparr> route = \<lparr>
         route_provider_id = provider_id (profile_at s (fst head)),
         route_profile_name = profile_name (profile_at s (fst head)),
         route_request_model = request_model (model_at s head),
         route_display_model = display_model (model_at s head),
         pricing_model = pricing_ref s head,
         route_capability_support =
           (case capability_support (model_at s head) of Some c \<Rightarrow> c | None \<Rightarrow> default_capability_support),
         connection_chain = map (hop_of s) sibs,
         route_failover = failover (connection (profile_at s (fst head))) \<rparr>,
       connections = head # sibs \<rparr>)"
  by (auto simp: promote_head_def Let_def split: list.splits)

text \<open>A route whose report matches the rows it holds, all of one wire format.\<close>

definition aligned :: "runtime_snapshot \<Rightarrow> protocol_family \<Rightarrow> request_route \<Rightarrow> bool" where
  "aligned s fam r =
    (case connections r of
       [] \<Rightarrow> False
     | head # sibs \<Rightarrow>
         list_all (\<lambda>row. protocol (profile_at s (fst row)) = fam) (head # sibs)
         \<and> r = route_for s head sibs)"

lemma promote_retained:
  "promote_head s (retain_protocol s fam r) 0 = Ok r' \<Longrightarrow> aligned s fam r'"
  "promote_head s (retain_protocol s fam r) 0 = Ok r' \<Longrightarrow>
     connections r' = filter (\<lambda>c. protocol (profile_at s (fst c)) = fam) (connections r)"
proof -
  assume ok: "promote_head s (retain_protocol s fam r) 0 = Ok r'"
  define conns where "conns = filter (\<lambda>c. protocol (profile_at s (fst c)) = fam) (connections r)"
  have eq: "connections (retain_protocol s fam r) = conns" by (simp add: retain_protocol_def conns_def)
  obtain head sibs where hs: "conns = head # sibs"
    using ok by (cases conns) (simp_all add: promote_head_0 eq)
  have r': "r' = route_for s head sibs"
    using ok by (simp add: promote_head_0 eq hs route_for_def Let_def)
  have "list_all (\<lambda>row. protocol (profile_at s (fst row)) = fam) conns"
    by (auto simp: conns_def list_all_iff)
  then show "aligned s fam r'" by (simp add: aligned_def r' hs)
  show "connections r' = filter (\<lambda>c. protocol (profile_at s (fst c)) = fam) (connections r)"
    using r' hs by (simp add: conns_def)
qed

lemma alternate_aligned:
  "resolve_alternate s pi model fam = Ok r \<Longrightarrow> aligned s fam r"
  by (auto simp: resolve_alternate_def Let_def dest: promote_retained(1)
      split: option.splits if_splits sum.splits)

text \<open>
  Selecting a wire format is never half done. When resolution with a requested format, or with
  the account's default format, answers, every connection it kept speaks one format, a requested
  format is that format, and the reported route, price reference, capability facts and chain
  are recomputed for the connections actually kept.
\<close>

theorem protocol_selection_sound:
  assumes "resolve_with_protocol s requested scope wanted = Ok r"
  shows "aligned s (case wanted of Some f \<Rightarrow> f
      | None \<Rightarrow> protocol (profile_at s (fst (hd (connections r))))) r"
proof -
  obtain f where f: "aligned s f r" "case wanted of Some g \<Rightarrow> f = g | None \<Rightarrow> True"
    using assms
    by (auto simp: resolve_with_protocol_def Let_def or_keep_def
        dest!: promote_retained(1) alternate_aligned
        split: sum.splits resolve_error.splits option.splits if_splits)
  then show ?thesis
    by (cases wanted) (auto simp: aligned_def split: list.splits)
qed

text \<open>
  The declared targets of alternate formats: profile names are unique, and a declared target that
  exists supports the region of the snapshot.
\<close>

definition targets_available :: "region \<Rightarrow> provider_profile list \<Rightarrow> bool" where
  "targets_available r ps \<longleftrightarrow>
    distinct (map profile_name ps)
    \<and> list_all (\<lambda>p. list_all (\<lambda>(fam, name).
          list_all (\<lambda>q. profile_name q = name \<longrightarrow> supports_region q r) ps)
        (protocol_profiles (connection p))) ps"

lemma snapshot_name_unique:
  assumes "distinct (map profile_name ps)" "i < length ps" "j < length ps"
    "profile_name (profile_at (new_snapshot r ps trk) i) = profile_name (profile_at (new_snapshot r ps trk) j)"
  shows "i = j"
  using assms by (simp add: profile_at_sample distinct_conv_nth) blast

lemma named_target:
  assumes "targets_available r ps" "pi < length ps"
    "map_of (protocol_profiles (connection (profile_at (new_snapshot r ps trk) pi))) fam = Some name"
    "named_profile (new_snapshot r ps trk) name = Some ti"
  shows "ti < length ps" "profile_name (profile_at (new_snapshot r ps trk) ti) = name"
    "available (new_snapshot r ps trk) ti"
proof -
  have ti: "ti < length ps" "profile_name (profile_at (new_snapshot r ps trk) ti) = name"
    using named_profile_facts [OF built_new assms(4)] by (simp_all add: new_snapshot_simps)
  have "(fam, name) \<in> set (protocol_profiles (connection (ps ! pi)))"
    using assms(2,3) by (simp add: profile_at_sample map_of_SomeD)
  moreover have "ps ! pi \<in> set ps" "ps ! ti \<in> set ps" using assms(2) ti(1) by simp_all
  ultimately have "supports_region (ps ! ti) r"
    using assms(1) ti by (fastforce simp: targets_available_def list_all_iff profile_at_sample)
  then show "ti < length ps" "profile_name (profile_at (new_snapshot r ps trk) ti) = name"
    "available (new_snapshot r ps trk) ti"
    using ti by (simp_all add: available_def profile_at_sample new_snapshot_simps)
qed

text \<open>The head found for the name of an available target is that target.\<close>

lemma scoped_head:
  assumes "targets_available r ps" "pi < length ps"
    "map_of (protocol_profiles (connection (profile_at (new_snapshot r ps trk) pi))) fam = Some name"
    "named_profile (new_snapshot r ps trk) name = Some ti"
    "resolve_precedence (new_snapshot r ps trk) model (Some name) True = Ok sel"
  shows "\<exists>sibs mi. connections sel = (ti, mi) # sibs"
proof -
  let ?s = "new_snapshot r ps trk"
  note target = named_target [OF assms(1-4)]
  obtain head where head: "sel = route_for ?s head (siblings_of ?s head)" "serves ?s model (Some name) head"
    using resolve_head_serves [OF built_new assms(5)] by blast
  have "names_a_connection ?s name"
    using assms(4) target by (simp add: names_a_connection_def)
  then have "profile_name (profile_at ?s (fst head)) = name" and "fst head < length ps"
    using head(2) by (simp_all add: serves_def qualifier_selects_def new_snapshot_simps)
  then have "fst head = ti"
    using target assms(1) snapshot_name_unique [of ps "fst head" ti r trk]
    by (simp add: targets_available_def)
  then have "connections sel = (ti, snd head) # siblings_of ?s head"
    using head(1) by (simp add: prod_eq_iff)
  then show ?thesis by blast
qed

lemma alternate_result:
  assumes "targets_available r ps" "pi < length ps"
  shows "resolve_alternate (new_snapshot r ps trk) pi model fam \<noteq> Err IndexPanic"
    "resolve_alternate (new_snapshot r ps trk) pi model fam = Ok res \<Longrightarrow>
      provider_id (profile_at (new_snapshot r ps trk) (fst (hd (connections res))))
        = provider_id (profile_at (new_snapshot r ps trk) pi)
      \<and> credential (profile_at (new_snapshot r ps trk) (fst (hd (connections res))))
        = credential (profile_at (new_snapshot r ps trk) pi)
      \<and> pc_billing_mode (profile_pricing (profile_at (new_snapshot r ps trk) (fst (hd (connections res)))))
        = pc_billing_mode (profile_pricing (profile_at (new_snapshot r ps trk) pi))"
proof -
  let ?s = "new_snapshot r ps trk"
  have kept: "\<exists>mi sibs. connections (retain_protocol ?s fam sel) = (ti, mi) # sibs"
    if "map_of (protocol_profiles (connection (profile_at ?s pi))) fam = Some name"
      "named_profile ?s name = Some ti" "protocol (profile_at ?s ti) = fam"
      "resolve_precedence ?s model (Some name) True = Ok sel" for name ti sel
    using scoped_head [OF assms that(1,2,4)] that(3) by (auto simp: retain_protocol_def)
  show "resolve_alternate ?s pi model fam \<noteq> Err IndexPanic"
    using kept by (fastforce simp: resolve_alternate_def Let_def promote_head_0
        split: option.splits if_splits sum.splits list.splits)
  show "provider_id (profile_at ?s (fst (hd (connections res)))) = provider_id (profile_at ?s pi)
      \<and> credential (profile_at ?s (fst (hd (connections res)))) = credential (profile_at ?s pi)
      \<and> pc_billing_mode (profile_pricing (profile_at ?s (fst (hd (connections res)))))
        = pc_billing_mode (profile_pricing (profile_at ?s pi))"
    if "resolve_alternate ?s pi model fam = Ok res"
    using kept that by (fastforce simp: resolve_alternate_def Let_def promote_head_0
        split: option.splits if_splits sum.splits list.splits)
qed

text \<open>
  C1. Resolution never indexes past the connections it kept. On a snapshot whose profile names
  are unique and whose declared format targets all support the region, no reference, scope or
  requested format makes \<^verbatim>\<open>promote_head(0)\<close> remove from an empty list: the outcome is a route
  or one of the documented resolution errors.
\<close>

theorem resolution_never_panics:
  assumes "targets_available r ps"
  shows "resolve_with_protocol (new_snapshot r ps trk) requested scope wanted \<noteq> Err IndexPanic"
proof -
  let ?s = "new_snapshot r ps trk"
  have unknown: "resolve_alternate ?s pi model fam \<noteq> Err IndexPanic"
    if "named_profile ?s name = Some pi" for name pi model fam
    using alternate_result(1) [OF assms] named_profile_facts(1) [OF built_new that]
    by (simp add: new_snapshot_simps)
  show ?thesis
  proof (cases "resolve_precedence ?s requested scope False")
    case (Inl e)
    then show ?thesis
      using unknown
      by (cases e)
         (auto simp: resolve_with_protocol_def Let_def bind_eq_Some_conv split: option.splits)
  next
    case (Inr source)
    obtain head where head: "source = route_for ?s head (siblings_of ?s head)" "serves ?s requested scope head"
      using resolve_head_serves [OF built_new Inr] by blast
    then have "fst head < length ps" by (simp add: serves_def new_snapshot_simps)
    then have "resolve_alternate ?s (fst head) model fam \<noteq> Err IndexPanic" for model fam
      using alternate_result(1) [OF assms] by blast
    then show ?thesis
      using head(1) Inr
      by (simp add: resolve_with_protocol_def Let_def promote_head_0 retain_protocol_def)
  qed
qed

theorem resolution_never_panics_witness:
  "resolve_with_protocol two_wires ''m'' (Some ''a'') (Some OpenAiResponses) \<noteq> Err IndexPanic"
  using resolution_never_panics [of International
      "[sample_profile ''a'' (Some ''g'') [International] OpenAiChat [(OpenAiResponses, ''b'')] [''m''],
        sample_profile ''b'' (Some ''g'') [International] OpenAiResponses [] [''m'']]"
      None "''m''" "Some ''a''" "Some OpenAiResponses"]
  by (simp add: two_wires_def targets_available_def contains_def)


lemma two_wires_alternate:
  "resolve_alternate two_wires 0 ''m'' OpenAiResponses = Ok (route_for two_wires (1, 0) [])"
proof -
  have rows: "native_matches two_wires ''m'' (Some ''b'') = [(1, 0)]"
    "qualified_matches two_wires ''m'' (Some ''b'') = []"
    by (simp_all add: two_wires_def sample_eval contains_def Let_def)
  have sibs: "siblings_of two_wires (1, 0) = [(0, 0)]"
    by (simp add: two_wires_def sample_eval contains_def Let_def List.map_filter_def)
  have order: "sort_matches two_wires v [(1, 0)] = [(1, 0)]" for v
    by (simp add: sort_matches_def sort_by_def)
  have prec: "resolve_precedence two_wires ''m'' (Some ''b'') True = Ok (route_for two_wires (1, 0) [(0, 0)])"
    using rows sibs order by (simp add: resolve_precedence_def Let_def sorted_names_def)
  have at: "profile_at two_wires 0 = annotate_profile (sample_profile ''a'' (Some ''g'')
      [International] OpenAiChat [(OpenAiResponses, ''b'')] [''m''])"
    "profile_at two_wires 1 = annotate_profile (sample_profile ''b'' (Some ''g'')
      [International] OpenAiResponses [] [''m''])"
    by (simp_all add: two_wires_def profile_at_sample)
  have named: "named_profile two_wires ''b'' = Some 1"
    by (simp add: two_wires_def sample_eval)
  have "promote_head two_wires
      (retain_protocol two_wires OpenAiResponses (route_for two_wires (1, 0) [(0, 0)])) 0
      = Ok (route_for two_wires (1, 0) [])"
    using at by (simp add: promote_head_0 retain_protocol_def route_for_def Let_def)
  then show ?thesis using prec at named by (simp add: resolve_alternate_def Let_def)
qed


theorem protocol_selection_sound_witness:
  "aligned two_wires OpenAiChat (route_for two_wires (0, 0) [])"
proof -
  have at: "profile_at two_wires 0 = annotate_profile (sample_profile ''a'' (Some ''g'')
      [International] OpenAiChat [(OpenAiResponses, ''b'')] [''m''])"
    "profile_at two_wires 1 = annotate_profile (sample_profile ''b'' (Some ''g'')
      [International] OpenAiResponses [] [''m''])"
    by (simp_all add: two_wires_def profile_at_sample)
  have "resolve_with_protocol two_wires ''m'' None (Some OpenAiChat) = Ok (route_for two_wires (0, 0) [])"
    using at by (simp add: resolve_with_protocol_def two_wires_route Let_def or_keep_def
        promote_head_0 retain_protocol_def route_for_def)
  from protocol_selection_sound [OF this] show ?thesis by simp
qed

text \<open>
  C1. Declared targets that do not support the region matter. The alternate format of profile \<open>a\<close>
  is declared on \<open>b\<close>, whose region differs; the name \<open>b\<close> then falls back to the group of
  that name, whose only connection speaks another format, and the selection that follows
  removes the head of an empty list: the request panics instead of answering with an error.
\<close>

theorem unavailable_target_panics:
  "resolve_with_protocol
     (new_snapshot International
        [sample_profile ''a'' None [International] OpenAiChat [(OpenAiResponses, ''b'')] [''m''],
         sample_profile ''b'' None [ChinaMainland] OpenAiResponses [] [''m''],
         sample_profile ''c'' (Some ''b'') [International] OpenAiChat [] [''m'']] None)
     ''m'' (Some ''a'') (Some OpenAiResponses)
   = Err IndexPanic"
proof -
  define s where "s = new_snapshot International
        [sample_profile ''a'' None [International] OpenAiChat [(OpenAiResponses, ''b'')] [''m''],
         sample_profile ''b'' None [ChinaMainland] OpenAiResponses [] [''m''],
         sample_profile ''c'' (Some ''b'') [International] OpenAiChat [] [''m'']] None"
  have at: "profile_at s 0 = annotate_profile
        (sample_profile ''a'' None [International] OpenAiChat [(OpenAiResponses, ''b'')] [''m''])"
    "profile_at s 1 = annotate_profile (sample_profile ''b'' None [ChinaMainland] OpenAiResponses [] [''m''])"
    "profile_at s 2 = annotate_profile (sample_profile ''c'' (Some ''b'') [International] OpenAiChat [] [''m''])"
    by (simp_all add: s_def profile_at_sample)
  have rows: "native_matches s ''m'' (Some ''a'') = [(0, 0)]" "native_matches s ''m'' (Some ''b'') = [(2, 0)]"
    "qualified_matches s ''m'' scope = []" for scope
    by (simp_all add: s_def sample_eval contains_def Let_def)
  have sibs: "siblings_of s (0, 0) = []" "siblings_of s (2, 0) = []"
    by (simp_all add: s_def sample_eval contains_def Let_def List.map_filter_def)
  have one: "sort_matches s v [x] = [x]" for v x by (simp add: sort_matches_def sort_by_def)
  have prec: "resolve_precedence s ''m'' (Some ''a'') False = Ok (route_for s (0, 0) [])"
    "resolve_precedence s ''m'' (Some ''b'') True = Ok (route_for s (2, 0) [])"
    using rows sibs one by (simp_all add: resolve_precedence_def Let_def sorted_names_def)
  have named: "named_profile s ''b'' = Some 1" by (simp add: s_def sample_eval)
  have model: "request_model (model_at s (0, 0)) = ''m''" by (simp add: s_def sample_eval)
  have "resolve_alternate s 0 ''m'' OpenAiResponses = Err IndexPanic"
    using at named prec by (simp add: resolve_alternate_def Let_def promote_head_0 retain_protocol_def)
  then show ?thesis
    using prec(1) at model
    by (simp add: s_def [symmetric] resolve_with_protocol_def Let_def or_keep_def route_for_def)
qed

end
