(* ===== verification/Output_Budget.thy ===== *)
theory Output_Budget
  imports Resolution Usage_Report
begin

text \<open>
  The output budget of one attempt: published limits, application defaults for
  recognised Claude models, the clamp to the model's ceiling, the bound on
  automatic thinking, and the increase computed after a truncated response
  (\<^verbatim>\<open>src/client/output_budget.rs\<close>, and the budget fields of a raw
  body from \<^verbatim>\<open>src/client/executor.rs\<close>).

  A chat request is modelled by the two fields the policy reads and writes; the
  others are the opaque \<open>cr_rest\<close>.  URL parsing is a library of the program:
  \<open>host_of\<close> stands for \<^verbatim>\<open>Url::parse(..).ok()?.host_str()\<close>.
\<close>

section \<open>Published limits\<close>

record output_token_limits =
  context_window :: "u64 option"
  limit_output_tokens :: "u64 option"

definition limits_from_metadata :: "model_metadata \<Rightarrow> output_token_limits" where
  "limits_from_metadata m =
    \<lparr> context_window = filter_option (\<lambda>n. 0 < n) (context_window_tokens m),
      limit_output_tokens = filter_option (\<lambda>n. 0 < n) (max_output_tokens m) \<rparr>"

definition limits_budget :: "output_token_limits \<Rightarrow> u32 option \<Rightarrow> u64 \<Rightarrow> u64 \<Rightarrow> u32 option" where
  "limits_budget limits requested input_count headroom =
    map_option (\<lambda>n. case limit_output_tokens limits of
        None \<Rightarrow> n
      | Some cap \<Rightarrow> ucast (min (min (ucast n :: u64) cap) (ucast (- 1 :: u32)))) requested"

datatype output_budget_source =
    ProviderDefault | ApplicationDefault | ClampedApplicationDefault | ExplicitBudget | ClampedExplicit

record resolved_output_budget =
  ob_value :: "u32 option"
  ob_source :: output_budget_source
  ob_maximum :: "u64 option"

section \<open>Application defaults\<close>

definition claude_families :: "(string \<times> u32) list" where
  "claude_families = [
     (''sonnet-5-5'', 128000), (''haiku-5-5'', 128000), (''fable-5-1'', 128000),
     (''fable-5'', 128000), (''mythos-5-1'', 128000), (''opus-5-5'', 128000),
     (''opus-5'', 128000), (''sonnet-5'', 128000), (''opus-4-8'', 64000),
     (''opus-4-7'', 64000), (''opus-4-6'', 64000), (''sonnet-4-6'', 32000),
     (''sonnet-4-5'', 32000), (''opus-4-5'', 32000), (''opus-4-1'', 32000),
     (''haiku-4-5'', 32000), (''opus-4'', 32000), (''sonnet-4'', 32000),
     (''haiku-4'', 32000), (''3-7-sonnet'', 32000), (''3-5-sonnet'', 8192),
     (''3-5-haiku'', 8192), (''3-opus'', 4096), (''3-sonnet'', 8192), (''3-haiku'', 4096)]"

definition ascii_lower :: "char \<Rightarrow> char" where
  "ascii_lower c = (if 65 \<le> (of_char c :: nat) \<and> (of_char c :: nat) \<le> 90
                    then char_of (of_char c + 32 :: nat) else c)"

fun after_first :: "string \<Rightarrow> string \<Rightarrow> string option" where
  "after_first sep [] = (if sep = [] then Some [] else None)"
| "after_first sep (c # s) =
    (case strip_prefix sep (c # s) of Some rest \<Rightarrow> Some rest | None \<Rightarrow> after_first sep s)"

definition dated_suffix :: "string \<Rightarrow> bool" where
  "dated_suffix suffix =
    (case strip_prefix ''-'' suffix of
       None \<Rightarrow> False
     | Some v \<Rightarrow> 8 \<le> length v \<and> list_all is_digit (take 8 v) \<and> starts_with v ''20'')"

definition family_default :: "string \<Rightarrow> string \<times> u32 \<Rightarrow> u32 option" where
  "family_default tail fv =
    (case strip_prefix (fst fv) tail of
       None \<Rightarrow> None
     | Some suffix \<Rightarrow>
         if suffix = [] \<or> dated_suffix suffix \<or> suffix = ''-latest''
            \<or> starts_with suffix ''[1m]'' \<or> starts_with suffix ''-v''
         then Some (snd fv) else None)"

fun first_some :: "('a \<Rightarrow> 'b option) \<Rightarrow> 'a list \<Rightarrow> 'b option" where
  "first_some f [] = None"
| "first_some f (x # xs) = (case f x of Some y \<Rightarrow> Some y | None \<Rightarrow> first_some f xs)"

definition claude_application_output_default :: "string \<Rightarrow> u32 option" where
  "claude_application_output_default model =
    Option.bind
      (after_first ''claude-'' (map (\<lambda>c. if c = CHR ''.'' then CHR ''-'' else c) (map ascii_lower model)))
      (\<lambda>tail. first_some (family_default tail) claude_families)"

section \<open>Resolution of the budget\<close>

definition invalid :: "string \<Rightarrow> llm_error" where
  "invalid reason = InvalidRequest [Lit reason]"

definition claude_protocol :: "protocol_family \<Rightarrow> bool" where
  "claude_protocol p = (p = AnthropicMessages \<or> p = VertexClaude \<or> p = BedrockClaude \<or> p = FoundryClaude)"

definition native_chatgpt :: "provider_profile \<Rightarrow> bool" where
  "native_chatgpt p = (auth_strategy p = ChatGptOAuth \<or> auth_strategy p = ChatGptPlan)"

definition clamp :: "u64 option \<Rightarrow> u32 \<Rightarrow> u32" where
  "clamp maximum v = (case maximum of None \<Rightarrow> v | Some cap \<Rightarrow> ucast (min (ucast v :: u64) cap))"

definition resolve_output_budget ::
  "provider_profile \<Rightarrow> string \<Rightarrow> u32 option \<Rightarrow> llm_error + resolved_output_budget" where
  "resolve_output_budget p model requested =
    (let rows = filter (\<lambda>row. request_model row = model) (models p);
         selected = (case rows of [] \<Rightarrow> None | row # _ \<Rightarrow> Some row);
         maximum = filter_option (\<lambda>n. 0 < n)
                     (Option.bind selected (\<lambda>row. max_output_tokens (metadata row))) in
     if 1 < length rows
     then Err (invalid ''output budget requires one exact selected model catalog row'')
     else if requested \<noteq> None \<and> protocol p = OpenAiResponses \<and> native_chatgpt p
     then Err (UnsupportedCapability
            [Lit ''the native ChatGPT Responses endpoint does not accept a hard output budget''])
     else
       (case requested of
          Some v \<Rightarrow>
            if v = 0 then Err (invalid ''output budget must be positive'')
            else Ok \<lparr> ob_value = Some (clamp maximum v),
                      ob_source = (if v = clamp maximum v then ExplicitBudget else ClampedExplicit),
                      ob_maximum = maximum \<rparr>
        | None \<Rightarrow>
            (let application_default =
                   Option.bind selected (\<lambda>row. application_output_tokens (metadata row));
                 required = claude_protocol (protocol p);
                 identity = (case Option.bind selected foundry of
                               Some deployment \<Rightarrow> model_id deployment | None \<Rightarrow> model) in
             if \<not> required \<and> application_default = None
             then Ok \<lparr> ob_value = None, ob_source = ProviderDefault, ob_maximum = maximum \<rparr>
             else if protocol p = OpenAiResponses \<and> native_chatgpt p
             then Err (UnsupportedCapability
               [Lit ''the native ChatGPT Responses endpoint does not accept an application output budget''])
             else
               (case or_keep application_default
                       (if required then claude_application_output_default identity else None) of
                  None \<Rightarrow> Err (invalid ''this Messages model requires an explicit output budget or metadata.applicationOutputTokens'')
                | Some v \<Rightarrow>
                    if v = 0 then Err (invalid ''application output default must be positive'')
                    else Ok \<lparr> ob_value = Some (clamp maximum v),
                              ob_source = (if clamp maximum v = v then ApplicationDefault
                                           else ClampedApplicationDefault),
                              ob_maximum = maximum \<rparr>))))"

section \<open>Automatic thinking\<close>

record 'r chat_request =
  max_tokens :: "u32 option"
  cr_thinking :: "thinking_config option"
  cr_rest :: 'r

definition min_manual_thinking_tokens :: u32 where
  "min_manual_thinking_tokens = 1024"

definition bound_automatic_thinking :: "protocol_family \<Rightarrow> 'r chat_request \<Rightarrow> 'r chat_request" where
  "bound_automatic_thinking p req =
    (case cr_thinking req of
       None \<Rightarrow> req
     | Some t \<Rightarrow>
         (case tc_budget t of
            Some (Tokens tokens) \<Rightarrow>
              if tokens = 0 \<or> tc_mode t = Some Adaptive \<or> tc_mode t = Some Disabled then req
              else if \<not> claude_protocol p
                   \<or> (case max_tokens req of Some out \<Rightarrow> out \<le> min_manual_thinking_tokens | None \<Rightarrow> False)
              then req \<lparr> cr_thinking := map_option
                     (\<lambda>e. \<lparr> tc_mode = None, tc_budget = None, tc_effort = Some e \<rparr>) (tc_effort t) \<rparr>
              else
                (case max_tokens req of
                   Some out \<Rightarrow> req \<lparr> cr_thinking := Some (t \<lparr> tc_budget := Some (Tokens (min tokens (out - 1))) \<rparr>) \<rparr>
                 | None \<Rightarrow> req)
          | _ \<Rightarrow> req))"

datatype request_mode = CompleteMode | StreamMode | CountTokensMode

text \<open>The parts of a \<^verbatim>\<open>CodecContext\<close> the policy reads.\<close>

record codec_context =
  ctx_profile :: provider_profile
  ctx_request_model :: string
  ctx_mode :: request_mode

text \<open>The fields of a raw body that state a budget, each of which must be a positive integer.\<close>

definition budget_pointers :: "(string \<times> string) list" where
  "budget_pointers = [
     (''/max_tokens'', ''max_tokens''),
     (''/max_completion_tokens'', ''max_completion_tokens''),
     (''/max_output_tokens'', ''max_output_tokens''),
     (''/generationConfig/maxOutputTokens'', ''generationConfig.maxOutputTokens''),
     (''/generation_config/max_output_tokens'', ''generation_config.max_output_tokens'')]"

fun collect_budgets ::
  "json \<Rightarrow> (string \<times> string) list \<Rightarrow> (string \<times> u64) list \<Rightarrow> llm_error + (string \<times> u64) list" where
  "collect_budgets body [] found = Ok found"
| "collect_budgets body ((path, key) # ps) found =
    (case pointer body path of
       None \<Rightarrow> collect_budgets body ps found
     | Some v \<Rightarrow>
         (case filter_option (\<lambda>n. 0 < n) (as_u64 v) of
            None \<Rightarrow> Err (invalid ''output budget field must be a positive integer'')
          | Some n \<Rightarrow> collect_budgets body ps (obj_insert key n found)))"

definition generation_budget_fields :: "json \<Rightarrow> llm_error + (string \<times> u64) list" where
  "generation_budget_fields body = collect_budgets body budget_pointers []"

definition resolve_request_budget ::
  "'r chat_request \<Rightarrow> codec_context \<Rightarrow> bool
    \<Rightarrow> llm_error + 'r chat_request \<times> resolved_output_budget option" where
  "resolve_request_budget req ctx automatic =
    (if ctx_mode ctx = CountTokensMode then Ok (req, None)
     else
       bind_result
         (case jget (extra (ctx_profile ctx)) ''body'' of
            None \<Rightarrow> Ok []
          | Some body \<Rightarrow> generation_budget_fields body)
         (\<lambda>_. bind_result
           (resolve_output_budget (ctx_profile ctx) (ctx_request_model ctx) (max_tokens req))
           (\<lambda>resolved.
              let req1 = req \<lparr> max_tokens := ob_value resolved \<rparr>;
                  req2 = (if automatic
                          then bound_automatic_thinking (protocol (ctx_profile ctx)) req1 else req1) in
              Ok (req2, Some resolved))))"

section \<open>Recovery after a truncated response\<close>

definition saturating_mul :: "u64 \<Rightarrow> u64 \<Rightarrow> u64" where
  "saturating_mul a b = (if unat a * unat b < 2 ^ 64 then a * b else - 1)"

definition documented_total :: "string \<Rightarrow> string \<Rightarrow> bool" where
  "documented_total pid host =
    ((pid = ''deepseek'' \<and> host = ''api.deepseek.com'')
     \<or> (pid = ''anthropic'' \<and> host = ''api.anthropic.com'')
     \<or> ((pid = ''openai'' \<or> pid = ''open_ai'') \<and> host = ''api.openai.com'')
     \<or> (pid = ''kimi'' \<and> (host = ''api.moonshot.cn'' \<or> host = ''api.moonshot.ai'' \<or> host = ''api.kimi.com''))
     \<or> (pid = ''minimax'' \<and> (host = ''api.minimax.io'' \<or> host = ''api.minimax.chat'')))"

definition increased_budget ::
  "model_metadata \<Rightarrow> usage \<Rightarrow> u64 \<Rightarrow> u64 option \<Rightarrow> u64 option \<Rightarrow> u32 option" where
  "increased_budget m counts cap issued effective_context =
    (let base = max (case issued of Some v \<Rightarrow> v | None \<Rightarrow> output_tokens counts) (output_tokens counts);
         ceiling = min (min (saturating_mul base 2) cap) (ucast (- 1 :: u32));
         shared = Option.bind (mm_context m) shared_window;
         target = (case filter_option (\<lambda>_. shared \<noteq> Some False)
                          (or_keep effective_context (context_window_tokens m)) of
                     None \<Rightarrow> ceiling
                   | Some window \<Rightarrow>
                       let used = saturating_add (saturating_add (input_tokens counts)
                                    (cache_read_tokens counts)) (cache_write_tokens counts) in
                       min ceiling (saturating_sub (saturating_sub window used) 1024)) in
     if base < target \<and> 0 < output_tokens counts then Some (ucast target) else None)"

definition recovery_output_budget ::
  "(string \<Rightarrow> string option) \<Rightarrow> provider_profile \<Rightarrow> string \<Rightarrow> usage_report
    \<Rightarrow> u64 option \<Rightarrow> u64 option \<Rightarrow> u32 option" where
  "recovery_output_budget host_of p model measured_usage issued effective_context =
    Option.bind (complete_usage measured_usage) (\<lambda>counts.
    Option.bind (host_of (base_url p)) (\<lambda>host.
      if (\<not> documented_total (provider_id p) host
            \<and> (case issued of None \<Rightarrow> True | Some v \<Rightarrow> v = 0))
         \<or> protocol p = GeminiInteractions
         \<or> native_chatgpt p
      then None
      else
        (case filter (\<lambda>row. request_model row = model) (models p) of
           [row] \<Rightarrow>
             Option.bind (filter_option (\<lambda>n. 0 < n) (max_output_tokens (metadata row))) (\<lambda>cap.
               increased_budget (metadata row) counts cap issued effective_context)
         | _ \<Rightarrow> None)))"

section \<open>Lemmas\<close>

lemma unat_max_32: "unat (- 1 :: u32) = 2 ^ 32 - 1"
  by (simp add: unsigned_minus_1_eq_mask mask_eq_exp_minus_1)

lemma unat_u32_less: "unat (v :: u32) < 2 ^ 32"
  using unsigned_less [of v] by simp

lemma ucast_u32_u64 [simp]: "unat (ucast (v :: u32) :: u64) = unat v"
  using unat_u32_less [of v] by (simp add: unsigned_ucast_eq take_bit_nat_eq_self)

lemma unat_min_word: "unat (min a b) = min (unat (a :: 'a::len word)) (unat b)"
  by (simp add: min_def word_le_nat_alt)

lemma unat_max_word: "unat (max a b) = max (unat (a :: 'a::len word)) (unat b)"
  by (simp add: max_def word_le_nat_alt)

lemma unat_narrow: "unat (w :: u64) < 2 ^ 32 \<Longrightarrow> unat (ucast w :: u32) = unat w"
  by (simp add: unsigned_ucast_eq take_bit_nat_eq_self)

lemma unat_clamp:
  "unat (clamp maximum v) = (case maximum of None \<Rightarrow> unat v | Some cap \<Rightarrow> min (unat v) (unat cap))"
proof (cases maximum)
  case (Some cap)
  have "unat v < 2 ^ 32" using unsigned_less [of v] by simp
  then have "unat (ucast (min (ucast v :: u64) cap) :: u32) = unat (min (ucast v :: u64) cap)"
    by (intro unat_narrow) (simp add: unat_min_word)
  then show ?thesis by (simp add: Some clamp_def unat_min_word)
qed (simp add: clamp_def)

lemma unat_saturating_mul: "unat (saturating_mul a b) = min (unat a * unat b) (2 ^ 64 - 1)"
  by (auto simp: saturating_mul_def unat_max_64 unat_word_ariths)


text \<open>The ceiling published for a model, when exactly one row of the profile has that wire name.\<close>

definition published_ceiling :: "provider_profile \<Rightarrow> string \<Rightarrow> u64 option" where
  "published_ceiling p model =
    (case filter (\<lambda>row. request_model row = model) (models p) of
       [row] \<Rightarrow> filter_option (\<lambda>n. 0 < n) (max_output_tokens (metadata row))
     | _ \<Rightarrow> None)"

lemma clamp_le: "clamp maximum v \<le> v"
  by (simp add: word_le_nat_alt unat_clamp split: option.split)

lemma clamp_pos: "0 < v \<Longrightarrow> (\<And>cap. maximum = Some cap \<Longrightarrow> 0 < cap) \<Longrightarrow> 0 < clamp maximum v"
  by (cases maximum) (simp_all add: word_less_nat_alt unat_clamp)


definition budget_profile :: provider_profile where
  "budget_profile = (sample_profile ''a'' None [International] AnthropicMessages [] [])
     \<lparr> models := [(sample_model ''claude-opus-4-6'')
         \<lparr> metadata := default_metadata \<lparr> max_output_tokens := Some 8000 \<rparr> \<rparr>] \<rparr>"

lemma budget_profile_simps [simp]:
  "models budget_profile = [(sample_model ''claude-opus-4-6'')
         \<lparr> metadata := default_metadata \<lparr> max_output_tokens := Some 8000 \<rparr> \<rparr>]"
  "protocol budget_profile = AnthropicMessages"
  "auth_strategy budget_profile = ApiKey"
  "provider_id budget_profile = ''p''"
  by (simp_all add: budget_profile_def sample_profile_def)

lemma clamp_example: "clamp (Some 8000) 10000 = 8000"
  by (simp add: clamp_def min_def word_le_nat_alt)


text \<open>The manual thinking budget a request still asks for.\<close>

definition manual_thinking :: "'r chat_request \<Rightarrow> u32 option" where
  "manual_thinking req =
    (case cr_thinking req of
       None \<Rightarrow> None
     | Some t \<Rightarrow>
         if tc_mode t = Some Adaptive \<or> tc_mode t = Some Disabled then None
         else (case tc_budget t of
                 Some (Tokens n) \<Rightarrow> if n = 0 then None else Some n
               | _ \<Rightarrow> None))"

text \<open>
  Bounding automatic thinking leaves room for an answer and touches nothing else: the manual
  budget it keeps is strictly below the output budget and never above the one asked for, it
  survives only on the Messages wires with an output above the minimum, and the output budget,
  the requested effort and every other field of the request are unchanged.
\<close>

theorem automatic_thinking_fits:
  "let bounded = bound_automatic_thinking fam req in
    max_tokens bounded = max_tokens req \<and> cr_rest bounded = cr_rest req
    \<and> Option.bind (cr_thinking bounded) tc_effort = Option.bind (cr_thinking req) tc_effort
    \<and> (case manual_thinking bounded of
         None \<Rightarrow> True
       | Some n \<Rightarrow>
           claude_protocol fam
           \<and> (case max_tokens req of Some out \<Rightarrow> n < out \<and> 1024 < out | None \<Rightarrow> True)
           \<and> (case manual_thinking req of Some asked \<Rightarrow> n \<le> asked | None \<Rightarrow> False))"
proof -
  have less: "min tokens (out - 1) < out" if "\<not> out \<le> min_manual_thinking_tokens" for tokens out :: u32
  proof -
    have "1024 < unat out" using that by (simp add: min_manual_thinking_tokens_def word_le_nat_alt)
    then have "unat (out - 1) < unat out" by (simp add: unat_sub word_le_nat_alt)
    then show ?thesis by (simp add: word_less_nat_alt unat_min_word)
  qed
  have above: "1024 < out" if "\<not> out \<le> min_manual_thinking_tokens" for out :: u32
    using that by (simp add: min_manual_thinking_tokens_def not_le)
  show ?thesis
    using less above
    by (auto simp: bound_automatic_thinking_def manual_thinking_def Let_def
        split: option.splits thinking_budget.splits if_splits)
qed

text \<open>
  The budget proposed after a truncated response is a real increase that still fits: with
  complete counters it is above both what was issued and what was produced, at most twice the
  larger of them, within the published ceiling of the one matching row, and when the window is
  shared the counted input, the proposed output and a margin of 1024 tokens fit into it.
\<close>

theorem recovery_budget_fits:
  assumes "recovery_output_budget host_of p model measured_usage issued effective_context = Some n"
  shows "case complete_usage measured_usage of
      None \<Rightarrow> False
    | Some counts \<Rightarrow>
        (let base = max (case issued of Some v \<Rightarrow> unat v | None \<Rightarrow> 0) (unat (output_tokens counts)) in
         base < unat n \<and> unat n \<le> 2 * base
         \<and> (case published_ceiling p model of Some cap \<Rightarrow> unat n \<le> unat cap | None \<Rightarrow> False)
         \<and> (case filter (\<lambda>row. request_model row = model) (models p) of
              [row] \<Rightarrow>
                (case or_keep effective_context (context_window_tokens (metadata row)) of
                   Some window \<Rightarrow>
                     if Option.bind (mm_context (metadata row)) shared_window = Some False then True
                     else unat (input_tokens counts) + unat (cache_read_tokens counts)
                            + unat (cache_write_tokens counts) + unat n + 1024 \<le> unat window
                 | None \<Rightarrow> True)
            | _ \<Rightarrow> False))"
proof -
  obtain counts row cap where parts: "complete_usage measured_usage = Some counts"
    "filter (\<lambda>row. request_model row = model) (models p) = [row]"
    "filter_option (\<lambda>n. 0 < n) (max_output_tokens (metadata row)) = Some cap"
    "increased_budget (metadata row) counts cap issued effective_context = Some n"
    using assms
    by (auto simp: recovery_output_budget_def bind_eq_Some_conv split: if_splits list.splits)
  define base where "base = max (case issued of Some v \<Rightarrow> v | None \<Rightarrow> output_tokens counts) (output_tokens counts)"
  define ceiling where "ceiling = min (min (saturating_mul base 2) cap) (ucast (- 1 :: u32))"
  define window where "window = filter_option
      (\<lambda>_. Option.bind (mm_context (metadata row)) shared_window \<noteq> Some False)
      (or_keep effective_context (context_window_tokens (metadata row)))"
  define used where "used = saturating_add (saturating_add (input_tokens counts)
      (cache_read_tokens counts)) (cache_write_tokens counts)"
  define target where "target = (case window of None \<Rightarrow> ceiling
      | Some w \<Rightarrow> min ceiling (saturating_sub (saturating_sub w used) 1024))"
  have inc: "base < target" "n = ucast target"
    using parts(4) unfolding increased_budget_def Let_def base_def [symmetric] ceiling_def [symmetric]
      window_def [symmetric] used_def [symmetric] target_def [symmetric]
    by (simp_all split: if_splits)
  have le: "unat target \<le> unat ceiling"
    by (simp add: target_def unat_min_word split: option.split)
  have ceiling: "unat ceiling = min (min (min (2 * unat base) (2 ^ 64 - 1)) (unat cap)) (2 ^ 32 - 1)"
    by (simp add: ceiling_def unat_min_word unat_saturating_mul unat_max_32 mult.commute)
  have n: "unat n = unat target" using le ceiling inc(2) by (simp add: unat_narrow)
  have base: "unat base = max (case issued of Some v \<Rightarrow> unat v | None \<Rightarrow> 0) (unat (output_tokens counts))"
    by (simp add: base_def unat_max_word split: option.split)
  have fits: "unat (input_tokens counts) + unat (cache_read_tokens counts)
      + unat (cache_write_tokens counts) + unat n + 1024 \<le> unat w" if "window = Some w" for w
  proof -
    have "unat n \<le> unat w - unat used - 1024"
      using that n by (simp add: target_def unat_min_word unat_saturating_sub)
    moreover have "0 < unat n" using n inc(1) by (simp add: word_less_nat_alt)
    moreover have "unat used = min (min (unat (input_tokens counts) + unat (cache_read_tokens counts))
        (2 ^ 64 - 1) + unat (cache_write_tokens counts)) (2 ^ 64 - 1)"
      by (simp add: used_def unat_saturating_add)
    moreover have "unat w < 2 ^ 64" by simp
    ultimately show ?thesis by linarith
  qed
  have cap: "published_ceiling p model = Some cap" using parts(2,3) by (simp add: published_ceiling_def)
  have bounds: "unat base < unat n" "unat n \<le> 2 * unat base" "unat n \<le> unat cap"
    using inc(1) n le ceiling by (simp_all add: word_less_nat_alt)
  show ?thesis
    using bounds fits unfolding base window_def
    by (auto simp: parts(1,2) cap Let_def split: option.splits)
qed

theorem recovery_budget_fits_witness:
  "published_ceiling budget_profile ''claude-opus-4-6'' = Some 8000
    \<and> complete_usage (measured (default_usage \<lparr> output_tokens := 1000 \<rparr>) Complete)
        = Some (default_usage \<lparr> output_tokens := 1000 \<rparr>)"
proof -
  have increase: "increased_budget (default_metadata \<lparr> max_output_tokens := Some 8000 \<rparr>)
      (default_usage \<lparr> output_tokens := 1000 \<rparr>) 8000 (Some 1000) None = Some 2000"
    by (simp add: increased_budget_def Let_def saturating_mul_def default_metadata_def
        default_usage_def min_def max_def word_le_nat_alt word_less_nat_alt unat_max_32)
  have run: "recovery_output_budget (\<lambda>_. Some ''host'') budget_profile ''claude-opus-4-6''
      (measured (default_usage \<lparr> output_tokens := 1000 \<rparr>) Complete) (Some 1000) None = Some 2000"
    using increase
    by (simp add: recovery_output_budget_def complete_usage_def measured_def native_chatgpt_def
        sample_model_def default_metadata_def)
  have complete: "complete_usage (measured (default_usage \<lparr> output_tokens := 1000 \<rparr>) Complete)
      = Some (default_usage \<lparr> output_tokens := 1000 \<rparr>)"
    by (simp add: complete_usage_def measured_def)
  have "published_ceiling budget_profile ''claude-opus-4-6'' \<noteq> None"
    using recovery_budget_fits [OF run] complete by (auto simp: Let_def split: option.splits)
  then show ?thesis using complete by (simp add: published_ceiling_def sample_model_def default_metadata_def)
qed

end
