(* ===== verification/Failover.thy ===== *)
theory Failover
  imports Resolution Output_Budget
begin

text \<open>
  The walk of a request over its connections (\<^verbatim>\<open>src/client/executor.rs\<close>
  \<^verbatim>\<open>run_inner\<close> and its helpers, \<^verbatim>\<open>ReplayPolicy\<close> of
  \<^verbatim>\<open>src/providers/dispatch.rs\<close>).

  Sending one request to one connection is the parameter \<open>exec\<close> of the model, and
  dropping cached provider files the parameter \<open>invalidate\<close>; both thread the state
  \<open>'w\<close> of the world they act on.  What the walk decides between such calls is
  modelled in full.
\<close>

section \<open>Failures\<close>

record 'k file_use =
  fu_key :: "'k option"
  file_id :: string
  fu_uri :: "string option"
  fu_expires_at :: "string option"

record http_response =
  status :: u16
  response_body :: bytes

record 'k attempt_failure =
  af_error :: llm_error
  af_response :: "http_response option"
  af_files :: "'k file_use list"

fun contains_text :: "string \<Rightarrow> string \<Rightarrow> bool" where
  "contains_text [] sub = (sub = [])"
| "contains_text (c # s) sub = (starts_with (c # s) sub \<or> contains_text s sub)"

definition lower :: "string \<Rightarrow> string" where
  "lower s = map ascii_lower s"

definition missing_file_body :: "string \<Rightarrow> bool" where
  "missing_file_body body =
    (contains_text body ''not found'' \<or> contains_text body ''no such''
     \<or> contains_text body ''does not exist'' \<or> contains_text body ''invalid file''
     \<or> contains_text body ''unknown file'')"

definition names_file :: "string \<Rightarrow> 'k file_use \<Rightarrow> bool" where
  "names_file body used =
    (let fid = lower (file_id used); id_suffix = last (split_on (CHR ''/'') fid) in
     contains_text body fid
     \<or> (4 \<le> length id_suffix \<and> contains_text body id_suffix)
     \<or> (case fu_uri used of Some uri \<Rightarrow> contains_text body (lower uri) | None \<Rightarrow> False))"

definition missing_provider_file_uses :: "http_response \<Rightarrow> 'k file_use list \<Rightarrow> 'k file_use list" where
  "missing_provider_file_uses resp prepared =
    (if status resp \<noteq> 404 then []
     else
       let body = lower (utf8_lossy (response_body resp)) in
       if \<not> missing_file_body body then [] else filter (names_file body) prepared)"

definition is_attachment_capability_fallback :: "nat \<Rightarrow> bool \<Rightarrow> llm_error \<Rightarrow> bool" where
  "is_attachment_capability_fallback attempt_index has_attachments e =
    (0 < attempt_index \<and> has_attachments
     \<and> (case classification_source e of UnsupportedCapability _ \<Rightarrow> True | _ \<Rightarrow> False))"

section \<open>Replay policy\<close>

record replay_policy =
  pin_to_connection :: bool
  repair_missing_files :: bool
  allow_failover :: bool

text \<open>What \<^verbatim>\<open>ChatBackend::replay_policy\<close> asks of a request and its options.\<close>

record replay_facts =
  has_continuation :: bool
  has_response_cache :: bool
  has_remote_mcp :: bool
  has_stateful_tools :: bool
  has_hosted_tools :: bool

definition replay_policy_of :: "replay_facts \<Rightarrow> replay_policy" where
  "replay_policy_of f =
    (let hosted = has_stateful_tools f \<or> has_remote_mcp f \<or> has_hosted_tools f in
     \<lparr> pin_to_connection = has_continuation f \<or> has_response_cache f \<or> hosted,
       repair_missing_files = \<not> has_continuation f \<and> \<not> hosted,
       allow_failover = \<not> has_stateful_tools f \<rparr>)"

text \<open>Stored interactions and plan grants never leave the connection they were addressed to.\<close>

definition restrict_replay :: "provider_profile list \<Rightarrow> replay_policy \<Rightarrow> replay_policy" where
  "restrict_replay ps replay =
    (let pinned = \<lparr> pin_to_connection = True, repair_missing_files = False, allow_failover = False \<rparr>;
         r1 = (if list_ex (\<lambda>p. protocol p = GeminiInteractions) ps then pinned else replay) in
     if list_ex (\<lambda>p. auth_strategy p = ChatGptPlan) ps then pinned else r1)"

definition attempts :: "'c list \<Rightarrow> bool \<Rightarrow> 'c list" where
  "attempts conns continuation = take (if continuation then 1 else length conns) conns"

definition supports_continuation :: "provider_profile \<Rightarrow> bool" where
  "supports_continuation p =
    (protocol p = GeminiInteractions
     \<or> protocol p = OpenAiResponses
       \<and> Option.bind (jget (extra p) ''supports_previous_response_id'') as_bool = Some True)"

section \<open>One attempt and the walk\<close>

record ('w, 'c, 'k, 'out) attempt_env =
  exec :: "'w \<Rightarrow> 'c \<Rightarrow> 'w \<times> ('k attempt_failure + 'out)"
  invalidate :: "'w \<Rightarrow> 'k file_use list \<Rightarrow> 'w"
  replay :: replay_policy
  triggers :: failover_triggers
  has_attachments :: bool
  requested_model :: string

definition none_served :: "string \<Rightarrow> llm_error" where
  "none_served model = ModelUnavailable [Lit ''no connection served '', DebugStr model]"

definition run_attempt ::
  "('w, 'c, 'k, 'out) attempt_env \<Rightarrow> 'w \<Rightarrow> 'c \<Rightarrow> 'w \<times> ('k attempt_failure + 'out)" where
  "run_attempt env w c =
    (let (w1, outcome) = exec env w c;
         missing = (case outcome of
                      Inr _ \<Rightarrow> []
                    | Inl failure \<Rightarrow>
                        (case af_response failure of
                           Some resp \<Rightarrow> missing_provider_file_uses resp (af_files failure)
                         | None \<Rightarrow> [])) in
     if repair_missing_files (replay env) \<and> missing \<noteq> []
     then exec env (invalidate env w1 missing) c
     else (w1, outcome))"

definition may_failover :: "('w, 'c, 'k, 'out) attempt_env \<Rightarrow> nat \<Rightarrow> llm_error \<Rightarrow> bool" where
  "may_failover env attempt_index e =
    (allow_failover (replay env)
     \<and> (is_attachment_capability_fallback attempt_index (has_attachments env) e
        \<or> triggers_match (triggers env) e))"

fun walk ::
  "('w, 'c, 'k, 'out) attempt_env \<Rightarrow> 'w \<Rightarrow> nat \<Rightarrow> 'c list \<Rightarrow> 'w \<times> (llm_error + 'out)" where
  "walk env w attempt_index [] = (w, Err (none_served (requested_model env)))"
| "walk env w attempt_index (c # rest) =
    (case run_attempt env w c of
       (w', Inr out) \<Rightarrow> (w', Ok out)
     | (w', Inl failure) \<Rightarrow>
         if may_failover env attempt_index (af_error failure) \<and> rest \<noteq> []
         then walk env w' (Suc attempt_index) rest
         else (w', Err (af_error failure)))"

definition run_route ::
  "('w, nat \<times> nat, 'k, 'out) attempt_env \<Rightarrow> ('w \<Rightarrow> llm_error + 'w) \<Rightarrow> ('w \<Rightarrow> 'w \<times> (llm_error + bool))
    \<Rightarrow> replay_facts \<Rightarrow> runtime_snapshot \<Rightarrow> request_route \<Rightarrow> 'w \<Rightarrow> 'w \<times> (llm_error + 'out)" where
  "run_route env validate resolve_attachments facts s r w =
    (case validate w of
       Inl e \<Rightarrow> (w, Err e)
     | Inr w1 \<Rightarrow>
         if connections r = []
         then (w1, Err (none_served (requested_model env)))
         else
           let policy = restrict_replay (map (\<lambda>c. profile_at s (fst c)) (connections r))
                          (replay_policy_of facts) in
           (case resolve_attachments w1 of
              (w2, Inl e) \<Rightarrow> (w2, Err e)
            | (w2, Inr attached) \<Rightarrow>
                walk (env \<lparr> replay := policy, triggers := route_failover (route r),
                            has_attachments := attached \<rparr>)
                  w2 0 (attempts (connections r) (pin_to_connection policy))))"

section \<open>Credentials of an attempt\<close>

record ('cred, 'authn) request_credentials =
  request_credential :: "'cred option"
  fallback_credentials :: "string \<Rightarrow> 'cred option"
  request_authenticator :: "'authn option"

definition attempt_credential ::
  "('cred, 'authn) request_credentials \<Rightarrow> resolved_route \<Rightarrow> provider_profile \<Rightarrow> llm_error + 'cred option" where
  "attempt_credential opts r p =
    (let chosen = (if profile_name p = route_profile_name r then request_credential opts
                        else fallback_credentials opts (profile_name p)) in
     if profile_name p \<noteq> route_profile_name r \<and> auth_strategy p \<noteq> NoAuth \<and> chosen = None
     then Err (Authentication [Lit ''profile '', DebugStr (profile_name p), Lit '' needs its own credential''])
     else Ok chosen)"

definition attempt_authenticator ::
  "('cred, 'authn) request_credentials \<Rightarrow> (auth_strategy \<Rightarrow> 'authn option) \<Rightarrow> resolved_route
    \<Rightarrow> provider_profile \<Rightarrow> 'authn option" where
  "attempt_authenticator opts registered r p =
    (if auth_strategy p = NoAuth then None
     else or_keep (filter_option (\<lambda>_. profile_name p = route_profile_name r) (request_authenticator opts))
            (registered (auth_strategy p)))"

section \<open>Deadlines\<close>

text \<open>Durations in nanoseconds.\<close>

definition execution_timeout :: "bool \<Rightarrow> request_mode \<Rightarrow> nat option \<Rightarrow> nat option" where
  "execution_timeout has_video mode requested =
    (let default_timeout = (if has_video then 7200 * 10 ^ 9 else 120 * 10 ^ 9) in
     if mode \<noteq> StreamMode
     then Some (case requested of Some t \<Rightarrow> t | None \<Rightarrow> default_timeout)
     else requested)"

definition remaining_timeout :: "nat \<Rightarrow> nat option \<Rightarrow> llm_error + nat option" where
  "remaining_timeout elapsed total_timeout =
    (case total_timeout of
       None \<Rightarrow> Ok None
     | Some t \<Rightarrow> if elapsed < t then Ok (Some (t - elapsed))
                else Err (TransportTimeout [Lit ''request deadline elapsed'']))"

section \<open>The walk as a state machine\<close>

datatype ('w, 'c, 'out) walk_state = Trying 'w nat "'c list" | Finished 'w "llm_error + 'out"

inductive walk_step ::
  "('w, 'c, 'k, 'out) attempt_env \<Rightarrow> ('w, 'c, 'out) walk_state \<Rightarrow> ('w, 'c, 'out) walk_state \<Rightarrow> bool"
  for env where
  deliver: "run_attempt env w c = (w', Inr out) \<Longrightarrow>
    walk_step env (Trying w i (c # rest)) (Finished w' (Ok out))"
| move_on: "run_attempt env w c = (w', Inl failure) \<Longrightarrow> may_failover env i (af_error failure) \<Longrightarrow>
    rest \<noteq> [] \<Longrightarrow> walk_step env (Trying w i (c # rest)) (Trying w' (Suc i) rest)"
| give_up: "run_attempt env w c = (w', Inl failure) \<Longrightarrow>
    \<not> (may_failover env i (af_error failure) \<and> rest \<noteq> []) \<Longrightarrow>
    walk_step env (Trying w i (c # rest)) (Finished w' (Err (af_error failure)))"
| none_left: "walk_step env (Trying w i []) (Finished w (Err (none_served (requested_model env))))"

inductive_cases walk_stepE: "walk_step env (Trying w i cs) st"
inductive_simps finished_stuck [simp]: "walk_step env (Finished w res) st"

lemma machine_runs: "(walk_step env)\<^sup>*\<^sup>* (Trying w i cs) (case walk env w i cs of (w', res) \<Rightarrow> Finished w' res)"
proof (induction cs arbitrary: w i)
  case Nil
  then show ?case by (simp add: walk_step.none_left r_into_rtranclp)
next
  case (Cons c rest)
  obtain w' outcome where run: "run_attempt env w c = (w', outcome)" by (cases "run_attempt env w c")
  show ?case
  proof (cases outcome)
    case (Inr out)
    then show ?thesis using run by (simp add: walk_step.deliver r_into_rtranclp)
  next
    case (Inl failure)
    show ?thesis
    proof (cases "may_failover env i (af_error failure) \<and> rest \<noteq> []")
      case True
      then have "walk_step env (Trying w i (c # rest)) (Trying w' (Suc i) rest)"
        using run Inl by (simp add: walk_step.move_on)
      from converse_rtranclp_into_rtranclp [OF this Cons.IH] show ?thesis
        using run Inl True by simp
    next
      case False
      then have "walk_step env (Trying w i (c # rest)) (Finished w' (Err (af_error failure)))"
        using run Inl by (blast intro: walk_step.give_up)
      moreover have "walk env w i (c # rest) = (w', Err (af_error failure))"
        using run Inl False by (simp only: walk.simps prod.case sum.case if_False)
      ultimately show ?thesis by (simp only: prod.case r_into_rtranclp)
    qed
  qed
qed

lemma walk_step_deterministic: "walk_step env st a \<Longrightarrow> walk_step env st b \<Longrightarrow> a = b"
  by (erule walk_step.cases; erule walk_step.cases) auto

lemma finished_final: "(walk_step env)\<^sup>*\<^sup>* (Finished w res) st \<Longrightarrow> st = Finished w res"
  by (erule converse_rtranclpE) auto

lemma runs_confluent:
  assumes "(walk_step env)\<^sup>*\<^sup>* st (Finished w res)" "(walk_step env)\<^sup>*\<^sup>* st (Finished w' res')"
  shows "w = w' \<and> res = res'"
  using assms
proof (induction rule: converse_rtranclp_induct)
  case base
  then show ?case using finished_final by fastforce
next
  case (step y z)
  from step.prems show ?case
  proof (cases rule: converse_rtranclpE)
    case base
    then show ?thesis using step.hyps(1) by simp
  next
    case (step v)
    then have "v = z" using walk_step_deterministic \<open>walk_step env y z\<close> by blast
    then show ?thesis using step(2) \<open>(walk_step env)\<^sup>*\<^sup>* z (Finished w' res') \<Longrightarrow> w = w' \<and> res = res'\<close> by simp
  qed
qed

text \<open>The relation computes exactly what the function does.\<close>

lemma machine_iff_walk:
  "(walk_step env)\<^sup>*\<^sup>* (Trying w i cs) (Finished w' res) \<longleftrightarrow> walk env w i cs = (w', res)"
  using machine_runs [of env w i cs] runs_confluent [of env "Trying w i cs"]
  by (cases "walk env w i cs") auto

text \<open>Where a walk over \<open>cs\<close> can be, and why it got there.\<close>

inductive moved :: "('w, 'c, 'k, 'out) attempt_env \<Rightarrow> nat \<Rightarrow> bool" for env where
  "allow_failover (replay env) \<Longrightarrow>
   run_attempt env w c = (w', Inl failure) \<Longrightarrow>
   triggers_match (triggers env) (af_error failure)
     \<or> is_attachment_capability_fallback i (has_attachments env) (af_error failure) \<Longrightarrow>
   moved env i"

lemma walk_invariant:
  assumes "(walk_step env)\<^sup>*\<^sup>* (Trying w 0 cs) (Trying w' i rest)"
  shows "rest = drop i cs \<and> (i = 0 \<or> moved env (i - 1) \<and> rest \<noteq> [])"
proof -
  have "(case st of Trying w' i rest \<Rightarrow> rest = drop i cs \<and> (i = 0 \<or> moved env (i - 1) \<and> rest \<noteq> [])
          | Finished _ _ \<Rightarrow> True)" if "(walk_step env)\<^sup>*\<^sup>* (Trying w 0 cs) st" for st
    using that
  proof (induction rule: rtranclp_induct)
    case (step y z)
    from step.hyps(2) step.IH show ?case
    proof (cases rule: walk_step.cases)
      case (move_on w1 c w2 failure j rest)
      then have "moved env j"
        by (intro moved.intros) (auto simp: may_failover_def)
      moreover have "rest = drop (Suc j) cs"
        using step.IH move_on(1) by (simp add: drop_Suc tl_drop [symmetric]) (metis list.sel(3))
      ultimately show ?thesis using move_on by simp
    qed simp_all
  qed simp
  from this [OF assms] show ?thesis unfolding walk_state.case .
qed

section \<open>Properties\<close>

text \<open>A world that records every request sent, and in which nothing succeeds twice.\<close>

definition logged :: "(nat \<times> nat) list \<Rightarrow> nat \<times> nat \<Rightarrow> (nat \<times> nat) list \<times> (unit attempt_failure + string)" where
  "logged log c = (log @ [c],
     if fst c = 0 then Inl \<lparr> af_error = Overloaded [Lit ''busy''] False, af_response = None, af_files = [] \<rparr>
     else Inr ''done'')"

definition sample_env :: "((nat \<times> nat) list, nat \<times> nat, unit, string) attempt_env" where
  "sample_env = \<lparr> exec = logged, invalidate = (\<lambda>w _. w),
     replay = \<lparr> pin_to_connection = False, repair_missing_files = True, allow_failover = True \<rparr>,
     triggers = default_triggers, has_attachments = False, requested_model = ''m'' \<rparr>"



text \<open>
  C21. Stored interactions and plan grants are submitted at most once. When any connection of the
  route speaks the interactions protocol or uses a plan grant, an admitted request is sent
  exactly once, to the head: no failover to a sibling and no second submission to repair
  missing files, whatever the first one answered.
\<close>

theorem pinned_routes_send_once:
  assumes "list_ex (\<lambda>c. protocol (profile_at s (fst c)) = GeminiInteractions
      \<or> auth_strategy (profile_at s (fst c)) = ChatGptPlan) (connections r)"
    and "validate w = Ok w1" "resolve_attachments w1 = (w2, Ok attached)"
  shows "run_route env validate resolve_attachments facts s r w =
    (case exec env w2 (hd (connections r)) of
       (w3, Inr out) \<Rightarrow> (w3, Ok out) | (w3, Inl failure) \<Rightarrow> (w3, Err (af_error failure)))"
proof -
  define policy where "policy = restrict_replay (map (\<lambda>c. profile_at s (fst c)) (connections r))
      (replay_policy_of facts)"
  have policy: "policy = \<lparr> pin_to_connection = True, repair_missing_files = False, allow_failover = False \<rparr>"
    using assms(1) by (auto simp: policy_def restrict_replay_def Let_def list_ex_iff)
  obtain c rest where conns: "connections r = c # rest" using assms(1) by (cases "connections r") auto
  show ?thesis
    using assms(2,3) policy [unfolded policy_def]
    by (simp add: run_route_def Let_def conns attempts_def run_attempt_def may_failover_def
        split: prod.splits sum.splits)
qed

definition plan_wires :: "runtime_snapshot" where
  "plan_wires = new_snapshot International
    [(sample_profile ''a'' (Some ''g'') [International] OpenAiResponses [] [''m''])
       \<lparr> auth_strategy := ChatGptPlan \<rparr>] None"

theorem pinned_routes_send_once_witness:
  "run_route sample_env Ok (\<lambda>w. (w, Ok False))
     \<lparr> has_continuation = False, has_response_cache = False, has_remote_mcp = False,
       has_stateful_tools = False, has_hosted_tools = False \<rparr>
     plan_wires (route_for plan_wires (0, 0) []) [] = ([(0, 0)], Err (Overloaded [Lit ''busy''] False))"
proof -
  have "list_ex (\<lambda>c. protocol (profile_at plan_wires (fst c)) = GeminiInteractions
      \<or> auth_strategy (profile_at plan_wires (fst c)) = ChatGptPlan) (connections (route_for plan_wires (0, 0) []))"
    by (simp add: plan_wires_def profile_at_sample)
  from pinned_routes_send_once [OF this, of Ok "[]" "[]" "\<lambda>w. (w, Ok False)" "[]" False sample_env]
  show ?thesis by (simp add: sample_env_def logged_def)
qed

text \<open>
  An error another endpoint would repeat ends the request. When the first attempt fails with an
  error whose kind is none of the connection's failover triggers and names no missing file, the
  caller receives exactly that error, and no other connection is contacted.
\<close>

theorem untriggered_error_is_final:
  assumes "exec env w c = (w', Inl failure)" "af_response failure = None"
    and "\<not> triggers_match (triggers env) (af_error failure)"
  shows "walk env w 0 (c # rest) = (w', Err (af_error failure))"
  using assms by (simp add: run_attempt_def may_failover_def is_attachment_capability_fallback_def)

theorem untriggered_error_is_final_witness:
  "walk (sample_env \<lparr> triggers := no_triggers \<rparr>) [] 0 [(0, 0), (1, 0)]
    = ([(0, 0)], Err (Overloaded [Lit ''busy''] False))"
  using untriggered_error_is_final [of "sample_env \<lparr> triggers := no_triggers \<rparr>" "[]" "(0, 0)"
      "[(0, 0)]" "\<lparr> af_error = Overloaded [Lit ''busy''] False, af_response = None, af_files = [] \<rparr>" "[(1, 0)]"]
  by (simp add: sample_env_def logged_def triggers_match_def kind_def no_triggers_def)

text \<open>
  C39. The head's credential and authenticator never reach a sibling. Changing the credential or the
  authenticator the caller bound to the selected profile changes nothing for an attempt on
  another profile, which runs on the credential supplied for that profile by name, or fails.
\<close>

theorem credentials_stay_on_their_profile:
  assumes "profile_name p \<noteq> route_profile_name r"
  shows "attempt_credential opts r p =
      attempt_credential (opts \<lparr> request_credential := other, request_authenticator := auth' \<rparr>) r p
    \<and> attempt_authenticator opts registered r p =
      attempt_authenticator (opts \<lparr> request_credential := other, request_authenticator := auth' \<rparr>) registered r p
    \<and> (case attempt_credential opts r p of
         Inr (Some cred) \<Rightarrow> fallback_credentials opts (profile_name p) = Some cred
       | Inr None \<Rightarrow> auth_strategy p = NoAuth
       | Inl e \<Rightarrow> kind e = Some AuthenticationKind)"
proof -
  have "filter_option (\<lambda>_. False) x = None" for x :: "'b option"
    by (cases x) simp_all
  then show ?thesis
    using assms
    by (auto simp: attempt_credential_def attempt_authenticator_def Let_def kind_def
        split: option.splits)
qed

theorem credentials_stay_on_their_profile_witness:
  "attempt_credential \<lparr> request_credential = Some ''secret'', fallback_credentials = (\<lambda>_. None),
       request_authenticator = (None :: string option) \<rparr>
     (route (route_for two_wires (0, 0) [])) (profile_at two_wires 1)
   = attempt_credential \<lparr> request_credential = None, fallback_credentials = (\<lambda>_. None),
       request_authenticator = (None :: string option) \<rparr>
     (route (route_for two_wires (0, 0) [])) (profile_at two_wires 1)"
proof -
  have "profile_name (profile_at two_wires 1) \<noteq> route_profile_name (route (route_for two_wires (0, 0) []))"
    by (simp add: two_wires_def profile_at_sample route_for_def Let_def)
  from conjunct1 [OF credentials_stay_on_their_profile [OF this, of
      "\<lparr> request_credential = Some ''secret'', fallback_credentials = (\<lambda>_. None),
         request_authenticator = (None :: string option) \<rparr>" None None "\<lambda>_. None"]]
  show ?thesis by simp
qed

end
