(* ===== verification/Stream_Events.thy ===== *)
theory Stream_Events
  imports Inference Usage_Report
begin

text \<open>
  The canonical events of a model stream (\<^verbatim>\<open>StreamEvent\<close>,
  \<^verbatim>\<open>StopReason\<close>, \<^verbatim>\<open>InferenceReport\<close>, the search results) and the
  content blocks assembly produces.  Text is a list of scalar values, because the
  UTF-16 reading of it matters; an argument fragment is its UTF-16 code units.
\<close>

datatype stop_reason =
    EndTurn | ToolUseStop | MaxTokensStop | StopSequence | Refusal | OtherStop string

record inference_report =
  executed_at :: "u64 option"
  requested_raw_service_tier :: "string option"
  requested_effort :: "reasoning_effort option"
  requested_service_tier :: "service_tier option"
  reported_effort :: "reasoning_effort option"
  reported_service_tier :: "service_tier option"
  raw_effort :: "string option"
  raw_service_tier :: "string option"
  raw_speed :: "string option"

definition default_inference :: inference_report where
  "default_inference = \<lparr> executed_at = None, requested_raw_service_tier = None,
     requested_effort = None, requested_service_tier = None, reported_effort = None,
     reported_service_tier = None, raw_effort = None, raw_service_tier = None, raw_speed = None \<rparr>"

record native_extension =
  native_format :: string
  native_data :: json_payload

record web_citation =
  citation_url :: string
  citation_title :: "string option"

record web_search_result =
  ws_citations :: "web_citation list"
  ws_metadata :: json_payload

record file_search_hit =
  hit_file_id :: string
  hit_filename :: "string option"
  hit_score :: "f64 option"
  hit_text :: "string option"

record file_search_result =
  fs_queries :: "string list"
  fs_hits :: "file_search_hit list"
  fs_metadata :: json_payload

datatype stream_event =
    NativeEvent nat native_extension
  | NativeControl protocol_family native_extension
  | BlockEnd nat
  | NativeDelta nat protocol_family json_payload
  | InferenceEvent inference_report
  | ProviderContentEvent nat protocol_family json_payload
  | ProviderEvent protocol_family json_payload
  | Start string "response_id option"
  | TextDelta nat scalars
  | TextDeltaJsUtf16 nat scalars "u16 list"
  | ReasoningDelta nat scalars
  | ThoughtSignature nat string
  | RedactedThinkingEvent nat string
  | ToolCallDelta nat tool_use_id "string option" "json_payload option" "string option" string "u16 list"
  | WebSearch web_search_result
  | FileSearch file_search_result
  | EndEvent stop_reason usage_report inference_report

fun is_end :: "stream_event \<Rightarrow> bool" where
  "is_end (EndEvent _ _ _) = True"
| "is_end _ = False"

section \<open>Messages\<close>

text \<open>
  Attached media, and the content blocks of a message as the client and the codecs share
  them.  Assembly of a stream produces the first seven kinds of block only.
\<close>

record attachment_ref =
  attachment_id :: string
  attachment_revision :: string
  attachment_filename :: string
  attachment_media_type :: string
  size_bytes :: u64

datatype image_source =
    ImageBase64 string string
  | ImageUrl string
  | ImageAttachment attachment_ref
  | ImageProviderFile provider_file_source

datatype document_source =
    DocumentBase64 string string
  | DocumentText string string
  | DocumentUrl string
  | DocumentAttachment attachment_ref
  | DocumentProviderFile provider_file_source

datatype video_source =
    VideoBase64 string string
  | VideoUrl string
  | VideoAttachment attachment_ref
  | VideoProviderFile provider_file_source

datatype content_block =
    NativeBlock native_extension
  | ProviderContent protocol_family json_payload
  | TextBlock scalars "string option" "json_payload option option"
  | TextJsUtf16 scalars "u16 list" "string option" "json_payload option option"
  | ToolUse tool_use_id string json_payload "string option" "json_payload option" "string option" "string option"
  | ToolResult tool_use_id json_payload "bool option" "json_payload option" "string option" "string option"
  | Thinking scalars "string option"
  | RedactedThinking string
  | ImageBlock image_source
  | DocumentBlock document_source "string option"
  | VideoBlock video_source
  | AudioBlock string string

datatype message_role = User | Assistant | System

record conversation_message =
  role :: message_role
  content :: "content_block list"
  native_options :: "native_extension list"

definition user_text :: "scalars \<Rightarrow> conversation_message" where
  "user_text t = \<lparr> role = User, content = [TextBlock t None None], native_options = [] \<rparr>"

definition system_text :: "scalars \<Rightarrow> conversation_message" where
  "system_text t = \<lparr> role = System, content = [TextBlock t None None], native_options = [] \<rparr>"

definition assistant :: "content_block list \<Rightarrow> conversation_message" where
  "assistant bs = \<lparr> role = Assistant, content = bs, native_options = [] \<rparr>"

text \<open>Every tool call a message requests: identifier, toolset, member name, input.\<close>

fun tool_use_of :: "content_block \<Rightarrow> (tool_use_id \<times> string option \<times> string \<times> json_payload) option" where
  "tool_use_of (ToolUse i n v _ _ ts _) = Some (i, ts, n, v)"
| "tool_use_of _ = None"

definition tool_uses :: "conversation_message \<Rightarrow> (tool_use_id \<times> string option \<times> string \<times> json_payload) list" where
  "tool_uses m = List.map_filter tool_use_of (content m)"

end
