(* ===== verification/Stream_Decoder.thy ===== *)
theory Stream_Decoder
  imports Stream_Events Sse
begin

text \<open>
  The adapter from raw bytes to stream events (\<^verbatim>\<open>src/codecs/stream.rs\<close>): SSE
  framing in front of an event decoder, closed by the first terminal event or error.
  The decoder of one wire format is the record \<open>event_decoder\<close> of its two
  operations, over a state of its own.
\<close>

record ('d, 'ev) event_decoder =
  decode_event :: "'d \<Rightarrow> bytes \<Rightarrow> 'd \<times> (llm_error + 'ev list)"
  finish_events :: "'d \<Rightarrow> 'd \<times> (llm_error + 'ev list)"
  ends_stream :: "'ev \<Rightarrow> bool"

record 'd sse_decoder =
  inner :: 'd
  framing :: sse_splitter
  ended :: bool

definition new_decoder :: "'d \<Rightarrow> 'd sse_decoder" where
  "new_decoder d = \<lparr> inner = d, framing = new_sse, ended = False \<rparr>"

text \<open>The loop of \<^verbatim>\<open>append\<close> over a decoded batch: up to and including the first terminal event.\<close>

fun take_events :: "('ev \<Rightarrow> bool) \<Rightarrow> 'ev list \<Rightarrow> 'ev list \<times> bool" where
  "take_events terminal [] = ([], False)"
| "take_events terminal (e # es) =
    (if terminal e then ([e], True)
     else (case take_events terminal es of (out, t) \<Rightarrow> (e # out, t)))"

definition append_result ::
  "('d, 'ev) event_decoder \<Rightarrow> 'd sse_decoder \<Rightarrow> llm_error + 'ev list \<Rightarrow> (llm_error + 'ev) list
    \<Rightarrow> 'd sse_decoder \<times> (llm_error + 'ev) list" where
  "append_result ops s result out =
    (case result of
       Inr events \<Rightarrow>
         (case take_events (ends_stream ops) events of
            (taken, terminal) \<Rightarrow>
              (s \<lparr> ended := ended s \<or> terminal \<rparr>, out @ map Ok taken))
     | Inl e \<Rightarrow> (s \<lparr> ended := True \<rparr>, out @ [Err e]))"

fun decode_frames ::
  "('d, 'ev) event_decoder \<Rightarrow> 'd sse_decoder \<Rightarrow> bytes list \<Rightarrow> (llm_error + 'ev) list
    \<Rightarrow> 'd sse_decoder \<times> (llm_error + 'ev) list" where
  "decode_frames ops s [] out = (s, out)"
| "decode_frames ops s (frame # frames) out =
    (case decode_event ops (inner s) frame of
       (d, events) \<Rightarrow>
         (case append_result ops (s \<lparr> inner := d \<rparr>) events out of
            (s', out') \<Rightarrow> if ended s' then (s', out') else decode_frames ops s' frames out'))"

definition push_bytes ::
  "('d, 'ev) event_decoder \<Rightarrow> 'd sse_decoder \<Rightarrow> bytes \<Rightarrow> 'd sse_decoder \<times> (llm_error + 'ev) list" where
  "push_bytes ops s bs =
    (if ended s then (s, [])
     else
       (case push_batch (framing s) bs of
          (f, frames, failure) \<Rightarrow>
            (case decode_frames ops (s \<lparr> framing := f \<rparr>) frames [] of
               (s', out) \<Rightarrow>
                 if ended s' then (s', out)
                 else (case failure of
                         None \<Rightarrow> (s', out)
                       | Some e \<Rightarrow> append_result ops s' (Err e) out))))"

definition decoder_finish ::
  "('d, 'ev) event_decoder \<Rightarrow> 'd sse_decoder \<Rightarrow> 'd sse_decoder \<times> (llm_error + 'ev) list" where
  "decoder_finish ops s =
    (if ended s then (s, [])
     else
       (case sse_finish (framing s) of
          (f, flushed) \<Rightarrow>
            (let s0 = s \<lparr> framing := f \<rparr>;
                 (s1, out1) =
                   (case flushed of
                      Inl e \<Rightarrow> append_result ops s0 (Err e) []
                    | Inr None \<Rightarrow> (s0, [])
                    | Inr (Some frame) \<Rightarrow>
                        (case decode_event ops (inner s0) frame of
                           (d, events) \<Rightarrow> append_result ops (s0 \<lparr> inner := d \<rparr>) events []));
                 (s2, out2) =
                   (if ended s1 then (s1, out1)
                    else (case finish_events ops (inner s1) of
                            (d, events) \<Rightarrow> append_result ops (s1 \<lparr> inner := d \<rparr>) events out1)) in
             (s2 \<lparr> ended := True \<rparr>, out2))))"

text \<open>A transport delivering chunk after chunk, all outputs together.\<close>

fun push_chunks ::
  "('d, 'ev) event_decoder \<Rightarrow> 'd sse_decoder \<Rightarrow> bytes list \<Rightarrow> 'd sse_decoder \<times> (llm_error + 'ev) list" where
  "push_chunks ops s [] = (s, [])"
| "push_chunks ops s (c # cs) =
    (case push_bytes ops s c of
       (s1, out1) \<Rightarrow> (case push_chunks ops s1 cs of (s2, out2) \<Rightarrow> (s2, out1 @ out2)))"

section \<open>Lemmas\<close>

lemma append_out: "append_result ops s r out = (fst (append_result ops s r []), out @ snd (append_result ops s r []))"
  by (simp add: append_result_def split: sum.split prod.split)

lemma append_keeps [simp]:
  "inner (fst (append_result ops s r out)) = inner s" "framing (fst (append_result ops s r out)) = framing s"
  by (simp_all add: append_result_def split: sum.split prod.split)

lemma append_framing: "append_result ops (s \<lparr> framing := f \<rparr>) r out =
    ((fst (append_result ops s r out)) \<lparr> framing := f \<rparr>, snd (append_result ops s r out))"
  by (simp add: append_result_def split: sum.split prod.split)

lemma decode_frames_out:
  "decode_frames ops s frames out =
    (fst (decode_frames ops s frames []), out @ snd (decode_frames ops s frames []))"
proof (induction frames arbitrary: s out)
  case (Cons f fs)
  obtain d events where d: "decode_event ops (inner s) f = (d, events)" by fastforce
  obtain s1 o1 where a: "append_result ops (s \<lparr> inner := d \<rparr>) events [] = (s1, o1)" by fastforce
  have a': "append_result ops (s \<lparr> inner := d \<rparr>) events out = (s1, out @ o1)"
    using append_out [of ops "s \<lparr> inner := d \<rparr>" events out] a by simp
  show ?case
    using Cons.IH [of s1 "out @ o1"] Cons.IH [of s1 o1] by (simp add: d a a')
qed simp

lemma decode_frames_append:
  "decode_frames ops s (xs @ ys) out =
    (case decode_frames ops s xs out of
       (s1, out1) \<Rightarrow> if ended s1 \<and> xs \<noteq> [] then (s1, out1) else decode_frames ops s1 ys out1)"
proof (induction xs arbitrary: s out)
  case (Cons x xs)
  obtain d events where d: "decode_event ops (inner s) x = (d, events)" by fastforce
  obtain s1 o1 where a: "append_result ops (s \<lparr> inner := d \<rparr>) events out = (s1, o1)" by fastforce
  show ?case
  proof (cases "ended s1")
    case True
    then show ?thesis by (simp add: d a)
  next
    case False
    then show ?thesis using Cons.IH [of s1 o1] by (cases xs) (auto simp: d a split: prod.splits)
  qed
qed simp

lemma decode_frames_framing [simp]: "framing (fst (decode_frames ops s frames out)) = framing s"
proof (induction frames arbitrary: s out)
  case (Cons f fs)
  obtain d events where d: "decode_event ops (inner s) f = (d, events)" by fastforce
  obtain s1 o1 where a: "append_result ops (s \<lparr> inner := d \<rparr>) events out = (s1, o1)" by fastforce
  have "framing s1 = framing s" using append_keeps(2) [of ops "s \<lparr> inner := d \<rparr>" events out] a by simp
  then show ?case using Cons.IH [of s1 o1] by (simp add: d a)
qed simp

lemma decode_frames_reframe:
  "decode_frames ops (s \<lparr> framing := f \<rparr>) frames out =
    ((fst (decode_frames ops s frames out)) \<lparr> framing := f \<rparr>, snd (decode_frames ops s frames out))"
proof (induction frames arbitrary: s out)
  case (Cons x xs)
  obtain d events where d: "decode_event ops (inner s) x = (d, events)" by fastforce
  obtain s1 o1 where a: "append_result ops (s \<lparr> inner := d \<rparr>) events out = (s1, o1)" by fastforce
  have commute: "s \<lparr> framing := f, inner := d \<rparr> = s \<lparr> inner := d, framing := f \<rparr>"
    by (cases s) simp
  have "append_result ops (s \<lparr> inner := d, framing := f \<rparr>) events out = (s1 \<lparr> framing := f \<rparr>, o1)"
    using append_framing [of ops f "s \<lparr> inner := d \<rparr>" events out] a by simp
  then have "append_result ops (s \<lparr> framing := f, inner := d \<rparr>) events out = (s1 \<lparr> framing := f \<rparr>, o1)"
    by (simp only: commute)
  then show ?case using Cons.IH [of s1 o1] by (simp add: d a)
qed simp

text \<open>What a caller can tell about a decoder: the framing of a closed one is never read again.\<close>

definition visible :: "'d sse_decoder \<Rightarrow> 'd \<times> bool \<times> sse_splitter option" where
  "visible s = (inner s, ended s, if ended s then None else Some (framing s))"

lemma visible_ended [simp]: "ended s \<Longrightarrow> visible (s \<lparr> framing := f \<rparr>) = visible s"
  by (simp add: visible_def)

lemma append_error_ended [simp]: "ended (fst (append_result ops s (Err e) out))"
  by (simp add: append_result_def)

lemma push_ended [simp]: "ended s \<Longrightarrow> push_bytes ops s bs = (s, [])"
  by (simp add: push_bytes_def)

lemma push_bytes_append:
  "(case push_bytes ops s (xs @ ys) of (s', out) \<Rightarrow> (visible s', out)) =
   (case push_bytes ops s xs of (s1, out1) \<Rightarrow>
      (case push_bytes ops s1 ys of (s2, out2) \<Rightarrow> (visible s2, out1 @ out2)))"
proof (cases "ended s")
  case True
  then show ?thesis by simp
next
  case False
  obtain f1 fr1 e1 where b1: "push_batch (framing s) xs = (f1, fr1, e1)" by (metis prod_cases3)
  show ?thesis
  proof (cases e1)
    case (Some e)
    then have whole: "push_batch (framing s) (xs @ ys) = (f1, fr1, Some e)"
      using sse.push_error b1 by simp
    obtain s1 o1 where p: "push_bytes ops s xs = (s1, o1)" by fastforce
    have same: "push_bytes ops s (xs @ ys) = (s1, o1)"
      using p False b1 whole Some by (simp add: push_bytes_def)
    have "ended s1"
      using p False b1 Some by (auto simp: push_bytes_def append_result_def split: prod.splits if_splits)
    then show ?thesis using p same by simp
  next
    case None
    obtain f2 fr2 e2 where b2: "push_batch f1 ys = (f2, fr2, e2)" by (metis prod_cases3)
    have whole: "push_batch (framing s) (xs @ ys) = (f2, fr1 @ fr2, e2)"
      using sse.push_append [of "framing s" xs f1 fr1 ys] b1 b2 None by simp
    obtain s1 o1 where d1: "decode_frames ops (s \<lparr> framing := f1 \<rparr>) fr1 [] = (s1, o1)" by fastforce
    have p1: "push_bytes ops s xs = (s1, o1)"
      using False b1 None d1 by (simp add: push_bytes_def)
    have d1': "decode_frames ops (s \<lparr> framing := f2 \<rparr>) fr1 [] = (s1 \<lparr> framing := f2 \<rparr>, o1)"
      using decode_frames_reframe [of ops f2 "s \<lparr> framing := f1 \<rparr>" fr1 "[]"] d1 by simp
    have fr1: "fr1 = [] \<Longrightarrow> \<not> ended s1" using d1 False by auto
    have f1: "framing s1 = f1" using decode_frames_framing [of ops "s \<lparr> framing := f1 \<rparr>" fr1 "[]"] d1 by simp
    show ?thesis
    proof (cases "ended s1")
      case True
      then have "push_bytes ops s (xs @ ys) = (s1 \<lparr> framing := f2 \<rparr>, o1)"
        using False whole d1' fr1 by (auto simp: push_bytes_def decode_frames_append)
      then show ?thesis using True p1 by simp
    next
      case open_: False
      obtain s2 o2 where d2: "decode_frames ops (s1 \<lparr> framing := f2 \<rparr>) fr2 [] = (s2, o2)" by fastforce
      have d2': "decode_frames ops (s1 \<lparr> framing := f2 \<rparr>) fr2 o1 = (s2, o1 @ o2)"
        using decode_frames_out [of ops "s1 \<lparr> framing := f2 \<rparr>" fr2 o1] d2 by simp
      have w: "push_bytes ops s (xs @ ys) =
          (if ended s2 then (s2, o1 @ o2)
           else (case e2 of None \<Rightarrow> (s2, o1 @ o2) | Some e \<Rightarrow> append_result ops s2 (Err e) (o1 @ o2)))"
        using False whole d1' open_ d2' by (simp add: push_bytes_def decode_frames_append)
      have p2: "push_bytes ops s1 ys =
          (if ended s2 then (s2, o2)
           else (case e2 of None \<Rightarrow> (s2, o2) | Some e \<Rightarrow> append_result ops s2 (Err e) o2))"
        using open_ b2 f1 d2 by (simp add: push_bytes_def)
      show ?thesis
        using p1 w p2 by (simp add: append_result_def split: option.split)
    qed
  qed
qed

text \<open>An output that leaves the stream open, and one closed by its last item.\<close>

definition ordinary :: "('d, 'ev) event_decoder \<Rightarrow> llm_error + 'ev \<Rightarrow> bool" where
  "ordinary ops r = (case r of Inl _ \<Rightarrow> False | Inr e \<Rightarrow> \<not> ends_stream ops e)"

definition shaped :: "('d, 'ev) event_decoder \<Rightarrow> bool \<Rightarrow> (llm_error + 'ev) list \<Rightarrow> bool" where
  "shaped ops closed out =
    (if closed then out \<noteq> [] \<and> list_all (ordinary ops) (butlast out) \<and> \<not> ordinary ops (last out)
     else list_all (ordinary ops) out)"

lemma list_all_butlast: "list_all P xs \<Longrightarrow> list_all P (butlast xs)"
  by (auto simp: list_all_iff dest: in_set_butlastD)

lemma list_all_butlast_append:
  "list_all P xs \<Longrightarrow> list_all P (butlast ys) \<Longrightarrow> list_all P (butlast (xs @ ys))"
  by (simp add: butlast_append list_all_butlast)

lemma shaped_append:
  "shaped ops False xs \<Longrightarrow> shaped ops c ys \<Longrightarrow> shaped ops c (xs @ ys)"
  by (auto simp: shaped_def butlast_append split: if_splits)

lemma take_events_shaped:
  "take_events (ends_stream ops) es = (taken, terminal) \<Longrightarrow> shaped ops terminal (map Ok taken)"
proof (induction es arbitrary: taken terminal)
  case (Cons e es)
  then show ?case
    by (cases "ends_stream ops e") (auto simp: shaped_def ordinary_def split: prod.splits if_splits)
qed (simp add: shaped_def)

lemma append_shaped:
  assumes "\<not> ended s" "append_result ops s r out = (s', out')" "shaped ops False out"
  shows "shaped ops (ended s') out'"
proof (cases r)
  case (Inl e)
  then show ?thesis using assms by (auto simp: append_result_def shaped_def ordinary_def)
next
  case (Inr events)
  obtain taken terminal where t: "take_events (ends_stream ops) events = (taken, terminal)" by fastforce
  have "ended s' = terminal" "out' = out @ map Ok taken"
    using assms(1,2) Inr t by (auto simp: append_result_def)
  then show ?thesis using shaped_append [OF assms(3) take_events_shaped [OF t]] by simp
qed

lemma decode_frames_shaped:
  assumes "\<not> ended s" "decode_frames ops s frames out = (s', out')" "shaped ops False out"
  shows "shaped ops (ended s') out'"
  using assms
proof (induction frames arbitrary: s out)
  case (Cons f fs)
  obtain d events where d: "decode_event ops (inner s) f = (d, events)" by fastforce
  obtain s1 o1 where a: "append_result ops (s \<lparr> inner := d \<rparr>) events out = (s1, o1)" by fastforce
  have sh: "shaped ops (ended s1) o1" using append_shaped [OF _ a Cons.prems(3)] Cons.prems(1) by simp
  show ?case
  proof (cases "ended s1")
    case True
    then show ?thesis using Cons.prems(2) d a sh by simp
  next
    case False
    then show ?thesis using Cons.prems(2) d a sh Cons.IH [of s1 o1] by simp
  qed
qed simp

lemma push_bytes_shaped:
  assumes "\<not> ended s" "push_bytes ops s bs = (s', out)"
  shows "shaped ops (ended s') out"
proof -
  obtain f frames failure where b: "push_batch (framing s) bs = (f, frames, failure)" by (metis prod_cases3)
  obtain s1 o1 where d: "decode_frames ops (s \<lparr> framing := f \<rparr>) frames [] = (s1, o1)" by fastforce
  have sh: "shaped ops (ended s1) o1"
    using decode_frames_shaped [OF _ d] assms(1) by (simp add: shaped_def)
  show ?thesis
  proof (cases "ended s1 \<or> failure = None")
    case True
    then show ?thesis using assms b d sh by (auto simp: push_bytes_def split: if_splits)
  next
    case False
    then obtain e where "failure = Some e" by auto
    then have "append_result ops s1 (Err e) o1 = (s', out)"
      using assms b d False by (simp add: push_bytes_def)
    then show ?thesis using append_shaped [of s1 ops "Err e" o1] False sh by simp
  qed
qed

lemma finish_shaped:
  assumes "\<not> ended s" "decoder_finish ops s = (s', out)"
  shows "ended s'" "shaped ops False out \<or> shaped ops True out"
proof -
  obtain f flushed where fl: "sse_finish (framing s) = (f, flushed)" by fastforce
  define s0 where "s0 = s \<lparr> framing := f \<rparr>"
  define step where "step = (case flushed of
        Inl e \<Rightarrow> append_result ops s0 (Err e) []
      | Inr None \<Rightarrow> (s0, [])
      | Inr (Some frame) \<Rightarrow>
          (case decode_event ops (inner s0) frame of
             (d, events) \<Rightarrow> append_result ops (s0 \<lparr> inner := d \<rparr>) events []))"
  obtain s1 o1 where st: "step = (s1, o1)" by fastforce
  have empty: "shaped ops False []" by (simp add: shaped_def)
  have s0: "\<not> ended s0" using assms(1) by (simp add: s0_def)
  have sh: "shaped ops (ended s1) o1"
  proof (cases flushed)
    case (Inl e)
    then show ?thesis using st append_shaped [OF s0 _ empty] by (simp add: step_def)
  next
    case (Inr frame)
    show ?thesis
    proof (cases frame)
      case None
      then show ?thesis using st Inr s0 empty by (auto simp: step_def)
    next
      case (Some fr)
      obtain d0 r where "decode_event ops (inner s0) fr = (d0, r)" by fastforce
      then have "append_result ops (s0 \<lparr> inner := d0 \<rparr>) r [] = (s1, o1)"
        using st Inr Some by (simp add: step_def)
      then show ?thesis using append_shaped [OF _ _ empty, of "s0 \<lparr> inner := d0 \<rparr>"] s0 by simp
    qed
  qed
  obtain d events where fe: "finish_events ops (inner s1) = (d, events)" by fastforce
  obtain s2 o2 where last_step: "append_result ops (s1 \<lparr> inner := d \<rparr>) events o1 = (s2, o2)" by fastforce
  have run: "decoder_finish ops s =
      (if ended s1 then (s1 \<lparr> ended := True \<rparr>, o1) else (s2 \<lparr> ended := True \<rparr>, o2))"
    using assms(1) st [unfolded step_def s0_def]
    by (simp add: decoder_finish_def Let_def fl fe last_step)
  show "ended s'" using run assms(2) by (auto split: if_splits)
  have "\<not> ended s1 \<Longrightarrow> shaped ops (ended s2) o2"
    using append_shaped [OF _ last_step] sh by simp
  then show "shaped ops False out \<or> shaped ops True out"
    using run assms(2) sh by (cases "ended s1"; cases "ended s2") auto
qed

lemma push_chunks_concat:
  "(case push_chunks ops s cs of (s', out) \<Rightarrow> (visible s', out)) =
   (case push_bytes ops s (concat cs) of (s', out) \<Rightarrow> (visible s', out))"
proof (induction cs arbitrary: s)
  case Nil
  then show ?case by (simp add: push_bytes_def push_batch_def)
next
  case (Cons c cs)
  obtain s1 o1 where p: "push_bytes ops s c = (s1, o1)" by fastforce
  show ?case
    using Cons.IH [of s1] push_bytes_append [of ops s c "concat cs"] p
    by (auto split: prod.splits)
qed

section \<open>Properties\<close>

text \<open>
  C25. How the transport cuts a stream into chunks is invisible to the events: feeding the chunks
  one after another gives the same events and errors in the same order, the same decoder
  state and the same open or closed condition as feeding the whole stream at once, for every
  wire format's decoder.
\<close>

theorem decoder_chunking_invisible:
  "(case push_chunks ops s chunks of (s', out) \<Rightarrow> (visible s', out)) =
   (case push_bytes ops s (concat chunks) of (s', out) \<Rightarrow> (visible s', out))"
  by (rule push_chunks_concat)

text \<open>
  C26. A stream ends once. Over a whole run, chunks and finish together, a terminal event or an
  error can only be the last item delivered, whatever the event decoder returns; and a finished
  decoder delivers nothing more.
\<close>

theorem stream_ends_once:
  assumes "push_chunks ops (new_decoder d) chunks = (s1, out1)" "decoder_finish ops s1 = (s2, out2)"
  shows "list_all (ordinary ops) (butlast (out1 @ out2))
    \<and> push_bytes ops s2 later = (s2, []) \<and> decoder_finish ops s2 = (s2, [])"
proof -
  obtain s' out where whole: "push_bytes ops (new_decoder d) (concat chunks) = (s', out)" by fastforce
  have eq: "visible s1 = visible s'" "out1 = out"
    using push_chunks_concat [of ops "new_decoder d" chunks] assms(1) whole by simp_all
  then have "ended s1 = ended s'" by (simp add: visible_def)
  then have sh: "shaped ops (ended s1) out1"
    using push_bytes_shaped [OF _ whole] eq by (simp add: new_decoder_def)
  show ?thesis
  proof (cases "ended s1")
    case True
    then show ?thesis using sh assms(2) by (auto simp: decoder_finish_def shaped_def)
  next
    case False
    have "list_all (ordinary ops) (butlast (out1 @ out2))"
      using finish_shaped(2) [OF False assms(2)] sh False
      by (intro list_all_butlast_append) (auto simp: shaped_def intro: list_all_butlast)
    then show ?thesis
      using finish_shaped(1) [OF False assms(2)] by (simp add: decoder_finish_def)
  qed
qed

definition echo_decoder :: "(unit, bytes) event_decoder" where
  "echo_decoder = \<lparr> decode_event = (\<lambda>d frame. (d, Ok [frame])), finish_events = (\<lambda>d. (d, Ok [])),
     ends_stream = (\<lambda>frame. frame = []) \<rparr>"

theorem stream_ends_once_witness:
  "push_bytes echo_decoder \<lparr> inner = (), framing = \<lparr> buffer = [], skip_lf = False \<rparr>, ended = True \<rparr> [10]
    = (\<lparr> inner = (), framing = \<lparr> buffer = [], skip_lf = False \<rparr>, ended = True \<rparr>, [])"
proof -
  have fed: "push_chunks echo_decoder (new_decoder ()) [] = (new_decoder (), [])" by simp
  have closed: "decoder_finish echo_decoder (new_decoder ())
      = (\<lparr> inner = (), framing = \<lparr> buffer = [], skip_lf = False \<rparr>, ended = True \<rparr>, [])"
    by (simp add: decoder_finish_def new_decoder_def new_sse_def sse_finish_def parse_event_def
        parse_lines.simps echo_decoder_def append_result_def Let_def)
  from stream_ends_once [OF fed closed, of "[10]"] show ?thesis by simp
qed

end
