(* ===== verification/Stream_Assembly.thy ===== *)
theory Stream_Assembly
  imports Stream_Events
begin

text \<open>
  Assembly of stream events into a response (\<^verbatim>\<open>src/stream_assembly.rs\<close>): the
  accumulator, the projection of each block, and the decision whether a stream ended
  well.

  The exact-JSON payload type and the connector-text accumulator belong to other
  modules; the operations of them used here are the record \<open>payload_ops\<close>.  A
  \<^verbatim>\<open>BTreeMap<usize, _>\<close> is an association list in ascending key order.  Fields of
  the response that assembly leaves at their defaults are not represented.
\<close>

section \<open>Ordered maps\<close>

fun entry_update :: "nat \<Rightarrow> 'v \<Rightarrow> ('v \<Rightarrow> 'v) \<Rightarrow> (nat \<times> 'v) list \<Rightarrow> (nat \<times> 'v) list" where
  "entry_update k d f [] = [(k, f d)]"
| "entry_update k d f ((k', v) # m) =
    (if k < k' then (k, f d) # (k', v) # m
     else if k = k' then (k', f v) # m
     else (k', v) # entry_update k d f m)"

section \<open>Blocks\<close>

record ('c) payload_ops =
  parse_units :: "u16 list \<Rightarrow> json_payload option"
  text_source :: "json_payload \<Rightarrow> (scalars \<times> u16 list \<times> json_payload option option) option"
  is_message_phase :: "json_payload \<Rightarrow> bool"
  merge_metadata :: "json_payload \<Rightarrow> json_payload \<Rightarrow> llm_error + json_payload"
  connector_push :: "'c \<Rightarrow> json_payload \<Rightarrow> 'c \<times> (nat \<times> content_block) option"

definition empty_object :: json_payload where
  "empty_object = ''{}''"

record tool =
  tool_id :: tool_use_id
  tool_provider_id :: "string option"
  caller :: "json_payload option"
  toolset_name :: "string option"
  tool_name :: string
  arguments :: "u16 list"

record block =
  block_text :: "scalars option"
  utf16_units :: "u16 list option"
  citations :: "json_payload option option"
  block_thinking :: "scalars option"
  signature :: "string option"
  block_tool :: "tool option"
  native :: "content_block option"
  replay_companion :: "content_block option"
  block_ended :: bool

definition default_block :: block where
  "default_block = \<lparr> block_text = None, utf16_units = None, citations = None,
     block_thinking = None, signature = None, block_tool = None, native = None,
     replay_companion = None, block_ended = False \<rparr>"

fun is_native_block :: "content_block \<Rightarrow> bool" where
  "is_native_block (NativeBlock _) = True"
| "is_native_block _ = False"

definition tool_content :: "'c payload_ops \<Rightarrow> block \<Rightarrow> tool \<Rightarrow> bool \<Rightarrow> content_block option" where
  "tool_content ops b t terminal =
    (if tool_id t = [] \<or> tool_name t = [] \<or> \<not> block_ended b \<and> \<not> terminal then None
     else
       Option.bind (if arguments t = [] then Some empty_object else parse_units ops (arguments t))
         (\<lambda>input. Some (ToolUse (tool_id t) (tool_name t) input (tool_provider_id t) (caller t)
                        (toolset_name t) (signature b))))"

definition block_content ::
  "'c payload_ops \<Rightarrow> block \<Rightarrow> bool \<Rightarrow> bool \<Rightarrow> content_block option" where
  "block_content ops b terminal native_terminal =
    (case native b of
       Some n \<Rightarrow> if is_native_block n \<and> \<not> native_terminal then None else Some n
     | None \<Rightarrow>
         (case block_tool b of
            Some t \<Rightarrow> tool_content ops b t terminal
          | None \<Rightarrow>
              (case block_thinking b of
                 Some t \<Rightarrow> Some (Thinking t (signature b))
               | None \<Rightarrow>
                   map_option (\<lambda>txt. case utf16_units b of
                       Some units \<Rightarrow> TextJsUtf16 txt units (signature b) (citations b)
                     | None \<Rightarrow> TextBlock txt (signature b) (citations b)) (block_text b))))"

section \<open>The accumulator\<close>

record 'c accumulator =
  blocks :: "(nat \<times> block) list"
  completed_order :: "nat list"
  connectors :: 'c
  events :: "stream_event list"
  acc_model :: string
  acc_response_id :: "response_id option"
  acc_stop_reason :: "stop_reason option"
  acc_usage :: usage_report
  acc_inference :: inference_report
  acc_web_search :: "web_search_result option"
  acc_file_search :: "file_search_result option"
  projection_error :: "llm_error option"

definition new_accumulator :: "'c \<Rightarrow> 'c accumulator" where
  "new_accumulator c = \<lparr> blocks = [], completed_order = [], connectors = c, events = [],
     acc_model = [], acc_response_id = None, acc_stop_reason = None,
     acc_usage = default_report, acc_inference = default_inference,
     acc_web_search = None, acc_file_search = None, projection_error = None \<rparr>"

definition on_block :: "nat \<Rightarrow> (block \<Rightarrow> block) \<Rightarrow> 'c accumulator \<Rightarrow> 'c accumulator" where
  "on_block k f a = a \<lparr> blocks := entry_update k default_block f (blocks a) \<rparr>"

definition add_text :: "scalars \<Rightarrow> block \<Rightarrow> block" where
  "add_text txt b =
    (case utf16_units b of
       Some units \<Rightarrow> b \<lparr> utf16_units := Some (units @ encode_utf16 txt),
                        block_text := Some (from_utf16_lossy (units @ encode_utf16 txt)) \<rparr>
     | None \<Rightarrow> b \<lparr> block_text := Some ((case block_text b of Some t \<Rightarrow> t | None \<Rightarrow> []) @ txt) \<rparr>)"

definition add_exact_text :: "u16 list \<Rightarrow> block \<Rightarrow> block" where
  "add_exact_text more_units b =
    (let units = (case utf16_units b of
                    Some us \<Rightarrow> us
                  | None \<Rightarrow> encode_utf16 (case block_text b of Some t \<Rightarrow> t | None \<Rightarrow> [])) @ more_units in
     b \<lparr> utf16_units := Some units, block_text := Some (from_utf16_lossy units) \<rparr>)"

definition merge_tool ::
  "tool_use_id \<Rightarrow> string option \<Rightarrow> json_payload option \<Rightarrow> string option \<Rightarrow> string \<Rightarrow> u16 list \<Rightarrow> tool \<Rightarrow> tool" where
  "merge_tool tid pid call toolset name fragment t =
    t \<lparr> tool_id := (if tid \<noteq> [] then tid else tool_id t),
        tool_name := (if name \<noteq> [] then name else tool_name t),
        tool_provider_id := or_keep pid (tool_provider_id t),
        caller := or_keep call (caller t),
        toolset_name := or_keep toolset (toolset_name t),
        arguments := arguments t @ fragment \<rparr>"

definition add_tool_delta ::
  "tool_use_id \<Rightarrow> string option \<Rightarrow> json_payload option \<Rightarrow> string option \<Rightarrow> string \<Rightarrow> u16 list \<Rightarrow> block \<Rightarrow> block" where
  "add_tool_delta tid pid call toolset name fragment b =
    (let t = (case block_tool b of
                Some t \<Rightarrow> t
              | None \<Rightarrow> \<lparr> tool_id = tid, tool_provider_id = None, caller = None,
                          toolset_name = None, tool_name = name, arguments = [] \<rparr>) in
     b \<lparr> block_tool := Some (merge_tool tid pid call toolset name fragment t) \<rparr>)"

definition add_provider_content ::
  "'c payload_ops \<Rightarrow> protocol_family \<Rightarrow> json_payload \<Rightarrow> block \<Rightarrow> block" where
  "add_provider_content ops fam v b =
    (if fam = OpenAiResponses \<and> is_message_phase ops v
     then b \<lparr> replay_companion := Some (ProviderContent fam v) \<rparr>
     else
       (case (if fam = AnthropicMessages then text_source ops v else None) of
          Some (txt, units, cites) \<Rightarrow>
            b \<lparr> block_text := Some txt,
                utf16_units := (if utf16_valid units then None else Some units),
                citations := cites \<rparr>
        | None \<Rightarrow> b \<lparr> native := Some (ProviderContent fam v) \<rparr>))"

definition extend_unique :: "'a list \<Rightarrow> 'a list \<Rightarrow> 'a list" where
  "extend_unique current incoming =
    foldl (\<lambda>acc v. if contains acc v then acc else acc @ [v]) current incoming"

definition keep_error :: "llm_error \<Rightarrow> 'c accumulator \<Rightarrow> 'c accumulator" where
  "keep_error e a = a \<lparr> projection_error := or_keep (projection_error a) (Some e) \<rparr>"

definition observe_web :: "'c payload_ops \<Rightarrow> web_search_result \<Rightarrow> 'c accumulator \<Rightarrow> 'c accumulator" where
  "observe_web ops result a =
    (let current = (case acc_web_search a of
                      Some w \<Rightarrow> w | None \<Rightarrow> \<lparr> ws_citations = [], ws_metadata = ''null'' \<rparr>);
         cited = current \<lparr> ws_citations := extend_unique (ws_citations current) (ws_citations result) \<rparr> in
     (case merge_metadata ops (ws_metadata current) (ws_metadata result) of
        Inr merged \<Rightarrow> a \<lparr> acc_web_search := Some (cited \<lparr> ws_metadata := merged \<rparr>) \<rparr>
      | Inl e \<Rightarrow> keep_error e (a \<lparr> acc_web_search := Some cited \<rparr>)))"

definition observe_file :: "'c payload_ops \<Rightarrow> file_search_result \<Rightarrow> 'c accumulator \<Rightarrow> 'c accumulator" where
  "observe_file ops result a =
    (let current = (case acc_file_search a of
                      Some w \<Rightarrow> w | None \<Rightarrow> \<lparr> fs_queries = [], fs_hits = [], fs_metadata = ''null'' \<rparr>);
         found = current \<lparr> fs_queries := extend_unique (fs_queries current) (fs_queries result),
                           fs_hits := extend_unique (fs_hits current) (fs_hits result) \<rparr> in
     (case merge_metadata ops (fs_metadata current) (fs_metadata result) of
        Inr merged \<Rightarrow> a \<lparr> acc_file_search := Some (found \<lparr> fs_metadata := merged \<rparr>) \<rparr>
      | Inl e \<Rightarrow> keep_error e (a \<lparr> acc_file_search := Some found \<rparr>)))"

definition mark_completed :: "nat \<Rightarrow> 'c accumulator \<Rightarrow> 'c accumulator" where
  "mark_completed k a =
    a \<lparr> completed_order := (if contains (completed_order a) k then completed_order a
                             else completed_order a @ [k]) \<rparr>"

fun project :: "'c payload_ops \<Rightarrow> stream_event \<Rightarrow> 'c accumulator \<Rightarrow> 'c accumulator" where
  "project ops (Start model rid) a = a \<lparr> acc_model := model, acc_response_id := rid \<rparr>"
| "project ops (TextDelta k txt) a = on_block k (add_text txt) a"
| "project ops (TextDeltaJsUtf16 k txt units) a = on_block k (add_exact_text units) a"
| "project ops (ReasoningDelta k txt) a =
    on_block k (\<lambda>b. b \<lparr> block_thinking :=
      Some ((case block_thinking b of Some t \<Rightarrow> t | None \<Rightarrow> []) @ txt) \<rparr>) a"
| "project ops (ThoughtSignature k sig) a =
    on_block k (\<lambda>b. b \<lparr> signature :=
      Some ((case signature b of Some t \<Rightarrow> t | None \<Rightarrow> []) @ sig) \<rparr>) a"
| "project ops (RedactedThinkingEvent k dat) a =
    on_block k (\<lambda>b. b \<lparr> native := Some (RedactedThinking dat) \<rparr>) a"
| "project ops (NativeEvent k v) a =
    on_block k (\<lambda>b. b \<lparr> native := Some (NativeBlock v), block_ended := True \<rparr>) a"
| "project ops (ProviderContentEvent k fam v) a = on_block k (add_provider_content ops fam v) a"
| "project ops (ToolCallDelta k tid pid call toolset name fragment) a =
    on_block k (add_tool_delta tid pid call toolset name fragment) a"
| "project ops (BlockEnd k) a =
    mark_completed k (on_block k (\<lambda>b. b \<lparr> block_ended := True \<rparr>) a)"
| "project ops (InferenceEvent rep) a = a \<lparr> acc_inference := rep \<rparr>"
| "project ops (WebSearch result) a = observe_web ops result a"
| "project ops (FileSearch result) a = observe_file ops result a"
| "project ops (EndEvent stop u rep) a =
    a \<lparr> acc_stop_reason := Some stop, acc_usage := u, acc_inference := rep \<rparr>"
| "project ops (ProviderEvent fam v) a =
    (if fam \<noteq> AnthropicMessages then a
     else
       (case connector_push ops (connectors a) v of
          (c, None) \<Rightarrow> a \<lparr> connectors := c \<rparr>
        | (c, Some (k, n)) \<Rightarrow>
            mark_completed k (on_block k (\<lambda>b. b \<lparr> native := Some n, block_ended := True \<rparr>)
              (a \<lparr> connectors := c \<rparr>))))"
| "project ops (NativeDelta k fam v) a = a"
| "project ops (NativeControl fam v) a = a"

definition observe :: "'c payload_ops \<Rightarrow> 'c accumulator \<Rightarrow> stream_event \<Rightarrow> 'c accumulator" where
  "observe ops a e = (project ops e a) \<lparr> events := events a @ [e] \<rparr>"

text \<open>Batches: every successful event is observed, the first error is kept.\<close>

record stream_batch =
  batch_events :: "(llm_error + stream_event) list"
  batch_usage :: usage_report
  batch_inference :: inference_report
  batch_finished :: bool

fun observe_events ::
  "'c payload_ops \<Rightarrow> 'c accumulator \<Rightarrow> llm_error option \<Rightarrow> (llm_error + stream_event) list
    \<Rightarrow> 'c accumulator \<times> llm_error option" where
  "observe_events ops a failure [] = (a, failure)"
| "observe_events ops a failure (Inl e # rs) = observe_events ops a (or_keep failure (Some e)) rs"
| "observe_events ops a failure (Inr ev # rs) =
    (let a' = observe ops a ev in observe_events ops a' (or_keep failure (projection_error a')) rs)"

definition observe_batch ::
  "'c payload_ops \<Rightarrow> 'c accumulator \<Rightarrow> stream_batch \<Rightarrow> 'c accumulator \<times> (llm_error + unit)" where
  "observe_batch ops a batch =
    (case observe_events ops a (projection_error a) (batch_events batch) of
       (a', failure) \<Rightarrow>
         (a' \<lparr> acc_usage := batch_usage batch, acc_inference := batch_inference batch \<rparr>,
          case failure of None \<Rightarrow> Ok () | Some e \<Rightarrow> Err e))"

section \<open>Projection\<close>

definition is_terminal :: "'c accumulator \<Rightarrow> bool" where
  "is_terminal a = is_some (acc_stop_reason a)"

definition native_terminal :: "'c accumulator \<Rightarrow> bool" where
  "native_terminal a =
    (case acc_stop_reason a of
       Some ToolUseStop \<Rightarrow> True
     | Some EndTurn \<Rightarrow> True
     | Some (OtherStop reason) \<Rightarrow> reason = ''requires_action''
     | _ \<Rightarrow> False)"

definition content_of :: "'c payload_ops \<Rightarrow> 'c accumulator \<Rightarrow> block \<Rightarrow> content_block option" where
  "content_of ops a b = block_content ops b (is_terminal a) (native_terminal a)"

definition content_at :: "'c payload_ops \<Rightarrow> 'c accumulator \<Rightarrow> nat \<Rightarrow> content_block option" where
  "content_at ops a k = Option.bind (map_of (blocks a) k) (content_of ops a)"

definition completed_blocks :: "'c payload_ops \<Rightarrow> 'c accumulator \<Rightarrow> (nat \<times> content_block) list" where
  "completed_blocks ops a =
    List.map_filter (\<lambda>k. Option.bind (map_of (blocks a) k)
      (\<lambda>b. map_option (Pair k) (block_content ops b False False))) (completed_order a)"

definition tool_progress :: "'c accumulator \<Rightarrow> nat \<Rightarrow> stream_event option" where
  "tool_progress a k =
    Option.bind (map_of (blocks a) k) (\<lambda>b. map_option (\<lambda>t.
      ToolCallDelta k (tool_id t) (tool_provider_id t) (caller t) (toolset_name t) (tool_name t)
        (arguments t)) (block_tool b))"

definition block_finished :: "'c accumulator \<Rightarrow> nat \<Rightarrow> bool" where
  "block_finished a k =
    (case map_of (blocks a) k of
       None \<Rightarrow> False
     | Some b \<Rightarrow> block_ended b \<or> is_some (native b) \<or> is_terminal a)"

definition apply_server_fallback :: "string \<Rightarrow> nat list \<Rightarrow> 'c accumulator \<Rightarrow> 'c accumulator" where
  "apply_server_fallback to_model discarded a =
    a \<lparr> acc_model := to_model,
        blocks := filter (\<lambda>(k, b). \<not> contains discarded k) (blocks a),
        completed_order := filter (\<lambda>k. \<not> contains discarded k) (completed_order a) \<rparr>"

record incomplete_tool =
  it_block :: nat
  it_name :: string
  it_input_bytes :: nat
  it_ended :: bool

record tool_input_issue =
  issue_block :: nat
  issue_name :: string
  issue_input_bytes :: nat
  issue_tool_id :: "tool_use_id option"

text \<open>The UTF-8 length of a scalar value, for \<^verbatim>\<open>String::len\<close>.\<close>

definition scalar_bytes :: "scalar \<Rightarrow> nat" where
  "scalar_bytes c = (if c < 128 then 1 else if c < 2048 then 2 else if c < 65536 then 3 else 4)"

definition incomplete_of :: "'c payload_ops \<Rightarrow> 'c accumulator \<Rightarrow> nat \<times> block \<Rightarrow> incomplete_tool option" where
  "incomplete_of ops a kb =
    Option.bind (block_tool (snd kb)) (\<lambda>t.
      if is_some (content_of ops a (snd kb)) then None
      else Some \<lparr> it_block = fst kb, it_name = tool_name t,
                  it_input_bytes = sum_list (map scalar_bytes (from_utf16_lossy (arguments t))),
                  it_ended = is_terminal a \<or> block_ended (snd kb) \<rparr>)"

definition unfinished :: "'c payload_ops \<Rightarrow> 'c accumulator \<Rightarrow> block \<Rightarrow> bool" where
  "unfinished ops a b =
    (is_some (block_tool b) \<and> content_of ops a b = None
     \<or> \<not> is_terminal a \<and> \<not> block_ended b \<and> native b = None)"

record assembly =
  message_content :: "content_block list"
  indexed_content :: "(nat \<times> content_block) list"
  as_events :: "stream_event list"
  as_terminal :: bool
  unfinished_blocks :: "nat list"
  incomplete_tools :: "incomplete_tool list"
  tool_input_issues :: "tool_input_issue list"
  as_stop_reason :: stop_reason
  as_usage :: usage_report
  as_inference :: inference_report
  as_web_search :: "web_search_result option"
  as_file_search :: "file_search_result option"
  as_model :: string
  as_response_id :: "response_id option"

fun option_list :: "'a option \<Rightarrow> 'a list" where
  "option_list (Some x) = [x]"
| "option_list None = []"

definition snapshot :: "'c payload_ops \<Rightarrow> 'c accumulator \<Rightarrow> assembly" where
  "snapshot ops a =
    (let incomplete = List.map_filter (incomplete_of ops a) (blocks a) in
     \<lparr> message_content = concat (map (\<lambda>kb. option_list (content_of ops a (snd kb))
                            @ option_list (replay_companion (snd kb))) (blocks a)),
       indexed_content = List.map_filter
         (\<lambda>kb. map_option (Pair (fst kb)) (content_of ops a (snd kb))) (blocks a),
       as_events = events a,
       as_terminal = is_terminal a,
       unfinished_blocks = map fst (filter (\<lambda>kb. unfinished ops a (snd kb)) (blocks a)),
       incomplete_tools = incomplete,
       tool_input_issues = map (\<lambda>issue.
         \<lparr> issue_block = it_block issue, issue_name = it_name issue,
           issue_input_bytes = it_input_bytes issue,
           issue_tool_id = Option.bind (map_of (blocks a) (it_block issue))
             (\<lambda>b. map_option tool_id (block_tool b)) \<rparr>) incomplete,
       as_stop_reason = (case acc_stop_reason a of
         Some r \<Rightarrow> r | None \<Rightarrow> OtherStop ''stream_interrupted''),
       as_usage = acc_usage a, as_inference = acc_inference a,
       as_web_search = acc_web_search a, as_file_search = acc_file_search a,
       as_model = acc_model a, as_response_id = acc_response_id a \<rparr>)"

definition assembly_finish :: "'c payload_ops \<Rightarrow> 'c accumulator \<Rightarrow> llm_error \<times> assembly + assembly" where
  "assembly_finish ops a =
    (let result = snapshot ops a in
     case projection_error a of
       Some e \<Rightarrow> Err (e, result)
     | None \<Rightarrow>
         if \<not> as_terminal result
            \<or> unfinished_blocks result \<noteq> [] \<and> as_stop_reason result \<noteq> MaxTokensStop
         then Err (StreamInterrupted [Lit (if as_terminal result
                     then ''stream ended with an incomplete tool call''
                     else ''stream ended without a terminal event'')], result)
         else Ok result)"

fun collect_batches ::
  "'c payload_ops \<Rightarrow> 'c accumulator \<Rightarrow> stream_batch list \<Rightarrow> llm_error \<times> assembly + assembly" where
  "collect_batches ops a [] = assembly_finish ops a"
| "collect_batches ops a (b # bs) =
    (case observe_batch ops a b of
       (a', Inl e) \<Rightarrow> Err (e, snapshot ops a')
     | (a', Inr _) \<Rightarrow> collect_batches ops a' bs)"

section \<open>Lemmas\<close>

subsection \<open>The ordered map\<close>

definition ordered :: "(nat \<times> 'v) list \<Rightarrow> bool" where
  "ordered m \<longleftrightarrow> sorted_wrt (<) (map fst m)"

lemma keys_entry_update: "fst ` set (entry_update k d f m) = insert k (fst ` set m)"
proof (induction m)
  case (Cons p m)
  then show ?case by (cases p) (simp add: insert_commute)
qed simp

lemma ordered_entry_update: "ordered m \<Longrightarrow> ordered (entry_update k d f m)"
proof (induction m)
  case (Cons p m)
  then show ?case
    using keys_entry_update [of k d f m] by (cases p) (auto simp: ordered_def image_iff)
qed (simp add: ordered_def)

lemma map_of_above: "list_all (\<lambda>x. (k :: nat) < fst x) m \<Longrightarrow> map_of m k = None"
  by (auto simp: list_all_iff map_of_eq_None_iff)

lemma map_of_entry_update:
  "ordered m \<Longrightarrow> map_of (entry_update k d f m) =
    (map_of m)(k \<mapsto> f (case map_of m k of Some v \<Rightarrow> v | None \<Rightarrow> d))"
proof (induction m)
  case (Cons p m)
  obtain k' v where p: "p = (k', v)" by (cases p)
  have above: "k < k' \<Longrightarrow> map_of m k = None"
    using Cons.prems p by (intro map_of_above) (auto simp: ordered_def list_all_iff)
  have "ordered m" using Cons.prems by (simp add: ordered_def)
  then show ?case using Cons.IH above p by (auto simp: fun_eq_iff)
qed simp

definition block_of :: "'c accumulator \<Rightarrow> nat \<Rightarrow> block" where
  "block_of a k = (case map_of (blocks a) k of Some b \<Rightarrow> b | None \<Rightarrow> default_block)"

lemma ordered_on_block: "ordered (blocks a) \<Longrightarrow> ordered (blocks (on_block k f a))"
  by (simp add: on_block_def ordered_entry_update)

lemma block_of_on_block:
  "ordered (blocks a) \<Longrightarrow> block_of (on_block k f a) k' = (if k' = k then f (block_of a k) else block_of a k')"
  by (simp add: block_of_def on_block_def map_of_entry_update)

lemma blocks_unchanged [simp]:
  "blocks (mark_completed k a) = blocks a" "blocks (keep_error e a) = blocks a"
  "blocks (observe_web ops w a) = blocks a" "blocks (observe_file ops fr a) = blocks a"
  by (simp_all add: mark_completed_def keep_error_def observe_web_def observe_file_def Let_def
      split: sum.split)

lemma block_of_cong: "blocks a = blocks b \<Longrightarrow> block_of a k = block_of b k"
  by (simp add: block_of_def)

text \<open>What one event does to one block.\<close>

fun event_block :: "'c payload_ops \<Rightarrow> 'c \<Rightarrow> stream_event \<Rightarrow> nat \<Rightarrow> block \<Rightarrow> block" where
  "event_block ops c (TextDelta k txt) k' b = (if k' = k then add_text txt b else b)"
| "event_block ops c (TextDeltaJsUtf16 k txt units) k' b = (if k' = k then add_exact_text units b else b)"
| "event_block ops c (ReasoningDelta k txt) k' b =
    (if k' = k then b \<lparr> block_thinking :=
      Some ((case block_thinking b of Some t \<Rightarrow> t | None \<Rightarrow> []) @ txt) \<rparr> else b)"
| "event_block ops c (ThoughtSignature k sig) k' b =
    (if k' = k then b \<lparr> signature :=
      Some ((case signature b of Some t \<Rightarrow> t | None \<Rightarrow> []) @ sig) \<rparr> else b)"
| "event_block ops c (RedactedThinkingEvent k dat) k' b =
    (if k' = k then b \<lparr> native := Some (RedactedThinking dat) \<rparr> else b)"
| "event_block ops c (NativeEvent k v) k' b =
    (if k' = k then b \<lparr> native := Some (NativeBlock v), block_ended := True \<rparr> else b)"
| "event_block ops c (ProviderContentEvent k fam v) k' b =
    (if k' = k then add_provider_content ops fam v b else b)"
| "event_block ops c (ToolCallDelta k tid pid call toolset name fragment) k' b =
    (if k' = k then add_tool_delta tid pid call toolset name fragment b else b)"
| "event_block ops c (BlockEnd k) k' b = (if k' = k then b \<lparr> block_ended := True \<rparr> else b)"
| "event_block ops c (ProviderEvent fam v) k' b =
    (case (if fam = AnthropicMessages then snd (connector_push ops c v) else None) of
       Some (k, n) \<Rightarrow> if k' = k then b \<lparr> native := Some n, block_ended := True \<rparr> else b
     | None \<Rightarrow> b)"
| "event_block ops c _ k' b = b"

lemma on_block_blocks [simp]: "blocks (on_block k f (a \<lparr> connectors := c \<rparr>)) = blocks (on_block k f a)"
  by (simp add: on_block_def)

lemma ordered_project: "ordered (blocks a) \<Longrightarrow> ordered (blocks (project ops e a))"
  by (cases e) (auto simp: ordered_on_block split: prod.split option.split)

lemma block_of_project:
  assumes "ordered (blocks a)"
  shows "block_of (project ops e a) k = event_block ops (connectors a) e k (block_of a k)"
proof (cases e)
  case (ProviderEvent fam v)
  then show ?thesis
    using block_of_on_block [OF assms]
      block_of_cong [of "mark_completed k' (on_block k' f (a \<lparr> connectors := c \<rparr>))" "on_block k' f a" k for k' f c]
      block_of_cong [of "a \<lparr> connectors := c \<rparr>" a k for c]
    by (auto split: prod.split option.split)
qed (use block_of_on_block [OF assms] in \<open>auto intro!: block_of_cong
      simp: block_of_cong [of "mark_completed k' a'" a' k for k' a']\<close>)

subsection \<open>Streams of events\<close>

definition assemble :: "'c payload_ops \<Rightarrow> 'c \<Rightarrow> stream_event list \<Rightarrow> 'c accumulator" where
  "assemble ops c evs = foldl (observe ops) (new_accumulator c) evs"

lemma observe_blocks [simp]:
  "blocks (observe ops a e) = blocks (project ops e a)"
  "block_of (observe ops a e) k = block_of (project ops e a) k"
  "events (observe ops a e) = events a @ [e]"
  by (simp_all add: observe_def block_of_def)

lemma assemble_snoc: "assemble ops c (evs @ [e]) = observe ops (assemble ops c evs) e"
  by (simp add: assemble_def)

lemma assemble_Nil [simp]: "blocks (assemble ops c []) = []" "events (assemble ops c []) = []"
  by (simp_all add: assemble_def new_accumulator_def)

lemma ordered_assemble: "ordered (blocks (assemble ops c evs))"
  by (induction evs rule: rev_induct) (simp_all add: assemble_snoc ordered_project, simp add: ordered_def)

lemma events_assemble: "events (assemble ops c evs) = evs"
  by (induction evs rule: rev_induct) (simp_all add: assemble_snoc)

lemma block_of_assemble_snoc:
  "block_of (assemble ops c (evs @ [e])) k =
    event_block ops (connectors (assemble ops c evs)) e k (block_of (assemble ops c evs) k)"
  by (simp add: assemble_snoc block_of_project ordered_assemble)

text \<open>The UTF-16 code units an event contributes to the text, or to the tool arguments, of a block.\<close>

fun text_units_of :: "nat \<Rightarrow> stream_event \<Rightarrow> u16 list" where
  "text_units_of k (TextDelta k' txt) = (if k' = k then encode_utf16 txt else [])"
| "text_units_of k (TextDeltaJsUtf16 k' txt units) = (if k' = k then units else [])"
| "text_units_of k _ = []"

fun argument_units_of :: "nat \<Rightarrow> stream_event \<Rightarrow> u16 list" where
  "argument_units_of k (ToolCallDelta k' _ _ _ _ _ fragment) = (if k' = k then fragment else [])"
| "argument_units_of k _ = []"

fun replaces_text :: "nat \<Rightarrow> stream_event \<Rightarrow> bool" where
  "replaces_text k (ProviderContentEvent k' fam v) = (k' = k)"
| "replaces_text k _ = False"

fun scalars_valid :: "stream_event \<Rightarrow> bool" where
  "scalars_valid (TextDelta k txt) = list_all is_scalar txt"
| "scalars_valid _ = True"

definition text_units :: "block \<Rightarrow> u16 list" where
  "text_units b = (case utf16_units b of
     Some us \<Rightarrow> us | None \<Rightarrow> encode_utf16 (case block_text b of Some t \<Rightarrow> t | None \<Rightarrow> []))"

definition argument_units :: "block \<Rightarrow> u16 list" where
  "argument_units b = (case block_tool b of Some t \<Rightarrow> arguments t | None \<Rightarrow> [])"

definition text_ok :: "block \<Rightarrow> bool" where
  "text_ok b = (case utf16_units b of
     Some us \<Rightarrow> block_text b = Some (from_utf16_lossy us)
   | None \<Rightarrow> list_all is_scalar (case block_text b of Some t \<Rightarrow> t | None \<Rightarrow> []))"

lemma encode_append [simp]: "encode_utf16 (s @ t) = encode_utf16 s @ encode_utf16 t"
  by (simp add: encode_utf16_def)

lemma lossy_encode: "list_all is_scalar s \<Longrightarrow> from_utf16_lossy (encode_utf16 s) = s"
  using lossy_encode_append [of s "[]"] by (simp add: list_all_iff)

lemma text_ok_lossy:
  "text_ok b \<Longrightarrow> block_text b = Some t \<Longrightarrow> t = from_utf16_lossy (text_units b)"
  by (auto simp: text_ok_def text_units_def lossy_encode split: option.splits)

lemma argument_units_step:
  "argument_units (event_block ops c e k b) = argument_units b @ argument_units_of k e"
  by (cases e) (auto simp: argument_units_def add_text_def add_exact_text_def Let_def
      add_provider_content_def add_tool_delta_def merge_tool_def split: option.split prod.split)

lemma text_units_step:
  "\<not> replaces_text k e \<Longrightarrow> text_units (event_block ops c e k b) = text_units b @ text_units_of k e"
  by (cases e) (auto simp: text_units_def add_text_def add_exact_text_def Let_def
      add_tool_delta_def split: option.split prod.split)

lemma text_ok_step:
  "\<not> replaces_text k e \<Longrightarrow> scalars_valid e \<Longrightarrow> text_ok b \<Longrightarrow> text_ok (event_block ops c e k b)"
  by (cases e) (auto simp: text_ok_def add_text_def add_exact_text_def Let_def
      add_tool_delta_def split: option.splits prod.split)

lemma assembled_units:
  assumes "list_all (\<lambda>e. scalars_valid e \<and> \<not> replaces_text k e) evs"
  shows "text_units (block_of (assemble ops c evs) k) = concat (map (text_units_of k) evs)
    \<and> text_ok (block_of (assemble ops c evs) k)"
  using assms
proof (induction evs rule: rev_induct)
  case Nil
  then show ?case
    by (simp add: block_of_def default_block_def text_units_def text_ok_def encode_utf16_def)
next
  case (snoc e evs)
  then show ?case by (simp add: block_of_assemble_snoc text_units_step text_ok_step)
qed

lemma assembled_arguments:
  "argument_units (block_of (assemble ops c evs) k) = concat (map (argument_units_of k) evs)"
proof (induction evs rule: rev_induct)
  case Nil
  then show ?case by (simp add: block_of_def default_block_def argument_units_def)
next
  case (snoc e evs)
  then show ?case by (simp add: block_of_assemble_snoc argument_units_step)
qed

section \<open>Properties\<close>

text \<open>
  C23. Assembly is exact to the UTF-16 code unit and loses nothing. The arguments of a tool call are
  the concatenation of all fragments for its block, the units of a text block are the
  concatenation of what its deltas carry, lone surrogates split over deltas included, the
  text shown is their lossy reading, and every event is kept in order, however the blocks
  interleave.
\<close>

theorem assembly_exact:
  assumes "list_all (\<lambda>e. scalars_valid e \<and> \<not> replaces_text k e) evs"
  shows "argument_units (block_of (assemble ops c evs) k) = concat (map (argument_units_of k) evs)
    \<and> text_units (block_of (assemble ops c evs) k) = concat (map (text_units_of k) evs)
    \<and> (case block_text (block_of (assemble ops c evs) k) of
         Some t \<Rightarrow> t = from_utf16_lossy (concat (map (text_units_of k) evs)) | None \<Rightarrow> True)
    \<and> as_events (snapshot ops (assemble ops c evs)) = evs"
proof -
  note units = assembled_units [OF assms, of ops c]
  have "t = from_utf16_lossy (concat (map (text_units_of k) evs))"
    if "block_text (block_of (assemble ops c evs) k) = Some t" for t
    using text_ok_lossy [OF conjunct2 [OF units] that] units by simp
  then show ?thesis
    using units assembled_arguments [of ops c evs k]
    by (simp add: snapshot_def Let_def events_assemble split: option.split)
qed

definition sample_ops :: "unit payload_ops" where
  "sample_ops = \<lparr> parse_units = (\<lambda>us. if us = [123, 125] then Some ''{}'' else None),
     text_source = (\<lambda>_. None), is_message_phase = (\<lambda>_. False),
     merge_metadata = (\<lambda>_ v. Ok v), connector_push = (\<lambda>c _. (c, None)) \<rparr>"

theorem assembly_exact_witness:
  "text_units (block_of (assemble sample_ops ()
      [TextDelta 0 [104], TextDeltaJsUtf16 0 [65533] [0xD83D], TextDeltaJsUtf16 0 [65533] [0xDE00]]) 0)
    = [104, 0xD83D, 0xDE00]"
  using assembly_exact [of 0
      "[TextDelta 0 [104], TextDeltaJsUtf16 0 [65533] [0xD83D], TextDeltaJsUtf16 0 [65533] [0xDE00]]"
      sample_ops "()"]
  by (simp add: is_scalar_def encode_utf16_def utf16_of_scalar_def)

fun is_tool_use :: "content_block \<Rightarrow> bool" where
  "is_tool_use (ToolUse _ _ _ _ _ _ _) = True"
| "is_tool_use _ = False"

definition no_foreign_tools :: "block \<Rightarrow> bool" where
  "no_foreign_tools b \<longleftrightarrow>
    (case native b of Some n \<Rightarrow> \<not> is_tool_use n | None \<Rightarrow> True)
    \<and> (case replay_companion b of Some n \<Rightarrow> \<not> is_tool_use n | None \<Rightarrow> True)"

lemma no_foreign_tools_step:
  assumes "\<And>c v k n. snd (connector_push ops c v) = Some (k, n) \<Longrightarrow> \<not> is_tool_use n"
    and "no_foreign_tools b"
  shows "no_foreign_tools (event_block ops c e k b)"
proof (cases e)
  case (ProviderEvent fam v)
  then show ?thesis
    using assms by (cases "snd (connector_push ops c v)") (auto simp: no_foreign_tools_def)
qed (use assms(2) in \<open>auto simp: no_foreign_tools_def add_text_def add_exact_text_def Let_def
       add_tool_delta_def add_provider_content_def split: option.splits prod.splits\<close>)

lemma no_foreign_tools_assembled:
  assumes "\<And>c v k n. snd (connector_push ops c v) = Some (k, n) \<Longrightarrow> \<not> is_tool_use n"
  shows "no_foreign_tools (block_of (assemble ops c evs) k)"
proof (induction evs rule: rev_induct)
  case Nil
  then show ?case by (simp add: block_of_def default_block_def no_foreign_tools_def)
next
  case (snoc e evs)
  then show ?case by (simp add: block_of_assemble_snoc no_foreign_tools_step [OF assms])
qed

lemma ordered_member: "ordered m \<Longrightarrow> (k, v) \<in> set m \<Longrightarrow> map_of m k = Some v"
  by (auto simp: ordered_def strict_sorted_iff intro: map_of_is_SomeI)

lemma block_of_member:
  "(k, b) \<in> set (blocks (assemble ops c evs)) \<Longrightarrow> block_of (assemble ops c evs) k = b"
  using ordered_member [OF ordered_assemble] by (fastforce simp: block_of_def)

lemma set_option_list [simp]: "set (option_list x) = set_option x"
  by (cases x) simp_all

lemma block_tool_content:
  assumes "no_foreign_tools b" "block_content ops b terminal nt = Some (ToolUse tid name input pid cl ts sig)"
  shows "(block_ended b \<or> terminal) \<and> tid \<noteq> [] \<and> name \<noteq> []
    \<and> (if argument_units b = [] then input = empty_object
       else parse_units ops (argument_units b) = Some input)"
  using assms
  by (auto simp: block_content_def no_foreign_tools_def tool_content_def argument_units_def
      bind_eq_Some_conv split: option.splits if_splits)

text \<open>
  C22. A tool call is executable only when it is complete. Every tool use in an assembled message,
  partial messages of broken streams included, comes from a block the provider closed or a
  stream that reached its terminal event, has an identifier and a name, and its input parses
  from exactly the argument units streamed for that block, or is the empty object when there
  were none; provided connector content is never itself a tool use.
\<close>

theorem executable_tools_complete:
  assumes "\<And>c v k n. snd (connector_push ops c v) = Some (k, n) \<Longrightarrow> \<not> is_tool_use n"
    and "ToolUse tid name input pid cl ts sig \<in> set (message_content (snapshot ops (assemble ops c evs)))"
  shows "\<exists>k. (block_ended (block_of (assemble ops c evs) k) \<or> is_terminal (assemble ops c evs))
    \<and> tid \<noteq> [] \<and> name \<noteq> []
    \<and> (if concat (map (argument_units_of k) evs) = [] then input = empty_object
       else parse_units ops (concat (map (argument_units_of k) evs)) = Some input)"
proof -
  let ?a = "assemble ops c evs"
  obtain k b where kb: "(k, b) \<in> set (blocks ?a)"
    "content_of ops ?a b = Some (ToolUse tid name input pid cl ts sig)
      \<or> replay_companion b = Some (ToolUse tid name input pid cl ts sig)"
    using assms(2) by (auto simp: snapshot_def Let_def)
  have b: "block_of ?a k = b" by (rule block_of_member [OF kb(1)])
  have foreign: "no_foreign_tools b"
    using no_foreign_tools_assembled [of ops c evs k] assms(1) b by simp
  then have "content_of ops ?a b = Some (ToolUse tid name input pid cl ts sig)"
    using kb(2) by (auto simp: no_foreign_tools_def)
  from block_tool_content [OF foreign this [unfolded content_of_def]]
  show ?thesis using b assembled_arguments [of ops c evs k] by (metis (no_types, lifting))
qed

theorem executable_tools_complete_witness:
  "parse_units sample_ops [123, 125] = Some ''{}''"
proof -
  let ?evs = "[ToolCallDelta 0 ''t'' None None None ''read'' [123],
               ToolCallDelta 0 ''t'' None None None ''read'' [125], BlockEnd 0]"
  have "ToolUse ''t'' ''read'' ''{}'' None None None None
      \<in> set (message_content (snapshot sample_ops (assemble sample_ops () ?evs)))"
    by (simp add: assemble_def observe_def new_accumulator_def on_block_def mark_completed_def
        contains_def add_tool_delta_def merge_tool_def default_block_def snapshot_def Let_def
        content_of_def block_content_def tool_content_def sample_ops_def)
  from executable_tools_complete [OF _ this] obtain k where
    "if concat (map (argument_units_of k) ?evs) = [] then ''{}'' = empty_object
     else parse_units sample_ops (concat (map (argument_units_of k) ?evs)) = Some ''{}''"
    by (auto simp: sample_ops_def)
  then show ?thesis by (simp add: sample_ops_def split: if_splits)
qed

text \<open>
  A stream ends well exactly when it should. Finishing succeeds only without a projection error,
  after a terminal event, and with no tool call left unusable unless the provider stopped for
  length; every other outcome carries the same salvageable response; and the tools reported
  as incomplete are exactly the tool blocks with no executable content, in block order.
\<close>

theorem assembly_finish_verdict:
  "(case assembly_finish ops a of
      Inr r \<Rightarrow> r = snapshot ops a \<and> projection_error a = None \<and> is_terminal a
        \<and> (acc_stop_reason a = Some MaxTokensStop \<or> incomplete_tools r = [])
    | Inl (e, r) \<Rightarrow> r = snapshot ops a
        \<and> (case projection_error a of
             Some e' \<Rightarrow> e = e'
           | None \<Rightarrow> kind e = Some StreamInterruptedKind
               \<and> \<not> (is_terminal a \<and> unfinished_blocks r = [])))
   \<and> map it_block (incomplete_tools (snapshot ops a))
       = map fst (filter (\<lambda>kb. block_tool (snd kb) \<noteq> None \<and> content_of ops a (snd kb) = None) (blocks a))"
proof -
  have partition: "map it_block (List.map_filter (incomplete_of ops a) bs)
      = map fst (filter (\<lambda>kb. block_tool (snd kb) \<noteq> None \<and> content_of ops a (snd kb) = None) bs)" for bs
    by (induction bs) (auto simp: map_filter_simps incomplete_of_def is_some_def bind_eq_Some_conv
        split: option.splits)
  have incomplete: "incomplete_tools (snapshot ops a) = List.map_filter (incomplete_of ops a) (blocks a)"
    by (simp add: snapshot_def Let_def)
  have listed: "unfinished_blocks (snapshot ops a) = [] \<Longrightarrow> incomplete_tools (snapshot ops a) = []"
    using partition [of "blocks a"] unfolding incomplete
    by (auto simp: snapshot_def Let_def unfinished_def is_some_def filter_empty_conv)
  have stop: "as_stop_reason (snapshot ops a) = MaxTokensStop \<longleftrightarrow> acc_stop_reason a = Some MaxTokensStop"
    by (simp add: snapshot_def Let_def split: option.split)
  have ends: "as_terminal (snapshot ops a) = is_terminal a" by (simp add: snapshot_def Let_def)
  show ?thesis
    using listed stop ends partition [of "blocks a"] incomplete
    by (auto simp: assembly_finish_def Let_def kind_def split: option.splits)
qed

end
