(* ===== verification/Price_Query.thy ===== *)
theory Price_Query
  imports Routing Usage_Report
begin

text \<open>
  Selection of a published price (\<^verbatim>\<open>src/client/price_query.rs\<close>): which rule
  applies to a service tier, a submission, a prompt length and a time, when the answer
  is uncertain, and the validation of a price table.

  IEEE double multiplication is the parameter \<open>fmul\<close>. The time-zone library is the
  parameter \<open>time_zones\<close> of \<open>utc_bounds\<close>, which computes the earliest and latest UTC
  second of a price boundary; the selection itself takes any \<open>bounds\<close> function.
\<close>

section \<open>Price boundaries\<close>

text \<open>
  What the code asks of the time-zone library: whether a zone name is known; the Unix
  time of an RFC 3339 date with an offset, and whether that offset is the one of a
  zone; the Unix time of a local date read as UTC; and the single instant at which a
  zone shows a local date, if there is exactly one.
\<close>

record time_zones =
  known_zone :: "string \<Rightarrow> bool"
  explicit_instant :: "string \<Rightarrow> int option"
  offset_agrees :: "string \<Rightarrow> string \<Rightarrow> bool"
  naive_instant :: "string \<Rightarrow> int option"
  zoned_instant :: "string \<Rightarrow> string \<Rightarrow> int option"

definition boundary_seconds :: "int \<Rightarrow> message + u64" where
  "boundary_seconds t =
    (if 0 \<le> t \<and> t < 2 ^ 64 then Ok (word_of_int t)
     else Err [Lit ''price boundary precedes Unix epoch''])"

definition utc_bounds :: "time_zones \<Rightarrow> price_boundary \<Rightarrow> message + u64 \<times> u64" where
  "utc_bounds tz b =
    (if (case time_zone b of Some name \<Rightarrow> \<not> known_zone tz name | None \<Rightarrow> False)
     then Err [Lit ''unknown billing time zone '', DebugStr (case time_zone b of Some n \<Rightarrow> n | None \<Rightarrow> [])]
     else
       (case explicit_instant tz (local_time b) of
          Some t \<Rightarrow>
            if (case time_zone b of Some name \<Rightarrow> \<not> offset_agrees tz (local_time b) name | None \<Rightarrow> False)
            then Err [Lit ''price boundary offset disagrees with its IANA time zone'']
            else bind_result (boundary_seconds t) (\<lambda>s. Ok (s, s))
        | None \<Rightarrow>
            (case naive_instant tz (local_time b) of
               None \<Rightarrow> Err [Lit ''price boundary requires an ISO local datetime or explicit RFC 3339 offset'']
             | Some nominal \<Rightarrow>
                 (case time_zone b of
                    Some name \<Rightarrow>
                      (case zoned_instant tz name (local_time b) of
                         None \<Rightarrow> Err [Lit ''ambiguous or nonexistent local price boundary; supply an explicit valid offset'']
                       | Some t \<Rightarrow> bind_result (boundary_seconds t) (\<lambda>s. Ok (s, s)))
                  | None \<Rightarrow>
                      bind_result (boundary_seconds (nominal - 14 * 3600)) (\<lambda>lo.
                      bind_result (boundary_seconds (nominal + 12 * 3600)) (\<lambda>hi. Ok (lo, hi)))))))"

section \<open>Contexts and quotes\<close>

record pricing_context =
  pc_service_tier :: "service_tier option"
  pc_submission :: submission
  pc_input_tokens :: "u64 option"
  unix_seconds :: "u64 option"

datatype price_status = Priced | UnknownPrice | UnsupportedPrice

record price_quote =
  q_rule :: "price_rule option"
  q_multiplier :: "price_multiplier option"
  q_status :: price_status
  q_context :: pricing_context
  q_rates :: "token_rates option"
  q_quota :: "quota_price option"
  q_currency :: string
  q_unit :: string
  q_source :: "string option"
  q_verified_at :: "string option"
  q_reason :: "message option"

definition empty_quote :: "pricing_context \<Rightarrow> price_status \<Rightarrow> string \<Rightarrow> price_quote" where
  "empty_quote ctx st reason = \<lparr> q_rule = None, q_multiplier = None, q_status = st,
     q_context = ctx, q_rates = None, q_quota = None, q_currency = [],
     q_unit = ''per_million_tokens'', q_source = None, q_verified_at = None,
     q_reason = Some [Lit reason] \<rparr>"

definition no_rates :: token_rates where
  "no_rates = \<lparr> tr_input = None, tr_output = None, tr_cache_read = None, tr_cache_write = None,
     tr_cache_write_1h = None, tr_reasoning = None, tr_web_search = None \<rparr>"

definition base_rates :: "token_pricing \<Rightarrow> token_rates" where
  "base_rates p = \<lparr> tr_input = input_per_million p, tr_output = output_per_million p,
     tr_cache_read = cache_read_per_million p, tr_cache_write = cache_write_per_million p,
     tr_cache_write_1h = cache_write_1h_per_million p, tr_reasoning = reasoning_per_million p,
     tr_web_search = web_search_per_request p \<rparr>"

definition batch_rates :: "batch_pricing \<Rightarrow> token_rates" where
  "batch_rates b = \<lparr> tr_input = bp_input b, tr_output = bp_output b,
     tr_cache_read = bp_cache_read b, tr_cache_write = bp_cache_write b,
     tr_cache_write_1h = bp_cache_write_1h b, tr_reasoning = bp_reasoning b,
     tr_web_search = None \<rparr>"

section \<open>Which rules apply\<close>

definition specificity :: "price_rule \<Rightarrow> nat" where
  "specificity r =
    (if is_some (min_input_tokens r) then 1 else 0) + (if is_some (max_input_tokens r) then 1 else 0)
    + (if is_some (valid_from r) then 1 else 0) + (if is_some (valid_until r) then 1 else 0)"

definition rule_contains :: "price_rule \<Rightarrow> u64 \<Rightarrow> bool" where
  "rule_contains r n =
    ((case min_input_tokens r of Some lo \<Rightarrow> lo \<le> n | None \<Rightarrow> True)
     \<and> (case max_input_tokens r of Some hi \<Rightarrow> n \<le> hi | None \<Rightarrow> True))"

definition boundary_bounds ::
  "(price_boundary \<Rightarrow> message + u64 \<times> u64) \<Rightarrow> u64 \<Rightarrow> price_boundary option \<Rightarrow> message + u64 \<times> u64" where
  "boundary_bounds bounds d b = (case b of Some x \<Rightarrow> bounds x | None \<Rightarrow> Ok (d, d))"

definition temporal_bounds ::
  "(price_boundary \<Rightarrow> message + u64 \<times> u64) \<Rightarrow> price_rule \<Rightarrow> message + (u64 \<times> u64) \<times> (u64 \<times> u64)" where
  "temporal_bounds bounds r =
    bind_result (boundary_bounds bounds 0 (valid_from r)) (\<lambda>since.
    bind_result (boundary_bounds bounds (- 1) (valid_until r)) (\<lambda>until. Ok (since, until)))"

definition temporal_match ::
  "(price_boundary \<Rightarrow> message + u64 \<times> u64) \<Rightarrow> price_rule \<Rightarrow> u64 \<Rightarrow> message + bool option" where
  "temporal_match bounds r now =
    bind_result (temporal_bounds bounds r) (\<lambda>(since, until).
      if now < fst since \<or> snd until \<le> now then Ok (Some False)
      else if now < snd since \<or> fst until \<le> now then Ok None
      else Ok (Some True))"

definition more_specific :: "price_rule \<Rightarrow> price_rule option \<Rightarrow> bool" where
  "more_specific r old = (case old of None \<Rightarrow> True | Some o' \<Rightarrow> specificity o' < specificity r)"

fun scan_rules ::
  "(price_boundary \<Rightarrow> message + u64 \<times> u64) \<Rightarrow> u64 \<Rightarrow> price_rule list
    \<Rightarrow> price_rule option \<Rightarrow> price_rule option
    \<Rightarrow> message + price_rule option \<times> price_rule option" where
  "scan_rules bounds now [] selected uncertain = Ok (selected, uncertain)"
| "scan_rules bounds now (r # rs) selected uncertain =
    (case temporal_match bounds r now of
       Inl reason \<Rightarrow> Err reason
     | Inr (Some True) \<Rightarrow>
         scan_rules bounds now rs (if more_specific r selected then Some r else selected) uncertain
     | Inr None \<Rightarrow>
         scan_rules bounds now rs selected (if more_specific r uncertain then Some r else uncertain)
     | Inr (Some False) \<Rightarrow> scan_rules bounds now rs selected uncertain)"

section \<open>Scaling and validation of rates\<close>

fun scale_bucket :: "(f64 \<Rightarrow> f64 \<Rightarrow> f64) \<Rightarrow> f64 \<Rightarrow> price_bucket \<Rightarrow> token_rates \<Rightarrow> token_rates" where
  "scale_bucket fmul f InputBucket r = r \<lparr> tr_input := map_option (\<lambda>v. fmul v f) (tr_input r) \<rparr>"
| "scale_bucket fmul f OutputBucket r = r \<lparr> tr_output := map_option (\<lambda>v. fmul v f) (tr_output r) \<rparr>"
| "scale_bucket fmul f CacheReadBucket r =
    r \<lparr> tr_cache_read := map_option (\<lambda>v. fmul v f) (tr_cache_read r) \<rparr>"
| "scale_bucket fmul f CacheWriteBucket r =
    r \<lparr> tr_cache_write := map_option (\<lambda>v. fmul v f) (tr_cache_write r) \<rparr>"
| "scale_bucket fmul f CacheWrite1hBucket r =
    r \<lparr> tr_cache_write_1h := map_option (\<lambda>v. fmul v f) (tr_cache_write_1h r) \<rparr>"
| "scale_bucket fmul f ReasoningBucket r =
    r \<lparr> tr_reasoning := map_option (\<lambda>v. fmul v f) (tr_reasoning r) \<rparr>"
| "scale_bucket fmul f WebSearchRequestBucket r =
    r \<lparr> tr_web_search := map_option (\<lambda>v. fmul v f) (tr_web_search r) \<rparr>"

definition scaled :: "(f64 \<Rightarrow> f64 \<Rightarrow> f64) \<Rightarrow> price_multiplier \<Rightarrow> token_rates \<Rightarrow> token_rates" where
  "scaled fmul m r = foldl (\<lambda>acc b. scale_bucket fmul (factor m) b acc) r (buckets m)"

definition rate_values :: "token_rates \<Rightarrow> f64 list" where
  "rate_values r = List.map_filter (\<lambda>v. v)
     [tr_input r, tr_output r, tr_cache_read r, tr_cache_write r, tr_cache_write_1h r,
      tr_reasoning r, tr_web_search r]"

definition validate_rates :: "token_rates \<Rightarrow> message + unit" where
  "validate_rates r =
    (if list_ex (\<lambda>v. \<not> f64_finite v \<or> f64_negative v) (rate_values r)
     then Err [Lit ''token rates must be finite and non-negative''] else Ok ())"

section \<open>The quote\<close>

definition matching_tier :: "service_tier \<Rightarrow> submission \<Rightarrow> price_rule \<Rightarrow> bool" where
  "matching_tier tier sub r = (rule_service_tier r = tier \<and> rule_submission r = sub)"

definition off_peak :: "peak_schedule \<Rightarrow> price_multiplier" where
  "off_peak s = \<lparr> factor = off_peak_multiplier s,
     buckets = [InputBucket, OutputBucket, CacheReadBucket, CacheWriteBucket, CacheWrite1hBucket,
                ReasoningBucket] \<rparr>"

definition finish_quote ::
  "(f64 \<Rightarrow> f64 \<Rightarrow> f64) \<Rightarrow> peak_schedule option \<Rightarrow> pricing_context \<Rightarrow> bool \<Rightarrow> token_rates
    \<Rightarrow> price_quote \<Rightarrow> price_quote" where
  "finish_quote fmul schedule ctx apply_schedule rs q =
    (case (if apply_schedule then schedule else None) of
       Some s \<Rightarrow>
         (case unix_seconds ctx of
            None \<Rightarrow> q \<lparr> q_reason := Some [Lit ''time is required for scheduled rates''] \<rparr>
          | Some now \<Rightarrow>
              let rs1 = (if is_peak s now then rs else scaled fmul (off_peak s) rs) in
              if rs1 = no_rates \<or> validate_rates rs1 \<noteq> Ok () then q
              else q \<lparr> q_rates := Some rs1, q_status := Priced, q_reason := None \<rparr>)
     | None \<Rightarrow>
         if rs = no_rates \<or> validate_rates rs \<noteq> Ok () then q
         else q \<lparr> q_rates := Some rs, q_status := Priced, q_reason := None \<rparr>)"

text \<open>Subscription billing reads quota prices only.\<close>

definition subscription_quote :: "token_pricing \<Rightarrow> service_tier \<Rightarrow> pricing_context \<Rightarrow> price_quote \<Rightarrow> price_quote" where
  "subscription_quote p tier ctx q0 =
    (let q = q0 \<lparr> q_currency := [], q_unit := ''subscription_quota'' \<rparr> in
     if pc_submission ctx \<noteq> Interactive
     then q \<lparr> q_reason := Some [Lit ''subscription batch quota pricing is unpublished''] \<rparr>
     else
       (case find (\<lambda>x. quota_service_tier x = tier) (quota p) of
          Some x \<Rightarrow> q \<lparr> q_status := Priced, q_quota := Some x, q_unit := quota_unit x,
                       q_source := Some (quota_source x), q_verified_at := quota_verified_at x,
                       q_reason := None \<rparr>
        | None \<Rightarrow> q \<lparr> q_reason := Some [Lit ''subscription quota pricing is unpublished; catalog token prices are not a subscription bill''] \<rparr>))"

definition default_rule_rates ::
  "token_pricing \<Rightarrow> service_tier \<Rightarrow> pricing_context \<Rightarrow> price_rule list \<Rightarrow> token_rates option" where
  "default_rule_rates p tier ctx candidates =
    (if tier = Fast \<or> candidates \<noteq> [] then None
     else (case pc_submission ctx of
             Interactive \<Rightarrow> Some (base_rates p)
           | Batch \<Rightarrow> map_option batch_rates (tp_batch p)))"

definition selected_rates ::
  "(f64 \<Rightarrow> f64 \<Rightarrow> f64) \<Rightarrow> token_pricing \<Rightarrow> service_tier \<Rightarrow> token_rates option \<Rightarrow> price_rule
    \<Rightarrow> token_rates option" where
  "selected_rates fmul p tier standard r =
    (case rule_multiplier r of
       None \<Rightarrow> Some (rates r)
     | Some m \<Rightarrow> map_option (scaled fmul m) (if tier = Fast then standard else Some (base_rates p)))"

definition token_quote ::
  "(f64 \<Rightarrow> f64 \<Rightarrow> f64) \<Rightarrow> (price_boundary \<Rightarrow> message + u64 \<times> u64) \<Rightarrow> token_pricing \<Rightarrow> service_tier
    \<Rightarrow> token_rates option \<Rightarrow> peak_schedule option \<Rightarrow> pricing_context \<Rightarrow> price_quote \<Rightarrow> price_quote" where
  "token_quote fmul bounds p tier standard schedule ctx q =
    (let candidates = filter (matching_tier tier (pc_submission ctx)) (rules p) in
     if pc_input_tokens ctx = None
        \<and> list_ex (\<lambda>r. is_some (min_input_tokens r) \<or> is_some (max_input_tokens r)) candidates
     then q \<lparr> q_reason := Some [Lit ''prompt token count is required for context-dependent rates''] \<rparr>
     else if unix_seconds ctx = None
        \<and> list_ex (\<lambda>r. is_some (valid_from r) \<or> is_some (valid_until r)) candidates
     then q \<lparr> q_reason := Some [Lit ''time is required for dated rates''] \<rparr>
     else
       (case scan_rules bounds (case unix_seconds ctx of Some t \<Rightarrow> t | None \<Rightarrow> 0)
               (filter (\<lambda>r. case pc_input_tokens ctx of None \<Rightarrow> True | Some n \<Rightarrow> rule_contains r n) candidates)
               None None of
          Inl reason \<Rightarrow> q \<lparr> q_reason := Some reason \<rparr>
        | Inr (selected, uncertain) \<Rightarrow>
            (case filter_option (\<lambda>c. case selected of None \<Rightarrow> True
                     | Some r \<Rightarrow> specificity r \<le> specificity c) uncertain of
               Some r \<Rightarrow>
                 q \<lparr> q_rule := Some r, q_source := or_keep (rule_source r) (q_source q),
                     q_verified_at := or_keep (rule_verified_at r) (q_verified_at q),
                     q_reason := Some [Lit ''the published price boundary has no confirmed billing time zone''] \<rparr>
             | None \<Rightarrow>
                 (case selected of
                    Some r \<Rightarrow>
                      let q1 = q \<lparr> q_rule := Some r, q_source := or_keep (rule_source r) (tp_source p),
                                   q_verified_at := or_keep (rule_verified_at r) (verified_at p),
                                   q_multiplier := rule_multiplier r \<rparr> in
                      (case selected_rates fmul p tier standard r of
                         None \<Rightarrow> q1
                       | Some rs \<Rightarrow> finish_quote fmul schedule ctx (apply_peak_schedule r) rs q1)
                  | None \<Rightarrow>
                      (case default_rule_rates p tier ctx candidates of
                         None \<Rightarrow> q
                       | Some rs \<Rightarrow> finish_quote fmul schedule ctx True rs
                           (q \<lparr> q_source := tp_source p, q_verified_at := verified_at p \<rparr>))))))"

text \<open>A fast multiplier scales the standard quote of the same context, without the peak schedule.\<close>

definition quote ::
  "(f64 \<Rightarrow> f64 \<Rightarrow> f64) \<Rightarrow> (price_boundary \<Rightarrow> message + u64 \<times> u64) \<Rightarrow> token_pricing \<Rightarrow> billing_mode
    \<Rightarrow> peak_schedule option \<Rightarrow> pricing_context \<Rightarrow> price_quote" where
  "quote fmul bounds p billing schedule ctx =
    (let q0 = (empty_quote ctx UnknownPrice ''prices for this combination are unpublished'')
                \<lparr> q_currency := (case currency p of Some c \<Rightarrow> c | None \<Rightarrow> ''USD''),
                  q_source := tp_source p, q_verified_at := verified_at p \<rparr>;
         tier = (case pc_service_tier ctx of Some t \<Rightarrow> t | None \<Rightarrow> Standard);
         standard_ctx = ctx \<lparr> pc_service_tier := Some Standard \<rparr>;
         standard = q_rates (token_quote fmul bounds p Standard None None standard_ctx
                      (q0 \<lparr> q_context := standard_ctx \<rparr>)) in
     if billing = Subscription then subscription_quote p tier ctx q0
     else token_quote fmul bounds p tier standard schedule ctx q0)"

definition prompt_tokens :: "usage \<Rightarrow> u64 option" where
  "prompt_tokens u = Option.bind (checked_add (input_tokens u) (cache_read_tokens u))
     (\<lambda>n. checked_add n (cache_write_tokens u))"

definition requires_execution_time :: "token_pricing \<Rightarrow> service_tier \<Rightarrow> submission \<Rightarrow> bool" where
  "requires_execution_time p tier sub =
    (let inherits_standard = tier = Fast
           \<and> list_ex (\<lambda>r. matching_tier tier sub r \<and> is_some (rule_multiplier r)) (rules p) in
     list_ex (\<lambda>r. rule_submission r = sub
        \<and> (rule_service_tier r = tier \<or> inherits_standard \<and> rule_service_tier r = Standard)
        \<and> (is_some (valid_from r) \<or> is_some (valid_until r))) (rules p))"

section \<open>Validation of a price table\<close>

definition f64_positive :: "f64 \<Rightarrow> bool" where
  "f64_positive x \<longleftrightarrow> f64_finite x \<and> 0 < unat x \<and> unat x < 2 ^ 63"

definition multiplier_ok :: "price_rule \<Rightarrow> bool" where
  "multiplier_ok r =
    (case rule_multiplier r of
       None \<Rightarrow> True
     | Some m \<Rightarrow> f64_positive (factor m) \<and> buckets m \<noteq> [] \<and> distinct (buckets m) \<and> rates r = no_rates)"

definition low_input :: "price_rule \<Rightarrow> u64" where
  "low_input r = (case min_input_tokens r of Some n \<Rightarrow> n | None \<Rightarrow> 0)"

definition high_input :: "price_rule \<Rightarrow> u64" where
  "high_input r = (case max_input_tokens r of Some n \<Rightarrow> n | None \<Rightarrow> - 1)"

definition rules_clash ::
  "price_rule \<Rightarrow> (u64 \<times> u64) \<times> (u64 \<times> u64) \<Rightarrow> price_rule \<Rightarrow> (u64 \<times> u64) \<times> (u64 \<times> u64) \<Rightarrow> bool" where
  "rules_clash r rb other ob =
    (let adjacent = is_some (valid_from r) \<and> valid_from r = valid_until other
                    \<or> is_some (valid_until r) \<and> valid_until r = valid_from other;
         overlap = low_input r \<le> high_input other \<and> low_input other \<le> high_input r
                   \<and> fst (fst rb) < snd (snd ob) \<and> fst (fst ob) < snd (snd rb) \<and> \<not> adjacent in
     rule_service_tier other = rule_service_tier r \<and> rule_submission other = rule_submission r
     \<and> specificity other = specificity r \<and> overlap)"

fun check_overlaps ::
  "(price_boundary \<Rightarrow> message + u64 \<times> u64) \<Rightarrow> price_rule \<Rightarrow> (u64 \<times> u64) \<times> (u64 \<times> u64)
    \<Rightarrow> price_rule list \<Rightarrow> message + unit" where
  "check_overlaps bounds r rb [] = Ok ()"
| "check_overlaps bounds r rb (other # earlier) =
    bind_result (temporal_bounds bounds other) (\<lambda>ob.
      if rules_clash r rb other ob
      then Err [Lit ''overlapping price rules have equal precedence'']
      else check_overlaps bounds r rb earlier)"

definition check_rule ::
  "(price_boundary \<Rightarrow> message + u64 \<times> u64) \<Rightarrow> price_rule list \<Rightarrow> price_rule \<Rightarrow> message + unit" where
  "check_rule bounds earlier r =
    bind_result (validate_rates (rates r)) (\<lambda>_.
      if high_input r < low_input r then Err [Lit ''invalid context pricing interval'']
      else
        bind_result (temporal_bounds bounds r) (\<lambda>rb.
          if snd (snd rb) \<le> fst (fst rb) \<or> is_some (valid_from r) \<and> valid_from r = valid_until r
          then Err [Lit ''invalid price validity interval'']
          else if \<not> multiplier_ok r
          then Err [Lit ''a multiplier needs finite positive factor, unique buckets and no conflicting fixed rates'']
          else check_overlaps bounds r rb earlier))"

fun check_rules ::
  "(price_boundary \<Rightarrow> message + u64 \<times> u64) \<Rightarrow> price_rule list \<Rightarrow> price_rule list \<Rightarrow> message + unit" where
  "check_rules bounds earlier [] = Ok ()"
| "check_rules bounds earlier (r # rs) =
    bind_result (check_rule bounds earlier r) (\<lambda>_. check_rules bounds (earlier @ [r]) rs)"

fun check_quota :: "quota_price list \<Rightarrow> quota_price list \<Rightarrow> message + unit" where
  "check_quota earlier [] = Ok ()"
| "check_quota earlier (x # xs) =
    (if \<not> f64_positive (quota_multiplier x) \<or> quota_unit x = []
        \<or> list_ex (\<lambda>y. quota_service_tier y = quota_service_tier x) earlier
     then Err [Lit ''invalid or duplicate subscription quota price'']
     else check_quota (earlier @ [x]) xs)"

definition upper_ascii :: "char \<Rightarrow> bool" where
  "upper_ascii c \<longleftrightarrow> 65 \<le> (of_char c :: nat) \<and> (of_char c :: nat) \<le> 90"

definition validate_prices ::
  "(price_boundary \<Rightarrow> message + u64 \<times> u64) \<Rightarrow> token_pricing \<Rightarrow> message + unit" where
  "validate_prices bounds p =
    (if (case currency p of Some c \<Rightarrow> length c \<noteq> 3 \<or> \<not> list_all upper_ascii c | None \<Rightarrow> False)
     then Err [Lit ''currency must be a three-letter ISO code'']
     else
       bind_result (validate_rates (base_rates p)) (\<lambda>_.
       bind_result (case tp_batch p of None \<Rightarrow> Ok () | Some b \<Rightarrow> validate_rates (batch_rates b)) (\<lambda>_.
       bind_result (check_rules bounds [] (rules p)) (\<lambda>_. check_quota [] (quota p)))))"

section \<open>Lemmas\<close>

subsection \<open>What validation establishes\<close>

lemma check_overlaps_Ok:
  "check_overlaps bounds r rb earlier = Ok () \<Longrightarrow> other \<in> set earlier \<Longrightarrow>
    \<exists>ob. temporal_bounds bounds other = Ok ob \<and> \<not> rules_clash r rb other ob"
  by (induction earlier) (auto simp: bind_result_Inr split: if_splits)

lemma check_rule_Ok:
  assumes "check_rule bounds earlier r = Ok ()"
  obtains rb where "temporal_bounds bounds r = Ok rb" "check_overlaps bounds r rb earlier = Ok ()"
  using assms by (auto simp: check_rule_def bind_result_Inr split: if_splits)

lemma rules_clash_sym: "rules_clash r rb other ob = rules_clash other ob r rb"
  by (auto simp: rules_clash_def Let_def)

text \<open>Every rule has bounds, and no two different rules clash.\<close>

definition no_clash :: "(price_boundary \<Rightarrow> message + u64 \<times> u64) \<Rightarrow> price_rule \<Rightarrow> price_rule \<Rightarrow> bool" where
  "no_clash bounds r other \<longleftrightarrow>
    (\<forall>rb ob. temporal_bounds bounds r = Ok rb \<longrightarrow> temporal_bounds bounds other = Ok ob \<longrightarrow>
       \<not> rules_clash r rb other ob)"

lemma no_clash_sym: "no_clash bounds r other = no_clash bounds other r"
  unfolding no_clash_def by (subst rules_clash_sym) blast

definition table_ok :: "(price_boundary \<Rightarrow> message + u64 \<times> u64) \<Rightarrow> price_rule set \<Rightarrow> bool" where
  "table_ok bounds R \<longleftrightarrow>
    (\<forall>r \<in> R. \<exists>rb. temporal_bounds bounds r = Ok rb)
    \<and> (\<forall>r \<in> R. \<forall>other \<in> R. r \<noteq> other \<longrightarrow> no_clash bounds r other)"

lemma table_ok_insert:
  assumes "table_ok bounds R" "temporal_bounds bounds r = Ok rb"
    and "\<And>other. other \<in> R \<Longrightarrow> \<exists>ob. temporal_bounds bounds other = Ok ob \<and> \<not> rules_clash r rb other ob"
  shows "table_ok bounds (insert r R)"
proof -
  have new: "no_clash bounds r other" if "other \<in> R" for other
    unfolding no_clash_def
  proof (intro allI impI)
    fix rb' ob assume "temporal_bounds bounds r = Ok rb'" "temporal_bounds bounds other = Ok ob"
    then show "\<not> rules_clash r rb' other ob" using assms(2) assms(3) [OF that] by auto
  qed
  then have "no_clash bounds other r" if "other \<in> R" for other
    using that no_clash_sym by blast
  with new assms(1,2) show ?thesis unfolding table_ok_def by blast
qed

lemma check_rules_table:
  "check_rules bounds earlier rs = Ok () \<Longrightarrow> table_ok bounds (set earlier) \<Longrightarrow>
    table_ok bounds (set earlier \<union> set rs)"
proof (induction rs arbitrary: earlier)
  case (Cons r rs)
  have r: "check_rule bounds earlier r = Ok ()" and rest: "check_rules bounds (earlier @ [r]) rs = Ok ()"
    using Cons.prems(1) by (auto simp: bind_result_Inr)
  obtain rb where rb: "temporal_bounds bounds r = Ok rb" "check_overlaps bounds r rb earlier = Ok ()"
    using check_rule_Ok [OF r] by blast
  have "table_ok bounds (insert r (set earlier))"
    using table_ok_insert [OF Cons.prems(2) rb(1)] check_overlaps_Ok [OF rb(2)] by blast
  then show ?case using Cons.IH [OF rest] by simp
qed simp

lemma validated_table: "validate_prices bounds p = Ok () \<Longrightarrow> table_ok bounds (set (rules p))"
  using check_rules_table [of bounds "[]" "rules p"]
  by (auto simp: validate_prices_def bind_result_Inr table_ok_def split: if_splits)

subsection \<open>Two definite rules of equal precedence clash\<close>

lemma temporal_match_True:
  assumes "temporal_match bounds r now = Ok (Some True)" "temporal_bounds bounds r = Ok rb"
  shows "snd (fst rb) \<le> now" "fst (fst rb) \<le> now" "now < fst (snd rb)" "now < snd (snd rb)"
  using assms by (auto simp: temporal_match_def not_less not_le split: if_splits prod.splits)

lemma temporal_bounds_parts:
  "temporal_bounds bounds r = Ok rb \<Longrightarrow>
    boundary_bounds bounds 0 (valid_from r) = Ok (fst rb) \<and> boundary_bounds bounds (- 1) (valid_until r) = Ok (snd rb)"
  by (auto simp: temporal_bounds_def bind_result_Inr)

text \<open>The inputs a rule is asked about: one count, or none when no rule depends on it.\<close>

definition input_match :: "u64 option \<Rightarrow> price_rule \<Rightarrow> bool" where
  "input_match n r =
    (case n of
       Some k \<Rightarrow> rule_contains r k
     | None \<Rightarrow> min_input_tokens r = None \<and> max_input_tokens r = None)"

lemma input_match_overlap:
  "input_match n r \<Longrightarrow> input_match n other \<Longrightarrow> low_input r \<le> high_input other"
  by (cases n) (auto simp: input_match_def rule_contains_def low_input_def high_input_def
      split: option.splits)

text \<open>The earliest instant of a boundary is not after its latest, whatever the time zones are.\<close>

definition ordered_bounds :: "(price_boundary \<Rightarrow> message + u64 \<times> u64) \<Rightarrow> bool" where
  "ordered_bounds bounds \<longleftrightarrow> (\<forall>b lo hi. bounds b = Ok (lo, hi) \<longrightarrow> lo \<le> hi)"

lemma ordered_boundsD: "ordered_bounds bounds \<Longrightarrow> bounds x = Ok p \<Longrightarrow> fst p \<le> snd p"
  unfolding ordered_bounds_def by (cases p) simp

lemma boundary_seconds_mono:
  assumes "boundary_seconds a = Ok lo" "boundary_seconds b = Ok hi" "a \<le> b"
  shows "lo \<le> hi"
proof -
  have "uint lo = a" "uint hi = b"
    using assms(1,2) by (auto simp: boundary_seconds_def uint_word_of_int take_bit_int_eq_self split: if_splits)
  then show ?thesis using assms(3) by (simp add: word_le_def)
qed

lemma utc_bounds_ordered: "ordered_bounds (utc_bounds tz)"
  unfolding ordered_bounds_def
  by (auto simp: utc_bounds_def bind_result_Inr intro: boundary_seconds_mono
      split: if_splits option.splits)

lemma definite_rules_clash:
  assumes "ordered_bounds bounds"
    and "temporal_match bounds r now = Ok (Some True)" "temporal_bounds bounds r = Ok rb"
    and "temporal_match bounds other now = Ok (Some True)" "temporal_bounds bounds other = Ok ob"
    and "input_match n r" "input_match n other"
    and "matching_tier tier sub r" "matching_tier tier sub other" "specificity r = specificity other"
  shows "rules_clash r rb other ob"
proof -
  note tr = temporal_match_True [OF assms(2,3)] and tother = temporal_match_True [OF assms(4,5)]
  have apart: "valid_from a \<noteq> valid_until b \<or> valid_from a = None"
    if "temporal_bounds bounds a = Ok ab" "temporal_bounds bounds b = Ok bb"
      "snd (fst ab) \<le> now" "now < fst (snd bb)" for a b ab bb
  proof (cases "valid_from a")
    case (Some x)
    have "bounds x = Ok (fst ab)"
      using temporal_bounds_parts [OF that(1)] Some by (simp add: boundary_bounds_def)
    moreover have "valid_until b = Some x \<Longrightarrow> bounds x = Ok (snd bb)"
      using temporal_bounds_parts [OF that(2)] by (simp add: boundary_bounds_def)
    ultimately have "valid_until b = Some x \<Longrightarrow> fst (snd bb) \<le> snd (fst ab)"
      using ordered_boundsD [OF assms(1), of x] by auto
    then have "valid_until b = Some x \<Longrightarrow> fst (snd bb) \<le> now"
      using that(3) by (rule order_trans)
    then show ?thesis using that(4) Some by auto
  qed simp
  have "low_input r \<le> high_input other" "low_input other \<le> high_input r"
    using input_match_overlap assms(6,7) by blast+
  moreover have "fst (fst rb) < snd (snd ob)" "fst (fst ob) < snd (snd rb)"
    using tr tother by (meson le_less_trans)+
  moreover have "valid_from r \<noteq> valid_until other \<or> valid_from r = None"
    using apart [OF assms(3,5) tr(1) tother(3)] .
  moreover have "valid_from other \<noteq> valid_until r \<or> valid_from other = None"
    using apart [OF assms(5,3) tother(1) tr(3)] .
  ultimately show ?thesis
    using assms(8-10) by (auto simp: rules_clash_def Let_def matching_tier_def is_some_def)
qed

subsection \<open>The scan keeps the first most specific rule of each kind\<close>

fun best :: "price_rule list \<Rightarrow> price_rule option \<Rightarrow> price_rule option" where
  "best [] acc = acc"
| "best (r # rs) acc = best rs (if more_specific r acc then Some r else acc)"

lemma scan_rules_best:
  "\<forall>r \<in> set rs. \<exists>m. temporal_match bounds r now = Ok m \<Longrightarrow>
    scan_rules bounds now rs selected uncertain =
      Ok (best (filter (\<lambda>r. temporal_match bounds r now = Ok (Some True)) rs) selected,
          best (filter (\<lambda>r. temporal_match bounds r now = Ok None) rs) uncertain)"
proof (induction rs arbitrary: selected uncertain)
  case (Cons r rs)
  then obtain m where m: "temporal_match bounds r now = Ok m" by auto
  show ?case using Cons m by (cases m) (auto split: bool.split)
qed simp

lemma best_max:
  "(\<exists>r. best rs acc = Some r \<and> (r \<in> set rs \<or> acc = Some r)
     \<and> (\<forall>x \<in> set rs. specificity x \<le> specificity r) \<and> (\<forall>x. acc = Some x \<longrightarrow> specificity x \<le> specificity r))
   \<or> best rs acc = None \<and> rs = [] \<and> acc = None"
proof (induction rs arbitrary: acc)
  case (Cons r rs)
  let ?acc = "if more_specific r acc then Some r else acc"
  have acc: "?acc \<noteq> None" by (cases acc) (auto simp: more_specific_def)
  from Cons.IH [of ?acc] acc obtain b where b: "best rs ?acc = Some b" "b \<in> set rs \<or> ?acc = Some b"
    "\<forall>x \<in> set rs. specificity x \<le> specificity b" "\<forall>x. ?acc = Some x \<longrightarrow> specificity x \<le> specificity b"
    by blast
  have "specificity r \<le> specificity b" "\<forall>x. acc = Some x \<longrightarrow> specificity x \<le> specificity b"
    using b(4) by (cases acc; fastforce simp: more_specific_def split: if_splits)+
  with b show ?case by (auto split: if_splits)
next
  case Nil
  show ?case by (cases acc) auto
qed

lemma best_None_cases:
  obtains "rs = []" "best rs None = None"
  | r where "best rs None = Some r" "r \<in> set rs" "\<forall>x \<in> set rs. specificity x \<le> specificity r"
  using best_max [of rs None] by auto

lemma best_specificity:
  assumes "set xs = set ys"
  shows "map_option specificity (best xs None) = map_option specificity (best ys None)"
proof (cases rule: best_None_cases [of xs])
  case 1
  with assms show ?thesis by simp
next
  case (2 r)
  with assms show ?thesis
    by (cases rule: best_None_cases [of ys]) (auto intro: antisym)
qed

lemma best_unique:
  assumes "set xs = set ys" "inj_on specificity (set xs)"
  shows "best xs None = best ys None"
proof (cases rule: best_None_cases [of xs])
  case 1
  with assms show ?thesis by simp
next
  case (2 r)
  show ?thesis
  proof (cases rule: best_None_cases [of ys])
    case 1
    with assms 2 show ?thesis by simp
  next
    case (2 r')
    have "specificity r = specificity r'"
      using 2 \<open>r \<in> set xs\<close> \<open>\<forall>x \<in> set xs. specificity x \<le> specificity r\<close> assms(1)
      by (auto intro: antisym)
    then show ?thesis
      using 2 \<open>r \<in> set xs\<close> \<open>best xs None = Some r\<close> assms by (auto dest: inj_onD)
  qed
qed

subsection \<open>The order of a validated table does not matter\<close>

definition rates_status :: "price_quote \<Rightarrow> token_rates option \<times> price_status" where
  "rates_status q = (q_rates q, q_status q)"

lemma rates_status_finish:
  "rates_status q = rates_status q' \<Longrightarrow>
    rates_status (finish_quote fmul schedule ctx a rs q) = rates_status (finish_quote fmul schedule ctx a rs q')"
  by (auto simp: rates_status_def finish_quote_def Let_def split: option.splits)

lemma table_ok_match:
  assumes "table_ok bounds R" "r \<in> R"
  shows "\<exists>m. temporal_match bounds r now = Ok m"
proof -
  obtain rb where "temporal_bounds bounds r = Ok rb" using assms by (auto simp: table_ok_def)
  then show ?thesis by (auto simp: temporal_match_def split: prod.splits)
qed

lemma definite_inj:
  assumes law: "ordered_bounds bounds" and "table_ok bounds R"
  shows "inj_on specificity {r \<in> R. temporal_match bounds r now = Ok (Some True)
    \<and> input_match n r \<and> matching_tier tier sub r}"
proof (rule inj_onI, rule ccontr)
  fix r other
  assume r: "r \<in> {r \<in> R. temporal_match bounds r now = Ok (Some True) \<and> input_match n r \<and> matching_tier tier sub r}"
    and other: "other \<in> {r \<in> R. temporal_match bounds r now = Ok (Some True) \<and> input_match n r \<and> matching_tier tier sub r}"
    and eq: "specificity r = specificity other" and neq: "r \<noteq> other"
  obtain rb ob where b: "temporal_bounds bounds r = Ok rb" "temporal_bounds bounds other = Ok ob"
    using assms(2) r other unfolding table_ok_def by blast
  have "rules_clash r rb other ob"
    by (rule definite_rules_clash [OF law _ b(1) _ b(2) _ _ _ _ eq]) (use r other in auto)
  moreover have "no_clash bounds r other" using assms(2) r other neq by (auto simp: table_ok_def)
  ultimately show False using b by (auto simp: no_clash_def)
qed

text \<open>The rules the quote scans, for a tier, a submission and a prompt length.\<close>

definition scanned :: "service_tier \<Rightarrow> pricing_context \<Rightarrow> price_rule list \<Rightarrow> price_rule list" where
  "scanned tier ctx rs = filter (\<lambda>r. case pc_input_tokens ctx of None \<Rightarrow> True | Some n \<Rightarrow> rule_contains r n)
     (filter (matching_tier tier (pc_submission ctx)) rs)"

definition asks_input :: "service_tier \<Rightarrow> pricing_context \<Rightarrow> price_rule list \<Rightarrow> bool" where
  "asks_input tier ctx rs \<longleftrightarrow> pc_input_tokens ctx = None
     \<and> list_ex (\<lambda>r. is_some (min_input_tokens r) \<or> is_some (max_input_tokens r))
         (filter (matching_tier tier (pc_submission ctx)) rs)"

definition asks_time :: "service_tier \<Rightarrow> pricing_context \<Rightarrow> price_rule list \<Rightarrow> bool" where
  "asks_time tier ctx rs \<longleftrightarrow> unix_seconds ctx = None
     \<and> list_ex (\<lambda>r. is_some (valid_from r) \<or> is_some (valid_until r))
         (filter (matching_tier tier (pc_submission ctx)) rs)"

lemma scanned_input_match:
  "\<not> asks_input tier ctx rs \<Longrightarrow> r \<in> set (scanned tier ctx rs) \<Longrightarrow>
    r \<in> set rs \<and> matching_tier tier (pc_submission ctx) r \<and> input_match (pc_input_tokens ctx) r"
  by (auto simp: asks_input_def scanned_def input_match_def list_ex_iff is_some_def split: option.splits)

lemma scan_order:
  assumes law: "ordered_bounds bounds" and ok: "table_ok bounds (set rs)"
    and same: "set rs = set rs'" and asked: "\<not> asks_input tier ctx rs"
  shows "\<exists>sel unc unc'. scan_rules bounds now (scanned tier ctx rs) None None = Ok (sel, unc)
    \<and> scan_rules bounds now (scanned tier ctx rs') None None = Ok (sel, unc')
    \<and> map_option specificity unc = map_option specificity unc'"
proof -
  let ?D = "filter (\<lambda>r. temporal_match bounds r now = Ok (Some True))"
  let ?U = "filter (\<lambda>r. temporal_match bounds r now = Ok None)"
  have sets: "set (scanned tier ctx rs) = set (scanned tier ctx rs')" using same by (auto simp: scanned_def)
  have total: "\<forall>r \<in> set (scanned tier ctx rs). \<exists>m. temporal_match bounds r now = Ok m"
    using table_ok_match [OF ok] by (auto simp: scanned_def)
  have scan: "scan_rules bounds now (scanned tier ctx xs) None None
      = Ok (best (?D (scanned tier ctx xs)) None, best (?U (scanned tier ctx xs)) None)"
    if "set (scanned tier ctx xs) = set (scanned tier ctx rs)" for xs
    using scan_rules_best total that by blast
  have "inj_on specificity (set (?D (scanned tier ctx rs)))"
    by (rule inj_on_subset [OF definite_inj [OF law ok, where now = now and n = "pc_input_tokens ctx"
          and tier = tier and sub = "pc_submission ctx"]])
      (use scanned_input_match [OF asked] in auto)
  then have "best (?D (scanned tier ctx rs)) None = best (?D (scanned tier ctx rs')) None"
    using sets by (intro best_unique) auto
  moreover have "map_option specificity (best (?U (scanned tier ctx rs)) None)
      = map_option specificity (best (?U (scanned tier ctx rs')) None)"
    using sets by (intro best_specificity) auto
  ultimately show ?thesis using scan [OF refl] scan [OF sets [symmetric]] by auto
qed

lemma filter_specificity:
  "map_option specificity unc = map_option specificity unc' \<Longrightarrow>
    filter_option (\<lambda>c. case sel of None \<Rightarrow> True | Some r \<Rightarrow> specificity r \<le> specificity c) unc = None
    \<longleftrightarrow> filter_option (\<lambda>c. case sel of None \<Rightarrow> True | Some r \<Rightarrow> specificity r \<le> specificity c) unc' = None"
  by (cases unc; cases unc'; cases sel) (auto simp: filter_option_def)

lemma rates_status_updates:
  "rates_status (q \<lparr> q_rule := a \<rparr>) = rates_status q" "rates_status (q \<lparr> q_source := b \<rparr>) = rates_status q"
  "rates_status (q \<lparr> q_verified_at := c \<rparr>) = rates_status q" "rates_status (q \<lparr> q_reason := d \<rparr>) = rates_status q"
  "rates_status (q \<lparr> q_multiplier := e \<rparr>) = rates_status q"
  by (simp_all add: rates_status_def)

lemma rules_update_simps:
  "base_rates (p \<lparr> rules := rs \<rparr>) = base_rates p"
  "default_rule_rates (p \<lparr> rules := rs \<rparr>) tier ctx cs = default_rule_rates p tier ctx cs"
  "selected_rates fmul (p \<lparr> rules := rs \<rparr>) tier standard r = selected_rates fmul p tier standard r"
  by (simp_all add: base_rates_def default_rule_rates_def selected_rates_def split: submission.split option.split)

text \<open>What the quote makes of a finished scan.\<close>

definition scan_quote ::
  "(f64 \<Rightarrow> f64 \<Rightarrow> f64) \<Rightarrow> token_pricing \<Rightarrow> service_tier \<Rightarrow> token_rates option \<Rightarrow> peak_schedule option
    \<Rightarrow> pricing_context \<Rightarrow> price_rule list \<Rightarrow> price_rule option \<Rightarrow> bool
    \<Rightarrow> (token_rates option \<times> price_status) \<Rightarrow> token_rates option \<times> price_status" where
  "scan_quote fmul p tier standard schedule ctx candidates sel doubt st =
    (if doubt then st
     else
       (case (case sel of
                Some r \<Rightarrow> map_option (Pair (apply_peak_schedule r)) (selected_rates fmul p tier standard r)
              | None \<Rightarrow> map_option (Pair True) (default_rule_rates p tier ctx candidates)) of
          None \<Rightarrow> st
        | Some (a, rs) \<Rightarrow>
            rates_status (finish_quote fmul schedule ctx a rs
              ((empty_quote ctx UnknownPrice []) \<lparr> q_rates := fst st, q_status := snd st \<rparr>))))"

lemma token_quote_scanned:
  assumes "\<not> asks_input tier ctx (rules p)"
    and "\<not> asks_time tier ctx (rules p)"
    and "scan_rules bounds (case unix_seconds ctx of Some t \<Rightarrow> t | None \<Rightarrow> 0) (scanned tier ctx (rules p))
           None None = Ok (sel, unc)"
  shows "rates_status (token_quote fmul bounds p tier standard schedule ctx q) =
    scan_quote fmul p tier standard schedule ctx (filter (matching_tier tier (pc_submission ctx)) (rules p)) sel
      (filter_option (\<lambda>c. case sel of None \<Rightarrow> True | Some r \<Rightarrow> specificity r \<le> specificity c) unc \<noteq> None)
      (rates_status q)"
proof -
  have fin: "rates_status (finish_quote fmul schedule ctx a rs q') =
      rates_status (finish_quote fmul schedule ctx a rs
        ((empty_quote ctx UnknownPrice []) \<lparr> q_rates := fst st, q_status := snd st \<rparr>))"
    if "rates_status q' = st" for a rs q' st
    using that by (intro rates_status_finish) (auto simp: rates_status_def)
  show ?thesis
    unfolding token_quote_def Let_def
    using assms(1) [unfolded asks_input_def] assms(2) [unfolded asks_time_def] assms(3) [unfolded scanned_def]
    by (auto simp: scan_quote_def rates_status_updates split: option.split intro!: fin)
qed

lemma token_quote_order:
  assumes law: "ordered_bounds bounds" and ok: "table_ok bounds (set (rules p))"
    and same: "set rs = set (rules p)" and q: "rates_status q = rates_status q'"
  shows "rates_status (token_quote fmul bounds (p \<lparr> rules := rs \<rparr>) tier standard schedule ctx q)
    = rates_status (token_quote fmul bounds p tier standard schedule ctx q')"
proof -
  let ?c = "filter (matching_tier tier (pc_submission ctx))"
  have asks: "asks_input tier ctx rs = asks_input tier ctx (rules p)"
    using same by (auto simp: asks_input_def list_ex_iff)
  have dated: "asks_time tier ctx rs = asks_time tier ctx (rules p)"
    using same by (auto simp: asks_time_def list_ex_iff)
  have none: "?c rs = [] \<longleftrightarrow> ?c (rules p) = []"
    using same by (auto simp: filter_empty_conv)
  consider "asks_input tier ctx (rules p)"
    | "\<not> asks_input tier ctx (rules p)" "asks_time tier ctx (rules p)"
    | "\<not> asks_input tier ctx (rules p)" "\<not> asks_time tier ctx (rules p)" by blast
  then show ?thesis
  proof cases
    case 1
    then show ?thesis using asks q
      by (simp add: token_quote_def asks_input_def Let_def rates_status_updates)
  next
    case 2
    then show ?thesis using asks q dated
      by (simp add: token_quote_def asks_input_def asks_time_def Let_def rates_status_updates)
  next
    case 3
    obtain sel unc unc' where scan:
      "scan_rules bounds (case unix_seconds ctx of Some t \<Rightarrow> t | None \<Rightarrow> 0) (scanned tier ctx (rules p)) None None = Ok (sel, unc)"
      "scan_rules bounds (case unix_seconds ctx of Some t \<Rightarrow> t | None \<Rightarrow> 0) (scanned tier ctx rs) None None = Ok (sel, unc')"
      "map_option specificity unc = map_option specificity unc'"
      using scan_order [OF law ok same [symmetric] 3(1)] by blast
    have default: "default_rule_rates p tier ctx (?c rs) = default_rule_rates p tier ctx (?c (rules p))"
      using none by (simp add: default_rule_rates_def)
    have "scan_quote fmul p tier standard schedule ctx (?c rs) sel d st
        = scan_quote fmul p tier standard schedule ctx (?c (rules p)) sel d st" for d st
      by (simp only: scan_quote_def default)
    moreover have "scan_quote fmul (p \<lparr> rules := rs \<rparr>) tier standard schedule ctx cs sel d st
        = scan_quote fmul p tier standard schedule ctx cs sel d st" for cs d st
      by (simp only: scan_quote_def rules_update_simps)
    ultimately show ?thesis
      using token_quote_scanned [OF 3 scan(1), of fmul standard schedule q']
        token_quote_scanned [of tier ctx "p \<lparr> rules := rs \<rparr>" bounds sel unc' fmul standard schedule q]
        3 asks dated scan(2) q filter_specificity [OF scan(3), of sel]
      by simp
  qed
qed

text \<open>
  C10. For a price table that passed validation, the order of the published rules has no
  influence on the price: a quote against any arrangement of the same rules, repeated
  rules included, finds the same rates and the same status. Two rules that could both
  decide the same query would have been refused as overlapping with equal precedence.
\<close>
theorem quote_order_irrelevant:
  assumes "validate_prices (utc_bounds tz) p = Ok ()" and "set rs = set (rules p)"
  shows "q_rates (quote fmul (utc_bounds tz) (p \<lparr> rules := rs \<rparr>) billing schedule ctx)
           = q_rates (quote fmul (utc_bounds tz) p billing schedule ctx)
       \<and> q_status (quote fmul (utc_bounds tz) (p \<lparr> rules := rs \<rparr>) billing schedule ctx)
           = q_status (quote fmul (utc_bounds tz) p billing schedule ctx)"
proof -
  note order = token_quote_order [OF utc_bounds_ordered validated_table [OF assms(1)] assms(2)]
  have rates: "q_rates (token_quote fmul (utc_bounds tz) (p \<lparr> rules := rs \<rparr>) tier st sch c q)
      = q_rates (token_quote fmul (utc_bounds tz) p tier st sch c q)" for tier st sch c q
    using order [OF refl] by (simp add: rates_status_def)
  have status: "q_status (token_quote fmul (utc_bounds tz) (p \<lparr> rules := rs \<rparr>) tier st sch c q)
      = q_status (token_quote fmul (utc_bounds tz) p tier st sch c q)" for tier st sch c q
    using order [OF refl] by (simp add: rates_status_def)
  show ?thesis
    by (simp add: quote_def Let_def rates status subscription_quote_def)
qed

subsection \<open>Prompt length and time matter only through the rules\<close>

text \<open>
  Two contexts that select the same rules: the same tier and submission, prompt lengths
  contained in the same rules, times that match the same rules, and the same time
  wherever a peak schedule is read.
\<close>

definition now_of :: "pricing_context \<Rightarrow> u64" where
  "now_of ctx = (case unix_seconds ctx of Some t \<Rightarrow> t | None \<Rightarrow> 0)"

definition same_point ::
  "(price_boundary \<Rightarrow> message + u64 \<times> u64) \<Rightarrow> peak_schedule option \<Rightarrow> price_rule list \<Rightarrow> pricing_context
    \<Rightarrow> pricing_context \<Rightarrow> bool" where
  "same_point bounds schedule rs ctx ctx' \<longleftrightarrow>
     pc_service_tier ctx = pc_service_tier ctx' \<and> pc_submission ctx = pc_submission ctx'
     \<and> (\<exists>n n'. pc_input_tokens ctx = Some n \<and> pc_input_tokens ctx' = Some n'
          \<and> (\<forall>r \<in> set rs. rule_contains r n = rule_contains r n'))
     \<and> (unix_seconds ctx = None \<longleftrightarrow> unix_seconds ctx' = None)
     \<and> (\<forall>r \<in> set rs. temporal_match bounds r (now_of ctx) = temporal_match bounds r (now_of ctx'))
     \<and> (schedule = None \<or> unix_seconds ctx = unix_seconds ctx')"

lemma scan_rules_cong:
  "\<forall>r \<in> set rs. temporal_match bounds r now = temporal_match bounds r now' \<Longrightarrow>
    scan_rules bounds now rs sel unc = scan_rules bounds now' rs sel unc"
proof (induction rs arbitrary: sel unc)
  case (Cons r rs)
  then have r: "temporal_match bounds r now = temporal_match bounds r now'"
    and IH: "\<And>sel unc. scan_rules bounds now rs sel unc = scan_rules bounds now' rs sel unc" by simp_all
  show ?case by (simp only: scan_rules.simps r IH)
qed simp

lemma scan_quote_point:
  assumes "same_point bounds schedule rs0 ctx ctx'"
  shows "scan_quote fmul p tier standard schedule ctx cs sel d st
    = scan_quote fmul p tier standard schedule ctx' cs sel d st"
proof -
  have time: "schedule = None \<or> unix_seconds ctx = unix_seconds ctx'"
    and sub: "pc_submission ctx = pc_submission ctx'"
    using assms by (auto simp: same_point_def)
  have fin: "rates_status (finish_quote fmul schedule ctx b rs q) = rates_status (finish_quote fmul schedule ctx' b rs q')"
    if "rates_status q = rates_status q'" for b rs q q'
  proof -
    have "finish_quote fmul schedule ctx b rs q = finish_quote fmul schedule ctx' b rs q"
    proof (cases "schedule = None")
      case True
      then show ?thesis by (simp add: finish_quote_def)
    next
      case False
      then have "unix_seconds ctx = unix_seconds ctx'" using time by blast
      then show ?thesis by (simp only: finish_quote_def)
    qed
    then show ?thesis using rates_status_finish [OF that] by simp
  qed
  have open_fin: "rates_status (finish_quote fmul schedule ctx b rs
        ((empty_quote ctx UnknownPrice []) \<lparr> q_rates := fst st, q_status := snd st \<rparr>))
      = rates_status (finish_quote fmul schedule ctx' b rs
        ((empty_quote ctx' UnknownPrice []) \<lparr> q_rates := fst st, q_status := snd st \<rparr>))" for b rs
    by (rule fin) (simp add: rates_status_def)
  show ?thesis by (simp only: scan_quote_def default_rule_rates_def sub open_fin)
qed

lemma same_point_scan:
  assumes same: "same_point bounds schedule (rules p) ctx ctx'"
  shows "scan_rules bounds (now_of ctx) (scanned tier ctx (rules p)) None None
    = scan_rules bounds (now_of ctx') (scanned tier ctx' (rules p)) None None"
proof -
  have "scanned tier ctx (rules p) = scanned tier ctx' (rules p)"
    using same by (auto simp: scanned_def same_point_def intro: filter_cong)
  moreover have "\<forall>r \<in> set (scanned tier ctx (rules p)).
      temporal_match bounds r (now_of ctx) = temporal_match bounds r (now_of ctx')"
    using same by (auto simp: scanned_def same_point_def)
  ultimately show ?thesis using scan_rules_cong by metis
qed

lemma token_quote_point:
  assumes same: "same_point bounds schedule (rules p) ctx ctx'" and q: "rates_status q = rates_status q'"
  shows "rates_status (token_quote fmul bounds p tier standard schedule ctx q)
    = rates_status (token_quote fmul bounds p tier standard schedule ctx' q')"
proof -
  have asks: "\<not> asks_input tier ctx (rules p)" "\<not> asks_input tier ctx' (rules p)"
    using same by (auto simp: asks_input_def same_point_def)
  have time: "asks_time tier ctx (rules p) = asks_time tier ctx' (rules p)"
    using same by (auto simp: asks_time_def same_point_def)
  have sub: "pc_submission ctx = pc_submission ctx'" using same by (simp add: same_point_def)
  note scan = same_point_scan [OF same, of tier]
  show ?thesis
  proof (cases "asks_time tier ctx (rules p)")
    case True
    have "rates_status (token_quote fmul bounds p tier standard schedule c r) = rates_status r"
      if "\<not> asks_input tier c (rules p)" "asks_time tier c (rules p)" for c r
      using that by (simp add: token_quote_def asks_time_def asks_input_def Let_def rates_status_updates)
    then show ?thesis using asks time True q by simp
  next
    case False
    show ?thesis
    proof (cases "scan_rules bounds (now_of ctx) (scanned tier ctx (rules p)) None None")
      case (Inl e)
      have "rates_status (token_quote fmul bounds p tier standard schedule c r) = rates_status r"
        if "\<not> asks_input tier c (rules p)" "\<not> asks_time tier c (rules p)"
          "scan_rules bounds (now_of c) (scanned tier c (rules p)) None None = Inl e" for c r
        using that(1) [unfolded asks_input_def] that(2) [unfolded asks_time_def] that(3) [unfolded now_of_def scanned_def]
        by (simp add: token_quote_def Let_def rates_status_updates)
      then show ?thesis using asks time False q Inl scan by simp
    next
      case (Inr sc)
      obtain sel unc where sc: "sc = (sel, unc)" by (cases sc)
      note quoted = token_quote_scanned [where bounds = bounds and p = p and tier = tier and sel = sel and unc = unc
          and fmul = fmul and standard = standard and schedule = schedule]
      have "scan_rules bounds (now_of ctx') (scanned tier ctx' (rules p)) None None = Ok (sel, unc)"
        using Inr scan sc by simp
      then show ?thesis
        using quoted [OF asks(1), of q] quoted [OF asks(2), of q'] False time Inr q sub
        by (simp add: sc now_of_def scan_quote_point [OF same])
    qed
  qed
qed

lemma quote_point:
  assumes same: "same_point bounds schedule (rules p) ctx ctx'"
  shows "q_rates (quote fmul bounds p billing schedule ctx) = q_rates (quote fmul bounds p billing schedule ctx')"
proof -
  have step: "q_rates (token_quote fmul bounds p tier st sch c q) = q_rates (token_quote fmul bounds p tier st sch c' q')"
    if "same_point bounds sch (rules p) c c'" "rates_status q = rates_status q'" for tier st sch c c' q q'
    using token_quote_point [OF that] by (simp add: rates_status_def)
  show ?thesis
  proof (cases "billing = Subscription")
    case True
    then show ?thesis by (simp add: quote_def subscription_quote_def empty_quote_def Let_def split: option.split)
  next
    case False
    define q0 where "q0 = (\<lambda>c. (empty_quote c UnknownPrice ''prices for this combination are unpublished'')
        \<lparr> q_currency := (case currency p of Some c \<Rightarrow> c | None \<Rightarrow> ''USD''),
          q_source := tp_source p, q_verified_at := verified_at p \<rparr>)"
    define std where "std = (\<lambda>c. q_rates (token_quote fmul bounds p Standard None None
        (c \<lparr> pc_service_tier := Some Standard \<rparr>)
        ((q0 c) \<lparr> q_context := c \<lparr> pc_service_tier := Some Standard \<rparr> \<rparr>)))"
    have q: "q_rates (quote fmul bounds p billing schedule c)
      = q_rates (token_quote fmul bounds p (case pc_service_tier c of Some t \<Rightarrow> t | None \<Rightarrow> Standard) (std c) schedule c (q0 c))" for c
      using False by (simp add: quote_def Let_def std_def q0_def)
    have "same_point bounds None (rules p) (ctx \<lparr> pc_service_tier := Some Standard \<rparr>) (ctx' \<lparr> pc_service_tier := Some Standard \<rparr>)"
      using same by (auto simp: same_point_def now_of_def)
    then have std: "std ctx = std ctx'"
      unfolding std_def by (rule step) (simp add: rates_status_def q0_def empty_quote_def)
    have tier: "pc_service_tier ctx = pc_service_tier ctx'" using same by (simp add: same_point_def)
    show ?thesis
      unfolding q std tier by (rule step [OF same]) (simp add: rates_status_def q0_def empty_quote_def)
  qed
qed

lemma quote_input:
  assumes "\<forall>r \<in> set (rules p). rule_contains r n = rule_contains r n'"
  shows "q_rates (quote fmul bounds p billing schedule (ctx \<lparr> pc_input_tokens := Some n \<rparr>))
    = q_rates (quote fmul bounds p billing schedule (ctx \<lparr> pc_input_tokens := Some n' \<rparr>))"
  by (rule quote_point) (use assms in \<open>simp add: same_point_def now_of_def\<close>)

definition sample_rule :: "u64 option \<Rightarrow> u64 option \<Rightarrow> f64 \<Rightarrow> price_rule" where
  "sample_rule lo hi inp = \<lparr> rule_multiplier = None, rule_service_tier = Standard,
     rule_submission = Interactive, min_input_tokens = lo, max_input_tokens = hi,
     valid_from = None, valid_until = None, rates = no_rates \<lparr> tr_input := Some inp \<rparr>,
     rule_source = None, rule_verified_at = None, apply_peak_schedule = False \<rparr>"

definition sample_prices :: token_pricing where
  "sample_prices = (input_output 1 2)
     \<lparr> rules := [sample_rule None (Some 200000) 3, sample_rule (Some 200001) None 4] \<rparr>"

definition sample_context :: "u64 \<Rightarrow> pricing_context" where
  "sample_context n = \<lparr> pc_service_tier = None, pc_submission = Interactive,
     pc_input_tokens = Some n, unix_seconds = None \<rparr>"

definition no_zones :: time_zones where
  "no_zones = \<lparr> known_zone = \<lambda>_. False, explicit_instant = \<lambda>_. None, offset_agrees = \<lambda>_ _. False,
     naive_instant = \<lambda>_. None, zoned_instant = \<lambda>_ _. None \<rparr>"

lemma sample_prices_valid: "validate_prices (utc_bounds no_zones) sample_prices = Ok ()"
  by (simp add: validate_prices_def sample_prices_def input_output_def sample_rule_def check_rule_def
      validate_rates_def rate_values_def base_rates_def no_rates_def f64_finite_def f64_negative_def
      upper_ascii_def temporal_bounds_def boundary_bounds_def low_input_def high_input_def is_some_def
      multiplier_ok_def rules_clash_def map_filter_simps)

lemma sample_quote_high:
  "q_rates (quote (\<lambda>a b. a) (utc_bounds no_zones) sample_prices PerToken None (sample_context 200001))
    = Some (no_rates \<lparr> tr_input := Some 4 \<rparr>)"
  by (simp add: quote_def token_quote_def sample_prices_def input_output_def sample_rule_def sample_context_def
      matching_tier_def is_some_def rule_contains_def temporal_match_def temporal_bounds_def boundary_bounds_def
      more_specific_def finish_quote_def selected_rates_def validate_rates_def rate_values_def no_rates_def
      f64_finite_def f64_negative_def empty_quote_def filter_option_def map_filter_simps)

lemma above_one: "\<not> (200001 :: u64) \<le> 1" "(1 :: u64) \<le> 200000"
  by (simp_all add: word_le_nat_alt)

lemma sample_quote_low:
  "q_rates (quote (\<lambda>a b. a) (utc_bounds no_zones) sample_prices PerToken None (sample_context 1))
    = Some (no_rates \<lparr> tr_input := Some 3 \<rparr>)"
  by (simp add: quote_def token_quote_def sample_prices_def input_output_def sample_rule_def sample_context_def
      matching_tier_def is_some_def rule_contains_def temporal_match_def temporal_bounds_def boundary_bounds_def
      more_specific_def finish_quote_def selected_rates_def validate_rates_def rate_values_def no_rates_def
      f64_finite_def f64_negative_def empty_quote_def filter_option_def map_filter_simps above_one)

lemma quote_order_irrelevant_witness:
  "q_rates (quote (\<lambda>a b. a) (utc_bounds no_zones) (sample_prices \<lparr> rules := rev (rules sample_prices) \<rparr>)
      PerToken None (sample_context 200001)) = Some (no_rates \<lparr> tr_input := Some 4 \<rparr>)"
  using quote_order_irrelevant [OF sample_prices_valid, of "rev (rules sample_prices)" "\<lambda>a b. a" PerToken
      None "sample_context 200001"] sample_quote_high by simp

subsection \<open>What a price means\<close>

definition priced_ok :: "price_quote \<Rightarrow> bool" where
  "priced_ok q \<longleftrightarrow> q_quota q = None \<and>
     (case q_rates q of
        Some rs \<Rightarrow> q_status q = Priced \<and> q_reason q = None \<and> rs \<noteq> no_rates \<and> validate_rates rs = Ok ()
      | None \<Rightarrow> q_status q = UnknownPrice \<and> q_reason q \<noteq> None)"

definition open_quote :: "price_quote \<Rightarrow> bool" where
  "open_quote q \<longleftrightarrow> q_rates q = None \<and> q_status q = UnknownPrice \<and> q_reason q \<noteq> None \<and> q_quota q = None"

lemma open_quote_updates:
  "open_quote (q \<lparr> q_rule := a \<rparr>) = open_quote q" "open_quote (q \<lparr> q_source := b \<rparr>) = open_quote q"
  "open_quote (q \<lparr> q_verified_at := c \<rparr>) = open_quote q" "open_quote (q \<lparr> q_multiplier := e \<rparr>) = open_quote q"
  "open_quote q \<Longrightarrow> open_quote (q \<lparr> q_reason := Some d \<rparr>)"
  by (simp_all add: open_quote_def)

lemma priced_ok_open: "open_quote q \<Longrightarrow> priced_ok q"
  by (simp add: open_quote_def priced_ok_def)

lemma priced_ok_accept:
  assumes "open_quote q"
  shows "priced_ok (if rs = no_rates \<or> validate_rates rs \<noteq> Ok () then q
           else q \<lparr> q_rates := Some rs, q_status := Priced, q_reason := None \<rparr>)"
  using assms by (auto simp: priced_ok_open) (simp add: priced_ok_def open_quote_def)

lemma finish_quote_ok:
  assumes "open_quote q"
  shows "priced_ok (finish_quote fmul schedule ctx a rs q)"
proof (cases "if a then schedule else None")
  case None
  then show ?thesis
    using priced_ok_accept [OF assms, of rs] by (simp only: finish_quote_def option.case)
next
  case (Some s)
  show ?thesis
  proof (cases "unix_seconds ctx")
    case None
    with Some show ?thesis
      using priced_ok_open [OF open_quote_updates(5) [OF assms]] by (simp only: finish_quote_def option.case)
  next
    case (Some now)
    with \<open>(if a then schedule else None) = Some s\<close> show ?thesis
      using priced_ok_accept [OF assms] by (simp only: finish_quote_def option.case Let_def)
  qed
qed

lemma priced_ok_branches:
  "priced_ok x \<Longrightarrow> priced_ok y \<Longrightarrow> priced_ok (if b then x else y)"
  "priced_ok x \<Longrightarrow> (\<And>v. priced_ok (f v)) \<Longrightarrow> priced_ok (case opt of None \<Rightarrow> x | Some v \<Rightarrow> f v)"
  "(\<And>e. priced_ok (g e)) \<Longrightarrow> (\<And>v. priced_ok (h v)) \<Longrightarrow> priced_ok (case s of Inl e \<Rightarrow> g e | Inr v \<Rightarrow> h v)"
  "(\<And>a b. priced_ok (k a b)) \<Longrightarrow> priced_ok (case pr of (a, b) \<Rightarrow> k a b)"
  by (simp_all split: option.split sum.split prod.split)

lemma token_quote_ok:
  assumes "open_quote q"
  shows "priced_ok (token_quote fmul bounds p tier standard schedule ctx q)"
  unfolding token_quote_def Let_def
  by (intro priced_ok_branches finish_quote_ok priced_ok_open open_quote_updates(5) assms
      open_quote_updates(1-4) [THEN iffD2])

lemma quote_ok:
  assumes "billing \<noteq> Subscription"
  shows "priced_ok (quote fmul bounds p billing schedule ctx)"
proof -
  let ?q0 = "(empty_quote ctx UnknownPrice ''prices for this combination are unpublished'')
               \<lparr> q_currency := (case currency p of Some c \<Rightarrow> c | None \<Rightarrow> ''USD''),
                 q_source := tp_source p, q_verified_at := verified_at p \<rparr>"
  obtain tier standard where q: "quote fmul bounds p billing schedule ctx
      = token_quote fmul bounds p tier standard schedule ctx ?q0"
    using assms by (simp add: quote_def Let_def)
  have "open_quote ?q0" by (simp add: open_quote_def empty_quote_def)
  from token_quote_ok [OF this, of fmul bounds p tier standard schedule ctx]
  show ?thesis by (simp only: q)
qed

lemma validate_rates_Ok:
  "validate_rates rs = Ok () \<longleftrightarrow> list_all (\<lambda>v. f64_finite v \<and> \<not> f64_negative v) (rate_values rs)"
  by (auto simp: validate_rates_def list_ex_iff list_all_iff split: if_splits)

lemma quote_rates_valid:
  assumes "q_rates (quote fmul bounds p billing schedule ctx) = Some rs"
  shows "q_status (quote fmul bounds p billing schedule ctx) = Priced \<and> validate_rates rs = Ok ()"
proof (cases "billing = Subscription")
  case True
  then have "q_rates (quote fmul bounds p billing schedule ctx) = None"
    by (simp add: quote_def subscription_quote_def empty_quote_def Let_def split: option.split)
  with assms show ?thesis by simp
next
  case False
  then show ?thesis using quote_ok [OF False, of fmul bounds p schedule ctx] assms by (simp add: priced_ok_def)
qed

text \<open>
  A quote is never a guess. With rates, it is marked priced without a reason, the
  billing is not a subscription, at least one rate is published and every rate is finite
  and non-negative. Without rates it is priced only for an interactive subscription with
  a published quota price of the requested tier; in every other case its status is
  unknown and it carries a reason.
\<close>
theorem quote_priced_sound:
  "let q = quote fmul bounds p billing schedule ctx in
   case q_rates q of
     Some rs \<Rightarrow> q_status q = Priced \<and> q_reason q = None \<and> billing \<noteq> Subscription \<and> rs \<noteq> no_rates
       \<and> list_all (\<lambda>v. f64_finite v \<and> \<not> f64_negative v) (rate_values rs) \<and> q_quota q = None
   | None \<Rightarrow>
       (case q_quota q of
          Some x \<Rightarrow> q_status q = Priced \<and> q_reason q = None \<and> billing = Subscription
            \<and> pc_submission ctx = Interactive \<and> x \<in> set (quota p)
            \<and> quota_service_tier x = (case pc_service_tier ctx of Some t \<Rightarrow> t | None \<Rightarrow> Standard)
        | None \<Rightarrow> q_status q = UnknownPrice \<and> q_reason q \<noteq> None)"
proof (cases "billing = Subscription")
  case True
  then have q: "quote fmul bounds p billing schedule ctx = subscription_quote p
      (case pc_service_tier ctx of Some t \<Rightarrow> t | None \<Rightarrow> Standard) ctx
      ((empty_quote ctx UnknownPrice ''prices for this combination are unpublished'')
        \<lparr> q_currency := (case currency p of Some c \<Rightarrow> c | None \<Rightarrow> ''USD''),
          q_source := tp_source p, q_verified_at := verified_at p \<rparr>)"
    by (simp add: quote_def Let_def)
  have found: "find P xs = Some x \<Longrightarrow> x \<in> set xs \<and> P x" for P x and xs :: "quota_price list"
    by (auto simp: find_Some_iff)
  show ?thesis using True
    unfolding q by (auto simp: subscription_quote_def empty_quote_def Let_def split: option.split dest: found)
next
  case False
  then show ?thesis using quote_ok [OF False, of fmul bounds p schedule ctx]
    by (simp add: Let_def priced_ok_def validate_rates_Ok split: option.splits)
qed

end
