(* ===== verification/Context_Policy.thy ===== *)
theory Context_Policy
  imports Output_Budget Price_Query
begin

text \<open>
  The input budget of a selected model row (\<^verbatim>\<open>src/client/context.rs\<close>): hard
  limits, the planning limit that also reserves the expected output, and the target
  chosen by the context policy, which may stop before the first confirmed price
  increase, found with the same \<open>quote\<close> that bills the request.
\<close>

section \<open>Requests and results\<close>

record context_request =
  cq_policy :: "context_policy option"
  planning_output_tokens :: "u64 option"
  safety_tokens :: u64
  cq_thinking :: "bool option"

record resolved_context =
  rc_profile_name :: string
  rc_request_model :: string
  rc_display_model :: string
  rc_billing_model :: string
  rc_context_window :: "u64 option"
  rc_window_source :: context_window_source
  rc_max_input :: "u64 option"
  rc_max_output :: "u64 option"
  rc_shared_window :: "bool option"
  rc_recommendation :: "context_recommendation option"
  rc_policy :: context_policy
  rc_policy_source :: string
  standard_price_input :: "u64 option"
  output_reserve :: "u64 option"
  reserve_estimated :: bool
  hard_input_limit :: "u64 option"
  effective_input_budget :: "u64 option"
  rc_safety :: u64

definition positive :: "u64 option \<Rightarrow> u64 option" where
  "positive v = filter_option (\<lambda>n. 0 < n) v"

fun minimum :: "u64 option \<Rightarrow> u64 option \<Rightarrow> u64 option" where
  "minimum (Some a) (Some b) = Some (min a b)"
| "minimum a b = or_keep a b"

section \<open>The standard price range\<close>

text \<open>IEEE \<open>a < b\<close> on bit patterns: sign and magnitude, zeros equal, false on a NaN.\<close>

definition f64_magnitude :: "f64 \<Rightarrow> int" where
  "f64_magnitude x =
    (let m = int (unat x mod 2 ^ 63) in if unat x < 2 ^ 63 then m else - m)"

definition f64_less :: "f64 \<Rightarrow> f64 \<Rightarrow> bool" where
  "f64_less a b \<longleftrightarrow> \<not> f64_nan a \<and> \<not> f64_nan b \<and> f64_magnitude a < f64_magnitude b"

definition increased :: "token_rates \<Rightarrow> token_rates \<Rightarrow> bool" where
  "increased a b =
    list_ex (\<lambda>(x, y). case (x, y) of (Some x, Some y) \<Rightarrow> f64_less x y | _ \<Rightarrow> False)
      [(tr_input a, tr_input b), (tr_output a, tr_output b),
       (tr_cache_read a, tr_cache_read b), (tr_cache_write a, tr_cache_write b),
       (tr_cache_write_1h a, tr_cache_write_1h b),
       (or_keep (tr_reasoning a) (tr_output a), or_keep (tr_reasoning b) (tr_output b))]"

definition rule_starts :: "price_rule \<Rightarrow> u64 list" where
  "rule_starts r =
    List.map_filter (filter_option (\<lambda>n. 1 < n))
      [min_input_tokens r, Option.bind (max_input_tokens r) (\<lambda>n. checked_add n 1)]"

fun first_increase ::
  "(u64 \<Rightarrow> token_rates option) \<Rightarrow> token_rates \<Rightarrow> u64 list \<Rightarrow> u64 option" where
  "first_increase rates_at baseline [] = None"
| "first_increase rates_at baseline (start # starts) =
    (case rates_at start of
       None \<Rightarrow> None
     | Some rs \<Rightarrow> if increased baseline rs then Some (start - 1)
                  else first_increase rates_at baseline starts)"

definition input_rates ::
  "(f64 \<Rightarrow> f64 \<Rightarrow> f64) \<Rightarrow> (price_boundary \<Rightarrow> message + u64 \<times> u64) \<Rightarrow> provider_profile \<Rightarrow> model_profile
    \<Rightarrow> token_pricing \<Rightarrow> pricing_context \<Rightarrow> u64 \<Rightarrow> token_rates option" where
  "input_rates fmul bounds p m prices ctx n =
    q_rates (quote fmul bounds prices (billing_mode_on m (profile_pricing p)) (peak (profile_pricing p))
      (ctx \<lparr> pc_service_tier := or_keep (pc_service_tier ctx) (default_service_tier
               (on_connection (mi_features (info m)) (pi_features (profile_info p)))),
             pc_input_tokens := Some n \<rparr>))"

definition price_starts :: "token_pricing \<Rightarrow> u64 list" where
  "price_starts prices = remdups_adj (sort (concat (map rule_starts (rules prices))))"

definition standard_price_input_limit ::
  "(f64 \<Rightarrow> f64 \<Rightarrow> f64) \<Rightarrow> (price_boundary \<Rightarrow> message + u64 \<times> u64) \<Rightarrow> provider_profile \<Rightarrow> model_profile
    \<Rightarrow> pricing_context \<Rightarrow> u64 option" where
  "standard_price_input_limit fmul bounds p m ctx =
    (if billing_mode_on m (profile_pricing p) \<noteq> PerToken then None
     else
       Option.bind (pricing m) (\<lambda>prices.
       Option.bind (input_rates fmul bounds p m prices ctx 1) (\<lambda>baseline.
         first_increase (input_rates fmul bounds p m prices ctx) baseline (price_starts prices))))"

section \<open>Resolution of the context\<close>

text \<open>What remains of a window after reserving the output, on a row that shares it.\<close>

definition input_room :: "u64 option \<Rightarrow> bool option \<Rightarrow> u64 option \<Rightarrow> u64 option" where
  "input_room window shared reserved = map_option (\<lambda>n.
     if shared = Some True
     then saturating_sub n (case reserved of Some r \<Rightarrow> r | None \<Rightarrow> 0) else n) window"

definition context_under ::
  "(f64 \<Rightarrow> f64 \<Rightarrow> f64) \<Rightarrow> (price_boundary \<Rightarrow> message + u64 \<times> u64) \<Rightarrow> provider_profile \<Rightarrow> model_profile
    \<Rightarrow> context_request \<Rightarrow> u32 option \<Rightarrow> pricing_context \<Rightarrow> context_policy \<Rightarrow> resolved_context" where
  "context_under fmul bounds p m req out_tokens pctx policy =
    (let md = metadata m; ctx = mm_context md;
         window = positive (context_window_tokens md);
         source = (if context_window_source md = UnknownWindow \<and> window \<noteq> None
                   then ExplicitWindow else context_window_source md);
         own_input = positive (mm_max_input_tokens md);
         input = (if cq_thinking req \<noteq> Some False
                  then minimum own_input
                         (Option.bind ctx (\<lambda>c. positive (thinking_max_input_tokens c)))
                  else own_input);
         shared = Option.bind ctx shared_window;
         stated = map_option ucast out_tokens;
         reserve = or_keep stated (planning_output_tokens req);
         hard = minimum input (input_room window shared stated);
         planning = minimum input (input_room window shared reserve);
         standard = standard_price_input_limit fmul bounds p m pctx;
         recommended = Option.bind ctx recommendation;
         target = (case policy of
                     Auto \<Rightarrow> minimum standard (map_option rec_input_tokens recommended)
                   | Long \<Rightarrow> None
                   | Custom n \<Rightarrow> Some n);
         chosen = map_option (\<lambda>n. saturating_sub n (safety_tokens req)) (minimum planning target) in
     \<lparr> rc_profile_name = profile_name p, rc_request_model = request_model m,
       rc_display_model = display_model m, rc_billing_model = billing_model m,
       rc_context_window = window, rc_window_source = source, rc_max_input = input,
       rc_max_output = positive (max_output_tokens md), rc_shared_window = shared,
       rc_recommendation = recommended, rc_policy = policy,
       rc_policy_source = (if cq_policy req \<noteq> None then ''request''
         else if Option.bind ctx application \<noteq> None then ''model'' else ''default''),
       standard_price_input = standard, output_reserve = reserve,
       reserve_estimated = (out_tokens = None), hard_input_limit = hard,
       effective_input_budget = chosen, rc_safety = safety_tokens req \<rparr>)"

definition resolve_context ::
  "(f64 \<Rightarrow> f64 \<Rightarrow> f64) \<Rightarrow> (price_boundary \<Rightarrow> message + u64 \<times> u64) \<Rightarrow> provider_profile \<Rightarrow> model_profile
    \<Rightarrow> context_request \<Rightarrow> u32 option \<Rightarrow> pricing_context \<Rightarrow> llm_error + resolved_context" where
  "resolve_context fmul bounds p m req out_tokens pctx =
    (case (case mm_context (metadata m) of None \<Rightarrow> Ok () | Some c \<Rightarrow> validate_context c) of
       Inl reason \<Rightarrow> Err (invalid reason)
     | Inr _ \<Rightarrow>
         let policy = (case or_keep (cq_policy req) (Option.bind (mm_context (metadata m)) application) of
                         Some x \<Rightarrow> x | None \<Rightarrow> Auto) in
         if policy = Custom 0 then Err (invalid ''custom context input budget must be positive'')
         else Ok (context_under fmul bounds p m req out_tokens pctx policy))"

section \<open>Lemmas\<close>

lemma minimum_Some:
  "minimum a b = Some n \<longleftrightarrow>
    (case (a, b) of
       (Some x, Some y) \<Rightarrow> n = min x y | (Some x, None) \<Rightarrow> n = x
     | (None, Some y) \<Rightarrow> n = y | (None, None) \<Rightarrow> False)"
  by (cases a; cases b) auto

lemma minimum_None: "minimum a b = None \<longleftrightarrow> a = None \<and> b = None"
  by (cases a; cases b) auto

text \<open>No limit above another: an absent one is no limit at all.\<close>

definition tighter :: "u64 option \<Rightarrow> u64 option \<Rightarrow> bool" where
  "tighter a b = (case b of None \<Rightarrow> True | Some y \<Rightarrow> (case a of None \<Rightarrow> False | Some x \<Rightarrow> x \<le> y))"

lemma tighter_minimum: "tighter (minimum a b) a" "tighter (minimum a b) b"
  by (cases a; cases b; simp add: tighter_def)+

lemma tighter_mono: "tighter b b' \<Longrightarrow> tighter (minimum a b) (minimum a b')"
  by (cases a; cases b; cases b') (auto simp: tighter_def min_def)

lemma tighter_trans: "tighter a b \<Longrightarrow> tighter b c \<Longrightarrow> tighter a c"
  by (auto simp: tighter_def split: option.splits)

lemma saturating_sub_le: "saturating_sub n k \<le> n"
  by (simp add: word_le_nat_alt unat_saturating_sub)

lemma saturating_sub_mono: "k \<le> k' \<Longrightarrow> saturating_sub n k' \<le> saturating_sub n k"
  by (simp add: word_le_nat_alt unat_saturating_sub diff_le_mono2)

lemma tighter_less_safety: "tighter (map_option (\<lambda>n. saturating_sub n k) a) a"
  using saturating_sub_le by (cases a) (simp_all add: tighter_def)

text \<open>What a found increase means: every start before it leaves the price unchanged.\<close>

lemma first_increase_Some:
  assumes "first_increase rates_at baseline starts = Some n"
  shows "\<exists>before start rest. starts = before @ start # rest \<and> n = start - 1
    \<and> (case rates_at start of Some rs \<Rightarrow> increased baseline rs | None \<Rightarrow> False)
    \<and> list_all (\<lambda>b. case rates_at b of Some rs \<Rightarrow> \<not> increased baseline rs | None \<Rightarrow> False) before"
  using assms
proof (induction starts)
  case (Cons s ss)
  show ?case
  proof (cases "n = s - 1 \<and> (case rates_at s of Some rs \<Rightarrow> increased baseline rs | None \<Rightarrow> False)")
    case True
    then show ?thesis by (intro exI [of _ "[]"] exI [of _ s] exI [of _ ss]) auto
  next
    case False
    then have step: "first_increase rates_at baseline ss = Some n"
      "case rates_at s of Some rs \<Rightarrow> \<not> increased baseline rs | None \<Rightarrow> False"
      using Cons.prems by (auto split: option.splits if_splits)
    obtain before start rest where "ss = before @ start # rest" "n = start - 1"
      "case rates_at start of Some rs \<Rightarrow> increased baseline rs | None \<Rightarrow> False"
      "list_all (\<lambda>b. case rates_at b of Some rs \<Rightarrow> \<not> increased baseline rs | None \<Rightarrow> False) before"
      using Cons.IH [OF step(1)] by blast
    then show ?thesis using step(2) by (intro exI [of _ "s # before"] exI [of _ start] exI [of _ rest]) simp
  qed
qed simp

subsection \<open>The price is constant between two starts\<close>

lemma f64_less_irrefl [simp]: "\<not> f64_less x x"
  by (simp add: f64_less_def)

lemma increased_irrefl [simp]: "\<not> increased rs rs"
  by (auto simp: increased_def split: option.splits)

lemma rule_starts_mem:
  "s \<in> set (rule_starts r) \<longleftrightarrow>
    1 < s \<and> (min_input_tokens r = Some s \<or> Option.bind (max_input_tokens r) (\<lambda>n. checked_add n 1) = Some s)"
  by (cases "min_input_tokens r"; cases "Option.bind (max_input_tokens r) (\<lambda>n. checked_add n 1)")
    (auto simp: rule_starts_def filter_option_def map_filter_simps split: if_splits)

lemma checked_add_one: "n < k \<Longrightarrow> checked_add n 1 = Some (n + 1) \<and> n + 1 \<le> k \<and> n < n + 1" for n k :: u64
proof -
  assume less: "n < k"
  then have u: "unat (n + 1) = Suc (unat n)"
  proof -
    have "n \<noteq> - 1" using less word_n1_ge [of k] by auto
    then have "1 + n \<noteq> 0" by (metis add.commute eq_neg_iff_add_eq_0)
    then show ?thesis using unatSuc [of n] by (simp add: add.commute)
  qed
  then have "n < n + 1" by (simp add: word_less_nat_alt)
  moreover have "unat n + unat (1 :: u64) < 2 ^ 64"
  proof -
    have "unat (n + 1) < 2 ^ LENGTH(64)" by (rule unsigned_less)
    then show ?thesis using u by simp
  qed
  moreover have "n + 1 \<le> k" using u less by (simp add: word_le_nat_alt word_less_nat_alt)
  ultimately show ?thesis by (simp add: checked_add_def)
qed

lemma rule_contains_between:
  assumes "1 \<le> a" "a \<le> b" "\<forall>s \<in> set (rule_starts r). \<not> (a < s \<and> s \<le> b)"
  shows "rule_contains r a = rule_contains r b"
proof -
  have lo: "lo \<le> a \<longleftrightarrow> lo \<le> b" if "min_input_tokens r = Some lo" for lo
  proof (rule ccontr)
    assume "\<not> ?thesis"
    then have "a < lo" "lo \<le> b" using assms(2) by auto
    moreover from this have "lo \<in> set (rule_starts r)" using assms(1) that by (auto simp: rule_starts_mem)
    ultimately show False using assms(3) by blast
  qed
  have hi: "a \<le> hi \<longleftrightarrow> b \<le> hi" if "max_input_tokens r = Some hi" for hi
  proof (rule ccontr)
    assume "\<not> ?thesis"
    then have h: "a \<le> hi" "hi < b" using assms(2) by auto
    from checked_add_one [OF h(2)] have "hi + 1 \<in> set (rule_starts r)" "a < hi + 1" "hi + 1 \<le> b"
      using assms(1) h(1) that by (auto simp: rule_starts_mem)
    with assms(3) show False by blast
  qed
  show ?thesis using lo hi by (auto simp: rule_contains_def split: option.split)
qed

lemma input_rates_between:
  assumes "1 \<le> a" "a \<le> b" "\<forall>s \<in> set (price_starts prices). \<not> (a < s \<and> s \<le> b)"
  shows "input_rates fmul bounds p m prices ctx a = input_rates fmul bounds p m prices ctx b"
proof -
  have "\<forall>r \<in> set (rules prices). rule_contains r a = rule_contains r b"
    using assms by (intro ballI rule_contains_between) (auto simp: price_starts_def)
  then show ?thesis unfolding input_rates_def by (rule quote_input)
qed

lemma price_starts_sorted: "sorted (price_starts prices)"
  by (simp add: price_starts_def sorted_remdups_adj)

lemma unchanged_below_increase:
  assumes starts: "price_starts prices = before @ start # rest" and n: "1 \<le> n" "n < start"
    and before: "\<forall>b \<in> set before. \<exists>rs. input_rates fmul bounds p m prices ctx b = Some rs \<and> \<not> increased baseline rs"
    and baseline: "input_rates fmul bounds p m prices ctx 1 = Some baseline"
  shows "\<exists>rs. input_rates fmul bounds p m prices ctx n = Some rs \<and> \<not> increased baseline rs"
proof -
  let ?S = "{s \<in> set (1 # before). s \<le> n}"
  have S: "finite ?S" "1 \<in> ?S" using n(1) by auto
  define a where "a = Max ?S"
  have a: "a \<in> ?S" "\<And>s. s \<in> ?S \<Longrightarrow> s \<le> a" "1 \<le> a"
    using S Max_in [of ?S] Max_ge [OF S(1)] unfolding a_def by blast+
  have late: "start \<le> s" if "s \<in> set (start # rest)" for s
    using price_starts_sorted [of prices] that starts by (auto simp: sorted_append)
  have "\<not> (a < s \<and> s \<le> n)" if "s \<in> set (price_starts prices)" for s
  proof (cases "s \<in> set before")
    case True
    then show ?thesis using a(2) [of s] by auto
  next
    case False
    then have "start \<le> s" using that starts late by auto
    then show ?thesis using n(2) by auto
  qed
  then have "input_rates fmul bounds p m prices ctx a = input_rates fmul bounds p m prices ctx n"
    using a by (intro input_rates_between) auto
  moreover have "\<exists>rs. input_rates fmul bounds p m prices ctx a = Some rs \<and> \<not> increased baseline rs"
    using a(1) before baseline by auto
  ultimately show ?thesis by simp
qed

text \<open>
  The standard price range ends exactly where a price first rises. When a limit is
  found, the row is billed per token; at every input count from one up to the limit the
  rates are known and none exceeds the rate of a one-token input; one token past the
  limit, some rate does. The search looks only at the counts where a rule starts or
  stops to apply, and nothing changes between them.
\<close>
theorem standard_price_limit_sound:
  assumes "standard_price_input_limit fmul bounds p m ctx = Some n_max"
  shows "\<exists>prices baseline. pricing m = Some prices \<and> billing_mode_on m (profile_pricing p) = PerToken
    \<and> input_rates fmul bounds p m prices ctx 1 = Some baseline \<and> 1 \<le> n_max
    \<and> (\<forall>n. 1 \<le> n \<and> n \<le> n_max \<longrightarrow>
         (\<exists>rs. input_rates fmul bounds p m prices ctx n = Some rs \<and> \<not> increased baseline rs))
    \<and> (\<exists>rs. input_rates fmul bounds p m prices ctx (n_max + 1) = Some rs \<and> increased baseline rs)"
proof -
  obtain prices baseline where pb: "pricing m = Some prices" "billing_mode_on m (profile_pricing p) = PerToken"
    "input_rates fmul bounds p m prices ctx 1 = Some baseline"
    "first_increase (input_rates fmul bounds p m prices ctx) baseline (price_starts prices) = Some n_max"
    using assms by (auto simp: standard_price_input_limit_def split: if_splits bind_splits)
  obtain before start rest where found: "price_starts prices = before @ start # rest" "n_max = start - 1"
    "case input_rates fmul bounds p m prices ctx start of Some rs \<Rightarrow> increased baseline rs | None \<Rightarrow> False"
    "list_all (\<lambda>b. case input_rates fmul bounds p m prices ctx b of
        Some rs \<Rightarrow> \<not> increased baseline rs | None \<Rightarrow> False) before"
    using first_increase_Some [OF pb(4)] by blast
  have "start \<in> set (price_starts prices)" using found(1) by simp
  then have "1 < start" by (auto simp: price_starts_def rule_starts_mem)
  moreover from this have "start \<noteq> 0" by (cases "start = 0") (simp_all add: word_less_nat_alt)
  ultimately have bounds: "1 \<le> n_max" "n_max + 1 = start" "n_max < start"
    using found(2) unat_minus_one [of start] by (auto simp: word_le_nat_alt word_less_nat_alt)
  have "\<forall>b \<in> set before. \<exists>rs. input_rates fmul bounds p m prices ctx b = Some rs \<and> \<not> increased baseline rs"
    using found(4) by (auto simp: list_all_iff split: option.splits)
  then have "\<exists>rs. input_rates fmul bounds p m prices ctx n = Some rs \<and> \<not> increased baseline rs"
    if "1 \<le> n" "n \<le> n_max" for n
    using unchanged_below_increase [OF found(1) that(1) _ _ pb(3)] that(2) bounds(3) by auto
  moreover have "\<exists>rs. input_rates fmul bounds p m prices ctx (n_max + 1) = Some rs \<and> increased baseline rs"
    using found(3) bounds(2) by (auto split: option.splits)
  ultimately show ?thesis using pb(1-3) bounds(1) by blast
qed

definition priced_profile :: provider_profile where
  "priced_profile = sample_profile ''a'' None [International] AnthropicMessages [] []"

definition priced_model :: model_profile where
  "priced_model = (sample_model ''m'') \<lparr> pricing := Some sample_prices,
     metadata := default_metadata \<lparr> context_window_tokens := Some 500000 \<rparr> \<rparr>"

lemma priced_model_simps:
  "pricing priced_model = Some sample_prices"
  "billing_mode_on priced_model (profile_pricing priced_profile) = PerToken"
  "peak (profile_pricing priced_profile) = None"
  "price_starts sample_prices = [200001]"
  by (simp_all add: priced_model_def priced_profile_def sample_profile_def sample_model_def billing_mode_on_def
      price_starts_def sample_prices_def sample_rule_def rule_starts_def filter_option_def map_filter_simps
      checked_add_def)

lemma sample_rates:
  assumes "n = 1 \<or> n = 200001"
  shows "input_rates (\<lambda>a b. a) (utc_bounds no_zones) priced_profile priced_model sample_prices (sample_context 1) n
    = Some (no_rates \<lparr> tr_input := Some (if n = 1 then 3 else 4) \<rparr>)"
proof -
  have "default_service_tier (on_connection (mi_features (info priced_model)) (pi_features (profile_info priced_profile))) = None"
    by code_simp
  then show ?thesis
    using assms sample_quote_low sample_quote_high
    by (auto simp: input_rates_def priced_model_simps sample_context_def)
qed

theorem standard_price_limit_sound_witness:
  "\<exists>prices rs. input_rates (\<lambda>a b. a) (utc_bounds no_zones) priced_profile priced_model prices
     (sample_context 1) 150000 = Some rs"
proof -
  have less: "f64_less 3 4" by (simp add: f64_less_def f64_nan_def f64_finite_def f64_magnitude_def)
  have "standard_price_input_limit (\<lambda>a b. a) (utc_bounds no_zones) priced_profile priced_model (sample_context 1)
      = Some 200000"
    by (simp add: standard_price_input_limit_def priced_model_simps sample_rates increased_def no_rates_def less)
  from standard_price_limit_sound [OF this] obtain prices where
    "\<forall>n. 1 \<le> n \<and> n \<le> 200000 \<longrightarrow> (\<exists>rs. input_rates (\<lambda>a b. a) (utc_bounds no_zones) priced_profile priced_model prices
       (sample_context 1) n = Some rs)" by blast
  then have "\<exists>rs. input_rates (\<lambda>a b. a) (utc_bounds no_zones) priced_profile priced_model prices
       (sample_context 1) 150000 = Some rs" by (simp add: word_le_nat_alt)
  then show ?thesis by blast
qed

subsection \<open>The budget fits\<close>

lemma tighter_le: "tighter a b \<Longrightarrow> a = Some x \<Longrightarrow> b = Some y \<Longrightarrow> x \<le> y"
  by (simp add: tighter_def)

lemma chosen_fits:
  assumes "map_option (\<lambda>n. saturating_sub n k) (minimum planning target) = Some b"
    and "planning = minimum input (Some (saturating_sub w r))" "0 < b"
  shows "unat b + unat k + unat r \<le> unat w"
proof -
  obtain n where n: "minimum planning target = Some n" "b = saturating_sub n k" using assms(1) by auto
  have "tighter (Some n) (Some (saturating_sub w r))"
    using tighter_trans [OF tighter_minimum(1) tighter_minimum(2)] n(1) assms(2) by metis
  then have "unat n \<le> unat w - unat r"
    using unat_saturating_sub [of w r] by (simp add: tighter_def word_le_nat_alt)
  moreover have "0 < unat b" "unat b = unat n - unat k"
    using assms(3) n(2) unat_saturating_sub [of n k] by (simp_all add: word_less_nat_alt)
  ultimately show ?thesis by linarith
qed

text \<open>
  A resolved context budget fits the model. The budget never exceeds the hard input
  limit, which never exceeds the input ceiling of the row; a custom budget is positive
  and respected; the automatic policy stays within the standard price range and the
  recommendation. On a row whose window is shared with the output, a positive budget
  leaves room for the output reserve and for the safety margin inside the window. A row
  with a known ceiling or window always gets a budget.
\<close>
theorem context_budget_sound:
  assumes "resolve_context fmul bounds p m req out_tokens pctx = Ok rc"
  shows "tighter (effective_input_budget rc) (hard_input_limit rc)
    \<and> tighter (hard_input_limit rc) (rc_max_input rc)
    \<and> (case rc_policy rc of
         Auto \<Rightarrow> tighter (effective_input_budget rc) (standard_price_input rc)
           \<and> tighter (effective_input_budget rc) (map_option rec_input_tokens (rc_recommendation rc))
       | Long \<Rightarrow> True
       | Custom n \<Rightarrow> n \<noteq> 0 \<and> tighter (effective_input_budget rc) (Some n))
    \<and> (case (rc_context_window rc, effective_input_budget rc) of
         (Some w, Some b) \<Rightarrow> (rc_shared_window rc = Some True \<and> 0 < b \<longrightarrow>
             unat b + unat (safety_tokens req)
               + unat (case output_reserve rc of Some r \<Rightarrow> r | None \<Rightarrow> 0) \<le> unat w)
       | (None, None) \<Rightarrow> rc_max_input rc = None
       | (Some _, None) \<Rightarrow> False
       | (None, Some _) \<Rightarrow> True)"
proof -
  obtain policy where rc: "rc = context_under fmul bounds p m req out_tokens pctx policy" "policy \<noteq> Custom 0"
    using assms by (auto simp: resolve_context_def Let_def split: sum.splits if_splits)
  define shared window input stated target where
    "shared = rc_shared_window rc" and "window = rc_context_window rc" and "input = rc_max_input rc"
    and "stated = map_option (ucast :: u32 \<Rightarrow> u64) out_tokens"
    and "target = (case policy of
        Auto \<Rightarrow> minimum (standard_price_input rc) (map_option rec_input_tokens (rc_recommendation rc))
      | Long \<Rightarrow> None | Custom n \<Rightarrow> Some n)"
  let ?planning = "minimum input (input_room window shared (output_reserve rc))"
  have policy: "rc_policy rc = policy" and hard: "hard_input_limit rc = minimum input (input_room window shared stated)"
    and budget: "effective_input_budget rc = map_option (\<lambda>n. saturating_sub n (safety_tokens req)) (minimum ?planning target)"
    and reserve: "output_reserve rc = or_keep stated (planning_output_tokens req)"
    by (simp_all add: rc(1) context_under_def Let_def shared_def window_def input_def stated_def target_def
        split: context_policy.split)
  have within: "tighter (effective_input_budget rc) (minimum ?planning target)"
    by (simp only: budget tighter_less_safety)
  have "tighter (input_room window shared (output_reserve rc)) (input_room window shared stated)"
    using saturating_sub_mono [of 0] by (cases window; cases stated) (auto simp: tighter_def input_room_def reserve split: option.split)
  then have 1: "tighter (effective_input_budget rc) (hard_input_limit rc)"
    unfolding hard using tighter_trans [OF within] tighter_trans [OF tighter_minimum(1) tighter_mono] by blast
  have target: "tighter (effective_input_budget rc) target"
    using tighter_trans [OF within tighter_minimum(2)] .
  have 3: "case policy of
      Auto \<Rightarrow> tighter (effective_input_budget rc) (standard_price_input rc)
        \<and> tighter (effective_input_budget rc) (map_option rec_input_tokens (rc_recommendation rc))
    | Long \<Rightarrow> True | Custom n \<Rightarrow> n \<noteq> 0 \<and> tighter (effective_input_budget rc) (Some n)"
    using target rc(2) tighter_trans [OF target] tighter_minimum by (cases policy) (auto simp: target_def)
  have 4: "unat b + unat (safety_tokens req) + unat (case output_reserve rc of Some r \<Rightarrow> r | None \<Rightarrow> 0) \<le> unat w"
    if "window = Some w" "effective_input_budget rc = Some b" "shared = Some True" "0 < b" for w b
    by (rule chosen_fits [OF _ _ that(4)])
      (use that budget in \<open>simp_all add: input_room_def\<close>)
  have 5: "effective_input_budget rc = None \<Longrightarrow> window = None \<and> input = None"
    by (auto simp: budget minimum_None input_room_def)
  show ?thesis
    using 1 3 4 5 tighter_minimum(1) unfolding policy hard
    by (auto simp: shared_def window_def input_def split: option.split)
qed

theorem context_budget_sound_witness:
  "effective_input_budget (context_under (\<lambda>a b. a) (utc_bounds no_zones) priced_profile priced_model
     \<lparr> cq_policy = Some Long, planning_output_tokens = None, safety_tokens = 1000, cq_thinking = None \<rparr>
     None (sample_context 1) Long) \<noteq> None"
proof -
  let ?req = "\<lparr> cq_policy = Some Long, planning_output_tokens = None, safety_tokens = 1000, cq_thinking = None \<rparr>"
  have "resolve_context (\<lambda>a b. a) (utc_bounds no_zones) priced_profile priced_model ?req None (sample_context 1)
      = Ok (context_under (\<lambda>a b. a) (utc_bounds no_zones) priced_profile priced_model ?req None (sample_context 1) Long)"
    by (simp add: resolve_context_def priced_model_def default_metadata_def)
  from context_budget_sound [OF this] show ?thesis
    by (auto simp: context_under_def Let_def priced_model_def positive_def filter_option_def split: option.splits)
qed

end
