(* ===== verification/Cost_Estimate.thy ===== *)
theory Cost_Estimate
  imports Context_Policy Stream_Events
begin

text \<open>
  What a request costs: token charges over a selected quote
  (\<^verbatim>\<open>src/client/pricing.rs\<close>), the price query of a resolved route
  (\<^verbatim>\<open>ClientSnapshot::price_quote_for_route\<close>), and the actual cost of an attempt
  under frozen prices (\<^verbatim>\<open>src/client/frozen_pricing.rs\<close>).

  IEEE arithmetic is the parameter \<open>float_ops\<close>; values are bit patterns.
\<close>

section \<open>Charges over a quote\<close>

record float_ops =
  f_add :: "f64 \<Rightarrow> f64 \<Rightarrow> f64"
  f_mul :: "f64 \<Rightarrow> f64 \<Rightarrow> f64"
  f_div :: "f64 \<Rightarrow> f64 \<Rightarrow> f64"
  f_of_u64 :: "u64 \<Rightarrow> f64"

definition f64_one :: f64 where
  "f64_one = 4607182418800017408"

definition f64_million :: f64 where
  "f64_million = 4696837146684686336"

record cost_estimate =
  ce_currency :: string
  ce_context :: pricing_context
  ce_pricing_model :: pricing_model_ref
  ce_submission :: submission
  input_cost :: f64
  output_cost :: f64
  cache_read_cost :: f64
  cache_write_cost :: f64
  reasoning_cost :: f64
  total_cost :: f64
  ce_source :: "string option"

definition token_price :: "float_ops \<Rightarrow> u64 \<Rightarrow> f64 \<Rightarrow> f64" where
  "token_price fl tokens per_million = f_mul fl (f_div fl (f_of_u64 fl tokens) f64_million) per_million"

definition cost_bucket :: "float_ops \<Rightarrow> u64 \<Rightarrow> f64 option \<Rightarrow> string \<Rightarrow> string \<Rightarrow> llm_error + f64" where
  "cost_bucket fl tokens rate name model =
    (if tokens = 0 then Ok 0
     else
       (case rate of
          Some r \<Rightarrow>
            let c = token_price fl tokens r in
            if \<not> f64_finite r \<or> f64_negative r \<or> \<not> f64_finite c
            then Err (CostUnavailable [DebugStr model, Lit '' has an invalid or overflowing '', Lit name, Lit '' rate''])
            else Ok c
        | None \<Rightarrow> Err (CostUnavailable [DebugStr model, Lit '' has no '', Lit name, Lit '' rate for '',
                     Dec (unat tokens), Lit '' '', Lit name, Lit '' tokens''])))"

definition output_costs :: "float_ops \<Rightarrow> token_rates \<Rightarrow> usage \<Rightarrow> string \<Rightarrow> llm_error + f64 \<times> f64" where
  "output_costs fl rs u model =
    (case tr_reasoning rs of
       Some r \<Rightarrow>
         bind_result (cost_bucket fl (output_tokens u - reasoning_tokens u) (tr_output rs) ''output'' model) (\<lambda>a.
         bind_result (cost_bucket fl (reasoning_tokens u) (Some r) ''reasoning'' model) (\<lambda>b. Ok (a, b)))
     | None \<Rightarrow>
         bind_result (cost_bucket fl (output_tokens u) (tr_output rs) ''output'' model) (\<lambda>a. Ok (a, 0)))"

definition estimate :: "float_ops \<Rightarrow> price_quote \<Rightarrow> usage \<Rightarrow> pricing_model_ref \<Rightarrow> llm_error + cost_estimate" where
  "estimate fl q u pm =
    (case q_rates q of
       None \<Rightarrow> Err (CostUnavailable (case q_reason q of Some r \<Rightarrow> r
                 | None \<Rightarrow> [Lit ''this quote has no monetary token rates'']))
     | Some rs \<Rightarrow>
         if cache_write_tokens u < cache_write_1h_tokens u
         then Err (CostUnavailable [Lit ''one-hour cache-write tokens exceed total cache writes''])
         else if output_tokens u < reasoning_tokens u
         then Err (CostUnavailable [Lit ''reasoning tokens exceed output tokens''])
         else
           let model = ref_billing_model pm in
           bind_result (cost_bucket fl (input_tokens u) (tr_input rs) ''input'' model) (\<lambda>ic.
           bind_result (cost_bucket fl (cache_read_tokens u) (tr_cache_read rs) ''cache_read'' model) (\<lambda>rc.
           bind_result (cost_bucket fl (cache_write_tokens u - cache_write_1h_tokens u)
                          (tr_cache_write rs) ''cache_write'' model) (\<lambda>w.
           bind_result (cost_bucket fl (cache_write_1h_tokens u) (tr_cache_write_1h rs) ''cache_write_1h'' model) (\<lambda>w1.
           bind_result (output_costs fl rs u model) (\<lambda>(oc, gc).
             let wc = f_add fl w w1;
                 total = f_add fl (f_add fl (f_add fl (f_add fl ic oc) rc) wc) gc in
             if \<not> f64_finite total
             then Err (CostUnavailable [DebugStr model, Lit '' cost exceeds the supported numeric range''])
             else Ok \<lparr> ce_currency = q_currency q, ce_context = q_context q, ce_pricing_model = pm,
                       ce_submission = pc_submission (q_context q), input_cost = ic, output_cost = oc,
                       cache_read_cost = rc, cache_write_cost = wc, reasoning_cost = gc,
                       total_cost = total, ce_source = q_source q \<rparr>))))))"

definition estimate_fixed ::
  "float_ops \<Rightarrow> (price_boundary \<Rightarrow> message + u64 \<times> u64) \<Rightarrow> token_pricing \<Rightarrow> usage \<Rightarrow> pricing_model_ref
    \<Rightarrow> string \<Rightarrow> llm_error + cost_estimate" where
  "estimate_fixed fl bounds prices u pm src =
    (if rules prices \<noteq> [] \<or> quota prices \<noteq> []
     then Err (CostUnavailable [Lit ''context-dependent prices require a frozen pricing snapshot''])
     else
       estimate fl ((quote (f_mul fl) bounds prices PerToken None
           \<lparr> pc_service_tier = Some Standard, pc_submission = Interactive,
             pc_input_tokens = None, unix_seconds = None \<rparr>) \<lparr> q_source := Some src \<rparr>) u pm)"

section \<open>The price of a resolved route\<close>

definition same_pricing_row :: "resolved_route \<Rightarrow> model_profile \<Rightarrow> bool" where
  "same_pricing_row rt m \<longleftrightarrow> request_model m = route_request_model rt
     \<and> display_model m = route_display_model rt \<and> billing_model m = ref_billing_model (pricing_model rt)"

definition pricing_selection ::
  "runtime_snapshot \<Rightarrow> resolved_route \<Rightarrow> llm_error + provider_profile \<times> model_profile" where
  "pricing_selection s rt =
    (let fail = CostUnavailable [Lit ''price route does not identify exactly one current model''] in
     case named_profile s (route_profile_name rt) of
       None \<Rightarrow> Err fail
     | Some i \<Rightarrow>
         let p = profile_at s i in
         if provider_id p \<noteq> route_provider_id rt
            \<or> provider_id p \<noteq> pricing_provider_id (pricing_model rt)
            \<or> route_request_model rt \<noteq> ref_request_model (pricing_model rt)
            \<or> route_display_model rt \<noteq> ref_display_model (pricing_model rt)
         then Err fail
         else (case filter (same_pricing_row rt) (models p) of
                 [m] \<Rightarrow> Ok (p, m)
               | _ \<Rightarrow> Err fail))"

definition price_quote_for_route ::
  "(f64 \<Rightarrow> f64 \<Rightarrow> f64) \<Rightarrow> (price_boundary \<Rightarrow> message + u64 \<times> u64) \<Rightarrow> u64 \<Rightarrow> runtime_snapshot
    \<Rightarrow> resolved_route \<Rightarrow> pricing_context \<Rightarrow> llm_error + price_quote" where
  "price_quote_for_route fmul bounds now s rt ctx0 =
    bind_result (pricing_selection s rt) (\<lambda>(p, m).
      let features = on_connection (mi_features (info m)) (pi_features (profile_info p));
          ctx = ctx0 \<lparr> unix_seconds := or_keep (unix_seconds ctx0) (Some now),
                       pc_service_tier := or_keep (pc_service_tier ctx0) (default_service_tier features) \<rparr> in
      if pc_service_tier ctx = Some Fast \<and> fast features = Unsupported
      then Ok (empty_quote ctx UnsupportedPrice ''this model does not support fast mode'')
      else
        (case pricing m of
           None \<Rightarrow>
             let q = empty_quote ctx UnknownPrice ''model prices are unpublished'' in
             Ok (if billing_mode_on m (profile_pricing p) = Subscription
                 then q \<lparr> q_unit := ''subscription_quota'' \<rparr> else q)
         | Some prices \<Rightarrow>
             Ok (quote fmul bounds prices (billing_mode_on m (profile_pricing p))
                   (peak (profile_pricing p)) ctx)))"

definition estimate_cost ::
  "float_ops \<Rightarrow> (price_boundary \<Rightarrow> message + u64 \<times> u64) \<Rightarrow> u64 \<Rightarrow> runtime_snapshot \<Rightarrow> resolved_route
    \<Rightarrow> usage \<Rightarrow> pricing_context \<Rightarrow> llm_error + cost_estimate" where
  "estimate_cost fl bounds now s rt u ctx =
    bind_result (price_quote_for_route (f_mul fl) bounds now s rt
        (ctx \<lparr> pc_input_tokens := or_keep (pc_input_tokens ctx) (prompt_tokens u) \<rparr>)) (\<lambda>q.
      estimate fl q u (pricing_model rt))"

section \<open>Frozen prices\<close>

record frozen_pricing =
  fz_profile :: provider_profile
  fz_model :: model_profile
  fz_source :: "json_payload option"

definition capture :: "provider_profile \<Rightarrow> string \<Rightarrow> string \<Rightarrow> llm_error + frozen_pricing" where
  "capture p disp req =
    (case filter (\<lambda>m. display_model m = disp \<and> request_model m = req) (models p) of
       [] \<Rightarrow> Err (ModelUnavailable [Lit ''pricing row is missing''])
     | [m] \<Rightarrow> Ok \<lparr> fz_profile = p, fz_model = m, fz_source = None \<rparr>
     | _ \<Rightarrow> Err (InvalidRequest [Lit ''pricing row is ambiguous'']))"

fun replace_first :: "('a \<Rightarrow> bool) \<Rightarrow> 'a \<Rightarrow> 'a list \<Rightarrow> 'a list" where
  "replace_first P y [] = []"
| "replace_first P y (x # xs) = (if P x then y # xs else x # replace_first P y xs)"

definition with_token_pricing :: "frozen_pricing \<Rightarrow> token_pricing \<Rightarrow> frozen_pricing" where
  "with_token_pricing fz prices =
    (let m = (fz_model fz) \<lparr> pricing := Some prices, billing_mode_override := Some PerToken \<rparr> in
     fz \<lparr> fz_model := m,
          fz_profile := (fz_profile fz) \<lparr> models := replace_first
            (\<lambda>x. display_model x = display_model m \<and> request_model x = request_model m) m
            (models (fz_profile fz)) \<rparr> \<rparr>)"

definition frozen_quote ::
  "(f64 \<Rightarrow> f64 \<Rightarrow> f64) \<Rightarrow> (price_boundary \<Rightarrow> message + u64 \<times> u64) \<Rightarrow> frozen_pricing \<Rightarrow> pricing_context
    \<Rightarrow> llm_error + price_quote" where
  "frozen_quote fmul bounds fz ctx =
    (case pricing (fz_model fz) of
       None \<Rightarrow> Err (CostUnavailable [Lit ''model prices are unpublished''])
     | Some prices \<Rightarrow>
         Ok (quote fmul bounds prices (billing_mode_on (fz_model fz) (profile_pricing (fz_profile fz)))
               (peak (profile_pricing (fz_profile fz))) ctx))"

definition frozen_features :: "frozen_pricing \<Rightarrow> inference_features" where
  "frozen_features fz = on_connection (mi_features (info (fz_model fz))) (pi_features (profile_info (fz_profile fz)))"

text \<open>The tier an attempt ran on; an unconfirmed fast or unknown tier is an error.\<close>

definition executed_tier :: "inference_features \<Rightarrow> inference_report \<Rightarrow> llm_error + service_tier" where
  "executed_tier features inf_rep =
    (case reported_service_tier inf_rep of
       Some t \<Rightarrow> Ok t
     | None \<Rightarrow>
         if requested_service_tier inf_rep = Some Fast
            \<or> is_some (requested_raw_service_tier inf_rep)
            \<or> (case raw_service_tier inf_rep of Some s \<Rightarrow> s \<noteq> ''standard'' \<and> s \<noteq> ''default'' | None \<Rightarrow> False)
            \<or> is_some (raw_speed inf_rep)
            \<or> default_service_tier features = Some Fast
         then Err (CostUnavailable [Lit ''the actual service tier is unknown''])
         else Ok Standard)"

definition frozen_ref :: "frozen_pricing \<Rightarrow> pricing_model_ref" where
  "frozen_ref fz = \<lparr> pricing_provider_id = provider_id (fz_profile fz),
     ref_billing_model = billing_model (fz_model fz), ref_request_model = request_model (fz_model fz),
     ref_display_model = display_model (fz_model fz) \<rparr>"

definition frozen_estimate ::
  "float_ops \<Rightarrow> (price_boundary \<Rightarrow> message + u64 \<times> u64) \<Rightarrow> frozen_pricing \<Rightarrow> usage_report
    \<Rightarrow> inference_report \<Rightarrow> submission \<Rightarrow> llm_error + cost_estimate" where
  "frozen_estimate fl bounds fz rep inf_rep sub =
    (case complete_usage rep of
       None \<Rightarrow> Err (CostUnavailable [Lit ''actual cost requires complete valid usage''])
     | Some u \<Rightarrow>
         bind_result (executed_tier (frozen_features fz) inf_rep) (\<lambda>tier.
         if tier = Fast \<and> fast (frozen_features fz) = Unsupported
         then Err (CostUnavailable [Lit ''the selected model does not support fast pricing''])
         else
           (case pricing (fz_model fz) of
              None \<Rightarrow> Err (CostUnavailable [Lit ''model prices are unpublished''])
            | Some prices \<Rightarrow>
                if executed_at inf_rep = None
                   \<and> (is_some (peak (profile_pricing (fz_profile fz))) \<or> requires_execution_time prices tier sub)
                then Err (CostUnavailable [Lit ''execution time is required for time-dependent prices''])
                else
                  estimate fl
                    (quote (f_mul fl) bounds prices
                       (billing_mode_on (fz_model fz) (profile_pricing (fz_profile fz)))
                       (peak (profile_pricing (fz_profile fz)))
                       \<lparr> pc_service_tier = Some tier, pc_submission = sub, pc_input_tokens = prompt_tokens u,
                         unix_seconds = executed_at inf_rep \<rparr>)
                    u (frozen_ref fz))))"

section \<open>Lemmas\<close>

subsection \<open>Estimates\<close>

lemma cost_bucket_Ok:
  "cost_bucket fl tokens rate name model = Ok c \<longleftrightarrow>
    (if tokens = 0 then c = 0
     else (case rate of None \<Rightarrow> False
           | Some r \<Rightarrow> c = token_price fl tokens r \<and> f64_finite r \<and> \<not> f64_negative r \<and> f64_finite c))"
  by (auto simp: cost_bucket_def Let_def split: option.splits)

text \<open>A bucket is charged at a known, finite, non-negative rate, or it is empty and free.\<close>

definition charged :: "float_ops \<Rightarrow> u64 \<Rightarrow> f64 option \<Rightarrow> f64 \<Rightarrow> bool" where
  "charged fl tokens rate c \<longleftrightarrow>
    (if tokens = 0 then c = 0
     else (case rate of None \<Rightarrow> False
           | Some r \<Rightarrow> c = token_price fl tokens r \<and> f64_finite r \<and> \<not> f64_negative r \<and> f64_finite c))"

lemma cost_bucket_charged: "cost_bucket fl tokens rate name model = Ok c \<Longrightarrow> charged fl tokens rate c"
  by (simp only: cost_bucket_Ok charged_def)


definition sample_ops :: float_ops where
  "sample_ops = \<lparr> f_add = \<lambda>a b. a, f_mul = \<lambda>a b. b, f_div = \<lambda>a b. a, f_of_u64 = \<lambda>n. n \<rparr>"


end
