(* ===== verification/Price_Bounds.thy ===== *)
theory Price_Bounds
  imports Cost_Estimate
begin

text \<open>
  Conservative bounds over every published interactive rate of a frozen model row
  (\<^verbatim>\<open>src/client/price_bounds.rs\<close>): the quote is sampled on both sides of every
  rule boundary, and the bounds hold at every prompt length and time.
\<close>

section \<open>Bounds over every published interactive rate\<close>

record price_bounds =
  default_fast :: bool
  bound_standard :: token_rates
  bound_fast :: "token_rates option"

definition insert_boundary :: "u64 \<Rightarrow> u64 list" where
  "insert_boundary b = [saturating_sub b 1, b, saturating_add b 1]"

definition points :: "u64 list \<Rightarrow> u64 list" where
  "points xs = remdups_adj (sort xs)"

definition input_points :: "price_rule list \<Rightarrow> u64 list" where
  "input_points rs = points ([0, - 1] @ concat (map (\<lambda>r. concat (map insert_boundary
     (List.map_filter (\<lambda>b. b) [min_input_tokens r, max_input_tokens r]))) rs))"

fun boundary_times ::
  "(price_boundary \<Rightarrow> message + u64 \<times> u64) \<Rightarrow> price_boundary list \<Rightarrow> llm_error + u64 list" where
  "boundary_times bounds [] = Ok []"
| "boundary_times bounds (b # bs) =
    (case bounds b of
       Inl e \<Rightarrow> Err (CostUnavailable e)
     | Inr (earliest, latest) \<Rightarrow>
         if earliest \<noteq> latest
         then Err (CostUnavailable [Lit ''attempt price boundaries require a confirmed billing time zone''])
         else bind_result (boundary_times bounds bs) (\<lambda>ts.
           Ok (insert_boundary earliest @ insert_boundary latest @ ts)))"

definition rule_boundaries :: "price_rule \<Rightarrow> price_boundary list" where
  "rule_boundaries r = List.map_filter (\<lambda>b. b) [valid_from r, valid_until r]"

definition f64_max :: "f64 \<Rightarrow> f64 \<Rightarrow> f64" where
  "f64_max a b = (if f64_nan a then b else if f64_nan b then a else if f64_less a b then b else a)"

definition max_rate :: "f64 option \<Rightarrow> f64 option \<Rightarrow> f64 option" where
  "max_rate a b = (case (a, b) of (Some x, Some y) \<Rightarrow> Some (f64_max x y) | _ \<Rightarrow> None)"

definition merge_bounds :: "token_rates \<Rightarrow> token_rates \<Rightarrow> token_rates" where
  "merge_bounds a b = \<lparr> tr_input = max_rate (tr_input a) (tr_input b),
     tr_output = max_rate (tr_output a) (tr_output b),
     tr_cache_read = max_rate (tr_cache_read a) (tr_cache_read b),
     tr_cache_write = max_rate (tr_cache_write a) (tr_cache_write b),
     tr_cache_write_1h = max_rate (tr_cache_write_1h a) (tr_cache_write_1h b),
     tr_reasoning = max_rate (tr_reasoning a) (tr_reasoning b),
     tr_web_search = max_rate (tr_web_search a) (tr_web_search b) \<rparr>"

definition scale_rates :: "(f64 \<Rightarrow> f64 \<Rightarrow> f64) \<Rightarrow> f64 \<Rightarrow> token_rates \<Rightarrow> llm_error + token_rates" where
  "scale_rates fmul f rs0 =
    (let up = map_option (\<lambda>v. fmul v f);
         rs = rs0 \<lparr> tr_reasoning := or_keep (tr_reasoning rs0) (tr_output rs0) \<rparr>;
         scaled_rs = rs \<lparr> tr_input := up (tr_input rs), tr_output := up (tr_output rs),
                        tr_cache_read := up (tr_cache_read rs), tr_cache_write := up (tr_cache_write rs),
                        tr_cache_write_1h := up (tr_cache_write_1h rs),
                        tr_reasoning := up (tr_reasoning rs) \<rparr> in
     if list_ex (\<lambda>v. \<not> f64_finite v \<or> f64_negative v)
          (rate_values (scaled_rs \<lparr> tr_web_search := None \<rparr>))
     then Err (CostUnavailable [Lit ''attempt rate bound exceeds the numeric range''])
     else Ok scaled_rs)"

type_synonym bound_state = "token_rates option \<times> (u64 \<times> u64 \<times> message option) option"

fun bound_scan ::
  "(f64 \<Rightarrow> f64 \<Rightarrow> f64) \<Rightarrow> (price_boundary \<Rightarrow> message + u64 \<times> u64) \<Rightarrow> frozen_pricing \<Rightarrow> service_tier \<Rightarrow> f64
    \<Rightarrow> (u64 \<times> u64) list \<Rightarrow> bound_state \<Rightarrow> llm_error + bound_state" where
  "bound_scan fmul bounds fz tier f [] st = Ok st"
| "bound_scan fmul bounds fz tier f ((n, t) # rest) (upper, unpriced) =
    bind_result (frozen_quote fmul bounds fz \<lparr> pc_service_tier = Some tier, pc_submission = Interactive,
        pc_input_tokens = Some n, unix_seconds = Some t \<rparr>) (\<lambda>q.
      case (if q_status q = Priced then q_rates q else None) of
        None \<Rightarrow> bound_scan fmul bounds fz tier f rest
          (upper, or_keep unpriced (Some (n, t, q_reason q)))
      | Some rs \<Rightarrow>
          bind_result (scale_rates fmul f rs) (\<lambda>rs.
            bound_scan fmul bounds fz tier f rest
              (Some (case upper of None \<Rightarrow> rs | Some previous \<Rightarrow> merge_bounds previous rs), unpriced)))"

definition tier_bounds ::
  "(f64 \<Rightarrow> f64 \<Rightarrow> f64) \<Rightarrow> (price_boundary \<Rightarrow> message + u64 \<times> u64) \<Rightarrow> frozen_pricing \<Rightarrow> service_tier
    \<Rightarrow> u64 list \<Rightarrow> u64 list \<Rightarrow> f64 \<Rightarrow> llm_error + token_rates option" where
  "tier_bounds fmul bounds fz tier inputs instants f =
    bind_result (bound_scan fmul bounds fz tier f (List.product inputs instants) (None, None)) (\<lambda>(upper, unpriced).
      if upper = None then Ok None
      else
        (case unpriced of
           None \<Rightarrow> Ok upper
         | Some (n, t, reason) \<Rightarrow>
             Err (CostUnavailable ([Lit ''published '', Lit (case tier of Standard \<Rightarrow> ''Standard'' | Fast \<Rightarrow> ''Fast''),
                    Lit '' price rules leave an unpriced context at '', Dec (unat n), Lit '' input tokens and '',
                    Dec (unat t), Lit '' UTC seconds: '']
                  @ (case reason of Some r \<Rightarrow> r | None \<Rightarrow> [Lit ''rates unavailable''])))))"

definition interactive_price_bounds ::
  "(f64 \<Rightarrow> f64 \<Rightarrow> f64) \<Rightarrow> (price_boundary \<Rightarrow> message + u64 \<times> u64) \<Rightarrow> frozen_pricing
    \<Rightarrow> llm_error + price_bounds option" where
  "interactive_price_bounds fmul bounds fz =
    (let m = fz_model fz; p = fz_profile fz; schedule = peak (profile_pricing p);
         is_fast = default_service_tier (frozen_features fz) = Some Fast in
     if \<not> (is_fast \<or> is_some schedule \<or> (case pricing m of Some prices \<Rightarrow> rules prices \<noteq> [] | None \<Rightarrow> False))
     then Ok None
     else
       (case pricing m of
          None \<Rightarrow> Err (CostUnavailable [Lit ''dynamic attempt prices are unpublished''])
        | Some prices \<Rightarrow>
            if billing_mode_on m (profile_pricing p) \<noteq> PerToken
            then Err (CostUnavailable [Lit ''attempt price bounds require published per-token rates''])
            else
              bind_result (boundary_times bounds (concat (map rule_boundaries (rules prices)))) (\<lambda>ts.
              bind_result (case schedule of
                  None \<Rightarrow> Ok f64_one
                | Some s \<Rightarrow>
                    (case validate_schedule s of
                       Inl e \<Rightarrow> Err (CostUnavailable e)
                     | Inr _ \<Rightarrow> Ok (f64_max (off_peak_multiplier s) f64_one))) (\<lambda>f.
              let inputs = input_points (rules prices); instants = points ([0, - 2] @ ts);
                  unscheduled = fz \<lparr> fz_profile := p \<lparr> profile_pricing := (profile_pricing p) \<lparr> peak := None \<rparr> \<rparr> \<rparr> in
              bind_result (tier_bounds fmul bounds unscheduled Standard inputs instants f) (\<lambda>standard.
                case standard of
                  None \<Rightarrow> Err (CostUnavailable [Lit ''no published standard rates can bound this attempt''])
                | Some standard_rs \<Rightarrow>
                    bind_result (tier_bounds fmul bounds unscheduled Fast inputs instants f) (\<lambda>fast_rs.
                      Ok (Some \<lparr> default_fast = is_fast, bound_standard = standard_rs, bound_fast = fast_rs \<rparr>)))))))"

section \<open>Lemmas\<close>

subsection \<open>Sample points decide every rule\<close>

lemma nearest_point:
  assumes "0 \<in> set xs"
  shows "\<exists>k \<in> set (points xs). k \<le> n \<and> (\<forall>x \<in> set xs. x \<le> n \<longrightarrow> x \<le> k)"
proof -
  let ?S = "{x \<in> set xs. x \<le> n}"
  have S: "finite ?S" "0 \<in> ?S" using assms by auto
  then have "Max ?S \<in> ?S" by (intro Max_in) auto
  moreover have "\<forall>x \<in> ?S. x \<le> Max ?S" using Max_ge [OF S(1)] by blast
  ultimately show ?thesis by (intro bexI [of _ "Max ?S"]) (auto simp: points_def)
qed

lemma saturating_add_one: "hi < n \<Longrightarrow> saturating_add hi 1 \<le> n \<and> hi < saturating_add hi 1" for hi n :: u64
  using checked_add_one [of hi n] by (auto simp: saturating_add_def checked_add_def split: if_splits)

lemma boundary_points:
  assumes "set (insert_boundary b) \<subseteq> set xs" "k \<le> n" "\<forall>x \<in> set xs. x \<le> n \<longrightarrow> x \<le> k"
  shows "b \<le> n \<longleftrightarrow> b \<le> k" "n \<le> b \<longleftrightarrow> k \<le> b"
proof -
  have mem: "b \<in> set xs" "saturating_add b 1 \<in> set xs" using assms(1) by (auto simp: insert_boundary_def)
  show "b \<le> n \<longleftrightarrow> b \<le> k" using assms(2,3) mem(1) by auto
  show "n \<le> b \<longleftrightarrow> k \<le> b"
  proof
    assume "k \<le> b"
    show "n \<le> b"
    proof (rule ccontr)
      assume "\<not> n \<le> b"
      then have "saturating_add b 1 \<le> n" "b < saturating_add b 1"
        using saturating_add_one [of b n] by auto
      then have "b < k" using assms(3) mem(2) by (meson less_le_trans)
      then show False using \<open>k \<le> b\<close> by auto
    qed
  qed (use assms(2) in auto)
qed

lemma rule_contains_sampled:
  assumes "\<forall>b. min_input_tokens r = Some b \<or> max_input_tokens r = Some b \<longrightarrow> set (insert_boundary b) \<subseteq> set xs"
    and "k \<le> n" "\<forall>x \<in> set xs. x \<le> n \<longrightarrow> x \<le> k"
  shows "rule_contains r n = rule_contains r k"
  using boundary_points [OF _ assms(2,3)] assms(1)
  by (auto simp: rule_contains_def split: option.split)

lemma temporal_match_sampled:
  assumes exact: "\<And>b. valid_from r = Some b \<or> valid_until r = Some b \<Longrightarrow>
      \<exists>x. bounds b = Ok (x, x) \<and> set (insert_boundary x) \<subseteq> set xs"
    and k: "k \<le> t" "\<forall>x \<in> set xs. x \<le> t \<longrightarrow> x \<le> k" and t: "t < - 1"
  shows "temporal_match bounds r t = temporal_match bounds r k"
proof -
  have since: "\<exists>f. boundary_bounds bounds 0 (valid_from r) = Ok (f, f) \<and> (t < f \<longleftrightarrow> k < f)"
  proof (cases "valid_from r")
    case (Some b)
    then obtain x where x: "bounds b = Ok (x, x)" "set (insert_boundary x) \<subseteq> set xs" using exact by blast
    show ?thesis using boundary_points(1) [OF x(2) k] x(1) Some by (auto simp: boundary_bounds_def not_le [symmetric])
  qed (use k(1) in \<open>auto simp: boundary_bounds_def\<close>)
  have until: "\<exists>u. boundary_bounds bounds (- 1) (valid_until r) = Ok (u, u) \<and> (u \<le> t \<longleftrightarrow> u \<le> k)"
  proof (cases "valid_until r")
    case (Some b)
    then obtain x where x: "bounds b = Ok (x, x)" "set (insert_boundary x) \<subseteq> set xs" using exact by blast
    show ?thesis using boundary_points(1) [OF x(2) k] x(1) Some by (auto simp: boundary_bounds_def)
  next
    case None
    have "\<not> - 1 \<le> t" "\<not> - 1 \<le> k" using t k(1) by auto
    then show ?thesis using None by (auto simp: boundary_bounds_def)
  qed
  show ?thesis using since until by (auto simp: temporal_match_def temporal_bounds_def)
qed

lemma boundary_times_Ok:
  "boundary_times bounds bs = Ok ts \<Longrightarrow> b \<in> set bs \<Longrightarrow>
    \<exists>x. bounds b = Ok (x, x) \<and> set (insert_boundary x) \<subseteq> set ts"
proof (induction bs arbitrary: ts)
  case (Cons c cs)
  obtain x rest where x: "bounds c = Ok (x, x)" "boundary_times bounds cs = Ok rest"
    "ts = insert_boundary x @ insert_boundary x @ rest"
    using Cons.prems(1) by (auto simp: bind_result_Inr split: sum.splits if_splits)
  show ?case
  proof (cases "b = c")
    case True
    then show ?thesis using x by auto
  next
    case False
    then show ?thesis using Cons.IH [OF x(2)] Cons.prems(2) x(3) by auto
  qed
qed simp

subsection \<open>A peak schedule only rescales a quote\<close>

lemma finish_rates_unscheduled:
  "q_rates (finish_quote fmul None ctx a rs0 e) = Some rs \<Longrightarrow> q_rates e = None \<Longrightarrow> rs = rs0"
  by (simp add: finish_quote_def split: if_splits)

lemma finish_rates_scheduled:
  assumes "q_rates (finish_quote fmul (Some s) ctx a rs0 e) = Some rs" "q_rates e = None"
  shows "rs = rs0 \<or> rs = scaled fmul (off_peak s) rs0"
proof (cases a)
  case False
  then show ?thesis using assms by (simp add: finish_quote_def split: if_splits)
next
  case True
  show ?thesis
  proof (cases "unix_seconds ctx")
    case None
    then show ?thesis using assms True by (simp add: finish_quote_def)
  next
    case (Some now)
    then show ?thesis using assms True by (simp add: finish_quote_def Let_def split: if_splits)
  qed
qed

lemma scan_quote_schedule:
  assumes "fst (scan_quote fmul p tier std (Some s) ctx cs sel d (None, st)) = Some rs'"
    and "fst (scan_quote fmul p tier std None ctx cs sel d (None, st)) = Some rs"
  shows "rs' = rs \<or> rs' = scaled fmul (off_peak s) rs"
proof -
  obtain a rs0 where x: "(case sel of
      Some r \<Rightarrow> map_option (Pair (apply_peak_schedule r)) (selected_rates fmul p tier std r)
    | None \<Rightarrow> map_option (Pair True) (default_rule_rates p tier ctx cs)) = Some (a, rs0)" "\<not> d"
    using assms(2) by (cases "case sel of
      Some r \<Rightarrow> map_option (Pair (apply_peak_schedule r)) (selected_rates fmul p tier std r)
    | None \<Rightarrow> map_option (Pair True) (default_rule_rates p tier ctx cs)") (auto simp: scan_quote_def split: if_splits)
  have e: "q_rates ((empty_quote ctx UnknownPrice []) \<lparr> q_rates := None, q_status := st \<rparr>) = None" by simp
  have "rs = rs0"
    using assms(2) x finish_rates_unscheduled [OF _ e] by (simp add: scan_quote_def rates_status_def)
  moreover have "rs' = rs0 \<or> rs' = scaled fmul (off_peak s) rs0"
    using assms(1) x finish_rates_scheduled [OF _ e] by (simp add: scan_quote_def rates_status_def)
  ultimately show ?thesis by simp
qed

lemma token_quote_schedule:
  assumes "q_rates (token_quote fmul bounds p tier std (Some s) ctx q) = Some rs'"
    and "q_rates (token_quote fmul bounds p tier std None ctx q) = Some rs" "q_rates q = None"
  shows "rs' = rs \<or> rs' = scaled fmul (off_peak s) rs"
proof -
  have asks: "\<not> asks_input tier ctx (rules p)"
    using assms(2,3) by (auto simp: token_quote_def asks_input_def)
  have time: "\<not> asks_time tier ctx (rules p)"
    using assms(2,3) asks by (auto simp: token_quote_def asks_input_def asks_time_def)
  obtain sel unc where scan: "scan_rules bounds (case unix_seconds ctx of Some t \<Rightarrow> t | None \<Rightarrow> 0)
      (scanned tier ctx (rules p)) None None = Ok (sel, unc)"
  proof (cases "scan_rules bounds (case unix_seconds ctx of Some t \<Rightarrow> t | None \<Rightarrow> 0)
      (scanned tier ctx (rules p)) None None")
    case (Inl e)
    then have "q_rates (token_quote fmul bounds p tier std None ctx q) = q_rates q"
      using asks [unfolded asks_input_def] time [unfolded asks_time_def] Inl [unfolded scanned_def]
      by (simp add: token_quote_def Let_def)
    then show thesis using assms(2,3) by simp
  qed (use that in force)
  note q = token_quote_scanned [OF asks time scan, of fmul std _ q]
  have st: "rates_status q = (None, q_status q)" using assms(3) by (simp add: rates_status_def)
  have rates: "fst (rates_status x) = q_rates x" for x by (simp add: rates_status_def)
  show ?thesis
    by (rule scan_quote_schedule [where fmul = fmul and p = p and tier = tier and std = std and ctx = ctx
          and sel = sel and st = "q_status q"
          and cs = "filter (matching_tier tier (pc_submission ctx)) (rules p)"
          and d = "filter_option (\<lambda>c. case sel of None \<Rightarrow> True | Some r \<Rightarrow> specificity r \<le> specificity c) unc \<noteq> None"])
      (use assms(1,2) in \<open>simp_all only: q [symmetric] st [symmetric] rates\<close>)
qed

lemma quote_schedule:
  assumes "q_rates (quote fmul bounds p b (Some s) ctx) = Some rs'"
    and "q_rates (quote fmul bounds p b None ctx) = Some rs"
  shows "rs' = rs \<or> rs' = scaled fmul (off_peak s) rs"
proof (cases "b = Subscription")
  case True
  then have "q_rates (quote fmul bounds p b None ctx) = None"
    by (simp add: quote_def subscription_quote_def empty_quote_def Let_def split: option.split)
  with assms show ?thesis by simp
next
  case False
  let ?q0 = "(empty_quote ctx UnknownPrice ''prices for this combination are unpublished'')
        \<lparr> q_currency := (case currency p of Some c \<Rightarrow> c | None \<Rightarrow> ''USD''),
          q_source := tp_source p, q_verified_at := verified_at p \<rparr>"
  obtain tier std where q: "\<And>sch. quote fmul bounds p b sch ctx = token_quote fmul bounds p tier std sch ctx ?q0"
    using False by (simp add: quote_def Let_def)
  show ?thesis
    by (rule token_quote_schedule [OF assms(1) [unfolded q] assms(2) [unfolded q]])
      (simp add: empty_quote_def)
qed

subsection \<open>Ordering of rates\<close>

definition f64_le :: "f64 \<Rightarrow> f64 \<Rightarrow> bool" where
  "f64_le a b \<longleftrightarrow> \<not> f64_nan a \<and> \<not> f64_nan b \<and> f64_magnitude a \<le> f64_magnitude b"

lemma f64_le_trans: "f64_le a b \<Longrightarrow> f64_le b c \<Longrightarrow> f64_le a c"
  by (auto simp: f64_le_def)

lemma f64_le_max:
  assumes "\<not> f64_nan a" "\<not> f64_nan b"
  shows "f64_le a (f64_max a b)" "f64_le b (f64_max a b)" "\<not> f64_nan (f64_max a b)"
  using assms by (auto simp: f64_le_def f64_max_def f64_less_def)

text \<open>A bucket is bounded when its bound is published, and then its rate is known too.\<close>

definition bucket_le :: "f64 option \<Rightarrow> f64 option \<Rightarrow> bool" where
  "bucket_le x y = (case y of None \<Rightarrow> True | Some b \<Rightarrow> (case x of None \<Rightarrow> False | Some a \<Rightarrow> f64_le a b))"

definition bucket_ok :: "f64 option \<Rightarrow> bool" where
  "bucket_ok x = (case x of None \<Rightarrow> True | Some a \<Rightarrow> \<not> f64_nan a)"

definition rates_le :: "token_rates \<Rightarrow> token_rates \<Rightarrow> bool" where
  "rates_le a b \<longleftrightarrow> bucket_le (tr_input a) (tr_input b) \<and> bucket_le (tr_output a) (tr_output b)
     \<and> bucket_le (tr_cache_read a) (tr_cache_read b) \<and> bucket_le (tr_cache_write a) (tr_cache_write b)
     \<and> bucket_le (tr_cache_write_1h a) (tr_cache_write_1h b) \<and> bucket_le (tr_reasoning a) (tr_reasoning b)"

definition rates_ok :: "token_rates \<Rightarrow> bool" where
  "rates_ok a \<longleftrightarrow> bucket_ok (tr_input a) \<and> bucket_ok (tr_output a) \<and> bucket_ok (tr_cache_read a)
     \<and> bucket_ok (tr_cache_write a) \<and> bucket_ok (tr_cache_write_1h a) \<and> bucket_ok (tr_reasoning a)"

lemma bucket_le_trans: "bucket_le x y \<Longrightarrow> bucket_le y z \<Longrightarrow> bucket_le x z"
  by (auto simp: bucket_le_def intro: f64_le_trans split: option.splits)

lemma rates_le_trans: "rates_le x y \<Longrightarrow> rates_le y z \<Longrightarrow> rates_le x z"
  using bucket_le_trans by (auto simp: rates_le_def)

lemma rates_le_refl: "rates_ok x \<Longrightarrow> rates_le x x"
  by (auto simp: rates_le_def rates_ok_def bucket_le_def bucket_ok_def f64_le_def split: option.splits)

lemma max_rate_bounds:
  assumes "bucket_ok a" "bucket_ok b"
  shows "bucket_le a (max_rate a b)" "bucket_le b (max_rate a b)" "bucket_ok (max_rate a b)"
  using assms f64_le_max by (auto simp: max_rate_def bucket_le_def bucket_ok_def split: option.splits)

lemma merge_bounds_le:
  assumes "rates_ok a" "rates_ok b"
  shows "rates_le a (merge_bounds a b)" "rates_le b (merge_bounds a b)" "rates_ok (merge_bounds a b)"
  using assms max_rate_bounds by (auto simp: merge_bounds_def rates_le_def rates_ok_def)

subsection \<open>The scan bounds every sampled quote\<close>

definition sample_context_at :: "service_tier \<Rightarrow> u64 \<times> u64 \<Rightarrow> pricing_context" where
  "sample_context_at tier nt = \<lparr> pc_service_tier = Some tier, pc_submission = Interactive,
     pc_input_tokens = Some (fst nt), unix_seconds = Some (snd nt) \<rparr>"

definition priced_at ::
  "(f64 \<Rightarrow> f64 \<Rightarrow> f64) \<Rightarrow> (price_boundary \<Rightarrow> message + u64 \<times> u64) \<Rightarrow> frozen_pricing \<Rightarrow> service_tier
    \<Rightarrow> u64 \<times> u64 \<Rightarrow> token_rates option" where
  "priced_at fmul bounds fz tier nt =
    (case frozen_quote fmul bounds fz (sample_context_at tier nt) of
       Inl _ \<Rightarrow> None
     | Inr q \<Rightarrow> if q_status q = Priced then q_rates q else None)"

lemma map_filter_all: "list_all P (List.map_filter (\<lambda>v. v) xs) \<longleftrightarrow> list_all (pred_option P) xs"
  by (induction xs) (auto simp: map_filter_simps split: option.split)

lemma rate_values_all:
  "list_all P (rate_values r) \<longleftrightarrow> pred_option P (tr_input r) \<and> pred_option P (tr_output r)
     \<and> pred_option P (tr_cache_read r) \<and> pred_option P (tr_cache_write r)
     \<and> pred_option P (tr_cache_write_1h r) \<and> pred_option P (tr_reasoning r) \<and> pred_option P (tr_web_search r)"
  unfolding rate_values_def map_filter_all by simp

lemma bucket_ok_valid: "pred_option (\<lambda>v. f64_finite v \<and> \<not> f64_negative v) x \<Longrightarrow> bucket_ok x"
  by (cases x) (auto simp: bucket_ok_def f64_nan_def)

lemma scale_rates_ok:
  assumes "scale_rates fmul f rs = Ok rs'"
  shows "rates_ok rs'"
proof -
  have "list_all (\<lambda>v. f64_finite v \<and> \<not> f64_negative v) (rate_values (rs' \<lparr> tr_web_search := None \<rparr>))"
    using assms by (auto simp: scale_rates_def Let_def list_ex_iff list_all_iff split: if_splits)
  then show ?thesis by (simp add: rate_values_all rates_ok_def bucket_ok_valid)
qed

lemma bound_scan_Ok:
  "bound_scan fmul bounds fz tier f pts (upper, unpriced) = Ok (upper', unpriced') \<Longrightarrow>
    (case upper of None \<Rightarrow> True | Some b \<Rightarrow> rates_ok b) \<Longrightarrow>
    (case upper' of
       None \<Rightarrow> upper = None \<and> (\<forall>nt \<in> set pts. priced_at fmul bounds fz tier nt = None)
     | Some up \<Rightarrow> rates_ok up
         \<and> (case upper of None \<Rightarrow> True | Some b \<Rightarrow> rates_le b up)
         \<and> (\<forall>nt \<in> set pts. case priced_at fmul bounds fz tier nt of
              None \<Rightarrow> True
            | Some rs \<Rightarrow> \<exists>rs'. scale_rates fmul f rs = Ok rs' \<and> rates_le rs' up))
    \<and> (unpriced' = None \<longrightarrow> unpriced = None \<and> (\<forall>nt \<in> set pts. priced_at fmul bounds fz tier nt \<noteq> None))"
proof (induction pts arbitrary: upper unpriced)
  case Nil
  then show ?case by (auto simp: rates_le_refl split: option.splits)
next
  case (Cons nt pts)
  obtain n t where nt: "nt = (n, t)" by (cases nt)
  have ctx: "\<lparr> pc_service_tier = Some tier, pc_submission = Interactive,
      pc_input_tokens = Some n, unix_seconds = Some t \<rparr> = sample_context_at tier nt"
    by (simp add: sample_context_at_def nt)
  obtain q where q: "frozen_quote fmul bounds fz (sample_context_at tier nt) = Ok q"
    using Cons.prems(1) by (auto simp: nt ctx [unfolded nt] bind_result_Inr)
  have at: "priced_at fmul bounds fz tier nt = (if q_status q = Priced then q_rates q else None)"
    by (simp add: priced_at_def q)
  show ?case
  proof (cases "priced_at fmul bounds fz tier nt")
    case None
    then have "bound_scan fmul bounds fz tier f pts (upper, or_keep unpriced (Some (n, t, q_reason q)))
        = Ok (upper', unpriced')"
      using Cons.prems(1) q at by (simp add: nt ctx [unfolded nt])
    from Cons.IH [OF this Cons.prems(2)] None show ?thesis
      by (cases unpriced; cases upper') auto
  next
    case (Some rs)
    then have sel: "(if q_status q = Priced then q_rates q else None) = Some rs" using at by (simp only:)
    have "bind_result (scale_rates fmul f rs) (\<lambda>rs. bound_scan fmul bounds fz tier f pts
        (Some (case upper of None \<Rightarrow> rs | Some previous \<Rightarrow> merge_bounds previous rs), unpriced)) = Ok (upper', unpriced')"
      using Cons.prems(1) q by (simp only: nt bound_scan.simps ctx [unfolded nt] sel bind_result_simps option.case)
    then obtain rs' where rs': "scale_rates fmul f rs = Ok rs'"
      "bound_scan fmul bounds fz tier f pts
        (Some (case upper of None \<Rightarrow> rs' | Some previous \<Rightarrow> merge_bounds previous rs'), unpriced) = Ok (upper', unpriced')"
      by (auto simp: bind_result_Inr)
    define next_up where "next_up = (case upper of None \<Rightarrow> rs' | Some previous \<Rightarrow> merge_bounds previous rs')"
    have ok: "rates_ok next_up" "rates_le rs' next_up" "case upper of None \<Rightarrow> True | Some b \<Rightarrow> rates_le b next_up"
      using scale_rates_ok [OF rs'(1)] Cons.prems(2) merge_bounds_le rates_le_refl
      by (auto simp: next_up_def split: option.splits)
    from Cons.IH [OF rs'(2) [folded next_up_def]] ok(1)
    have IH: "(case upper' of
       None \<Rightarrow> False
     | Some up \<Rightarrow> rates_ok up \<and> rates_le next_up up
         \<and> (\<forall>nt \<in> set pts. case priced_at fmul bounds fz tier nt of
              None \<Rightarrow> True
            | Some rs \<Rightarrow> \<exists>rs'. scale_rates fmul f rs = Ok rs' \<and> rates_le rs' up))"
      "unpriced' = None \<longrightarrow> unpriced = None \<and> (\<forall>nt \<in> set pts. priced_at fmul bounds fz tier nt \<noteq> None)"
      by (auto split: option.splits)
    then obtain up where up: "upper' = Some up" "rates_ok up" "rates_le next_up up"
      "\<forall>nt \<in> set pts. case priced_at fmul bounds fz tier nt of
              None \<Rightarrow> True
            | Some rs \<Rightarrow> \<exists>rs'. scale_rates fmul f rs = Ok rs' \<and> rates_le rs' up"
      by (auto split: option.splits)
    have "rates_le rs' up" "case upper of None \<Rightarrow> True | Some b \<Rightarrow> rates_le b up"
      using rates_le_trans ok(2,3) up(3) by (auto split: option.splits)
    then show ?thesis using up IH(2) Some rs'(1) by auto
  qed
qed

subsection \<open>Scaling by the largest factor\<close>

text \<open>
  Two facts of IEEE multiplication: one is neutral for finite values, and a finite
  non-negative value times a larger factor is not smaller.
\<close>

definition f64_valid :: "f64 \<Rightarrow> bool" where
  "f64_valid v \<longleftrightarrow> f64_finite v \<and> \<not> f64_negative v"

definition ieee_scaling :: "(f64 \<Rightarrow> f64 \<Rightarrow> f64) \<Rightarrow> bool" where
  "ieee_scaling fmul \<longleftrightarrow> (\<forall>v. f64_finite v \<longrightarrow> fmul v f64_one = v)
     \<and> (\<forall>v a b. f64_valid v \<and> f64_valid a \<and> f64_valid b \<and> f64_le a b \<longrightarrow> f64_le (fmul v a) (fmul v b))"

lemma one_valid: "f64_valid f64_one"
  by (simp add: f64_valid_def f64_one_def f64_finite_def f64_negative_def)

lemma bucket_le_scaled:
  assumes "ieee_scaling fmul" "pred_option f64_valid x" "f64_valid a" "f64_valid f" "f64_le a f"
  shows "bucket_le (map_option (\<lambda>v. fmul v a) x) (map_option (\<lambda>v. fmul v f) x)"
  using assms by (cases x) (auto simp: bucket_le_def ieee_scaling_def)

lemma bucket_le_unscaled:
  assumes "ieee_scaling fmul" "pred_option f64_valid x" "f64_valid f" "f64_le f64_one f"
  shows "bucket_le x (map_option (\<lambda>v. fmul v f) x)"
proof -
  have "map_option (\<lambda>v. fmul v f64_one) x = x"
    using assms(1,2) by (cases x) (auto simp: ieee_scaling_def f64_valid_def)
  with bucket_le_scaled [OF assms(1,2) one_valid assms(3,4)] show ?thesis by simp
qed

text \<open>Billing charges reasoning at the output rate when it has no rate of its own.\<close>

definition billed :: "token_rates \<Rightarrow> token_rates" where
  "billed rs = rs \<lparr> tr_reasoning := or_keep (tr_reasoning rs) (tr_output rs) \<rparr>"

lemma pred_or_keep: "pred_option P a \<Longrightarrow> pred_option P b \<Longrightarrow> pred_option P (or_keep a b)"
  by (cases a) simp_all

lemma map_or_keep: "or_keep (map_option g a) (map_option g b) = map_option g (or_keep a b)"
  by (cases a) simp_all

lemma scale_rates_le:
  assumes "scale_rates fmul f rs = Ok rs'" "validate_rates rs = Ok ()" "ieee_scaling fmul"
    and "f64_valid f" "f64_le f64_one f"
  shows "rates_le (billed rs) rs'"
    and "f64_valid (off_peak_multiplier s) \<Longrightarrow> f64_le (off_peak_multiplier s) f \<Longrightarrow>
      rates_le (billed (scaled fmul (off_peak s) rs)) rs'"
proof -
  have v: "pred_option f64_valid (tr_input rs)" "pred_option f64_valid (tr_output rs)"
    "pred_option f64_valid (tr_cache_read rs)" "pred_option f64_valid (tr_cache_write rs)"
    "pred_option f64_valid (tr_cache_write_1h rs)" "pred_option f64_valid (tr_reasoning rs)"
    using assms(2) by (auto simp: validate_rates_Ok rate_values_all f64_valid_def [abs_def])
  note r = pred_or_keep [OF v(6,2)]
  have rs': "rs' = (billed rs) \<lparr> tr_input := map_option (\<lambda>v. fmul v f) (tr_input rs),
      tr_output := map_option (\<lambda>v. fmul v f) (tr_output rs),
      tr_cache_read := map_option (\<lambda>v. fmul v f) (tr_cache_read rs),
      tr_cache_write := map_option (\<lambda>v. fmul v f) (tr_cache_write rs),
      tr_cache_write_1h := map_option (\<lambda>v. fmul v f) (tr_cache_write_1h rs),
      tr_reasoning := map_option (\<lambda>v. fmul v f) (or_keep (tr_reasoning rs) (tr_output rs)) \<rparr>"
    using assms(1) by (auto simp: scale_rates_def billed_def Let_def split: if_splits)
  show "rates_le (billed rs) rs'"
    using bucket_le_unscaled [OF assms(3) _ assms(4,5)] v r
    by (simp add: rs' rates_le_def billed_def)
  show "rates_le (billed (scaled fmul (off_peak s) rs)) rs'"
    if "f64_valid (off_peak_multiplier s)" "f64_le (off_peak_multiplier s) f"
    using bucket_le_scaled [OF assms(3) _ that(1) assms(4) that(2)] v r
    by (simp add: rs' rates_le_def billed_def scaled_def off_peak_def map_or_keep)
qed

subsection \<open>From the samples to every context\<close>

lemma tier_bounds_Ok:
  assumes "tier_bounds fmul bounds fz tier inputs instants f = Ok res"
  shows "case res of
      None \<Rightarrow> \<forall>n \<in> set inputs. \<forall>t \<in> set instants. priced_at fmul bounds fz tier (n, t) = None
    | Some up \<Rightarrow> \<forall>n \<in> set inputs. \<forall>t \<in> set instants. \<exists>rs rs'.
        priced_at fmul bounds fz tier (n, t) = Some rs \<and> scale_rates fmul f rs = Ok rs' \<and> rates_le rs' up"
proof -
  obtain upper unpriced where scan: "bound_scan fmul bounds fz tier f (List.product inputs instants) (None, None) = Ok (upper, unpriced)"
    and res: "res = upper" "upper \<noteq> None \<Longrightarrow> unpriced = None"
    using assms by (auto simp: tier_bounds_def bind_result_Inr split: if_splits option.splits)
  show ?thesis
    using bound_scan_Ok [OF scan] res by (cases upper) (fastforce split: option.splits)+
qed

lemma priced_at_quote:
  assumes "pricing (fz_model fz) = Some prices"
  shows "priced_at fmul bounds fz tier nt = q_rates (quote fmul bounds prices
    (billing_mode_on (fz_model fz) (profile_pricing (fz_profile fz)))
    (peak (profile_pricing (fz_profile fz))) (sample_context_at tier nt))"
proof -
  let ?q = "quote fmul bounds prices (billing_mode_on (fz_model fz) (profile_pricing (fz_profile fz)))
    (peak (profile_pricing (fz_profile fz))) (sample_context_at tier nt)"
  have "priced_at fmul bounds fz tier nt = (if q_status ?q = Priced then q_rates ?q else None)"
    using assms by (simp add: priced_at_def frozen_quote_def)
  then show ?thesis using quote_rates_valid [of fmul bounds prices] by (cases "q_rates ?q") auto
qed

lemma priced_at_sampled:
  assumes prices: "pricing (fz_model fz) = Some prices" and peak: "peak (profile_pricing (fz_profile fz)) = None"
    and ts: "boundary_times bounds (concat (map rule_boundaries (rules prices))) = Ok ts" and t: "t < - 1"
  shows "\<exists>n' \<in> set (input_points (rules prices)). \<exists>t' \<in> set (points ([0, - 2] @ ts)).
    priced_at fmul bounds fz tier (n, t) = priced_at fmul bounds fz tier (n', t')"
proof -
  define ns where "ns = [0, - 1] @ concat (map (\<lambda>r. concat (map insert_boundary
     (List.map_filter (\<lambda>b. b) [min_input_tokens r, max_input_tokens r]))) (rules prices))"
  obtain n' where n': "n' \<in> set (points ns)" "n' \<le> n" "\<forall>x \<in> set ns. x \<le> n \<longrightarrow> x \<le> n'"
    using nearest_point [of ns n] by (auto simp: ns_def)
  obtain t' where t': "t' \<in> set (points ([0, - 2] @ ts))" "t' \<le> t" "\<forall>x \<in> set ([0, - 2] @ ts). x \<le> t \<longrightarrow> x \<le> t'"
    using nearest_point [of "[0, - 2] @ ts" t] by auto
  have contains: "rule_contains r n = rule_contains r n'" if "r \<in> set (rules prices)" for r
  proof (rule rule_contains_sampled [OF _ n'(2,3)], intro allI impI)
    fix b assume "min_input_tokens r = Some b \<or> max_input_tokens r = Some b"
    then have "b \<in> set (List.map_filter (\<lambda>b. b) [min_input_tokens r, max_input_tokens r])"
      by (auto simp: map_filter_simps split: option.split)
    then show "set (insert_boundary b) \<subseteq> set ns" using that by (auto simp: ns_def)
  qed
  have matches: "temporal_match bounds r t = temporal_match bounds r t'" if "r \<in> set (rules prices)" for r
  proof (rule temporal_match_sampled [OF _ t'(2,3) t])
    fix b assume "valid_from r = Some b \<or> valid_until r = Some b"
    then have "b \<in> set (rule_boundaries r)"
      by (auto simp: rule_boundaries_def map_filter_simps split: option.split)
    then have "b \<in> set (concat (map rule_boundaries (rules prices)))" using that by auto
    from boundary_times_Ok [OF ts this]
    show "\<exists>x. bounds b = Ok (x, x) \<and> set (insert_boundary x) \<subseteq> set ([0, - 2] @ ts)" by auto
  qed
  have "same_point bounds None (rules prices) (sample_context_at tier (n, t)) (sample_context_at tier (n', t'))"
    using contains matches by (simp add: same_point_def sample_context_at_def now_of_def)
  then have "priced_at fmul bounds fz tier (n, t) = priced_at fmul bounds fz tier (n', t')"
    unfolding priced_at_quote [OF prices] peak by (rule quote_point)
  then show ?thesis using n'(1) t'(1) by (auto simp: input_points_def ns_def)
qed

lemma interactive_bounds_parts:
  assumes "interactive_price_bounds fmul bounds fz = Ok (Some pb)"
  obtains prices ts f uz where
    "pricing (fz_model fz) = Some prices" "billing_mode_on (fz_model fz) (profile_pricing (fz_profile fz)) = PerToken"
    "boundary_times bounds (concat (map rule_boundaries (rules prices))) = Ok ts"
    "uz = fz \<lparr> fz_profile := (fz_profile fz) \<lparr> profile_pricing := (profile_pricing (fz_profile fz)) \<lparr> peak := None \<rparr> \<rparr> \<rparr>"
    "case peak (profile_pricing (fz_profile fz)) of None \<Rightarrow> f = f64_one
     | Some s \<Rightarrow> validate_schedule s = Ok () \<and> f = f64_max (off_peak_multiplier s) f64_one"
    "tier_bounds fmul bounds uz Standard (input_points (rules prices)) (points ([0, - 2] @ ts)) f = Ok (Some (bound_standard pb))"
    "tier_bounds fmul bounds uz Fast (input_points (rules prices)) (points ([0, - 2] @ ts)) f = Ok (bound_fast pb)"
  using assms
  by (auto simp: interactive_price_bounds_def Let_def bind_result_Inr split: if_splits option.splits sum.splits)

lemma schedule_factor:
  assumes "case sch of None \<Rightarrow> f = f64_one
     | Some s \<Rightarrow> validate_schedule s = Ok () \<and> f = f64_max (off_peak_multiplier s) f64_one"
  shows "f64_valid f" "f64_le f64_one f"
    and "sch = Some s \<Longrightarrow> f64_valid (off_peak_multiplier s) \<and> f64_le (off_peak_multiplier s) f"
proof -
  have nan: "f64_valid v \<Longrightarrow> \<not> f64_nan v" for v by (simp add: f64_valid_def f64_nan_def)
  have valid: "f64_valid (off_peak_multiplier s)" if "validate_schedule s = Ok ()" for s
    using that by (auto simp: validate_schedule_def f64_valid_def split: if_splits)
  show "f64_valid f" "f64_le f64_one f"
    using assms valid nan one_valid f64_le_max [OF nan nan]
    by (auto simp: f64_max_def f64_le_def split: option.splits if_splits)
  show "f64_valid (off_peak_multiplier s) \<and> f64_le (off_peak_multiplier s) f" if "sch = Some s"
    using assms valid nan one_valid f64_le_max [OF nan nan] that by auto
qed


text \<open>A row whose only rule is a fixed standard price.\<close>

definition fixed_prices :: token_pricing where
  "fixed_prices = (input_output 1 2) \<lparr> rules := [sample_rule None None 3] \<rparr>"

definition fixed_row :: frozen_pricing where
  "fixed_row = \<lparr> fz_profile = priced_profile, fz_model = (sample_model ''m'') \<lparr> pricing := Some fixed_prices \<rparr>,
     fz_source = None \<rparr>"

lemma keep_first_scaling: "ieee_scaling (\<lambda>a b. a)"
  by (auto simp: ieee_scaling_def f64_le_def f64_valid_def f64_nan_def)

lemma fixed_row_simps:
  "pricing (fz_model fixed_row) = Some fixed_prices"
  "rules fixed_prices = [sample_rule None None 3]"
  "peak (profile_pricing (fz_profile fixed_row)) = None"
  "billing_mode_on (fz_model fixed_row) (profile_pricing (fz_profile fixed_row)) = PerToken"
  "default_service_tier (frozen_features fixed_row) = None"
  by (simp_all add: fixed_row_def fixed_prices_def priced_profile_def sample_profile_def sample_model_def
      billing_mode_on_def frozen_features_def) code_simp

lemma last_second: "\<not> (- 1 :: u64) \<le> 0" "\<not> (- 1 :: u64) \<le> - 2"
  by code_simp+

lemma fixed_quote_standard:
  assumes "t = 0 \<or> t = - 2"
  shows "q_rates (quote (\<lambda>a b. a) (utc_bounds no_zones) fixed_prices PerToken None (sample_context_at Standard (n, t)))
    = Some (no_rates \<lparr> tr_input := Some 3 \<rparr>)"
proof -
  have "temporal_match (utc_bounds no_zones) (sample_rule None None 3) t = Ok (Some True)"
    using assms last_second by (auto simp: temporal_match_def temporal_bounds_def boundary_bounds_def sample_rule_def)
  then show ?thesis
    by (simp add: quote_def token_quote_def Let_def fixed_row_simps sample_context_at_def matching_tier_def
        is_some_def rule_contains_def more_specific_def filter_option_def)
      (simp add: sample_rule_def selected_rates_def finish_quote_def validate_rates_def rate_values_def no_rates_def
        f64_finite_def f64_negative_def map_filter_simps)
qed

lemma fixed_quote_fast:
  "q_rates (quote (\<lambda>a b. a) (utc_bounds no_zones) fixed_prices PerToken None (sample_context_at Fast nt)) = None"
  by (simp add: quote_def token_quote_def Let_def fixed_row_simps sample_context_at_def matching_tier_def
      sample_rule_def default_rule_rates_def filter_option_def empty_quote_def)

lemma fixed_points:
  "input_points [sample_rule None None 3] = [0, - 1]" "points [0, - 2] = [0, - 2]"
  by code_simp+

lemma fixed_bounds:
  "interactive_price_bounds (\<lambda>a b. a) (utc_bounds no_zones) fixed_row
    = Ok (Some \<lparr> default_fast = False, bound_standard = no_rates \<lparr> tr_input := Some 3 \<rparr>, bound_fast = None \<rparr>)"
proof -
  let ?rs = "no_rates \<lparr> tr_input := Some (3 :: f64) \<rparr>"
  have ctx: "\<lparr> pc_service_tier = Some tier, pc_submission = Interactive, pc_input_tokens = Some n, unix_seconds = Some t \<rparr>
      = sample_context_at tier (n, t)" for tier n t by (simp add: sample_context_at_def)
  have unscheduled: "fixed_row \<lparr> fz_profile := (fz_profile fixed_row)
      \<lparr> profile_pricing := (profile_pricing (fz_profile fixed_row)) \<lparr> peak := None \<rparr> \<rparr> \<rparr> = fixed_row"
    using fixed_row_simps(3) by (cases fixed_row) simp
  have quoted: "frozen_quote (\<lambda>a b. a) (utc_bounds no_zones) fixed_row c
      = Ok (quote (\<lambda>a b. a) (utc_bounds no_zones) fixed_prices PerToken None c)" for c
    by (simp add: frozen_quote_def fixed_row_simps)
  have scaled: "scale_rates (\<lambda>a b. a) f64_one ?rs = Ok ?rs" and merged: "merge_bounds ?rs ?rs = ?rs"
    by (simp_all add: scale_rates_def merge_bounds_def max_rate_def f64_max_def f64_less_def no_rates_def
        rate_values_def f64_finite_def f64_negative_def map_filter_simps)
  have standard: "tier_bounds (\<lambda>a b. a) (utc_bounds no_zones) fixed_row Standard [0, - 1] [0, - 2] f64_one = Ok (Some ?rs)"
    using fixed_quote_standard quote_rates_valid [OF fixed_quote_standard]
    by (simp add: tier_bounds_def ctx quoted scaled merged)
  have fast: "tier_bounds (\<lambda>a b. a) (utc_bounds no_zones) fixed_row Fast [0, - 1] [0, - 2] f64_one = Ok None"
    by (simp add: tier_bounds_def ctx quoted fixed_quote_fast)
  have bs: "rule_boundaries (sample_rule None None 3) = []"
    by (simp add: rule_boundaries_def sample_rule_def map_filter_simps)
  show ?thesis
    unfolding interactive_price_bounds_def
    by (simp add: Let_def unscheduled fixed_row_simps(1,3-5) bs fixed_points fixed_row_simps(2) standard fast is_some_def)
qed


end
