(* ===== verification/Config_Model.thy ===== *)
theory Config_Model
  imports Resolution
begin

text \<open>
  Layered provider configuration (\<^verbatim>\<open>src/configuration/model.rs\<close>,
  \<^verbatim>\<open>src/configuration/merge.rs\<close>): default definitions, the saved accounts with
  their model rows, explicit overrides and directory observations, and the pure merge
  that turns them into profiles.

  Three operations of the JSON library are parameters (\<open>config_json\<close>): the text of a
  model key, the values of a model's editable fields, and a model with some of these
  fields replaced. The catalog embedded by the build is a field of \<open>definitions\<close>.
  Saved values compare by structure; numbers inside compare bit for bit.
\<close>

section \<open>Saved state\<close>

datatype definition_ref = BuiltinDef string | CallerDef string

fun ref_name :: "definition_ref \<Rightarrow> string" where
  "ref_name (BuiltinDef n) = n"
| "ref_name (CallerDef n) = n"

datatype 'v field_override = InheritField | SetField 'v | ClearField

datatype model_field =
    DisplayModelField | BillingModelField | FoundryField | HiddenField | AliasesField
  | DescriptionField | PricingField | BillingModeField | CapabilitySupportField
  | InferenceFeaturesField | FamilyField | StatusField | ReleaseDateField | LastUpdatedField
  | KnowledgeCutoffField | InputModalitiesField | OutputModalitiesField | ContextField
  | ContextWindowTokensField | MaxInputTokensField | MaxOutputTokensField | OpenWeightsField
  | AttachmentsField | TemperatureControlField

type_synonym field_values = "model_field \<Rightarrow> json option"

record model_key =
  mk_wire :: string
  mk_label :: string
  mk_occurrence :: nat

record model_row =
  mr_id :: string
  mr_key :: "model_key option"
  mr_initial :: "model_profile option"
  mr_replacement :: bool
  mr_observed :: bool
  mr_overrides :: field_values

record observation =
  obs_description :: "string option"
  obs_context :: "u64 option"
  obs_output :: "u64 option"
  obs_features :: "inference_features option"

definition default_observation :: observation where
  "default_observation = \<lparr> obs_description = None, obs_context = None, obs_output = None, obs_features = None \<rparr>"

record saved_profile =
  sp_definition :: definition_ref
  sp_connection :: provider_profile
  sp_fallback :: provider_profile
  sp_replace_models :: bool
  sp_removed :: "model_key set"
  sp_models :: "model_row list"
  sp_observations :: "string \<Rightarrow> observation option"
  sp_incompatible :: "string set"

record saved_config =
  cfg_version :: nat
  cfg_tracked :: "string \<Rightarrow> string set option"
  cfg_deleted :: "string set"
  cfg_providers :: "saved_profile list"

definition default_config :: saved_config where
  "default_config = \<lparr> cfg_version = 3, cfg_tracked = \<lambda>_. None, cfg_deleted = {}, cfg_providers = [] \<rparr>"

record configured_model =
  cm_row_id :: string
  cm_model :: model_profile
  cm_compatible :: bool

definition empty_model :: "string \<Rightarrow> model_profile" where
  "empty_model w = \<lparr> info = \<lparr> mi_features = default_features, mi_pricing = None \<rparr>,
     display_model = w, request_model = w, billing_model = w, foundry = None, hidden = False,
     aliases = [], description = None, metadata = default_metadata, capability_support = None,
     pricing = None, billing_mode_override = None \<rparr>"

datatype build_error =
    InvalidService string message | InvalidImage string message | InvalidInference string message
  | MissingRegion | MissingCodec string protocol_family | MissingAuthenticator string auth_strategy
  | DuplicateName string | DuplicateConnectionId string string | InvalidPeakSchedule string message

datatype store_error =
    InvalidModelOverride message | NotConfigured | UnknownProfile string | NotBuiltin string
  | ProfileChanged string | UnknownModelRow string string | UntrackedModel string string
  | NoDirectory string | StaticCredential string | CredentialHeader string
  | DuplicateProfile string | UnsupportedVersion u32 | InvalidPagination | WorkerFailed message
  | StoreIo message | InvalidJson message | BuildFailed build_error | PresetFailed message
  | DirectoryFailed llm_error

record config_json =
  key_text :: "model_key \<Rightarrow> string"
  all_values :: "model_profile \<Rightarrow> field_values"
  with_values :: "model_profile \<Rightarrow> field_values \<Rightarrow> message + model_profile"

definition apply_values :: "config_json \<Rightarrow> model_profile \<Rightarrow> field_values \<Rightarrow> store_error + model_profile" where
  "apply_values js m vals =
    (if vals = Map.empty then Ok m else map_err InvalidJson (with_values js m vals))"

section \<open>Definitions and model keys\<close>

record definitions =
  def_caller :: "provider_profile list"
  def_builtin_names :: "string set"
  def_catalog :: "provider_profile list"

definition def_reference :: "definitions \<Rightarrow> string \<Rightarrow> definition_ref" where
  "def_reference defs name = (if name \<in> def_builtin_names defs then BuiltinDef name else CallerDef name)"

definition def_get :: "definitions \<Rightarrow> definition_ref \<Rightarrow> provider_profile option" where
  "def_get defs r = find (\<lambda>p. profile_name p = ref_name r)
     (case r of CallerDef _ \<Rightarrow> def_caller defs | BuiltinDef _ \<Rightarrow> def_catalog defs)"

fun keys_loop :: "(string \<times> string \<Rightarrow> nat) \<Rightarrow> model_profile list \<Rightarrow> model_key list" where
  "keys_loop counts [] = []"
| "keys_loop counts (m # ms) =
    (let k = (request_model m, display_model m); n = counts k in
     \<lparr> mk_wire = fst k, mk_label = snd k, mk_occurrence = n \<rparr> # keys_loop (counts(k := n + 1)) ms)"

definition model_keys :: "provider_profile \<Rightarrow> model_key list" where
  "model_keys p = keys_loop (\<lambda>_. 0) (models p)"

definition row_id :: "config_json \<Rightarrow> model_key \<Rightarrow> string" where
  "row_id js k = ''definition:'' @ key_text js k"

type_synonym keyed_rows = "(model_key \<times> model_profile) list"

definition definition_rows :: "provider_profile \<Rightarrow> keyed_rows" where
  "definition_rows p = zip (model_keys p) (models p)"

definition row_model :: "keyed_rows \<Rightarrow> model_key \<Rightarrow> model_profile option" where
  "row_model keyed k = map_of (rev keyed) k"

definition unique_row :: "keyed_rows \<Rightarrow> string \<Rightarrow> (model_key \<times> model_profile) option" where
  "unique_row keyed w = (case filter (\<lambda>r. mk_wire (fst r) = w) keyed of [r] \<Rightarrow> Some r | _ \<Rightarrow> None)"

definition default_row :: "config_json \<Rightarrow> model_key \<Rightarrow> model_row" where
  "default_row js k = \<lparr> mr_id = row_id js k, mr_key = Some k, mr_initial = None,
     mr_replacement = False, mr_observed = False, mr_overrides = Map.empty \<rparr>"

section \<open>Saved accounts\<close>

definition inherited :: "config_json \<Rightarrow> provider_profile \<Rightarrow> definition_ref \<Rightarrow> saved_profile" where
  "inherited js p d =
    \<lparr> sp_definition = d,
      sp_connection = p \<lparr> models := [],
        service_settings := (\<lambda>s. if s = ImageService
           then (case d of BuiltinDef _ \<Rightarrow> None | CallerDef _ \<Rightarrow> service_settings p s) else None) \<rparr>,
      sp_fallback = p, sp_replace_models = False, sp_removed = {},
      sp_models = map (default_row js) (model_keys p),
      sp_observations = Map.empty, sp_incompatible = {} \<rparr>"

definition replacement :: "config_json \<Rightarrow> provider_profile \<Rightarrow> definition_ref \<Rightarrow> saved_profile" where
  "replacement js p d =
    (let saved = inherited js p d in
     saved \<lparr> sp_connection := (sp_connection saved) \<lparr> service_settings := service_settings p \<rparr>,
       sp_replace_models := True,
       sp_models := map (\<lambda>(row, m). row \<lparr> mr_replacement := True,
           mr_initial := Some (empty_model (request_model m)), mr_overrides := all_values js m \<rparr>)
         (zip (sp_models saved) (models p)) \<rparr>)"

definition definition_of :: "definitions \<Rightarrow> saved_profile \<Rightarrow> provider_profile" where
  "definition_of defs p = (case def_get defs (sp_definition p) of Some d \<Rightarrow> d | None \<Rightarrow> sp_fallback p)"

subsection \<open>Adopting rows of a changed definition\<close>

definition saved_wires :: "model_row list \<Rightarrow> string list" where
  "saved_wires rows = map mk_wire (List.map_filter mr_key rows)"

definition adopt_moved :: "keyed_rows \<Rightarrow> model_row list \<Rightarrow> model_row list" where
  "adopt_moved keyed rows = map (\<lambda>row.
     case mr_key row of
       None \<Rightarrow> row
     | Some old \<Rightarrow>
         if old \<notin> fst ` set keyed \<and> count_list (saved_wires rows) (mk_wire old) = 1
         then (case unique_row keyed (mk_wire old) of
                 Some (k, _) \<Rightarrow> row \<lparr> mr_key := Some k \<rparr> | None \<Rightarrow> row)
         else row) rows"

definition observed_for :: "string \<Rightarrow> model_row \<Rightarrow> bool" where
  "observed_for w row \<longleftrightarrow> mr_key row = None \<and> \<not> mr_replacement row \<and> starts_with (mr_id row) ''observed:''
     \<and> (case mr_initial row of Some m \<Rightarrow> request_model m = w | None \<Rightarrow> False)"

definition observed_queue :: "model_row list \<Rightarrow> string \<Rightarrow> nat list" where
  "observed_queue rows w = map fst (filter (\<lambda>(i, row). observed_for w row) (enumerate 0 rows))"

fun adopt_loop ::
  "keyed_rows \<Rightarrow> model_row list \<Rightarrow> model_key set \<Rightarrow> (string \<Rightarrow> nat list) \<Rightarrow> model_row list" where
  "adopt_loop [] rows present queue = rows"
| "adopt_loop ((k, _) # ks) rows present queue =
    (if mk_occurrence k = 0 \<and> k \<notin> present
     then (case queue (mk_wire k) of
             [] \<Rightarrow> adopt_loop ks rows present queue
           | i # rest \<Rightarrow> adopt_loop ks (rows[i := (rows ! i) \<lparr> mr_key := Some k \<rparr>]) (insert k present)
                           (queue(mk_wire k := rest)))
     else adopt_loop ks rows present queue)"

definition row_keys :: "model_row list \<Rightarrow> model_key set" where
  "row_keys rows = set (List.map_filter mr_key rows)"

definition adopt_rows :: "keyed_rows \<Rightarrow> model_row list \<Rightarrow> model_row list" where
  "adopt_rows keyed rows0 =
    (let rows = adopt_moved keyed rows0 in
     adopt_loop keyed rows (row_keys rows) (observed_queue rows))"

definition adopt_observed :: "definitions \<Rightarrow> saved_profile \<Rightarrow> saved_profile" where
  "adopt_observed defs p = p \<lparr> sp_models := adopt_rows (definition_rows (definition_of defs p)) (sp_models p) \<rparr>"

subsection \<open>Configured rows\<close>

definition removed_default :: "keyed_rows \<Rightarrow> model_key set \<Rightarrow> model_key \<Rightarrow> bool" where
  "removed_default keyed removed k \<longleftrightarrow>
     k \<in> removed \<or> (unique_row keyed (mk_wire k) \<noteq> None \<and> mk_wire k \<in> mk_wire ` removed)"

fun new_defaults ::
  "config_json \<Rightarrow> (model_key \<Rightarrow> bool) \<Rightarrow> keyed_rows \<Rightarrow> model_key set \<Rightarrow> model_row list" where
  "new_defaults js removed [] present = []"
| "new_defaults js removed ((k, _) # ks) present =
    (if \<not> removed k \<and> k \<notin> present
     then default_row js k # new_defaults js removed ks (insert k present)
     else new_defaults js removed ks present)"

definition merged_rows :: "config_json \<Rightarrow> saved_profile \<Rightarrow> keyed_rows \<Rightarrow> model_row list" where
  "merged_rows js p keyed =
    (let rows = adopt_rows keyed (sp_models p) in
     if sp_replace_models p then rows
     else rows @ new_defaults js (removed_default keyed (sp_removed p)) keyed (row_keys rows))"

definition base_model :: "keyed_rows \<Rightarrow> model_row \<Rightarrow> model_profile option" where
  "base_model keyed row =
    (if mr_replacement row
     then (case mr_initial row of
             None \<Rightarrow> None
           | Some init \<Rightarrow>
               or_keep (or_keep
                 (Option.bind (filter_option (\<lambda>k. mk_wire k = request_model init) (mr_key row)) (row_model keyed))
                 (map_option snd (unique_row keyed (request_model init)))) (Some init))
     else (case mr_key row of
             Some k \<Rightarrow> or_keep (row_model keyed k) (if mr_observed row then mr_initial row else None)
           | None \<Rightarrow> mr_initial row))"

definition observe_model :: "observation option \<Rightarrow> model_profile \<Rightarrow> model_profile \<times> context_window_source" where
  "observe_model ob m =
    (case ob of
       None \<Rightarrow> (m, context_window_source (metadata m))
     | Some ob \<Rightarrow>
         let m1 = (case obs_description ob of Some d \<Rightarrow> m \<lparr> description := Some d \<rparr> | None \<Rightarrow> m);
             m2 = (case obs_context ob of
                     Some n \<Rightarrow> m1 \<lparr> metadata := (metadata m1) \<lparr> context_window_tokens := Some n \<rparr> \<rparr>
                   | None \<Rightarrow> m1);
             source = (if obs_context ob \<noteq> None then Observation else context_window_source (metadata m));
             m3 = (case obs_features ob of
                     Some f \<Rightarrow> m2 \<lparr> info := (info m2) \<lparr> mi_features := overlay (mi_features (info m2)) f \<rparr> \<rparr>
                   | None \<Rightarrow> m2);
             m4 = (case obs_output ob of
                     Some n \<Rightarrow> m3 \<lparr> metadata := (metadata m3) \<lparr> max_output_tokens := Some n \<rparr> \<rparr>
                   | None \<Rightarrow> m3) in
         (m4, source))"

definition profile_inference :: "provider_profile \<Rightarrow> inference_features" where
  "profile_inference p = profile_features (iw_reasoning (inference p)) (protocol p) (pi_features (profile_info p))"

definition configure_row ::
  "config_json \<Rightarrow> saved_profile \<Rightarrow> keyed_rows \<Rightarrow> model_row \<Rightarrow> store_error + configured_model option" where
  "configure_row js p keyed row =
    (case base_model keyed row of
       None \<Rightarrow> Ok None
     | Some base \<Rightarrow>
         let (observed_m, source0) = observe_model (sp_observations p (request_model base)) base in
         bind_result (apply_values js observed_m (mr_overrides row)) (\<lambda>m.
           let source = (if mr_overrides row ContextWindowTokensField \<noteq> None then ExplicitWindow else source0);
               m1 = m \<lparr> metadata := (metadata m) \<lparr> context_window_source := source \<rparr>,
                        info := \<lparr> mi_features = on_connection (mi_features (info m)) (profile_inference (sp_connection p)),
                                  mi_pricing = pricing m \<rparr> \<rparr> in
           Ok (Some \<lparr> cm_row_id = mr_id row, cm_model = m1,
                      cm_compatible = (request_model m1 \<notin> sp_incompatible p) \<rparr>)))"

fun configure_rows ::
  "config_json \<Rightarrow> saved_profile \<Rightarrow> keyed_rows \<Rightarrow> model_row list \<Rightarrow> store_error + configured_model list" where
  "configure_rows js p keyed [] = Ok []"
| "configure_rows js p keyed (row # rows) =
    bind_result (configure_row js p keyed row) (\<lambda>c.
    bind_result (configure_rows js p keyed rows) (\<lambda>cs.
      Ok (case c of Some x \<Rightarrow> x # cs | None \<Rightarrow> cs)))"

definition account_rows :: "config_json \<Rightarrow> definitions \<Rightarrow> saved_profile \<Rightarrow> store_error + configured_model list" where
  "account_rows js defs p =
    (let keyed = definition_rows (definition_of defs p) in
     configure_rows js p keyed (merged_rows js p keyed))"

definition ensure_row ::
  "config_json \<Rightarrow> definitions \<Rightarrow> string \<Rightarrow> saved_profile \<Rightarrow> store_error + saved_profile" where
  "ensure_row js defs rid p0 =
    (let p = adopt_observed defs p0 in
     if list_ex (\<lambda>r. mr_id r = rid) (sp_models p) then Ok p
     else
       (case find (\<lambda>k. row_id js k = rid) (model_keys (definition_of defs p)) of
          None \<Rightarrow> Err (UnknownModelRow (profile_name (sp_connection p)) rid)
        | Some k \<Rightarrow> Ok (p \<lparr> sp_models := sp_models p @ [(default_row js k) \<lparr> mr_id := rid \<rparr>] \<rparr>)))"

section \<open>The whole configuration\<close>

fun missing_accounts ::
  "config_json \<Rightarrow> definitions \<Rightarrow> string set \<Rightarrow> string set \<Rightarrow> provider_profile list \<Rightarrow> saved_profile list" where
  "missing_accounts js defs deleted present [] = []"
| "missing_accounts js defs deleted present (p # ps) =
    (if profile_name p \<notin> deleted \<and> profile_name p \<notin> present
     then inherited js p (def_reference defs (profile_name p))
            # missing_accounts js defs deleted (insert (profile_name p) present) ps
     else missing_accounts js defs deleted present ps)"

definition account_name :: "saved_profile \<Rightarrow> string" where
  "account_name p = profile_name (sp_connection p)"

definition inherited_accounts :: "config_json \<Rightarrow> definitions \<Rightarrow> saved_config \<Rightarrow> saved_profile list" where
  "inherited_accounts js defs cfg =
    missing_accounts js defs (cfg_deleted cfg) (account_name ` set (cfg_providers cfg)) (def_caller defs)"

definition ensure_definitions :: "config_json \<Rightarrow> definitions \<Rightarrow> saved_config \<Rightarrow> saved_config" where
  "ensure_definitions js defs cfg =
    cfg \<lparr> cfg_providers := cfg_providers cfg @ inherited_accounts js defs cfg \<rparr>"

definition effective_settings :: "definitions \<Rightarrow> saved_profile \<Rightarrow> service \<Rightarrow> json option" where
  "effective_settings defs p s =
    (let own = service_settings (sp_connection p) s in
     if s = ImageService
     then (if \<not> sp_replace_models p \<and> own = None
           then (case def_get defs (sp_definition p) of Some d \<Rightarrow> service_settings d s | None \<Rightarrow> own)
           else own)
     else (case own of Some v \<Rightarrow> Some v | None \<Rightarrow> service_settings (definition_of defs p) s))"

definition account_profile ::
  "config_json \<Rightarrow> definitions \<Rightarrow> bool \<Rightarrow> saved_profile \<Rightarrow> store_error + provider_profile" where
  "account_profile js defs executable p =
    (let conn = (sp_connection p) \<lparr> service_settings := effective_settings defs p \<rparr>;
         conn1 = conn \<lparr> profile_info := (profile_info conn) \<lparr> pi_features := profile_inference conn \<rparr> \<rparr> in
     bind_result (account_rows js defs p) (\<lambda>rows.
       Ok (conn1 \<lparr> models := map cm_model (filter (\<lambda>r. \<not> executable \<or> cm_compatible r) rows) \<rparr>)))"

definition config_profiles ::
  "config_json \<Rightarrow> definitions \<Rightarrow> saved_config \<Rightarrow> bool \<Rightarrow> store_error + provider_profile list" where
  "config_profiles js defs cfg executable =
    collect_results (map (account_profile js defs executable)
      (filter (\<lambda>p. account_name p \<notin> cfg_deleted cfg) (cfg_providers cfg @ inherited_accounts js defs cfg)))"

definition refresh_fallbacks :: "definitions \<Rightarrow> saved_config \<Rightarrow> saved_config" where
  "refresh_fallbacks defs cfg = cfg \<lparr> cfg_providers := map (\<lambda>p0.
     let p = adopt_observed defs p0 in
     case def_get defs (sp_definition p) of Some d \<Rightarrow> p \<lparr> sp_fallback := d \<rparr> | None \<Rightarrow> p) (cfg_providers cfg) \<rparr>"

subsection \<open>What is written, and what a session keeps\<close>

definition row_wire :: "model_row \<Rightarrow> string" where
  "row_wire r =
    (if mr_replacement r then (case mr_initial r of Some m \<Rightarrow> request_model m | None \<Rightarrow> [])
     else (case mr_key r of
             Some k \<Rightarrow> mk_wire k
           | None \<Rightarrow> (case mr_initial r of Some m \<Rightarrow> request_model m | None \<Rightarrow> [])))"

definition tracks_wire :: "saved_config \<Rightarrow> saved_profile \<Rightarrow> string \<Rightarrow> bool" where
  "tracks_wire cfg p w = (case cfg_tracked cfg (provider_id (sp_connection p)) of Some ids \<Rightarrow> w \<in> ids | None \<Rightarrow> False)"

definition persisted_profile :: "saved_config \<Rightarrow> saved_profile \<Rightarrow> saved_profile" where
  "persisted_profile cfg p =
    p \<lparr> sp_fallback := (sp_fallback p) \<lparr> models := filter (\<lambda>m. tracks_wire cfg p (request_model m)) (models (sp_fallback p)) \<rparr>,
        sp_models := filter (\<lambda>r. tracks_wire cfg p (row_wire r)) (sp_models p),
        sp_observations := (\<lambda>w. if tracks_wire cfg p w then sp_observations p w else None) \<rparr>"

definition persisted :: "saved_config \<Rightarrow> saved_config" where
  "persisted cfg = cfg \<lparr> cfg_providers := map (persisted_profile cfg) (cfg_providers cfg) \<rparr>"

text \<open>
  What reading back gives: \<^verbatim>\<open>ModelMetadata::context_window_source\<close> is not serialised
  (\<^verbatim>\<open>#[serde(skip)]\<close>), so it comes back as its default.
\<close>

definition file_model :: "model_profile \<Rightarrow> model_profile" where
  "file_model m = m \<lparr> metadata := (metadata m) \<lparr> context_window_source := UnknownWindow \<rparr> \<rparr>"

definition file_connection :: "provider_profile \<Rightarrow> provider_profile" where
  "file_connection p = p \<lparr> models := map file_model (models p) \<rparr>"

definition file_profile :: "saved_profile \<Rightarrow> saved_profile" where
  "file_profile p = p \<lparr> sp_connection := file_connection (sp_connection p),
     sp_fallback := file_connection (sp_fallback p),
     sp_models := map (\<lambda>r. r \<lparr> mr_initial := map_option file_model (mr_initial r) \<rparr>) (sp_models p) \<rparr>"

definition file_config :: "saved_config \<Rightarrow> saved_config" where
  "file_config cfg = cfg \<lparr> cfg_providers := map file_profile (cfg_providers cfg) \<rparr>"

definition account :: "string \<Rightarrow> saved_profile list \<Rightarrow> saved_profile option" where
  "account name ps = find (\<lambda>p. account_name p = name) ps"

definition reconcile_session :: "saved_config \<Rightarrow> saved_config \<Rightarrow> saved_config" where
  "reconcile_session previous cfg =
    cfg \<lparr> cfg_providers := map (\<lambda>p.
      if account (account_name p) (cfg_providers (persisted previous)) = Some p
      then (case account (account_name p) (cfg_providers previous) of Some old \<Rightarrow> old | None \<Rightarrow> p)
      else p) (cfg_providers cfg) \<rparr>"

definition same_connection :: "provider_profile \<Rightarrow> provider_profile \<Rightarrow> bool" where
  "same_connection a b \<longleftrightarrow> a \<lparr> models := [] \<rparr> = b \<lparr> models := [] \<rparr>"

section \<open>Lemmas\<close>

subsection \<open>Keys identify the rows of a definition\<close>

lemma keys_loop_occurrence:
  "k \<in> set (keys_loop counts ms) \<Longrightarrow> counts (mk_wire k, mk_label k) \<le> mk_occurrence k"
proof (induction ms arbitrary: counts)
  case (Cons m ms)
  then show ?case by (fastforce simp: Let_def split: if_splits)
qed simp

lemma keys_loop_distinct: "distinct (keys_loop counts ms)"
proof (induction ms arbitrary: counts)
  case (Cons m ms)
  then show ?case using keys_loop_occurrence by (fastforce simp: Let_def)
qed simp

lemma length_keys_loop [simp]: "length (keys_loop counts ms) = length ms"
  by (induction ms arbitrary: counts) (simp_all add: Let_def)

lemma model_keys_distinct: "distinct (model_keys p)"
  by (simp add: model_keys_def keys_loop_distinct)

lemma length_model_keys [simp]: "length (model_keys p) = length (models p)"
  by (simp add: model_keys_def)

lemma map_fst_definition_rows [simp]: "map fst (definition_rows p) = model_keys p"
  by (simp add: definition_rows_def)

lemma keys_loop_wire:
  "(k, m) \<in> set (zip (keys_loop counts ms) ms) \<Longrightarrow> mk_wire k = request_model m \<and> mk_label k = display_model m"
  by (induction ms arbitrary: counts) (auto simp: Let_def)

lemma definition_rows_wire: "(k, m) \<in> set (definition_rows p) \<Longrightarrow> mk_wire k = request_model m"
  using keys_loop_wire by (fastforce simp: definition_rows_def model_keys_def)

lemma row_model_definition_rows: "(k, m) \<in> set (definition_rows p) \<Longrightarrow> row_model (definition_rows p) k = Some m"
proof -
  assume m: "(k, m) \<in> set (definition_rows p)"
  have "distinct (map fst (rev (definition_rows p)))"
    by (simp add: rev_map [symmetric] model_keys_distinct)
  then show ?thesis using m by (simp add: row_model_def)
qed

lemma row_id_inj: "inj (key_text js) \<Longrightarrow> row_id js k = row_id js k' \<longleftrightarrow> k = k'"
  by (auto simp: row_id_def dest: injD)

lemma default_row_simps [simp]:
  "mr_id (default_row js k) = row_id js k" "mr_key (default_row js k) = Some k"
  by (simp_all add: default_row_def)

subsection \<open>Account names\<close>

lemma account_name_updates [simp]:
  "account_name (p \<lparr> sp_fallback := a \<rparr>) = account_name p"
  "account_name (p \<lparr> sp_models := b \<rparr>) = account_name p"
  "account_name (p \<lparr> sp_observations := c \<rparr>) = account_name p"
  "account_name (p \<lparr> sp_incompatible := d \<rparr>) = account_name p"
  "account_name (p \<lparr> sp_removed := e \<rparr>) = account_name p"
  by (simp_all add: account_name_def)

lemma account_name_persisted [simp]: "account_name (persisted_profile cfg p) = account_name p"
  by (simp add: persisted_profile_def)

lemma account_name_adopt [simp]: "account_name (adopt_observed defs p) = account_name p"
  by (simp add: adopt_observed_def)

lemma account_name_inherited [simp]: "account_name (inherited js p d) = profile_name p"
  by (simp add: inherited_def account_name_def)

lemma account_name_replacement [simp]: "account_name (replacement js p d) = profile_name p"
  by (simp add: replacement_def inherited_def account_name_def Let_def)

lemma account_distinct:
  "distinct (map account_name ps) \<Longrightarrow> p \<in> set ps \<Longrightarrow> account (account_name p) ps = Some p"
  by (induction ps) (auto simp: account_def)

lemma account_Some: "account n ps = Some p \<Longrightarrow> p \<in> set ps \<and> account_name p = n"
  by (auto simp: account_def find_Some_iff)

subsection \<open>Writing and reconciling\<close>

lemma tracks_persisted [simp]:
  "tracks_wire (persisted cfg) p w = tracks_wire cfg p w"
  "tracks_wire cfg (persisted_profile cfg' p) w = tracks_wire cfg p w"
  by (simp_all add: tracks_wire_def persisted_def persisted_profile_def)

lemma tracks_updates [simp]:
  "tracks_wire cfg (p \<lparr> sp_fallback := a \<rparr>) w = tracks_wire cfg p w"
  "tracks_wire cfg (p \<lparr> sp_models := b \<rparr>) w = tracks_wire cfg p w"
  "tracks_wire cfg (p \<lparr> sp_observations := c \<rparr>) w = tracks_wire cfg p w"
  by (simp_all add: tracks_wire_def)

lemma persisted_profile_idem:
  "persisted_profile (persisted cfg) (persisted_profile cfg p) = persisted_profile cfg p"
  by (simp add: persisted_profile_def) (simp add: fun_eq_iff)

lemma file_model_simps [simp]:
  "request_model (file_model m) = request_model m"
  "file_model (file_model m) = file_model m"
  by (simp_all add: file_model_def)

lemma file_connection_simps [simp]:
  "profile_name (file_connection p) = profile_name p"
  "provider_id (file_connection p) = provider_id p"
  "credential (file_connection p) = credential p"
  "extra (file_connection p) = extra p"
  "models (file_connection p) = map file_model (models p)"
  by (simp_all add: file_connection_def)

lemma account_name_file [simp]: "account_name (file_profile p) = account_name p"
  by (simp add: file_profile_def account_name_def)

lemma tracks_file [simp]:
  "tracks_wire cfg (file_profile p) w = tracks_wire cfg p w"
  "tracks_wire (file_config cfg) p w = tracks_wire cfg p w"
  by (simp_all add: tracks_wire_def file_profile_def file_config_def)

lemma row_wire_file [simp]:
  "row_wire (r \<lparr> mr_initial := map_option file_model (mr_initial r) \<rparr>) = row_wire r"
  by (auto simp: row_wire_def split: option.split)

lemma persisted_file_profile:
  "persisted_profile cfg (file_profile p) = file_profile (persisted_profile cfg p)"
proof -
  let ?t = "tracks_wire cfg p"
  have obs: "sp_observations (file_profile p) = sp_observations p" by (simp add: file_profile_def)
  have "persisted_profile cfg (file_profile p) = (file_profile p)
    \<lparr> sp_fallback := (sp_fallback (file_profile p)) \<lparr> models := filter (\<lambda>m. ?t (request_model m)) (models (sp_fallback (file_profile p))) \<rparr>,
      sp_models := filter (\<lambda>r. ?t (row_wire r)) (sp_models (file_profile p)),
      sp_observations := (\<lambda>w. if ?t w then sp_observations p w else None) \<rparr>"
    by (simp add: persisted_profile_def obs cong: if_cong)
  also have "\<dots> = file_profile (persisted_profile cfg p)"
    by (simp add: file_profile_def persisted_profile_def file_connection_def filter_map comp_def)
  finally show ?thesis .
qed


subsection \<open>Every default is configured once\<close>

text \<open>The keys of the rows, in order.\<close>

definition key_list :: "model_row list \<Rightarrow> model_key list" where
  "key_list rows = List.map_filter mr_key rows"

lemma key_list_simps [simp]:
  "key_list [] = []"
  "key_list (r # rs) = (case mr_key r of None \<Rightarrow> key_list rs | Some k \<Rightarrow> k # key_list rs)"
  "key_list (xs @ ys) = key_list xs @ key_list ys"
  by (simp_all add: key_list_def map_filter_def split: option.split)

lemma row_keys_key_list: "row_keys rows = set (key_list rows)"
  by (simp add: row_keys_def key_list_def)

lemma key_list_default [simp]: "key_list (map (default_row js) ks) = ks"
  by (induction ks) simp_all

lemma key_list_update:
  assumes "i < length rows" "mr_key (rows ! i) = None" "mr_key r = Some k"
  shows "\<exists>xs ys. key_list rows = xs @ ys \<and> key_list (rows[i := r]) = xs @ k # ys"
proof -
  have "key_list rows = key_list (take i rows) @ key_list (drop (Suc i) rows)"
    using id_take_nth_drop [OF assms(1)] assms(2) key_list_simps(3) by (metis key_list_simps(2) option.simps(4))
  moreover have "key_list (rows[i := r]) = key_list (take i rows) @ k # key_list (drop (Suc i) rows)"
    using assms(1,3) by (simp add: upd_conv_take_nth_drop)
  ultimately show ?thesis by blast
qed

text \<open>A moved key is alone on its wire name before and after the move.\<close>

lemma adopt_moved_keys:
  assumes "distinct (key_list rows0)"
  shows "distinct (key_list (adopt_moved keyed rows0))"
proof -
  define move where "move = (\<lambda>old. if old \<notin> fst ` set keyed \<and> count_list (saved_wires rows0) (mk_wire old) = 1
         then (case unique_row keyed (mk_wire old) of Some (k, _) \<Rightarrow> k | None \<Rightarrow> old) else old)"
  have wire: "mk_wire (move old) = mk_wire old" for old
    by (auto simp: move_def unique_row_def split: option.split list.splits dest: arg_cong [where f = set])
      (metis (mono_tags, lifting) filter_eq_Cons_iff fst_conv)
  have step: "key_list (map (\<lambda>row. case mr_key row of None \<Rightarrow> row
       | Some old \<Rightarrow> if old \<notin> fst ` set keyed \<and> count_list (saved_wires rows0) (mk_wire old) = 1
         then (case unique_row keyed (mk_wire old) of Some (k, _) \<Rightarrow> row \<lparr> mr_key := Some k \<rparr> | None \<Rightarrow> row)
         else row) rs) = map move (key_list rs)" for rs
    by (induction rs) (auto simp: move_def split: option.split)
  have keys: "key_list (adopt_moved keyed rows0) = map move (key_list rows0)"
    unfolding adopt_moved_def by (rule step)
  have wires: "saved_wires rows0 = map mk_wire (key_list rows0)" by (simp add: saved_wires_def key_list_def)
  have "inj_on move (set (key_list rows0))"
  proof (rule inj_onI)
    fix a b assume a: "a \<in> set (key_list rows0)" and b: "b \<in> set (key_list rows0)" and eq: "move a = move b"
    then have w: "mk_wire a = mk_wire b" using wire by metis
    show "a = b"
    proof (cases "count_list (saved_wires rows0) (mk_wire a) = 1")
      case True
      then have "length (filter (\<lambda>k. mk_wire k = mk_wire a) (key_list rows0)) = 1"
        by (simp add: wires count_list_eq_length_filter filter_map comp_def) (metis (mono_tags, lifting) filter_cong)
      then obtain c where "filter (\<lambda>k. mk_wire k = mk_wire a) (key_list rows0) = [c]"
        by (auto simp: length_Suc_conv)
      from arg_cong [OF this, of set] have c: "{k \<in> set (key_list rows0). mk_wire k = mk_wire a} = {c}"
        by simp
      have "a \<in> {c}" "b \<in> {c}" unfolding c [symmetric] using a b w by simp_all
      then show ?thesis by simp
    next
      case False
      then show ?thesis using eq w by (simp add: move_def)
    qed
  qed
  then show ?thesis using assms(1) keys by (simp add: distinct_map)
qed

definition queue_ok :: "model_row list \<Rightarrow> (string \<Rightarrow> nat list) \<Rightarrow> bool" where
  "queue_ok rows queue \<longleftrightarrow>
     (\<forall>w. distinct (queue w)) \<and> (\<forall>w. \<forall>i \<in> set (queue w). i < length rows \<and> mr_key (rows ! i) = None)
     \<and> (\<forall>w w' i. i \<in> set (queue w) \<longrightarrow> i \<in> set (queue w') \<longrightarrow> w = w')"

lemma observed_queue_ok: "queue_ok rows (observed_queue rows)"
proof -
  have mem: "i \<in> set (observed_queue rows w) \<longleftrightarrow> i < length rows \<and> observed_for w (rows ! i)" for i w
    by (force simp: observed_queue_def in_set_enumerate_eq)
  have "distinct (map fst (filter P (enumerate 0 rows)))" for P :: "nat \<times> model_row \<Rightarrow> bool"
    by (rule distinct_map_filter) (simp add: map_fst_enumerate)
  then have "distinct (observed_queue rows w)" for w by (simp add: observed_queue_def)
  moreover have "observed_for w r \<Longrightarrow> mr_key r = None" "observed_for w r \<Longrightarrow> observed_for w' r \<Longrightarrow> w = w'" for w w' r
    by (auto simp: observed_for_def split: option.splits)
  ultimately show ?thesis by (auto simp: queue_ok_def mem)
qed

lemma queue_ok_pop:
  assumes ok: "queue_ok rows queue" and q: "queue w = i # rest" and k: "mr_key r = Some k"
  shows "queue_ok (rows[i := r]) (queue(w := rest))"
proof -
  have rest: "i \<notin> set rest" "distinct rest"
    using ok q unfolding queue_ok_def by (metis distinct.simps(2))+
  have other: "i \<notin> set (queue w')" if "w' \<noteq> w" for w'
    using ok q that unfolding queue_ok_def by (metis list.set_intros(1))
  have mem: "j \<in> set (queue w') \<and> j \<noteq> i" if "j \<in> set ((queue(w := rest)) w')" for j w'
    using that rest(1) other q by (cases "w' = w") auto
  show ?thesis
    unfolding queue_ok_def
  proof (intro conjI allI ballI impI)
    show "distinct ((queue(w := rest)) w')" for w' using ok rest(2) by (auto simp: queue_ok_def)
    show "j < length (rows[i := r])" if "j \<in> set ((queue(w := rest)) w')" for j w'
      using mem [OF that] ok by (auto simp: queue_ok_def)
    show "mr_key (rows[i := r] ! j) = None" if "j \<in> set ((queue(w := rest)) w')" for j w'
      using mem [OF that] ok by (auto simp: queue_ok_def nth_list_update)
    show "w1 = w2" if "j \<in> set ((queue(w := rest)) w1)" "j \<in> set ((queue(w := rest)) w2)" for j w1 w2
      using mem [OF that(1)] mem [OF that(2)] ok unfolding queue_ok_def by blast
  qed
qed

lemma adopt_loop_keys:
  "distinct (key_list rows) \<Longrightarrow> present = set (key_list rows) \<Longrightarrow> queue_ok rows queue \<Longrightarrow>
    distinct (key_list (adopt_loop keyed rows present queue))
    \<and> set (key_list rows) \<subseteq> set (key_list (adopt_loop keyed rows present queue))
    \<and> set (key_list (adopt_loop keyed rows present queue)) \<subseteq> set (key_list rows) \<union> fst ` set keyed"
proof (induction keyed rows present queue rule: adopt_loop.induct)
  case (2 k m ks rows present queue)
  show ?case
  proof (cases "mk_occurrence k = 0 \<and> k \<notin> present \<and> queue (mk_wire k) \<noteq> []")
    case False
    then have "adopt_loop ((k, m) # ks) rows present queue = adopt_loop ks rows present queue"
      by (auto split: list.split)
    moreover have "distinct (key_list (adopt_loop ks rows present queue))
      \<and> set (key_list rows) \<subseteq> set (key_list (adopt_loop ks rows present queue))
      \<and> set (key_list (adopt_loop ks rows present queue)) \<subseteq> set (key_list rows) \<union> fst ` set ks"
      using 2 False by (cases "mk_occurrence k = 0 \<and> k \<notin> present") auto
    ultimately show ?thesis by auto
  next
    case True
    then obtain i rest where q: "queue (mk_wire k) = i # rest" by (cases "queue (mk_wire k)") auto
    let ?rows = "rows[i := (rows ! i) \<lparr> mr_key := Some k \<rparr>]"
    have i: "i < length rows" "mr_key (rows ! i) = None"
      using "2.prems"(3) q unfolding queue_ok_def by (metis list.set_intros(1))+
    obtain xs ys where keys: "key_list rows = xs @ ys" "key_list ?rows = xs @ k # ys"
      using key_list_update [OF i, of "(rows ! i) \<lparr> mr_key := Some k \<rparr>" k] by auto
    have ok: "queue_ok ?rows (queue(mk_wire k := rest))"
      by (rule queue_ok_pop [OF "2.prems"(3) q]) simp
    have "distinct (key_list ?rows)" "insert k present = set (key_list ?rows)"
      using "2.prems"(1,2) True keys by auto
    note start = this
    let ?res = "adopt_loop ks ?rows (insert k present) (queue(mk_wire k := rest))"
    have res: "adopt_loop ((k, m) # ks) rows present queue = ?res" using True q by simp
    have IH: "distinct (key_list ?res)" "set (key_list ?rows) \<subseteq> set (key_list ?res)"
      "set (key_list ?res) \<subseteq> set (key_list ?rows) \<union> fst ` set ks"
      using "2.IH"(2) [OF _ q start ok] True by blast+
    have sets: "set (key_list rows) \<subseteq> set (key_list ?rows)" "set (key_list ?rows) = insert k (set (key_list rows))"
      using keys by auto
    show ?thesis
      unfolding res using IH sets by (intro conjI) (assumption | (simp; blast))+
  qed
qed auto

lemma adopt_rows_keys:
  assumes "distinct (key_list rows)"
  shows "distinct (key_list (adopt_rows keyed rows))"
  using adopt_loop_keys [OF adopt_moved_keys [OF assms] row_keys_key_list observed_queue_ok]
  by (simp add: adopt_rows_def Let_def)

lemma new_defaults_keys:
  "distinct (key_list (new_defaults js removed keyed present))
    \<and> set (key_list (new_defaults js removed keyed present))
        = {k \<in> fst ` set keyed. \<not> removed k \<and> k \<notin> present}"
proof (induction keyed arbitrary: present)
  case (Cons r ks)
  then show ?case by (cases r) auto
qed simp

text \<open>
  C35. Every default of a definition is configured exactly once, and a removed default does
  not come back. Merging the saved rows of an account with its definition gives rows with
  pairwise different definition keys; every key of the definition that was not removed is
  among them; and a key that is not on a saved row, moved or adopted, appears only when it
  is in the definition and was not removed.
\<close>
theorem defaults_configured_once:
  assumes "distinct (key_list (sp_models p))" and "\<not> sp_replace_models p"
  shows "let keyed = definition_rows d; rows = merged_rows js p keyed in
    distinct (key_list rows)
    \<and> (\<forall>k \<in> set (model_keys d). \<not> removed_default keyed (sp_removed p) k \<longrightarrow> k \<in> set (key_list rows))
    \<and> (\<forall>k \<in> set (key_list rows). k \<in> set (key_list (adopt_rows keyed (sp_models p)))
         \<or> k \<in> set (model_keys d) \<and> \<not> removed_default keyed (sp_removed p) k)"
proof -
  let ?keyed = "definition_rows d"
  let ?saved = "adopt_rows ?keyed (sp_models p)"
  have "set (model_keys d) = fst ` set ?keyed"
    using map_fst_definition_rows [of d] by (metis list.set_map)
  then show ?thesis
    using assms(2) adopt_rows_keys [OF assms(1), of ?keyed]
      new_defaults_keys [of js "removed_default ?keyed (sp_removed p)" ?keyed "row_keys ?saved"]
    by (auto simp: merged_rows_def Let_def row_keys_key_list)
qed

subsection \<open>A row identity can be given away\<close>

definition sample_json :: config_json where
  "sample_json = \<lparr> key_text = (\<lambda>k. mk_wire k @ '' '' @ mk_label k), all_values = \<lambda>_. Map.empty,
     with_values = \<lambda>m _. Ok m \<rparr>"

definition labelled :: "string list \<Rightarrow> provider_profile" where
  "labelled labels = (sample_profile ''a'' None [International] AnthropicMessages [] [])
     \<lparr> models := map (\<lambda>l. (sample_model ''w'') \<lparr> display_model := l \<rparr>) labels \<rparr>"

definition catalog :: "string list \<Rightarrow> definitions" where
  "catalog labels = \<lparr> def_caller = [labelled labels], def_builtin_names = {}, def_catalog = [] \<rparr>"

lemma labelled_simps [simp]:
  "models (labelled ls) = map (\<lambda>l. (sample_model ''w'') \<lparr> display_model := l \<rparr>) ls"
  "profile_name (labelled ls) = ''a''"
  by (simp_all add: labelled_def sample_profile_def)

lemma definition_of_catalog:
  "sp_definition p = CallerDef ''a'' \<Longrightarrow> definition_of (catalog ls) p = labelled ls"
  by (simp add: definition_of_def def_get_def catalog_def)

lemma adopted_row:
  "adopt_observed (catalog [''B'']) (inherited sample_json (labelled [''A'']) (CallerDef ''a''))
    = (inherited sample_json (labelled [''A'']) (CallerDef ''a''))
        \<lparr> sp_models := [(default_row sample_json \<lparr> mk_wire = ''w'', mk_label = ''A'', mk_occurrence = 0 \<rparr>)
           \<lparr> mr_key := Some \<lparr> mk_wire = ''w'', mk_label = ''B'', mk_occurrence = 0 \<rparr> \<rparr>] \<rparr>"
  by (simp add: adopt_observed_def definition_of_catalog inherited_def definition_rows_def model_keys_def
      adopt_rows_def adopt_moved_def saved_wires_def unique_row_def row_keys_def map_filter_simps Let_def)

text \<open>
  A row identity is not stable. When a definition renames a model and a later
  definition offers the old name again beside the new one, the saved row has moved to the
  new name but keeps the identity made from the old one, so two configured rows carry the
  same identity and an edit of the second one is applied to the first.
\<close>
theorem row_identity_collides:
  "case account_rows sample_json (catalog [''B'', ''A''])
     (adopt_observed (catalog [''B'']) (inherited sample_json (labelled [''A'']) (CallerDef ''a''))) of
     Inl _ \<Rightarrow> False
   | Inr rows \<Rightarrow> map cm_row_id rows = [''definition:w A'', ''definition:w A'']
       \<and> map (\<lambda>r. display_model (cm_model r)) rows = [''B'', ''A'']"
  unfolding adopted_row
  by (simp add: account_rows_def definition_of_catalog inherited_def definition_rows_def model_keys_def
      merged_rows_def adopt_rows_def adopt_moved_def unique_row_def row_keys_def map_filter_simps
      Let_def removed_default_def configure_row_def base_model_def row_model_def observe_model_def apply_values_def
      default_row_def row_id_def sample_json_def observed_queue_def observed_for_def)

definition untracked_session :: saved_config where
  "untracked_session = default_config \<lparr> cfg_providers := [inherited sample_json (labelled [''A'']) (CallerDef ''a'')] \<rparr>"


subsection \<open>Session settings that do not survive\<close>

text \<open>
  A catalog account with a tracked model whose context window the catalog gave, and a row
  of another, untracked model that the user has hidden.
\<close>

definition catalog_account :: provider_profile where
  "catalog_account = (sample_profile ''a'' None [International] AnthropicMessages [] [])
     \<lparr> models := [(sample_model ''w'') \<lparr> metadata := default_metadata \<lparr> context_window_source := Catalog \<rparr> \<rparr>,
                  sample_model ''x''] \<rparr>"

definition hiding_session :: "string set \<Rightarrow> saved_config" where
  "hiding_session tracked_ids = default_config \<lparr> cfg_tracked := [''p'' \<mapsto> tracked_ids],
     cfg_providers := [(inherited sample_json catalog_account (CallerDef ''a''))
       \<lparr> sp_models := [(default_row sample_json \<lparr> mk_wire = ''x'', mk_label = ''x'', mk_occurrence = 0 \<rparr>)
            \<lparr> mr_overrides := [HiddenField \<mapsto> JBool True] \<rparr>] \<rparr>] \<rparr>"

definition hidden_settings :: "saved_config \<Rightarrow> json option list" where
  "hidden_settings cfg = map (\<lambda>r. mr_overrides r HiddenField) (concat (map sp_models (cfg_providers cfg)))"

text \<open>
  A session loses settings it means to keep. Settings of untracked models live in the
  session while the saved account is unchanged; but as soon as the account tracks a model
  whose context window comes from the catalog, the account read back differs from the one
  that was written in the provenance the file drops, so every later operation discards the
  hidden flag of the untracked model, although nothing was changed. With nothing tracked
  it is kept.
\<close>
theorem session_settings_lost:
  "hidden_settings (hiding_session {''w''}) = [Some (JBool True)]
   \<and> hidden_settings (reconcile_session (hiding_session {''w''})
        (file_config (persisted (hiding_session {''w''})))) = []
   \<and> hidden_settings (reconcile_session (hiding_session {})
        (file_config (persisted (hiding_session {})))) = [Some (JBool True)]"
proof -
  have fields: "models catalog_account = [(sample_model ''w'') \<lparr> metadata := default_metadata \<lparr> context_window_source := Catalog \<rparr> \<rparr>,
      sample_model ''x'']" "profile_name catalog_account = ''a''" "provider_id catalog_account = ''p''"
    by (simp_all add: catalog_account_def sample_profile_def)
  note defs = hidden_settings_def reconcile_session_def hiding_session_def default_config_def file_config_def
    persisted_def persisted_profile_def file_profile_def file_connection_def inherited_def tracks_wire_def
    row_wire_def default_row_def account_def account_name_def fields
  show ?thesis
  proof (intro conjI)
    show "hidden_settings (hiding_session {''w''}) = [Some (JBool True)]" by (simp add: defs)
    show "hidden_settings (reconcile_session (hiding_session {''w''})
        (file_config (persisted (hiding_session {''w''})))) = []"
      by (simp add: defs)
        (auto simp: file_model_def default_metadata_def dest!: arg_cong [where f = "\<lambda>p. map (\<lambda>m. context_window_source (metadata m)) (models p)"])
    show "hidden_settings (reconcile_session (hiding_session {})
        (file_config (persisted (hiding_session {})))) = [Some (JBool True)]"
      by (simp add: defs)
  qed
qed

theorem defaults_configured_once_witness:
  "distinct (key_list (merged_rows sample_json (inherited sample_json (labelled [''A'']) (CallerDef ''a''))
     (definition_rows (labelled [''A'', ''B'']))))"
proof -
  have "distinct (key_list (sp_models (inherited sample_json (labelled [''A'']) (CallerDef ''a''))))"
    "\<not> sp_replace_models (inherited sample_json (labelled [''A'']) (CallerDef ''a''))"
    by (simp_all add: inherited_def model_keys_distinct)
  from defaults_configured_once [OF this, of "labelled [''A'', ''B'']" sample_json] show ?thesis
    by (simp add: Let_def)
qed

end
