(* ===== verification/Config_Sync.thy ===== *)
theory Config_Sync
  imports Config_Model
begin

text \<open>
  Synchronisation of an account with the model directory of its provider
  (\<^verbatim>\<open>src/configuration/sync.rs\<close>): the bounded walk over the pages of a
  directory, and the commit of what was observed.

  One request, authentication, transport and decoding included, is the parameter
  \<open>answer\<close>: the page or the error of the n-th request, sent with a cursor.
\<close>

section \<open>Fetching the pages\<close>

definition max_pages :: nat where
  "max_pages = 100"

record live_model =
  lm_features :: "inference_features option"
  lm_model :: string
  lm_display_name :: "string option"
  lm_description :: "string option"
  lm_context_window :: "u64 option"
  lm_max_output :: "u64 option"

record directory_page =
  dp_models :: "live_model list"
  dp_next :: "string option"
  dp_incompatible :: "string list"
  dp_compatible :: "string list"

record fetched =
  ft_live :: "live_model list"
  ft_incompatible :: "string list"
  ft_compatible :: "string list"

definition nothing_fetched :: fetched where
  "nothing_fetched = \<lparr> ft_live = [], ft_incompatible = [], ft_compatible = [] \<rparr>"

definition add_page :: "fetched \<Rightarrow> directory_page \<Rightarrow> fetched" where
  "add_page acc pg = \<lparr> ft_live = ft_live acc @ dp_models pg,
     ft_incompatible = ft_incompatible acc @ dp_incompatible pg,
     ft_compatible = ft_compatible acc @ dp_compatible pg \<rparr>"

fun fetch_loop ::
  "(nat \<Rightarrow> string option \<Rightarrow> store_error + directory_page) \<Rightarrow> nat \<Rightarrow> nat \<Rightarrow> string option \<Rightarrow> string set
    \<Rightarrow> fetched \<Rightarrow> store_error + fetched" where
  "fetch_loop answer 0 n cursor seen acc = Err InvalidPagination"
| "fetch_loop answer (Suc left) n cursor seen acc =
    (case answer n cursor of
       Inl e \<Rightarrow> Err e
     | Inr pg \<Rightarrow>
         (case dp_next pg of
            None \<Rightarrow> Ok (add_page acc pg)
          | Some c \<Rightarrow>
              if c \<notin> seen then fetch_loop answer left (Suc n) (Some c) (insert c seen) (add_page acc pg)
              else Err InvalidPagination))"

definition fetch_pages :: "(nat \<Rightarrow> string option \<Rightarrow> store_error + directory_page) \<Rightarrow> store_error + fetched" where
  "fetch_pages answer = fetch_loop answer max_pages 0 None {} nothing_fetched"

section \<open>Committing the observations\<close>

text \<open>The identity of an observed row: the first number that is free.\<close>

definition observed_id :: "string \<Rightarrow> nat \<Rightarrow> string" where
  "observed_id w n = ''observed:'' @ w @ '':'' @ decimal n"

lemma observed_id_inj: "observed_id w a = observed_id w b \<longleftrightarrow> a = b"
  by (simp add: observed_id_def decimal_inj)

function free_id :: "string list \<Rightarrow> string \<Rightarrow> nat \<Rightarrow> string" where
  "free_id ids w n = (if observed_id w n \<in> set ids then free_id ids w (n + 1) else observed_id w n)"
  by pat_completeness auto

text \<open>Every number passed over names one of the finitely many rows.\<close>

termination
proof (relation "measure (\<lambda>(ids, w, n). card {i \<in> set ids. \<exists>m \<ge> n. i = observed_id w m})")
  fix ids w n
  assume taken: "observed_id w n \<in> set ids"
  have "{i \<in> set ids. \<exists>m \<ge> n + 1. i = observed_id w m} \<subset> {i \<in> set ids. \<exists>m \<ge> n. i = observed_id w m}"
  proof
    show "{i \<in> set ids. \<exists>m \<ge> n + 1. i = observed_id w m} \<subseteq> {i \<in> set ids. \<exists>m \<ge> n. i = observed_id w m}"
      by (auto simp: observed_id_inj)
    have "observed_id w n \<notin> {i \<in> set ids. \<exists>m \<ge> n + 1. i = observed_id w m}"
      by (auto simp: observed_id_inj)
    then show "{i \<in> set ids. \<exists>m \<ge> n + 1. i = observed_id w m} \<noteq> {i \<in> set ids. \<exists>m \<ge> n. i = observed_id w m}"
      using taken by blast
  qed
  then show "((ids, w, n + 1), ids, w, n) \<in> measure (\<lambda>(ids, w, n). card {i \<in> set ids. \<exists>m \<ge> n. i = observed_id w m})"
    by (simp add: psubset_card_mono)
qed simp

declare free_id.simps [simp del]

definition observed_row :: "model_row list \<Rightarrow> string \<Rightarrow> model_row" where
  "observed_row rows w = \<lparr> mr_id = free_id (map mr_id rows) w 0, mr_key = None,
     mr_initial = Some (empty_model w), mr_replacement = False, mr_observed = True,
     mr_overrides = Map.empty \<rparr>"

definition restorable :: "string \<Rightarrow> model_row \<Rightarrow> bool" where
  "restorable w row \<longleftrightarrow> \<not> mr_replacement row \<and> (case mr_key row of Some k \<Rightarrow> mk_wire k = w | None \<Rightarrow> False)"

definition restore_or_add :: "string \<Rightarrow> model_row list \<Rightarrow> model_row list" where
  "restore_or_add w rows =
    (if list_ex (restorable w) rows
     then map (\<lambda>row. if restorable w row
            then row \<lparr> mr_observed := True, mr_initial := Some (empty_model w) \<rparr> else row) rows
     else rows @ [observed_row rows w])"

definition merge_observation :: "bool \<Rightarrow> live_model \<Rightarrow> observation \<Rightarrow> observation" where
  "merge_observation known_row live ob0 =
    (let ob1 = (case or_keep (lm_description live) (if known_row then None else lm_display_name live) of
                  Some d \<Rightarrow> ob0 \<lparr> obs_description := Some d \<rparr> | None \<Rightarrow> ob0);
         ob2 = (case lm_context_window live of Some n \<Rightarrow> ob1 \<lparr> obs_context := Some n \<rparr> | None \<Rightarrow> ob1);
         ob3 = (case lm_features live of
                  Some f \<Rightarrow> ob2 \<lparr> obs_features := Some (overlay
                     (case obs_features ob2 of Some g \<Rightarrow> g | None \<Rightarrow> default_features) f) \<rparr>
                | None \<Rightarrow> ob2) in
     case lm_max_output live of Some n \<Rightarrow> ob3 \<lparr> obs_output := Some n \<rparr> | None \<Rightarrow> ob3)"

definition accepts_live :: "string set \<Rightarrow> saved_profile \<Rightarrow> live_model \<Rightarrow> bool" where
  "accepts_live tracked_ids p live \<longleftrightarrow> lm_model live \<in> tracked_ids \<and> lm_model live \<notin> sp_incompatible p"

definition observe_live ::
  "config_json \<Rightarrow> definitions \<Rightarrow> string set \<Rightarrow> live_model \<Rightarrow> saved_profile \<Rightarrow> store_error + saved_profile" where
  "observe_live js defs tracked_ids live p =
    bind_result (account_rows js defs p) (\<lambda>rows.
      let w = lm_model live;
          known_row = list_ex (\<lambda>r. request_model (cm_model r) = w) rows;
          p1 = (if known_row then p else p \<lparr> sp_models := restore_or_add w (sp_models p) \<rparr>);
          ob0 = (case sp_observations p1 w of Some ob \<Rightarrow> ob | None \<Rightarrow> default_observation) in
      Ok (p1 \<lparr> sp_observations := (sp_observations p1)(w \<mapsto> merge_observation known_row live ob0) \<rparr>))"

fun observe_all ::
  "config_json \<Rightarrow> definitions \<Rightarrow> string set \<Rightarrow> live_model list \<Rightarrow> saved_profile \<Rightarrow> nat
    \<Rightarrow> store_error + saved_profile \<times> nat" where
  "observe_all js defs tracked_ids [] p n = Ok (p, n)"
| "observe_all js defs tracked_ids (live # rest) p n =
    (if \<not> accepts_live tracked_ids p live then observe_all js defs tracked_ids rest p n
     else bind_result (observe_live js defs tracked_ids live p) (\<lambda>p1.
       observe_all js defs tracked_ids rest p1 (n + 1)))"

definition sync_account ::
  "config_json \<Rightarrow> definitions \<Rightarrow> string set \<Rightarrow> fetched \<Rightarrow> saved_profile \<Rightarrow> store_error + saved_profile \<times> nat" where
  "sync_account js defs tracked_ids ft p =
    observe_all js defs tracked_ids (ft_live ft)
      (p \<lparr> sp_incompatible := (sp_incompatible p \<union> set (ft_incompatible ft)) - set (ft_compatible ft) \<rparr>) 0"

section \<open>Lemmas\<close>

subsection \<open>The walk over the pages\<close>

text \<open>The pages a directory answers with, from a request and a cursor to a last page.\<close>

fun page_chain :: "(nat \<Rightarrow> string option \<Rightarrow> store_error + directory_page) \<Rightarrow> nat \<Rightarrow> string option \<Rightarrow> directory_page list \<Rightarrow> bool" where
  "page_chain answer n cursor [] = False"
| "page_chain answer n cursor (pg # pgs) =
    (answer n cursor = Ok pg \<and>
     (case dp_next pg of None \<Rightarrow> pgs = [] | Some c \<Rightarrow> page_chain answer (Suc n) (Some c) pgs))"

definition cursors :: "directory_page list \<Rightarrow> string list" where
  "cursors pgs = List.map_filter dp_next pgs"

lemma cursors_simps [simp]:
  "cursors [] = []"
  "cursors (pg # pgs) = (case dp_next pg of None \<Rightarrow> cursors pgs | Some c \<Rightarrow> c # cursors pgs)"
  by (simp_all add: cursors_def map_filter_simps split: option.split)

lemma ex_list_cons: "\<not> Q [] \<Longrightarrow> (\<exists>xs. Q xs) \<longleftrightarrow> (\<exists>x xs. Q (x # xs))"
  by (metis neq_Nil_conv)

lemma fetch_loop_Ok:
  "fetch_loop answer left n cursor seen acc = Ok ft \<longleftrightarrow>
    (\<exists>pgs. page_chain answer n cursor pgs \<and> length pgs \<le> left \<and> distinct (cursors pgs)
       \<and> seen \<inter> set (cursors pgs) = {} \<and> ft = foldl add_page acc pgs)"
proof (induction answer left n cursor seen acc rule: fetch_loop.induct)
  case (1 answer n cursor seen acc)
  show ?case by (auto elim: page_chain.elims)
next
  case (2 answer left n cursor seen acc)
  have cons: "(\<exists>pgs. page_chain answer n cursor pgs \<and> length pgs \<le> Suc left \<and> distinct (cursors pgs)
       \<and> seen \<inter> set (cursors pgs) = {} \<and> ft = foldl add_page acc pgs)
    \<longleftrightarrow> (\<exists>pg pgs. page_chain answer n cursor (pg # pgs) \<and> length pgs \<le> left \<and> distinct (cursors (pg # pgs))
       \<and> seen \<inter> set (cursors (pg # pgs)) = {} \<and> ft = foldl add_page (add_page acc pg) pgs)"
    by (subst ex_list_cons) simp_all
  show ?case
  proof (cases "answer n cursor")
    case (Inl e)
    then show ?thesis unfolding cons by simp
  next
    case (Inr pg)
    show ?thesis
    proof (cases "dp_next pg")
      case None
      then show ?thesis unfolding cons using Inr by auto
    next
      case (Some c)
      show ?thesis
        unfolding cons using Inr Some "2.IH" [OF Inr Some] by (auto split: option.splits)
    qed
  qed
qed

text \<open>
  C36. The walk over a model directory ends and loses nothing. Fetching succeeds exactly
  when the directory answers with a chain of at most one hundred pages, no cursor twice,
  whose last page has no next cursor, and then it returns what all these pages list, in
  order. A directory that repeats a cursor, or goes on forever, is refused after at most
  a hundred requests.
\<close>
theorem fetch_follows_the_pages:
  "fetch_pages answer = Ok ft \<longleftrightarrow>
    (\<exists>pgs. page_chain answer 0 None pgs \<and> length pgs \<le> 100 \<and> distinct (cursors pgs)
       \<and> ft_live ft = concat (map dp_models pgs)
       \<and> ft_incompatible ft = concat (map dp_incompatible pgs)
       \<and> ft_compatible ft = concat (map dp_compatible pgs))"
proof -
  have fold: "foldl add_page acc pgs = \<lparr> ft_live = ft_live acc @ concat (map dp_models pgs),
      ft_incompatible = ft_incompatible acc @ concat (map dp_incompatible pgs),
      ft_compatible = ft_compatible acc @ concat (map dp_compatible pgs) \<rparr>" for acc pgs
    by (induction pgs arbitrary: acc) (simp_all add: add_page_def)
  have "ft = \<lparr> ft_live = a, ft_incompatible = b, ft_compatible = c \<rparr> \<longleftrightarrow>
      ft_live ft = a \<and> ft_incompatible ft = b \<and> ft_compatible ft = c" for a b c
    by (cases ft) auto
  then show ?thesis
    by (simp add: fetch_pages_def fetch_loop_Ok max_pages_def fold nothing_fetched_def)
qed

subsection \<open>Free identities\<close>


subsection \<open>What a synchronisation may change\<close>

text \<open>Rows that were there keep identity, key and explicit settings; new rows follow.\<close>

definition rows_extend :: "model_row list \<Rightarrow> model_row list \<Rightarrow> bool" where
  "rows_extend rows rows' \<longleftrightarrow> (\<exists>new :: model_row list.
     map (\<lambda>r. (mr_id r, mr_key r, mr_replacement r, mr_overrides r)) rows'
       = map (\<lambda>r. (mr_id r, mr_key r, mr_replacement r, mr_overrides r)) rows
           @ map (\<lambda>r. (mr_id r, None, False, Map.empty)) new)"

lemma rows_extend_refl: "rows_extend rows rows"
  unfolding rows_extend_def by (rule exI [of _ "[]"]) simp

lemma rows_extend_trans: "rows_extend a b \<Longrightarrow> rows_extend b c \<Longrightarrow> rows_extend a c"
  unfolding rows_extend_def by (elim exE, rule_tac x = "new @ newa" in exI) simp

lemma restore_or_add_extend: "rows_extend rows (restore_or_add w rows)"
proof (cases "list_ex (restorable w) rows")
  case True
  then show ?thesis unfolding rows_extend_def restore_or_add_def
    by (intro exI [of _ "[]"]) simp
next
  case False
  then show ?thesis unfolding rows_extend_def restore_or_add_def
    by (intro exI [of _ "[observed_row rows w]"]) (simp add: observed_row_def)
qed

lemma free_id_fresh: "free_id ids w k \<notin> set ids"
  by (induction ids w k rule: free_id.induct) (simp add: free_id.simps)

lemma restore_or_add_ids:
  "distinct (map mr_id rows) \<Longrightarrow> distinct (map mr_id (restore_or_add w rows))"
proof (cases "list_ex (restorable w) rows")
  case True
  have "map mr_id (map (\<lambda>row. if restorable w row then row \<lparr> mr_observed := True, mr_initial := Some (empty_model w) \<rparr> else row) rows)
      = map mr_id rows" by simp
  then show "distinct (map mr_id rows) \<Longrightarrow> ?thesis" using True by (simp only: restore_or_add_def if_True)
next
  case False
  then show "distinct (map mr_id rows) \<Longrightarrow> ?thesis"
    using free_id_fresh [of "map mr_id rows" w 0] by (simp add: restore_or_add_def observed_row_def)
qed

lemma observe_live_Ok:
  assumes "observe_live js defs tr live p = Ok p'"
  shows "rows_extend (sp_models p) (sp_models p')"
    and "distinct (map mr_id (sp_models p)) \<Longrightarrow> distinct (map mr_id (sp_models p'))"
    and "w \<noteq> lm_model live \<Longrightarrow> sp_observations p' w = sp_observations p w"
    and "p' = p \<lparr> sp_models := sp_models p', sp_observations := sp_observations p' \<rparr>"
  using assms rows_extend_refl restore_or_add_extend restore_or_add_ids
  by (auto simp: observe_live_def Let_def bind_result_Inr split: if_splits)

lemma observe_all_Ok:
  "observe_all js defs tr lives p n = Ok (p', n') \<Longrightarrow>
    rows_extend (sp_models p) (sp_models p')
    \<and> (distinct (map mr_id (sp_models p)) \<longrightarrow> distinct (map mr_id (sp_models p')))
    \<and> n' = n + length (filter (accepts_live tr p) lives)
    \<and> p' = p \<lparr> sp_models := sp_models p', sp_observations := sp_observations p' \<rparr>
    \<and> (\<forall>w. w \<notin> lm_model ` set (filter (accepts_live tr p) lives) \<longrightarrow> sp_observations p' w = sp_observations p w)"
proof (induction lives arbitrary: p n)
  case Nil
  then show ?case by (simp add: rows_extend_refl)
next
  case (Cons live lives)
  show ?case
  proof (cases "accepts_live tr p live")
    case False
    then show ?thesis using Cons by simp
  next
    case True
    obtain p1 where p1: "observe_live js defs tr live p = Ok p1" "observe_all js defs tr lives p1 (n + 1) = Ok (p', n')"
      using Cons.prems True by (auto simp: bind_result_Inr)
    note step = observe_live_Ok [OF p1(1)] and IH = Cons.IH [OF p1(2)]
    have acc: "accepts_live tr p1 = accepts_live tr p"
      by (subst step(4)) (simp add: accepts_live_def fun_eq_iff)
    have "p1 \<lparr> sp_models := a, sp_observations := b \<rparr> = p \<lparr> sp_models := a, sp_observations := b \<rparr>" for a b
      by (subst step(4)) simp
    then have p': "p' = p \<lparr> sp_models := sp_models p', sp_observations := sp_observations p' \<rparr>"
      using IH by simp
    have "rows_extend (sp_models p) (sp_models p')" using rows_extend_trans step(1) IH by blast
    moreover have "distinct (map mr_id (sp_models p)) \<longrightarrow> distinct (map mr_id (sp_models p'))"
      using step(2) IH by blast
    moreover have "n' = n + length (filter (accepts_live tr p) (live # lives))"
      using IH True unfolding acc by simp
    moreover have "sp_observations p' w = sp_observations p w"
      if "w \<notin> lm_model ` set (filter (accepts_live tr p) (live # lives))" for w
    proof -
      have "w \<notin> lm_model ` set (filter (accepts_live tr p) lives)" "w \<noteq> lm_model live" using that True by auto
      then show ?thesis using IH step(3) unfolding acc by metis
    qed
    ultimately show ?thesis using p' by blast
  qed
qed

text \<open>
  C37. A synchronisation touches tracked models only, and only their observations. On
  success the number reported is the number of listed models that are tracked and not
  incompatible; observations of all other models stay as they were; every saved row keeps
  its identity, its definition key and its explicit settings, in order, and new rows have
  fresh identities and no settings of their own; connection, fallback and removed defaults
  are untouched.
\<close>
theorem sync_respects_tracking:
  assumes "sync_account js defs tr ft p = Ok (p', n)"
  shows "n = length (filter (accepts_live tr p') (ft_live ft))
    \<and> sp_incompatible p' = (sp_incompatible p \<union> set (ft_incompatible ft)) - set (ft_compatible ft)
    \<and> rows_extend (sp_models p) (sp_models p')
    \<and> (distinct (map mr_id (sp_models p)) \<longrightarrow> distinct (map mr_id (sp_models p')))
    \<and> (\<forall>w. w \<notin> lm_model ` set (filter (accepts_live tr p') (ft_live ft)) \<longrightarrow>
         sp_observations p' w = sp_observations p w)
    \<and> sp_connection p' = sp_connection p \<and> sp_fallback p' = sp_fallback p \<and> sp_removed p' = sp_removed p"
proof -
  let ?p = "p \<lparr> sp_incompatible := (sp_incompatible p \<union> set (ft_incompatible ft)) - set (ft_compatible ft) \<rparr>"
  note all = observe_all_Ok [OF assms [unfolded sync_account_def]]
  have p': "p' = ?p \<lparr> sp_models := sp_models p', sp_observations := sp_observations p' \<rparr>" using all by blast
  have acc: "accepts_live tr p' = accepts_live tr ?p"
    by (subst p') (simp add: accepts_live_def fun_eq_iff)
  have fields: "sp_incompatible p' = sp_incompatible ?p" "sp_connection p' = sp_connection ?p"
    "sp_fallback p' = sp_fallback ?p" "sp_removed p' = sp_removed ?p"
    by (subst p', simp)+
  show ?thesis
    using all unfolding acc fields by auto
qed

definition sample_live :: live_model where
  "sample_live = \<lparr> lm_features = None, lm_model = ''new'', lm_display_name = Some ''New'', lm_description = None,
     lm_context_window = Some 1000, lm_max_output = None \<rparr>"

theorem sync_respects_tracking_witness:
  "\<exists>p'. sync_account sample_json (catalog [''A'']) {''new''} (nothing_fetched \<lparr> ft_live := [sample_live] \<rparr>)
       (inherited sample_json (labelled [''A'']) (CallerDef ''a'')) = Ok (p', 1)
     \<and> rows_extend (sp_models (inherited sample_json (labelled [''A'']) (CallerDef ''a''))) (sp_models p')"
proof -
  obtain p' where p': "sync_account sample_json (catalog [''A'']) {''new''} (nothing_fetched \<lparr> ft_live := [sample_live] \<rparr>)
       (inherited sample_json (labelled [''A'']) (CallerDef ''a'')) = Ok (p', 1)"
    by (simp add: sync_account_def nothing_fetched_def sample_live_def accepts_live_def inherited_def
      observe_live_def account_rows_def definition_of_catalog definition_rows_def model_keys_def
      merged_rows_def adopt_rows_def adopt_moved_def unique_row_def row_keys_def map_filter_simps
      Let_def removed_default_def configure_row_def base_model_def row_model_def observe_model_def apply_values_def
      default_row_def row_id_def sample_json_def)
  from sync_respects_tracking [OF this] p' show ?thesis by blast
qed

end
