(* ===== verification/Config_Repository.thy ===== *)
theory Config_Repository
  imports Config_Sync Context_Policy
begin

text \<open>
  The saved configuration and its transactions (\<^verbatim>\<open>src/configuration/repository.rs\<close>,
  \<^verbatim>\<open>src/configuration/coordinator.rs\<close>, \<^verbatim>\<open>validate_profiles\<close> of
  \<^verbatim>\<open>src/client/builder.rs\<close>): what a file may hold, how it is read and written, and how
  a change becomes the next configuration.

  The file system is a map from directories to what their file holds. Parsing and printing
  bytes, the derived encoders (\<open>encode_config\<close>, \<open>decode_config\<close>), the names of the presets
  and the checks of service and image routes are parameters; every I/O failure is a value
  of \<open>faults\<close>.
\<close>

section \<open>The file\<close>

datatype config_file = NoFile | UnreadableFile message | NotJson message | JsonFile json

record store_env =
  se_json :: config_json
  encode_config :: "saved_config \<Rightarrow> json"
  decode_config :: "json \<Rightarrow> message + saved_config"
  se_builtin_name :: "string \<Rightarrow> bool"
  se_presets :: "store_error + provider_profile list"
  se_canonical :: "string \<Rightarrow> string"
  se_services :: "provider_profile \<Rightarrow> build_error + unit"
  se_plan :: "provider_profile \<Rightarrow> message + unit"
  se_price_bounds :: "price_boundary \<Rightarrow> message + u64 \<times> u64"
  se_codecs :: "protocol_family \<Rightarrow> bool"
  se_authenticators :: "auth_strategy \<Rightarrow> bool"
  se_directory :: "provider_profile \<Rightarrow> bool"
  se_region :: region
  se_panic :: message

record faults =
  cancelled_early :: bool
  open_failure :: "message option"
  lock_failure :: "message option"
  cancelled_late :: bool
  write_failure :: "message option"

definition io :: "message option \<Rightarrow> store_error + unit" where
  "io failure = (case failure of Some e \<Rightarrow> Err (StoreIo e) | None \<Rightarrow> Ok ())"

subsection \<open>Obsolete members\<close>

fun at_member :: "(json \<Rightarrow> json) \<Rightarrow> string \<Rightarrow> json \<Rightarrow> json" where
  "at_member f k (JObject kvs) = JObject (map (\<lambda>(k', v). (k', if k' = k then f v else v)) kvs)"
| "at_member f k v = v"

text \<open>
  \<^verbatim>\<open>Map::remove\<close> of an insertion-ordered map: the last entry takes the place of the
  removed one.
\<close>

definition swap_remove :: "string \<Rightarrow> (string \<times> json) list \<Rightarrow> (string \<times> json) list" where
  "swap_remove k kvs =
    (case find (\<lambda>(i, e). fst e = k) (enumerate 0 kvs) of
       None \<Rightarrow> kvs
     | Some (i, _) \<Rightarrow> butlast (kvs[i := last kvs]))"

fun drop_decisions :: "json \<Rightarrow> json" where
  "drop_decisions (JObject kvs) =
    (if Option.bind (Option.bind (map_of kvs ''decisions'') (\<lambda>d. jget d ''implementation'')) as_str
          = Some ''structured_output''
     then JObject (swap_remove ''decisions'' kvs) else JObject kvs)"
| "drop_decisions v = v"

fun clean_accounts :: "json \<Rightarrow> json" where
  "clean_accounts (JArray rows) =
    JArray (map (\<lambda>row. at_member drop_decisions ''fallback'' (at_member drop_decisions ''connection'' row)) rows)"
| "clean_accounts v = v"

definition remove_obsolete_decisions :: "json \<Rightarrow> json" where
  "remove_obsolete_decisions v = at_member clean_accounts ''providers'' v"

subsection \<open>What may be saved\<close>

definition eq_ignore_case :: "string \<Rightarrow> string \<Rightarrow> bool" where
  "eq_ignore_case a b \<longleftrightarrow> map ascii_lower a = map ascii_lower b"

definition reserved_headers :: "string list" where
  "reserved_headers = [''authorization'', ''proxy-authorization'', ''x-api-key'', ''x-goog-api-key'',
     ''api-key'', ''cookie'']"

definition is_credential_header :: "provider_profile \<Rightarrow> string \<Rightarrow> bool" where
  "is_credential_header p name \<longleftrightarrow>
     list_ex (\<lambda>reserved. eq_ignore_case reserved name) reserved_headers
     \<or> (case Option.bind (jget (extra p) ''credential_header'') as_str of
          Some custom \<Rightarrow> eq_ignore_case custom name | None \<Rightarrow> False)"

fun object_keys :: "json \<Rightarrow> string list" where
  "object_keys (JObject kvs) = map fst kvs"
| "object_keys _ = []"

definition reject_secrets :: "provider_profile \<Rightarrow> store_error + unit" where
  "reject_secrets p =
    (case credential p of
       CredStatic _ \<Rightarrow> Err (StaticCredential (profile_name p))
     | _ \<Rightarrow>
       if (case jget (extra p) ''headers'' of
             Some headers \<Rightarrow> list_ex (is_credential_header p) (object_keys headers)
           | None \<Rightarrow> False)
       then Err (CredentialHeader (profile_name p)) else Ok ())"

fun validate_accounts :: "string set \<Rightarrow> saved_profile list \<Rightarrow> store_error + unit" where
  "validate_accounts names [] = Ok ()"
| "validate_accounts names (p # ps) =
    (if account_name p \<in> names then Err (DuplicateProfile (account_name p))
     else bind_result (reject_secrets (sp_connection p)) (\<lambda>_.
       bind_result (reject_secrets (sp_fallback p)) (\<lambda>_.
       if \<not> distinct (map mr_id (sp_models p))
       then Err (InvalidModelOverride [Lit ''duplicate model row id''])
       else validate_accounts (insert (account_name p) names) ps)))"

definition validate_config :: "saved_config \<Rightarrow> store_error + unit" where
  "validate_config cfg = validate_accounts {} (cfg_providers cfg)"

subsection \<open>Reading and writing\<close>

definition saved_version :: "json \<Rightarrow> u64" where
  "saved_version v = (case Option.bind (jget v ''version'') as_u64 of Some n \<Rightarrow> n | None \<Rightarrow> 0)"

definition repo_read :: "store_env \<Rightarrow> config_file \<Rightarrow> store_error + saved_config" where
  "repo_read env file =
    (case file of
       NoFile \<Rightarrow> Ok default_config
     | UnreadableFile e \<Rightarrow> Err (StoreIo e)
     | NotJson e \<Rightarrow> Err (InvalidJson e)
     | JsonFile bytes \<Rightarrow>
         let v = remove_obsolete_decisions bytes in
         if saved_version v = 3
         then bind_result (map_err InvalidJson (decode_config env v)) (\<lambda>cfg.
              bind_result (validate_config cfg) (\<lambda>_. Ok cfg))
         else Err (UnsupportedVersion (ucast (saved_version v))))"

definition repo_write :: "store_env \<Rightarrow> faults \<Rightarrow> saved_config \<Rightarrow> store_error + config_file" where
  "repo_write env fl cfg =
    bind_result (validate_config cfg) (\<lambda>_.
    bind_result (io (write_failure fl)) (\<lambda>_.
      Ok (JsonFile (encode_config env (persisted cfg)))))"

section \<open>Validation of the profiles to publish\<close>

fun check_identities ::
  "store_env \<Rightarrow> string set \<Rightarrow> (string \<times> string) set \<Rightarrow> provider_profile list \<Rightarrow> build_error + unit" where
  "check_identities env seen conns [] = Ok ()"
| "check_identities env seen conns (p # ps) =
    bind_result (se_services env p) (\<lambda>_.
    if profile_name p \<in> seen then Err (DuplicateName (profile_name p))
    else (case cs_connection_id (connection p) of
            None \<Rightarrow> check_identities env (insert (profile_name p) seen) conns ps
          | Some c \<Rightarrow>
              if (group_of p, c) \<in> conns then Err (DuplicateConnectionId (group_of p) c)
              else check_identities env (insert (profile_name p) seen) (insert (group_of p, c) conns) ps))"

fun check_models :: "store_env \<Rightarrow> provider_profile \<Rightarrow> model_profile list \<Rightarrow> build_error + unit" where
  "check_models env p [] = Ok ()"
| "check_models env p (m # ms) =
    bind_result (case mm_context (metadata m) of
        Some c \<Rightarrow> map_err (\<lambda>reason. InvalidInference (profile_name p) [Lit reason]) (validate_context c)
      | None \<Rightarrow> Ok ()) (\<lambda>_.
    bind_result (case pricing m of
        Some prices \<Rightarrow> map_err (InvalidInference (profile_name p)) (validate_prices (se_price_bounds env) prices)
      | None \<Rightarrow> Ok ()) (\<lambda>_.
    let b = budget (on_connection (mi_features (info m)) (pi_features (profile_info p))) in
    if (case (min_tokens b, budget_support.max_tokens b) of (Some lo, Some hi) \<Rightarrow> hi < lo | _ \<Rightarrow> False)
    then Err (InvalidInference (profile_name p) [Lit ''empty thinking budget range''])
    else check_models env p ms))"

fun check_profiles :: "store_env \<Rightarrow> provider_profile list \<Rightarrow> build_error + unit" where
  "check_profiles env [] = Ok ()"
| "check_profiles env (p # ps) =
    bind_result (if auth_strategy p = ChatGptPlan
        then map_err (InvalidService (profile_name p)) (se_plan env p) else Ok ()) (\<lambda>_.
    if \<not> chat_enabled p \<and> models p \<noteq> []
    then Err (InvalidService (profile_name p) [Lit ''Chat-disabled profiles cannot declare Chat models''])
    else bind_result (check_models env p (models p)) (\<lambda>_.
    bind_result (case peak (profile_pricing p) of
        Some s \<Rightarrow> map_err (InvalidPeakSchedule (profile_name p)) (validate_schedule s) | None \<Rightarrow> Ok ()) (\<lambda>_.
    if chat_enabled p \<and> \<not> se_codecs env (protocol p)
    then Err (MissingCodec (profile_name p) (protocol p))
    else if chat_enabled p \<and> auth_strategy p \<noteq> NoAuth \<and> \<not> se_authenticators env (auth_strategy p)
    then Err (MissingAuthenticator (profile_name p) (auth_strategy p))
    else check_profiles env ps)))"

definition validate_profiles :: "store_env \<Rightarrow> provider_profile list \<Rightarrow> store_error + unit" where
  "validate_profiles env ps = map_err BuildFailed
    (bind_result (check_identities env {} {} ps) (\<lambda>_. check_profiles env ps))"

section \<open>The coordinator\<close>

record coordinator =
  co_definitions :: definitions
  co_state :: saved_config
  co_repository :: "string option"
  co_generation :: u64
  co_deleted_builtins :: "string set"

definition new_coordinator :: "definitions \<Rightarrow> coordinator" where
  "new_coordinator defs = \<lparr> co_definitions = defs, co_state = default_config, co_repository = None,
     co_generation = 0, co_deleted_builtins = {} \<rparr>"

definition co_install :: "store_env \<Rightarrow> coordinator \<Rightarrow> saved_config \<Rightarrow> coordinator" where
  "co_install env st cfg =
    st \<lparr> co_state := cfg, co_deleted_builtins := Set.filter (se_builtin_name env) (cfg_deleted cfg) \<rparr>"

definition cancelled :: "bool \<Rightarrow> string \<Rightarrow> store_error + unit" where
  "cancelled flag text = (if flag then Err (WorkerFailed [Lit text]) else Ok ())"

definition co_load ::
  "store_env \<Rightarrow> faults \<Rightarrow> (string \<Rightarrow> config_file) \<Rightarrow> string \<Rightarrow> coordinator
    \<Rightarrow> store_error + provider_profile list \<times> coordinator" where
  "co_load env fl files path st =
    bind_result (io (open_failure fl)) (\<lambda>_.
    bind_result (io (lock_failure fl)) (\<lambda>_.
    bind_result (repo_read env (files (se_canonical env path))) (\<lambda>cfg.
    bind_result (config_profiles (se_json env) (co_definitions st) cfg True) (\<lambda>ps.
    bind_result (validate_profiles env ps) (\<lambda>_.
    bind_result (cancelled (cancelled_late fl) ''configuration load was cancelled before publication'') (\<lambda>_.
    case checked_add (co_generation st) 1 of
      None \<Rightarrow> Err (WorkerFailed [Lit ''configuration directory generation exhausted''])
    | Some g \<Rightarrow> Ok (ps, co_install env
        (st \<lparr> co_repository := Some (se_canonical env path), co_generation := g \<rparr>) cfg)))))))"

text \<open>
  A transaction: what it writes is returned as the new content of the file; an error
  leaves the coordinator and the file as they were.
\<close>

definition commit ::
  "store_env \<Rightarrow> faults \<Rightarrow> coordinator \<Rightarrow> string \<Rightarrow> saved_config
    \<Rightarrow> store_error + provider_profile list \<times> config_file \<times> coordinator" where
  "commit env fl st cancel_text cfg1 =
    (let cfg = refresh_fallbacks (co_definitions st) cfg1 in
     bind_result (config_profiles (se_json env) (co_definitions st) cfg True) (\<lambda>ps.
     bind_result (validate_profiles env ps) (\<lambda>_.
     bind_result (cancelled (cancelled_late fl) cancel_text) (\<lambda>_.
     bind_result (repo_write env fl cfg) (\<lambda>file.
       Ok (ps, file, co_install env st cfg))))))"

definition co_update ::
  "store_env \<Rightarrow> faults \<Rightarrow> (saved_config \<Rightarrow> store_error + saved_config) \<Rightarrow> (string \<Rightarrow> config_file)
    \<Rightarrow> coordinator \<Rightarrow> store_error + provider_profile list \<times> (string \<times> config_file) \<times> coordinator" where
  "co_update env fl change files st =
    (case co_repository st of
       None \<Rightarrow> Err NotConfigured
     | Some path \<Rightarrow>
         bind_result (io (lock_failure fl)) (\<lambda>_.
         bind_result (repo_read env (files path)) (\<lambda>cfg0.
         bind_result (change (ensure_definitions (se_json env) (co_definitions st)
            (reconcile_session (co_state st) cfg0))) (\<lambda>cfg1.
         bind_result (commit env fl st ''configuration operation was cancelled before commit'' cfg1)
           (\<lambda>(ps, file, st1). Ok (ps, (path, file), st1))))))"

definition find_account :: "saved_config \<Rightarrow> string \<Rightarrow> store_error + saved_profile" where
  "find_account cfg name =
    (if name \<in> cfg_deleted cfg then Err (UnknownProfile name)
     else (case account name (cfg_providers cfg) of
             Some p \<Rightarrow> Ok p | None \<Rightarrow> Err (UnknownProfile name)))"

definition configured_models :: "store_env \<Rightarrow> coordinator \<Rightarrow> string \<Rightarrow> store_error + configured_model list" where
  "configured_models env st name =
    (if name \<in> cfg_deleted (co_state st) then Err (UnknownProfile name)
     else (case account name (cfg_providers (co_state st)) of
             Some p \<Rightarrow> account_rows (se_json env) (co_definitions st) p
           | None \<Rightarrow>
               (case find (\<lambda>p. profile_name p = name) (def_caller (co_definitions st)) of
                  Some d \<Rightarrow> account_rows (se_json env) (co_definitions st)
                    (inherited (se_json env) d (def_reference (co_definitions st) name))
                | None \<Rightarrow> Err (UnknownProfile name))))"

section \<open>Lemmas\<close>

subsection \<open>What validation establishes\<close>

definition no_secrets :: "provider_profile \<Rightarrow> bool" where
  "no_secrets p \<longleftrightarrow> (\<forall>s. credential p \<noteq> CredStatic s)
     \<and> (\<forall>headers h. jget (extra p) ''headers'' = Some headers \<longrightarrow> h \<in> set (object_keys headers)
          \<longrightarrow> \<not> is_credential_header p h)"

definition config_ok :: "saved_config \<Rightarrow> bool" where
  "config_ok cfg \<longleftrightarrow> distinct (map account_name (cfg_providers cfg))
     \<and> (\<forall>p \<in> set (cfg_providers cfg). no_secrets (sp_connection p) \<and> no_secrets (sp_fallback p)
          \<and> distinct (map mr_id (sp_models p)))"

lemma reject_secrets_Ok: "reject_secrets p = Ok () \<longleftrightarrow> no_secrets p"
  by (auto simp: reject_secrets_def no_secrets_def list_ex_iff split: credential_config.splits option.splits)

lemma validate_accounts_Ok:
  "validate_accounts names ps = Ok () \<longleftrightarrow>
    distinct (map account_name ps) \<and> names \<inter> account_name ` set ps = {}
    \<and> (\<forall>p \<in> set ps. no_secrets (sp_connection p) \<and> no_secrets (sp_fallback p) \<and> distinct (map mr_id (sp_models p)))"
  by (induction ps arbitrary: names) (auto simp: bind_result_Inr reject_secrets_Ok split: if_splits)

lemma validate_config_Ok: "validate_config cfg = Ok () \<longleftrightarrow> config_ok cfg"
  by (simp add: validate_config_def validate_accounts_Ok config_ok_def)

lemma config_ok_default: "config_ok default_config"
  by (simp add: config_ok_def default_config_def)

lemma no_secrets_file [simp]: "no_secrets (file_connection p) = no_secrets p"
  by (simp add: no_secrets_def is_credential_header_def)

lemma no_secrets_models [simp]: "no_secrets (p \<lparr> models := ms \<rparr>) = no_secrets p"
  by (simp add: no_secrets_def is_credential_header_def)

lemma config_ok_persisted: "config_ok cfg \<Longrightarrow> config_ok (persisted cfg)"
  by (simp add: config_ok_def persisted_def comp_def) (auto simp: persisted_profile_def intro: distinct_map_filter)

lemma config_ok_file: "config_ok cfg \<Longrightarrow> config_ok (file_config cfg)"
  by (simp add: config_ok_def file_config_def comp_def) (auto simp: file_profile_def comp_def)

subsection \<open>Reading and writing\<close>

lemma repo_read_ok: "repo_read env file = Ok cfg \<Longrightarrow> config_ok cfg"
  by (auto simp: repo_read_def config_ok_default bind_result_Inr validate_config_Ok Let_def
      split: config_file.splits if_splits)

lemma repo_write_Ok:
  "repo_write env fl cfg = Ok file \<longleftrightarrow>
    config_ok cfg \<and> write_failure fl = None \<and> file = JsonFile (encode_config env (persisted cfg))"
  by (auto simp: repo_write_def bind_result_Inr validate_config_Ok io_def split: option.splits)

text \<open>
  What was written can be read again. When the encoders agree with their derivation (a
  version 3 document that decodes to the configuration without its provenance), a
  configuration that was written is never refused by a later read for a duplicate, a
  secret or its version, and reading gives back what the file keeps of it.
\<close>
theorem written_file_reads_back:
  assumes "repo_write env fl cfg = Ok (JsonFile bytes)"
    and "saved_version (remove_obsolete_decisions (encode_config env (persisted cfg))) = 3"
    and "decode_config env (remove_obsolete_decisions (encode_config env (persisted cfg)))
          = Ok (file_config (persisted cfg))"
  shows "repo_read env (JsonFile bytes) = Ok (file_config (persisted cfg))"
proof -
  have "config_ok (file_config (persisted cfg))" and bytes: "bytes = encode_config env (persisted cfg)"
    using assms(1) by (auto simp: repo_write_Ok intro: config_ok_file config_ok_persisted)
  then have "validate_config (file_config (persisted cfg)) = Ok ()" by (simp add: validate_config_Ok)
  then show ?thesis unfolding bytes using assms(2,3) by (simp add: repo_read_def Let_def)
qed

subsection \<open>Published names\<close>

lemma check_identities_distinct:
  "check_identities env seen conns ps = Ok () \<Longrightarrow>
    distinct (map profile_name ps) \<and> seen \<inter> profile_name ` set ps = {}"
proof (induction ps arbitrary: seen conns)
  case (Cons p ps)
  have fresh: "profile_name p \<notin> seen" using Cons.prems by (auto simp: bind_result_Inr)
  obtain conns' where "check_identities env (insert (profile_name p) seen) conns' ps = Ok ()"
    using Cons.prems by (auto simp: bind_result_Inr split: if_splits option.splits)
  from Cons.IH [OF this] fresh show ?case by auto
qed simp

lemma validate_profiles_distinct: "validate_profiles env ps = Ok () \<Longrightarrow> distinct (map profile_name ps)"
  using check_identities_distinct by (auto simp: validate_profiles_def bind_result_Inr)

subsection \<open>Transactions\<close>

lemma cancelled_Ok [simp]: "cancelled flag text = Ok u \<longleftrightarrow> \<not> flag"
  by (simp add: cancelled_def)

lemma co_install_simps [simp]:
  "co_state (co_install env st cfg) = cfg"
  "co_repository (co_install env st cfg) = co_repository st"
  "co_generation (co_install env st cfg) = co_generation st"
  "co_definitions (co_install env st cfg) = co_definitions st"
  by (simp_all add: co_install_def)

lemma commit_Ok:
  assumes "commit env fl st text cfg1 = Ok (ps, file, st')"
  shows "config_ok (co_state st')" and "file = JsonFile (encode_config env (persisted (co_state st')))"
    and "co_state st' = refresh_fallbacks (co_definitions st) cfg1"
    and "config_profiles (se_json env) (co_definitions st) (co_state st') True = Ok ps"
    and "validate_profiles env ps = Ok ()"
    and "co_definitions st' = co_definitions st" "co_repository st' = co_repository st"
      "co_generation st' = co_generation st"
  using assms by (auto simp: commit_def Let_def bind_result_Inr repo_write_Ok)

lemma co_update_Ok:
  assumes "co_update env fl change files st = Ok (ps, (path, file), st')"
  shows "\<exists>cfg0 cfg1. repo_read env (files path) = Ok cfg0
      \<and> change (ensure_definitions (se_json env) (co_definitions st) (reconcile_session (co_state st) cfg0)) = Ok cfg1
      \<and> commit env fl st ''configuration operation was cancelled before commit'' cfg1 = Ok (ps, file, st')"
    and "co_repository st = Some path"
  using assms by (auto simp: co_update_def bind_result_Inr split: option.splits)

lemma co_load_Ok:
  assumes "co_load env fl files path st = Ok (ps, st')"
  shows "config_ok (co_state st')"
    and "config_profiles (se_json env) (co_definitions st) (co_state st') True = Ok ps"
    and "validate_profiles env ps = Ok ()"
    and "unat (co_generation st') = unat (co_generation st) + 1"
    and "co_definitions st' = co_definitions st"
proof -
  obtain cfg where cfg: "repo_read env (files (se_canonical env path)) = Ok cfg"
    "config_profiles (se_json env) (co_definitions st) cfg True = Ok ps" "validate_profiles env ps = Ok ()"
    and g: "(case checked_add (co_generation st) 1 of
      None \<Rightarrow> Err (WorkerFailed [Lit ''configuration directory generation exhausted''])
    | Some g \<Rightarrow> Ok (ps, co_install env
        (st \<lparr> co_repository := Some (se_canonical env path), co_generation := g \<rparr>) cfg)) = Ok (ps, st')"
    using assms by (auto simp: co_load_def bind_result_Inr split: option.splits)
  obtain g where g: "checked_add (co_generation st) 1 = Some g"
    "st' = co_install env (st \<lparr> co_repository := Some (se_canonical env path), co_generation := g \<rparr>) cfg"
    using g by (cases "checked_add (co_generation st) 1") auto
  show "config_ok (co_state st')" using repo_read_ok [OF cfg(1)] g(2) by simp
  show "config_profiles (se_json env) (co_definitions st) (co_state st') True = Ok ps" using cfg(2) g(2) by simp
  show "validate_profiles env ps = Ok ()" by (rule cfg(3))
  show "unat (co_generation st') = unat (co_generation st) + 1" using g by (simp add: checked_add_Some)
  show "co_definitions st' = co_definitions st" using g(2) by simp
qed

end
