(* ===== verification/Config_Publish.thy ===== *)
theory Config_Publish
  imports Config_Repository
begin

text \<open>
  The configuration writer of a shared client (\<^verbatim>\<open>src/client/store.rs\<close>,
  \<^verbatim>\<open>src/account/service.rs\<close> and the first publication of \<^verbatim>\<open>src/client/builder.rs\<close>):
  each operation of \<^verbatim>\<open>ClientConfigManager\<close> as a change of the saved configuration, the
  publication of the resulting profiles, and a step relation in which these operations
  interleave with other processes that write the same files.

  An operation runs alone: the writer's mutex orders them. A panic while publishing is
  caught by the worker and returned as an error; the store it had changed stays changed.
\<close>

section \<open>What is published\<close>

datatype account_identity = ApiKeyIdentity | AuthUserIdentity

type_synonym account_sources = "((string \<times> account_identity) \<times> nat) list"

record account_registry =
  rg_providers :: account_sources
  rg_profiles :: account_sources
  rg_invalidated :: "(string \<times> account_identity) set"

definition reg_bind :: "string \<Rightarrow> account_identity \<Rightarrow> nat \<Rightarrow> account_registry \<Rightarrow> account_registry" where
  "reg_bind name i source r =
    r \<lparr> rg_profiles := filter (\<lambda>e. fst e \<noteq> (name, i)) (rg_profiles r) @ [((name, i), source)] \<rparr>"

definition reg_invalidate :: "string set \<Rightarrow> string set \<Rightarrow> bool \<Rightarrow> account_registry \<Rightarrow> account_registry" where
  "reg_invalidate names providers everything r =
    r \<lparr> rg_profiles := filter (\<lambda>e. \<not> everything \<and> fst (fst e) \<notin> names) (rg_profiles r),
        rg_invalidated := rg_invalidated r
          \<union> set (map fst (filter (\<lambda>e. everything \<or> fst (fst e) \<in> providers) (rg_providers r))) \<rparr>"

record published =
  pb_revision :: u64
  pb_config :: runtime_snapshot
  pb_registry :: account_registry
  pb_namespace :: u64
  pb_generations :: "string \<Rightarrow> u64 option"

definition profile_named :: "string \<Rightarrow> provider_profile list \<Rightarrow> provider_profile option" where
  "profile_named n ps = find (\<lambda>p. profile_name p = n) ps"

definition changed_profiles :: "provider_profile list \<Rightarrow> provider_profile list \<Rightarrow> string set" where
  "changed_profiles old new =
    set (filter (\<lambda>n. profile_named n old \<noteq> profile_named n new) (map profile_name (old @ new)))"

definition keeps_connection :: "provider_profile option \<Rightarrow> provider_profile option \<Rightarrow> bool" where
  "keeps_connection a b = (case (a, b) of (Some x, Some y) \<Rightarrow> same_connection x y | _ \<Rightarrow> False)"

definition changed_connections :: "provider_profile list \<Rightarrow> provider_profile list \<Rightarrow> string set" where
  "changed_connections old new =
    set (filter (\<lambda>n. \<not> keeps_connection (profile_named n old) (profile_named n new)) (map profile_name (old @ new)))"

definition publish ::
  "store_env \<Rightarrow> coordinator \<Rightarrow> published \<Rightarrow> provider_profile list \<Rightarrow> bool \<Rightarrow> string option \<Rightarrow> published option" where
  "publish env st pb ps switched forced =
    Option.bind (checked_add (pb_revision pb) 1) (\<lambda>revision.
      let old = profiles (pb_config pb);
          changed = changed_profiles old ps;
          connections = changed_connections old ps \<union> set_option forced;
          providers = set (map provider_id (filter (\<lambda>p. profile_name p \<in> connections) (old @ ps)));
          marked = (\<lambda>n. if n \<in> changed then Some revision else pb_generations pb n);
          kept = (\<lambda>n. if n \<in> profile_name ` set ps then marked n else None) in
      Option.bind (if switched then checked_add (pb_namespace pb) 1 else Some (pb_namespace pb)) (\<lambda>namespace.
        Some \<lparr> pb_revision = revision,
               pb_config = new_snapshot (se_region env) ps (Some (cfg_tracked (co_state st))),
               pb_registry = reg_invalidate connections providers switched (pb_registry pb),
               pb_namespace = namespace,
               pb_generations = kept \<rparr>))"

definition first_publication :: "store_env \<Rightarrow> provider_profile list \<Rightarrow> account_sources \<Rightarrow> account_sources \<Rightarrow> published" where
  "first_publication env ps by_provider by_profile =
    \<lparr> pb_revision = 1, pb_config = new_snapshot (se_region env) ps None,
      pb_registry = \<lparr> rg_providers = by_provider, rg_profiles = by_profile, rg_invalidated = {} \<rparr>,
      pb_namespace = 1,
      pb_generations = (\<lambda>n. if n \<in> profile_name ` set ps then Some 1 else None) \<rparr>"

section \<open>Changes of the saved configuration\<close>

fun map_first :: "('a \<Rightarrow> bool) \<Rightarrow> ('a \<Rightarrow> 'a) \<Rightarrow> 'a list \<Rightarrow> 'a list" where
  "map_first P f [] = []"
| "map_first P f (x # xs) = (if P x then f x # xs else x # map_first P f xs)"

definition put_account :: "saved_profile \<Rightarrow> saved_config \<Rightarrow> saved_config" where
  "put_account p cfg =
    cfg \<lparr> cfg_providers := map_first (\<lambda>q. account_name q = account_name p) (\<lambda>_. p) (cfg_providers cfg) \<rparr>"

definition put_row :: "string \<Rightarrow> (model_row \<Rightarrow> model_row) \<Rightarrow> saved_profile \<Rightarrow> saved_profile" where
  "put_row rid f p = p \<lparr> sp_models := map_first (\<lambda>r. mr_id r = rid) f (sp_models p) \<rparr>"

definition set_default_protocol ::
  "string \<Rightarrow> protocol_family option \<Rightarrow> saved_config \<Rightarrow> store_error + saved_config" where
  "set_default_protocol name proto cfg =
    bind_result (find_account cfg name) (\<lambda>p.
      let conn = sp_connection p in
      if (case proto of
            Some f \<Rightarrow> f \<noteq> protocol conn \<and> f \<notin> fst ` set (protocol_profiles (connection conn))
          | None \<Rightarrow> False)
      then Err (InvalidModelOverride [Lit ''default format is not declared by this account''])
      else Ok (put_account (p \<lparr> sp_connection :=
             conn \<lparr> connection := (connection conn) \<lparr> default_protocol := proto \<rparr> \<rparr> \<rparr>) cfg))"

definition install_account :: "saved_profile \<Rightarrow> saved_config \<Rightarrow> saved_config" where
  "install_account p cfg =
    (let name = account_name p;
         placed = (if list_ex (\<lambda>q. account_name q = name) (cfg_providers cfg)
                   then put_account p cfg
                   else cfg \<lparr> cfg_providers := cfg_providers cfg @ [p] \<rparr>) in
     placed \<lparr> cfg_deleted := cfg_deleted cfg - {name} \<rparr>)"

definition add_provider ::
  "store_env \<Rightarrow> definitions \<Rightarrow> provider_profile \<Rightarrow> saved_config \<Rightarrow> store_error + saved_config" where
  "add_provider env defs p cfg =
    Ok (install_account (replacement (se_json env) p (def_reference defs (profile_name p))) cfg)"

definition restore_builtin :: "store_env \<Rightarrow> string \<Rightarrow> saved_config \<Rightarrow> store_error + saved_config" where
  "restore_builtin env name cfg =
    bind_result (se_presets env) (\<lambda>presets.
      case profile_named name presets of
        None \<Rightarrow> Err (NotBuiltin name)
      | Some preset \<Rightarrow> Ok (install_account (inherited (se_json env) preset (BuiltinDef name)) cfg))"

definition remove_provider :: "string \<Rightarrow> saved_config \<Rightarrow> store_error + saved_config" where
  "remove_provider name cfg =
    bind_result (find_account cfg name) (\<lambda>_.
      Ok (cfg \<lparr> cfg_providers := filter (\<lambda>p. account_name p \<noteq> name) (cfg_providers cfg),
                cfg_deleted := insert name (cfg_deleted cfg) \<rparr>))"

definition set_tracked_models :: "string \<Rightarrow> string list \<Rightarrow> saved_config \<Rightarrow> store_error + saved_config" where
  "set_tracked_models provider ids cfg = Ok (cfg \<lparr> cfg_tracked := (cfg_tracked cfg)(provider \<mapsto> set ids) \<rparr>)"

definition untrack_model :: "string \<Rightarrow> string \<Rightarrow> saved_config \<Rightarrow> store_error + saved_config" where
  "untrack_model provider m cfg =
    (case cfg_tracked cfg provider of
       Some ids \<Rightarrow>
         if m \<in> ids then Ok (cfg \<lparr> cfg_tracked := (cfg_tracked cfg)(provider \<mapsto> ids - {m}) \<rparr>)
         else Err (UntrackedModel provider m)
     | None \<Rightarrow> Err (UntrackedModel provider m))"

definition set_model_visibility ::
  "store_env \<Rightarrow> definitions \<Rightarrow> string \<Rightarrow> string \<Rightarrow> bool \<Rightarrow> saved_config \<Rightarrow> store_error + saved_config" where
  "set_model_visibility env defs name wire visible cfg =
    bind_result (find_account cfg name) (\<lambda>p.
    bind_result (account_rows (se_json env) defs p) (\<lambda>rows.
      case filter (\<lambda>r. request_model (cm_model r) = wire \<and> cm_compatible r) rows of
        [] \<Rightarrow> Err (UnknownModelRow name wire)
      | [row] \<Rightarrow>
          bind_result (ensure_row (se_json env) defs (cm_row_id row) p) (\<lambda>p1.
            Ok (put_account (put_row (cm_row_id row)
              (\<lambda>r. r \<lparr> mr_overrides := (mr_overrides r)(HiddenField \<mapsto> JBool (\<not> visible)) \<rparr>) p1) cfg))
      | _ \<Rightarrow> Err (InvalidModelOverride [Lit ''wire model matches multiple rows; select a row ID''])))"

definition override_row :: "store_env \<Rightarrow> model_field \<Rightarrow> json field_override \<Rightarrow> string \<Rightarrow> model_row \<Rightarrow> model_row" where
  "override_row env field setting wire r =
    (case setting of
       InheritField \<Rightarrow> r \<lparr> mr_overrides := (mr_overrides r)(field := None) \<rparr>
     | SetField v \<Rightarrow> r \<lparr> mr_overrides := (mr_overrides r)(field \<mapsto> v) \<rparr>
     | ClearField \<Rightarrow>
         r \<lparr> mr_overrides := (mr_overrides r)(field := all_values (se_json env) (empty_model wire) field) \<rparr>)"

definition set_model_override ::
  "store_env \<Rightarrow> definitions \<Rightarrow> string \<Rightarrow> string \<Rightarrow> model_field \<Rightarrow> json field_override
    \<Rightarrow> saved_config \<Rightarrow> store_error + saved_config" where
  "set_model_override env defs name rid field setting cfg =
    bind_result (find_account cfg name) (\<lambda>p.
    bind_result (account_rows (se_json env) defs p) (\<lambda>rows.
      case find (\<lambda>r. cm_row_id r = rid) rows of
        None \<Rightarrow> Err (UnknownModelRow name rid)
      | Some current \<Rightarrow>
          bind_result (ensure_row (se_json env) defs rid p) (\<lambda>p1.
            let p2 = put_row rid (override_row env field setting (request_model (cm_model current))) p1 in
            bind_result (account_rows (se_json env) defs p2) (\<lambda>_. Ok (put_account p2 cfg)))))"

definition replaced_row :: "store_env \<Rightarrow> model_profile \<Rightarrow> model_row \<Rightarrow> model_row" where
  "replaced_row env m r = r \<lparr> mr_replacement := True, mr_initial := Some (empty_model (request_model m)),
     mr_overrides := all_values (se_json env) m \<rparr>"

definition replace_model ::
  "store_env \<Rightarrow> definitions \<Rightarrow> string \<Rightarrow> string \<Rightarrow> model_profile \<Rightarrow> saved_config \<Rightarrow> store_error + saved_config" where
  "replace_model env defs name rid m cfg =
    bind_result (find_account cfg name) (\<lambda>p.
    bind_result (account_rows (se_json env) defs p) (\<lambda>rows.
      if \<not> list_ex (\<lambda>r. cm_row_id r = rid) rows then Err (UnknownModelRow name rid)
      else bind_result (ensure_row (se_json env) defs rid p) (\<lambda>p1.
        let p2 = (case find (\<lambda>r. mr_id r = rid) (sp_models p1) of
                    Some r \<Rightarrow> (case mr_key r of
                        Some k \<Rightarrow> p1 \<lparr> sp_removed := insert k (sp_removed p1) \<rparr> | None \<Rightarrow> p1)
                  | None \<Rightarrow> p1) in
        bind_result (ensure_row (se_json env) defs rid p2) (\<lambda>p3.
          Ok (put_account (put_row rid (replaced_row env m) p3) cfg)))))"

section \<open>Operations of the manager\<close>

record store_world =
  sw_files :: "string \<Rightarrow> config_file"
  sw_store :: coordinator
  sw_published :: published

type_synonym 'a outcome = "(store_error + 'a) \<times> store_world"

definition finish_publish ::
  "store_env \<Rightarrow> provider_profile list \<Rightarrow> bool \<Rightarrow> string option \<Rightarrow> 'a \<Rightarrow> store_world \<Rightarrow> 'a outcome" where
  "finish_publish env ps switched forced x w =
    (case publish env (sw_store w) (sw_published w) ps switched forced of
       None \<Rightarrow> (Err (WorkerFailed (se_panic env)), w)
     | Some pb \<Rightarrow> (Ok x, w \<lparr> sw_published := pb \<rparr>))"

definition cancelled_before :: "store_error" where
  "cancelled_before = WorkerFailed [Lit ''configuration operation was cancelled before commit'']"

definition update_configuration ::
  "store_env \<Rightarrow> faults \<Rightarrow> string option \<Rightarrow> (definitions \<Rightarrow> saved_config \<Rightarrow> store_error + saved_config)
    \<Rightarrow> store_world \<Rightarrow> nat outcome" where
  "update_configuration env fl forced change w =
    (if cancelled_early fl then (Err cancelled_before, w)
     else (case co_update env fl (change (co_definitions (sw_store w))) (sw_files w) (sw_store w) of
             Inl e \<Rightarrow> (Err e, w)
           | Inr (ps, (path, file), st) \<Rightarrow>
               finish_publish env ps False forced 0
                 (w \<lparr> sw_files := (sw_files w)(path := file), sw_store := st \<rparr>)))"

definition set_config_dir :: "store_env \<Rightarrow> faults \<Rightarrow> string \<Rightarrow> store_world \<Rightarrow> nat outcome" where
  "set_config_dir env fl path w =
    (if cancelled_early fl then (Err cancelled_before, w)
     else (case co_load env fl (sw_files w) path (sw_store w) of
             Inl e \<Rightarrow> (Err e, w)
           | Inr (ps, st) \<Rightarrow>
               finish_publish env ps
                 (case co_repository (sw_store w) of Some old \<Rightarrow> Some old \<noteq> co_repository st | None \<Rightarrow> False)
                 None 0 (w \<lparr> sw_store := st \<rparr>)))"

definition published_profile :: "published \<Rightarrow> string \<Rightarrow> provider_profile option" where
  "published_profile pb name = map_option (profile_at (pb_config pb)) (named_profile (pb_config pb) name)"

definition register_profile_account_source ::
  "store_env \<Rightarrow> faults \<Rightarrow> string \<Rightarrow> account_identity \<Rightarrow> nat \<Rightarrow> store_world \<Rightarrow> nat outcome" where
  "register_profile_account_source env fl name i source w =
    (if cancelled_early fl then (Err cancelled_before, w)
     else if published_profile (sw_published w) name = None then (Err (UnknownProfile name), w)
     else (case checked_add (pb_revision (sw_published w)) 1 of
             None \<Rightarrow> (Err (WorkerFailed (se_panic env)), w)
           | Some revision \<Rightarrow>
               (Ok 0, w \<lparr> sw_published := (sw_published w)
                  \<lparr> pb_revision := revision, pb_registry := reg_bind name i source (pb_registry (sw_published w)) \<rparr> \<rparr>)))"

subsection \<open>Synchronisation with a model directory\<close>

record sync_operation =
  so_path :: string
  so_generation :: u64
  so_source :: provider_profile

record sync_result =
  sr_operation :: sync_operation
  sr_fetched :: fetched

definition prepare_provider_sync ::
  "store_env \<Rightarrow> faults \<Rightarrow> string \<Rightarrow> store_world \<Rightarrow> store_error + sync_operation" where
  "prepare_provider_sync env fl name w =
    (if cancelled_early fl then Err cancelled_before
     else (case co_repository (sw_store w) of
             None \<Rightarrow> Err NotConfigured
           | Some path \<Rightarrow>
               (case published_profile (sw_published w) name of
                  None \<Rightarrow> Err (UnknownProfile name)
                | Some source \<Rightarrow>
                    if \<not> se_directory env source then Err (NoDirectory name)
                    else if auth_strategy source \<noteq> NoAuth \<and> \<not> se_authenticators env (auth_strategy source)
                    then Err (BuildFailed (MissingAuthenticator name (auth_strategy source)))
                    else Ok \<lparr> so_path = path, so_generation = co_generation (sw_store w), so_source = source \<rparr>)))"

definition current_connection :: "provider_profile list \<Rightarrow> provider_profile \<Rightarrow> store_error + unit" where
  "current_connection ps source =
    (case profile_named (profile_name source) ps of
       None \<Rightarrow> Err (UnknownProfile (profile_name source))
     | Some p \<Rightarrow> if same_connection p source then Ok () else Err (ProfileChanged (profile_name source)))"

definition fetch_provider_sync ::
  "store_env \<Rightarrow> faults \<Rightarrow> (nat \<Rightarrow> string option \<Rightarrow> store_error + directory_page)
    \<Rightarrow> definitions \<Rightarrow> (string \<Rightarrow> config_file) \<Rightarrow> sync_operation \<Rightarrow> store_error + sync_result" where
  "fetch_provider_sync env fl answer defs files op =
    bind_result (io (lock_failure fl)) (\<lambda>_.
    bind_result (repo_read env (files (so_path op))) (\<lambda>cfg.
    bind_result (config_profiles (se_json env) defs cfg False) (\<lambda>ps.
    bind_result (current_connection ps (so_source op)) (\<lambda>_.
    bind_result (fetch_pages answer) (\<lambda>ft. Ok \<lparr> sr_operation = op, sr_fetched = ft \<rparr>)))))"

definition commit_sync ::
  "store_env \<Rightarrow> faults \<Rightarrow> sync_result \<Rightarrow> (string \<Rightarrow> config_file) \<Rightarrow> coordinator
    \<Rightarrow> store_error + nat \<times> provider_profile list \<times> config_file \<times> coordinator" where
  "commit_sync env fl r files st =
    (let js = se_json env; defs = co_definitions st; source = so_source (sr_operation r) in
     bind_result (io (lock_failure fl)) (\<lambda>_.
     bind_result (repo_read env (files (so_path (sr_operation r)))) (\<lambda>cfg0.
     let cfg = ensure_definitions js defs (reconcile_session (co_state st) cfg0);
         ids = (case cfg_tracked cfg (provider_id source) of Some ids \<Rightarrow> ids | None \<Rightarrow> {}) in
     bind_result (config_profiles js defs cfg False) (\<lambda>ps.
     bind_result (current_connection ps source) (\<lambda>_.
     bind_result (find_account cfg (profile_name source)) (\<lambda>p.
     bind_result (sync_account js defs ids (sr_fetched r) p) (\<lambda>(p1, count).
     bind_result (commit env fl st ''provider sync was cancelled before commit'' (put_account p1 cfg))
       (\<lambda>(ps1, file, st1). Ok (count, ps1, file, st1)))))))))"

definition apply_provider_sync :: "store_env \<Rightarrow> faults \<Rightarrow> sync_result \<Rightarrow> store_world \<Rightarrow> nat outcome" where
  "apply_provider_sync env fl r w =
    (let op = sr_operation r; name = profile_name (so_source op) in
     if cancelled_early fl then (Err cancelled_before, w)
     else if co_repository (sw_store w) \<noteq> Some (so_path op)
        \<or> co_generation (sw_store w) \<noteq> so_generation op
        \<or> \<not> keeps_connection (published_profile (sw_published w) name) (Some (so_source op))
     then (Err (ProfileChanged name), w)
     else (case commit_sync env fl r (sw_files w) (sw_store w) of
             Inl e \<Rightarrow> (Err e, w)
           | Inr (count, ps, file, st) \<Rightarrow>
               finish_publish env ps False None count
                 (w \<lparr> sw_files := (sw_files w)(so_path op := file), sw_store := st \<rparr>)))"

section \<open>All operations, and other writers\<close>

datatype store_op =
    SetConfigDir string
  | SetDefaultProtocol string "protocol_family option"
  | AddProvider provider_profile
  | RemoveProvider string
  | RestoreBuiltin string
  | SetTrackedModels string "string list"
  | UntrackModel string string
  | SetModelVisibility string string bool
  | SetModelOverride string string model_field "json field_override"
  | ReplaceModel string string model_profile
  | RegisterSource string account_identity nat
  | ApplySync sync_result

fun run_op :: "store_env \<Rightarrow> faults \<Rightarrow> store_op \<Rightarrow> store_world \<Rightarrow> nat outcome" where
  "run_op env fl (SetConfigDir path) w = set_config_dir env fl path w"
| "run_op env fl (SetDefaultProtocol n f) w =
    update_configuration env fl (Some n) (\<lambda>_. set_default_protocol n f) w"
| "run_op env fl (AddProvider p) w =
    update_configuration env fl (Some (profile_name p)) (\<lambda>defs. add_provider env defs p) w"
| "run_op env fl (RemoveProvider n) w = update_configuration env fl None (\<lambda>_. remove_provider n) w"
| "run_op env fl (RestoreBuiltin n) w = update_configuration env fl (Some n) (\<lambda>_. restore_builtin env n) w"
| "run_op env fl (SetTrackedModels v ids) w = update_configuration env fl None (\<lambda>_. set_tracked_models v ids) w"
| "run_op env fl (UntrackModel v m) w = update_configuration env fl None (\<lambda>_. untrack_model v m) w"
| "run_op env fl (SetModelVisibility n wire v) w =
    update_configuration env fl None (\<lambda>defs. set_model_visibility env defs n wire v) w"
| "run_op env fl (SetModelOverride n rid f v) w =
    update_configuration env fl None (\<lambda>defs. set_model_override env defs n rid f v) w"
| "run_op env fl (ReplaceModel n rid m) w =
    update_configuration env fl None (\<lambda>defs. replace_model env defs n rid m) w"
| "run_op env fl (RegisterSource n i source) w = register_profile_account_source env fl n i source w"
| "run_op env fl (ApplySync r) w = apply_provider_sync env fl r w"

definition first_world ::
  "store_env \<Rightarrow> (string \<Rightarrow> config_file) \<Rightarrow> definitions \<Rightarrow> provider_profile list \<Rightarrow> account_sources
    \<Rightarrow> account_sources \<Rightarrow> store_world" where
  "first_world env files defs ps by_provider by_profile =
    \<lparr> sw_files = files, sw_store = new_coordinator defs,
      sw_published = first_publication env ps by_provider by_profile \<rparr>"

inductive store_step :: "store_env \<Rightarrow> store_world \<Rightarrow> store_world \<Rightarrow> bool" for env where
  operation: "store_step env w (snd (run_op env fl op w))"
| other_writer: "store_step env w (w \<lparr> sw_files := (sw_files w)(path := file) \<rparr>)"

abbreviation store_steps :: "store_env \<Rightarrow> store_world \<Rightarrow> store_world \<Rightarrow> bool" where
  "store_steps env \<equiv> (store_step env)\<^sup>*\<^sup>*"

inductive_cases store_stepE: "store_step env w w'"

section \<open>Lemmas\<close>

subsection \<open>What an operation can do\<close>

definition transacted :: "store_env \<Rightarrow> store_world \<Rightarrow> store_world \<Rightarrow> provider_profile list \<Rightarrow> bool" where
  "transacted env w w1 ps \<longleftrightarrow>
     sw_published w1 = sw_published w \<and> config_ok (co_state (sw_store w1))
     \<and> config_profiles (se_json env) (co_definitions (sw_store w1)) (co_state (sw_store w1)) True = Ok ps
     \<and> validate_profiles env ps = Ok ()
     \<and> unat (co_generation (sw_store w)) \<le> unat (co_generation (sw_store w1))
     \<and> (sw_files w1 = sw_files w
        \<or> (\<exists>path. sw_files w1 = (sw_files w)(path := JsonFile (encode_config env (persisted (co_state (sw_store w1)))))))"

inductive store_effect :: "store_env \<Rightarrow> store_world \<Rightarrow> nat outcome \<Rightarrow> bool" for env where
  refused: "store_effect env w (Inl e, w)"
| registered: "checked_add (pb_revision (sw_published w)) 1 = Some revision \<Longrightarrow>
    store_effect env w (Inr n, w \<lparr> sw_published := (sw_published w) \<lparr> pb_revision := revision, pb_registry := reg \<rparr> \<rparr>)"
| published: "transacted env w w1 ps \<Longrightarrow> publish env (sw_store w1) (sw_published w) ps switched forced = Some pb \<Longrightarrow>
    store_effect env w (Inr n, w1 \<lparr> sw_published := pb \<rparr>)"
| exhausted: "transacted env w w1 ps \<Longrightarrow> publish env (sw_store w1) (sw_published w) ps switched forced = None \<Longrightarrow>
    store_effect env w (Inl (WorkerFailed (se_panic env)), w1)"

lemma finish_publish_effect:
  assumes "transacted env w w1 ps"
  shows "store_effect env w (finish_publish env ps switched forced n w1)"
proof -
  have "sw_published w1 = sw_published w" using assms by (simp add: transacted_def)
  then show ?thesis
    using store_effect.published [OF assms] store_effect.exhausted [OF assms]
    by (auto simp: finish_publish_def split: option.split)
qed

lemma commit_transacted:
  assumes "commit env fl (sw_store w) text cfg = Ok (ps, file, st)"
  shows "transacted env w (w \<lparr> sw_files := (sw_files w)(path := file), sw_store := st \<rparr>) ps"
  unfolding transacted_def using commit_Ok [OF assms] by auto

lemma update_configuration_effect: "store_effect env w (update_configuration env fl forced change w)"
proof -
  have "store_effect env w (finish_publish env ps False forced 0 (w \<lparr> sw_files := (sw_files w)(path := doc), sw_store := st \<rparr>))"
    if "co_update env fl (change (co_definitions (sw_store w))) (sw_files w) (sw_store w) = Ok (ps, (path, doc), st)"
    for ps path doc st
    using co_update_Ok(1) [OF that] commit_transacted finish_publish_effect by blast
  then show ?thesis
    by (auto simp: update_configuration_def store_effect.refused split: sum.split)
qed

lemma co_load_transacted:
  assumes "co_load env fl (sw_files w) path (sw_store w) = Ok (ps, st)"
  shows "transacted env w (w \<lparr> sw_store := st \<rparr>) ps"
  unfolding transacted_def using co_load_Ok [OF assms] by auto

lemma set_config_dir_effect: "store_effect env w (set_config_dir env fl path w)"
  using co_load_transacted [THEN finish_publish_effect]
  by (auto simp: set_config_dir_def store_effect.refused split: sum.split)

lemma register_effect: "store_effect env w (register_profile_account_source env fl n i source w)"
  using store_effect.registered
  by (auto simp: register_profile_account_source_def store_effect.refused split: option.split)

lemma commit_sync_commits:
  "commit_sync env fl r files st = Ok (count, ps, file, st') \<Longrightarrow>
    \<exists>text cfg. commit env fl st text cfg = Ok (ps, file, st')"
  by (auto simp: commit_sync_def Let_def bind_result_Inr)

lemma apply_provider_sync_effect: "store_effect env w (apply_provider_sync env fl r w)"
proof -
  have "store_effect env w (finish_publish env ps False None count
      (w \<lparr> sw_files := (sw_files w)(so_path (sr_operation r) := doc), sw_store := st \<rparr>))"
    if "commit_sync env fl r (sw_files w) (sw_store w) = Ok (count, ps, doc, st)" for count ps doc st
    using commit_sync_commits [OF that] commit_transacted finish_publish_effect by blast
  then show ?thesis
    by (auto simp: apply_provider_sync_def Let_def store_effect.refused split: sum.split)
qed

lemma run_op_effect: "store_effect env w (run_op env fl op w)"
  by (cases op) (simp_all add: update_configuration_effect set_config_dir_effect register_effect
    apply_provider_sync_effect)

lemma run_op_cases:
  obtains (refused) e where "run_op env fl op w = (Inl e, w)"
  | (registered) revision n reg where "checked_add (pb_revision (sw_published w)) 1 = Some revision"
      "run_op env fl op w
        = (Inr n, w \<lparr> sw_published := (sw_published w) \<lparr> pb_revision := revision, pb_registry := reg \<rparr> \<rparr>)"
  | (published) w1 ps switched forced pb n where "transacted env w w1 ps"
      "publish env (sw_store w1) (sw_published w) ps switched forced = Some pb"
      "run_op env fl op w = (Inr n, w1 \<lparr> sw_published := pb \<rparr>)"
  | (exhausted) w1 ps switched forced where "transacted env w w1 ps"
      "publish env (sw_store w1) (sw_published w) ps switched forced = None"
      "run_op env fl op w = (Inl (WorkerFailed (se_panic env)), w1)"
  using run_op_effect [of env w fl op]
  by (rule store_effect.cases) (rule that(1) that(2) that(3) that(4); simp?)+

subsection \<open>What is published\<close>

lemma checked_increment: "checked_add x 1 = (if x = - 1 then None else Some (x + 1))"
proof -
  have max: "unat (- 1 :: u64) = 18446744073709551615"
    by (simp add: unsigned_minus_1_eq_mask mask_eq_exp_minus_1)
  have "unat x + 1 < 2 ^ 64 \<longleftrightarrow> unat x \<noteq> unat (- 1 :: u64)"
    unfolding max using unat_lt_64 [of x] by (simp del: unat_lt_64) arith
  then show ?thesis by (simp add: checked_add_def word_unat_eq_iff)
qed

lemma publish_None:
  "publish env st pb ps switched forced = None \<longleftrightarrow>
    pb_revision pb = - 1 \<or> switched \<and> pb_namespace pb = - 1"
  by (cases switched) (simp_all add: publish_def Let_def checked_increment)

lemma profile_name_annotate [simp]: "map profile_name (map annotate_profile ps) = map profile_name ps"
  by (simp add: comp_def)

lemma profile_named_annotate [simp]:
  "profile_named n (map annotate_profile ps) = map_option annotate_profile (profile_named n ps)"
  by (induction ps) (simp_all add: profile_named_def)

lemma profile_named_None: "profile_named n ps = None \<longleftrightarrow> n \<notin> profile_name ` set ps"
  by (auto simp: profile_named_def find_None_iff)

lemma unchanged_profile:
  "n \<notin> changed_profiles old new \<Longrightarrow> n \<in> profile_name ` set new \<Longrightarrow> profile_named n old = profile_named n new"
  by (auto simp: changed_profiles_def)

text \<open>Every published profile has a cache generation, none newer than the revision.\<close>

definition published_ok :: "published \<Rightarrow> bool" where
  "published_ok pb \<longleftrightarrow> distinct (map profile_name (profiles (pb_config pb)))
     \<and> (\<forall>n. pb_generations pb n \<noteq> None \<longleftrightarrow> n \<in> profile_name ` set (profiles (pb_config pb)))
     \<and> (\<forall>n g. pb_generations pb n = Some g \<longrightarrow> g \<le> pb_revision pb)"

lemma publish_Some:
  assumes "publish env st pb ps switched forced = Some pb'"
  shows "unat (pb_revision pb') = unat (pb_revision pb) + 1"
    and "profiles (pb_config pb') = map annotate_profile ps"
    and "pb_generations pb' n =
      (if n \<in> profile_name ` set ps
       then if n \<in> changed_profiles (profiles (pb_config pb)) ps then Some (pb_revision pb') else pb_generations pb n
       else None)"
  using assms by (auto simp: publish_def Let_def bind_eq_Some_conv checked_add_Some new_snapshot_simps)

lemma publish_ok:
  assumes "published_ok pb" "publish env st pb ps switched forced = Some pb'" "validate_profiles env ps = Ok ()"
  shows "published_ok pb'"
proof -
  note pub = publish_Some [OF assms(2)]
  have names: "profile_name ` set (profiles (pb_config pb')) = profile_name ` set ps"
    by (simp add: pub(2) image_image)
  have "distinct (map profile_name (profiles (pb_config pb')))"
    using validate_profiles_distinct [OF assms(3)] by (simp add: pub(2) comp_def)
  moreover have "pb_generations pb' n \<noteq> None \<longleftrightarrow> n \<in> profile_name ` set ps" for n
  proof (cases "n \<in> profile_name ` set ps \<and> n \<notin> changed_profiles (profiles (pb_config pb)) ps")
    case True
    then have "profile_named n (profiles (pb_config pb)) \<noteq> None"
      using unchanged_profile profile_named_None by metis
    then have "pb_generations pb n \<noteq> None"
      using assms(1) by (simp add: published_ok_def profile_named_None)
    then show ?thesis using True by (simp add: pub(3))
  qed (auto simp: pub(3))
  moreover have "g \<le> pb_revision pb'" if "pb_generations pb' n = Some g" for n g
  proof -
    have "g = pb_revision pb' \<or> pb_generations pb n = Some g"
      using that by (auto simp: pub(3) split: if_splits)
    then have "g = pb_revision pb' \<or> g \<le> pb_revision pb" using assms(1) by (auto simp: published_ok_def)
    then show ?thesis using pub(1) by (auto simp: word_le_nat_alt)
  qed
  ultimately show ?thesis using names by (simp add: published_ok_def)
qed

lemma published_ok_registry:
  "published_ok pb \<Longrightarrow> checked_add (pb_revision pb) 1 = Some revision \<Longrightarrow>
    published_ok (pb \<lparr> pb_revision := revision, pb_registry := reg \<rparr>)"
  by (auto simp: published_ok_def checked_add_Some word_le_nat_alt le_Suc_eq)

lemma published_ok_first:
  "validate_profiles env ps = Ok () \<Longrightarrow> published_ok (first_publication env ps a b)"
  using validate_profiles_distinct
  by (auto simp: published_ok_def first_publication_def new_snapshot_simps comp_def image_image)

lemma store_step_published_ok:
  assumes "store_step env w w'" "published_ok (sw_published w)"
  shows "published_ok (sw_published w')"
  using assms
proof (cases rule: store_step.cases)
  case (operation fl op)
  then show ?thesis
    using assms(2) by (cases rule: run_op_cases [of env fl op w]) (auto simp: transacted_def intro: publish_ok published_ok_registry)
qed simp

lemma store_step_config_ok:
  assumes "store_step env w w'" "config_ok (co_state (sw_store w))"
  shows "config_ok (co_state (sw_store w'))"
  using assms
proof (cases rule: store_step.cases)
  case (operation fl op)
  then show ?thesis
    using assms(2) by (cases rule: run_op_cases [of env fl op w]) (auto simp: transacted_def)
qed simp

lemma store_steps_ok:
  assumes "store_steps env w w'"
  shows "published_ok (sw_published w) \<Longrightarrow> published_ok (sw_published w')"
    and "config_ok (co_state (sw_store w)) \<Longrightarrow> config_ok (co_state (sw_store w'))"
  using assms by (induction rule: rtranclp_induct) (auto intro: store_step_published_ok store_step_config_ok)

text \<open>
  No request can miss its cache generation. Whatever the operations and the other
  writers do, in any order, the published profiles have pairwise different names and
  exactly they have a cache generation, so the executor's lookup by the name of the
  profile it runs on never panics; and no generation is newer than the revision.
\<close>
theorem published_profiles_have_generations:
  assumes "validate_profiles env ps = Ok ()" and "store_steps env (first_world env files defs ps a b) w"
  shows "let pb = sw_published w in distinct (map profile_name (profiles (pb_config pb)))
    \<and> (\<forall>n. pb_generations pb n \<noteq> None \<longleftrightarrow> n \<in> profile_name ` set (profiles (pb_config pb)))
    \<and> (\<forall>n g. pb_generations pb n = Some g \<longrightarrow> g \<le> pb_revision pb)"
  using store_steps_ok(1) [OF assms(2)] published_ok_first [OF assms(1)]
  by (simp add: first_world_def published_ok_def)

text \<open>
  C24. No secret reaches the saved configuration. In every reachable state the session's
  configuration has pairwise different account names and row identities and holds no
  credential value and no credential header; and an operation changes at most one file,
  to the encoding of a configuration of which the same holds.
\<close>
theorem secrets_never_saved:
  assumes "store_steps env (first_world env files defs ps a b) w"
  shows "config_ok (co_state (sw_store w))
    \<and> (let files' = sw_files (snd (run_op env fl op w)) in
       files' = sw_files w
       \<or> (\<exists>path cfg. config_ok cfg \<and> files' = (sw_files w)(path := JsonFile (encode_config env cfg))))"
proof -
  have "config_ok (co_state (sw_store w))"
    using store_steps_ok(2) [OF assms] by (simp add: first_world_def new_coordinator_def config_ok_default)
  then show ?thesis
    by (cases rule: run_op_cases [of env fl op w]) (auto simp: transacted_def Let_def intro: config_ok_persisted)
qed

subsection \<open>Generations over time\<close>

text \<open>A profile without the feature facts that publication derives.\<close>

definition plain :: "provider_profile \<Rightarrow> provider_profile" where
  "plain p = p \<lparr> profile_info := (profile_info p) \<lparr> pi_features := default_features \<rparr>,
     models := map (\<lambda>m. m \<lparr> info := \<lparr> mi_features = default_features, mi_pricing = None \<rparr> \<rparr>) (models p) \<rparr>"

lemma plain_annotate [simp]: "plain (annotate_profile p) = plain p"
  by (simp add: plain_def annotate_profile_def annotate_model_def Let_def comp_def)

definition same_generations :: "published \<Rightarrow> published \<Rightarrow> bool" where
  "same_generations pb pb' \<longleftrightarrow> pb_revision pb \<le> pb_revision pb'
     \<and> (\<forall>n g. pb_generations pb' n = Some g \<longrightarrow> g \<le> pb_revision pb \<longrightarrow>
          pb_generations pb n = Some g
          \<and> map_option plain (profile_named n (profiles (pb_config pb)))
              = map_option plain (profile_named n (profiles (pb_config pb'))))"

lemma same_generations_refl: "same_generations pb pb"
  by (simp add: same_generations_def)

lemma same_generationsD:
  assumes "same_generations pb pb'"
  shows "pb_revision pb \<le> pb_revision pb'"
    and "pb_generations pb' n = Some g \<Longrightarrow> g \<le> pb_revision pb \<Longrightarrow> pb_generations pb n = Some g"
    and "pb_generations pb' n = Some g \<Longrightarrow> g \<le> pb_revision pb \<Longrightarrow>
      map_option plain (profile_named n (profiles (pb_config pb)))
        = map_option plain (profile_named n (profiles (pb_config pb')))"
  using assms unfolding same_generations_def by simp_all

lemma same_generations_trans:
  assumes ab: "same_generations a b" and bc: "same_generations b c"
  shows "same_generations a c"
  unfolding same_generations_def
proof (intro conjI allI impI)
  show "pb_revision a \<le> pb_revision c"
    by (rule order_trans [OF same_generationsD(1) [OF ab] same_generationsD(1) [OF bc]])
  fix n g assume g: "pb_generations c n = Some g" "g \<le> pb_revision a"
  have le: "g \<le> pb_revision b" by (rule order_trans [OF g(2) same_generationsD(1) [OF ab]])
  note b = same_generationsD(2,3) [OF bc g(1) le]
  show "pb_generations a n = Some g" by (rule same_generationsD(2) [OF ab b(1) g(2)])
  show "map_option plain (profile_named n (profiles (pb_config a)))
      = map_option plain (profile_named n (profiles (pb_config c)))"
    using same_generationsD(3) [OF ab b(1) g(2)] b(2) by simp
qed

lemma publish_generations:
  assumes "publish env st pb ps switched forced = Some pb'"
  shows "same_generations pb pb'"
proof -
  note pub = publish_Some [OF assms]
  have new: "\<not> pb_revision pb' \<le> pb_revision pb" "pb_revision pb \<le> pb_revision pb'"
    using pub(1) by (simp_all add: word_le_nat_alt)
  have "pb_generations pb n = Some g
      \<and> map_option plain (profile_named n (profiles (pb_config pb)))
          = map_option plain (profile_named n (profiles (pb_config pb')))"
    if "pb_generations pb' n = Some g" "g \<le> pb_revision pb" for n g
  proof -
    have n: "n \<in> profile_name ` set ps" "n \<notin> changed_profiles (profiles (pb_config pb)) ps" "pb_generations pb n = Some g"
      using that new(1) by (auto simp: pub(3) split: if_splits)
    have "profile_named n (profiles (pb_config pb)) = profile_named n ps" by (rule unchanged_profile [OF n(2,1)])
    then show ?thesis using n(3) by (simp add: pub(2) option.map_comp comp_def)
  qed
  then show ?thesis using new(2) by (simp add: same_generations_def)
qed

lemma store_steps_generations:
  "store_steps env w w' \<Longrightarrow> same_generations (sw_published w) (sw_published w')"
proof (induction rule: rtranclp_induct)
  case (step w' w'')
  have "same_generations (sw_published w') (sw_published w'')"
    using step.hyps(2)
  proof (cases rule: store_step.cases)
    case (operation fl op)
    then show ?thesis
    proof (cases rule: run_op_cases [of env fl op w'])
      case (registered revision n reg)
      have "pb_revision (sw_published w') \<le> revision"
        using registered(1) by (simp add: checked_add_Some word_le_nat_alt)
      then show ?thesis using operation registered(2) by (simp add: same_generations_def)
    next
      case (refused e)
      then show ?thesis using operation by (simp add: same_generations_refl)
    next
      case (published w1 ps switched forced pb k)
      then show ?thesis using operation publish_generations [OF published(2)] by simp
    next
      case (exhausted w1 ps switched forced)
      then show ?thesis using operation by (simp add: transacted_def same_generations_refl)
    qed
  qed (simp add: same_generations_refl)
  then show ?case using step.IH same_generations_trans by blast
qed (rule same_generations_refl)

text \<open>
  C9. A cache generation names one state of a profile, forever. If a profile name has the
  same generation in two published states, however many operations, removals and
  re-creations lie between them, the two profiles are equal but for the feature facts
  publication derives. What is cached under a name and its generation is never used for
  another connection, account or model list.
\<close>
theorem generation_identifies_profile:
  assumes "validate_profiles env ps = Ok ()" and "store_steps env (first_world env files defs ps a b) w"
    and "store_steps env w w'"
    and "pb_generations (sw_published w) n = Some g" "pb_generations (sw_published w') n = Some g"
  shows "map_option plain (profile_named n (profiles (pb_config (sw_published w))))
    = map_option plain (profile_named n (profiles (pb_config (sw_published w'))))"
proof -
  have "published_ok (sw_published w)"
    using store_steps_ok(1) [OF assms(2)] published_ok_first [OF assms(1)] by (simp add: first_world_def)
  then have "g \<le> pb_revision (sw_published w)" using assms(4) by (simp add: published_ok_def)
  then show ?thesis
    using store_steps_generations [OF assms(3)] assms(5) by (simp add: same_generations_def)
qed

subsection \<open>Errors\<close>


subsection \<open>Old synchronisations\<close>

lemma store_steps_generation:
  "store_steps env w w' \<Longrightarrow> unat (co_generation (sw_store w)) \<le> unat (co_generation (sw_store w'))"
proof (induction rule: rtranclp_induct)
  case (step w' w'')
  have "unat (co_generation (sw_store w')) \<le> unat (co_generation (sw_store w''))"
    using step.hyps(2)
  proof (cases rule: store_step.cases)
    case (operation fl op)
    then show ?thesis by (cases rule: run_op_cases [of env fl op w']) (auto simp: transacted_def)
  qed simp
  then show ?case using step.IH by simp
qed simp

lemma set_config_dir_generation:
  assumes "set_config_dir env fl path w = (Inr k, w')"
  shows "unat (co_generation (sw_store w')) = unat (co_generation (sw_store w)) + 1"
  using assms co_load_Ok(4)
  by (auto simp: set_config_dir_def finish_publish_def split: sum.splits if_splits option.splits)

text \<open>
  A synchronisation never lands in another configuration. Model lists fetched by an
  operation that was prepared before the configuration directory was set again, even to
  the same directory, are refused, whatever else happened in between, and nothing
  changes.
\<close>
theorem directory_switch_refuses_old_syncs:
  assumes "prepare_provider_sync env fl n w = Ok op" and "store_steps env w w1"
    and "run_op env fl' (SetConfigDir path) w1 = (Inr k, w2)" and "store_steps env w2 w3"
    and "sr_operation r = op" and "\<not> cancelled_early fl''"
  shows "run_op env fl'' (ApplySync r) w3 = (Inl (ProfileChanged (profile_name (so_source op))), w3)"
proof -
  have "so_generation op = co_generation (sw_store w)"
    using assms(1) by (auto simp: prepare_provider_sync_def split: if_splits option.splits)
  moreover have "unat (co_generation (sw_store w)) < unat (co_generation (sw_store w3))"
    using store_steps_generation [OF assms(2)] store_steps_generation [OF assms(4)]
      set_config_dir_generation assms(3) by fastforce
  ultimately have "co_generation (sw_store w3) \<noteq> so_generation op" by auto
  then show ?thesis using assms(5,6) by (simp add: apply_provider_sync_def Let_def)
qed

subsection \<open>Removing an account\<close>

lemma account_profile_name: "account_profile js defs ex p = Ok q \<Longrightarrow> profile_name q = account_name p"
  by (auto simp: account_profile_def Let_def bind_result_Inr account_name_def)

lemma config_profiles_deleted:
  assumes "config_profiles js defs cfg ex = Ok ps" "n \<in> cfg_deleted cfg"
  shows "n \<notin> profile_name ` set ps"
proof
  assume "n \<in> profile_name ` set ps"
  then obtain q where q: "q \<in> set ps" "profile_name q = n" by blast
  let ?accounts = "filter (\<lambda>p. account_name p \<notin> cfg_deleted cfg) (cfg_providers cfg @ inherited_accounts js defs cfg)"
  have "map (account_profile js defs ex) ?accounts = map Inr ps"
    using collect_results_Ok assms(1) unfolding config_profiles_def by blast
  then have "Inr q \<in> set (map (account_profile js defs ex) ?accounts)" using q(1) by simp
  then obtain p where "p \<in> set ?accounts" "account_profile js defs ex p = Ok q" by (metis (no_types, lifting) imageE list.set_map)
  then show False using account_profile_name q(2) assms(2) by fastforce
qed

lemma by_name_new:
  "n \<notin> profile_name ` set ps \<Longrightarrow> named_profile (new_snapshot r ps trk) n = None"
proof -
  assume n: "n \<notin> profile_name ` set ps"
  have "profile_name p \<noteq> n" if "(i, p) \<in> set (enumerate 0 (map annotate_profile ps))" for i p
    using that n by (auto simp: in_set_enumerate_eq)
  then show ?thesis unfolding named_profile_sample by (auto simp: find_None_iff)
qed

lemma account_adopted [simp]: "account_name (case x of Some d \<Rightarrow> p \<lparr> sp_fallback := d \<rparr> | None \<Rightarrow> p) = account_name p"
  by (simp split: option.split)

lemma refresh_fallbacks_simps [simp]:
  "cfg_deleted (refresh_fallbacks defs cfg) = cfg_deleted cfg"
  "cfg_tracked (refresh_fallbacks defs cfg) = cfg_tracked cfg"
  "map account_name (cfg_providers (refresh_fallbacks defs cfg)) = map account_name (cfg_providers cfg)"
  by (simp_all add: refresh_fallbacks_def Let_def comp_def)

lemma account_None: "account n ps = None \<longleftrightarrow> n \<notin> set (map account_name ps)"
  by (auto simp: account_def find_None_iff)

text \<open>
  Removing an account takes it out of service. When the removal succeeds, the account
  is marked deleted and gone from the saved accounts, no profile of that name is
  published, and its cache generation is gone.
\<close>
theorem removal_takes_effect:
  assumes "run_op env fl (RemoveProvider n) w = (Inr k, w')"
  shows "n \<in> cfg_deleted (co_state (sw_store w')) \<and> account n (cfg_providers (co_state (sw_store w'))) = None
    \<and> published_profile (sw_published w') n = None \<and> pb_generations (sw_published w') n = None"
proof -
  obtain ps path doc st where up: "co_update env fl (remove_provider n) (sw_files w) (sw_store w) = Ok (ps, (path, doc), st)"
    and fin: "finish_publish env ps False None 0 (w \<lparr> sw_files := (sw_files w)(path := doc), sw_store := st \<rparr>) = (Inr k, w')"
    using assms by (auto simp: update_configuration_def split: if_splits sum.splits)
  obtain cfg0 cfg1 where ch: "remove_provider n cfg0 = Ok cfg1"
    and co: "commit env fl (sw_store w) ''configuration operation was cancelled before commit'' cfg1 = Ok (ps, doc, st)"
    using co_update_Ok(1) [OF up] by blast
  have cfg1: "n \<in> cfg_deleted cfg1" "n \<notin> set (map account_name (cfg_providers cfg1))"
    using ch by (auto simp: remove_provider_def bind_result_Inr)
  have state: "co_state st = refresh_fallbacks (co_definitions (sw_store w)) cfg1" by (rule commit_Ok(3) [OF co])
  have del: "n \<in> cfg_deleted (co_state st)" using cfg1(1) by (simp add: state)
  have gone: "n \<notin> profile_name ` set ps" by (rule config_profiles_deleted [OF commit_Ok(4) [OF co] del])
  obtain pb where pb: "publish env st (sw_published w) ps False None = Some pb"
    "w' = w \<lparr> sw_files := (sw_files w)(path := doc), sw_store := st, sw_published := pb \<rparr>"
    using fin by (auto simp: finish_publish_def split: option.splits)
  have "account n (cfg_providers (co_state st)) = None"
    using cfg1(2) unfolding account_None state refresh_fallbacks_simps .
  moreover have "pb_generations pb n = None" using gone by (simp add: publish_Some(3) [OF pb(1)])
  moreover have "pb_config pb = new_snapshot (se_region env) ps (Some (cfg_tracked (co_state st)))"
    using pb(1) by (auto simp: publish_def Let_def bind_eq_Some_conv)
  ultimately show ?thesis
    using del by_name_new [OF gone] by (simp add: pb(2) published_profile_def)
qed

subsection \<open>Editing one row\<close>

definition row_settings :: "model_row \<Rightarrow> string \<times> field_values" where
  "row_settings r = (mr_id r, mr_overrides r)"

lemma adopt_moved_settings: "map row_settings (adopt_moved keyed rows) = map row_settings rows"
  by (auto simp: adopt_moved_def row_settings_def split: option.split)

lemma adopt_loop_settings:
  "map row_settings (adopt_loop keyed rows present queue) = map row_settings rows"
proof (induction keyed rows present queue rule: adopt_loop.induct)
  case (2 k m ks rows present queue)
  have upd: "map row_settings (rows[i := (rows ! i) \<lparr> mr_key := Some k \<rparr>]) = map row_settings rows" for i
    by (cases "i < length rows") (simp_all add: map_update row_settings_def list_update_same_conv list_update_beyond)
  show ?case
  proof (cases "mk_occurrence k = 0 \<and> k \<notin> present")
    case True
    show ?thesis
    proof (cases "queue (mk_wire k)")
      case Nil
      then show ?thesis using "2.IH"(1) [OF True Nil] True by simp
    next
      case (Cons i rest)
      show ?thesis using "2.IH"(2) [OF True Cons] True Cons upd by (simp only: adopt_loop.simps if_True list.case simp_thms)
    qed
  next
    case False
    then show ?thesis using "2.IH"(3) [OF False] by (simp only: adopt_loop.simps False if_False)
  qed
qed simp

lemma adopt_observed_settings: "map row_settings (sp_models (adopt_observed defs p)) = map row_settings (sp_models p)"
  by (simp add: adopt_observed_def adopt_rows_def Let_def adopt_loop_settings adopt_moved_settings)

lemma ensure_row_settings:
  assumes "ensure_row js defs rid p = Ok p'"
  shows "account_name p' = account_name p"
    and "rid \<in> mr_id ` set (sp_models p) \<Longrightarrow> map row_settings (sp_models p') = map row_settings (sp_models p)"
    and "rid \<notin> mr_id ` set (sp_models p) \<Longrightarrow>
      map row_settings (sp_models p') = map row_settings (sp_models p) @ [(rid, Map.empty)]"
proof -
  let ?q = "adopt_observed defs p"
  have "map fst (map row_settings rows) = map mr_id rows" for rows by (simp add: row_settings_def comp_def)
  then have "mr_id ` set (sp_models ?q) = mr_id ` set (sp_models p)"
    using adopt_observed_settings by (metis list.set_map)
  then have ids: "list_ex (\<lambda>r. mr_id r = rid) (sp_models ?q) \<longleftrightarrow> rid \<in> mr_id ` set (sp_models p)"
    by (auto simp: list_ex_iff) (metis imageE image_eqI)+
  have res: "p' = ?q \<or> (\<exists>k. p' = ?q \<lparr> sp_models := sp_models ?q @ [(default_row js k) \<lparr> mr_id := rid \<rparr>] \<rparr>)"
    "rid \<in> mr_id ` set (sp_models p) \<Longrightarrow> p' = ?q"
    "rid \<notin> mr_id ` set (sp_models p) \<Longrightarrow>
      \<exists>k. p' = ?q \<lparr> sp_models := sp_models ?q @ [(default_row js k) \<lparr> mr_id := rid \<rparr>] \<rparr>"
    using assms ids by (auto simp: ensure_row_def Let_def split: if_splits option.splits)
  show "account_name p' = account_name p" using res(1) by auto
  show "map row_settings (sp_models p') = map row_settings (sp_models p)" if "rid \<in> mr_id ` set (sp_models p)"
    using res(2) [OF that] adopt_observed_settings by simp
  show "map row_settings (sp_models p') = map row_settings (sp_models p) @ [(rid, Map.empty)]"
    if "rid \<notin> mr_id ` set (sp_models p)"
    using res(3) [OF that] adopt_observed_settings by (auto simp: row_settings_def default_row_def)
qed

lemma put_row_settings:
  assumes "rid \<in> mr_id ` set (sp_models p)" "\<And>r. row_settings (g r) = (mr_id r, h (mr_overrides r))"
  shows "\<exists>before old after. map row_settings (sp_models p) = before @ (rid, old) # after
    \<and> map row_settings (sp_models (put_row rid g p)) = before @ (rid, h old) # after"
proof -
  have "\<exists>before old after. map row_settings rows = before @ (rid, old) # after
    \<and> map row_settings (map_first (\<lambda>r. mr_id r = rid) g rows) = before @ (rid, h old) # after"
    if "rid \<in> mr_id ` set rows" for rows
    using that
  proof (induction rows)
    case (Cons r rows)
    show ?case
    proof (cases "mr_id r = rid")
      case True
      then show ?thesis
        by (intro exI [of _ "[]"] exI [of _ "mr_overrides r"] exI [of _ "map row_settings rows"])
          (use True in \<open>simp add: assms(2) row_settings_def [of r]\<close>)
    next
      case False
      then obtain before old after where ih: "map row_settings rows = before @ (rid, old) # after"
        "map row_settings (map_first (\<lambda>r. mr_id r = rid) g rows) = before @ (rid, h old) # after"
        using Cons by auto
      then show ?thesis using False
        by (intro exI [of _ "row_settings r # before"] exI [of _ old] exI [of _ after]) simp
    qed
  qed simp
  from this [OF assms(1)] show ?thesis by (simp add: put_row_def)
qed

lemma put_account_others:
  "filter (\<lambda>q. account_name q \<noteq> account_name p) (cfg_providers (put_account p cfg))
    = filter (\<lambda>q. account_name q \<noteq> account_name p) (cfg_providers cfg)"
proof -
  have "filter (\<lambda>q. account_name q \<noteq> account_name p) (map_first (\<lambda>q. account_name q = account_name p) (\<lambda>_. p) ps)
      = filter (\<lambda>q. account_name q \<noteq> account_name p) ps" for ps
    by (induction ps) auto
  then show ?thesis by (simp add: put_account_def)
qed

lemma put_account_account:
  "account (account_name p) (cfg_providers cfg) \<noteq> None \<Longrightarrow>
    account (account_name p) (cfg_providers (put_account p cfg)) = Some p"
proof -
  have "account (account_name p) ps \<noteq> None \<Longrightarrow>
      account (account_name p) (map_first (\<lambda>q. account_name q = account_name p) (\<lambda>_. p) ps) = Some p" for ps
    by (induction ps) (auto simp: account_def)
  then show "account (account_name p) (cfg_providers cfg) \<noteq> None \<Longrightarrow> ?thesis" by (simp add: put_account_def)
qed

text \<open>
  Setting a field of a model row changes that row only. On success the account has
  exactly one row more at most, the one that is set, made from its definition when it was
  not saved yet; this row has the new value and its other settings; all other rows keep
  their identities and settings in order, and all other accounts are as they were.
\<close>
theorem override_touches_one_row:
  assumes "set_model_override env defs n rid f (SetField v) cfg = Ok cfg'"
  shows "\<exists>p p' before old after.
      account n (cfg_providers cfg) = Some p \<and> account n (cfg_providers cfg') = Some p'
    \<and> map row_settings (sp_models p') = before @ (rid, old(f \<mapsto> v)) # after
    \<and> (map row_settings (sp_models p) = before @ (rid, old) # after
        \<or> map row_settings (sp_models p) = before \<and> old = Map.empty \<and> after = [])
    \<and> filter (\<lambda>q. account_name q \<noteq> n) (cfg_providers cfg') = filter (\<lambda>q. account_name q \<noteq> n) (cfg_providers cfg)"
proof -
  obtain p p1 wire where p: "find_account cfg n = Ok p" and p1: "ensure_row (se_json env) defs rid p = Ok p1"
    and cfg': "cfg' = put_account (put_row rid (override_row env f (SetField v) wire) p1) cfg"
    using assms by (auto simp: set_model_override_def bind_result_Inr Let_def split: option.splits)
  let ?p' = "put_row rid (override_row env f (SetField v) wire) p1"
  have acc: "account n (cfg_providers cfg) = Some p"
    using p by (auto simp: find_account_def split: if_splits option.splits)
  note e = ensure_row_settings [OF p1]
  have name: "account_name ?p' = n" using e(1) account_Some [OF acc] by (simp add: put_row_def)
  have acc': "account n (cfg_providers cfg') = Some ?p'"
    using put_account_account [of ?p' cfg] acc unfolding name cfg' by simp
  have others: "filter (\<lambda>q. account_name q \<noteq> n) (cfg_providers cfg') = filter (\<lambda>q. account_name q \<noteq> n) (cfg_providers cfg)"
    using put_account_others [of ?p' cfg] unfolding name cfg' .
  have fst_ids: "map fst (map row_settings rows) = map mr_id rows" for rows
    by (simp add: row_settings_def comp_def)
  have "rid \<in> set (map mr_id (sp_models p1))"
    unfolding fst_ids [symmetric] using e(2,3) by (cases "rid \<in> mr_id ` set (sp_models p)")
      (simp_all add: row_settings_def image_iff Bex_def)
  then obtain before old after where rows: "map row_settings (sp_models p1) = before @ (rid, old) # after"
    "map row_settings (sp_models ?p') = before @ (rid, old(f \<mapsto> v)) # after"
    using put_row_settings [of rid p1 "override_row env f (SetField v) wire" "\<lambda>ov. ov(f \<mapsto> v)"]
    by (auto simp: override_row_def row_settings_def)
  show ?thesis
  proof (cases "rid \<in> mr_id ` set (sp_models p)")
    case True
    then show ?thesis using acc acc' others rows e(2) [OF True] by auto
  next
    case False
    have eq: "map row_settings (sp_models p) @ [(rid, Map.empty)] = before @ (rid, old) # after"
      using e(3) [OF False] rows(1) by simp
    have "rid \<notin> set (map fst (map row_settings (sp_models p)))" using False unfolding fst_ids by simp
    note fresh = this
    have "after = []"
    proof (cases after rule: rev_cases)
      case (snoc ys y)
      then have "map row_settings (sp_models p) = before @ (rid, old) # ys" using eq by simp
      then show ?thesis using fresh by simp
    qed
    then have "map row_settings (sp_models p) = before" "old = Map.empty" using eq by auto
    then show ?thesis using acc acc' others rows(2) \<open>after = []\<close> by auto
  qed
qed

section \<open>A sample session\<close>

definition no_faults :: faults where
  "no_faults = \<lparr> cancelled_early = False, open_failure = None, lock_failure = None, cancelled_late = False,
     write_failure = None \<rparr>"

definition sample_store :: store_env where
  "sample_store = \<lparr> se_json = sample_json, encode_config = \<lambda>_. JObject [(''version'', JNumber (PosInt 3))],
     decode_config = \<lambda>_. Ok default_config, se_builtin_name = \<lambda>_. False, se_presets = Ok [],
     se_canonical = \<lambda>d. d, se_services = \<lambda>_. Ok (), se_plan = \<lambda>_. Ok (), se_price_bounds = \<lambda>_. Err [],
     se_codecs = \<lambda>_. True, se_authenticators = \<lambda>_. True, se_directory = \<lambda>_. True,
     se_region = International, se_panic = [] \<rparr>"

definition sample_world :: store_world where
  "sample_world = first_world sample_store (\<lambda>_. NoFile) (catalog []) [labelled []] [] []"

definition opened_world :: store_world where
  "opened_world = snd (run_op sample_store no_faults (SetConfigDir ''d'') sample_world)"

lemma sample_store_simps [simp]:
  "se_json sample_store = sample_json" "se_canonical sample_store d = d"
  "se_region sample_store = International" "se_directory sample_store p" "se_authenticators sample_store a"
  "encode_config sample_store c = JObject [(''version'', JNumber (PosInt 3))]"
  "decode_config sample_store v = Ok default_config"
  by (simp_all add: sample_store_def)

lemma no_faults_simps [simp]:
  "\<not> cancelled_early no_faults" "open_failure no_faults = None" "lock_failure no_faults = None"
  "\<not> cancelled_late no_faults" "write_failure no_faults = None" "io None = Ok ()" "cancelled False t = Ok ()"
  by (simp_all add: no_faults_def io_def cancelled_def)

lemma labelled_fields [simp]:
  "chat_enabled (labelled ls)" "protocol (labelled ls) = AnthropicMessages" "auth_strategy (labelled ls) = ApiKey"
  "connection (labelled ls) = default_connection \<lparr> cs_group := None, protocol_profiles := [] \<rparr>"
  "profile_pricing (labelled ls) = \<lparr> pc_billing_mode = PerToken, peak = None \<rparr>"
  "provider_id (labelled ls) = ''p''" "credential (labelled ls) = CredNone" "extra (labelled ls) = JNull"
  by (simp_all add: labelled_def sample_profile_def)

definition sample_published :: provider_profile where
  "sample_published = (labelled []) \<lparr> service_settings := effective_settings (catalog [])
       (inherited sample_json (labelled []) (CallerDef ''a'')),
     profile_info := (profile_info (labelled [])) \<lparr> pi_features := profile_inference (labelled []) \<rparr> \<rparr>"

lemma sample_valid: "validate_profiles sample_store [labelled []] = Ok ()"
  by (simp add: validate_profiles_def sample_store_def default_connection_def)

lemma sample_inherited: "inherited_accounts sample_json (catalog []) default_config
    = [inherited sample_json (labelled []) (CallerDef ''a'')]"
  by (simp add: inherited_accounts_def default_config_def catalog_def def_reference_def)

lemma sample_config_profiles:
  "\<exists>p. config_profiles sample_json (catalog []) default_config True = Ok [p] \<and> profile_name p = ''a''
    \<and> validate_profiles sample_store [p] = Ok () \<and> auth_strategy p = ApiKey"
  by (simp add: config_profiles_def sample_inherited) (simp add: default_config_def inherited_def account_profile_def
      account_rows_def definition_of_catalog definition_rows_def model_keys_def merged_rows_def adopt_rows_def
      adopt_moved_def row_keys_def map_filter_simps Let_def validate_profiles_def sample_store_def default_connection_def
      account_name_def)

lemma default_config_simps [simp]:
  "cfg_tracked default_config = (\<lambda>_. None)" "cfg_deleted default_config = {}" "cfg_providers default_config = []"
  by (simp_all add: default_config_def)

lemma sample_open:
  assumes "sw_files w = (\<lambda>_. NoFile)" "co_definitions (sw_store w) = catalog []"
    and "co_generation (sw_store w) \<noteq> - 1" "pb_revision (sw_published w) \<noteq> - 1" "pb_namespace (sw_published w) \<noteq> - 1"
  shows "\<exists>p w'. run_op sample_store no_faults (SetConfigDir ''d'') w = (Inr 0, w')
    \<and> sw_files w' = (\<lambda>_. NoFile) \<and> co_repository (sw_store w') = Some ''d''
    \<and> co_state (sw_store w') = default_config \<and> co_definitions (sw_store w') = catalog []
    \<and> co_generation (sw_store w') = co_generation (sw_store w) + 1
    \<and> pb_config (sw_published w') = new_snapshot International [p] (Some (\<lambda>_. None)) \<and> profile_name p = ''a''
    \<and> auth_strategy p = ApiKey \<and> pb_revision (sw_published w') = pb_revision (sw_published w) + 1
    \<and> (pb_namespace (sw_published w') = pb_namespace (sw_published w)
       \<or> pb_namespace (sw_published w') = pb_namespace (sw_published w) + 1)"
proof -
  obtain p where p: "config_profiles sample_json (catalog []) default_config True = Ok [p]" "profile_name p = ''a''"
    "validate_profiles sample_store [p] = Ok ()" "auth_strategy p = ApiKey"
    using sample_config_profiles by blast
  let ?st = "co_install sample_store ((sw_store w) \<lparr> co_repository := Some ''d'',
      co_generation := co_generation (sw_store w) + 1 \<rparr>) default_config"
  have load: "co_load sample_store no_faults (\<lambda>_. NoFile) ''d'' (sw_store w) = Ok ([p], ?st)"
    using assms(2,3) by (simp add: co_load_def repo_read_def p checked_increment)
  define switched where "switched = (case co_repository (sw_store w) of Some old \<Rightarrow> Some old \<noteq> co_repository ?st | None \<Rightarrow> False)"
  obtain pb where pb: "publish sample_store ?st (sw_published w) [p] switched None = Some pb"
    using assms(4,5) by (cases "publish sample_store ?st (sw_published w) [p] switched None") (simp_all add: publish_None)
  then have fields: "pb_config pb = new_snapshot International [p] (Some (\<lambda>_. None))"
    "pb_revision pb = pb_revision (sw_published w) + 1"
    "pb_namespace pb = pb_namespace (sw_published w) \<or> pb_namespace pb = pb_namespace (sw_published w) + 1"
    by (auto simp: publish_def Let_def checked_increment split: if_splits)
  have "run_op sample_store no_faults (SetConfigDir ''d'') w
      = (Inr 0, w \<lparr> sw_store := ?st, sw_published := pb \<rparr>)"
    using pb by (simp add: set_config_dir_def assms(1) load finish_publish_def switched_def)
  then show ?thesis using p(2,4) fields assms(1,2) 
    by (intro exI [of _ p] exI [of _ "w \<lparr> sw_store := ?st, sw_published := pb \<rparr>"]) simp
qed

lemma sample_world_simps [simp]:
  "sw_files sample_world = (\<lambda>_. NoFile)" "co_definitions (sw_store sample_world) = catalog []"
  "co_generation (sw_store sample_world) = 0" "pb_revision (sw_published sample_world) = 1"
  "pb_namespace (sw_published sample_world) = 1"
  by (simp_all add: sample_world_def first_world_def new_coordinator_def first_publication_def)

lemma sample_opened:
  "\<exists>p. run_op sample_store no_faults (SetConfigDir ''d'') sample_world = (Inr 0, opened_world)
    \<and> sw_files opened_world = (\<lambda>_. NoFile) \<and> co_repository (sw_store opened_world) = Some ''d''
    \<and> co_state (sw_store opened_world) = default_config \<and> co_definitions (sw_store opened_world) = catalog []
    \<and> co_generation (sw_store opened_world) = 1 \<and> pb_revision (sw_published opened_world) = 2
    \<and> (pb_namespace (sw_published opened_world) = 1 \<or> pb_namespace (sw_published opened_world) = 2)
    \<and> pb_config (sw_published opened_world) = new_snapshot International [p] (Some (\<lambda>_. None))
    \<and> profile_name p = ''a'' \<and> auth_strategy p = ApiKey"
  using sample_open [of sample_world] unfolding opened_world_def by auto

lemma opened_step: "store_steps sample_store sample_world opened_world"
  unfolding opened_world_def by (rule r_into_rtranclp) (rule store_step.operation)

theorem published_profiles_have_generations_witness:
  "let pb = sw_published opened_world in distinct (map profile_name (profiles (pb_config pb)))
    \<and> (\<forall>n. pb_generations pb n \<noteq> None \<longleftrightarrow> n \<in> profile_name ` set (profiles (pb_config pb)))"
  using published_profiles_have_generations [OF sample_valid opened_step [unfolded sample_world_def]]
  by (simp add: Let_def)

theorem secrets_never_saved_witness: "config_ok (co_state (sw_store opened_world))"
  using secrets_never_saved [OF opened_step [unfolded sample_world_def]] by blast

definition registered_world :: store_world where
  "registered_world = snd (run_op sample_store no_faults (RegisterSource ''a'' ApiKeyIdentity 7) sample_world)"

theorem generation_identifies_profile_witness:
  "pb_revision (sw_published registered_world) = 2
    \<and> map_option plain (profile_named ''a'' (profiles (pb_config (sw_published sample_world))))
        = map_option plain (profile_named ''a'' (profiles (pb_config (sw_published registered_world))))"
proof -
  have step: "store_steps sample_store sample_world registered_world"
    unfolding registered_world_def by (rule r_into_rtranclp) (rule store_step.operation)
  have gen: "pb_generations (sw_published sample_world) ''a'' = Some 1"
    by (simp add: sample_world_def first_world_def first_publication_def)
  have "pb_generations (sw_published registered_world) ''a'' = Some 1 \<and> pb_revision (sw_published registered_world) = 2"
    by (simp add: registered_world_def register_profile_account_source_def sample_world_def first_world_def
      first_publication_def published_profile_def named_profile_sample checked_add_def)
  then show ?thesis
    using generation_identifies_profile [OF sample_valid _ step gen, of "\<lambda>_. NoFile" "catalog []" "[]" "[]"]
    by (simp add: sample_world_def)
qed


theorem directory_switch_refuses_old_syncs_witness:
  "\<exists>op w2. prepare_provider_sync sample_store no_faults ''a'' opened_world = Ok op
    \<and> run_op sample_store no_faults (SetConfigDir ''d'') opened_world = (Inr 0, w2)
    \<and> run_op sample_store no_faults (ApplySync \<lparr> sr_operation = op, sr_fetched = nothing_fetched \<rparr>) w2
        = (Inl (ProfileChanged (profile_name (so_source op))), w2)"
proof -
  obtain p where opened: "co_repository (sw_store opened_world) = Some ''d''"
    "pb_config (sw_published opened_world) = new_snapshot International [p] (Some (\<lambda>_. None))"
    "profile_name p = ''a''"
    and state: "sw_files opened_world = (\<lambda>_. NoFile)" "co_definitions (sw_store opened_world) = catalog []"
    and counters: "co_generation (sw_store opened_world) \<noteq> - 1" "pb_revision (sw_published opened_world) \<noteq> - 1"
      "pb_namespace (sw_published opened_world) \<noteq> - 1"
    using sample_opened by auto
  obtain op where op: "prepare_provider_sync sample_store no_faults ''a'' opened_world = Ok op"
    by (simp add: prepare_provider_sync_def opened published_profile_def named_profile_sample)
  obtain w2 where w2: "run_op sample_store no_faults (SetConfigDir ''d'') opened_world = (Inr 0, w2)"
    using sample_open [OF state counters] by blast
  from directory_switch_refuses_old_syncs [OF op rtranclp.rtrancl_refl w2 rtranclp.rtrancl_refl, of
      "\<lparr> sr_operation = op, sr_fetched = nothing_fetched \<rparr>" no_faults] op w2
  show ?thesis by auto
qed

theorem removal_takes_effect_witness:
  "\<exists>w2. run_op sample_store no_faults (RemoveProvider ''a'') opened_world = (Inr 0, w2)
    \<and> published_profile (sw_published w2) ''a'' = None"
proof -
  obtain p where opened: "sw_files opened_world = (\<lambda>_. NoFile)" "co_repository (sw_store opened_world) = Some ''d''"
    "co_state (sw_store opened_world) = default_config" "co_definitions (sw_store opened_world) = catalog []"
    and counters: "pb_revision (sw_published opened_world) \<noteq> - 1"
    using sample_opened by auto
  let ?cfg = "default_config \<lparr> cfg_providers := [inherited sample_json (labelled []) (CallerDef ''a'')] \<rparr>"
  let ?removed = "default_config \<lparr> cfg_deleted := {''a''} \<rparr>"
  have start: "ensure_definitions sample_json (catalog []) (reconcile_session default_config default_config) = ?cfg"
    using sample_inherited by (simp add: ensure_definitions_def reconcile_session_def default_config_def)
  have removed: "remove_provider ''a'' ?cfg = Ok ?removed"
    by (simp add: remove_provider_def find_account_def account_def default_config_def)
  have ps: "config_profiles sample_json (catalog []) ?removed True = Ok []"
    by (simp add: config_profiles_def inherited_accounts_def) (simp add: catalog_def)
  have fresh: "refresh_fallbacks (catalog []) ?removed = ?removed" by (simp add: refresh_fallbacks_def)
  have ok: "config_ok ?removed" by (simp add: config_ok_def)
  have "validate_profiles sample_store [] = Ok ()" by (simp add: validate_profiles_def)
  then obtain doc where commit: "commit sample_store no_faults (sw_store opened_world)
      ''configuration operation was cancelled before commit'' ?removed
      = Ok ([], doc, co_install sample_store (sw_store opened_world) ?removed)"
    using ok by (simp add: commit_def fresh opened ps repo_write_def validate_config_Ok [THEN iffD2])
  let ?w = "opened_world \<lparr> sw_files := (sw_files opened_world)(''d'' := doc),
      sw_store := co_install sample_store (sw_store opened_world) ?removed \<rparr>"
  have run: "run_op sample_store no_faults (RemoveProvider ''a'') opened_world
      = finish_publish sample_store [] False None 0 ?w"
    using commit by (simp add: update_configuration_def co_update_def opened repo_read_def start removed)
  obtain w2 where w2: "run_op sample_store no_faults (RemoveProvider ''a'') opened_world = (Inr 0, w2)"
    using counters unfolding run finish_publish_def
    by (cases "publish sample_store (co_install sample_store (sw_store opened_world) ?removed)
         (sw_published opened_world) [] False None") (simp_all add: publish_None)
  from removal_takes_effect [OF w2] w2 show ?thesis by blast
qed

theorem override_touches_one_row_witness:
  "\<exists>cfg' p'. set_model_override sample_store (catalog [''A'']) ''a'' ''definition:w A'' HiddenField (SetField (JBool True))
      untracked_session = Ok cfg' \<and> account ''a'' (cfg_providers cfg') = Some p'
    \<and> (\<exists>before old after. map row_settings (sp_models p')
        = before @ (''definition:w A'', old(HiddenField \<mapsto> JBool True)) # after)"
proof -
  obtain cfg' where cfg': "set_model_override sample_store (catalog [''A'']) ''a'' ''definition:w A'' HiddenField
      (SetField (JBool True)) untracked_session = Ok cfg'"
    by (simp add: set_model_override_def find_account_def account_def untracked_session_def inherited_def
      account_rows_def definition_of_catalog definition_rows_def model_keys_def
      merged_rows_def adopt_rows_def adopt_moved_def unique_row_def row_keys_def map_filter_simps
      Let_def removed_default_def configure_row_def base_model_def row_model_def observe_model_def apply_values_def
      default_row_def row_id_def sample_json_def ensure_row_def adopt_observed_def put_row_def override_row_def account_name_def)
  from override_touches_one_row [OF this] cfg' show ?thesis by blast
qed

theorem written_file_reads_back_witness:
  "repo_read sample_store (JsonFile (JObject [(''version'', JNumber (PosInt 3))])) = Ok default_config"
proof -
  have persisted: "persisted default_config = default_config" "file_config default_config = default_config"
    by (simp_all add: persisted_def file_config_def)
  have "repo_write sample_store no_faults default_config = Ok (JsonFile (JObject [(''version'', JNumber (PosInt 3))]))"
    by (simp add: repo_write_Ok config_ok_default persisted)
  from written_file_reads_back [OF this] show ?thesis
    by (simp add: persisted remove_obsolete_decisions_def saved_version_def)
qed

end
