(* ===== verification/Json_Scanner.thy ===== *)
theory Json_Scanner
  imports Stream_Events "HOL-Library.AList"
begin

text \<open>
  The JSON scanner of provider responses (\<^verbatim>\<open>src/response_json.rs\<close>): a parser over the
  UTF-8 source with an explicit stack of frames, which builds a flat document of numbered
  nodes, remembers the source span of each and keeps the exact UTF-16 units of strings and
  keys that Rust cannot hold.

  A \<^verbatim>\<open>String\<close> of decoded text is a list of scalar values, so an offset into the current
  path counts scalar values; offsets into the source count bytes.  A \<^verbatim>\<open>BTreeMap\<close> is an
  association list with distinct keys: the scanner never reads its order.  Indexing out of
  range, slicing between the bytes of a character and a failed \<^verbatim>\<open>expect\<close> are the value
  \<open>ScanPanic\<close>.
\<close>

section \<open>The document\<close>

datatype flat_json_kind = KindNull | KindBoolean | KindNumber | KindString | KindArray | KindObject

datatype flat_node =
    Primitive bytes
  | StringNode scalars
  | ArrayNode "nat list"
  | ObjectNode "(scalars \<times> u16 list \<times> nat) list"

type_synonym span = "nat \<times> nat"

record flat_document =
  doc_root :: nat
  doc_nodes :: "flat_node list"
  doc_node_pointers :: "scalars list"
  doc_node_source_spans :: "span list"
  doc_node_exact_strings :: "(nat \<times> u16 list) list"
  doc_pointer_nodes :: "(scalars \<times> nat) list"
  doc_source_spans :: "(scalars \<times> span) list"
  doc_exact_strings :: "(scalars \<times> u16 list) list"
  doc_exact_keys :: "(scalars \<times> u16 list) list"

datatype frame_state =
  FirstArray | ArrayValue | ArrayComma | FirstObject | ObjectKey | ObjectColon | ObjectValue | ObjectComma

record frame =
  frame_node :: nat
  frame_at :: frame_state
  frame_key :: "(scalars \<times> u16 list) option"
  path_component :: "scalars option"

datatype scan_error = ScanError string | ScanPanic

record json_parser =
  source :: bytes
  offset :: nat
  nodes :: "flat_node list"
  starts :: "nat list"
  node_pointers :: "scalars list"
  node_source_spans :: "span list"
  node_exact_strings :: "(nat \<times> u16 list) list"
  pointer_nodes :: "(scalars \<times> nat) list"
  path_offsets :: "nat list"
  current_path :: scalars
  source_spans :: "(scalars \<times> span) list"
  exact_strings :: "(scalars \<times> u16 list) list"
  exact_keys :: "(scalars \<times> u16 list) list"

definition new_parser :: "bytes \<Rightarrow> json_parser" where
  "new_parser s = \<lparr> source = s, offset = 0, nodes = [], starts = [], node_pointers = [],
     node_source_spans = [], node_exact_strings = [], pointer_nodes = [], path_offsets = [],
     current_path = [], source_spans = [], exact_strings = [], exact_keys = [] \<rparr>"

definition get_node :: "json_parser \<Rightarrow> nat \<Rightarrow> flat_node option" where
  "get_node st i = (if i < length (nodes st) then Some (nodes st ! i) else None)"

section \<open>Bytes\<close>

definition peek :: "json_parser \<Rightarrow> byte option" where
  "peek st = (if offset st < length (source st) then Some (source st ! offset st) else None)"

definition is_json_ws :: "byte \<Rightarrow> bool" where
  "is_json_ws b \<longleftrightarrow> b = 0x20 \<or> b = 0x09 \<or> b = 0x0D \<or> b = 0x0A"

definition whitespace :: "json_parser \<Rightarrow> json_parser" where
  "whitespace st =
    st \<lparr> offset := offset st + length (takeWhile is_json_ws (drop (offset st) (source st))) \<rparr>"

definition advance :: "nat \<Rightarrow> json_parser \<Rightarrow> json_parser" where
  "advance n st = st \<lparr> offset := offset st + n \<rparr>"

definition consume :: "byte \<Rightarrow> json_parser \<Rightarrow> bool \<times> json_parser" where
  "consume b st =
    (let st = whitespace st in if peek st = Some b then (True, advance 1 st) else (False, st))"

definition is_ascii_digit :: "byte \<Rightarrow> bool" where
  "is_ascii_digit b \<longleftrightarrow> 0x30 \<le> b \<and> b \<le> 0x39"

text \<open>\<^verbatim>\<open>str::get\<close> gives nothing when an end lies between the bytes of a character.\<close>

definition is_char_boundary :: "bytes \<Rightarrow> nat \<Rightarrow> bool" where
  "is_char_boundary s i \<longleftrightarrow> i \<le> length s \<and> (i < length s \<longrightarrow> \<not> is_cont (s ! i))"

definition str_get :: "bytes \<Rightarrow> span \<Rightarrow> bytes option" where
  "str_get s r =
    (if fst r \<le> snd r \<and> is_char_boundary s (fst r) \<and> is_char_boundary s (snd r)
     then Some (take (snd r - fst r) (drop (fst r) s)) else None)"

text \<open>\<^verbatim>\<open>chars().next()\<close> of valid UTF-8: the scalar value and its length in bytes.\<close>

definition next_char :: "bytes \<Rightarrow> (scalar \<times> nat) option" where
  "next_char bs =
    (case bs of
       [] \<Rightarrow> None
     | a # r \<Rightarrow>
         (let low = (\<lambda>i. unat (r ! i) mod 0x40) in
          if utf8_width a = 1 then Some (unat a, 1)
          else if utf8_width a = 2 \<and> 1 \<le> length r then Some (unat a mod 0x20 * 0x40 + low 0, 2)
          else if utf8_width a = 3 \<and> 2 \<le> length r
            then Some ((unat a mod 0x10 * 0x40 + low 0) * 0x40 + low 1, 3)
          else if utf8_width a = 4 \<and> 3 \<le> length r
            then Some (((unat a mod 0x08 * 0x40 + low 0) * 0x40 + low 1) * 0x40 + low 2, 4)
          else None))"

section \<open>Tokens\<close>

definition hex_value :: "byte \<Rightarrow> nat option" where
  "hex_value b =
    (if 0x30 \<le> b \<and> b \<le> 0x39 then Some (unat b - 0x30)
     else if 0x61 \<le> b \<and> b \<le> 0x66 then Some (unat b - 0x61 + 10)
     else if 0x41 \<le> b \<and> b \<le> 0x46 then Some (unat b - 0x41 + 10) else None)"

text \<open>The checked 16-bit accumulation of four hexadecimal digits.\<close>

fun hex_fold :: "nat \<Rightarrow> bytes \<Rightarrow> nat option" where
  "hex_fold v [] = Some v"
| "hex_fold v (d # ds) =
    (if 16 * v < 2 ^ 16
     then (case hex_value d of
             Some h \<Rightarrow> if 16 * v + h < 2 ^ 16 then hex_fold (16 * v + h) ds else None
           | None \<Rightarrow> None)
     else None)"

definition hex_unit :: "bytes \<Rightarrow> nat \<Rightarrow> scan_error + u16" where
  "hex_unit s i =
    (if i + 4 \<le> length s
     then (case hex_fold 0 (take 4 (drop i s)) of
             Some v \<Rightarrow> Ok (word_of_nat v)
           | None \<Rightarrow> Err (ScanError ''invalid JSON unicode escape''))
     else Err (ScanError ''short JSON unicode escape''))"

definition simple_escape :: "byte \<Rightarrow> u16 option" where
  "simple_escape e =
    (if e = 0x22 then Some 0x22 else if e = 0x5C then Some 0x5C else if e = 0x2F then Some 0x2F
     else if e = 0x62 then Some 0x08 else if e = 0x66 then Some 0x0C else if e = 0x6E then Some 0x0A
     else if e = 0x72 then Some 0x0D else if e = 0x74 then Some 0x09 else None)"

lemma next_char_width: "next_char bs = Some (c, k) \<Longrightarrow> 1 \<le> k \<and> k \<le> length bs"
  by (cases bs) (auto simp: next_char_def Let_def split: if_splits)

text \<open>The loop of \<^verbatim>\<open>string\<close>, from the byte after the opening quote.\<close>

function string_loop :: "bytes \<Rightarrow> nat \<Rightarrow> u16 list \<Rightarrow> scan_error + u16 list \<times> nat" where
  "string_loop s i units =
    (if \<not> i < length s then Err (ScanError ''unterminated JSON string'')
     else
       (let b = s ! i in
        if b = 0x22 then Ok (units, i + 1)
        else if b = 0x5C then
          (if \<not> i + 1 < length s then Err (ScanError ''unterminated JSON escape'')
           else
             (let e = s ! (i + 1) in
              case simple_escape e of
                Some u \<Rightarrow> string_loop s (i + 2) (units @ [u])
              | None \<Rightarrow>
                  if e = 0x75
                  then (case hex_unit s (i + 2) of
                          Inl m \<Rightarrow> Err m
                        | Inr u \<Rightarrow> string_loop s (i + 6) (units @ [u]))
                  else Err (ScanError ''invalid JSON string escape'')))
        else if b < 0x20 then Err (ScanError ''unescaped control character in JSON string'')
        else if \<not> is_char_boundary s i then Err ScanPanic
        else (case next_char (drop i s) of
                None \<Rightarrow> Err (ScanError ''invalid UTF-8 in JSON string'')
              | Some (c, k) \<Rightarrow> string_loop s (i + k) (units @ utf16_of_scalar c))))"
  by pat_completeness auto

termination
  by (relation "measure (\<lambda>(s, i, units). length s - i)")
    (auto dest: next_char_width)

declare string_loop.simps [simp del]

text \<open>Every unpaired surrogate becomes U+FFFD; the result is expected to be well formed.\<close>

fun replace_lone :: "u16 list \<Rightarrow> u16 list" where
  "replace_lone [] = []"
| "replace_lone [u] = [if is_high u \<or> is_low u then 0xFFFD else u]"
| "replace_lone (u # v # r) =
    (if is_high u \<and> is_low v then u # v # replace_lone r
     else (if is_high u \<or> is_low u then 0xFFFD else u) # replace_lone (v # r))"

definition normalize_lone_units :: "u16 list \<Rightarrow> scan_error + scalars" where
  "normalize_lone_units us =
    (let d = replace_lone us in if utf16_valid d then Ok (from_utf16_lossy d) else Err ScanPanic)"

definition scan_string :: "json_parser \<Rightarrow> scan_error + (scalars \<times> u16 list option) \<times> json_parser" where
  "scan_string st =
    (case consume 0x22 st of
       (False, _) \<Rightarrow> Err (ScanError ''expected a JSON string'')
     | (True, st) \<Rightarrow>
         bind_result (string_loop (source st) (offset st) []) (\<lambda>(units, i).
         if utf16_valid units then Ok ((from_utf16_lossy units, None), st \<lparr> offset := i \<rparr>)
         else bind_result (normalize_lone_units units) (\<lambda>shown.
           Ok ((shown, Some units), st \<lparr> offset := i \<rparr>))))"

definition digits :: "json_parser \<Rightarrow> bool \<times> json_parser" where
  "digits st =
    (let n = length (takeWhile is_ascii_digit (drop (offset st) (source st))) in (n \<noteq> 0, advance n st))"

definition number_int :: "json_parser \<Rightarrow> scan_error + json_parser" where
  "number_int st =
    (let st = (if peek st = Some 0x2D then advance 1 st else st) in
     case peek st of
       Some b \<Rightarrow>
         if b = 0x30 then Ok (advance 1 st)
         else if 0x31 \<le> b \<and> b \<le> 0x39 then Ok (snd (digits st))
         else Err (ScanError ''invalid JSON number'')
     | None \<Rightarrow> Err (ScanError ''invalid JSON number''))"

definition number_frac :: "json_parser \<Rightarrow> scan_error + json_parser" where
  "number_frac st =
    (if peek st = Some 0x2E
     then (case digits (advance 1 st) of
             (True, st) \<Rightarrow> Ok st
           | (False, _) \<Rightarrow> Err (ScanError ''invalid JSON number fraction''))
     else Ok st)"

definition number_exp :: "json_parser \<Rightarrow> scan_error + json_parser" where
  "number_exp st =
    (if peek st = Some 0x65 \<or> peek st = Some 0x45
     then (let st = advance 1 st;
               st = (if peek st = Some 0x2B \<or> peek st = Some 0x2D then advance 1 st else st) in
           case digits st of
             (True, st) \<Rightarrow> Ok st
           | (False, _) \<Rightarrow> Err (ScanError ''invalid JSON number exponent''))
     else Ok st)"

definition number :: "json_parser \<Rightarrow> scan_error + json_parser" where
  "number st = bind_result (number_int st) (\<lambda>st. bind_result (number_frac st) number_exp)"

definition literal :: "bytes \<Rightarrow> json_parser \<Rightarrow> scan_error + json_parser" where
  "literal l st =
    (if is_char_boundary (source st) (offset st) \<and> starts_with (drop (offset st) (source st)) l
     then Ok (advance (length l) st) else Err (ScanError ''invalid JSON literal''))"

section \<open>Pointers\<close>

definition scalars_of :: "string \<Rightarrow> scalars" where
  "scalars_of s = map of_char s"

definition escape_scalar :: "scalar \<Rightarrow> scalars" where
  "escape_scalar c = (if c = 0x7E then [0x7E, 0x30] else if c = 0x2F then [0x7E, 0x31] else [c])"

definition push_pointer_segment :: "scalars \<Rightarrow> scalars \<Rightarrow> scalars" where
  "push_pointer_segment p seg =
    (if \<not> List.member seg 0x7E \<and> \<not> List.member seg 0x2F then p @ [0x2F] @ seg
     else p @ [0x2F] @ concat (map escape_scalar seg))"

definition pointer_is_within :: "scalars \<Rightarrow> scalars \<Rightarrow> bool" where
  "pointer_is_within candidate p \<longleftrightarrow>
    p = [] \<or> candidate = p
    \<or> (case strip_prefix p candidate of Some r \<Rightarrow> starts_with r [0x2F] | None \<Rightarrow> False)"

definition push_path :: "scalars \<Rightarrow> json_parser \<Rightarrow> json_parser" where
  "push_path c st =
    st \<lparr> path_offsets := path_offsets st @ [length (current_path st)],
         current_path := push_pointer_segment (current_path st) c \<rparr>"

definition pop_path :: "json_parser \<Rightarrow> scan_error + json_parser" where
  "pop_path st =
    (if path_offsets st = [] then Err (ScanError ''missing JSON path component'')
     else Ok (st \<lparr> path_offsets := butlast (path_offsets st),
                   current_path := take (last (path_offsets st)) (current_path st) \<rparr>))"

definition pop_path_expect :: "json_parser \<Rightarrow> scan_error + json_parser" where
  "pop_path_expect st = (case pop_path st of Inl _ \<Rightarrow> Err ScanPanic | Inr st \<Rightarrow> Ok st)"

definition pointer_with_child :: "json_parser \<Rightarrow> scalars \<Rightarrow> scalars" where
  "pointer_with_child st c = push_pointer_segment (current_path st) c"

definition outside :: "scalars \<Rightarrow> (scalars \<times> 'v) list \<Rightarrow> (scalars \<times> 'v) list" where
  "outside p m = filter (\<lambda>kv. \<not> pointer_is_within (fst kv) p) m"

definition clear_replaced_subtree :: "scalars \<Rightarrow> json_parser \<Rightarrow> json_parser" where
  "clear_replaced_subtree p st =
    st \<lparr> exact_strings := outside p (exact_strings st), exact_keys := outside p (exact_keys st),
         source_spans := outside p (source_spans st), pointer_nodes := outside p (pointer_nodes st) \<rparr>"

section \<open>Values\<close>

definition push_node :: "flat_node \<Rightarrow> nat \<Rightarrow> scalars \<Rightarrow> json_parser \<Rightarrow> nat \<times> json_parser" where
  "push_node nd start p st =
    (let i = length (nodes st) in
     (i, st \<lparr> nodes := nodes st @ [nd], starts := starts st @ [start],
              node_pointers := node_pointers st @ [p],
              node_source_spans := node_source_spans st @ [(start, offset st)],
              pointer_nodes := AList.update p i (pointer_nodes st) \<rparr>))"

definition literal_null :: bytes where "literal_null = [0x6E, 0x75, 0x6C, 0x6C]"
definition literal_true :: bytes where "literal_true = [0x74, 0x72, 0x75, 0x65]"
definition literal_false :: bytes where "literal_false = [0x66, 0x61, 0x6C, 0x73, 0x65]"

definition primitive_text :: "json_parser \<Rightarrow> scan_error + json_parser" where
  "primitive_text st =
    (case peek st of
       None \<Rightarrow> Err (ScanError ''expected a JSON value'')
     | Some b \<Rightarrow>
         if b = 0x6E then literal literal_null st
         else if b = 0x74 then literal literal_true st
         else if b = 0x66 then literal literal_false st
         else if b = 0x2D \<or> is_ascii_digit b then number st
         else Err (ScanError ''expected a JSON value''))"

definition primitive ::
  "nat \<Rightarrow> scalars \<Rightarrow> json_parser \<Rightarrow> scan_error + (nat \<times> frame_state option) \<times> json_parser" where
  "primitive start p st =
    bind_result (primitive_text st) (\<lambda>st.
    case str_get (source st) (start, offset st) of
      None \<Rightarrow> Err (ScanError ''invalid JSON primitive boundary'')
    | Some raw \<Rightarrow> (case push_node (Primitive raw) start p st of (i, st) \<Rightarrow> Ok ((i, None), st)))"

definition note_exact :: "nat \<Rightarrow> u16 list option \<Rightarrow> json_parser \<Rightarrow> json_parser" where
  "note_exact i exact st =
    (case exact of
       Some units \<Rightarrow>
         st \<lparr> node_exact_strings := AList.update i units (node_exact_strings st),
              exact_strings := AList.update (current_path st) units (exact_strings st) \<rparr>
     | None \<Rightarrow> st)"

definition note_span :: "scalars \<Rightarrow> span \<Rightarrow> json_parser \<Rightarrow> json_parser" where
  "note_span p r st = st \<lparr> source_spans := AList.update p r (source_spans st) \<rparr>"

definition json_value :: "json_parser \<Rightarrow> scan_error + (nat \<times> frame_state option) \<times> json_parser" where
  "json_value st =
    (let st = whitespace st; start = offset st; p = current_path st in
     case peek st of
       None \<Rightarrow> Err (ScanError ''unexpected end of JSON'')
     | Some b \<Rightarrow>
         if b = 0x7B then
           (case push_node (ObjectNode []) start p (advance 1 st) of
              (i, st) \<Rightarrow> Ok ((i, Some FirstObject), st))
         else if b = 0x5B then
           (case push_node (ArrayNode []) start p (advance 1 st) of
              (i, st) \<Rightarrow> Ok ((i, Some FirstArray), st))
         else if b = 0x22 then
           bind_result (scan_string st) (\<lambda>((shown, exact), st).
           case push_node (StringNode shown) start p st of
             (i, st) \<Rightarrow> Ok ((i, None), note_span p (start, offset st) (note_exact i exact st)))
         else
           bind_result (primitive start p st) (\<lambda>(ns, st). Ok (ns, note_span p (start, offset st) st)))"

section \<open>Frames\<close>

text \<open>A stack has its top, the last element of the vector, first.\<close>

definition missing_frame :: scan_error where
  "missing_frame = ScanError ''missing JSON parser frame''"

definition opened :: "nat \<Rightarrow> frame_state option \<Rightarrow> scalars \<Rightarrow> frame list \<Rightarrow> json_parser
    \<Rightarrow> scan_error + json_parser \<times> frame list" where
  "opened i state component stack st =
    (case state of
       Some s \<Rightarrow>
         Ok (st, \<lparr> frame_node = i, frame_at = s, frame_key = None, path_component = Some component \<rparr> # stack)
     | None \<Rightarrow> bind_result (pop_path_expect st) (\<lambda>st. Ok (st, stack)))"

fun set_top :: "frame_state \<Rightarrow> frame list \<Rightarrow> scan_error + frame list" where
  "set_top s [] = Err missing_frame"
| "set_top s (f # fs) = Ok (f \<lparr> frame_at := s \<rparr> # fs)"

definition array_value ::
  "nat \<Rightarrow> json_parser \<Rightarrow> frame list \<Rightarrow> scan_error + json_parser \<times> frame list" where
  "array_value parent st stack =
    (case get_node st parent of
       Some (ArrayNode items) \<Rightarrow>
         (let component = scalars_of (decimal (length items)) in
          bind_result (json_value (push_path component st)) (\<lambda>((child, state), st).
          case get_node st parent of
            Some (ArrayNode items) \<Rightarrow>
              bind_result (set_top ArrayComma stack) (\<lambda>stack.
              opened child state component stack
                (st \<lparr> nodes := (nodes st)[parent := ArrayNode (items @ [child])] \<rparr>))
          | _ \<Rightarrow> Err (ScanError ''array frame does not reference an array node'')))
     | _ \<Rightarrow> Err (ScanError ''array frame does not reference an array node''))"

definition object_key :: "json_parser \<Rightarrow> frame list \<Rightarrow> scan_error + json_parser \<times> frame list" where
  "object_key st stack =
    (if peek st \<noteq> Some 0x22 then Err (ScanError ''expected a JSON object key'')
     else
       bind_result (scan_string st) (\<lambda>((key, exact), st).
       let units = (case exact of Some us \<Rightarrow> us | None \<Rightarrow> encode_utf16 key) in
       case stack of
         [] \<Rightarrow> Err missing_frame
       | f # fs \<Rightarrow> Ok (st, f \<lparr> frame_key := Some (key, units), frame_at := ObjectColon \<rparr> # fs)))"

text \<open>A member with an existing key keeps its place and takes the new value.\<close>

fun put_field :: "scalars \<Rightarrow> u16 list \<Rightarrow> nat \<Rightarrow> (scalars \<times> u16 list \<times> nat) list
    \<Rightarrow> (scalars \<times> u16 list \<times> nat) list" where
  "put_field key units child [] = [(key, units, child)]"
| "put_field key units child ((k, u, i) # r) =
    (if u = units then (k, u, child) # r else (k, u, i) # put_field key units child r)"

definition note_key :: "scalars \<Rightarrow> u16 list \<Rightarrow> json_parser \<Rightarrow> json_parser" where
  "note_key p units st =
    (if encode_utf16 (from_utf16_lossy units) \<noteq> units
     then st \<lparr> exact_keys := AList.update p units (exact_keys st) \<rparr> else st)"

definition object_value ::
  "nat \<Rightarrow> json_parser \<Rightarrow> frame list \<Rightarrow> scan_error + json_parser \<times> frame list" where
  "object_value parent st stack =
    (case stack of
       [] \<Rightarrow> Err (ScanError ''object value is missing its key'')
     | f # fs \<Rightarrow>
         (case frame_key f of
            None \<Rightarrow> Err (ScanError ''object value is missing its key'')
          | Some (key, units) \<Rightarrow>
              (let stack = f \<lparr> frame_key := None \<rparr> # fs in
               case get_node st parent of
                 Some (ObjectNode members) \<Rightarrow>
                   (let p = pointer_with_child st key;
                        st = (if list_ex (\<lambda>(_, u, _). u = units) members
                              then clear_replaced_subtree p st else st);
                        st = push_path key (note_key p units st) in
                    bind_result (json_value st) (\<lambda>((child, state), st).
                    case get_node st parent of
                      Some (ObjectNode members) \<Rightarrow>
                        bind_result (set_top ObjectComma stack) (\<lambda>stack.
                        opened child state key stack
                          (st \<lparr> nodes := (nodes st)[parent := ObjectNode (put_field key units child members)] \<rparr>))
                    | _ \<Rightarrow> Err (ScanError ''object frame does not reference an object node'')))
               | _ \<Rightarrow> Err (ScanError ''object frame does not reference an object node''))))"

definition pop_frame :: "json_parser \<Rightarrow> frame list \<Rightarrow> scan_error + json_parser \<times> frame list" where
  "pop_frame st stack =
    (case stack of
       [] \<Rightarrow> Err missing_frame
     | f # fs \<Rightarrow>
         if frame_node f < length (starts st)
         then
           (let r = (starts st ! frame_node f, offset st);
                st = note_span (current_path st) r st in
            if frame_node f < length (node_source_spans st)
            then
              (let st = st \<lparr> node_source_spans := (node_source_spans st)[frame_node f := r] \<rparr> in
               case path_component f of
                 Some _ \<Rightarrow> bind_result (pop_path st) (\<lambda>st. Ok (st, fs))
               | None \<Rightarrow> Ok (st, fs))
            else Err ScanPanic)
         else Err (ScanError ''missing JSON source span start''))"

text \<open>One turn of the loop of \<^verbatim>\<open>document\<close>.\<close>

definition frame_step :: "json_parser \<Rightarrow> frame list \<Rightarrow> scan_error + json_parser \<times> frame list" where
  "frame_step st stack =
    (let st = whitespace st in
     case stack of
       [] \<Rightarrow> Err missing_frame
     | f # fs \<Rightarrow>
         (case frame_at f of
            FirstArray \<Rightarrow>
              (case consume 0x5D st of
                 (True, st) \<Rightarrow> pop_frame st stack
               | (False, st) \<Rightarrow> array_value (frame_node f) st stack)
          | ArrayValue \<Rightarrow> array_value (frame_node f) st stack
          | ArrayComma \<Rightarrow>
              (case consume 0x5D st of
                 (True, st) \<Rightarrow> pop_frame st stack
               | (False, st) \<Rightarrow>
                   (case consume 0x2C st of
                      (True, st) \<Rightarrow> bind_result (set_top ArrayValue stack) (\<lambda>stack. Ok (st, stack))
                    | (False, _) \<Rightarrow>
                        Err (ScanError ''expected a comma or closing bracket in a JSON array'')))
          | FirstObject \<Rightarrow>
              (case consume 0x7D st of
                 (True, st) \<Rightarrow> pop_frame st stack
               | (False, st) \<Rightarrow> object_key st stack)
          | ObjectKey \<Rightarrow> object_key st stack
          | ObjectColon \<Rightarrow>
              (case consume 0x3A st of
                 (True, st) \<Rightarrow> bind_result (set_top ObjectValue stack) (\<lambda>stack. Ok (st, stack))
               | (False, _) \<Rightarrow> Err (ScanError ''expected a colon after a JSON object key''))
          | ObjectValue \<Rightarrow> object_value (frame_node f) st stack
          | ObjectComma \<Rightarrow>
              (case consume 0x7D st of
                 (True, st) \<Rightarrow> pop_frame st stack
               | (False, st) \<Rightarrow>
                   (case consume 0x2C st of
                      (True, st) \<Rightarrow> bind_result (set_top ObjectKey stack) (\<lambda>stack. Ok (st, stack))
                    | (False, _) \<Rightarrow>
                        Err (ScanError ''expected a comma or closing brace in a JSON object'')))))"

section \<open>Termination\<close>

text \<open>Every turn of the loop reads at least one byte.\<close>

definition moves :: "json_parser \<Rightarrow> json_parser \<Rightarrow> bool" where
  "moves st st' \<longleftrightarrow> source st' = source st \<and> offset st \<le> offset st'
    \<and> (offset st \<le> length (source st) \<longrightarrow> offset st' \<le> length (source st))"

definition moves_on :: "json_parser \<Rightarrow> json_parser \<Rightarrow> bool" where
  "moves_on st st' \<longleftrightarrow> moves st st' \<and> offset st < offset st' \<and> offset st < length (source st)"

named_theorems moving "how far the parts of the scanner move"

lemma moves_refl [moving]: "moves st st"
  by (simp add: moves_def)

lemma moves_trans: "moves a b \<Longrightarrow> moves b c \<Longrightarrow> moves a c"
  by (auto simp: moves_def)

lemma moves_on_trans: "moves_on a b \<Longrightarrow> moves b c \<Longrightarrow> moves_on a c"
  by (auto simp: moves_def moves_on_def)

lemma moves_then_on: "moves a b \<Longrightarrow> moves_on b c \<Longrightarrow> moves_on a c"
  by (auto simp: moves_def moves_on_def)

lemma moves_on_moves: "moves_on a b \<Longrightarrow> moves a b"
  by (simp add: moves_on_def)

lemma peek_Some: "peek st = Some b \<longleftrightarrow> offset st < length (source st) \<and> source st ! offset st = b"
  by (auto simp: peek_def)

lemma moves_advance: "peek st = Some b \<Longrightarrow> moves_on st (advance 1 st)"
  by (auto simp: moves_def moves_on_def advance_def peek_Some)

lemma length_takeWhile_drop: "i \<le> length s \<Longrightarrow> i + length (takeWhile P (drop i s)) \<le> length s"
  using length_takeWhile_le [of P "drop i s"] by simp

lemma moves_whitespace: "moves st (whitespace st)"
  by (auto simp: moves_def whitespace_def length_takeWhile_drop)

lemma moves_consume: "consume b st = (True, st') \<Longrightarrow> moves_on st st'"
  unfolding consume_def Let_def
  by (auto split: if_splits intro: moves_then_on [OF moves_whitespace] moves_advance [simplified])

lemma stays_consume: "consume b st = (False, st') \<Longrightarrow> moves st st'"
  unfolding consume_def Let_def by (auto split: if_splits intro: moves_whitespace)

lemma moves_digits: "moves st (snd (digits st))"
  by (auto simp: digits_def Let_def moves_def advance_def length_takeWhile_drop)

lemma string_loop_cases [consumes 1, case_names quote escape unicode char]:
  assumes "string_loop s i us = Ok r"
  obtains "i < length s" "s ! i = 0x22" "r = (us, i + 1)"
  | u where "i + 1 < length s" "s ! i = 0x5C" "simple_escape (s ! (i + 1)) = Some u"
      "string_loop s (i + 2) (us @ [u]) = Ok r"
  | u where "i + 1 < length s" "s ! i = 0x5C" "simple_escape (s ! (i + 1)) = None" "s ! (i + 1) = 0x75"
      "hex_unit s (i + 2) = Ok u" "string_loop s (i + 6) (us @ [u]) = Ok r"
  | c k where "i < length s" "s ! i \<noteq> 0x22" "s ! i \<noteq> 0x5C" "\<not> s ! i < 0x20"
      "is_char_boundary s i" "next_char (drop i s) = Some (c, k)"
      "string_loop s (i + k) (us @ utf16_of_scalar c) = Ok r"
proof (cases "i < length s \<and> s ! i \<noteq> 0x22")
  case False
  then show ?thesis
    using assms that(1) by (subst (asm) string_loop.simps) (simp add: Let_def split: if_splits)
next
  case inside: True
  show ?thesis
  proof (cases "s ! i = 0x5C")
    case True
    then show ?thesis
      using inside assms that(2,3)
      by (subst (asm) string_loop.simps)
        (simp add: Let_def split: if_splits option.splits sum.splits)
  next
    case False
    then show ?thesis
      using inside assms that(4)
      by (subst (asm) string_loop.simps)
        (simp add: Let_def split: if_splits option.splits prod.splits)
  qed
qed

lemma hex_unit_short: "hex_unit s i = Ok u \<Longrightarrow> i + 4 \<le> length s"
  by (simp add: hex_unit_def split: if_splits)

lemma string_loop_moves:
  "string_loop s i us = Ok (us', j) \<Longrightarrow> i < j \<and> i < length s \<and> j \<le> length s"
proof (induction "length s - i" arbitrary: i us rule: less_induct)
  case less
  from less.prems show ?case
  proof (cases rule: string_loop_cases)
    case (unicode u)
    then show ?thesis using less.hyps [of "i + 6"] by fastforce
  next
    case (char c k)
    then show ?thesis using less.hyps [of "i + k"] next_char_width [of "drop i s" c k] by fastforce
  qed (use less.hyps [of "i + 2"] in fastforce)+
qed

lemma moves_offset:
  "offset st < i \<Longrightarrow> i \<le> length (source st) \<Longrightarrow> moves_on st (st \<lparr> offset := i \<rparr>)"
  by (simp add: moves_def moves_on_def)

lemma bookkeeping_moves [simp]:
  "source (push_path c st) = source st" "offset (push_path c st) = offset st"
  "source (note_span p r st) = source st" "offset (note_span p r st) = offset st"
  "source (note_exact i exact st) = source st" "offset (note_exact i exact st) = offset st"
  "source (note_key p units st) = source st" "offset (note_key p units st) = offset st"
  "source (clear_replaced_subtree p st) = source st" "offset (clear_replaced_subtree p st) = offset st"
  by (simp_all add: push_path_def note_span_def note_exact_def note_key_def
      clear_replaced_subtree_def split: option.splits)

lemma push_node_moves:
  "push_node nd start p st = (i, st') \<Longrightarrow> i = length (nodes st) \<and> source st' = source st \<and> offset st' = offset st"
  by (auto simp: push_node_def Let_def)

lemma pop_path_moves: "pop_path st = Ok st' \<Longrightarrow> source st' = source st \<and> offset st' = offset st"
  by (auto simp: pop_path_def split: if_splits)

lemma pop_path_expect_moves:
  "pop_path_expect st = Ok st' \<Longrightarrow> source st' = source st \<and> offset st' = offset st"
  by (auto simp: pop_path_expect_def split: sum.splits dest: pop_path_moves)

lemma moves_same:
  "moves a b \<Longrightarrow> source b' = source b \<Longrightarrow> offset b' = offset b \<Longrightarrow> moves a b'"
  by (simp add: moves_def)

lemma moves_on_same:
  "moves_on a b \<Longrightarrow> source b' = source b \<Longrightarrow> offset b' = offset b \<Longrightarrow> moves_on a b'"
  by (simp add: moves_on_def moves_def)

lemma scan_string_moves: "scan_string st = Ok (r, st') \<Longrightarrow> moves_on st st'"
  unfolding scan_string_def bind_result_Inr
proof (clarsimp simp: split: prod.splits bool.splits)
  fix st1
  assume c: "consume 0x22 st = (True, st1)"
    and e: "bind_result (string_loop (source st1) (offset st1) [])
       (\<lambda>(units, i). if utf16_valid units then Ok ((from_utf16_lossy units, None), st1 \<lparr> offset := i \<rparr>)
          else bind_result (normalize_lone_units units) (\<lambda>shown. Ok ((shown, Some units), st1 \<lparr> offset := i \<rparr>)))
     = Ok (r, st')"
  from e obtain us i where l: "string_loop (source st1) (offset st1) [] = Ok (us, i)"
    and st': "st' = st1 \<lparr> offset := i \<rparr>"
    by (auto simp: bind_result_Inr split: if_splits)
  have "moves_on st1 st'"
    unfolding st' using string_loop_moves [OF l] by (intro moves_offset) auto
  then show "moves_on st st'"
    using moves_consume [OF c] by (rule moves_on_trans [OF _ moves_on_moves, rotated])
qed

lemma digits_True: "digits st = (True, st') \<Longrightarrow> moves_on st st'"
proof -
  assume d: "digits st = (True, st')"
  then have "takeWhile is_ascii_digit (drop (offset st) (source st)) \<noteq> []"
    and st': "st' = advance (length (takeWhile is_ascii_digit (drop (offset st) (source st)))) st"
    by (auto simp: digits_def Let_def)
  then have "offset st < length (source st)" by (cases "offset st < length (source st)") auto
  moreover have "offset st < offset st'"
    using \<open>takeWhile _ _ \<noteq> []\<close> by (simp add: st' advance_def)
  moreover have "moves st st'" using moves_digits [of st] d by simp
  ultimately show ?thesis by (simp add: moves_on_def)
qed

lemma digits_at_digit: "peek st = Some b \<Longrightarrow> is_ascii_digit b \<Longrightarrow> digits st = (True, snd (digits st))"
  by (auto simp: digits_def Let_def peek_Some Cons_nth_drop_Suc [symmetric])

lemma digit_from_1: "0x31 \<le> b \<Longrightarrow> b \<le> 0x39 \<Longrightarrow> is_ascii_digit b"
  by (simp add: is_ascii_digit_def word_le_nat_alt)

lemma number_int_moves: "number_int st = Ok st' \<Longrightarrow> moves_on st st'"
proof -
  assume n: "number_int st = Ok st'"
  define st1 where "st1 = (if peek st = Some 0x2D then advance 1 st else st)"
  have st1: "moves st st1"
    by (auto simp: st1_def intro: moves_refl moves_on_moves moves_advance [simplified])
  from n obtain b where b: "peek st1 = Some b" "b = 0x30 \<and> st' = advance 1 st1
      \<or> is_ascii_digit b \<and> st' = snd (digits st1)"
    unfolding number_int_def Let_def st1_def [symmetric]
    by (auto split: option.splits if_splits intro: digit_from_1)
  then have "moves_on st1 st'"
    by (auto intro: moves_advance [simplified] digits_True dest: digits_at_digit)
  with st1 show ?thesis by (rule moves_then_on)
qed

lemma number_frac_moves: "number_frac st = Ok st' \<Longrightarrow> moves st st'"
  by (auto simp: number_frac_def moves_refl split: if_splits prod.splits bool.splits
      intro: moves_on_moves moves_on_trans [OF moves_advance [simplified]] digits_True)

lemma number_exp_moves: "number_exp st = Ok st' \<Longrightarrow> moves st st'"
proof -
  assume n: "number_exp st = Ok st'"
  show ?thesis
  proof (cases "peek st = Some 0x65 \<or> peek st = Some 0x45")
    case False
    then show ?thesis using n by (auto simp: number_exp_def moves_refl)
  next
    case True
    define st1 where "st1 = advance 1 st"
    define st2 where "st2 = (if peek st1 = Some 0x2B \<or> peek st1 = Some 0x2D then advance 1 st1 else st1)"
    have "moves_on st st1" using True by (auto simp: st1_def intro: moves_advance [simplified])
    moreover have "moves st1 st2"
      by (auto simp: st2_def intro: moves_refl moves_on_moves moves_advance [simplified])
    moreover have "digits st2 = (True, st')"
      using n True unfolding number_exp_def Let_def st1_def [symmetric] st2_def [symmetric]
      by (auto split: prod.splits bool.splits)
    ultimately show ?thesis by (meson digits_True moves_on_moves moves_trans)
  qed
qed

lemma number_moves: "number st = Ok st' \<Longrightarrow> moves_on st st'"
  by (auto simp: number_def bind_result_Inr
      dest!: number_int_moves number_frac_moves number_exp_moves intro: moves_on_trans moves_trans)

lemma literal_moves:
  assumes "literal l st = Ok st'" "l \<noteq> []"
  shows "moves_on st st'"
proof -
  have st': "st' = advance (length l) st" and sw: "take (length l) (drop (offset st) (source st)) = l"
    using assms(1) by (auto simp: literal_def starts_with_def split: if_splits)
  have "length l \<le> length (source st) - offset st" using arg_cong [OF sw, of length] by simp
  then have "offset st + length l \<le> length (source st)" "offset st < length (source st)"
    using assms(2) by (cases l; simp)+
  then show ?thesis using assms(2) by (simp add: st' moves_def moves_on_def advance_def)
qed

lemma primitive_text_moves: "primitive_text st = Ok st' \<Longrightarrow> moves_on st st'"
  by (auto simp: primitive_text_def literal_null_def literal_true_def literal_false_def
      split: option.splits if_splits intro: literal_moves number_moves)

lemma json_value_cases [consumes 1, case_names object array quoted primitive]:
  assumes "json_value st = Ok ((i, state), st')"
  obtains
    "peek (whitespace st) = Some 0x7B" "state = Some FirstObject"
      "push_node (ObjectNode []) (offset (whitespace st)) (current_path (whitespace st))
         (advance 1 (whitespace st)) = (i, st')"
  | "peek (whitespace st) = Some 0x5B" "state = Some FirstArray"
      "push_node (ArrayNode []) (offset (whitespace st)) (current_path (whitespace st))
         (advance 1 (whitespace st)) = (i, st')"
  | shown exact st1 st2 where "peek (whitespace st) = Some 0x22" "state = None"
      "scan_string (whitespace st) = Ok ((shown, exact), st1)"
      "push_node (StringNode shown) (offset (whitespace st)) (current_path (whitespace st)) st1 = (i, st2)"
      "st' = note_span (current_path (whitespace st)) (offset (whitespace st), offset st2) (note_exact i exact st2)"
  | raw st1 st2 where "state = None" "primitive_text (whitespace st) = Ok st1"
      "str_get (source st1) (offset (whitespace st), offset st1) = Some raw"
      "push_node (Primitive raw) (offset (whitespace st)) (current_path (whitespace st)) st1 = (i, st2)"
      "st' = note_span (current_path (whitespace st)) (offset (whitespace st), offset st2) st2"
proof -
  let ?w = "whitespace st"
  obtain b where b: "peek ?w = Some b"
    using assms by (auto simp: json_value_def Let_def split: option.splits)
  consider "b = 0x7B" | "b = 0x5B" | "b = 0x22" | "b \<noteq> 0x7B \<and> b \<noteq> 0x5B \<and> b \<noteq> 0x22" by blast
  then show thesis
  proof cases
    case 1
    then show thesis
      using assms b that(1) by (simp add: json_value_def Let_def split: prod.splits)
  next
    case 2
    then show thesis
      using assms b that(2) by (simp add: json_value_def Let_def split: prod.splits)
  next
    case 3
    then obtain shown exact st1 where st1: "scan_string ?w = Ok ((shown, exact), st1)"
      using assms b by (auto simp: json_value_def Let_def bind_result_Inr)
    obtain j st2 where p: "push_node (StringNode shown) (offset ?w) (current_path ?w) st1 = (j, st2)"
      by fastforce
    have "state = None" "j = i"
      "st' = note_span (current_path ?w) (offset ?w, offset st2) (note_exact i exact st2)"
      using assms b 3 st1 p by (auto simp: json_value_def Let_def)
    then show thesis using that(3) [OF b [unfolded 3] _ st1] p by blast
  next
    case 4
    then have p: "bind_result (primitive (offset ?w) (current_path ?w) ?w)
        (\<lambda>(ns, st2). Ok (ns, note_span (current_path ?w) (offset ?w, offset st2) st2)) = Ok ((i, state), st')"
      using assms b by (simp add: json_value_def Let_def)
    then obtain st2 where q: "primitive (offset ?w) (current_path ?w) ?w = Ok ((i, state), st2)"
      "st' = note_span (current_path ?w) (offset ?w, offset st2) st2"
      by (auto simp: bind_result_Inr)
    from q(1) obtain st1 where st1: "primitive_text ?w = Ok st1"
      by (auto simp: primitive_def bind_result_Inr)
    obtain raw where raw: "str_get (source st1) (offset ?w, offset st1) = Some raw"
      using q(1) st1 by (auto simp: primitive_def split: option.splits)
    obtain j st3 where p: "push_node (Primitive raw) (offset ?w) (current_path ?w) st1 = (j, st3)"
      by fastforce
    have "state = None" "j = i" "st3 = st2"
      using q(1) st1 raw p by (auto simp: primitive_def)
    then show thesis using that(4) [OF _ st1 raw] p q(2) by blast
  qed
qed

lemma json_value_moves:
  assumes "json_value st = Ok ((i, state), st')"
  shows "moves_on st st'"
proof -
  let ?w = "whitespace st"
  from assms have "moves_on ?w st'"
  proof (cases rule: json_value_cases)
    case object
    then show ?thesis
      using push_node_moves [OF object(3)] by (intro moves_on_same [OF moves_advance [OF object(1)]]) auto
  next
    case array
    then show ?thesis
      using push_node_moves [OF array(3)] by (intro moves_on_same [OF moves_advance [OF array(1)]]) auto
  next
    case (quoted shown exact st1 st2)
    then show ?thesis
      using push_node_moves [OF quoted(4)]
      by (intro moves_on_same [OF scan_string_moves [OF quoted(3)]]) auto
  next
    case (primitive raw st1 st2)
    then show ?thesis
      using push_node_moves [OF primitive(4)]
      by (intro moves_on_same [OF primitive_text_moves [OF primitive(2)]]) auto
  qed
  then show ?thesis by (rule moves_then_on [OF moves_whitespace])
qed

lemma opened_moves:
  "opened i state c stack st = Ok (st', stack') \<Longrightarrow> source st' = source st \<and> offset st' = offset st"
  by (auto simp: opened_def bind_result_Inr split: option.splits dest: pop_path_expect_moves)

lemma set_top_Ok: "set_top s stack = Ok stack' \<longleftrightarrow> (\<exists>f fs. stack = f # fs \<and> stack' = f \<lparr> frame_at := s \<rparr> # fs)"
  by (cases stack) auto

lemma array_value_cases [consumes 1]:
  assumes "array_value parent st stack = Ok (st', stack')"
  obtains items items' child state st1 f fs where
    "get_node st parent = Some (ArrayNode items)"
    "json_value (push_path (scalars_of (decimal (length items))) st) = Ok ((child, state), st1)"
    "get_node st1 parent = Some (ArrayNode items')" "stack = f # fs"
    "opened child state (scalars_of (decimal (length items))) (f \<lparr> frame_at := ArrayComma \<rparr> # fs)
       (st1 \<lparr> nodes := (nodes st1)[parent := ArrayNode (items' @ [child])] \<rparr>) = Ok (st', stack')"
proof -
  from assms obtain items where i: "get_node st parent = Some (ArrayNode items)"
    by (auto simp: array_value_def split: option.splits flat_node.splits)
  from assms i obtain child state st1 where v:
    "json_value (push_path (scalars_of (decimal (length items))) st) = Ok ((child, state), st1)"
    by (auto simp: array_value_def Let_def bind_result_Inr)
  from assms i v obtain items' where i': "get_node st1 parent = Some (ArrayNode items')"
    by (auto simp: array_value_def Let_def split: option.splits flat_node.splits)
  from assms i v i' obtain f fs where s: "stack = f # fs"
    by (auto simp: array_value_def Let_def bind_result_Inr set_top_Ok)
  show thesis
    using assms i v i' s by (intro that [OF i v i' s]) (simp add: array_value_def Let_def)
qed

lemma object_value_cases [consumes 1]:
  assumes "object_value parent st stack = Ok (st', stack')"
  obtains f fs key units members members' st1 child state st2 where
    "stack = f # fs" "frame_key f = Some (key, units)"
    "get_node st parent = Some (ObjectNode members)"
    "st1 = (if list_ex (\<lambda>(_, u, _). u = units) members
            then clear_replaced_subtree (pointer_with_child st key) st else st)"
    "json_value (push_path key (note_key (pointer_with_child st key) units st1)) = Ok ((child, state), st2)"
    "get_node st2 parent = Some (ObjectNode members')"
    "opened child state key (f \<lparr> frame_key := None, frame_at := ObjectComma \<rparr> # fs)
       (st2 \<lparr> nodes := (nodes st2)[parent := ObjectNode (put_field key units child members')] \<rparr>) = Ok (st', stack')"
proof -
  from assms obtain f fs key units where s: "stack = f # fs" "frame_key f = Some (key, units)"
    by (auto simp: object_value_def split: list.splits option.splits)
  from assms s obtain members where m: "get_node st parent = Some (ObjectNode members)"
    by (auto simp: object_value_def Let_def split: option.splits flat_node.splits)
  define st1 where "st1 = (if list_ex (\<lambda>(_, u, _). u = units) members
            then clear_replaced_subtree (pointer_with_child st key) st else st)"
  note start = assms [unfolded object_value_def Let_def s list.case option.case m flat_node.case prod.case,
      folded st1_def]
  from start obtain child state st2 where v:
    "json_value (push_path key (note_key (pointer_with_child st key) units st1)) = Ok ((child, state), st2)"
    by (auto simp: bind_result_Inr)
  from start v obtain members' where m': "get_node st2 parent = Some (ObjectNode members')"
    by (auto split: option.splits flat_node.splits)
  show thesis
    using start v m' by (intro that [OF s m st1_def v m']) simp
qed

lemma object_key_Ok:
  "object_key st stack = Ok (st', stack') \<longleftrightarrow>
    (\<exists>key exact f fs. peek st = Some 0x22 \<and> scan_string st = Ok ((key, exact), st') \<and> stack = f # fs
      \<and> stack' = f \<lparr> frame_key := Some (key, case exact of Some us \<Rightarrow> us | None \<Rightarrow> encode_utf16 key),
                     frame_at := ObjectColon \<rparr> # fs)"
  by (cases stack) (auto simp: object_key_def bind_result_Inr Let_def)

lemma push_path_moves: "moves_on (push_path c st) st' \<Longrightarrow> moves_on st st'"
  by (simp add: moves_on_def moves_def)

lemma array_value_moves: "array_value p st stack = Ok (st', stack') \<Longrightarrow> moves_on st st'"
proof (erule array_value_cases)
  fix items items' child state st1 f fs
  assume v: "json_value (push_path (scalars_of (decimal (length items))) st) = Ok ((child, state), st1)"
    and o: "opened child state (scalars_of (decimal (length items))) (f \<lparr> frame_at := ArrayComma \<rparr> # fs)
       (st1 \<lparr> nodes := (nodes st1)[p := ArrayNode (items' @ [child])] \<rparr>) = Ok (st', stack')"
  show "moves_on st st'"
    using opened_moves [OF o] by (intro moves_on_same [OF push_path_moves [OF json_value_moves [OF v]]]) auto
qed

lemma object_value_moves: "object_value p st stack = Ok (st', stack') \<Longrightarrow> moves_on st st'"
proof (erule object_value_cases)
  fix f fs key units members members' st1 child state st2
  assume s1: "st1 = (if list_ex (\<lambda>(_, u, _). u = units) members
            then clear_replaced_subtree (pointer_with_child st key) st else st)"
    and v: "json_value (push_path key (note_key (pointer_with_child st key) units st1)) = Ok ((child, state), st2)"
    and o: "opened child state key (f \<lparr> frame_key := None, frame_at := ObjectComma \<rparr> # fs)
       (st2 \<lparr> nodes := (nodes st2)[p := ObjectNode (put_field key units child members')] \<rparr>) = Ok (st', stack')"
  have "moves_on (note_key (pointer_with_child st key) units st1) st2"
    using push_path_moves [OF json_value_moves [OF v]] .
  then have "moves_on st st2" by (auto simp add: moves_on_def moves_def s1 split: if_splits)
  then show "moves_on st st'"
    using opened_moves [OF o] by (elim moves_on_same) auto
qed

lemma pop_frame_moves: "pop_frame st stack = Ok (st', stack') \<Longrightarrow> source st' = source st \<and> offset st' = offset st"
  by (auto simp: pop_frame_def Let_def bind_result_Inr dest!: pop_path_moves
      split: list.splits if_splits option.splits)

lemma moves_on_of: "moves_on b c \<Longrightarrow> moves a b \<Longrightarrow> moves_on a c"
  by (rule moves_then_on)

lemma frame_step_moves:
  assumes "frame_step st stack = Ok (st', stack')"
  shows "moves_on st st'"
proof -
  let ?w = "whitespace st"
  obtain f fs where stack: "stack = f # fs"
    using assms by (auto simp: frame_step_def Let_def split: list.splits)
  note s = assms [unfolded frame_step_def Let_def stack list.case]
  have "moves_on ?w st'"
  proof (cases "frame_at f")
    case FirstArray
    then show ?thesis
      using s by (auto split: prod.splits bool.splits
          intro: moves_on_same [OF moves_consume] moves_then_on [OF stays_consume]
          dest: pop_frame_moves array_value_moves)
  next
    case ArrayComma
    then show ?thesis
      using s by (auto simp: bind_result_Inr split: prod.splits bool.splits
          intro: moves_on_same [OF moves_consume] moves_then_on [OF stays_consume] moves_consume
          dest: pop_frame_moves)
  next
    case FirstObject
    then show ?thesis
      using s by (auto simp: object_key_Ok split: prod.splits bool.splits
          intro: moves_on_same [OF moves_consume] moves_then_on [OF stays_consume]
          dest: pop_frame_moves scan_string_moves)
  next
    case ObjectComma
    then show ?thesis
      using s by (auto simp: bind_result_Inr split: prod.splits bool.splits
          intro: moves_on_same [OF moves_consume] moves_then_on [OF stays_consume] moves_consume
          dest: pop_frame_moves)
  next
    case ObjectColon
    then show ?thesis
      using s by (auto simp: bind_result_Inr split: prod.splits bool.splits intro: moves_consume)
  qed (use s in \<open>auto simp: object_key_Ok dest: array_value_moves object_value_moves scan_string_moves\<close>)
  then show ?thesis by (rule moves_then_on [OF moves_whitespace])
qed

text \<open>The loop of \<^verbatim>\<open>document\<close>, until the stack is empty.\<close>

function document_loop :: "json_parser \<Rightarrow> frame list \<Rightarrow> scan_error + json_parser" where
  "document_loop st stack =
    (if stack = [] then Ok st
     else (case frame_step st stack of
             Inl e \<Rightarrow> Err e
           | Inr (st', stack') \<Rightarrow> document_loop st' stack'))"
  by pat_completeness auto

termination
proof (relation "measure (\<lambda>(st, stack). length (source st) - offset st)")
  fix st stack r st' stack'
  assume "stack \<noteq> []" "frame_step st stack = Ok r" "(st', stack') = r"
  then have "moves_on st st'" using frame_step_moves by metis
  then show "((st', stack'), st, stack) \<in> measure (\<lambda>(st, stack). length (source st) - offset st)"
    by (auto simp: moves_on_def moves_def)
qed simp

declare document_loop.simps [simp del]

definition document :: "bytes \<Rightarrow> scan_error + flat_document" where
  "document s =
    bind_result (json_value (new_parser s)) (\<lambda>((root, state), st).
    let stack = (case state of
                   Some fs \<Rightarrow> [\<lparr> frame_node = root, frame_at = fs, frame_key = None, path_component = None \<rparr>]
                 | None \<Rightarrow> []) in
    bind_result (document_loop st stack) (\<lambda>st.
    let st = whitespace st in
    if offset st \<noteq> length (source st) then Err (ScanError ''trailing data after the JSON value'')
    else Ok \<lparr> doc_root = root, doc_nodes = nodes st, doc_node_pointers = node_pointers st,
             doc_node_source_spans = node_source_spans st,
             doc_node_exact_strings = node_exact_strings st, doc_pointer_nodes = pointer_nodes st,
             doc_source_spans = source_spans st, doc_exact_strings = exact_strings st,
             doc_exact_keys = exact_keys st \<rparr>))"

end
