(* ===== verification/Json_Grammar.thy ===== *)
theory Json_Grammar
  imports Json_Scanner "HOL-Library.Code_Target_Nat"
begin

text \<open>
  What the scanner accepts: the JSON grammar of RFC 8259 as inductive predicates over the
  source bytes, with trees that carry their exact source text.  The scanner accepts exactly
  the sentences of the grammar, its nodes are the tree of the sentence, and the source span it
  keeps of a node is the text of that node.
\<close>

section \<open>The grammar\<close>

definition is_ws :: "bytes \<Rightarrow> bool" where
  "is_ws w \<longleftrightarrow> list_all is_json_ws w"

definition digit_run :: "bytes \<Rightarrow> bool" where
  "digit_run d \<longleftrightarrow> d \<noteq> [] \<and> list_all is_ascii_digit d"

definition int_text :: "bytes \<Rightarrow> bool" where
  "int_text i \<longleftrightarrow> i = [0x30] \<or> digit_run i \<and> hd i \<noteq> 0x30"

definition frac_text :: "bytes \<Rightarrow> bool" where
  "frac_text f \<longleftrightarrow> f = [] \<or> (\<exists>d. f = 0x2E # d \<and> digit_run d)"

definition exp_text :: "bytes \<Rightarrow> bool" where
  "exp_text e \<longleftrightarrow> e = [] \<or>
    (\<exists>m g d. e = m # g @ d \<and> (m = 0x65 \<or> m = 0x45) \<and> (g = [] \<or> g = [0x2B] \<or> g = [0x2D]) \<and> digit_run d)"

definition number_text :: "bytes \<Rightarrow> bool" where
  "number_text bs \<longleftrightarrow> (\<exists>s i f e. bs = s @ i @ f @ e \<and> (s = [] \<or> s = [0x2D])
    \<and> int_text i \<and> frac_text f \<and> exp_text e)"

text \<open>The characters of a string and the UTF-16 units they stand for.\<close>

inductive string_chars :: "bytes \<Rightarrow> u16 list \<Rightarrow> bool" where
  no_chars: "string_chars [] []"
| short_escape: "simple_escape e = Some u \<Longrightarrow> string_chars bs us \<Longrightarrow> string_chars (0x5C # e # bs) (u # us)"
| unicode_escape: "length ds = 4 \<Longrightarrow> hex_fold 0 ds = Some v \<Longrightarrow> string_chars bs us \<Longrightarrow>
    string_chars (0x5C # 0x75 # ds @ bs) (word_of_nat v # us)"
| plain_char: "next_char cs = Some (c, length cs) \<Longrightarrow> hd cs \<noteq> 0x22 \<Longrightarrow> hd cs \<noteq> 0x5C \<Longrightarrow> \<not> hd cs < 0x20 \<Longrightarrow>
    string_chars bs us \<Longrightarrow> string_chars (cs @ bs) (utf16_of_scalar c @ us)"

datatype json_tree =
    JPrim bytes
  | JStr bytes "u16 list"
  | JArr bytes "json_tree list"
  | JObj bytes "(u16 list \<times> json_tree) list"

primrec tree_text :: "json_tree \<Rightarrow> bytes" where
  "tree_text (JPrim b) = b"
| "tree_text (JStr b _) = b"
| "tree_text (JArr b _) = b"
| "tree_text (JObj b _) = b"

text \<open>A repeated member keeps the place of the first and the value of the last.\<close>

fun put_member :: "u16 list \<Rightarrow> json_tree \<Rightarrow> (u16 list \<times> json_tree) list \<Rightarrow> (u16 list \<times> json_tree) list" where
  "put_member k t [] = [(k, t)]"
| "put_member k t ((k', t') # r) = (if k' = k then (k', t) # r else (k', t') # put_member k t r)"

inductive value_text :: "bytes \<Rightarrow> json_tree \<Rightarrow> bool"
  and elements_text :: "bytes \<Rightarrow> json_tree list \<Rightarrow> bool"
  and members_text :: "bytes \<Rightarrow> (u16 list \<times> json_tree) list \<Rightarrow> bool" where
  literal_value: "bs = literal_null \<or> bs = literal_true \<or> bs = literal_false \<Longrightarrow> value_text bs (JPrim bs)"
| number_value: "number_text bs \<Longrightarrow> value_text bs (JPrim bs)"
| string_value: "string_chars cs us \<Longrightarrow> bs = 0x22 # cs @ [0x22] \<Longrightarrow> value_text bs (JStr bs us)"
| empty_array: "is_ws w \<Longrightarrow> bs = 0x5B # w @ [0x5D] \<Longrightarrow> value_text bs (JArr bs [])"
| full_array: "elements_text es ts \<Longrightarrow> bs = 0x5B # es @ [0x5D] \<Longrightarrow> value_text bs (JArr bs ts)"
| empty_object: "is_ws w \<Longrightarrow> bs = 0x7B # w @ [0x7D] \<Longrightarrow> value_text bs (JObj bs [])"
| full_object: "members_text ms kts \<Longrightarrow> bs = 0x7B # ms @ [0x7D] \<Longrightarrow> value_text bs (JObj bs kts)"
| first_element: "is_ws w \<Longrightarrow> value_text bs t \<Longrightarrow> is_ws w' \<Longrightarrow> elements_text (w @ bs @ w') [t]"
| next_element: "elements_text es ts \<Longrightarrow> is_ws w \<Longrightarrow> value_text bs t \<Longrightarrow> is_ws w' \<Longrightarrow>
    elements_text (es @ 0x2C # w @ bs @ w') (ts @ [t])"
| first_member: "is_ws w \<Longrightarrow> string_chars cs k \<Longrightarrow> is_ws v \<Longrightarrow> is_ws v' \<Longrightarrow> value_text bs t \<Longrightarrow> is_ws w' \<Longrightarrow>
    members_text (w @ 0x22 # cs @ 0x22 # v @ 0x3A # v' @ bs @ w') [(k, t)]"
| next_member: "members_text ms kts \<Longrightarrow> is_ws w \<Longrightarrow> string_chars cs k \<Longrightarrow> is_ws v \<Longrightarrow> is_ws v' \<Longrightarrow>
    value_text bs t \<Longrightarrow> is_ws w' \<Longrightarrow>
    members_text (ms @ 0x2C # w @ 0x22 # cs @ 0x22 # v @ 0x3A # v' @ bs @ w') (put_member k t kts)"

definition json_text :: "bytes \<Rightarrow> json_tree \<Rightarrow> bool" where
  "json_text s t \<longleftrightarrow> (\<exists>w bs w'. s = w @ bs @ w' \<and> is_ws w \<and> is_ws w' \<and> value_text bs t)"

lemma value_text_text: "value_text bs t \<Longrightarrow> tree_text t = bs"
  by (erule value_text.cases) simp_all

section \<open>Reading from what is left\<close>

definition rest :: "json_parser \<Rightarrow> bytes" where
  "rest st = drop (offset st) (source st)"

definition eats :: "json_parser \<Rightarrow> bytes \<Rightarrow> json_parser \<Rightarrow> bool" where
  "eats st bs st' \<longleftrightarrow> st' = advance (length bs) st \<and> rest st = bs @ rest st'"

lemma is_ws_simps [simp]:
  "is_ws []" "is_ws (b # w) \<longleftrightarrow> is_json_ws b \<and> is_ws w" "is_ws (v @ w) \<longleftrightarrow> is_ws v \<and> is_ws w"
  by (simp_all add: is_ws_def)

lemma rest_advance [simp]: "rest (advance n st) = drop n (rest st)"
  by (simp add: rest_def advance_def add.commute)

lemma peek_rest: "peek st = (case rest st of [] \<Rightarrow> None | b # _ \<Rightarrow> Some b)"
proof (cases "offset st < length (source st)")
  case True
  then show ?thesis by (simp add: peek_def rest_def Cons_nth_drop_Suc [symmetric])
qed (simp add: peek_def rest_def)

lemma peek_iff: "peek st = Some b \<longleftrightarrow> (\<exists>r. rest st = b # r)"
  by (simp add: peek_rest split: list.splits)

lemma advance_advance [simp]: "advance m (advance n st) = advance (n + m) st"
  by (simp add: advance_def add.assoc)

lemma advance_0 [simp]: "advance 0 st = st"
  by (simp add: advance_def)

lemma eats_nil: "eats st [] st"
  by (simp add: eats_def)

lemma eatsD: "eats st bs st' \<Longrightarrow> st' = advance (length bs) st" "eats st bs st' \<Longrightarrow> rest st = bs @ rest st'"
  by (simp_all only: eats_def)

lemma eats_trans:
  assumes "eats a xs b" "eats b ys c"
  shows "eats a (xs @ ys) c"
  unfolding eats_def
proof
  show "c = advance (length (xs @ ys)) a"
    unfolding eatsD(1) [OF assms(2)] eatsD(1) [OF assms(1)] by simp
  show "rest a = (xs @ ys) @ rest c"
    by (simp only: eatsD(2) [OF assms(1)] eatsD(2) [OF assms(2)] append_assoc)
qed

lemma eats_take: "bs = take (length bs) (rest st) \<Longrightarrow> eats st bs (advance (length bs) st)"
  by (simp add: eats_def) (metis append_take_drop_id)

lemma eats_peek: "peek st = Some b \<Longrightarrow> eats st [b] (advance 1 st)"
  by (auto simp: eats_def peek_iff)

lemma whitespace_advance: "whitespace st = advance (length (takeWhile is_json_ws (rest st))) st"
  by (simp add: whitespace_def advance_def rest_def)

lemma eats_whitespace: "eats st (takeWhile is_json_ws (rest st)) (whitespace st)"
  unfolding whitespace_advance by (rule eats_take) (metis takeWhile_eq_take length_takeWhile_le min.absorb2 length_take)

lemma is_ws_takeWhile [simp]: "is_ws (takeWhile is_json_ws bs)"
  by (auto simp: is_ws_def list_all_iff dest: set_takeWhileD)

lemma rest_whitespace: "rest (whitespace st) = dropWhile is_json_ws (rest st)"
  unfolding whitespace_advance by (simp add: dropWhile_eq_drop)

lemma whitespace_idem [simp]: "whitespace (whitespace st) = whitespace st"
  by (simp add: whitespace_advance [of "whitespace st"] rest_whitespace dropWhile_eq_Nil_conv [symmetric])
    (metis (no_types, lifting) advance_0 hd_dropWhile length_0_conv takeWhile_eq_Nil_iff)

lemma eats_digits: "eats st (takeWhile is_ascii_digit (rest st)) (snd (digits st))"
proof -
  have "snd (digits st) = advance (length (takeWhile is_ascii_digit (rest st))) st"
    by (simp add: digits_def Let_def rest_def)
  then show ?thesis
    using eats_take by (metis takeWhile_eq_take length_takeWhile_le min.absorb2 length_take)
qed

lemma digits_True_eats: "digits st = (True, st') \<Longrightarrow> \<exists>d. eats st d st' \<and> digit_run d"
  using eats_digits [of st]
  by (intro exI [of _ "takeWhile is_ascii_digit (rest st)"])
    (auto simp: digit_run_def digits_def Let_def rest_def list_all_iff dest: set_takeWhileD)

section \<open>Tokens\<close>

definition sign_text :: "bytes \<Rightarrow> bool" where
  "sign_text s \<longleftrightarrow> s = [] \<or> s = [0x2D]"

lemma digit_run_Cons: "digit_run (b # d) \<longleftrightarrow> is_ascii_digit b \<and> (d = [] \<or> digit_run d)"
  by (auto simp: digit_run_def)

lemma sign_eats: "\<exists>s. sign_text s \<and> eats st s (if peek st = Some 0x2D then advance 1 st else st)"
  by (cases "peek st = Some 0x2D") (auto simp: sign_text_def intro: eats_peek eats_nil simp del: One_nat_def)

lemma number_int_sound:
  assumes "number_int st = Ok st'"
  shows "\<exists>s i. sign_text s \<and> int_text i \<and> eats st (s @ i) st'"
proof -
  define st1 where "st1 = (if peek st = Some 0x2D then advance 1 st else st)"
  obtain s where s: "sign_text s" "eats st s st1" unfolding st1_def using sign_eats by blast
  from assms obtain b where b: "peek st1 = Some b" "b = 0x30 \<and> st' = advance 1 st1
      \<or> b \<noteq> 0x30 \<and> is_ascii_digit b \<and> st' = snd (digits st1)"
    unfolding number_int_def Let_def st1_def [symmetric]
    by (auto split: option.splits if_splits intro: digit_from_1)
  have "\<exists>i. int_text i \<and> eats st1 i st'"
  proof (cases "b = 0x30")
    case True
    then have "st' = advance 1 st1" "int_text [b]" using b(2) by (simp_all add: int_text_def)
    then show ?thesis using eats_peek [OF b(1)] by blast
  next
    case False
    then have d: "is_ascii_digit b" "st' = snd (digits st1)" using b by auto
    from b(1) obtain r where "rest st1 = b # r" by (auto simp: peek_iff)
    then have "int_text (takeWhile is_ascii_digit (rest st1))"
      using d False by (auto simp: int_text_def digit_run_def list_all_iff dest: set_takeWhileD)
    then show ?thesis using eats_digits [of st1] d(2) by auto
  qed
  then show ?thesis using s eats_trans by blast
qed

lemma number_frac_sound: "number_frac st = Ok st' \<Longrightarrow> \<exists>f. frac_text f \<and> eats st f st'"
proof (cases "peek st = Some 0x2E")
  case True
  assume "number_frac st = Ok st'"
  then have "digits (advance 1 st) = (True, st')"
    using True by (auto simp: number_frac_def split: prod.splits bool.splits)
  then obtain d where "eats (advance 1 st) d st'" "digit_run d" using digits_True_eats by blast
  then show ?thesis
    using eats_trans [OF eats_peek [OF True], of d st']
    by (intro exI [of _ "0x2E # d"]) (simp add: frac_text_def)
qed (auto simp: number_frac_def frac_text_def intro: eats_nil)

lemma number_exp_sound: "number_exp st = Ok st' \<Longrightarrow> \<exists>e. exp_text e \<and> eats st e st'"
proof (cases "peek st = Some 0x65 \<or> peek st = Some 0x45")
  case True
  assume n: "number_exp st = Ok st'"
  from True obtain m where m: "m = 0x65 \<or> m = 0x45" "peek st = Some m" by auto
  define st1 where "st1 = advance 1 st"
  define st2 where "st2 = (if peek st1 = Some 0x2B \<or> peek st1 = Some 0x2D then advance 1 st1 else st1)"
  have "\<exists>g. (g = [] \<or> g = [0x2B] \<or> g = [0x2D]) \<and> eats st1 g st2"
  proof (cases "peek st1 = Some 0x2B \<or> peek st1 = Some 0x2D")
    case True
    then have "st2 = advance 1 st1" by (simp add: st2_def)
    then show ?thesis using True eats_peek by blast
  next
    case False
    then have "st2 = st1" by (simp add: st2_def)
    then show ?thesis using eats_nil by blast
  qed
  then obtain g where g: "g = [] \<or> g = [0x2B] \<or> g = [0x2D]" "eats st1 g st2" by blast
  have "digits st2 = (True, st')"
    using n True unfolding number_exp_def Let_def st1_def [symmetric] st2_def [symmetric]
    by (auto split: prod.splits bool.splits)
  then obtain d where d: "eats st2 d st'" "digit_run d" using digits_True_eats by blast
  have "eats st ([m] @ g @ d) st'"
    using eats_trans [OF eats_peek [OF m(2)] eats_trans [OF g(2) [unfolded st1_def] d(1)]] by simp
  then show ?thesis using m g d by (auto simp: exp_text_def)
qed (auto simp: number_exp_def exp_text_def intro: eats_nil)

lemma number_sound:
  assumes "number st = Ok st'"
  shows "\<exists>bs. number_text bs \<and> eats st bs st'"
proof -
  from assms obtain st1 st2 where n: "number_int st = Ok st1" "number_frac st1 = Ok st2" "number_exp st2 = Ok st'"
    by (auto simp: number_def bind_result_Inr)
  obtain s i f e where p: "sign_text s" "int_text i" "frac_text f" "exp_text e"
    and e: "eats st (s @ i) st1" "eats st1 f st2" "eats st2 e st'"
    using number_int_sound [OF n(1)] number_frac_sound [OF n(2)] number_exp_sound [OF n(3)] by blast
  have "eats st ((s @ i) @ f @ e) st'" using e eats_trans by blast
  moreover have "number_text ((s @ i) @ f @ e)"
    using p by (auto simp: number_text_def sign_text_def)
  ultimately show ?thesis by blast
qed

lemma literal_sound: "literal l st = Ok st' \<Longrightarrow> eats st l st'"
  by (auto simp: literal_def starts_with_def rest_def [symmetric] split: if_splits intro: eats_take [OF sym])

lemma primitive_text_sound:
  assumes "primitive_text st = Ok st'"
  shows "\<exists>bs. value_text bs (JPrim bs) \<and> eats st bs st'"
proof -
  from assms consider "literal literal_null st = Ok st'" | "literal literal_true st = Ok st'"
    | "literal literal_false st = Ok st'" | "number st = Ok st'"
    by (auto simp: primitive_text_def split: option.splits if_splits)
  then show ?thesis
  proof cases
    case 4
    then show ?thesis using number_sound number_value by blast
  qed (use literal_sound literal_value in blast)+
qed

lemma next_char_take:
  "next_char bs = Some (c, k) \<Longrightarrow> next_char (take k bs) = Some (c, k)"
proof (cases bs)
  case (Cons a r)
  assume "next_char bs = Some (c, k)"
  moreover from this have "utf8_width a = 1 \<and> k = 1 \<or> utf8_width a = 2 \<and> k = 2
      \<or> utf8_width a = 3 \<and> k = 3 \<or> utf8_width a = 4 \<and> k = 4"
    using Cons by (auto simp: next_char_def Let_def split: if_splits)
  ultimately show ?thesis
    using Cons by (elim disjE conjE) (simp_all add: next_char_def Let_def split: if_splits)
qed (simp add: next_char_def)

lemma string_loop_sound:
  "string_loop s i us = Ok (us', j) \<Longrightarrow>
    \<exists>cs vs. string_chars cs vs \<and> us' = us @ vs \<and> drop i s = cs @ 0x22 # drop j s"
proof (induction "length s - i" arbitrary: i us rule: less_induct)
  case less
  from less.prems show ?case
  proof (cases rule: string_loop_cases)
    case quote
    then show ?thesis
      by (intro exI [of _ "[]"]) (auto intro: no_chars simp: Cons_nth_drop_Suc [symmetric])
  next
    case (escape u)
    then obtain cs vs where c: "string_chars cs vs" "us' = (us @ [u]) @ vs" "drop (i + 2) s = cs @ 0x22 # drop j s"
      using less.hyps [of "i + 2"] by fastforce
    have "drop i s = 0x5C # s ! (i + 1) # drop (i + 2) s"
      using escape by (simp add: Cons_nth_drop_Suc [symmetric])
    then show ?thesis using c short_escape [OF escape(3) c(1)] by fastforce
  next
    case (unicode u)
    then obtain cs vs where c: "string_chars cs vs" "us' = (us @ [u]) @ vs" "drop (i + 6) s = cs @ 0x22 # drop j s"
      using less.hyps [of "i + 6"] hex_unit_short [OF unicode(5)] by fastforce
    from unicode(5) obtain v where v: "hex_fold 0 (take 4 (drop (i + 2) s)) = Some v" "u = word_of_nat v"
      by (auto simp: hex_unit_def split: if_splits option.splits)
    have l: "length (take 4 (drop (i + 2) s)) = 4" using hex_unit_short [OF unicode(5)] by simp
    have "drop i s = 0x5C # 0x75 # take 4 (drop (i + 2) s) @ drop 4 (drop (i + 2) s)"
      using unicode(1,2,4) by (simp add: Cons_nth_drop_Suc [symmetric] del: drop_drop)
    then have "drop i s = (0x5C # 0x75 # take 4 (drop (i + 2) s) @ cs) @ 0x22 # drop j s"
      using c(3) by (simp add: add.commute)
    then show ?thesis using c(2) unicode_escape [OF l v(1) c(1)] v(2) by fastforce
  next
    case (char c k)
    have k: "1 \<le> k" "k \<le> length s - i" using next_char_width [OF char(6)] by auto
    then obtain cs vs where c: "string_chars cs vs" "us' = (us @ utf16_of_scalar c) @ vs"
      "drop (i + k) s = cs @ 0x22 # drop j s"
      using less.hyps [of "i + k"] char by fastforce
    have hd: "hd (take k (drop i s)) = s ! i" using char(1) k by (simp add: hd_drop_conv_nth)
    have nc: "next_char (take k (drop i s)) = Some (c, length (take k (drop i s)))"
      using char(6) k by (simp add: next_char_take)
    have "drop i s = take k (drop i s) @ drop (i + k) s"
      by (metis append_take_drop_id drop_drop add.commute)
    then have "drop i s = (take k (drop i s) @ cs) @ 0x22 # drop j s" using c(3) by simp
    then show ?thesis
      using c(2) plain_char [OF nc _ _ _ c(1), unfolded hd] char(2,3,4) by fastforce
  qed
qed

text \<open>Conversely: a token of the grammar, followed by a byte that cannot extend it, is read whole.\<close>

definition extends_number :: "byte \<Rightarrow> bool" where
  "extends_number b \<longleftrightarrow> is_ascii_digit b \<or> b = 0x2E \<or> b = 0x65 \<or> b = 0x45"

definition ends_token :: "bytes \<Rightarrow> bool" where
  "ends_token r \<longleftrightarrow> r = [] \<or> \<not> extends_number (hd r)"

lemma takeWhile_run:
  assumes "digit_run d" "r = [] \<or> \<not> is_ascii_digit (hd r)"
  shows "takeWhile is_ascii_digit (d @ r) = d"
  using assms by (cases r) (auto simp: digit_run_def list_all_iff takeWhile_append2)

lemma digits_run:
  assumes "rest st = d @ r" "digit_run d" "r = [] \<or> \<not> is_ascii_digit (hd r)"
  shows "digits st = (True, advance (length d) st)"
  using takeWhile_run [OF assms(2,3)] assms(1,2)
  by (auto simp: digits_def Let_def rest_def [symmetric] digit_run_def)

lemma number_frac_complete:
  assumes "frac_text f" "rest st = f @ r" "r = [] \<or> \<not> is_ascii_digit (hd r) \<and> hd r \<noteq> 0x2E"
  shows "number_frac st = Ok (advance (length f) st)"
proof (cases "f = []")
  case True
  then show ?thesis using assms by (auto simp: number_frac_def peek_rest split: list.splits)
next
  case False
  then obtain d where f: "f = 0x2E # d" "digit_run d" using assms(1) by (auto simp: frac_text_def)
  have "digits (advance 1 st) = (True, advance (length d) (advance 1 st))"
    using assms f by (intro digits_run [of _ d r]) auto
  then show ?thesis using assms f by (simp add: number_frac_def peek_rest)
qed

lemma number_exp_complete:
  assumes "exp_text e" "rest st = e @ r" "r = [] \<or> \<not> is_ascii_digit (hd r) \<and> hd r \<noteq> 0x65 \<and> hd r \<noteq> 0x45"
  shows "number_exp st = Ok (advance (length e) st)"
proof (cases "e = []")
  case True
  then show ?thesis using assms by (auto simp: number_exp_def peek_rest split: list.splits)
next
  case False
  then obtain m g d where e: "e = m # g @ d" "m = 0x65 \<or> m = 0x45" "g = [] \<or> g = [0x2B] \<or> g = [0x2D]"
    "digit_run d"
    using assms(1) by (auto simp: exp_text_def)
  define st1 where "st1 = advance 1 st"
  define st2 where "st2 = (if peek st1 = Some 0x2B \<or> peek st1 = Some 0x2D then advance 1 st1 else st1)"
  have r1: "rest st1 = g @ d @ r" using assms(2) e(1) by (simp add: st1_def)
  obtain b d' where d: "d = b # d'" "is_ascii_digit b" using e(4) by (cases d) (auto simp: digit_run_def)
  then have "b \<noteq> 0x2B" "b \<noteq> 0x2D" by (auto simp: is_ascii_digit_def)
  then have st2: "st2 = advance (length g) st1"
    using e(3) r1 d(1) by (auto simp: st2_def peek_rest)
  have "digits st2 = (True, advance (length d) st2)"
    using r1 st2 e(4) assms(3) by (intro digits_run [of _ d r]) auto
  then show ?thesis
    using assms(2) e(1,2) st2
    unfolding number_exp_def Let_def st1_def [symmetric] st2_def [symmetric]
    by (auto simp: peek_rest st1_def)
qed

lemma number_int_complete:
  assumes "sign_text s" "int_text i" "rest st = s @ i @ r" "i = [0x30] \<or> r = [] \<or> \<not> is_ascii_digit (hd r)"
  shows "number_int st = Ok (advance (length (s @ i)) st)"
proof -
  define st1 where "st1 = (if peek st = Some 0x2D then advance 1 st else st)"
  obtain b i' where i: "i = b # i'" "is_ascii_digit b"
    using assms(2) by (cases i) (auto simp: int_text_def digit_run_def is_ascii_digit_def word_le_nat_alt)
  then have "b \<noteq> 0x2D" by (auto simp: is_ascii_digit_def)
  then have st1: "st1 = advance (length s) st"
    using assms(1,3) i by (auto simp: st1_def peek_rest sign_text_def)
  then have r1: "rest st1 = i @ r" using assms(3) by simp
  show ?thesis
  proof (cases "b = 0x30")
    case True
    then have "i = [0x30]" using assms(2) i by (auto simp: int_text_def)
    then show ?thesis
      unfolding number_int_def Let_def st1_def [symmetric] using r1 True st1
      by (simp add: peek_rest add.commute)
  next
    case False
    then have run: "digit_run i" "\<not> i = [0x30]" using assms(2) i by (auto simp: int_text_def)
    then have "digits st1 = (True, advance (length i) st1)"
      using r1 assms(4) by (intro digits_run [of _ i r]) auto
    moreover have "0x31 \<le> b" "b \<le> 0x39"
      using i(2) False by (auto simp: is_ascii_digit_def word_le_nat_alt word_unat_eq_iff)
    ultimately show ?thesis
      unfolding number_int_def Let_def st1_def [symmetric] using r1 i(1) False st1
      by (simp add: peek_rest add.commute)
  qed
qed

lemma number_complete:
  assumes "number_text bs" "rest st = bs @ r" "ends_token r"
  shows "number st = Ok (advance (length bs) st)"
proof -
  obtain s i f e where b: "bs = s @ i @ f @ e" "sign_text s" "int_text i" "frac_text f" "exp_text e"
    using assms(1) by (auto simp: number_text_def sign_text_def)
  have f0: "f = [] \<or> hd f = 0x2E" and e0: "e = [] \<or> hd e = 0x65 \<or> hd e = 0x45"
    using b(4,5) by (auto simp: frac_text_def exp_text_def)
  have nd: "\<not> is_ascii_digit 0x2E" "\<not> is_ascii_digit 0x65" "\<not> is_ascii_digit 0x45"
    by (simp_all add: is_ascii_digit_def)
  have hr: "r = [] \<or> \<not> is_ascii_digit (hd r) \<and> hd r \<noteq> 0x2E \<and> hd r \<noteq> 0x65 \<and> hd r \<noteq> 0x45"
    using assms(3) by (auto simp: ends_token_def extends_number_def)
  have he: "e @ r = [] \<or> \<not> is_ascii_digit (hd (e @ r)) \<and> hd (e @ r) \<noteq> 0x2E"
    using hr e0 nd by (cases e) auto
  have hf: "f @ e @ r = [] \<or> \<not> is_ascii_digit (hd (f @ e @ r))"
    using he f0 nd by (cases f) auto
  have "number_int st = Ok (advance (length (s @ i)) st)"
    using assms(2) b hf by (intro number_int_complete [of s i _ "f @ e @ r"]) auto
  moreover have "number_frac (advance (length (s @ i)) st) = Ok (advance (length f) (advance (length (s @ i)) st))"
    using assms(2) b he by (intro number_frac_complete [of f _ "e @ r"]) auto
  moreover have "number_exp (advance (length f) (advance (length (s @ i)) st))
      = Ok (advance (length e) (advance (length f) (advance (length (s @ i)) st)))"
    using assms(2) b hr by (intro number_exp_complete [of e _ r]) auto
  ultimately show ?thesis using b(1) by (simp add: number_def add.assoc)
qed

lemma cont_width: "is_cont b \<Longrightarrow> utf8_width b = 0"
  by (auto simp: is_cont_def utf8_width_def word_le_nat_alt word_less_nat_alt)

lemma next_char_boundary:
  "next_char bs = Some (c, k) \<Longrightarrow> bs \<noteq> [] \<and> \<not> is_cont (hd bs)"
  using cont_width by (cases bs) (auto simp: next_char_def Let_def split: if_splits)

lemma next_char_append:
  assumes "next_char cs = Some (c, k)"
  shows "next_char (cs @ r) = Some (c, k)"
proof (cases cs)
  case Nil
  then show ?thesis using assms by (simp add: next_char_def)
next
  case (Cons a cs')
  have "utf8_width a = 1 \<or> utf8_width a = 2 \<and> 1 \<le> length cs' \<or> utf8_width a = 3 \<and> 2 \<le> length cs'
      \<or> utf8_width a = 4 \<and> 3 \<le> length cs'"
    using assms Cons by (auto simp: next_char_def Let_def split: if_splits)
  then show ?thesis
    using assms Cons by (elim disjE conjE) (auto simp: next_char_def Let_def nth_append)
qed

lemma drop_SucI: "drop i s = b # r \<Longrightarrow> i < length s \<and> s ! i = b \<and> drop (Suc i) s = r"
  by (metis Cons_nth_drop_Suc drop_eq_Nil list.inject list.simps(3) not_le)

lemma string_loop_complete:
  assumes "string_chars cs us" "drop i s = cs @ 0x22 # r"
  shows "string_loop s i vs = Ok (vs @ us, i + length cs + 1)"
  using assms
proof (induction arbitrary: i vs rule: string_chars.induct)
  case no_chars
  then show ?case by (subst string_loop.simps) (auto dest: drop_SucI)
next
  case (short_escape e u bs us)
  have a: "i < length s" "s ! i = 0x5C" "drop (Suc i) s = e # bs @ 0x22 # r"
    using drop_SucI [of i s "0x5C" "e # bs @ 0x22 # r"] short_escape.prems by auto
  have b: "Suc i < length s" "s ! Suc i = e" "drop (Suc (Suc i)) s = bs @ 0x22 # r"
    using drop_SucI [OF a(3)] by auto
  have "string_loop s (i + 2) (vs @ [u]) = Ok ((vs @ [u]) @ us, (i + 2) + length bs + 1)"
    using b by (intro short_escape.IH) simp
  then show ?case
    using a b short_escape.hyps(1) by (subst string_loop.simps) (simp add: Let_def)
next
  case (unicode_escape ds v bs us)
  have a: "i < length s" "s ! i = 0x5C" "drop (Suc i) s = 0x75 # ds @ bs @ 0x22 # r"
    using drop_SucI [of i s "0x5C" "0x75 # ds @ bs @ 0x22 # r"] unicode_escape.prems by auto
  have b: "Suc i < length s" "s ! Suc i = 0x75" "drop (Suc (Suc i)) s = ds @ bs @ 0x22 # r"
    using drop_SucI [OF a(3)] by auto
  have d: "drop (i + 6) s = bs @ 0x22 # r"
  proof -
    have "drop (i + 6) s = drop 4 (drop (Suc (Suc i)) s)" by (simp add: add.commute)
    then show ?thesis unfolding b(3) using unicode_escape.hyps(1) by simp
  qed
  have "length (drop (Suc (Suc i)) s) = 4 + length bs + 1 + length r"
    unfolding b(3) using unicode_escape.hyps(1) by simp
  then have "i + 2 + 4 \<le> length s" by simp
  then have "hex_unit s (i + 2) = Ok (word_of_nat v)"
    using b(3) unicode_escape.hyps(1,2) by (simp add: hex_unit_def)
  moreover have "simple_escape 0x75 = None" by (simp add: simple_escape_def)
  moreover have "string_loop s (i + 6) (vs @ [word_of_nat v]) = Ok ((vs @ [word_of_nat v]) @ us, (i + 6) + length bs + 1)"
    using d by (intro unicode_escape.IH) simp
  ultimately show ?case
    using a b unicode_escape.hyps(1) by (subst string_loop.simps) (simp add: Let_def)
next
  case (plain_char cs c bs us)
  have ne: "cs \<noteq> []" "\<not> is_cont (hd cs)" using next_char_boundary [OF plain_char.hyps(1)] by auto
  then obtain b cs' where cs: "cs = b # cs'" by (cases cs) auto
  have a: "i < length s" "s ! i = b" using drop_SucI [of i s b] plain_char.prems cs by auto
  have nc: "next_char (drop i s) = Some (c, length cs)"
    using next_char_append [OF plain_char.hyps(1)] plain_char.prems by simp
  have "drop (i + length cs) s = drop (length cs) (drop i s)" by (simp add: add.commute)
  then have "drop (i + length cs) s = bs @ 0x22 # r" unfolding plain_char.prems by simp
  then have "string_loop s (i + length cs) (vs @ utf16_of_scalar c)
      = Ok ((vs @ utf16_of_scalar c) @ us, (i + length cs) + length bs + 1)"
    by (rule plain_char.IH)
  then show ?case
    using a nc ne plain_char.hyps(2-4) cs
    by (subst string_loop.simps) (simp add: Let_def is_char_boundary_def)
qed

lemma replace_lone_valid: "utf16_valid (replace_lone us)"
proof (induction us rule: replace_lone.induct)
  case (2 u)
  have "\<not> is_high 0xFFFD" "\<not> is_low 0xFFFD" by (simp_all add: is_high_def is_low_def)
  then show ?case by simp
next
  case (3 u v r)
  have F: "\<not> is_high 0xFFFD" "\<not> is_low 0xFFFD" by (simp_all add: is_high_def is_low_def)
  show ?case
  proof (cases "is_high u \<and> is_low v")
    case True
    then show ?thesis using 3 by simp
  next
    case False
    then have "replace_lone (u # v # r) = (if is_high u \<or> is_low u then 0xFFFD else u) # replace_lone (v # r)"
      by auto
    moreover have "replace_lone (v # r) \<noteq> []" by (cases r) auto
    ultimately show ?thesis using 3 False F by (cases "replace_lone (v # r)") auto
  qed
qed simp

lemma lossy_replace_lone: "from_utf16_lossy (replace_lone us) = from_utf16_lossy us"
proof (induction us rule: replace_lone.induct)
  case (3 u v r)
  have F: "\<not> is_high 0xFFFD" "\<not> is_low 0xFFFD" by (simp_all add: is_high_def is_low_def)
  show ?case
  proof (cases "is_high u \<and> is_low v")
    case False
    then have "replace_lone (u # v # r) = (if is_high u \<or> is_low u then 0xFFFD else u) # replace_lone (v # r)"
      by auto
    then show ?thesis using 3 False F by (auto simp: lossy_bmp)
  qed (use 3 in simp)
qed (auto simp: is_high_def is_low_def)

lemma normalize_lone: "normalize_lone_units us = Ok (from_utf16_lossy us)"
  by (simp add: normalize_lone_units_def replace_lone_valid lossy_replace_lone Let_def)

definition exact_units :: "u16 list \<Rightarrow> u16 list option" where
  "exact_units us = (if utf16_valid us then None else Some us)"

lemma scan_string_alt:
  "scan_string st =
    (case consume 0x22 st of
       (False, _) \<Rightarrow> Err (ScanError ''expected a JSON string'')
     | (True, st1) \<Rightarrow>
         bind_result (string_loop (source st1) (offset st1) []) (\<lambda>(us, i).
           Ok ((from_utf16_lossy us, exact_units us), st1 \<lparr> offset := i \<rparr>)))"
  unfolding scan_string_def exact_units_def
  by (auto simp: bind_result_def normalize_lone split: prod.splits bool.splits sum.splits if_splits)

lemma consume_eats: "consume b st = (True, st') \<Longrightarrow> \<exists>w. is_ws w \<and> eats st (w @ [b]) st'"
  unfolding consume_def Let_def
  using eats_trans [OF eats_whitespace eats_peek] is_ws_takeWhile by (fastforce split: if_splits)

lemma consume_here:
  assumes "rest st = b # r" "\<not> is_json_ws b"
  shows "consume b st = (True, advance 1 st)"
proof -
  have "whitespace st = st" using assms by (simp add: whitespace_advance)
  then show ?thesis using assms by (simp add: consume_def peek_rest)
qed

lemma offset_to_advance: "offset st \<le> i \<Longrightarrow> st \<lparr> offset := i \<rparr> = advance (i - offset st) st"
  by (simp add: advance_def)

lemma scan_string_sound:
  assumes "scan_string st = Ok ((shown, exact), st')"
  shows "\<exists>w cs us. is_ws w \<and> string_chars cs us \<and> eats st (w @ 0x22 # cs @ [0x22]) st'
    \<and> shown = from_utf16_lossy us \<and> exact = exact_units us"
proof -
  obtain st1 us i where c: "consume 0x22 st = (True, st1)"
    and l: "string_loop (source st1) (offset st1) [] = Ok (us, i)"
    and r: "shown = from_utf16_lossy us" "exact = exact_units us" "st' = st1 \<lparr> offset := i \<rparr>"
    using assms by (auto simp: scan_string_alt bind_result_Inr split: prod.splits bool.splits)
  obtain w where w: "is_ws w" "eats st (w @ [0x22]) st1" using consume_eats [OF c] by blast
  obtain cs where cs: "string_chars cs us" "drop (offset st1) (source st1) = cs @ 0x22 # drop i (source st1)"
    using string_loop_sound [OF l] by auto
  have m: "offset st1 < i" "i \<le> length (source st1)" using string_loop_moves [OF l] by auto
  have "length (drop (offset st1) (source st1)) = length cs + 1 + (length (source st1) - i)"
    unfolding cs(2) by simp
  then have len: "i - offset st1 = length (cs @ [0x22])" using m by simp
  have st': "st' = advance (length (cs @ [0x22])) st1"
    using m unfolding r(3) len [symmetric] by (intro offset_to_advance) simp
  have "eats st1 (cs @ [0x22]) st'"
    unfolding st' by (rule eats_take) (use cs(2) in \<open>simp add: rest_def\<close>)
  then have "eats st ((w @ [0x22]) @ cs @ [0x22]) st'" using w(2) eats_trans by blast
  then show ?thesis using w cs r by auto
qed

lemma scan_string_complete:
  assumes "string_chars cs us" "rest st = 0x22 # cs @ 0x22 # r"
  shows "scan_string st = Ok ((from_utf16_lossy us, exact_units us), advance (length cs + 2) st)"
proof -
  have "consume 0x22 st = (True, advance 1 st)"
    using assms(2) by (intro consume_here [of _ _ "cs @ 0x22 # r"]) (auto simp: is_json_ws_def)
  moreover have "drop (offset st + 1) (source st) = cs @ 0x22 # r"
    using assms(2) by (metis drop_SucI rest_def Suc_eq_plus1)
  then have "string_loop (source st) (offset st + 1) [] = Ok (us, offset st + 1 + length cs + 1)"
    using string_loop_complete [OF assms(1)] by simp
  ultimately show ?thesis by (simp add: scan_string_alt advance_def)
qed

lemma literal_complete:
  assumes "rest st = l @ r" "l \<noteq> []" "\<not> is_cont (hd l)"
  shows "literal l st = Ok (advance (length l) st)"
proof -
  have "offset st < length (source st)" using assms(1,2) by (cases "offset st < length (source st)") (auto simp: rest_def)
  moreover have "source st ! offset st = hd l"
    using assms(1,2) by (cases l) (auto simp: rest_def dest: drop_SucI)
  ultimately show ?thesis
    using assms by (simp add: literal_def is_char_boundary_def starts_with_def rest_def)
qed

lemma primitive_text_complete:
  assumes "bs = literal_null \<or> bs = literal_true \<or> bs = literal_false \<or> number_text bs"
    and "rest st = bs @ r" "ends_token r"
  shows "primitive_text st = Ok (advance (length bs) st)"
proof -
  have "primitive_text st = literal bs st" if "bs = literal_null \<or> bs = literal_true \<or> bs = literal_false"
    using that assms(2)
    by (auto simp: primitive_text_def peek_rest literal_null_def literal_true_def literal_false_def)
  moreover have "literal bs st = Ok (advance (length bs) st)"
    if "bs = literal_null \<or> bs = literal_true \<or> bs = literal_false"
    using that assms(2) by (intro literal_complete)
      (auto simp: literal_null_def literal_true_def literal_false_def is_cont_def)
  moreover have "primitive_text st = number st" if n: "number_text bs"
  proof -
    obtain b bs' where b: "bs = b # bs'" "b = 0x2D \<or> is_ascii_digit b"
      using n by (fastforce simp: number_text_def int_text_def digit_run_def is_ascii_digit_def neq_Nil_conv)
    have "\<not> is_ascii_digit 0x6E" "\<not> is_ascii_digit 0x74" "\<not> is_ascii_digit 0x66"
      by (simp_all add: is_ascii_digit_def)
    then show ?thesis using b assms(2) by (auto simp: primitive_text_def peek_rest)
  qed
  ultimately show ?thesis using number_complete [OF _ assms(2,3)] assms(1) by metis
qed

end
