(* ===== verification/Json_Parse.thy ===== *)
theory Json_Parse
  imports Json_Grammar
begin

text \<open>
  The scanner against the grammar.  A node of the flat document stands for a tree when its
  kind, its children and the text of its source span are those of the tree; the frames on the
  stack stand for containers whose text has been read in part.  Every turn of the loop keeps
  this relation, so an accepted source is a sentence of the grammar; and every sentence is
  accepted.
\<close>

section \<open>Nodes and trees\<close>

definition text_between :: "json_parser \<Rightarrow> nat \<Rightarrow> nat \<Rightarrow> bytes" where
  "text_between st a b = take (b - a) (drop a (source st))"

definition node_text :: "json_parser \<Rightarrow> nat \<Rightarrow> bytes" where
  "node_text st i = text_between st (fst (node_source_spans st ! i)) (snd (node_source_spans st ! i))"

text \<open>The tree of a node none of whose descendants is open.\<close>

inductive tree_at :: "json_parser \<Rightarrow> nat set \<Rightarrow> nat \<Rightarrow> json_tree \<Rightarrow> bool" for st Op where
  at_prim: "i < length (nodes st) \<Longrightarrow> i \<notin> Op \<Longrightarrow> nodes st ! i = Primitive (node_text st i) \<Longrightarrow>
    value_text (node_text st i) (JPrim (node_text st i)) \<Longrightarrow> tree_at st Op i (JPrim (node_text st i))"
| at_str: "i < length (nodes st) \<Longrightarrow> i \<notin> Op \<Longrightarrow> nodes st ! i = StringNode (from_utf16_lossy us) \<Longrightarrow>
    map_of (node_exact_strings st) i = exact_units us \<Longrightarrow>
    value_text (node_text st i) (JStr (node_text st i) us) \<Longrightarrow> tree_at st Op i (JStr (node_text st i) us)"
| at_arr: "i < length (nodes st) \<Longrightarrow> i \<notin> Op \<Longrightarrow> nodes st ! i = ArrayNode items \<Longrightarrow>
    list_all2 (tree_at st Op) items ts \<Longrightarrow>
    value_text (node_text st i) (JArr (node_text st i) ts) \<Longrightarrow> tree_at st Op i (JArr (node_text st i) ts)"
| at_obj: "i < length (nodes st) \<Longrightarrow> i \<notin> Op \<Longrightarrow> nodes st ! i = ObjectNode members \<Longrightarrow>
    list_all2 (\<lambda>m kt. fst m = from_utf16_lossy (fst kt) \<and> fst (snd m) = fst kt
      \<and> tree_at st Op (snd (snd m)) (snd kt)) members kts \<Longrightarrow>
    value_text (node_text st i) (JObj (node_text st i) kts) \<Longrightarrow> tree_at st Op i (JObj (node_text st i) kts)"
monos list_all2_mono

definition items_at :: "json_parser \<Rightarrow> nat set \<Rightarrow> nat list \<Rightarrow> json_tree list \<Rightarrow> bool" where
  "items_at st Op items ts \<longleftrightarrow> list_all2 (tree_at st Op) items ts"

definition members_at ::
  "json_parser \<Rightarrow> nat set \<Rightarrow> (scalars \<times> u16 list \<times> nat) list \<Rightarrow> (u16 list \<times> json_tree) list \<Rightarrow> bool" where
  "members_at st Op members kts \<longleftrightarrow>
    list_all2 (\<lambda>m kt. fst m = from_utf16_lossy (fst kt) \<and> fst (snd m) = fst kt
      \<and> tree_at st Op (snd (snd m)) (snd kt)) members kts"

definition keeps :: "json_parser \<Rightarrow> nat set \<Rightarrow> json_parser \<Rightarrow> nat set \<Rightarrow> bool" where
  "keeps st Op st' Op' \<longleftrightarrow> source st' = source st \<and> length (nodes st) \<le> length (nodes st')
    \<and> (\<forall>j < length (nodes st). j \<notin> Op \<longrightarrow> j \<notin> Op' \<and> nodes st' ! j = nodes st ! j
        \<and> node_source_spans st' ! j = node_source_spans st ! j
        \<and> map_of (node_exact_strings st') j = map_of (node_exact_strings st) j)"

lemma keeps_node:
  assumes "keeps st Op st' Op'" "j < length (nodes st)" "j \<notin> Op"
  shows "j < length (nodes st')" "j \<notin> Op'" "nodes st' ! j = nodes st ! j" "node_text st' j = node_text st j"
    "map_of (node_exact_strings st') j = map_of (node_exact_strings st) j"
  using assms by (auto simp: keeps_def node_text_def text_between_def)

lemma tree_at_keeps: "tree_at st Op i t \<Longrightarrow> keeps st Op st' Op' \<Longrightarrow> tree_at st' Op' i t"
proof (induction rule: tree_at.induct)
  case (at_prim i)
  then show ?case using tree_at.at_prim [of i st' Op'] keeps_node [of st Op st' Op' i] by simp
next
  case (at_str i us)
  then show ?case using tree_at.at_str [of i st' Op' us] keeps_node [of st Op st' Op' i] by simp
next
  case (at_arr i items ts)
  have "list_all2 (tree_at st' Op') items ts"
    by (rule list_all2_mono [OF at_arr.IH]) (use at_arr.prems in blast)
  then show ?case using at_arr tree_at.at_arr [of i st' Op' items ts] keeps_node [of st Op st' Op' i] by simp
next
  case (at_obj i members kts)
  have "list_all2 (\<lambda>m kt. fst m = from_utf16_lossy (fst kt) \<and> fst (snd m) = fst kt
      \<and> tree_at st' Op' (snd (snd m)) (snd kt)) members kts"
    by (rule list_all2_mono [OF at_obj.IH]) (use at_obj.prems in blast)
  then show ?case using at_obj tree_at.at_obj [of i st' Op' members kts] keeps_node [of st Op st' Op' i] by simp
qed

lemma items_at_keeps: "items_at st Op items ts \<Longrightarrow> keeps st Op st' Op' \<Longrightarrow> items_at st' Op' items ts"
  unfolding items_at_def by (erule list_all2_mono) (rule tree_at_keeps)

lemma members_at_keeps: "members_at st Op ms kts \<Longrightarrow> keeps st Op st' Op' \<Longrightarrow> members_at st' Op' ms kts"
  unfolding members_at_def by (erule list_all2_mono) (auto intro: tree_at_keeps)

lemma items_at_snoc: "items_at st Op items ts \<Longrightarrow> tree_at st Op c t \<Longrightarrow> items_at st Op (items @ [c]) (ts @ [t])"
  by (simp add: items_at_def list_all2_appendI)

lemma members_at_put:
  assumes "members_at st Op ms kts" "tree_at st Op c t"
  shows "members_at st Op (put_field (from_utf16_lossy k) k c ms) (put_member k t kts)"
  using assms(1) unfolding members_at_def
proof (induction rule: list_all2_induct)
  case Nil
  then show ?case using assms(2) by simp
next
  case (Cons m ms kt kts)
  then show ?case using assms(2) by (cases m; cases kt) auto
qed

lemma tree_at_text: "tree_at st Op i t \<Longrightarrow> i < length (nodes st) \<and> node_text st i = tree_text t \<and> value_text (node_text st i) t"
  by (cases rule: tree_at.cases) auto

section \<open>Containers read in part\<close>

definition array_open :: "bytes \<Rightarrow> json_tree list \<Rightarrow> bool" where
  "array_open tx ts \<longleftrightarrow> (ts = [] \<and> (\<exists>w. tx = 0x5B # w \<and> is_ws w))
    \<or> (\<exists>es w. tx = 0x5B # es @ 0x2C # w \<and> elements_text es ts \<and> is_ws w)"

definition array_done :: "bytes \<Rightarrow> json_tree list \<Rightarrow> bool" where
  "array_done tx ts \<longleftrightarrow> (\<exists>es. tx = 0x5B # es \<and> elements_text es ts)"

definition object_open :: "bytes \<Rightarrow> (u16 list \<times> json_tree) list \<Rightarrow> bool" where
  "object_open tx kts \<longleftrightarrow> (kts = [] \<and> (\<exists>w. tx = 0x7B # w \<and> is_ws w))
    \<or> (\<exists>ms w. tx = 0x7B # ms @ 0x2C # w \<and> members_text ms kts \<and> is_ws w)"

definition object_keyed :: "bytes \<Rightarrow> (u16 list \<times> json_tree) list \<Rightarrow> u16 list \<Rightarrow> bool" where
  "object_keyed tx kts k \<longleftrightarrow>
    (\<exists>pre cs w. tx = pre @ 0x22 # cs @ 0x22 # w \<and> object_open pre kts \<and> string_chars cs k \<and> is_ws w)"

definition object_valued :: "bytes \<Rightarrow> (u16 list \<times> json_tree) list \<Rightarrow> u16 list \<Rightarrow> bool" where
  "object_valued tx kts k \<longleftrightarrow> (\<exists>pre w. tx = pre @ 0x3A # w \<and> object_keyed pre kts k \<and> is_ws w)"

definition object_done :: "bytes \<Rightarrow> (u16 list \<times> json_tree) list \<Rightarrow> bool" where
  "object_done tx kts \<longleftrightarrow> (\<exists>ms. tx = 0x7B # ms \<and> members_text ms kts)"

lemma elements_ws: "elements_text es ts \<Longrightarrow> is_ws w \<Longrightarrow> elements_text (es @ w) ts"
proof (erule elements_text.cases)
  fix v bs t v'
  assume "is_ws w" "es = v @ bs @ v'" "ts = [t]" "is_ws v" "value_text bs t" "is_ws v'"
  then show ?thesis using first_element [of v bs t "v' @ w"] by simp
next
  fix es' ts' v bs t v'
  assume "is_ws w" "es = es' @ 0x2C # v @ bs @ v'" "ts = ts' @ [t]" "elements_text es' ts'" "is_ws v"
    "value_text bs t" "is_ws v'"
  then show ?thesis using next_element [of es' ts' v bs t "v' @ w"] by simp
qed

lemma members_ws: "members_text ms kts \<Longrightarrow> is_ws w \<Longrightarrow> members_text (ms @ w) kts"
proof (erule members_text.cases)
  fix v0 cs k v v' bs t w'
  assume "is_ws w" "ms = v0 @ 0x22 # cs @ 0x22 # v @ 0x3A # v' @ bs @ w'" "kts = [(k, t)]" "is_ws v0"
    "string_chars cs k" "is_ws v" "is_ws v'" "value_text bs t" "is_ws w'"
  then show ?thesis using first_member [of v0 cs k v v' bs t "w' @ w"] by simp
next
  fix ms' kts' v0 cs k v v' bs t w'
  assume "is_ws w" "ms = ms' @ 0x2C # v0 @ 0x22 # cs @ 0x22 # v @ 0x3A # v' @ bs @ w'"
    "kts = put_member k t kts'" "members_text ms' kts'" "is_ws v0"
    "string_chars cs k" "is_ws v" "is_ws v'" "value_text bs t" "is_ws w'"
  then show ?thesis using next_member [of ms' kts' v0 cs k v v' bs t "w' @ w"] by simp
qed

lemma partial_ws:
  "array_open tx ts \<Longrightarrow> is_ws w \<Longrightarrow> array_open (tx @ w) ts"
  "array_done tx ts \<Longrightarrow> is_ws w \<Longrightarrow> array_done (tx @ w) ts"
  "object_open tx kts \<Longrightarrow> is_ws w \<Longrightarrow> object_open (tx @ w) kts"
  "object_keyed tx kts k \<Longrightarrow> is_ws w \<Longrightarrow> object_keyed (tx @ w) kts k"
  "object_valued tx kts k \<Longrightarrow> is_ws w \<Longrightarrow> object_valued (tx @ w) kts k"
  "object_done tx kts \<Longrightarrow> is_ws w \<Longrightarrow> object_done (tx @ w) kts"
proof -
  show "array_open tx ts \<Longrightarrow> is_ws w \<Longrightarrow> array_open (tx @ w) ts" by (fastforce simp: array_open_def)
  show "array_done tx ts \<Longrightarrow> is_ws w \<Longrightarrow> array_done (tx @ w) ts"
    by (auto simp: array_done_def intro: elements_ws)
  show "object_open tx kts \<Longrightarrow> is_ws w \<Longrightarrow> object_open (tx @ w) kts" by (fastforce simp: object_open_def)
  show "object_keyed tx kts k \<Longrightarrow> is_ws w \<Longrightarrow> object_keyed (tx @ w) kts k"
    unfolding object_keyed_def by (elim exE conjE) (metis append_Cons append_assoc is_ws_simps(3))
  show "object_valued tx kts k \<Longrightarrow> is_ws w \<Longrightarrow> object_valued (tx @ w) kts k"
    unfolding object_valued_def by (elim exE conjE) (metis append_Cons append_assoc is_ws_simps(3))
  show "object_done tx kts \<Longrightarrow> is_ws w \<Longrightarrow> object_done (tx @ w) kts"
    by (auto simp: object_done_def intro: members_ws)
qed

lemma array_element: "array_open tx ts \<Longrightarrow> value_text bs t \<Longrightarrow> array_done (tx @ bs) (ts @ [t])"
  unfolding array_open_def array_done_def
  using first_element [of _ bs t "[]"] next_element [of _ ts _ bs t "[]"] by fastforce

lemma array_comma: "array_done tx ts \<Longrightarrow> array_open (tx @ [0x2C]) ts"
  by (fastforce simp: array_done_def array_open_def)

lemma array_start: "array_open [0x5B] []"
  by (simp add: array_open_def)

lemma object_start: "object_open [0x7B] []"
  by (simp add: object_open_def)

lemma object_comma: "object_done tx kts \<Longrightarrow> object_open (tx @ [0x2C]) kts"
  by (fastforce simp: object_done_def object_open_def)

lemma object_key_text: "object_open tx kts \<Longrightarrow> string_chars cs k \<Longrightarrow> object_keyed (tx @ 0x22 # cs @ [0x22]) kts k"
  unfolding object_keyed_def by (intro exI [of _ tx] exI [of _ cs] exI [of _ "[]"]) simp

lemma object_colon: "object_keyed tx kts k \<Longrightarrow> object_valued (tx @ [0x3A]) kts k"
  unfolding object_valued_def by (intro exI [of _ tx] exI [of _ "[]"]) simp

lemma object_member:
  assumes "object_valued tx kts k" "value_text bs t"
  shows "object_done (tx @ bs) (put_member k t kts)"
proof -
  obtain pre cs v v' where tx: "tx = pre @ 0x22 # cs @ 0x22 # v @ 0x3A # v'" "object_open pre kts"
    "string_chars cs k" "is_ws v" "is_ws v'"
    using assms(1) unfolding object_valued_def object_keyed_def by fastforce
  from tx(2) consider w where "kts = []" "pre = 0x7B # w" "is_ws w"
    | ms w where "pre = 0x7B # ms @ 0x2C # w" "members_text ms kts" "is_ws w"
    unfolding object_open_def by blast
  then show ?thesis
  proof cases
    case 1
    then show ?thesis
      using tx first_member [of w cs k v v' bs t "[]"] assms(2) by (simp add: object_done_def)
  next
    case 2
    then show ?thesis
      using tx next_member [of ms kts w cs k v v' bs t "[]"] assms(2) by (simp add: object_done_def)
  qed
qed

section \<open>The stack\<close>

definition sizes :: "json_parser \<Rightarrow> bool" where
  "sizes st \<longleftrightarrow> length (starts st) = length (nodes st) \<and> length (node_source_spans st) = length (nodes st)
    \<and> list_all (\<lambda>e. fst e < length (nodes st)) (node_exact_strings st) \<and> offset st \<le> length (source st)"

definition open_of :: "frame list \<Rightarrow> nat set" where
  "open_of stack = set (map frame_node stack)"

definition start_of :: "json_parser \<Rightarrow> frame \<Rightarrow> nat" where
  "start_of st f = starts st ! frame_node f"

text \<open>What the text of the innermost container is, up to the offset.\<close>

definition frame_text :: "json_parser \<Rightarrow> nat set \<Rightarrow> frame \<Rightarrow> bytes \<Rightarrow> bool" where
  "frame_text st Op f tx \<longleftrightarrow>
    (case frame_at f of
       FirstArray \<Rightarrow> nodes st ! frame_node f = ArrayNode [] \<and> (\<exists>w. tx = 0x5B # w \<and> is_ws w)
     | ArrayValue \<Rightarrow> (\<exists>items ts. nodes st ! frame_node f = ArrayNode items \<and> items_at st Op items ts \<and> array_open tx ts)
     | ArrayComma \<Rightarrow> (\<exists>items ts. nodes st ! frame_node f = ArrayNode items \<and> items_at st Op items ts \<and> array_done tx ts)
     | FirstObject \<Rightarrow> nodes st ! frame_node f = ObjectNode [] \<and> (\<exists>w. tx = 0x7B # w \<and> is_ws w)
     | ObjectKey \<Rightarrow> (\<exists>ms kts. nodes st ! frame_node f = ObjectNode ms \<and> members_at st Op ms kts \<and> object_open tx kts)
     | ObjectColon \<Rightarrow> (\<exists>ms kts k. nodes st ! frame_node f = ObjectNode ms \<and> members_at st Op ms kts
         \<and> frame_key f = Some (from_utf16_lossy k, k) \<and> object_keyed tx kts k)
     | ObjectValue \<Rightarrow> (\<exists>ms kts k. nodes st ! frame_node f = ObjectNode ms \<and> members_at st Op ms kts
         \<and> frame_key f = Some (from_utf16_lossy k, k) \<and> object_valued tx kts k)
     | ObjectComma \<Rightarrow> (\<exists>ms kts. nodes st ! frame_node f = ObjectNode ms \<and> members_at st Op ms kts \<and> object_done tx kts))"

text \<open>What the text of an outer container is, up to the start of its open child.\<close>

definition hole_text :: "json_parser \<Rightarrow> nat set \<Rightarrow> frame \<Rightarrow> nat \<Rightarrow> bytes \<Rightarrow> bool" where
  "hole_text st Op f p tx \<longleftrightarrow>
    frame_at f = ArrayComma \<and> (\<exists>items ts. nodes st ! frame_node f = ArrayNode (items @ [p])
      \<and> items_at st Op items ts \<and> array_open tx ts)
    \<or> frame_at f = ObjectComma \<and> (\<exists>ms kts k. nodes st ! frame_node f = ObjectNode (put_field (from_utf16_lossy k) k p ms)
      \<and> members_at st Op ms kts \<and> object_valued tx kts k)"

fun below :: "json_parser \<Rightarrow> nat set \<Rightarrow> nat \<Rightarrow> nat \<Rightarrow> frame list \<Rightarrow> bool" where
  "below st Op root p [] \<longleftrightarrow> p = root \<and> is_ws (take (starts st ! p) (source st))"
| "below st Op root p (f # fs) \<longleftrightarrow> frame_node f < length (nodes st) \<and> start_of st f \<le> starts st ! p
    \<and> hole_text st Op f p (text_between st (start_of st f) (starts st ! p))
    \<and> below st Op root (frame_node f) fs"

definition root_done :: "json_parser \<Rightarrow> nat \<Rightarrow> bool" where
  "root_done st root \<longleftrightarrow> (\<exists>t. tree_at st {} root t \<and> is_ws (take (starts st ! root) (source st))
    \<and> starts st ! root \<le> offset st \<and> node_source_spans st ! root = (starts st ! root, offset st))"

definition inv :: "nat \<Rightarrow> json_parser \<Rightarrow> frame list \<Rightarrow> bool" where
  "inv root st stack \<longleftrightarrow> sizes st \<and> distinct (map frame_node stack)
    \<and> (case stack of
         [] \<Rightarrow> root_done st root
       | f # fs \<Rightarrow> frame_node f < length (nodes st) \<and> start_of st f \<le> offset st
           \<and> frame_text st (open_of stack) f (text_between st (start_of st f) (offset st))
           \<and> below st (open_of stack) root (frame_node f) fs)"

section \<open>What the parts of the scanner leave alone\<close>

definition core :: "json_parser \<Rightarrow> bytes \<times> flat_node list \<times> nat list \<times> span list \<times> (nat \<times> u16 list) list" where
  "core st = (source st, nodes st, starts st, node_source_spans st, node_exact_strings st)"

lemma core_simps [simp]:
  "core (advance n st) = core st" "core (whitespace st) = core st" "core (push_path c st) = core st"
  "core (note_span p r st) = core st" "core (note_key p us st) = core st"
  "core (clear_replaced_subtree p st) = core st"
  by (simp_all add: core_def advance_def whitespace_def push_path_def note_span_def note_key_def
      clear_replaced_subtree_def)

lemma core_eq:
  "core st' = core st \<Longrightarrow> source st' = source st" "core st' = core st \<Longrightarrow> nodes st' = nodes st"
  "core st' = core st \<Longrightarrow> starts st' = starts st"
  "core st' = core st \<Longrightarrow> node_source_spans st' = node_source_spans st"
  "core st' = core st \<Longrightarrow> node_exact_strings st' = node_exact_strings st"
  by (simp_all add: core_def)

lemma core_pop_path: "pop_path st = Ok st' \<Longrightarrow> core st' = core st \<and> offset st' = offset st"
  by (auto simp: pop_path_def core_def split: if_splits)

lemma core_pop_path_expect: "pop_path_expect st = Ok st' \<Longrightarrow> core st' = core st \<and> offset st' = offset st"
  by (auto simp: pop_path_expect_def split: sum.splits dest: core_pop_path)

lemma keeps_core: "core st' = core st \<Longrightarrow> keeps st Op st' Op"
  by (simp add: keeps_def core_def)

lemma text_between_core: "core st' = core st \<Longrightarrow> text_between st' = text_between st"
  by (intro ext) (simp add: text_between_def core_def)

lemma frame_text_keeps:
  assumes "frame_text st Op f tx" "keeps st Op st' Op'" "nodes st' ! frame_node f = nodes st ! frame_node f"
  shows "frame_text st' Op' f tx"
  using assms(1) unfolding frame_text_def assms(3)
  by (cases "frame_at f") (simp_all, (blast intro: items_at_keeps [OF _ assms(2)] members_at_keeps [OF _ assms(2)])+)

lemma hole_text_keeps:
  assumes "hole_text st Op f p tx" "keeps st Op st' Op'" "nodes st' ! frame_node f = nodes st ! frame_node f"
  shows "hole_text st' Op' f p tx"
  using assms(1) unfolding hole_text_def assms(3)
  by (blast intro: items_at_keeps [OF _ assms(2)] members_at_keeps [OF _ assms(2)])

lemma below_keeps:
  assumes "keeps st Op st' Op'" "\<forall>j < length (nodes st). starts st' ! j = starts st ! j"
  shows "below st Op root p fs \<Longrightarrow> p < length (nodes st)
    \<Longrightarrow> \<forall>f \<in> set fs. nodes st' ! frame_node f = nodes st ! frame_node f \<Longrightarrow> below st' Op' root p fs"
proof (induction fs arbitrary: p)
  case Nil
  then show ?case using assms by (auto simp: keeps_def)
next
  case (Cons f fs)
  have s: "starts st' ! p = starts st ! p" "start_of st' f = start_of st f"
    using assms(2) Cons.prems by (auto simp: start_of_def)
  have tx: "text_between st' = text_between st"
    using assms(1) by (intro ext) (simp add: keeps_def text_between_def)
  have "hole_text st' Op' f p (text_between st (start_of st f) (starts st ! p))"
    using Cons.prems by (intro hole_text_keeps [OF _ assms(1)]) auto
  moreover have "below st' Op' root (frame_node f) fs" using Cons by auto
  moreover have "frame_node f < length (nodes st')" using Cons.prems assms(1) by (auto simp: keeps_def)
  ultimately show ?case using Cons.prems s tx by simp
qed

lemma text_between_append:
  "a \<le> b \<Longrightarrow> b \<le> c \<Longrightarrow> text_between st a b @ text_between st b c = text_between st a c"
proof -
  assume ab: "a \<le> b" "b \<le> c"
  have "take (c - a) (drop a (source st)) =
      take (b - a) (drop a (source st)) @ take (c - b) (drop (b - a) (drop a (source st)))"
    using ab by (metis take_add le_add_diff_inverse add_diff_cancel_left' Nat.diff_add_assoc2 diff_add_inverse2 le_add_diff_inverse2 add.commute Nat.add_diff_assoc2)
  then show ?thesis using ab by (simp add: text_between_def)
qed

lemma eats_offset: "eats st bs st' \<Longrightarrow> offset st' = offset st + length bs"
  by (drule eatsD(1)) (simp add: advance_def)

lemma eats_core: "eats st bs st' \<Longrightarrow> core st' = core st"
  by (drule eatsD(1)) simp

lemma eats_text: "eats st bs st' \<Longrightarrow> text_between st (offset st) (offset st') = bs"
  using eatsD(2) [of st bs st'] eats_offset [of st bs st'] by (simp add: text_between_def rest_def [symmetric])

lemma eats_bounded: "eats st bs st' \<Longrightarrow> offset st \<le> length (source st) \<Longrightarrow> offset st' \<le> length (source st)"
proof -
  assume e: "eats st bs st'" "offset st \<le> length (source st)"
  have "length (rest st) = length bs + length (rest st')" using eatsD(2) [OF e(1)] by simp
  then show ?thesis
    using e eats_offset [OF e(1)] core_eq(1) [OF eats_core [OF e(1)]] by (simp add: rest_def)
qed

lemma sizes_eats: "sizes st \<Longrightarrow> eats st bs st' \<Longrightarrow> sizes st'"
  using eats_core [of st bs st'] eats_bounded [of st bs st'] by (auto simp: sizes_def core_def)

text \<open>Reading a token moves the innermost frame only.\<close>

lemma inv_eats:
  assumes "inv root st (f # fs)" "eats st bs st'" "frame_node f' = frame_node f"
    and step: "\<And>tx. frame_text st (open_of (f # fs)) f tx \<Longrightarrow> frame_text st (open_of (f # fs)) f' (tx @ bs)"
  shows "inv root st' (f' # fs)"
proof -
  have c: "core st' = core st" using assms(2) by (rule eats_core)
  have o: "open_of (f' # fs) = open_of (f # fs)" using assms(3) by (simp add: open_of_def)
  have s: "start_of st' f' = start_of st f" using assms(3) core_eq(3) [OF c] by (simp add: start_of_def)
  have i: "frame_node f < length (nodes st)" "start_of st f \<le> offset st" "sizes st" "distinct (map frame_node (f # fs))"
    "frame_text st (open_of (f # fs)) f (text_between st (start_of st f) (offset st))"
    "below st (open_of (f # fs)) root (frame_node f) fs"
    using assms(1) by (auto simp: inv_def)
  have "text_between st (start_of st f) (offset st') = text_between st (start_of st f) (offset st) @ bs"
    using text_between_append [of "start_of st f" "offset st" "offset st'" st] i(2) eats_offset [OF assms(2)]
      eats_text [OF assms(2)] by simp
  then have "frame_text st (open_of (f # fs)) f' (text_between st (start_of st f) (offset st'))"
    using step [OF i(5)] by simp
  then have "frame_text st' (open_of (f # fs)) f' (text_between st' (start_of st' f') (offset st'))"
    unfolding s text_between_core [OF c]
    by (rule frame_text_keeps [OF _ keeps_core [OF c]]) (simp add: core_eq(2) [OF c])
  moreover have "below st' (open_of (f # fs)) root (frame_node f) fs"
    using i(6,1) by (rule below_keeps [OF keeps_core [OF c], rotated]) (simp_all add: core_eq [OF c])
  ultimately show ?thesis
    using i assms(3) s o sizes_eats [OF i(3) assms(2)] eats_offset [OF assms(2)]
    unfolding inv_def by (simp add: core_eq(2) [OF c])
qed

section \<open>A value\<close>

text \<open>What \<open>json_value\<close> has read and built when it succeeds.\<close>

definition scalar_read :: "json_parser \<Rightarrow> nat \<Rightarrow> flat_node \<Rightarrow> bytes \<Rightarrow> bool" where
  "scalar_read st i nd bs \<longleftrightarrow>
    nd = Primitive bs \<and> value_text bs (JPrim bs)
    \<or> (\<exists>us. nd = StringNode (from_utf16_lossy us) \<and> map_of (node_exact_strings st) i = exact_units us
        \<and> value_text bs (JStr bs us))"

definition value_read :: "json_parser \<Rightarrow> nat \<Rightarrow> frame_state option \<Rightarrow> json_parser \<Rightarrow> bool" where
  "value_read st i state st' \<longleftrightarrow> i = length (nodes st) \<and> source st' = source st \<and> path_offsets st' = path_offsets st
    \<and> (\<forall>j < i. map_of (node_exact_strings st') j = map_of (node_exact_strings st) j)
    \<and> fst ` set (node_exact_strings st') \<subseteq> {..i}
    \<and> (\<exists>w bs nd sp. is_ws w \<and> rest st = w @ bs @ rest st' \<and> offset st' = offset st + length w + length bs
        \<and> nodes st' = nodes st @ [nd] \<and> starts st' = starts st @ [offset st + length w]
        \<and> node_source_spans st' = node_source_spans st @ [sp]
        \<and> (case state of
             None \<Rightarrow> sp = (offset st + length w, offset st') \<and> scalar_read st' i nd bs
           | Some s \<Rightarrow> s = FirstArray \<and> bs = [0x5B] \<and> nd = ArrayNode []
               \<or> s = FirstObject \<and> bs = [0x7B] \<and> nd = ObjectNode []))"

lemma push_node_eq:
  assumes "push_node nd a p st = (i, st')"
  shows "i = length (nodes st)" "source st' = source st" "offset st' = offset st" "nodes st' = nodes st @ [nd]"
    "starts st' = starts st @ [a]" "node_source_spans st' = node_source_spans st @ [(a, offset st)]"
    "node_exact_strings st' = node_exact_strings st" "path_offsets st' = path_offsets st"
    "rest st' = rest st"
  using assms by (auto simp: push_node_def Let_def rest_def)

lemma note_exact_eq [simp]:
  "nodes (note_exact i exact st) = nodes st" "starts (note_exact i exact st) = starts st"
  "node_source_spans (note_exact i exact st) = node_source_spans st"
  "path_offsets (note_exact i exact st) = path_offsets st"
  "node_exact_strings (note_exact i exact st) =
    (case exact of Some us \<Rightarrow> AList.update i us (node_exact_strings st) | None \<Rightarrow> node_exact_strings st)"
  "rest (note_exact i exact st) = rest st"
  by (auto simp: note_exact_def rest_def split: option.splits)

lemma note_span_eq [simp]:
  "nodes (note_span p r st) = nodes st" "starts (note_span p r st) = starts st"
  "node_source_spans (note_span p r st) = node_source_spans st"
  "path_offsets (note_span p r st) = path_offsets st"
  "node_exact_strings (note_span p r st) = node_exact_strings st" "rest (note_span p r st) = rest st"
  by (auto simp: note_span_def rest_def)

lemma advance_eq [simp]:
  "nodes (advance n st) = nodes st" "starts (advance n st) = starts st"
  "node_source_spans (advance n st) = node_source_spans st" "path_offsets (advance n st) = path_offsets st"
  "node_exact_strings (advance n st) = node_exact_strings st" "source (advance n st) = source st"
  "offset (advance n st) = offset st + n"
  by (simp_all add: advance_def)

lemma whitespace_eq [simp]:
  "nodes (whitespace st) = nodes st" "starts (whitespace st) = starts st"
  "node_source_spans (whitespace st) = node_source_spans st" "path_offsets (whitespace st) = path_offsets st"
  "node_exact_strings (whitespace st) = node_exact_strings st" "source (whitespace st) = source st"
  by (simp_all add: whitespace_advance)

lemma exact_strings_fresh: "sizes st \<Longrightarrow> map_of (node_exact_strings st) (length (nodes st)) = None"
  by (auto simp: sizes_def list_all_iff map_of_eq_None_iff)

lemma eats_same:
  assumes "eats st bs st'"
  shows "nodes st' = nodes st" "starts st' = starts st" "node_source_spans st' = node_source_spans st"
    "path_offsets st' = path_offsets st" "node_exact_strings st' = node_exact_strings st" "source st' = source st"
    "offset st' = offset st + length bs" "rest st = bs @ rest st'"
  using eatsD(2) [OF assms] unfolding eatsD(1) [OF assms] by simp_all

lemma sizes_exact: "sizes st \<Longrightarrow> fst ` set (node_exact_strings st) \<subseteq> {..length (nodes st)}"
  by (force simp: sizes_def list_all_iff)

lemma value_readI:
  assumes "is_ws w" "rest st = w @ bs @ rest st'" "offset st' = offset st + length w + length bs"
    and "i = length (nodes st)" "source st' = source st" "path_offsets st' = path_offsets st"
    and "nodes st' = nodes st @ [nd]" "starts st' = starts st @ [offset st + length w]"
    and "node_source_spans st' = node_source_spans st @ [sp]"
    and "\<And>j. j < i \<Longrightarrow> map_of (node_exact_strings st') j = map_of (node_exact_strings st) j"
    and "fst ` set (node_exact_strings st') \<subseteq> {..i}"
    and "case state of
             None \<Rightarrow> sp = (offset st + length w, offset st') \<and> scalar_read st' i nd bs
           | Some s \<Rightarrow> s = FirstArray \<and> bs = [0x5B] \<and> nd = ArrayNode []
               \<or> s = FirstObject \<and> bs = [0x7B] \<and> nd = ObjectNode []"
  shows "value_read st i state st'"
  unfolding value_read_def using assms by blast

lemma json_value_sound:
  assumes "json_value st = Ok ((i, state), st')" "sizes st"
  shows "value_read st i state st'"
proof -
  let ?w = "whitespace st"
  define w where "w = takeWhile is_json_ws (rest st)"
  have w: "is_ws w" and ew: "eats st w ?w" using eats_whitespace [of st] by (simp_all add: w_def)
  note same = eats_same [OF ew]
  have r: "rest st = w @ rest ?w" by (rule eatsD(2) [OF ew])
  have o: "offset ?w = offset st + length w" by (rule eats_offset [OF ew])
  note sx = sizes_exact [OF assms(2)]
  from assms(1) show ?thesis
  proof (cases rule: json_value_cases)
    case object
    have e: "eats ?w [0x7B] (advance 1 ?w)" using object(1) by (rule eats_peek)
    note p = push_node_eq [OF object(3)]
    have "rest st = w @ [0x7B] @ rest st'" by (simp only: r eatsD(2) [OF e] p(9))
    then show ?thesis by (rule value_readI [OF w]) (use sx in \<open>simp_all add: p object(2) o\<close>)
  next
    case array
    have e: "eats ?w [0x5B] (advance 1 ?w)" using array(1) by (rule eats_peek)
    note p = push_node_eq [OF array(3)]
    have "rest st = w @ [0x5B] @ rest st'" by (simp only: r eatsD(2) [OF e] p(9))
    then show ?thesis by (rule value_readI [OF w]) (use sx in \<open>simp_all add: p array(2) o\<close>)
  next
    case (quoted shown exact st1 st2)
    obtain v cs us where s: "is_ws v" "string_chars cs us" "eats ?w (v @ 0x22 # cs @ [0x22]) st1"
      "shown = from_utf16_lossy us" "exact = exact_units us"
      using scan_string_sound [OF quoted(3)] by blast
    have "v = []"
      using quoted(1) s(1) unfolding peek_rest eatsD(2) [OF s(3)] by (cases v) (auto simp: is_json_ws_def)
    then have e: "eats ?w (0x22 # cs @ [0x22]) st1" using s(3) by simp
    note p = push_node_eq [OF quoted(4)]
    note q = eats_same(1-7) [OF e]
    let ?bs = "0x22 # cs @ [0x22]"
    have "map_of (node_exact_strings st') i = exact_units us"
      using exact_strings_fresh [OF assms(2)]
      by (simp add: quoted(5) p q s(5) exact_units_def update_conv')
    moreover have "value_text ?bs (JStr ?bs us)" using s(2) by (rule string_value) simp
    ultimately have sc: "scalar_read st' i (StringNode shown) ?bs" using s(4) by (auto simp: scalar_read_def)
    have keep: "map_of (node_exact_strings st') j = map_of (node_exact_strings st) j" if "j < i" for j
      using that by (simp add: quoted(5) p q update_conv' split: option.splits)
    have kb: "fst ` set (node_exact_strings st') \<subseteq> {..i}"
      using sx by (auto simp: quoted(5) p q dom_update split: option.splits)
    have "rest st = w @ ?bs @ rest st'" by (simp only: r eatsD(2) [OF e] p(9) quoted(5) note_span_eq note_exact_eq)
    moreover have off: "offset st' = offset st + length w + length ?bs" by (simp add: p q o quoted(5))
    ultimately show ?thesis
    proof (rule value_readI [OF w])
      show "nodes st' = nodes st @ [StringNode shown]" by (simp add: p q quoted(5))
      show "node_source_spans st' = node_source_spans st @ [(offset st + length w, offset st')]"
        by (simp add: p q quoted(5) o)
      show "case state of None \<Rightarrow> (offset st + length w, offset st') = (offset st + length w, offset st')
            \<and> scalar_read st' i (StringNode shown) ?bs
          | Some s \<Rightarrow> s = FirstArray \<and> ?bs = [0x5B] \<and> StringNode shown = ArrayNode []
             \<or> s = FirstObject \<and> ?bs = [0x7B] \<and> StringNode shown = ObjectNode []"
        using sc by (simp add: quoted(2))
    qed (use keep kb in \<open>simp_all add: p q quoted(5) o\<close>)
  next
    case (primitive raw st1 st2)
    obtain bs where b: "value_text bs (JPrim bs)" "eats ?w bs st1"
      using primitive_text_sound [OF primitive(2)] by blast
    note p = push_node_eq [OF primitive(4)]
    have "raw = text_between ?w (offset ?w) (offset st1)"
      using primitive(3) eats_same(6) [OF b(2)] by (simp add: str_get_def text_between_def split: if_splits)
    then have raw: "raw = bs" using eats_text [OF b(2)] by simp
    have sc: "scalar_read st' i (Primitive raw) bs" using b(1) raw by (simp add: scalar_read_def)
    note q = eats_same(1-7) [OF b(2)]
    have "rest st = w @ bs @ rest st'" by (simp only: r eatsD(2) [OF b(2)] p(9) primitive(5) note_span_eq)
    moreover have off: "offset st' = offset st + length w + length bs" by (simp add: p q o primitive(5))
    ultimately show ?thesis
    proof (rule value_readI [OF w])
      show "nodes st' = nodes st @ [Primitive raw]" by (simp add: p q primitive(5))
      show "node_source_spans st' = node_source_spans st @ [(offset st + length w, offset st')]"
        by (simp add: p q primitive(5) o)
      show "case state of None \<Rightarrow> (offset st + length w, offset st') = (offset st + length w, offset st')
            \<and> scalar_read st' i (Primitive raw) bs
          | Some s \<Rightarrow> s = FirstArray \<and> bs = [0x5B] \<and> Primitive raw = ArrayNode []
             \<or> s = FirstObject \<and> bs = [0x7B] \<and> Primitive raw = ObjectNode []"
        using sc by (simp add: primitive(1))
    qed (use sx in \<open>simp_all add: p q primitive(5) o\<close>)
  qed
qed

section \<open>Attaching a child\<close>

lemma inv_Cons:
  assumes "inv root st (f # fs)"
  shows "sizes st" "distinct (map frame_node (f # fs))" "frame_node f < length (nodes st)"
    "start_of st f \<le> offset st" "frame_text st (open_of (f # fs)) f (text_between st (start_of st f) (offset st))"
    "below st (open_of (f # fs)) root (frame_node f) fs"
  using assms by (auto simp: inv_def)

lemma open_of_Cons [simp]: "open_of (f # fs) = insert (frame_node f) (open_of fs)"
  by (simp add: open_of_def)

lemma below_nodes: "below st Op root p fs \<Longrightarrow> f \<in> set fs \<Longrightarrow> frame_node f < length (nodes st)"
  by (induction fs arbitrary: p) auto

definition same_reading :: "json_parser \<Rightarrow> json_parser \<Rightarrow> bool" where
  "same_reading st st' \<longleftrightarrow> core st' = core st \<and> offset st' = offset st"

lemma inv_same:
  assumes "inv root st stack" "same_reading st st'"
  shows "inv root st' stack"
proof -
  have c: "core st' = core st" and o: "offset st' = offset st" using assms(2) by (simp_all add: same_reading_def)
  note k = keeps_core [OF c]
  show ?thesis
  proof (cases stack)
    case Nil
    then show ?thesis
      using assms(1) c o tree_at_keeps [OF _ k]
      by (auto simp: inv_def root_done_def sizes_def core_eq [OF c])
  next
    case (Cons f fs)
    note i = inv_Cons [OF assms(1) [unfolded Cons]]
    have "frame_text st' (open_of (f # fs)) f (text_between st' (start_of st' f) (offset st'))"
      using frame_text_keeps [OF i(5) k] text_between_core [OF c] o
      by (simp add: core_eq [OF c] start_of_def)
    moreover have "below st' (open_of (f # fs)) root (frame_node f) fs"
      using i(6,3) by (rule below_keeps [OF k, rotated]) (simp_all add: core_eq [OF c])
    ultimately show ?thesis
      using i o Cons unfolding inv_def by (simp add: sizes_def core_eq [OF c] start_of_def)
  qed
qed

lemma start_of_eq: "frame_node f' = frame_node f \<Longrightarrow> start_of st f' = start_of st f"
  by (simp add: start_of_def)

lemma value_read_tree:
  assumes "scalar_read st' i nd bs" "nodes st2 ! i = nd" "i < length (nodes st2)" "i \<notin> Op"
    and "node_exact_strings st2 = node_exact_strings st'" "node_text st2 i = bs"
  shows "\<exists>t. tree_at st2 Op i t \<and> value_text bs t"
proof -
  from assms(1) consider "nd = Primitive bs" "value_text bs (JPrim bs)"
    | us where "nd = StringNode (from_utf16_lossy us)" "map_of (node_exact_strings st') i = exact_units us"
        "value_text bs (JStr bs us)"
    unfolding scalar_read_def by blast
  then show ?thesis
  proof cases
    case 1
    then show ?thesis using assms at_prim [of i st2 Op] by auto
  next
    case (2 us)
    then show ?thesis using assms at_str [of i st2 Op us] by auto
  qed
qed

lemma child_attach:
  assumes I: "inv root st (f # fs)" and V: "value_read st i state st1"
    and st2: "st2 = st1 \<lparr> nodes := (nodes st1)[frame_node f := nd'] \<rparr>" and f': "frame_node f' = frame_node f"
    and scalar: "\<And>t bs w tx. keeps st (open_of (f # fs)) st2 (open_of (f # fs)) \<Longrightarrow> nodes st2 ! frame_node f = nd' \<Longrightarrow>
        tree_at st2 (open_of (f # fs)) i t \<Longrightarrow> value_text bs t \<Longrightarrow> is_ws w \<Longrightarrow>
        frame_text st (open_of (f # fs)) f tx \<Longrightarrow> frame_text st2 (open_of (f # fs)) f' (tx @ w @ bs)"
    and hole: "\<And>w tx Op'. keeps st (open_of (f # fs)) st2 Op' \<Longrightarrow> nodes st2 ! frame_node f = nd' \<Longrightarrow> is_ws w \<Longrightarrow>
        frame_text st (open_of (f # fs)) f tx \<Longrightarrow> hole_text st2 Op' f' i (tx @ w)"
    and opn: "opened i state c (f' # fs) st2 = Ok (st3, stack')"
  shows "inv root st3 stack'"
proof -
  let ?O = "open_of (f # fs)" and ?p = "frame_node f"
  note iv = inv_Cons [OF I]
  obtain w bs nd sp where v: "is_ws w" "rest st = w @ bs @ rest st1"
      "offset st1 = offset st + length w + length bs" "nodes st1 = nodes st @ [nd]"
      "starts st1 = starts st @ [offset st + length w]" "node_source_spans st1 = node_source_spans st @ [sp]"
      "case state of None \<Rightarrow> sp = (offset st + length w, offset st1) \<and> scalar_read st1 i nd bs
         | Some s \<Rightarrow> s = FirstArray \<and> bs = [0x5B] \<and> nd = ArrayNode [] \<or> s = FirstObject \<and> bs = [0x7B] \<and> nd = ObjectNode []"
    and i: "i = length (nodes st)" "source st1 = source st"
      "\<And>j. j < i \<Longrightarrow> map_of (node_exact_strings st1) j = map_of (node_exact_strings st) j"
      "fst ` set (node_exact_strings st1) \<subseteq> {..i}"
    using V unfolding value_read_def by blast
  have sz: "sizes st" by (rule iv(1))
  then have len: "length (starts st) = i" "length (node_source_spans st) = i" by (simp_all add: sizes_def i(1))
  have s2: "source st2 = source st" "offset st2 = offset st1" "starts st2 = starts st1"
    "node_source_spans st2 = node_source_spans st1" "node_exact_strings st2 = node_exact_strings st1"
    "length (nodes st2) = Suc i"
    by (simp_all add: st2 i v(4))
  have p: "?p < i" using iv(3) i(1) by simp
  have n2: "nodes st2 ! ?p = nd'" "nodes st2 ! i = nd" "\<And>j. j < i \<Longrightarrow> j \<noteq> ?p \<Longrightarrow> nodes st2 ! j = nodes st ! j"
    using p by (simp_all add: st2 v(4) i(1) nth_append nth_list_update)
  have fs: "frame_node g < i \<and> frame_node g \<noteq> ?p" if "g \<in> set fs" for g
    using below_nodes [OF iv(6) that] iv(2) that i(1) by (auto intro: rev_image_eqI)
  have ifresh: "i \<notin> ?O" using p fs by (auto simp: open_of_def)
  have keep: "keeps st ?O st2 Op'" if "Op' \<subseteq> insert i ?O" for Op'
    using that unfolding keeps_def i(1) [symmetric]
    by (auto simp: s2 n2 i(3) v(5,6) len nth_append)
  have bound: "offset st1 \<le> length (source st)"
  proof -
    have "length (rest st) = length w + length bs + length (rest st1)" using v(2) by simp
    moreover have "offset st \<le> length (source st)" using sz by (simp add: sizes_def)
    ultimately show ?thesis using v(3) i(2) by (simp add: rest_def)
  qed
  have sz2: "sizes st2"
  proof -
    have "\<forall>e \<in> set (node_exact_strings st1). fst e < Suc i" using i(4) by fastforce
    then show ?thesis using sz v bound by (simp add: sizes_def s2 len list_all_iff i(1))
  qed
  define a where "a = start_of st f"
  have a: "a \<le> offset st" "start_of st2 f' = a"
    using iv(4) p by (simp_all add: a_def start_of_def s2 v(5) len nth_append f')
  define tx where "tx = text_between st a (offset st)"
  have ft: "frame_text st ?O f tx" using iv(5) by (simp add: tx_def a_def)
  have read: "text_between st2 x y = text_between st x y" for x y
    by (simp add: text_between_def s2)
  have tw: "text_between st (offset st) (offset st + length w) = w"
    using v(2) by (simp add: text_between_def rest_def)
  have tb: "text_between st (offset st + length w) (offset st1) = bs"
  proof -
    have "drop (offset st + length w) (source st) = bs @ rest st1"
      using arg_cong [OF v(2), of "drop (length w)"] by (simp add: rest_def add.commute)
    then show ?thesis by (simp add: text_between_def v(3))
  qed
  have whole: "text_between st a (offset st + length w) = tx @ w"
      "text_between st a (offset st1) = tx @ w @ bs"
  proof -
    show *: "text_between st a (offset st + length w) = tx @ w"
      using text_between_append [of a "offset st" "offset st + length w" st] a(1) tw by (simp add: tx_def)
    show "text_between st a (offset st1) = tx @ w @ bs"
      using text_between_append [of a "offset st + length w" "offset st1" st] a(1) tb v(3)
      unfolding * by simp
  qed
  have bel: "below st2 Op' root ?p fs" if "Op' \<subseteq> insert i ?O" for Op'
    using iv(6,3)
  proof (rule below_keeps [OF keep [OF that], rotated])
    show "\<forall>g \<in> set fs. nodes st2 ! frame_node g = nodes st ! frame_node g" using n2(3) fs by blast
    show "\<forall>j < length (nodes st). starts st2 ! j = starts st ! j"
      by (simp add: s2 v(5) i(1) [symmetric] len nth_append)
  qed
  show ?thesis
  proof (cases state)
    case None
    then have sp: "sp = (offset st + length w, offset st1)" "scalar_read st1 i nd bs" using v(7) by auto
    have "node_text st2 i = bs" by (simp add: node_text_def s2 v(6) len nth_append sp(1) read tb)
    then obtain t where t: "tree_at st2 ?O i t" "value_text bs t"
      using value_read_tree [OF sp(2) n2(2) _ ifresh] s2 by auto
    have ft2: "frame_text st2 ?O f' (tx @ w @ bs)"
      using scalar [OF keep n2(1) t v(1) ft] by auto
    have "inv root st2 (f' # fs)"
      using sz2 iv(2) p a ft2 bel [of ?O] whole(2) v(3)
      unfolding inv_def by (auto simp: f' s2 read)
    moreover have "same_reading st2 st3" "stack' = f' # fs"
      using opn None by (auto simp: opened_def bind_result_Inr same_reading_def dest: core_pop_path_expect)
    ultimately show ?thesis by (simp add: inv_same)
  next
    case (Some s)
    define g where "g = \<lparr> frame_node = i, frame_at = s, frame_key = None, path_component = Some c \<rparr>"
    have out: "st3 = st2" "stack' = g # f' # fs" using opn Some by (auto simp: opened_def g_def)
    have s: "s = FirstArray \<and> bs = [0x5B] \<and> nd = ArrayNode [] \<or> s = FirstObject \<and> bs = [0x7B] \<and> nd = ObjectNode []"
      using v(7) Some by simp
    have gs: "start_of st2 g = offset st + length w" "starts st2 ! i = offset st + length w"
      by (simp_all add: start_of_def g_def s2 v(5) len nth_append)
    have O: "open_of stack' = insert i ?O" by (auto simp: out g_def f')
    have "hole_text st2 (insert i ?O) f' i (tx @ w)"
      by (rule hole [OF keep n2(1) v(1) ft]) auto
    moreover have "frame_text st2 (insert i ?O) g bs"
      using s n2(2) by (auto simp: frame_text_def g_def)
    moreover have "below st2 (insert i ?O) root ?p fs" by (rule bel) auto
    ultimately show ?thesis
      using sz2 iv(2) p a whole tb v(3) ifresh fs gs O
      unfolding inv_def out by (auto simp: g_def f' s2 read open_of_def)
  qed
qed

lemma inv_same_core:
  "inv root st stack \<Longrightarrow> core st' = core st \<Longrightarrow> offset st' = offset st \<Longrightarrow> inv root st' stack"
  by (rule inv_same) (simp_all add: same_reading_def)

lemma frame_text_awaiting_element:
  assumes "frame_at f = FirstArray \<or> frame_at f = ArrayValue" "frame_text st Op f tx"
  shows "\<exists>items ts. nodes st ! frame_node f = ArrayNode items \<and> items_at st Op items ts \<and> array_open tx ts"
  using assms by (auto simp: frame_text_def items_at_def array_open_def)

lemma get_node_Some: "get_node st i = Some nd \<longleftrightarrow> i < length (nodes st) \<and> nodes st ! i = nd"
  by (auto simp: get_node_def)

lemma value_read_nodes:
  "value_read st i state st1 \<Longrightarrow> j < length (nodes st) \<Longrightarrow> nodes st1 ! j = nodes st ! j"
  by (auto simp: value_read_def nth_append)

lemma array_value_sound:
  assumes I: "inv root st (f # fs)" and at: "frame_at f = FirstArray \<or> frame_at f = ArrayValue"
    and v: "array_value (frame_node f) st (f # fs) = Ok (st', stack')"
  shows "inv root st' stack'"
  using v
proof (rule array_value_cases)
  fix items items' :: "nat list" and child state st1 g gs
  let ?c = "scalars_of (decimal (length items))"
  assume n: "get_node st (frame_node f) = Some (ArrayNode items)"
    and j: "json_value (push_path ?c st) = Ok ((child, state), st1)"
    and n1: "get_node st1 (frame_node f) = Some (ArrayNode items')" and s: "f # fs = g # gs"
    and o: "opened child state ?c (g \<lparr> frame_at := ArrayComma \<rparr> # gs)
       (st1 \<lparr> nodes := (nodes st1)[frame_node f := ArrayNode (items' @ [child])] \<rparr>) = Ok (st', stack')"
  have I': "inv root (push_path ?c st) (f # fs)" by (rule inv_same_core [OF I]) simp_all
  have V: "value_read (push_path ?c st) child state st1" using j inv_Cons(1) [OF I'] by (rule json_value_sound)
  have it: "nodes (push_path ?c st) ! frame_node f = ArrayNode items" "items' = items"
    using n n1 value_read_nodes [OF V, of "frame_node f"] by (auto simp: get_node_Some push_path_def)
  have g: "g = f" "gs = fs" using s by simp_all
  show "inv root st' stack'"
  proof (rule child_attach [OF I' V refl _ _ _ o [unfolded g]])
    let ?f' = "f \<lparr> frame_at := ArrayComma \<rparr>"
    let ?st2 = "st1 \<lparr> nodes := (nodes st1)[frame_node f := ArrayNode (items' @ [child])] \<rparr>"
    show "frame_node ?f' = frame_node f" by simp
    show "frame_text ?st2 (open_of (f # fs)) ?f' (tx @ w @ bs)"
      if pr: "keeps (push_path ?c st) (open_of (f # fs)) ?st2 (open_of (f # fs))"
        "nodes ?st2 ! frame_node f = ArrayNode (items' @ [child])"
        "tree_at ?st2 (open_of (f # fs)) child t" "value_text bs t" "is_ws w"
        "frame_text (push_path ?c st) (open_of (f # fs)) f tx" for t bs w tx
    proof -
      obtain ts where ts: "items_at (push_path ?c st) (open_of (f # fs)) items ts" "array_open tx ts"
        using frame_text_awaiting_element [OF at pr(6)] it by auto
      have "items_at ?st2 (open_of (f # fs)) (items @ [child]) (ts @ [t])"
        by (rule items_at_snoc [OF items_at_keeps [OF ts(1) pr(1)] pr(3)])
      moreover have "array_done (tx @ w @ bs) (ts @ [t])"
        using array_element [OF partial_ws(1) [OF ts(2) pr(5)] pr(4)] by simp
      ultimately show ?thesis using pr(2) it(2) by (auto simp: frame_text_def)
    qed
    show "hole_text ?st2 Op' ?f' child (tx @ w)"
      if pr: "keeps (push_path ?c st) (open_of (f # fs)) ?st2 Op'"
        "nodes ?st2 ! frame_node f = ArrayNode (items' @ [child])" "is_ws w"
        "frame_text (push_path ?c st) (open_of (f # fs)) f tx" for w tx Op'
    proof -
      obtain ts where ts: "items_at (push_path ?c st) (open_of (f # fs)) items ts" "array_open tx ts"
        using frame_text_awaiting_element [OF at pr(4)] it by auto
      have "items_at ?st2 Op' items ts" by (rule items_at_keeps [OF ts(1) pr(1)])
      moreover have "array_open (tx @ w) ts" by (rule partial_ws(1) [OF ts(2) pr(3)])
      ultimately show ?thesis using pr(2) it(2) unfolding hole_text_def by auto
    qed
  qed
qed

lemma object_value_sound:
  assumes I: "inv root st (f # fs)" and at: "frame_at f = ObjectValue"
    and v: "object_value (frame_node f) st (f # fs) = Ok (st', stack')"
  shows "inv root st' stack'"
  using v
proof (rule object_value_cases)
  fix g gs key units members members' st1 child state st2
  let ?st = "push_path key (note_key (pointer_with_child st key) units st1)"
  let ?nd = "ObjectNode (put_field key units child members')"
  assume s: "f # fs = g # gs" and k: "frame_key g = Some (key, units)"
    and n: "get_node st (frame_node f) = Some (ObjectNode members)"
    and st1: "st1 = (if list_ex (\<lambda>(_, u, _). u = units) members
            then clear_replaced_subtree (pointer_with_child st key) st else st)"
    and j: "json_value ?st = Ok ((child, state), st2)"
    and n2: "get_node st2 (frame_node f) = Some (ObjectNode members')"
    and o: "opened child state key (g \<lparr> frame_key := None, frame_at := ObjectComma \<rparr> # gs)
       (st2 \<lparr> nodes := (nodes st2)[frame_node f := ?nd] \<rparr>) = Ok (st', stack')"
  have same: "core ?st = core st" "offset ?st = offset st" by (auto simp: st1)
  have I': "inv root ?st (f # fs)" using I same by (rule inv_same_core)
  have V: "value_read ?st child state st2" using j inv_Cons(1) [OF I'] by (rule json_value_sound)
  have g: "g = f" "gs = fs" using s by simp_all
  have nd: "nodes ?st ! frame_node f = ObjectNode members" "members' = members"
    using n n2 value_read_nodes [OF V, of "frame_node f"] core_eq(2) [OF same(1)]
    by (auto simp: get_node_Some)
  have awaiting: "\<exists>kts. members_at ?st Op members kts \<and> key = from_utf16_lossy units \<and> object_valued tx kts units"
    if "frame_text ?st Op f tx" for Op tx
    using that at k nd(1) by (auto simp: frame_text_def g)
  show "inv root st' stack'"
  proof (rule child_attach [OF I' V refl _ _ _ o [unfolded g]])
    let ?f' = "f \<lparr> frame_key := None, frame_at := ObjectComma \<rparr>"
    let ?st2 = "st2 \<lparr> nodes := (nodes st2)[frame_node f := ?nd] \<rparr>"
    show "frame_node ?f' = frame_node f" by simp
    show "frame_text ?st2 (open_of (f # fs)) ?f' (tx @ w @ bs)"
      if pr: "keeps ?st (open_of (f # fs)) ?st2 (open_of (f # fs))" "nodes ?st2 ! frame_node f = ?nd"
        "tree_at ?st2 (open_of (f # fs)) child t" "value_text bs t" "is_ws w"
        "frame_text ?st (open_of (f # fs)) f tx" for t bs w tx
    proof -
      obtain kts where kts: "members_at ?st (open_of (f # fs)) members kts"
          "key = from_utf16_lossy units" "object_valued tx kts units"
        using awaiting [OF pr(6)] by blast
      have "members_at ?st2 (open_of (f # fs)) (put_field key units child members) (put_member units t kts)"
        using members_at_put [OF members_at_keeps [OF kts(1) pr(1)] pr(3)] kts(2) by simp
      moreover have "object_done (tx @ w @ bs) (put_member units t kts)"
        using object_member [OF partial_ws(5) [OF kts(3) pr(5)] pr(4)] by simp
      ultimately show ?thesis using pr(2) nd(2) by (auto simp: frame_text_def)
    qed
    show "hole_text ?st2 Op' ?f' child (tx @ w)"
      if pr: "keeps ?st (open_of (f # fs)) ?st2 Op'" "nodes ?st2 ! frame_node f = ?nd" "is_ws w"
        "frame_text ?st (open_of (f # fs)) f tx" for w tx Op'
    proof -
      obtain kts where kts: "members_at ?st (open_of (f # fs)) members kts"
          "key = from_utf16_lossy units" "object_valued tx kts units"
        using awaiting [OF pr(4)] by blast
      have "members_at ?st2 Op' members kts" by (rule members_at_keeps [OF kts(1) pr(1)])
      moreover have "object_valued (tx @ w) kts units" by (rule partial_ws(5) [OF kts(3) pr(3)])
      ultimately show ?thesis using pr(2) nd(2) kts(2) unfolding hole_text_def by auto
    qed
  qed
qed

section \<open>Closing a container\<close>

definition closes :: "json_parser \<Rightarrow> nat set \<Rightarrow> nat \<Rightarrow> bytes \<Rightarrow> json_tree \<Rightarrow> bool" where
  "closes st Op p tx t \<longleftrightarrow> value_text tx t \<and>
    ((\<exists>items ts. nodes st ! p = ArrayNode items \<and> items_at st Op items ts \<and> t = JArr tx ts)
     \<or> (\<exists>ms kts. nodes st ! p = ObjectNode ms \<and> members_at st Op ms kts \<and> t = JObj tx kts))"

lemma closes_tree:
  assumes "closes st Op p tx t" "keeps st Op st' Op'" "nodes st' ! p = nodes st ! p" "node_text st' p = tx"
    and "p < length (nodes st')" "p \<notin> Op'"
  shows "tree_at st' Op' p t"
  using assms(1) unfolding closes_def
proof (elim conjE disjE exE)
  fix items ts
  assume "value_text tx t" "nodes st ! p = ArrayNode items" "items_at st Op items ts" "t = JArr tx ts"
  then show ?thesis
    using at_arr [of p st' Op' items ts] items_at_keeps [of st Op items ts st' Op'] assms(2-)
    by (auto simp: items_at_def)
next
  fix ms kts
  assume "value_text tx t" "nodes st ! p = ObjectNode ms" "members_at st Op ms kts" "t = JObj tx kts"
  then show ?thesis
    using at_obj [of p st' Op' ms kts] members_at_keeps [of st Op ms kts st' Op'] assms(2-)
    by (auto simp: members_at_def)
qed

lemma pop_frame_eq:
  assumes "pop_frame st (f # fs) = Ok (st', stack')"
  shows "stack' = fs" "source st' = source st" "nodes st' = nodes st" "starts st' = starts st" "offset st' = offset st"
    "node_exact_strings st' = node_exact_strings st"
    "node_source_spans st' = (node_source_spans st)[frame_node f := (start_of st f, offset st)]"
  using assms
  by (auto simp: pop_frame_def Let_def bind_result_Inr pop_path_def start_of_def split: if_splits option.splits)

lemma hole_filled:
  assumes "hole_text st Op g p tx" "keeps st Op st' Op'" "nodes st' ! frame_node g = nodes st ! frame_node g"
    and "tree_at st' Op' p t" "value_text bs t"
  shows "frame_text st' Op' g (tx @ bs)"
  using assms(1) unfolding hole_text_def
proof (elim disjE conjE exE)
  fix items ts
  assume "frame_at g = ArrayComma" "nodes st ! frame_node g = ArrayNode (items @ [p])"
    "items_at st Op items ts" "array_open tx ts"
  then show ?thesis
    using items_at_snoc [OF items_at_keeps [OF _ assms(2)] assms(4)] array_element [OF _ assms(5)] assms(3)
    unfolding frame_text_def by (simp, blast)
next
  fix ms kts k
  assume "frame_at g = ObjectComma" "nodes st ! frame_node g = ObjectNode (put_field (from_utf16_lossy k) k p ms)"
    "members_at st Op ms kts" "object_valued tx kts k"
  then show ?thesis
    using members_at_put [OF members_at_keeps [OF _ assms(2)] assms(4)] object_member [OF _ assms(5)] assms(3)
    unfolding frame_text_def by (simp, blast)
qed

lemma pop_frame_sound:
  assumes I: "inv root st (f # fs)" and e: "eats st bs st1"
    and closing: "\<And>tx. frame_text st (open_of (f # fs)) f tx \<Longrightarrow>
        \<exists>t. closes st (open_of (f # fs)) (frame_node f) (tx @ bs) t"
    and pop: "pop_frame st1 (f # fs) = Ok (st', stack')"
  shows "inv root st' stack'"
proof -
  let ?O = "open_of (f # fs)" and ?O' = "open_of fs" and ?p = "frame_node f"
  note iv = inv_Cons [OF I] and q = pop_frame_eq [OF pop] and c = eats_core [OF e]
  define a where "a = start_of st f"
  have a1: "start_of st1 f = a" by (simp add: a_def start_of_def core_eq [OF c])
  have s: "source st' = source st" "nodes st' = nodes st" "starts st' = starts st"
    "node_exact_strings st' = node_exact_strings st"
    "node_source_spans st' = (node_source_spans st)[?p := (a, offset st1)]"
    using q core_eq [OF c] a1 by simp_all
  have sz: "sizes st'"
    using iv(1) eats_bounded [OF e] s q(5) by (simp add: sizes_def)
  have dist: "?p \<notin> ?O'" using iv(2) by (auto simp: open_of_def)
  have keep: "keeps st ?O st' ?O'" using dist by (auto simp: keeps_def s open_of_def nth_list_update)
  have le: "a \<le> offset st" "offset st \<le> offset st1" using iv(4) eats_offset [OF e] by (simp_all add: a_def)
  have tx: "text_between st a (offset st1) = text_between st a (offset st) @ bs"
    using text_between_append [OF le, of st] eats_text [OF e] by simp
  obtain t where cl: "closes st ?O ?p (text_between st a (offset st1)) t"
    using closing [OF iv(5)] tx by (auto simp: a_def)
  have len: "?p < length (node_source_spans st)" using iv(1,3) by (simp add: sizes_def)
  have nt: "node_text st' ?p = text_between st a (offset st1)"
    by (simp add: node_text_def s len text_between_def)
  have tree: "tree_at st' ?O' ?p t"
    using closes_tree [OF cl keep _ nt _ dist] iv(3) by (simp add: s)
  have vt: "value_text (text_between st a (offset st1)) t" using cl by (simp add: closes_def)
  show ?thesis
  proof (cases fs)
    case Nil
    then have "?p = root" "is_ws (take a (source st))" using iv(6) by (auto simp: a_def start_of_def)
    moreover have "starts st' ! ?p = a" by (simp add: s a_def start_of_def)
    ultimately show ?thesis
      using tree sz q(1,5) le len Nil
      by (auto simp: inv_def root_done_def s open_of_def intro: le_trans)
  next
    case (Cons g gs)
    have b: "frame_node g < length (nodes st)" "start_of st g \<le> a"
      "hole_text st ?O g ?p (text_between st (start_of st g) a)" "below st ?O root (frame_node g) gs"
      using iv(6) Cons by (simp_all add: a_def start_of_def)
    have "text_between st (start_of st g) (offset st1) = text_between st (start_of st g) a @ text_between st a (offset st1)"
      using text_between_append [of "start_of st g" a "offset st1" st] b(2) le by simp
    then have "frame_text st' ?O' g (text_between st (start_of st g) (offset st1))"
      using hole_filled [OF b(3) keep _ tree vt] s by simp
    moreover have "below st' ?O' root (frame_node g) gs"
      using b(4,1) by (rule below_keeps [OF keep, rotated]) (simp_all add: s)
    moreover have "start_of st' g = start_of st g" "text_between st' = text_between st"
      by (intro ext | simp add: start_of_def text_between_def s)+
    ultimately show ?thesis
      using sz iv(2) b(1,2) le q(1,5) Cons unfolding inv_def by (simp add: s)
  qed
qed

section \<open>Soundness\<close>

lemma frame_text_ws: "frame_text st Op f tx \<Longrightarrow> is_ws w \<Longrightarrow> frame_text st Op f (tx @ w)"
  unfolding frame_text_def
  by (cases "frame_at f") (simp_all, (fastforce intro: partial_ws | blast intro: partial_ws)+)

lemma closes_array:
  assumes "frame_at f = FirstArray \<or> frame_at f = ArrayComma" "frame_text st Op f tx" "is_ws w"
  shows "\<exists>t. closes st Op (frame_node f) (tx @ w @ [0x5D]) t"
  using assms(1)
proof
  assume "frame_at f = FirstArray"
  then obtain v where v: "nodes st ! frame_node f = ArrayNode []" "tx = 0x5B # v" "is_ws v"
    using assms(2) by (auto simp: frame_text_def)
  have "value_text (tx @ w @ [0x5D]) (JArr (tx @ w @ [0x5D]) [])"
    using v assms(3) by (intro empty_array [of "v @ w"]) simp_all
  then show ?thesis using v(1) unfolding closes_def items_at_def by fastforce
next
  assume "frame_at f = ArrayComma"
  then obtain items ts es where v: "nodes st ! frame_node f = ArrayNode items" "items_at st Op items ts"
      "tx = 0x5B # es" "elements_text es ts"
    using assms(2) by (auto simp: frame_text_def array_done_def)
  have "value_text (tx @ w @ [0x5D]) (JArr (tx @ w @ [0x5D]) ts)"
    using v elements_ws [OF v(4) assms(3)] by (intro full_array [of "es @ w"]) simp_all
  then show ?thesis using v(1,2) unfolding closes_def by fastforce
qed

lemma closes_object:
  assumes "frame_at f = FirstObject \<or> frame_at f = ObjectComma" "frame_text st Op f tx" "is_ws w"
  shows "\<exists>t. closes st Op (frame_node f) (tx @ w @ [0x7D]) t"
  using assms(1)
proof
  assume "frame_at f = FirstObject"
  then obtain v where v: "nodes st ! frame_node f = ObjectNode []" "tx = 0x7B # v" "is_ws v"
    using assms(2) by (auto simp: frame_text_def)
  have "value_text (tx @ w @ [0x7D]) (JObj (tx @ w @ [0x7D]) [])"
    using v assms(3) by (intro empty_object [of "v @ w"]) simp_all
  then show ?thesis using v(1) unfolding closes_def members_at_def by fastforce
next
  assume "frame_at f = ObjectComma"
  then obtain members kts ms where v: "nodes st ! frame_node f = ObjectNode members" "members_at st Op members kts"
      "tx = 0x7B # ms" "members_text ms kts"
    using assms(2) by (auto simp: frame_text_def object_done_def)
  have "value_text (tx @ w @ [0x7D]) (JObj (tx @ w @ [0x7D]) kts)"
    using v members_ws [OF v(4) assms(3)] by (intro full_object [of "ms @ w"]) simp_all
  then show ?thesis using v(1,2) unfolding closes_def by fastforce
qed

lemma utf16_of_pair:
  assumes "is_high h" "is_low l"
  shows "utf16_of_scalar (join_pair h l) = [h, l]"
proof -
  have h: "0xD800 \<le> unat h" "unat h < 0xDC00" and l: "0xDC00 \<le> unat l" "unat l < 0xE000"
    using assms by (simp_all add: is_high_def is_low_def word_le_nat_alt word_less_nat_alt)
  define a b where "a = unat h - 0xD800" and "b = unat l - 0xDC00"
  have ab: "b < 0x400" "unat h = 0xD800 + a" "unat l = 0xDC00 + b" using h l by (auto simp: a_def b_def)
  have "join_pair h l = 0x10000 + (a * 0x400 + b)" by (simp add: join_pair_def a_def b_def)
  moreover have "(a * 0x400 + b) div 0x400 = a" "(a * 0x400 + b) mod 0x400 = b" using ab(1) by simp_all
  ultimately have "utf16_of_scalar (join_pair h l) = [word_of_nat (unat h), word_of_nat (unat l)]"
    unfolding utf16_of_scalar_def ab(2,3) by simp
  then show ?thesis by simp
qed

lemma utf16_of_unit: "utf16_of_scalar (unat (u :: u16)) = [u]"
proof -
  have "unat u < 2 ^ LENGTH(16)" by (rule unsigned_less)
  then show ?thesis by (simp add: utf16_of_scalar_def)
qed

lemma valid_encode: "utf16_valid us \<Longrightarrow> encode_utf16 (from_utf16_lossy us) = us"
proof (induction us rule: utf16_valid.induct)
  case (3 u v us)
  then show ?case
    by (auto simp: encode_utf16_def utf16_of_pair utf16_of_unit split: if_splits)
qed (simp_all add: encode_utf16_def utf16_of_unit)

lemma frame_text_awaiting_member:
  assumes "frame_at f = FirstObject \<or> frame_at f = ObjectKey" "frame_text st Op f tx"
  shows "\<exists>ms kts. nodes st ! frame_node f = ObjectNode ms \<and> members_at st Op ms kts \<and> object_open tx kts"
  using assms(1)
proof
  assume "frame_at f = FirstObject"
  then show ?thesis using assms(2) by (auto simp: frame_text_def members_at_def object_open_def)
next
  assume "frame_at f = ObjectKey"
  then show ?thesis using assms(2) by (simp add: frame_text_def)
qed

lemma object_key_sound:
  assumes I: "inv root st (f # fs)" and at: "frame_at f = FirstObject \<or> frame_at f = ObjectKey"
    and k: "object_key st (f # fs) = Ok (st', stack')"
  shows "inv root st' stack'"
proof -
  obtain key exact where s: "scan_string st = Ok ((key, exact), st')"
    and stack': "stack' = f \<lparr> frame_key := Some (key, case exact of Some us \<Rightarrow> us | None \<Rightarrow> encode_utf16 key),
        frame_at := ObjectColon \<rparr> # fs"
    using k by (auto simp: object_key_Ok)
  obtain w cs us where t: "is_ws w" "string_chars cs us" "eats st (w @ 0x22 # cs @ [0x22]) st'"
      "key = from_utf16_lossy us" "exact = exact_units us"
    using scan_string_sound [OF s] by blast
  have units: "(case exact of Some us \<Rightarrow> us | None \<Rightarrow> encode_utf16 key) = us"
    using valid_encode [of us] t(4,5) by (simp add: exact_units_def)
  show ?thesis
    unfolding stack'
  proof (rule inv_eats [OF I t(3)])
    fix tx
    assume tx: "frame_text st (open_of (f # fs)) f tx"
    obtain ms kts where m: "nodes st ! frame_node f = ObjectNode ms" "members_at st (open_of (f # fs)) ms kts"
        "object_open tx kts"
      using frame_text_awaiting_member [OF at tx] by blast
    have "object_keyed (tx @ w @ 0x22 # cs @ [0x22]) kts us"
      using object_key_text [OF partial_ws(3) [OF m(3) t(1)] t(2)] by simp
    then show "frame_text st (open_of (f # fs))
        (f \<lparr> frame_key := Some (key, case exact of Some us \<Rightarrow> us | None \<Rightarrow> encode_utf16 key), frame_at := ObjectColon \<rparr>)
        (tx @ w @ 0x22 # cs @ [0x22])"
      using m(1,2) t(4) unfolding units by (auto simp: frame_text_def)
  qed simp
qed

lemma inv_whitespace:
  assumes "inv root st (f # fs)"
  shows "inv root (whitespace st) (f # fs)"
  by (rule inv_eats [OF assms eats_whitespace]) (auto intro: frame_text_ws)

lemma consume_False: "consume b st = (False, st') \<Longrightarrow> st' = whitespace st"
  by (simp add: consume_def Let_def split: if_splits)

lemma frame_step_sound:
  assumes I0: "inv root st0 stack" and step: "frame_step st0 stack = Ok (st', stack')"
  shows "inv root st' stack'"
proof -
  obtain f fs where stack: "stack = f # fs"
    using step by (auto simp: frame_step_def Let_def split: list.splits)
  define st where "st = whitespace st0"
  have I: "inv root st (f # fs)" using inv_whitespace I0 unfolding stack st_def by blast
  note s = step [unfolded frame_step_def Let_def stack list.case st_def [symmetric]]
  have ws: "whitespace st = st" by (simp add: st_def)
  have token: "inv root st' (f \<lparr> frame_at := to \<rparr> # fs)"
    if pr: "consume b st = (True, st')" "frame_at f = at"
      "\<And>tx w. frame_text st (open_of (f # fs)) f tx \<Longrightarrow> is_ws w \<Longrightarrow>
         frame_text st (open_of (f # fs)) (f \<lparr> frame_at := to \<rparr>) (tx @ w @ [b])" for b to at
  proof -
    obtain w where w: "is_ws w" "eats st (w @ [b]) st'" using consume_eats [OF pr(1)] by blast
    show ?thesis by (rule inv_eats [OF I w(2)]) (use pr(3) w(1) in auto)
  qed
  have closing: "inv root st' stack'"
    if pr: "consume b st = (True, st1)" "pop_frame st1 (f # fs) = Ok (st', stack')"
      "\<And>tx w. frame_text st (open_of (f # fs)) f tx \<Longrightarrow> is_ws w \<Longrightarrow>
         \<exists>t. closes st (open_of (f # fs)) (frame_node f) (tx @ w @ [b]) t" for b st1
  proof -
    obtain w where w: "is_ws w" "eats st (w @ [b]) st1" using consume_eats [OF pr(1)] by blast
    show ?thesis by (rule pop_frame_sound [OF I w(2) _ pr(2)]) (use pr(3) w(1) in auto)
  qed
  show ?thesis
  proof (cases "frame_at f")
    case FirstArray
    obtain c st1 where c: "consume 0x5D st = (c, st1)" by fastforce
    show ?thesis
    proof (cases c)
      case True
      then show ?thesis
        using s FirstArray c closing [of "0x5D" st1] closes_array [of f] by simp
    next
      case False
      then have "st1 = st" using consume_False c ws by simp
      then show ?thesis using s FirstArray c False array_value_sound [OF I] by simp
    qed
  next
    case ArrayValue
    then show ?thesis using s array_value_sound [OF I] by simp
  next
    case ArrayComma
    obtain c st1 where c: "consume 0x5D st = (c, st1)" by fastforce
    show ?thesis
    proof (cases c)
      case True
      then show ?thesis
        using s ArrayComma c closing [of "0x5D" st1] closes_array [of f] by simp
    next
      case False
      then have "st1 = st" using consume_False c ws by simp
      then have "consume 0x2C st = (True, st')" "stack' = f \<lparr> frame_at := ArrayValue \<rparr> # fs"
        using s ArrayComma c False by (auto split: prod.splits bool.splits)
      moreover have "frame_text st (open_of (f # fs)) (f \<lparr> frame_at := ArrayValue \<rparr>) (tx @ w @ [0x2C])"
        if "frame_text st (open_of (f # fs)) f tx" "is_ws w" for tx w
        using that ArrayComma array_comma [OF partial_ws(2)] by (fastforce simp: frame_text_def)
      ultimately show ?thesis using token [of "0x2C" ArrayComma] ArrayComma by simp
    qed
  next
    case FirstObject
    obtain c st1 where c: "consume 0x7D st = (c, st1)" by fastforce
    show ?thesis
    proof (cases c)
      case True
      then show ?thesis
        using s FirstObject c closing [of "0x7D" st1] closes_object [of f] by simp
    next
      case False
      then have "st1 = st" using consume_False c ws by simp
      then show ?thesis using s FirstObject c False object_key_sound [OF I] by simp
    qed
  next
    case ObjectKey
    then show ?thesis using s object_key_sound [OF I] by simp
  next
    case ObjectColon
    then have "consume 0x3A st = (True, st')" "stack' = f \<lparr> frame_at := ObjectValue \<rparr> # fs"
      using s by (auto split: prod.splits bool.splits)
    moreover have "frame_text st (open_of (f # fs)) (f \<lparr> frame_at := ObjectValue \<rparr>) (tx @ w @ [0x3A])"
      if "frame_text st (open_of (f # fs)) f tx" "is_ws w" for tx w
      using that ObjectColon object_colon [OF partial_ws(4)] by (fastforce simp: frame_text_def)
    ultimately show ?thesis using token [of "0x3A" ObjectColon] ObjectColon by simp
  next
    case ObjectValue
    then show ?thesis using s object_value_sound [OF I] by simp
  next
    case ObjectComma
    obtain c st1 where c: "consume 0x7D st = (c, st1)" by fastforce
    show ?thesis
    proof (cases c)
      case True
      then show ?thesis
        using s ObjectComma c closing [of "0x7D" st1] closes_object [of f] by simp
    next
      case False
      then have "st1 = st" using consume_False c ws by simp
      then have "consume 0x2C st = (True, st')" "stack' = f \<lparr> frame_at := ObjectKey \<rparr> # fs"
        using s ObjectComma c False by (auto split: prod.splits bool.splits)
      moreover have "frame_text st (open_of (f # fs)) (f \<lparr> frame_at := ObjectKey \<rparr>) (tx @ w @ [0x2C])"
        if "frame_text st (open_of (f # fs)) f tx" "is_ws w" for tx w
        using that ObjectComma object_comma [OF partial_ws(6)] by (fastforce simp: frame_text_def)
      ultimately show ?thesis using token [of "0x2C" ObjectComma] ObjectComma by simp
    qed
  qed
qed

lemma document_loop_sound:
  "inv root st stack \<Longrightarrow> document_loop st stack = Ok st' \<Longrightarrow> inv root st' []"
proof (induction st stack rule: document_loop.induct)
  case (1 st stack)
  show ?case
  proof (cases "stack = []")
    case True
    then show ?thesis using 1 by (simp add: document_loop.simps)
  next
    case False
    then obtain st1 stack1 where s: "frame_step st stack = Ok (st1, stack1)" "document_loop st1 stack1 = Ok st'"
      using "1.prems"(2) by (subst (asm) document_loop.simps) (auto split: sum.splits prod.splits)
    then show ?thesis using "1.IH" [OF False s(1) refl] frame_step_sound [OF "1.prems"(1) s(1)] by blast
  qed
qed

text \<open>The nodes of a document as the tree they stand for.\<close>

definition parser_of :: "bytes \<Rightarrow> flat_document \<Rightarrow> json_parser" where
  "parser_of s d = (new_parser s) \<lparr> nodes := doc_nodes d, node_source_spans := doc_node_source_spans d,
     node_exact_strings := doc_node_exact_strings d \<rparr>"

definition stands_for :: "bytes \<Rightarrow> flat_document \<Rightarrow> nat \<Rightarrow> json_tree \<Rightarrow> bool" where
  "stands_for s d i t \<longleftrightarrow> tree_at (parser_of s d) {} i t"

lemma new_parser_eq [simp]:
  "source (new_parser s) = s" "offset (new_parser s) = 0" "nodes (new_parser s) = []"
  "starts (new_parser s) = []" "node_source_spans (new_parser s) = []" "path_offsets (new_parser s) = []"
  "node_exact_strings (new_parser s) = []" "rest (new_parser s) = s"
  by (simp_all add: new_parser_def rest_def)

lemma document_loop_moves: "document_loop st stack = Ok st' \<Longrightarrow> moves st st'"
proof (induction st stack rule: document_loop.induct)
  case (1 st stack)
  show ?case
  proof (cases "stack = []")
    case True
    then show ?thesis using 1 by (simp add: document_loop.simps moves_refl)
  next
    case False
    then obtain st1 stack1 where s: "frame_step st stack = Ok (st1, stack1)" "document_loop st1 stack1 = Ok st'"
      using "1.prems" by (subst (asm) document_loop.simps) (auto split: sum.splits prod.splits)
    have "moves st1 st'" using "1.IH" [OF False s(1) refl s(2)] .
    then show ?thesis using frame_step_moves [OF s(1)] moves_on_moves moves_trans by blast
  qed
qed

lemma document_loop_source: "document_loop st stack = Ok st' \<Longrightarrow> source st' = source st"
  by (drule document_loop_moves) (simp add: moves_def)

lemma sizes_new [simp]: "sizes (new_parser s)"
  by (simp add: sizes_def new_parser_def)

definition first_frame :: "nat \<Rightarrow> frame_state option \<Rightarrow> frame list" where
  "first_frame root state =
    (case state of
       Some fs \<Rightarrow> [\<lparr> frame_node = root, frame_at = fs, frame_key = None, path_component = None \<rparr>]
     | None \<Rightarrow> [])"

lemma first_value_sound:
  assumes "json_value (new_parser s) = Ok ((root, state), st)"
  shows "inv root st (first_frame root state) \<and> source st = s"
proof -
  have "value_read (new_parser s) root state st" using assms by (rule json_value_sound) simp
  note V = this [unfolded value_read_def new_parser_eq]
  from V have i: "root = 0" "source st = s" "fst ` set (node_exact_strings st) \<subseteq> {..root}" by auto
  from V obtain w bs nd sp where v0: "is_ws w" "s = w @ bs @ rest st"
      "offset st = 0 + length w + length bs" "nodes st = [] @ [nd]" "starts st = [] @ [0 + length w]"
      "node_source_spans st = [] @ [sp]"
      "case state of None \<Rightarrow> sp = (0 + length w, offset st) \<and> scalar_read st root nd bs
         | Some s \<Rightarrow> s = FirstArray \<and> bs = [0x5B] \<and> nd = ArrayNode [] \<or> s = FirstObject \<and> bs = [0x7B] \<and> nd = ObjectNode []"
    by blast
  note v = v0 [unfolded append_Nil add_0]
  note s = v(2)
  have l: "length w + length bs \<le> length s" by (subst s) simp
  have sz: "sizes st" using v(3-6) i(2,3) l by (force simp: sizes_def list_all_iff i(1))
  have start: "is_ws (take (starts st ! root) (source st))"
    unfolding i(2) by (subst s) (simp add: v(1,5) i(1))
  have tx: "text_between st (length w) (offset st) = bs"
    unfolding text_between_def i(2) by (subst s) (simp add: v(3))
  show ?thesis
  proof (cases state)
    case None
    then have sp: "sp = (length w, offset st)" "scalar_read st root nd bs" using v(7) by auto
    have "node_text st root = bs" by (simp add: node_text_def v(6) i(1) sp(1) tx)
    then obtain t where "tree_at st {} root t"
      using value_read_tree [OF sp(2), of st "{}"] v(4) i(1) by auto
    then have "root_done st root"
      using start v(3,5,6) sp(1) i(1) by (auto simp: root_done_def)
    then show ?thesis using sz i(2) None by (simp add: inv_def first_frame_def)
  next
    case (Some fs)
    then have "frame_text st {root} \<lparr> frame_node = root, frame_at = fs, frame_key = None, path_component = None \<rparr> bs"
      using v(4,7) i(1) by (auto simp: frame_text_def)
    then show ?thesis
      using sz i Some start v(3,4,5) tx by (simp add: inv_def first_frame_def open_of_def start_of_def)
  qed
qed

lemma document_Ok:
  "document s = Ok d \<longleftrightarrow> (\<exists>root state st st'. json_value (new_parser s) = Ok ((root, state), st)
     \<and> document_loop st (first_frame root state) = Ok st' \<and> rest (whitespace st') = [] \<and> offset st' \<le> length (source st')
     \<and> d = \<lparr> doc_root = root, doc_nodes = nodes st', doc_node_pointers = node_pointers st',
             doc_node_source_spans = node_source_spans st',
             doc_node_exact_strings = node_exact_strings st', doc_pointer_nodes = pointer_nodes st',
             doc_source_spans = source_spans st', doc_exact_strings = exact_strings st',
             doc_exact_keys = exact_keys st' \<rparr>)"
proof -
  have e: "offset (whitespace st) = length (source st) \<longleftrightarrow> rest (whitespace st) = [] \<and> offset st \<le> length (source st)" for st
    using length_takeWhile_drop [of "offset st" "source st" is_json_ws]
    by (auto simp: rest_def whitespace_def)
  have n: "nodes (whitespace st) = nodes st" "node_pointers (whitespace st) = node_pointers st"
    "pointer_nodes (whitespace st) = pointer_nodes st" "source_spans (whitespace st) = source_spans st"
    "exact_strings (whitespace st) = exact_strings st" "exact_keys (whitespace st) = exact_keys st" for st
    by (simp_all add: whitespace_def)
  show ?thesis
    unfolding document_def bind_result_Inr Let_def first_frame_def [symmetric] whitespace_eq(6)
    by (auto simp: bind_result_Inr e n split: if_splits)
qed

lemma document_sound:
  assumes "document s = Ok d"
  shows "\<exists>t. json_text s t \<and> stands_for s d (doc_root d) t"
proof -
  obtain root state st st' where v: "json_value (new_parser s) = Ok ((root, state), st)"
      "document_loop st (first_frame root state) = Ok st'" "rest (whitespace st') = []"
    and d: "doc_root d = root" "doc_nodes d = nodes st'" "doc_node_source_spans d = node_source_spans st'"
      "doc_node_exact_strings d = node_exact_strings st'"
    using assms unfolding document_Ok by auto
  have I: "inv root st (first_frame root state)" "source st = s" using first_value_sound [OF v(1)] by auto
  have "inv root st' []" using document_loop_sound [OF I(1) v(2)] .
  then obtain t where t: "tree_at st' {} root t" "is_ws (take (starts st' ! root) (source st'))"
      "starts st' ! root \<le> offset st'" "node_source_spans st' ! root = (starts st' ! root, offset st')"
    by (auto simp: inv_def root_done_def)
  have src: "source st' = s" using document_loop_source [OF v(2)] I(2) by simp
  define a where "a = starts st' ! root"
  have "is_ws (drop (offset st') s)"
    using eats_whitespace [of st'] v(3) eatsD(2) [of st' _ "whitespace st'"] is_ws_takeWhile
    by (metis append_Nil2 rest_def src)
  moreover have "s = take a s @ text_between st' a (offset st') @ drop (offset st') s"
  proof -
    have "drop (offset st' - a) (drop a s) = drop (offset st') s" using t(3) by (simp add: a_def)
    then show ?thesis unfolding text_between_def src by (metis append_take_drop_id)
  qed
  moreover have "value_text (text_between st' a (offset st')) t"
    using tree_at_text [OF t(1)] t(4) by (auto simp: node_text_def a_def)
  ultimately have "json_text s t" using t(2) unfolding json_text_def a_def src by metis
  moreover have "stands_for s d root t"
    unfolding stands_for_def
    by (rule tree_at_keeps [OF t(1)]) (simp add: keeps_def parser_of_def new_parser_def d src)
  ultimately show ?thesis using d(1) by auto
qed

end
