(* ===== verification/Json_Accept.thy ===== *)
theory Json_Accept
  imports Json_Parse
begin

text \<open>
  The scanner accepts every sentence of the grammar, and rejects a source with a message about
  the source: its own consistency errors and its panics are never reached.
\<close>

section \<open>Consistency of the stack\<close>

definition array_state :: "frame_state \<Rightarrow> bool" where
  "array_state s \<longleftrightarrow> s = FirstArray \<or> s = ArrayValue \<or> s = ArrayComma"

definition frame_ok :: "json_parser \<Rightarrow> frame \<Rightarrow> bool" where
  "frame_ok st f \<longleftrightarrow> frame_node f < length (nodes st)
    \<and> (if array_state (frame_at f) then \<exists>items. nodes st ! frame_node f = ArrayNode items
       else \<exists>ms. nodes st ! frame_node f = ObjectNode ms)
    \<and> (frame_at f = ObjectColon \<or> frame_at f = ObjectValue \<longrightarrow> frame_key f \<noteq> None)"

definition children :: "frame list \<Rightarrow> nat" where
  "children stack = length (filter (\<lambda>f. path_component f \<noteq> None) stack)"

definition stack_wf :: "json_parser \<Rightarrow> frame list \<Rightarrow> bool" where
  "stack_wf st stack \<longleftrightarrow> sizes st \<and> distinct (map frame_node stack) \<and> list_all (frame_ok st) stack \<and> length (path_offsets st) = children stack"

lemma stack_wf_Cons: "stack_wf st (f # fs) \<Longrightarrow> sizes st \<and> frame_ok st f \<and> list_all (frame_ok st) fs"
  by (simp add: stack_wf_def)

lemma children_simps [simp]:
  "children [] = 0" "children (f # fs) = (if path_component f = None then children fs else Suc (children fs))"
  by (simp_all add: children_def)

lemma frame_ok_core: "core st' = core st \<Longrightarrow> frame_ok st' = frame_ok st"
  by (intro ext) (simp add: frame_ok_def core_def)

lemma stack_wf_eats:
  assumes "stack_wf st stack" "eats st bs st'"
  shows "stack_wf st' stack"
  using assms(1) sizes_eats [OF _ assms(2)] frame_ok_core [OF eats_core [OF assms(2)]] eats_same(4) [OF assms(2)]
  by (simp add: stack_wf_def)

lemma stack_wf_whitespace: "stack_wf st stack \<Longrightarrow> stack_wf (whitespace st) stack"
  by (erule stack_wf_eats) (rule eats_whitespace)

lemma value_read_sizes:
  assumes "value_read st i state st1" "sizes st"
  shows "sizes st1" "length (nodes st1) = Suc (length (nodes st))" "i = length (nodes st)"
    "path_offsets st1 = path_offsets st"
proof -
  obtain w bs nd sp where v: "rest st = w @ bs @ rest st1"
      "offset st1 = offset st + length w + length bs" "nodes st1 = nodes st @ [nd]"
      "starts st1 = starts st @ [offset st + length w]" "node_source_spans st1 = node_source_spans st @ [sp]"
    and i: "i = length (nodes st)" "source st1 = source st" "fst ` set (node_exact_strings st1) \<subseteq> {..i}"
      "path_offsets st1 = path_offsets st"
    using assms(1) unfolding value_read_def by blast
  have "length (rest st) = length w + length bs + length (rest st1)" using v(1) by simp
  moreover have "offset st \<le> length (source st)" using assms(2) by (simp add: sizes_def)
  ultimately have "offset st1 \<le> length (source st)" using v(2) i(2) by (simp add: rest_def)
  moreover have "\<forall>e \<in> set (node_exact_strings st1). fst e < Suc (length (nodes st))" using i by fastforce
  ultimately show "sizes st1" using assms(2) v i(2) by (simp add: sizes_def list_all_iff)
  show "length (nodes st1) = Suc (length (nodes st))" "i = length (nodes st)" "path_offsets st1 = path_offsets st"
    using v(3) i by simp_all
qed

section \<open>A value is read\<close>

definition follows :: "bytes \<Rightarrow> bool" where
  "follows r \<longleftrightarrow> r = [] \<or> \<not> extends_number (hd r) \<and> \<not> is_cont (hd r)"

definition value_state :: "bytes \<Rightarrow> frame_state option" where
  "value_state bs = (if hd bs = 0x5B then Some FirstArray else if hd bs = 0x7B then Some FirstObject else None)"

definition after_value :: "bytes \<Rightarrow> bytes \<Rightarrow> bytes" where
  "after_value bs r = (if value_state bs = None then r else tl bs @ r)"

lemma follows_simps [simp]:
  "follows []" "follows (0x2C # r)" "follows (0x5D # r)" "follows (0x7D # r)"
  by (simp_all add: follows_def extends_number_def is_ascii_digit_def is_cont_def)

lemma follows_ws: "is_ws w \<Longrightarrow> follows r \<Longrightarrow> follows (w @ r)"
  by (cases w) (auto simp: follows_def extends_number_def is_ascii_digit_def is_cont_def is_json_ws_def)

lemma value_start:
  assumes "value_text bs t"
  shows "bs \<noteq> [] \<and> \<not> is_json_ws (hd bs) \<and> hd bs \<noteq> 0x5D \<and> hd bs \<noteq> 0x7D \<and> \<not> is_cont (hd bs)"
proof -
  have n: "\<not> is_json_ws b \<and> b \<noteq> 0x5D \<and> b \<noteq> 0x7D \<and> \<not> is_cont b" if "b = 0x2D \<or> is_ascii_digit b" for b
  proof -
    have "b = 0x2D \<or> 0x30 \<le> unat b \<and> unat b \<le> 0x39" using that by (auto simp: is_ascii_digit_def word_le_nat_alt)
    then show ?thesis by (auto simp: is_json_ws_def is_cont_def word_le_nat_alt)
  qed
  from assms show ?thesis
  proof (cases rule: value_text.cases)
    case number_value
    then obtain s i f e where b: "bs = s @ i @ f @ e" "s = [] \<or> s = [0x2D]" "int_text i"
      by (auto simp: number_text_def)
    have "is_ascii_digit 0x30" by (simp add: is_ascii_digit_def)
    then have i: "i \<noteq> []" "is_ascii_digit (hd i)"
      using b(3) by (auto simp: int_text_def digit_run_def list_all_iff)
    then have "bs \<noteq> []" "hd bs = 0x2D \<or> is_ascii_digit (hd bs)" using b(1,2) by auto
    then show ?thesis using n by blast
  qed (auto simp: literal_null_def literal_true_def literal_false_def is_json_ws_def is_cont_def)
qed

lemma hd_number: "number_text bs \<Longrightarrow> hd bs = 0x2D \<or> is_ascii_digit (hd bs)"
  by (fastforce simp: number_text_def int_text_def digit_run_def is_ascii_digit_def list_all_iff)

lemma boundary_rest:
  "offset st \<le> length (source st) \<Longrightarrow> rest st = [] \<or> \<not> is_cont (hd (rest st)) \<Longrightarrow> is_char_boundary (source st) (offset st)"
  by (auto simp: is_char_boundary_def rest_def hd_drop_conv_nth)

lemma primitive_run:
  assumes "bs = literal_null \<or> bs = literal_true \<or> bs = literal_false \<or> number_text bs"
    and "rest st = bs @ r" "follows r" "offset st \<le> length (source st)"
  shows "\<exists>i st1. primitive (offset st) p st = Ok ((i, None), st1) \<and> rest st1 = r"
proof -
  define st0 where "st0 = advance (length bs) st"
  have r0: "rest st0 = r" using assms(2) by (simp add: st0_def)
  have e: "eats st bs st0" using assms(2) r0 by (simp add: eats_def st0_def)
  have vt: "value_text bs (JPrim bs)" using assms(1) literal_value number_value by blast
  have "primitive_text st = Ok st0"
    using primitive_text_complete [OF assms(1,2)] assms(3) by (auto simp: st0_def ends_token_def follows_def)
  moreover have "str_get (source st0) (offset st, offset st0) \<noteq> None"
  proof -
    have "is_char_boundary (source st) (offset st)"
      using boundary_rest [OF assms(4)] value_start [OF vt] assms(2) by auto
    moreover have "is_char_boundary (source st0) (offset st0)"
      using boundary_rest [of st0] eats_bounded [OF e assms(4)] r0 assms(3)
      by (auto simp: follows_def st0_def)
    ultimately show ?thesis by (simp add: str_get_def st0_def)
  qed
  then obtain raw where "str_get (source st0) (offset st, offset st0) = Some raw" by auto
  moreover obtain i st1 where p: "push_node (Primitive raw) (offset st) p st0 = (i, st1)" by fastforce
  ultimately show ?thesis using r0 push_node_eq(9) [OF p] by (simp add: primitive_def)
qed

lemma json_value_run:
  assumes "value_text bs t" "rest st = w @ bs @ r" "is_ws w" "follows r" "offset st \<le> length (source st)"
  shows "\<exists>i st1. json_value st = Ok ((i, value_state bs), st1) \<and> rest st1 = after_value bs r"
proof -
  let ?w = "whitespace st"
  have vs: "bs \<noteq> []" "\<not> is_json_ws (hd bs)" using value_start [OF assms(1)] by auto
  have rw: "rest ?w = bs @ r"
    unfolding rest_whitespace assms(2) using vs assms(3)
    by (cases bs) (auto simp: is_ws_def list_all_iff dropWhile_append2)
  have off: "offset ?w \<le> length (source ?w)"
    using eats_bounded [OF eats_whitespace assms(5)] by simp
  have pk: "peek ?w = Some (hd bs)" using rw vs(1) by (cases bs) (auto simp: peek_rest)
  have prim: ?thesis
    if b: "bs = literal_null \<or> bs = literal_true \<or> bs = literal_false \<or> number_text bs"
  proof -
    have h: "hd bs \<noteq> 0x7B" "hd bs \<noteq> 0x5B" "hd bs \<noteq> 0x22"
      using b hd_number [of bs]
      by (auto simp: literal_null_def literal_true_def literal_false_def is_ascii_digit_def)
    obtain i st1 where "primitive (offset ?w) (current_path ?w) ?w = Ok ((i, None), st1)" "rest st1 = r"
      using primitive_run [OF b rw assms(4) off] by blast
    then show ?thesis
      using pk h by (auto simp: json_value_def Let_def value_state_def after_value_def)
  qed
  from assms(1) show ?thesis
  proof (cases rule: value_text.cases)
    case literal_value
    then show ?thesis using prim by blast
  next
    case number_value
    then show ?thesis using prim by blast
  next
    case (string_value cs us)
    have s: "scan_string ?w = Ok ((from_utf16_lossy us, exact_units us), advance (length cs + 2) ?w)"
      using string_value rw by (intro scan_string_complete [of cs us _ r]) auto
    have "rest (advance (length cs + 2) ?w) = r" using rw string_value by simp
    then show ?thesis
      using pk s string_value
      by (auto simp: json_value_def Let_def value_state_def after_value_def push_node_eq split: prod.splits)
  next
    case (empty_array v)
    then show ?thesis
      using pk rw by (auto simp: json_value_def Let_def value_state_def after_value_def push_node_eq split: prod.splits)
  next
    case (full_array es ts)
    then show ?thesis
      using pk rw by (auto simp: json_value_def Let_def value_state_def after_value_def push_node_eq split: prod.splits)
  next
    case (empty_object v)
    then show ?thesis
      using pk rw by (auto simp: json_value_def Let_def value_state_def after_value_def push_node_eq split: prod.splits)
  next
    case (full_object ms kts)
    then show ?thesis
      using pk rw by (auto simp: json_value_def Let_def value_state_def after_value_def push_node_eq split: prod.splits)
  qed
qed

section \<open>Attaching a value\<close>

definition child_frame :: "nat \<Rightarrow> frame_state \<Rightarrow> scalars \<Rightarrow> frame" where
  "child_frame i s c = \<lparr> frame_node = i, frame_at = s, frame_key = None, path_component = Some c \<rparr>"

definition attached :: "frame_state option \<Rightarrow> nat \<Rightarrow> scalars \<Rightarrow> frame list \<Rightarrow> frame list" where
  "attached state i c stack = (case state of Some s \<Rightarrow> child_frame i s c # stack | None \<Rightarrow> stack)"

lemma opened_complete:
  assumes "path_offsets st \<noteq> []"
  shows "\<exists>st'. opened i state c stack st = Ok (st', attached state i c stack) \<and> core st' = core st
    \<and> offset st' = offset st
    \<and> path_offsets st' = (if state = None then butlast (path_offsets st) else path_offsets st)"
  using assms
  by (cases state) (auto simp: opened_def attached_def child_frame_def pop_path_expect_def pop_path_def core_def)

lemma rest_core: "core st' = core st \<Longrightarrow> offset st' = offset st \<Longrightarrow> rest st' = rest st"
  by (simp add: rest_def core_def)

lemma sizes_core: "core st' = core st \<Longrightarrow> offset st' = offset st \<Longrightarrow> sizes st' = sizes st"
  by (simp add: sizes_def core_def)

text \<open>The common end of \<open>array_value\<close> and \<open>object_value\<close>.\<close>

lemma attach_complete:
  assumes wf: "stack_wf st (f # fs)" and same: "core st0 = core st" "offset st0 = offset st"
    and path: "path_offsets st0 = path_offsets st @ [x]"
    and V: "value_read st0 i state st1"
    and f': "frame_node f' = frame_node f" "path_component f' = path_component f"
      "\<And>st2. nodes st2 ! frame_node f = nd' \<Longrightarrow> frame_node f < length (nodes st2) \<Longrightarrow> frame_ok st2 f'"
  shows "\<exists>st'. opened i state c (f' # fs) (st1 \<lparr> nodes := (nodes st1)[frame_node f := nd'] \<rparr>)
      = Ok (st', attached state i c (f' # fs)) \<and> rest st' = rest st1 \<and> stack_wf st' (attached state i c (f' # fs))"
proof -
  let ?st2 = "st1 \<lparr> nodes := (nodes st1)[frame_node f := nd'] \<rparr>"
  have sz0: "sizes st0" using wf sizes_core [OF same] by (simp add: stack_wf_def)
  note r = value_read_sizes [OF V sz0]
  have n0: "nodes st0 = nodes st" using core_eq(2) [OF same(1)] .
  have p: "frame_node f < length (nodes st)" using stack_wf_Cons [OF wf] by (simp add: frame_ok_def)
  have other: "frame_node g \<noteq> frame_node f" if "g \<in> set fs" for g
    using wf that by (auto simp: stack_wf_def intro: rev_image_eqI)
  have fresh: "frame_node g < i" if "g \<in> set (f # fs)" for g
    using wf that r(3) n0 by (auto simp: stack_wf_def list_all_iff frame_ok_def)
  have "path_offsets ?st2 \<noteq> []" using r(4) path by simp
  then obtain st' where o: "opened i state c (f' # fs) ?st2 = Ok (st', attached state i c (f' # fs))"
      "core st' = core ?st2" "offset st' = offset ?st2"
      "path_offsets st' = (if state = None then butlast (path_offsets ?st2) else path_offsets ?st2)"
    using opened_complete by blast
  have nn: "nodes st' = (nodes st1)[frame_node f := nd']" using core_eq(2) [OF o(2)] by simp
  have "sizes ?st2" using r(1) by (simp add: sizes_def)
  then have "sizes st'" using sizes_core [OF o(2,3)] by simp
  moreover have "frame_ok st' f'"
    using p r(2) n0 by (intro f'(3)) (simp_all add: nn)
  moreover have "frame_ok st' g" if g: "g \<in> set fs" for g
  proof -
    have "frame_ok st g" using wf g by (auto simp: stack_wf_def list_all_iff)
    moreover have "nodes st' ! frame_node g = nodes st ! frame_node g" if "frame_node g < length (nodes st)"
      using other [OF g] that value_read_nodes [OF V, of "frame_node g"] n0 by (simp add: nn)
    ultimately show ?thesis using r(2) n0 by (simp add: frame_ok_def nn)
  qed
  moreover have "frame_ok st' (child_frame i st'' c)" if "state = Some st''" for st''
  proof -
    have "nodes st1 ! i = (if st'' = FirstArray then ArrayNode [] else ObjectNode []) \<and> (st'' = FirstArray \<or> st'' = FirstObject)"
      using V that unfolding value_read_def by auto
    moreover have "frame_node f \<noteq> i" using fresh [of f] by simp
    ultimately show ?thesis
      using r(2,3) by (auto simp: frame_ok_def child_frame_def array_state_def nn)
  qed
  moreover have "distinct (map frame_node (attached state i c (f' # fs)))"
    using wf fresh f'(1) by (fastforce simp: stack_wf_def attached_def child_frame_def split: option.splits)
  moreover have "length (path_offsets st') = children (attached state i c (f' # fs))"
    using o(4) r(4) path wf f'(2) by (auto simp: stack_wf_def attached_def child_frame_def split: option.splits)
  moreover have "rest st' = rest st1" using rest_core [OF o(2,3)] by (simp add: rest_def)
  ultimately show ?thesis
    using o(1) by (auto simp: stack_wf_def attached_def list_all_iff split: option.splits)
qed

lemma array_value_run:
  assumes wf: "stack_wf st (f # fs)" and at: "frame_at f = FirstArray \<or> frame_at f = ArrayValue"
    and v: "value_text bs t" "rest st = w @ bs @ r" "is_ws w" "follows r"
  shows "\<exists>st' i c. array_value (frame_node f) st (f # fs)
      = Ok (st', attached (value_state bs) i c (f \<lparr> frame_at := ArrayComma \<rparr> # fs))
    \<and> rest st' = after_value bs r \<and> stack_wf st' (attached (value_state bs) i c (f \<lparr> frame_at := ArrayComma \<rparr> # fs))"
proof -
  obtain items where items: "get_node st (frame_node f) = Some (ArrayNode items)"
    using stack_wf_Cons [OF wf] at by (auto simp: frame_ok_def array_state_def get_node_Some)
  define c where "c = scalars_of (decimal (length items))"
  define st0 where "st0 = push_path c st"
  have same: "core st0 = core st" "offset st0 = offset st" by (simp_all add: st0_def)
  have "rest st0 = w @ bs @ r" using rest_core [OF same] v(2) by simp
  moreover have "offset st0 \<le> length (source st0)" using wf same by (simp add: stack_wf_def sizes_def st0_def)
  ultimately obtain i st1 where j: "json_value st0 = Ok ((i, value_state bs), st1)" "rest st1 = after_value bs r"
    using json_value_run v(1,3,4) by blast
  have "sizes st0" using wf sizes_core [OF same] by (simp add: stack_wf_def)
  then have V: "value_read st0 i (value_state bs) st1" using json_value_sound [OF j(1)] by blast
  have n1: "get_node st1 (frame_node f) = Some (ArrayNode items)"
    using items value_read_nodes [OF V, of "frame_node f"] core_eq(2) [OF same(1)]
      value_read_sizes(2) [OF V \<open>sizes st0\<close>] by (simp add: get_node_Some)
  have path: "path_offsets st0 = path_offsets st @ [length (current_path st)]" by (simp add: st0_def push_path_def)
  obtain st' where "opened i (value_state bs) c (f \<lparr> frame_at := ArrayComma \<rparr> # fs)
      (st1 \<lparr> nodes := (nodes st1)[frame_node f := ArrayNode (items @ [i])] \<rparr>)
      = Ok (st', attached (value_state bs) i c (f \<lparr> frame_at := ArrayComma \<rparr> # fs))"
      "rest st' = rest st1" "stack_wf st' (attached (value_state bs) i c (f \<lparr> frame_at := ArrayComma \<rparr> # fs))"
    using attach_complete [OF wf same path V, of "f \<lparr> frame_at := ArrayComma \<rparr>" "ArrayNode (items @ [i])" c]
    by (auto simp: frame_ok_def array_state_def)
  then show ?thesis
    using items j n1 by (auto simp: array_value_def Let_def c_def [symmetric] st0_def [symmetric])
qed

lemma object_value_run:
  assumes wf: "stack_wf st (f # fs)" and at: "frame_at f = ObjectValue"
    and v: "value_text bs t" "rest st = w @ bs @ r" "is_ws w" "follows r"
  shows "\<exists>st' i c. object_value (frame_node f) st (f # fs)
      = Ok (st', attached (value_state bs) i c (f \<lparr> frame_key := None, frame_at := ObjectComma \<rparr> # fs))
    \<and> rest st' = after_value bs r
    \<and> stack_wf st' (attached (value_state bs) i c (f \<lparr> frame_key := None, frame_at := ObjectComma \<rparr> # fs))"
proof -
  obtain members where members: "get_node st (frame_node f) = Some (ObjectNode members)"
    using stack_wf_Cons [OF wf] at by (auto simp: frame_ok_def array_state_def get_node_Some)
  obtain c units where key: "frame_key f = Some (c, units)"
    using stack_wf_Cons [OF wf] at by (auto simp: frame_ok_def)
  define p where "p = pointer_with_child st c"
  define st00 where "st00 = (if list_ex (\<lambda>(_, u, _). u = units) members then clear_replaced_subtree p st else st)"
  define st0 where "st0 = push_path c (note_key p units st00)"
  have same: "core st0 = core st" "offset st0 = offset st" by (simp_all add: st0_def st00_def)
  have "rest st0 = w @ bs @ r" using rest_core [OF same] v(2) by simp
  moreover have "offset st0 \<le> length (source st0)" using wf same core_eq(1) [OF same(1)] by (simp add: stack_wf_def sizes_def)
  ultimately obtain i st1 where j: "json_value st0 = Ok ((i, value_state bs), st1)" "rest st1 = after_value bs r"
    using json_value_run v(1,3,4) by blast
  have "sizes st0" using wf sizes_core [OF same] by (simp add: stack_wf_def)
  then have V: "value_read st0 i (value_state bs) st1" using json_value_sound [OF j(1)] by blast
  have n1: "get_node st1 (frame_node f) = Some (ObjectNode members)"
    using members value_read_nodes [OF V, of "frame_node f"] core_eq(2) [OF same(1)]
      value_read_sizes(2) [OF V \<open>sizes st0\<close>] by (simp add: get_node_Some)
  have path: "path_offsets st0 = path_offsets st @ [length (current_path st)]"
    by (simp add: st0_def st00_def push_path_def note_key_def clear_replaced_subtree_def)
  let ?f = "f \<lparr> frame_key := None, frame_at := ObjectComma \<rparr>"
  obtain st' where "opened i (value_state bs) c (?f # fs)
      (st1 \<lparr> nodes := (nodes st1)[frame_node f := ObjectNode (put_field c units i members)] \<rparr>)
      = Ok (st', attached (value_state bs) i c (?f # fs))"
      "rest st' = rest st1" "stack_wf st' (attached (value_state bs) i c (?f # fs))"
    using attach_complete [OF wf same path V, of ?f "ObjectNode (put_field c units i members)" c]
    by (auto simp: frame_ok_def array_state_def)
  moreover from this have "object_value (frame_node f) st (f # fs) = Ok (st', attached (value_state bs) i c (?f # fs))"
    using members key n1 j(1) [unfolded st0_def st00_def p_def] by (simp add: object_value_def Let_def)
  ultimately show ?thesis using j(2) by auto
qed

section \<open>Runs of the loop\<close>

inductive runs :: "json_parser \<times> frame list \<Rightarrow> json_parser \<times> frame list \<Rightarrow> bool" where
  stay: "runs x x"
| turn: "stack \<noteq> [] \<Longrightarrow> frame_step st stack = Ok y \<Longrightarrow> runs y z \<Longrightarrow> runs (st, stack) z"

lemma runs_trans: "runs x y \<Longrightarrow> runs y z \<Longrightarrow> runs x z"
  by (induction rule: runs.induct) (auto intro: runs.intros)

lemma runs_loop: "runs x y \<Longrightarrow> document_loop (fst x) (snd x) = document_loop (fst y) (snd y)"
proof (induction rule: runs.induct)
  case (turn stack st y z)
  then show ?case by (cases y) (simp add: document_loop.simps [of st stack])
qed simp

lemma runs_turn: "stack \<noteq> [] \<Longrightarrow> frame_step st stack = Ok y \<Longrightarrow> runs (st, stack) y"
  by (auto intro: runs.intros)

lemma frame_step_ws: "frame_step (whitespace st) stack = frame_step st stack"
  by (simp add: frame_step_def)

lemma rest_after_ws:
  "rest st = w @ bs \<Longrightarrow> is_ws w \<Longrightarrow> bs \<noteq> [] \<Longrightarrow> \<not> is_json_ws (hd bs) \<Longrightarrow> rest (whitespace st) = bs"
  unfolding rest_whitespace by (cases bs) (auto simp: is_ws_def list_all_iff dropWhile_append2)

lemma consume_not:
  assumes "rest st = b' # r" "\<not> is_json_ws b'" "b' \<noteq> b"
  shows "consume b st = (False, st)"
proof -
  have "whitespace st = st" using assms by (simp add: whitespace_advance)
  then show ?thesis using assms by (simp add: consume_def peek_rest)
qed

definition container_runs :: "bytes \<Rightarrow> bool" where
  "container_runs bs \<longleftrightarrow> (\<forall>st g fs r. stack_wf st (g # fs) \<longrightarrow> value_state bs = Some (frame_at g) \<longrightarrow> rest st = tl bs @ r \<longrightarrow>
     (\<exists>st'. runs (st, g # fs) (st', fs) \<and> rest st' = r \<and> stack_wf st' fs))"

lemma child_runs:
  assumes "container_runs bs" "rest st = after_value bs r" "stack_wf st (attached (value_state bs) i c stack)"
  shows "\<exists>st'. runs (st, attached (value_state bs) i c stack) (st', stack) \<and> rest st' = r \<and> stack_wf st' stack"
proof (cases "value_state bs")
  case None
  then show ?thesis using assms by (auto simp: attached_def after_value_def intro: runs.intros)
next
  case (Some s)
  then show ?thesis
    using assms unfolding container_runs_def
    by (auto simp: attached_def after_value_def child_frame_def)
qed

lemma element_runs:
  assumes wf: "stack_wf st (g # fs)" and at: "frame_at g = FirstArray \<or> frame_at g = ArrayValue"
    and v: "value_text bs t" "container_runs bs" "rest st = w @ bs @ r" "is_ws w" "follows r"
  shows "\<exists>st'. runs (st, g # fs) (st', g \<lparr> frame_at := ArrayComma \<rparr> # fs) \<and> rest st' = r
    \<and> stack_wf st' (g \<lparr> frame_at := ArrayComma \<rparr> # fs)"
proof -
  note start = value_start [OF v(1)]
  define sw where "sw = whitespace st"
  have sw: "rest sw = [] @ bs @ r" "stack_wf sw (g # fs)"
    using rest_after_ws [of st w "bs @ r"] v(3,4) start stack_wf_whitespace [OF wf] by (simp_all add: sw_def)
  obtain st1 i c where a: "array_value (frame_node g) sw (g # fs)
      = Ok (st1, attached (value_state bs) i c (g \<lparr> frame_at := ArrayComma \<rparr> # fs))"
    "rest st1 = after_value bs r" "stack_wf st1 (attached (value_state bs) i c (g \<lparr> frame_at := ArrayComma \<rparr> # fs))"
    using array_value_run [OF sw(2) at v(1) sw(1) _ v(5)] by auto
  have nc: "consume 0x5D sw = (False, sw)"
    using sw(1) start by (cases bs) (auto intro!: consume_not)
  have "frame_step st (g # fs) = array_value (frame_node g) sw (g # fs)"
    using at nc by (auto simp: frame_step_def Let_def sw_def)
  then show ?thesis
    using child_runs [OF v(2) a(2,3)] runs_turn [of "g # fs" st] a(1) runs_trans by fastforce
qed

text \<open>A byte of punctuation moves the innermost frame to its next state.\<close>

lemma token_wf:
  assumes "stack_wf st (g # fs)" "eats st bs st'"
    and "array_state (frame_at g') = array_state (frame_at g)" "frame_node g' = frame_node g"
    and "path_component g' = path_component g"
    and "frame_at g' = ObjectColon \<or> frame_at g' = ObjectValue \<Longrightarrow> frame_key g' \<noteq> None"
  shows "stack_wf st' (g' # fs)"
  using stack_wf_eats [OF assms(1,2)] assms(3-) by (auto simp: stack_wf_def frame_ok_def)

lemma pop_frame_complete:
  assumes wf: "stack_wf st (g # fs)"
  shows "\<exists>st'. pop_frame st (g # fs) = Ok (st', fs) \<and> rest st' = rest st \<and> stack_wf st' fs"
proof -
  have p: "frame_node g < length (starts st)" "frame_node g < length (node_source_spans st)"
    using wf by (auto simp: stack_wf_def sizes_def frame_ok_def)
  define st2 where "st2 = note_span (current_path st) (starts st ! frame_node g, offset st) st"
  define st3 where "st3 = st2 \<lparr> node_source_spans := (node_source_spans st2)[frame_node g := (starts st ! frame_node g, offset st)] \<rparr>"
  have s3: "nodes st3 = nodes st" "starts st3 = starts st" "path_offsets st3 = path_offsets st" "source st3 = source st"
    "offset st3 = offset st" "node_exact_strings st3 = node_exact_strings st"
    "length (node_source_spans st3) = length (node_source_spans st)"
    by (simp_all add: st3_def st2_def)
  have r3: "rest st3 = rest st" using s3 by (simp add: rest_def)
  show ?thesis
  proof (cases "path_component g")
    case None
    have "pop_frame st (g # fs) = Ok (st3, fs)" using p None by (simp add: pop_frame_def Let_def st2_def st3_def)
    moreover have "stack_wf st3 fs"
      using wf s3 None by (auto simp: stack_wf_def sizes_def list_all_iff frame_ok_def)
    ultimately show ?thesis using r3 by blast
  next
    case (Some k)
    then have "path_offsets st3 \<noteq> []" using wf s3 by (auto simp: stack_wf_def)
    then obtain st4 where st4: "pop_path st3 = Ok st4" "path_offsets st4 = butlast (path_offsets st3)"
      by (auto simp: pop_path_def)
    have k: "core st4 = core st3" "offset st4 = offset st3" using core_pop_path [OF st4(1)] by auto
    have "pop_frame st (g # fs) = Ok (st4, fs)"
      using p Some st4(1) by (simp add: pop_frame_def Let_def st2_def [symmetric] st3_def [symmetric])
        (simp add: st2_def st3_def)
    moreover have "stack_wf st4 fs"
      using wf s3 Some st4(2) sizes_core [OF k] frame_ok_core [OF k(1)]
      by (auto simp: stack_wf_def sizes_def list_all_iff frame_ok_def)
    ultimately show ?thesis using r3 rest_core [OF k] by auto
  qed
qed

lemma close_runs:
  assumes wf: "stack_wf st (g # fs)" and b: "rest st = w @ b # r" "is_ws w"
    and at: "b = 0x5D \<and> (frame_at g = FirstArray \<or> frame_at g = ArrayComma)
      \<or> b = 0x7D \<and> (frame_at g = FirstObject \<or> frame_at g = ObjectComma)"
  shows "\<exists>st'. runs (st, g # fs) (st', fs) \<and> rest st' = r \<and> stack_wf st' fs"
proof -
  define sw where "sw = whitespace st"
  have nw: "\<not> is_json_ws b" using at by (auto simp: is_json_ws_def)
  have sw: "rest sw = b # r" "stack_wf sw (g # fs)"
    using rest_after_ws [of st w "b # r"] b nw stack_wf_whitespace [OF wf] by (simp_all add: sw_def)
  define st1 where "st1 = advance 1 sw"
  have c: "consume b sw = (True, st1)" using consume_here [OF sw(1) nw] by (simp add: st1_def)
  have e: "eats sw [b] st1" using sw(1) by (simp add: eats_def st1_def)
  have "rest st1 = r" using sw(1) by (simp add: st1_def)
  then have "\<exists>st'. pop_frame st1 (g # fs) = Ok (st', fs) \<and> rest st' = r \<and> stack_wf st' fs"
    using pop_frame_complete [OF stack_wf_eats [OF sw(2) e]] by simp
  moreover have "frame_step st (g # fs) = pop_frame st1 (g # fs)"
    using at c by (auto simp: frame_step_def Let_def sw_def)
  ultimately show ?thesis using runs_turn [of "g # fs" st] by fastforce
qed

lemma comma_runs:
  assumes wf: "stack_wf st (g # fs)" and b: "rest st = w @ 0x2C # r" "is_ws w"
    and at: "frame_at g = ArrayComma \<and> s = ArrayValue \<or> frame_at g = ObjectComma \<and> s = ObjectKey"
  shows "\<exists>st'. runs (st, g # fs) (st', g \<lparr> frame_at := s \<rparr> # fs) \<and> rest st' = r \<and> stack_wf st' (g \<lparr> frame_at := s \<rparr> # fs)"
proof -
  define sw where "sw = whitespace st"
  have sw: "rest sw = 0x2C # r" "stack_wf sw (g # fs)"
    using rest_after_ws [of st w "0x2C # r"] b stack_wf_whitespace [OF wf] by (simp_all add: sw_def is_json_ws_def)
  have c: "consume 0x2C sw = (True, advance 1 sw)" "consume 0x5D sw = (False, sw)" "consume 0x7D sw = (False, sw)"
    using consume_here [OF sw(1)] consume_not [OF sw(1)] by (simp_all add: is_json_ws_def)
  have e: "eats sw [0x2C] (advance 1 sw)" using sw(1) by (simp add: eats_def)
  have "frame_step st (g # fs) = Ok (advance 1 sw, g \<lparr> frame_at := s \<rparr> # fs)"
    using at c by (auto simp: frame_step_def Let_def sw_def)
  moreover have "stack_wf (advance 1 sw) (g \<lparr> frame_at := s \<rparr> # fs)"
    by (rule token_wf [OF sw(2) e]) (use at in \<open>auto simp: array_state_def\<close>)
  moreover have "rest (advance 1 sw) = r" using sw(1) by simp
  ultimately show ?thesis using runs_turn [of "g # fs" st] by fastforce
qed

lemma member_runs:
  assumes wf: "stack_wf st (g # fs)" and at: "frame_at g = FirstObject \<or> frame_at g = ObjectKey"
    and k: "string_chars cs us" and v: "value_text bs t" "container_runs bs"
    and r: "rest st = w @ 0x22 # cs @ 0x22 # u @ 0x3A # u' @ bs @ r" "is_ws w" "is_ws u" "is_ws u'" "follows r"
  shows "\<exists>st'. runs (st, g # fs) (st', g \<lparr> frame_key := None, frame_at := ObjectComma \<rparr> # fs) \<and> rest st' = r
    \<and> stack_wf st' (g \<lparr> frame_key := None, frame_at := ObjectComma \<rparr> # fs)"
proof -
  define sw where "sw = whitespace st"
  have sw: "rest sw = 0x22 # cs @ 0x22 # u @ 0x3A # u' @ bs @ r" "stack_wf sw (g # fs)"
    using rest_after_ws [of st w "0x22 # cs @ 0x22 # u @ 0x3A # u' @ bs @ r"] r(1,2) stack_wf_whitespace [OF wf]
    by (simp_all add: sw_def is_json_ws_def)
  define st1 where "st1 = advance (length cs + 2) sw"
  define key where "key = (from_utf16_lossy us, case exact_units us of Some vs \<Rightarrow> vs | None \<Rightarrow> encode_utf16 (from_utf16_lossy us))"
  define g1 where "g1 = g \<lparr> frame_key := Some key, frame_at := ObjectColon \<rparr>"
  define g2 where "g2 = g1 \<lparr> frame_at := ObjectValue \<rparr>"
  have nc: "consume 0x7D sw = (False, sw)" using sw(1) by (intro consume_not) (auto simp: is_json_ws_def)
  have "object_key sw (g # fs) = Ok (st1, g1 # fs)"
    using scan_string_complete [OF k sw(1)] sw(1)
    by (simp add: object_key_def peek_rest st1_def g1_def key_def)
  then have step1: "frame_step st (g # fs) = Ok (st1, g1 # fs)"
    using at nc by (auto simp: frame_step_def Let_def sw_def)
  have r1: "rest st1 = u @ 0x3A # u' @ bs @ r" using sw(1) by (simp add: st1_def)
  have e1: "eats sw (0x22 # cs @ [0x22]) st1" using sw(1) r1 by (simp add: eats_def st1_def)
  have wf1: "stack_wf st1 (g1 # fs)"
    by (rule token_wf [OF sw(2) e1]) (use at in \<open>auto simp: array_state_def g1_def\<close>)
  define s1 where "s1 = whitespace st1"
  have s1: "rest s1 = 0x3A # u' @ bs @ r" "stack_wf s1 (g1 # fs)"
    using rest_after_ws [of st1 u "0x3A # u' @ bs @ r"] r1 r(3) stack_wf_whitespace [OF wf1]
    by (simp_all add: s1_def is_json_ws_def)
  define st2 where "st2 = advance 1 s1"
  have "consume 0x3A s1 = (True, st2)" using consume_here [OF s1(1)] by (simp add: st2_def is_json_ws_def)
  then have step2: "frame_step st1 (g1 # fs) = Ok (st2, g2 # fs)"
    by (simp add: frame_step_def Let_def s1_def g1_def g2_def)
  have e2: "eats s1 [0x3A] st2" using s1(1) by (simp add: eats_def st2_def)
  have wf2: "stack_wf st2 (g2 # fs)"
    by (rule token_wf [OF s1(2) e2]) (auto simp: array_state_def g1_def g2_def)
  define s2 where "s2 = whitespace st2"
  have s2: "rest s2 = [] @ bs @ r" "stack_wf s2 (g2 # fs)"
    using rest_after_ws [of st2 u' "bs @ r"] s1(1) r(4) value_start [OF v(1)] stack_wf_whitespace [OF wf2]
    by (simp_all add: s2_def st2_def)
  let ?g = "g2 \<lparr> frame_key := None, frame_at := ObjectComma \<rparr>"
  have g: "?g = g \<lparr> frame_key := None, frame_at := ObjectComma \<rparr>" by (simp add: g2_def g1_def)
  obtain st3 i c where a: "object_value (frame_node g2) s2 (g2 # fs) = Ok (st3, attached (value_state bs) i c (?g # fs))"
      "rest st3 = after_value bs r" "stack_wf st3 (attached (value_state bs) i c (?g # fs))"
    using object_value_run [OF s2(2) _ v(1) s2(1) _ r(5)] by (auto simp: g2_def)
  have "frame_step st2 (g2 # fs) = object_value (frame_node g2) s2 (g2 # fs)"
    by (simp add: frame_step_def Let_def s2_def g2_def)
  then have "runs (st2, g2 # fs) (st3, attached (value_state bs) i c (?g # fs))"
    using a(1) runs_turn [of "g2 # fs" st2] by simp
  then have "runs (st, g # fs) (st3, attached (value_state bs) i c (?g # fs))"
    using runs_turn [OF _ step1] runs_turn [OF _ step2] runs_trans by blast
  then show ?thesis using child_runs [OF v(2) a(2,3)] runs_trans unfolding g by blast
qed

section \<open>Every sentence is accepted\<close>

definition elements_run :: "bytes \<Rightarrow> bool" where
  "elements_run es \<longleftrightarrow> (\<forall>st g fs r. stack_wf st (g # fs) \<longrightarrow> frame_at g = FirstArray \<or> frame_at g = ArrayValue \<longrightarrow>
     rest st = es @ r \<longrightarrow> follows r \<longrightarrow>
     (\<exists>st' v. runs (st, g # fs) (st', g \<lparr> frame_at := ArrayComma \<rparr> # fs) \<and> rest st' = v @ r \<and> is_ws v
        \<and> stack_wf st' (g \<lparr> frame_at := ArrayComma \<rparr> # fs)))"

definition members_run :: "bytes \<Rightarrow> bool" where
  "members_run ms \<longleftrightarrow> (\<forall>st g fs r. stack_wf st (g # fs) \<longrightarrow> frame_at g = FirstObject \<or> frame_at g = ObjectKey \<longrightarrow>
     rest st = ms @ r \<longrightarrow> follows r \<longrightarrow>
     (\<exists>st' v. runs (st, g # fs) (st', g \<lparr> frame_key := None, frame_at := ObjectComma \<rparr> # fs) \<and> rest st' = v @ r \<and> is_ws v
        \<and> stack_wf st' (g \<lparr> frame_key := None, frame_at := ObjectComma \<rparr> # fs)))"

lemma elements_runD:
  assumes "elements_run es" "stack_wf st (g # fs)" "frame_at g = FirstArray \<or> frame_at g = ArrayValue"
    and "rest st = es @ r" "follows r"
  obtains st' v where "runs (st, g # fs) (st', g \<lparr> frame_at := ArrayComma \<rparr> # fs)" "rest st' = v @ r" "is_ws v"
    "stack_wf st' (g \<lparr> frame_at := ArrayComma \<rparr> # fs)"
  using assms unfolding elements_run_def by blast

lemma members_runD:
  assumes "members_run ms" "stack_wf st (g # fs)" "frame_at g = FirstObject \<or> frame_at g = ObjectKey"
    and "rest st = ms @ r" "follows r"
  obtains st' v where "runs (st, g # fs) (st', g \<lparr> frame_key := None, frame_at := ObjectComma \<rparr> # fs)"
    "rest st' = v @ r" "is_ws v" "stack_wf st' (g \<lparr> frame_key := None, frame_at := ObjectComma \<rparr> # fs)"
  using assms unfolding members_run_def by blast

lemma array_runs:
  assumes "elements_run es \<or> is_ws es"
  shows "container_runs (0x5B # es @ [0x5D])"
  unfolding container_runs_def
proof (intro allI impI)
  fix st g fs r
  assume a: "stack_wf st (g # fs)" "value_state (0x5B # es @ [0x5D]) = Some (frame_at g)"
    "rest st = tl (0x5B # es @ [0x5D]) @ r"
  have at: "frame_at g = FirstArray" using a(2) by (simp add: value_state_def)
  show "\<exists>st'. runs (st, g # fs) (st', fs) \<and> rest st' = r \<and> stack_wf st' fs"
    using assms
  proof
    assume "is_ws es"
    then show ?thesis using close_runs [OF a(1), of es "0x5D" r] a(3) at by simp
  next
    assume "elements_run es"
    then obtain st1 v where s: "runs (st, g # fs) (st1, g \<lparr> frame_at := ArrayComma \<rparr> # fs)"
        "rest st1 = v @ 0x5D # r" "is_ws v" "stack_wf st1 (g \<lparr> frame_at := ArrayComma \<rparr> # fs)"
      using elements_runD [of es st g fs "0x5D # r"] a at by auto
    then show ?thesis using close_runs [OF s(4,2,3)] runs_trans [OF s(1)] by fastforce
  qed
qed

lemma object_runs:
  assumes "members_run ms \<or> is_ws ms"
  shows "container_runs (0x7B # ms @ [0x7D])"
  unfolding container_runs_def
proof (intro allI impI)
  fix st g fs r
  assume a: "stack_wf st (g # fs)" "value_state (0x7B # ms @ [0x7D]) = Some (frame_at g)"
    "rest st = tl (0x7B # ms @ [0x7D]) @ r"
  have at: "frame_at g = FirstObject" using a(2) by (simp add: value_state_def)
  show "\<exists>st'. runs (st, g # fs) (st', fs) \<and> rest st' = r \<and> stack_wf st' fs"
    using assms
  proof
    assume "is_ws ms"
    then show ?thesis using close_runs [OF a(1), of ms "0x7D" r] a(3) at by simp
  next
    assume "members_run ms"
    then obtain st1 v where s: "runs (st, g # fs) (st1, g \<lparr> frame_key := None, frame_at := ObjectComma \<rparr> # fs)"
        "rest st1 = v @ 0x7D # r" "is_ws v" "stack_wf st1 (g \<lparr> frame_key := None, frame_at := ObjectComma \<rparr> # fs)"
      using members_runD [of ms st g fs "0x7D # r"] a at by auto
    then show ?thesis using close_runs [OF s(4,2,3)] runs_trans [OF s(1)] by fastforce
  qed
qed

lemma scalar_runs: "value_state bs = None \<Longrightarrow> container_runs bs"
  by (simp add: container_runs_def)

lemma grammar_runs:
  "value_text bs t \<Longrightarrow> container_runs bs"
  "elements_text es ts \<Longrightarrow> elements_run es"
  "members_text ms kts \<Longrightarrow> members_run ms"
proof (induction rule: value_text_elements_text_members_text.inducts)
  case (literal_value bs)
  then show ?case
    by (intro scalar_runs) (auto simp: value_state_def literal_null_def literal_true_def literal_false_def)
next
  case (number_value bs)
  then show ?case
    using hd_number [of bs] by (intro scalar_runs) (auto simp: value_state_def is_ascii_digit_def)
next
  case (string_value cs us bs)
  then show ?case by (intro scalar_runs) (simp add: value_state_def)
next
  case (first_element w bs t w')
  show ?case
    unfolding elements_run_def
  proof (intro allI impI)
    fix st g fs r
    assume a: "stack_wf st (g # fs)" "frame_at g = FirstArray \<or> frame_at g = ArrayValue"
      "rest st = (w @ bs @ w') @ r" "follows r"
    then show "\<exists>st' v. runs (st, g # fs) (st', g \<lparr> frame_at := ArrayComma \<rparr> # fs) \<and> rest st' = v @ r \<and> is_ws v
        \<and> stack_wf st' (g \<lparr> frame_at := ArrayComma \<rparr> # fs)"
      using element_runs [OF a(1,2) first_element(2,4), of w "w' @ r"] first_element(1,3)
        follows_ws [of w' r] by fastforce
  qed
next
  case (next_element es ts w bs t w')
  show ?case
    unfolding elements_run_def
  proof (intro allI impI)
    fix st g fs r
    assume a: "stack_wf st (g # fs)" "frame_at g = FirstArray \<or> frame_at g = ArrayValue"
      "rest st = (es @ 0x2C # w @ bs @ w') @ r" "follows r"
    then obtain st1 v where s: "runs (st, g # fs) (st1, g \<lparr> frame_at := ArrayComma \<rparr> # fs)"
        "rest st1 = v @ 0x2C # w @ bs @ w' @ r" "is_ws v" "stack_wf st1 (g \<lparr> frame_at := ArrayComma \<rparr> # fs)"
      using elements_runD [OF next_element(5), of st g fs "0x2C # w @ bs @ w' @ r"] by auto
    obtain st2 where s2: "runs (st1, g \<lparr> frame_at := ArrayComma \<rparr> # fs) (st2, g \<lparr> frame_at := ArrayValue \<rparr> # fs)"
        "rest st2 = w @ bs @ w' @ r" "stack_wf st2 (g \<lparr> frame_at := ArrayValue \<rparr> # fs)"
      using comma_runs [OF s(4,2,3), of ArrayValue] by auto
    obtain st3 where "runs (st2, g \<lparr> frame_at := ArrayValue \<rparr> # fs) (st3, g \<lparr> frame_at := ArrayComma \<rparr> # fs)"
        "rest st3 = w' @ r" "stack_wf st3 (g \<lparr> frame_at := ArrayComma \<rparr> # fs)"
      using element_runs [OF s2(3) _ next_element(3,6) s2(2) next_element(2)]
        follows_ws [OF next_element(4) a(4)] by auto
    then show "\<exists>st' v. runs (st, g # fs) (st', g \<lparr> frame_at := ArrayComma \<rparr> # fs) \<and> rest st' = v @ r \<and> is_ws v
        \<and> stack_wf st' (g \<lparr> frame_at := ArrayComma \<rparr> # fs)"
      using runs_trans [OF s(1) runs_trans [OF s2(1)]] next_element(4) by blast
  qed
next
  case (first_member w cs k v v' bs t w')
  show ?case
    unfolding members_run_def
  proof (intro allI impI)
    fix st g fs r
    assume a: "stack_wf st (g # fs)" "frame_at g = FirstObject \<or> frame_at g = ObjectKey"
      "rest st = (w @ 0x22 # cs @ 0x22 # v @ 0x3A # v' @ bs @ w') @ r" "follows r"
    then show "\<exists>st' v. runs (st, g # fs) (st', g \<lparr> frame_key := None, frame_at := ObjectComma \<rparr> # fs) \<and> rest st' = v @ r
        \<and> is_ws v \<and> stack_wf st' (g \<lparr> frame_key := None, frame_at := ObjectComma \<rparr> # fs)"
      using member_runs [OF a(1,2) first_member(2,5,7), of w v v' "w' @ r"] first_member(1,3,4,6)
        follows_ws [of w' r] by fastforce
  qed
next
  case (next_member ms kts w cs k v v' bs t w')
  show ?case
    unfolding members_run_def
  proof (intro allI impI)
    fix st r and g :: frame and fs :: "frame list"
    let ?g = "g \<lparr> frame_key := None, frame_at := ObjectComma \<rparr>"
    let ?k = "?g \<lparr> frame_at := ObjectKey \<rparr>"
    assume a: "stack_wf st (g # fs)" "frame_at g = FirstObject \<or> frame_at g = ObjectKey"
      "rest st = (ms @ 0x2C # w @ 0x22 # cs @ 0x22 # v @ 0x3A # v' @ bs @ w') @ r" "follows r"
    then obtain st1 u where s: "runs (st, g # fs) (st1, ?g # fs)"
        "rest st1 = u @ 0x2C # w @ 0x22 # cs @ 0x22 # v @ 0x3A # v' @ bs @ w' @ r" "is_ws u" "stack_wf st1 (?g # fs)"
      using members_runD [OF next_member(8), of st g fs "0x2C # w @ 0x22 # cs @ 0x22 # v @ 0x3A # v' @ bs @ w' @ r"]
      by auto
    obtain st2 where s2: "runs (st1, ?g # fs) (st2, ?k # fs)"
        "rest st2 = w @ 0x22 # cs @ 0x22 # v @ 0x3A # v' @ bs @ w' @ r" "stack_wf st2 (?k # fs)"
      using comma_runs [OF s(4,2,3), of ObjectKey] by auto
    obtain st3 where "runs (st2, ?k # fs) (st3, ?g # fs)" "rest st3 = w' @ r" "stack_wf st3 (?g # fs)"
      using member_runs [OF s2(3) _ next_member(3,6,9) s2(2) next_member(2,4,5)]
        follows_ws [OF next_member(7) a(4)] by auto
    then show "\<exists>st' v. runs (st, g # fs) (st', ?g # fs) \<and> rest st' = v @ r \<and> is_ws v \<and> stack_wf st' (?g # fs)"
      using runs_trans [OF s(1) runs_trans [OF s2(1)]] next_member(7) by blast
  qed
qed (auto intro: array_runs object_runs)

lemma document_complete:
  assumes "json_text s t"
  shows "\<exists>d. document s = Ok d"
proof -
  obtain w bs w' where s: "s = w @ bs @ w'" "is_ws w" "is_ws w'" "value_text bs t"
    using assms by (auto simp: json_text_def)
  have "follows w'" using follows_ws [OF s(3), of "[]"] by simp
  then obtain i st where v: "json_value (new_parser s) = Ok ((i, value_state bs), st)" "rest st = after_value bs w'"
    using json_value_run [OF s(4), of "new_parser s" w w'] s(1,2) by auto
  have "\<exists>st'. runs (st, first_frame i (value_state bs)) (st', []) \<and> rest st' = w' \<and> sizes st'"
  proof (cases "value_state bs")
    case None
    have "value_read (new_parser s) i (value_state bs) st" using json_value_sound [OF v(1)] by simp
    then have "sizes st" using value_read_sizes(1) by fastforce
    then show ?thesis using v(2) None by (auto simp: first_frame_def after_value_def intro: runs.intros)
  next
    case (Some fs)
    define g where "g = \<lparr> frame_node = i, frame_at = fs, frame_key = None, path_component = None \<rparr>"
    have V: "value_read (new_parser s) i (Some fs) st" using json_value_sound [OF v(1)] Some by simp
    note z = value_read_sizes [OF V]
    have "nodes st ! i = (if fs = FirstArray then ArrayNode [] else ObjectNode []) \<and> (fs = FirstArray \<or> fs = FirstObject)"
      using V unfolding value_read_def by auto
    then have "stack_wf st [g]"
      using z by (auto simp: stack_wf_def frame_ok_def g_def array_state_def)
    then have "\<exists>st'. runs (st, [g]) (st', []) \<and> rest st' = w' \<and> stack_wf st' []"
      using grammar_runs(1) [OF s(4)] v(2) Some by (auto simp: container_runs_def g_def after_value_def)
    then show ?thesis using Some by (auto simp: first_frame_def g_def stack_wf_def)
  qed
  then obtain st' where st': "runs (st, first_frame i (value_state bs)) (st', [])" "rest st' = w'" "sizes st'" by blast
  have "document_loop st (first_frame i (value_state bs)) = Ok st'"
    using runs_loop [OF st'(1)] by (simp add: document_loop.simps)
  moreover have "rest (whitespace st') = []"
    using s(3) st'(2) by (simp add: rest_whitespace is_ws_def list_all_iff)
  moreover have "offset st' \<le> length (source st')" using st'(3) by (simp add: sizes_def)
  ultimately show ?thesis using v(1) unfolding document_Ok by blast
qed

section \<open>What a rejection says\<close>

definition source_messages :: "string list" where
  "source_messages =
    [''expected a comma or closing bracket in a JSON array'', ''expected a comma or closing brace in a JSON object'',
     ''expected a colon after a JSON object key'', ''expected a JSON object key'', ''expected a JSON value'',
     ''expected a JSON string'', ''unexpected end of JSON'', ''trailing data after the JSON value'',
     ''invalid JSON literal'', ''invalid JSON number'', ''invalid JSON number fraction'',
     ''invalid JSON number exponent'', ''unterminated JSON string'', ''unterminated JSON escape'',
     ''invalid JSON string escape'', ''unescaped control character in JSON string'',
     ''short JSON unicode escape'', ''invalid JSON unicode escape'']"

definition about_source :: "scan_error \<Rightarrow> bool" where
  "about_source e \<longleftrightarrow> (case e of ScanError m \<Rightarrow> m \<in> set source_messages | ScanPanic \<Rightarrow> False)"

lemma about_source_simps [simp]:
  "\<not> about_source ScanPanic" "about_source (ScanError m) \<longleftrightarrow> m \<in> set source_messages"
  by (simp_all add: about_source_def)

definition valid_utf8 :: "bytes \<Rightarrow> bool" where
  "valid_utf8 bs \<longleftrightarrow> utf8_error bs = None"

lemma utf8_shift: "utf8_error_from n bs = None \<longleftrightarrow> valid_utf8 bs"
proof (induction "length bs" arbitrary: n bs rule: less_induct)
  case less
  show ?case
  proof (cases bs)
    case Nil
    then show ?thesis by (simp add: valid_utf8_def utf8_error_def)
  next
    case (Cons a r)
    have IH: "utf8_error_from k xs = None \<longleftrightarrow> valid_utf8 xs" if "length xs \<le> length r" for k xs
      using less.hyps that Cons by simp
    define E where "E = (case utf8_width a of
        Suc 0 \<Rightarrow> valid_utf8 r
      | Suc (Suc 0) \<Rightarrow> (case r of [] \<Rightarrow> False | b # r1 \<Rightarrow> is_cont b \<and> valid_utf8 r1)
      | Suc (Suc (Suc 0)) \<Rightarrow> (case r of b # c # r2 \<Rightarrow> second_ok3 a b \<and> is_cont c \<and> valid_utf8 r2 | _ \<Rightarrow> False)
      | Suc (Suc (Suc (Suc 0))) \<Rightarrow>
          (case r of b # c # d # r3 \<Rightarrow> second_ok4 a b \<and> is_cont c \<and> is_cont d \<and> valid_utf8 r3 | _ \<Rightarrow> False)
      | _ \<Rightarrow> False)"
    have "utf8_error_from k (a # r) = None \<longleftrightarrow> E" for k
      unfolding E_def by (simp split: nat.split list.split add: IH)
    then show ?thesis unfolding Cons valid_utf8_def utf8_error_def by simp
  qed
qed

lemma valid_utf8_first:
  assumes "valid_utf8 (a # r)"
  shows "\<exists>c. next_char (a # r) = Some (c, utf8_width a)" "valid_utf8 (drop (utf8_width a) (a # r))"
proof -
  have w: "utf8_width a = 0 \<or> utf8_width a = 1 \<or> utf8_width a = 2 \<or> utf8_width a = 3 \<or> utf8_width a = 4"
    by (simp add: utf8_width_def)
  have u: "utf8_error_from 0 (a # r) = None" using assms by (simp add: valid_utf8_def utf8_error_def)
  have "(\<exists>c. next_char (a # r) = Some (c, utf8_width a)) \<and> valid_utf8 (drop (utf8_width a) (a # r))"
    using w
  proof (elim disjE)
    assume "utf8_width a = 1"
    then show ?thesis using u by (simp add: next_char_def Let_def utf8_shift)
  next
    assume "utf8_width a = 2"
    then show ?thesis
      using u by (simp add: next_char_def Let_def utf8_shift numeral_2_eq_2 split: list.splits if_splits)
  next
    assume "utf8_width a = 3"
    then show ?thesis
      using u by (simp add: next_char_def Let_def utf8_shift numeral_3_eq_3 split: list.splits if_splits)
  next
    assume "utf8_width a = 4"
    then have "utf8_width a = Suc (Suc (Suc (Suc 0)))" by simp
    then show ?thesis
      using u by (simp add: next_char_def Let_def utf8_shift split: list.splits if_splits)
  qed (use u in \<open>simp\<close>)
  then show "\<exists>c. next_char (a # r) = Some (c, utf8_width a)" "valid_utf8 (drop (utf8_width a) (a # r))" by auto
qed

lemma valid_ascii: "valid_utf8 (a # r) \<Longrightarrow> a < 0x80 \<Longrightarrow> valid_utf8 r"
  using valid_utf8_first(2) [of a r] by simp

lemma valid_ascii_run: "list_all (\<lambda>b. b < 0x80) bs \<Longrightarrow> valid_utf8 (bs @ r) \<Longrightarrow> valid_utf8 r"
  by (induction bs) (auto dest: valid_ascii)

lemma valid_boundary: "valid_utf8 (a # r) \<Longrightarrow> \<not> is_cont a"
  using valid_utf8_first(1) [of a r] next_char_boundary [of "a # r"] by auto

lemma hex_fold_ascii: "hex_fold v ds = Some u \<Longrightarrow> list_all (\<lambda>b. b < 0x80) ds"
proof (induction v ds rule: hex_fold.induct)
  case (2 v d ds)
  then obtain h where h: "hex_value d = Some h" "list_all (\<lambda>b. b < 0x80) ds"
    by (auto split: if_splits option.splits)
  have "d < 0x80" using h(1) by (auto simp: hex_value_def word_le_nat_alt word_less_nat_alt split: if_splits)
  then show ?case using h(2) by simp
qed simp

lemma simple_escape_ascii: "simple_escape e = Some u \<Longrightarrow> e < 0x80"
  by (auto simp: simple_escape_def split: if_splits)

lemma hex_unit_error: "hex_unit s i = Err e \<Longrightarrow> about_source e"
  by (auto simp: hex_unit_def source_messages_def split: if_splits option.splits)

lemma string_loop_valid:
  "i \<le> length s \<Longrightarrow> valid_utf8 (drop i s) \<Longrightarrow>
    (case string_loop s i us of Inl e \<Rightarrow> about_source e | Inr (us', j) \<Rightarrow> valid_utf8 (drop j s))"
proof (induction "length s - i" arbitrary: i us rule: less_induct)
  case less
  show ?case
  proof (cases "i < length s")
    case False
    then show ?thesis by (subst string_loop.simps) (simp add: source_messages_def)
  next
    case True
    define b where "b = s ! i"
    have d: "drop i s = b # drop (Suc i) s" using True by (simp add: b_def Cons_nth_drop_Suc)
    have v: "valid_utf8 (b # drop (Suc i) s)" using less.prems(2) d by simp
    consider "b = 0x22" | "b = 0x5C" "\<not> i + 1 < length s" | "b = 0x5C" "i + 1 < length s"
      | "b \<noteq> 0x22" "b \<noteq> 0x5C" "b < 0x20" | "b \<noteq> 0x22" "b \<noteq> 0x5C" "\<not> b < 0x20" by blast
    then show ?thesis
    proof cases
      case 1
      then have "valid_utf8 (drop (Suc i) s)" using v valid_ascii [of b] by simp
      then show ?thesis using 1 True by (subst string_loop.simps) (simp add: Let_def b_def [symmetric])
    next
      case 2
      then show ?thesis using True by (subst string_loop.simps) (simp add: Let_def b_def [symmetric] source_messages_def)
    next
      case 4
      then show ?thesis using True by (subst string_loop.simps) (simp add: Let_def b_def [symmetric] source_messages_def)
    next
      case 3
      define e where "e = s ! (i + 1)"
      have d1: "drop (Suc i) s = e # drop (Suc (Suc i)) s" using 3 by (simp add: e_def Cons_nth_drop_Suc)
      have v1: "valid_utf8 (e # drop (Suc (Suc i)) s)" using v 3 valid_ascii [of b] d1 by simp
      show ?thesis
      proof (cases "simple_escape e")
        case (Some u)
        have "valid_utf8 (drop (i + 2) s)" using v1 valid_ascii simple_escape_ascii [OF Some] by simp
        then show ?thesis
          using 3 True Some less.hyps [of "i + 2" "us @ [u]"]
          by (subst string_loop.simps) (simp add: Let_def b_def [symmetric] e_def [symmetric, simplified])
      next
        case None
        show ?thesis
        proof (cases "e = 0x75")
          case False
          then show ?thesis
            using 3 True None
            by (subst string_loop.simps) (simp add: Let_def b_def [symmetric] e_def [symmetric, simplified] source_messages_def)
        next
          case u: True
          show ?thesis
          proof (cases "hex_unit s (i + 2)")
            case (Inl m)
            then show ?thesis
              using 3 True None u hex_unit_error [OF Inl]
              by (subst string_loop.simps) (simp add: Let_def b_def [symmetric] e_def [symmetric, simplified])
          next
            case (Inr x)
            then obtain y where y: "hex_fold 0 (take 4 (drop (i + 2) s)) = Some y"
              by (auto simp: hex_unit_def split: if_splits option.splits)
            have "valid_utf8 (drop (i + 2) s)" using v1 valid_ascii [of e] u by simp
            then have "valid_utf8 (drop 4 (drop (i + 2) s))"
              by (metis append_take_drop_id valid_ascii_run [OF hex_fold_ascii [OF y]])
            then have "valid_utf8 (drop (i + 6) s)" by (simp add: add.commute)
            then show ?thesis
              using 3 True None u Inr hex_unit_short [OF Inr] less.hyps [of "i + 6" "us @ [x]"]
              by (subst string_loop.simps) (simp add: Let_def b_def [symmetric] e_def [symmetric, simplified])
          qed
        qed
      qed
    next
      case 5
      obtain c where c: "next_char (drop i s) = Some (c, utf8_width b)" "valid_utf8 (drop (utf8_width b) (drop i s))"
        using valid_utf8_first [OF v] d by auto
      have k: "1 \<le> utf8_width b" "utf8_width b \<le> length s - i" using next_char_width [OF c(1)] by auto
      have bd: "is_char_boundary s i" using valid_boundary [OF v] True by (simp add: is_char_boundary_def b_def)
      have "valid_utf8 (drop (i + utf8_width b) s)" using c(2) by (simp add: add.commute)
      then show ?thesis
        using 5 True bd c(1) k less.hyps [of "i + utf8_width b" "us @ utf16_of_scalar c"]
        by (subst string_loop.simps) (simp add: Let_def b_def [symmetric])
    qed
  qed
qed

text \<open>The part of the source that is left is always whole characters.\<close>

definition clean :: "json_parser \<Rightarrow> bool" where
  "clean st \<longleftrightarrow> valid_utf8 (rest st) \<and> offset st \<le> length (source st)"

lemma clean_eats: "clean st \<Longrightarrow> eats st bs st' \<Longrightarrow> list_all (\<lambda>b. b < 0x80) bs \<Longrightarrow> clean st'"
  using eatsD(2) [of st bs st'] eats_bounded [of st bs st'] eats_same(6) [of st bs st'] valid_ascii_run [of bs "rest st'"]
  by (simp add: clean_def)

lemma clean_core: "core st' = core st \<Longrightarrow> offset st' = offset st \<Longrightarrow> clean st' = clean st"
  by (simp add: clean_def rest_def core_def)

lemma ws_ascii: "is_ws w \<Longrightarrow> list_all (\<lambda>b. b < 0x80) w"
  by (auto simp: is_ws_def list_all_iff is_json_ws_def)

lemma clean_whitespace: "clean st \<Longrightarrow> clean (whitespace st)"
  using clean_eats [OF _ eats_whitespace] ws_ascii by simp

lemma clean_consume: "clean st \<Longrightarrow> consume b st = (c, st') \<Longrightarrow> b < 0x80 \<Longrightarrow> clean st'"
  using consume_eats [of b st st'] consume_False [of b st st'] clean_whitespace [of st] clean_eats [of st _ st'] ws_ascii
  by (cases c) fastforce+

lemma digits_ascii: "digit_run d \<Longrightarrow> list_all (\<lambda>b. b < 0x80) d"
  by (auto simp: digit_run_def list_all_iff is_ascii_digit_def word_le_nat_alt word_less_nat_alt)

lemma number_ascii: "number_text bs \<Longrightarrow> list_all (\<lambda>b. b < 0x80) bs"
  using digits_ascii by (fastforce simp: number_text_def int_text_def frac_text_def exp_text_def)

lemma primitive_text_clean:
  assumes "clean st"
  shows "case primitive_text st of Inl e \<Rightarrow> about_source e | Inr st' \<Rightarrow> clean st'"
proof (cases "primitive_text st")
  case (Inl e)
  then show ?thesis
    by (auto simp: primitive_text_def literal_def number_def number_int_def number_frac_def number_exp_def
        source_messages_def Let_def bind_result_def split: option.splits if_splits prod.splits bool.splits sum.splits)
next
  case (Inr st')
  then obtain bs where b: "value_text bs (JPrim bs)" "eats st bs st'" using primitive_text_sound by blast
  have "list_all (\<lambda>b. b < 0x80) bs"
    using b(1) number_ascii
    by (cases rule: value_text.cases) (auto simp: literal_null_def literal_true_def literal_false_def)
  then show ?thesis using clean_eats [OF assms b(2)] Inr by simp
qed

lemma scan_string_clean:
  assumes "clean st"
  shows "case scan_string st of Inl e \<Rightarrow> about_source e | Inr (_, st') \<Rightarrow> clean st'"
proof -
  obtain c st1 where c: "consume 0x22 st = (c, st1)" by fastforce
  have st1: "clean st1" using clean_consume [OF assms c] by simp
  show ?thesis
  proof (cases c)
    case False
    then show ?thesis using c by (simp add: scan_string_alt source_messages_def)
  next
    case True
    have l: "case string_loop (source st1) (offset st1) [] of Inl e \<Rightarrow> about_source e
        | Inr (us', j) \<Rightarrow> valid_utf8 (drop j (source st1))"
      using st1 by (intro string_loop_valid) (simp_all add: clean_def rest_def)
    then show ?thesis
      using True c string_loop_moves [of "source st1" "offset st1" "[]"]
      by (auto simp: scan_string_alt clean_def rest_def split: sum.splits)
  qed
qed

lemma boundary_clean: "clean st \<Longrightarrow> is_char_boundary (source st) (offset st)"
  using valid_boundary by (intro boundary_rest) (auto simp: clean_def, metis list.collapse)

lemma json_value_clean:
  assumes "clean st"
  shows "case json_value st of Inl e \<Rightarrow> about_source e | Inr (_, st') \<Rightarrow> clean st'"
proof -
  let ?w = "whitespace st"
  have w: "clean ?w" using assms by (rule clean_whitespace)
  show ?thesis
  proof (cases "peek ?w")
    case None
    then show ?thesis by (simp add: json_value_def Let_def source_messages_def)
  next
    case (Some b)
    note pk = this
    have adv: "clean (advance 1 ?w)" if "b < 0x80" using clean_eats [OF w eats_peek [OF pk]] that by simp
    have push: "clean st2 = clean st1" if "push_node nd a p st1 = (i, st2)" for nd a p i and st1 st2 :: json_parser
      using push_node_eq [OF that] by (simp add: clean_def)
    consider "b = 0x7B" | "b = 0x5B" | "b = 0x22" | "b \<noteq> 0x7B" "b \<noteq> 0x5B" "b \<noteq> 0x22" by blast
    then show ?thesis
    proof cases
      case 1
      then show ?thesis using adv pk push by (auto simp: json_value_def Let_def split: prod.splits)
    next
      case 2
      then show ?thesis using adv pk push by (auto simp: json_value_def Let_def split: prod.splits)
    next
      case 3
      have "clean (note_exact i exact st1) = clean st1" for i exact and st1 :: json_parser
        by (simp add: clean_def)
      then show ?thesis
        using 3 pk scan_string_clean [OF w] push clean_core [OF core_simps(4)]
        by (auto simp: json_value_def Let_def bind_result_def split: sum.splits prod.splits)
    next
      case 4
      show ?thesis
      proof (cases "primitive_text ?w")
        case (Inl e)
        then show ?thesis using 4 pk primitive_text_clean [OF w] by (simp add: json_value_def primitive_def Let_def)
      next
        case (Inr st1)
        then have c1: "clean st1" using primitive_text_clean [OF w] by simp
        have m: "moves ?w st1" using primitive_text_moves [OF Inr] by (rule moves_on_moves)
        then have "str_get (source st1) (offset ?w, offset st1) \<noteq> None"
          using boundary_clean [OF w] boundary_clean [OF c1] by (simp add: str_get_def moves_def)
        then show ?thesis
          using 4 pk Inr c1 push clean_core [OF core_simps(4)]
          by (auto simp: json_value_def primitive_def Let_def split: prod.splits)
      qed
    qed
  qed
qed

definition steady :: "scan_error + json_parser \<times> frame list \<Rightarrow> bool" where
  "steady r \<longleftrightarrow> (case r of Inl e \<Rightarrow> about_source e | Inr (st, stack) \<Rightarrow> clean st \<and> stack_wf st stack)"

lemma steady_simps [simp]:
  "steady (Err e) \<longleftrightarrow> about_source e" "steady (Ok (st, stack)) \<longleftrightarrow> clean st \<and> stack_wf st stack"
  by (simp_all add: steady_def)

lemma clean_rest: "rest st' = rest st \<Longrightarrow> clean st \<Longrightarrow> sizes st' \<Longrightarrow> clean st'"
  by (simp add: clean_def sizes_def)

lemma array_value_steady:
  assumes wf: "stack_wf st (f # fs)" and c: "clean st" and at: "frame_at f = FirstArray \<or> frame_at f = ArrayValue"
  shows "steady (array_value (frame_node f) st (f # fs))"
proof -
  obtain items where items: "get_node st (frame_node f) = Some (ArrayNode items)"
    using stack_wf_Cons [OF wf] at by (auto simp: frame_ok_def array_state_def get_node_Some)
  define p where "p = scalars_of (decimal (length items))"
  define st0 where "st0 = push_path p st"
  have same: "core st0 = core st" "offset st0 = offset st" by (simp_all add: st0_def)
  have c0: "clean st0" using c clean_core [OF same] by simp
  have path: "path_offsets st0 = path_offsets st @ [length (current_path st)]" by (simp add: st0_def push_path_def)
  show ?thesis
  proof (cases "json_value st0")
    case (Inl e)
    then show ?thesis
      using json_value_clean [OF c0] items by (simp add: array_value_def Let_def p_def st0_def)
  next
    case (Inr r)
    obtain i state st1 where r: "r = ((i, state), st1)" by (cases r) auto
    have c1: "clean st1" using json_value_clean [OF c0] Inr r by simp
    have sz: "sizes st0" using wf sizes_core [OF same] by (simp add: stack_wf_def)
    have V: "value_read st0 i state st1" using json_value_sound Inr r sz by blast
    have n1: "get_node st1 (frame_node f) = Some (ArrayNode items)"
      using items value_read_nodes [OF V, of "frame_node f"] core_eq(2) [OF same(1)]
        value_read_sizes(2) [OF V sz] by (simp add: get_node_Some)
    obtain st' where o: "opened i state p (f \<lparr> frame_at := ArrayComma \<rparr> # fs)
        (st1 \<lparr> nodes := (nodes st1)[frame_node f := ArrayNode (items @ [i])] \<rparr>)
        = Ok (st', attached state i p (f \<lparr> frame_at := ArrayComma \<rparr> # fs))"
        "rest st' = rest st1" "stack_wf st' (attached state i p (f \<lparr> frame_at := ArrayComma \<rparr> # fs))"
      using attach_complete [OF wf same path V, of "f \<lparr> frame_at := ArrayComma \<rparr>" "ArrayNode (items @ [i])" p]
      by (auto simp: frame_ok_def array_state_def)
    moreover have "array_value (frame_node f) st (f # fs) = Ok (st', attached state i p (f \<lparr> frame_at := ArrayComma \<rparr> # fs))"
      using items n1 o(1) Inr [unfolded r st0_def p_def] by (simp add: array_value_def Let_def p_def)
    ultimately show ?thesis using clean_rest [OF o(2) c1] by (simp add: stack_wf_def)
  qed
qed

lemma object_value_steady:
  assumes wf: "stack_wf st (f # fs)" and c: "clean st" and at: "frame_at f = ObjectValue"
  shows "steady (object_value (frame_node f) st (f # fs))"
proof -
  obtain members where members: "get_node st (frame_node f) = Some (ObjectNode members)"
    using stack_wf_Cons [OF wf] at by (auto simp: frame_ok_def array_state_def get_node_Some)
  obtain k units where key: "frame_key f = Some (k, units)"
    using stack_wf_Cons [OF wf] at by (auto simp: frame_ok_def)
  define p where "p = pointer_with_child st k"
  define st00 where "st00 = (if list_ex (\<lambda>(_, u, _). u = units) members then clear_replaced_subtree p st else st)"
  define st0 where "st0 = push_path k (note_key p units st00)"
  have same: "core st0 = core st" "offset st0 = offset st" by (simp_all add: st0_def st00_def)
  have c0: "clean st0" using c clean_core [OF same] by simp
  have path: "path_offsets st0 = path_offsets st @ [length (current_path st)]"
    by (simp add: st0_def st00_def push_path_def note_key_def clear_replaced_subtree_def)
  let ?f = "f \<lparr> frame_key := None, frame_at := ObjectComma \<rparr>"
  show ?thesis
  proof (cases "json_value st0")
    case (Inl e)
    then have "about_source e" using json_value_clean [OF c0] by simp
    moreover have "object_value (frame_node f) st (f # fs) = Err e"
      using members key Inl [unfolded st0_def st00_def p_def] by (simp add: object_value_def Let_def)
    ultimately show ?thesis by simp
  next
    case (Inr r)
    obtain i state st1 where r: "r = ((i, state), st1)" by (cases r) auto
    have c1: "clean st1" using json_value_clean [OF c0] Inr r by simp
    have sz: "sizes st0" using wf sizes_core [OF same] by (simp add: stack_wf_def)
    have V: "value_read st0 i state st1" using json_value_sound Inr r sz by blast
    have n1: "get_node st1 (frame_node f) = Some (ObjectNode members)"
      using members value_read_nodes [OF V, of "frame_node f"] core_eq(2) [OF same(1)]
        value_read_sizes(2) [OF V sz] by (simp add: get_node_Some)
    obtain st' where o: "opened i state k (?f # fs)
        (st1 \<lparr> nodes := (nodes st1)[frame_node f := ObjectNode (put_field k units i members)] \<rparr>)
        = Ok (st', attached state i k (?f # fs))"
        "rest st' = rest st1" "stack_wf st' (attached state i k (?f # fs))"
      using attach_complete [OF wf same path V, of ?f "ObjectNode (put_field k units i members)" k]
      by (auto simp: frame_ok_def array_state_def)
    moreover have "object_value (frame_node f) st (f # fs) = Ok (st', attached state i k (?f # fs))"
      using members key n1 o(1) Inr [unfolded r st0_def st00_def p_def] by (simp add: object_value_def Let_def)
    ultimately show ?thesis using clean_rest [OF o(2) c1] by (simp add: stack_wf_def)
  qed
qed

lemma object_key_steady:
  assumes wf: "stack_wf st (f # fs)" and c: "clean st" and at: "frame_at f = FirstObject \<or> frame_at f = ObjectKey"
  shows "steady (object_key st (f # fs))"
proof (cases "peek st = Some 0x22")
  case False
  then show ?thesis by (simp add: object_key_def source_messages_def)
next
  case True
  show ?thesis
  proof (cases "scan_string st")
    case (Inl e)
    then show ?thesis using scan_string_clean [OF c] True by (simp add: object_key_def)
  next
    case (Inr r)
    obtain key exact st1 where r: "r = ((key, exact), st1)" by (cases r) auto
    have c1: "clean st1" using scan_string_clean [OF c] Inr r by simp
    obtain bs where "eats st bs st1" using scan_string_sound [OF Inr [unfolded r]] by blast
    then have "stack_wf st1 (f \<lparr> frame_key := Some (key, case exact of Some us \<Rightarrow> us | None \<Rightarrow> encode_utf16 key),
        frame_at := ObjectColon \<rparr> # fs)"
      by (rule token_wf [OF wf]) (use at in \<open>auto simp: array_state_def\<close>)
    then show ?thesis using Inr r True c1 by (simp add: object_key_def Let_def)
  qed
qed

lemma pop_frame_steady:
  assumes "stack_wf st (g # fs)" "clean st"
  shows "steady (pop_frame st (g # fs))"
  using pop_frame_complete [OF assms(1)] clean_rest [OF _ assms(2)] by (auto simp: stack_wf_def)

lemma token_steady:
  assumes "stack_wf st (g # fs)" "clean st" "consume b st = (True, st')" "b < 0x80"
    and "array_state s = array_state (frame_at g)" "s \<noteq> ObjectColon" "s = ObjectValue \<Longrightarrow> frame_key g \<noteq> None"
  shows "steady (Ok (st', g \<lparr> frame_at := s \<rparr> # fs))"
proof -
  obtain w where "eats st (w @ [b]) st'" using consume_eats [OF assms(3)] by blast
  then have "stack_wf st' (g \<lparr> frame_at := s \<rparr> # fs)" by (rule token_wf [OF assms(1)]) (use assms(5-) in auto)
  then show ?thesis using clean_consume [OF assms(2,3,4)] by simp
qed

lemma consume_wf: "stack_wf st stack \<Longrightarrow> consume b st = (c, st') \<Longrightarrow> stack_wf st' stack"
  using consume_eats [of b st st'] consume_False [of b st st'] stack_wf_whitespace [of st stack]
    stack_wf_eats [of st stack _ st'] by (cases c) auto

lemma frame_step_steady:
  assumes wf0: "stack_wf st0 stack" and c0: "clean st0" and ne: "stack \<noteq> []"
  shows "steady (frame_step st0 stack)"
proof -
  obtain g fs where stack: "stack = g # fs" using ne by (cases stack) auto
  define st where "st = whitespace st0"
  have wf: "stack_wf st (g # fs)" and c: "clean st"
    using stack_wf_whitespace [OF wf0] clean_whitespace [OF c0] by (simp_all add: st_def stack)
  have closes: "steady (pop_frame st' (g # fs))" if "consume b st = (True, st')" "b < 0x80" for b st'
    using pop_frame_steady consume_wf [OF wf that(1)] clean_consume [OF c that] by blast
  have stays: "st' = st" if "consume b st = (False, st')" for b st'
    using consume_False [OF that] by (simp add: st_def)
  have step: "frame_step st0 stack = frame_step st (g # fs)" by (simp add: stack st_def frame_step_ws)
  have ws: "whitespace st = st" by (simp add: st_def)
  have key: "frame_key g \<noteq> None" if "frame_at g = ObjectColon"
    using stack_wf_Cons [OF wf] that by (auto simp: frame_ok_def)
  obtain b1 s1 where k1: "consume 0x5D st = (b1, s1)" by fastforce
  obtain b2 s2 where k2: "consume 0x2C st = (b2, s2)" by fastforce
  obtain b3 s3 where k3: "consume 0x7D st = (b3, s3)" by fastforce
  obtain b4 s4 where k4: "consume 0x3A st = (b4, s4)" by fastforce
  show ?thesis
    unfolding step
  proof (cases "frame_at g")
    case FirstArray
    then show "steady (frame_step st (g # fs))"
      using k1 closes [of "0x5D" s1] stays [of "0x5D" s1] array_value_steady [OF wf c] ws
      by (cases b1) (simp_all add: frame_step_def Let_def)
  next
    case ArrayValue
    then show "steady (frame_step st (g # fs))"
      using array_value_steady [OF wf c] ws by (simp add: frame_step_def Let_def)
  next
    case ArrayComma
    show "steady (frame_step st (g # fs))"
    proof (cases b1)
      case True
      then show ?thesis using ArrayComma k1 closes [of "0x5D" s1] ws by (simp add: frame_step_def Let_def)
    next
      case False
      then have "s1 = st" using stays [of "0x5D"] k1 by simp
      then show ?thesis
        using ArrayComma False k1 k2 ws token_steady [OF wf c, of "0x2C" s2 ArrayValue]
        by (cases b2) (simp_all add: frame_step_def Let_def array_state_def source_messages_def)
    qed
  next
    case FirstObject
    then show "steady (frame_step st (g # fs))"
      using k3 closes [of "0x7D" s3] stays [of "0x7D" s3] object_key_steady [OF wf c] ws
      by (cases b3) (simp_all add: frame_step_def Let_def)
  next
    case ObjectKey
    then show "steady (frame_step st (g # fs))"
      using object_key_steady [OF wf c] ws by (simp add: frame_step_def Let_def)
  next
    case ObjectColon
    then show "steady (frame_step st (g # fs))"
      using k4 ws key token_steady [OF wf c, of "0x3A" s4 ObjectValue]
      by (cases b4) (simp_all add: frame_step_def Let_def array_state_def source_messages_def)
  next
    case ObjectValue
    then show "steady (frame_step st (g # fs))"
      using object_value_steady [OF wf c] ws by (simp add: frame_step_def Let_def)
  next
    case ObjectComma
    show "steady (frame_step st (g # fs))"
    proof (cases b3)
      case True
      then show ?thesis using ObjectComma k3 closes [of "0x7D" s3] ws by (simp add: frame_step_def Let_def)
    next
      case False
      then have "s3 = st" using stays [of "0x7D"] k3 by simp
      then show ?thesis
        using ObjectComma False k3 k2 ws token_steady [OF wf c, of "0x2C" s2 ObjectKey]
        by (cases b2) (simp_all add: frame_step_def Let_def array_state_def source_messages_def)
    qed
  qed
qed

lemma document_loop_steady:
  "stack_wf st stack \<Longrightarrow> clean st \<Longrightarrow>
    (case document_loop st stack of Inl e \<Rightarrow> about_source e | Inr st' \<Rightarrow> sizes st')"
proof (induction st stack rule: document_loop.induct)
  case (1 st stack)
  show ?case
  proof (cases "stack = []")
    case True
    then show ?thesis using 1 by (simp add: document_loop.simps stack_wf_def)
  next
    case False
    note s = frame_step_steady [OF "1.prems" False]
    show ?thesis
    proof (cases "frame_step st stack")
      case (Inl e)
      then show ?thesis using s False by (subst document_loop.simps) simp
    next
      case (Inr r)
      obtain st1 stack1 where r: "r = (st1, stack1)" by fastforce
      then show ?thesis using "1.IH" [OF False Inr r [symmetric]] s Inr False by (subst document_loop.simps) simp
    qed
  qed
qed

lemma document_error:
  assumes "valid_utf8 s" "document s = Err e"
  shows "about_source e"
proof -
  have c: "clean (new_parser s)" using assms(1) by (simp add: clean_def)
  show ?thesis
  proof (cases "json_value (new_parser s)")
    case (Inl m)
    then show ?thesis using json_value_clean [OF c] assms(2) by (simp add: document_def)
  next
    case (Inr r)
    obtain i state st where r: "r = ((i, state), st)" by (cases r) auto
    have V: "value_read (new_parser s) i state st" using json_value_sound Inr r by simp
    note z = value_read_sizes [OF V]
    have c1: "clean st" using json_value_clean [OF c] Inr r by simp
    have "stack_wf st (first_frame i state)"
    proof (cases state)
      case None
      then show ?thesis using z by (simp add: stack_wf_def first_frame_def)
    next
      case (Some fs)
      have "nodes st ! i = (if fs = FirstArray then ArrayNode [] else ObjectNode []) \<and> (fs = FirstArray \<or> fs = FirstObject)"
        using V Some unfolding value_read_def by auto
      then show ?thesis using z Some by (auto simp: stack_wf_def first_frame_def frame_ok_def array_state_def)
    qed
    then have l: "case document_loop st (first_frame i state) of Inl e \<Rightarrow> about_source e | Inr st' \<Rightarrow> sizes st'"
      using c1 by (rule document_loop_steady)
    show ?thesis
      using assms(2) l Inr r
      by (auto simp: document_def first_frame_def [symmetric] Let_def bind_result_def source_messages_def
          split: sum.splits if_splits)
  qed
qed

end
