(* ===== verification/Json_Document.thy ===== *)
theory Json_Document
  imports Json_Accept
begin

text \<open>
  Reading a scanned response (\<^verbatim>\<open>ResponseJsonScanner\<close>, \<^verbatim>\<open>JsonNodeRef\<close> and
  \<^verbatim>\<open>ResponseJson\<close> of \<^verbatim>\<open>src/response_json.rs\<close>): nodes and pointers, exact and
  lossy text, the provider error texts, the decoder of tool-call argument deltas, and the
  hand-over of exact text to typed leaves with its final check.

  The value of serde_json the response is also parsed into is a type parameter: nothing here
  looks into it.
\<close>

section \<open>Failures\<close>

text \<open>A rejected input, or a panic of the source.\<close>

datatype json_failure = Rejects llm_error | Panics

abbreviation invalid_request :: "string \<Rightarrow> json_failure" where
  "invalid_request m \<equiv> Rejects (InvalidRequest [Lit m])"

section \<open>Nodes\<close>

text \<open>
  A handle is the document and the number of a node.  Handles are only made for numbers of the
  document (\<open>tree_at\<close> of \<open>stands_for\<close> bounds them), so indexing does not fail.
\<close>

definition node_of :: "flat_document \<Rightarrow> nat \<Rightarrow> flat_node" where
  "node_of d i = doc_nodes d ! i"

fun kind_of :: "flat_node \<Rightarrow> flat_json_kind" where
  "kind_of (Primitive raw) =
    (if raw = literal_null then KindNull
     else if raw = literal_true \<or> raw = literal_false then KindBoolean else KindNumber)"
| "kind_of (StringNode t) = KindString"
| "kind_of (ArrayNode items) = KindArray"
| "kind_of (ObjectNode members) = KindObject"

definition node_kind :: "flat_document \<Rightarrow> nat \<Rightarrow> flat_json_kind" where
  "node_kind d i = kind_of (node_of d i)"

definition primitive_source :: "flat_document \<Rightarrow> nat \<Rightarrow> bytes option" where
  "primitive_source d i = (case node_of d i of Primitive raw \<Rightarrow> Some raw | _ \<Rightarrow> None)"

definition number_source :: "flat_document \<Rightarrow> nat \<Rightarrow> bytes option" where
  "number_source d i =
    (case node_of d i of Primitive raw \<Rightarrow> if node_kind d i = KindNumber then Some raw else None | _ \<Rightarrow> None)"

definition node_string :: "flat_document \<Rightarrow> nat \<Rightarrow> scalars option" where
  "node_string d i = (case node_of d i of StringNode t \<Rightarrow> Some t | _ \<Rightarrow> None)"

definition string_units :: "flat_document \<Rightarrow> nat \<Rightarrow> u16 list option" where
  "string_units d i =
    (case node_string d i of
       None \<Rightarrow> None
     | Some t \<Rightarrow>
         Some (case map_of (doc_node_exact_strings d) i of Some us \<Rightarrow> us | None \<Rightarrow> encode_utf16 t))"

definition node_array :: "flat_document \<Rightarrow> nat \<Rightarrow> nat list option" where
  "node_array d i = (case node_of d i of ArrayNode items \<Rightarrow> Some items | _ \<Rightarrow> None)"

definition array_len :: "flat_document \<Rightarrow> nat \<Rightarrow> nat option" where
  "array_len d i = map_option length (node_array d i)"

definition array_item :: "flat_document \<Rightarrow> nat \<Rightarrow> nat \<Rightarrow> nat option" where
  "array_item d i k =
    (case node_array d i of
       Some items \<Rightarrow> if k < length items then Some (items ! k) else None
     | None \<Rightarrow> None)"

definition object_entries :: "flat_document \<Rightarrow> nat \<Rightarrow> (u16 list \<times> nat) list option" where
  "object_entries d i =
    (case node_of d i of ObjectNode members \<Rightarrow> Some (map snd members) | _ \<Rightarrow> None)"

section \<open>The scanner of a response\<close>

record json_scanner =
  scanned_source :: bytes
  scanned :: flat_document

definition scan_failure :: "string \<Rightarrow> scan_error \<Rightarrow> json_failure" where
  "scan_failure invalid e =
    (case e of
       ScanError m \<Rightarrow> Rejects (InvalidRequest [Lit invalid, Lit '': '', Lit m])
     | ScanPanic \<Rightarrow> Panics)"

definition parse_scanner :: "bytes \<Rightarrow> string \<Rightarrow> json_failure + json_scanner" where
  "parse_scanner bs invalid =
    (if utf8_error bs \<noteq> None then Err (invalid_request invalid)
     else bind_result (map_err (scan_failure invalid) (document bs))
       (\<lambda>d. Ok \<lparr> scanned_source = bs, scanned = d \<rparr>))"

definition unescape_segment :: "scalars \<Rightarrow> scalars" where
  "unescape_segment t = replace2 0x7E 0x30 0x7E (replace2 0x7E 0x31 0x2F t)"

definition segment_index :: "scalars \<Rightarrow> nat option" where
  "segment_index t = (if list_all (\<lambda>c. c < 128) t then array_index (map char_of t) else None)"

definition child_at :: "flat_document \<Rightarrow> nat \<Rightarrow> scalars \<Rightarrow> nat option" where
  "child_at d i t =
    (let segment = unescape_segment t in
     case node_of d i of
       ObjectNode members \<Rightarrow>
         map_option (\<lambda>(_, _, j). j) (List.find (\<lambda>(_, k, _). k = encode_utf16 segment) members)
     | ArrayNode items \<Rightarrow>
         (case segment_index segment of
            Some k \<Rightarrow> if k < length items then Some (items ! k) else None
          | None \<Rightarrow> None)
     | _ \<Rightarrow> None)"

fun walk_segments :: "flat_document \<Rightarrow> nat \<Rightarrow> scalars list \<Rightarrow> nat option" where
  "walk_segments d i [] = Some i"
| "walk_segments d i (t # ts) =
    (case child_at d i t of Some j \<Rightarrow> walk_segments d j ts | None \<Rightarrow> None)"

definition node_id_at :: "json_scanner \<Rightarrow> scalars \<Rightarrow> nat option" where
  "node_id_at sc p =
    (let d = scanned sc in
     if doc_exact_keys d = [] then map_of (doc_pointer_nodes d) p
     else if p = [] then Some (doc_root d)
     else (case strip_prefix [0x2F] p of
             None \<Rightarrow> None
           | Some r \<Rightarrow> walk_segments d (doc_root d) (split_on 0x2F r)))"

definition root_node :: "json_scanner \<Rightarrow> nat" where
  "root_node sc = doc_root (scanned sc)"

definition on_node :: "(flat_document \<Rightarrow> nat \<Rightarrow> 'a option) \<Rightarrow> json_scanner \<Rightarrow> scalars \<Rightarrow> 'a option" where
  "on_node f sc p = (case node_id_at sc p of Some i \<Rightarrow> f (scanned sc) i | None \<Rightarrow> None)"

definition kind_at :: "json_scanner \<Rightarrow> scalars \<Rightarrow> flat_json_kind option" where
  "kind_at = on_node (\<lambda>d i. Some (node_kind d i))"

definition number_source_at :: "json_scanner \<Rightarrow> scalars \<Rightarrow> bytes option" where
  "number_source_at = on_node number_source"

definition string_at :: "json_scanner \<Rightarrow> scalars \<Rightarrow> scalars option" where
  "string_at = on_node node_string"

definition string_units_at :: "json_scanner \<Rightarrow> scalars \<Rightarrow> u16 list option" where
  "string_units_at = on_node string_units"

definition array_len_at :: "json_scanner \<Rightarrow> scalars \<Rightarrow> nat option" where
  "array_len_at = on_node array_len"

definition object_entries_at :: "json_scanner \<Rightarrow> scalars \<Rightarrow> (scalars \<times> u16 list) list option" where
  "object_entries_at =
    on_node (\<lambda>d i. case node_of d i of
      ObjectNode members \<Rightarrow> Some (map (\<lambda>(k, us, _). (k, us)) members) | _ \<Rightarrow> None)"

definition raw_source_for_node :: "json_scanner \<Rightarrow> nat \<Rightarrow> bytes option" where
  "raw_source_for_node sc i =
    (let spans = doc_node_source_spans (scanned sc) in
     if i < length spans then str_get (scanned_source sc) (spans ! i) else None)"

definition raw_source_at :: "json_scanner \<Rightarrow> scalars \<Rightarrow> bytes option" where
  "raw_source_at sc p =
    (case node_id_at sc p of Some i \<Rightarrow> raw_source_for_node sc i | None \<Rightarrow> None)"

definition source_range_at :: "json_scanner \<Rightarrow> scalars \<Rightarrow> span option" where
  "source_range_at sc p =
    (case node_id_at sc p of
       Some i \<Rightarrow> (let spans = doc_node_source_spans (scanned sc) in
                  if i < length spans then Some (spans ! i) else None)
     | None \<Rightarrow> None)"

section \<open>Text of UTF-8 bytes\<close>

text \<open>The text of valid UTF-8, and \<^verbatim>\<open>String::from_utf8_lossy\<close>.\<close>

function decode_utf8 :: "bytes \<Rightarrow> scalars" where
  "decode_utf8 bs =
    (case next_char bs of Some (c, k) \<Rightarrow> c # decode_utf8 (drop k bs) | None \<Rightarrow> [])"
  by pat_completeness auto

termination
  by (relation "measure length") (auto dest: next_char_width)

declare decode_utf8.simps [simp del]

definition from_utf8_lossy :: "bytes \<Rightarrow> scalars" where
  "from_utf8_lossy bs = decode_utf8 (bytes_of_string (utf8_lossy bs))"

section \<open>Decoded text\<close>

record decoded_text =
  decoded :: scalars
  decoded_units :: "u16 list option"

text \<open>Text without exact units is the accumulated string; with them, the lossy reading of all units.\<close>

definition combine_step :: "decoded_text \<Rightarrow> decoded_text \<Rightarrow> decoded_text" where
  "combine_step acc part =
    (let units = (if decoded_units acc = None \<and> decoded_units part \<noteq> None
                  then Some (encode_utf16 (decoded acc)) else decoded_units acc) in
     case units of
       Some us \<Rightarrow>
         (let us = us @ (case decoded_units part of Some p \<Rightarrow> p | None \<Rightarrow> encode_utf16 (decoded part)) in
          \<lparr> decoded = from_utf16_lossy us, decoded_units = Some us \<rparr>)
     | None \<Rightarrow> \<lparr> decoded = decoded acc @ decoded part, decoded_units = None \<rparr>)"

definition combine_text_parts :: "decoded_text list \<Rightarrow> decoded_text" where
  "combine_text_parts parts = foldl combine_step \<lparr> decoded = [], decoded_units = None \<rparr> parts"

definition decoded_block ::
  "decoded_text \<Rightarrow> string option \<Rightarrow> json_payload option option \<Rightarrow> content_block" where
  "decoded_block t sig cites =
    (case decoded_units t of
       Some us \<Rightarrow> TextJsUtf16 (decoded t) us sig cites
     | None \<Rightarrow> TextBlock (decoded t) sig cites)"

definition text_delta :: "nat \<Rightarrow> decoded_text \<Rightarrow> stream_event" where
  "text_delta block t =
    (case decoded_units t of
       Some us \<Rightarrow> TextDeltaJsUtf16 block (decoded t) us
     | None \<Rightarrow> TextDelta block (decoded t))"

text \<open>\<^verbatim>\<open>JsonPayloadFragment::from_decoded_text\<close>\<close>

definition fragment_of :: "decoded_text \<Rightarrow> string + u16 list" where
  "fragment_of t =
    (case decoded_units t of
       Some us \<Rightarrow>
         if from_utf16_lossy us = decoded t then Ok us
         else Err ''JSON source fragment units do not match their display string''
     | None \<Rightarrow> Ok (encode_utf16 (decoded t)))"

section \<open>Deltas of tool arguments\<close>

record argument_decoder =
  in_string :: bool
  escaped :: bool
  unicode_remaining :: nat

definition default_decoder :: argument_decoder where
  "default_decoder = \<lparr> in_string = False, escaped = False, unicode_remaining = 0 \<rparr>"

text \<open>\<^verbatim>\<open>char::decode_utf16\<close>: an unpaired surrogate is no character.\<close>

fun decode_units :: "u16 list \<Rightarrow> scalar option list" where
  "decode_units [] = []"
| "decode_units [u] = [if is_high u \<or> is_low u then None else Some (unat u)]"
| "decode_units (u # v # r) =
    (if is_high u \<and> is_low v then Some (join_pair u v) # decode_units r
     else (if is_high u \<or> is_low u then None else Some (unat u)) # decode_units (v # r))"

definition is_hexdigit :: "scalar \<Rightarrow> bool" where
  "is_hexdigit c \<longleftrightarrow> 0x30 \<le> c \<and> c \<le> 0x39 \<or> 0x41 \<le> c \<and> c \<le> 0x46 \<or> 0x61 \<le> c \<and> c \<le> 0x66"

definition malformed :: json_failure where
  "malformed = invalid_request ''tool argument JSON contains an invalid string escape''"

definition argument_char :: "argument_decoder \<Rightarrow> scalar option \<Rightarrow> json_failure + argument_decoder" where
  "argument_char dec ch =
    (if 0 < unicode_remaining dec then
       (case ch of
          Some c \<Rightarrow>
            if is_hexdigit c then Ok (dec \<lparr> unicode_remaining := unicode_remaining dec - 1 \<rparr>)
            else Err malformed
        | None \<Rightarrow> Err malformed)
     else if escaped dec then
       (case ch of
          Some c \<Rightarrow>
            if c = 0x75 then Ok (dec \<lparr> unicode_remaining := 4, escaped := False \<rparr>)
            else if c \<in> set [0x22, 0x5C, 0x2F, 0x62, 0x66, 0x6E, 0x72, 0x74]
              then Ok (dec \<lparr> escaped := False \<rparr>)
            else Err malformed
        | None \<Rightarrow> Err malformed)
     else if in_string dec then
       (case ch of
          Some c \<Rightarrow>
            if c = 0x22 then Ok (dec \<lparr> in_string := False \<rparr>)
            else if c = 0x5C then Ok (dec \<lparr> escaped := True \<rparr>)
            else if c < 0x20 then Err malformed
            else Ok dec
        | None \<Rightarrow> Ok dec)
     else
       (case ch of
          Some c \<Rightarrow> if c = 0x22 then Ok (dec \<lparr> in_string := True \<rparr>) else Ok dec
        | None \<Rightarrow> Err malformed))"

fun argument_chars :: "argument_decoder \<Rightarrow> scalar option list \<Rightarrow> json_failure + argument_decoder" where
  "argument_chars dec [] = Ok dec"
| "argument_chars dec (c # cs) = bind_result (argument_char dec c) (\<lambda>dec. argument_chars dec cs)"

definition push_argument :: "argument_decoder \<Rightarrow> decoded_text \<Rightarrow> json_failure + u16 list \<times> argument_decoder" where
  "push_argument dec t =
    bind_result (map_err invalid_request (fragment_of t)) (\<lambda>us.
    bind_result (argument_chars dec (decode_units us)) (\<lambda>dec. Ok (us, dec)))"

section \<open>Provider error texts\<close>

definition status_prefix :: "u16 option \<Rightarrow> scalars" where
  "status_prefix status =
    (case status of Some s \<Rightarrow> scalars_of (decimal (unat s)) @ [0x20] | None \<Rightarrow> [])"

definition checked_text :: "string \<Rightarrow> scalars \<Rightarrow> u16 list \<Rightarrow> json_failure + provider_error_text" where
  "checked_text m shown units =
    (case new_provider_text shown units of Some t \<Rightarrow> Ok t | None \<Rightarrow> Err (invalid_request m))"

definition provider_error_text_at ::
  "json_scanner \<Rightarrow> scalars \<Rightarrow> u16 option \<Rightarrow> json_failure + provider_error_text option" where
  "provider_error_text_at sc p status =
    (case filter_option (\<lambda>t. t \<noteq> []) (string_at sc p) of
       None \<Rightarrow> Ok None
     | Some shown \<Rightarrow>
         (case string_units_at sc p of
            None \<Rightarrow> Err Panics
          | Some units \<Rightarrow>
              bind_result
                (checked_text ''provider error text UTF-16 projection did not match display text''
                  (status_prefix status @ shown) (encode_utf16 (status_prefix status) @ units))
                (\<lambda>t. Ok (Some t))))"

text \<open>\<^verbatim>\<open>native_status_text\<close>: a status of zero counts as none.\<close>

definition native_status_text :: "u16 option \<Rightarrow> provider_error_text \<Rightarrow> json_failure + provider_error_text" where
  "native_status_text status raw =
    (let m = ''Native Anthropic error text UTF-16 projection did not match its display'';
         no_body = (\<lambda>s. scalars_of (decimal (unat s) @ '' status code (no body)''));
         nothing = scalars_of ''(no status code or body)'' in
     case filter_option (\<lambda>s. s \<noteq> 0) status of
       Some s \<Rightarrow>
         if display raw = [] then checked_text m (no_body s) (encode_utf16 (no_body s))
         else checked_text m (status_prefix (Some s) @ display raw)
                (encode_utf16 (status_prefix (Some s)) @ utf16_code_units raw)
     | None \<Rightarrow>
         if display raw = [] then checked_text m nothing (encode_utf16 nothing)
         else checked_text m (display raw) (utf16_code_units raw))"

definition byte_order_mark :: scalar where "byte_order_mark = 0xFEFF"

definition response_text :: "bytes \<Rightarrow> scalars" where
  "response_text bs =
    (case strip_prefix [byte_order_mark] (from_utf8_lossy bs) of
       Some t \<Rightarrow> t
     | None \<Rightarrow> from_utf8_lossy bs)"

definition text_of_string :: "scalars \<Rightarrow> json_failure + provider_error_text" where
  "text_of_string t = (case provider_text_of_string t of Some p \<Rightarrow> Ok p | None \<Rightarrow> Err Panics)"

text \<open>The texts of the two raw error readers; the bodies beside them only repeat the body text.\<close>

definition native_anthropic_raw_http_error :: "u16 \<Rightarrow> bytes \<Rightarrow> json_failure + scalars \<times> provider_error_text" where
  "native_anthropic_raw_http_error status bs =
    (let body = response_text bs in
     bind_result (text_of_string body) (\<lambda>raw.
     case native_status_text (Some status) raw of
       Inl _ \<Rightarrow> Err Panics
     | Inr t \<Rightarrow> Ok (body, t)))"

definition raw_http_error :: "u16 \<Rightarrow> bytes \<Rightarrow> json_failure + scalars \<times> provider_error_text" where
  "raw_http_error status bs =
    (let body = from_utf8_lossy bs; shown = status_prefix (Some status) @ body in
     case new_provider_text shown (encode_utf16 (status_prefix (Some status)) @ encode_utf16 body) of
       None \<Rightarrow> Err Panics
     | Some t \<Rightarrow> Ok (body, t))"

section \<open>The response and its exact text\<close>

record 'v response_json =
  response_value :: 'v
  response_source :: bytes
  response_spans :: "(scalars \<times> span) list"
  response_strings :: "(scalars \<times> u16 list) list"
  response_keys :: "(scalars \<times> u16 list) list"
  opaque_paths :: "scalars list"

text \<open>
  Hand the exact source of a subtree to a typed carrier.  Spans the response was built without
  are found by scanning its source now.
\<close>

definition with_spans :: "'v response_json \<Rightarrow> json_failure + 'v response_json" where
  "with_spans r =
    (if response_spans r = [] then
       bind_result (map_err (scan_failure ''provider response JSON is not valid'') (document (response_source r)))
         (\<lambda>d. Ok (r \<lparr> response_spans := doc_source_spans d, response_strings := doc_exact_strings d,
                        response_keys := doc_exact_keys d \<rparr>))
     else Ok r)"

definition take_raw_json_source_at ::
  "scalars \<Rightarrow> 'v response_json \<Rightarrow> json_failure + bytes option \<times> 'v response_json" where
  "take_raw_json_source_at p r =
    bind_result (with_spans r) (\<lambda>r.
    case map_of (response_spans r) p of
      None \<Rightarrow> Ok (None, r)
    | Some sp \<Rightarrow>
        (case str_get (response_source r) sp of
           None \<Rightarrow> Err Panics
         | Some raw \<Rightarrow>
             Ok (Some raw,
               r \<lparr> response_strings := outside p (response_strings r), response_keys := outside p (response_keys r),
                   opaque_paths := filter (\<lambda>q. \<not> pointer_is_within q p) (opaque_paths r) \<rparr>)))"

definition take_text ::
  "scalars \<Rightarrow> scalars \<Rightarrow> 'v response_json \<Rightarrow> (json_failure + decoded_text) \<times> 'v response_json" where
  "take_text p shown r =
    (case map_of (response_strings r) p of
       None \<Rightarrow> (Ok \<lparr> decoded = shown, decoded_units = None \<rparr>, r)
     | Some units \<Rightarrow>
         (if from_utf16_lossy units \<noteq> shown
          then Err (invalid_request ''response text UTF-16 projection did not match its display string'')
          else Ok \<lparr> decoded = shown, decoded_units = Some units \<rparr>,
          r \<lparr> response_strings := AList.delete p (response_strings r) \<rparr>))"

definition finish_response :: "'v response_json \<Rightarrow> json_failure + 'v" where
  "finish_response r =
    (if response_strings r = [] \<and> response_keys r = [] \<and> opaque_paths r = [] then Ok (response_value r)
     else Err (Rejects (UnsupportedCapability
       [Lit ''provider response contains lone UTF-16 text or keys outside a supported typed leaf''])))"

section \<open>The metadata view\<close>

text \<open>
  The writer of the view serde_json parses: opaque subtrees become null, text is written by
  \<^verbatim>\<open>serde_json::to_writer\<close>, the parameter \<open>quote\<close>.  The loop over the jobs on the stack is a
  partial function; it returns on every document of the scanner.
\<close>

datatype write_job = WriteNode nat | WriteByte byte | WriteText scalars

definition write_children :: "flat_node \<Rightarrow> write_job list" where
  "write_children nd =
    (case nd of
       ArrayNode items \<Rightarrow>
         join_with (WriteByte 0x2C) (map (\<lambda>i. [WriteNode i]) items) @ [WriteByte 0x5D]
     | ObjectNode members \<Rightarrow>
         join_with (WriteByte 0x2C) (map (\<lambda>(k, _, i). [WriteText k, WriteByte 0x3A, WriteNode i]) members)
           @ [WriteByte 0x7D]
     | _ \<Rightarrow> [])"

definition write_head :: "(scalars \<Rightarrow> bytes) \<Rightarrow> flat_node \<Rightarrow> bytes" where
  "write_head quote nd =
    (case nd of
       Primitive raw \<Rightarrow> raw
     | StringNode t \<Rightarrow> quote t
     | ArrayNode _ \<Rightarrow> [0x5B]
     | ObjectNode _ \<Rightarrow> [0x7B])"

partial_function (option) stringify_loop ::
  "(scalars \<Rightarrow> bytes) \<Rightarrow> flat_document \<Rightarrow> scalars list \<Rightarrow> bytes \<Rightarrow> write_job list \<Rightarrow> (string + bytes) option" where
  "stringify_loop quote d opaque out stack =
    (case stack of
       [] \<Rightarrow> Some (Ok out)
     | WriteByte b # jobs \<Rightarrow> stringify_loop quote d opaque (out @ [b]) jobs
     | WriteText t # jobs \<Rightarrow> stringify_loop quote d opaque (out @ quote t) jobs
     | WriteNode i # jobs \<Rightarrow>
         (if i < length (doc_node_pointers d) \<and> List.member opaque (doc_node_pointers d ! i)
          then stringify_loop quote d opaque (out @ literal_null) jobs
          else if i < length (doc_nodes d)
          then stringify_loop quote d opaque (out @ write_head quote (node_of d i))
                 (write_children (node_of d i) @ jobs)
          else Some (Err ''invalid JSON node'')))"

definition stringify_flat_json ::
  "(scalars \<Rightarrow> bytes) \<Rightarrow> flat_document \<Rightarrow> scalars list \<Rightarrow> (string + bytes) option" where
  "stringify_flat_json quote d opaque = stringify_loop quote d opaque [] [WriteNode (doc_root d)]"

text \<open>
  \<^verbatim>\<open>into_response_json_with_opaque_paths\<close>: \<open>quote\<close> and \<open>from_slice\<close> are serde_json's writer
  of a string and its parser; None is a writer that does not return.
\<close>

definition into_response_json ::
  "(scalars \<Rightarrow> bytes) \<Rightarrow> (bytes \<Rightarrow> string + 'v) \<Rightarrow> json_scanner \<Rightarrow> scalars list
    \<Rightarrow> (json_failure + 'v response_json) option" where
  "into_response_json quote from_slice sc opaque =
    (let d = scanned sc in
     case List.find (\<lambda>p. map_of (doc_source_spans d) p = None) opaque of
       Some p \<Rightarrow>
         Some (Err (Rejects (InvalidRequest
           [Lit ''opaque provider JSON pointer did not exist: '', DebugStr (map char_of p)])))
     | None \<Rightarrow>
         (case stringify_flat_json quote d opaque of
            None \<Rightarrow> None
          | Some (Inl m) \<Rightarrow>
              Some (Err (Rejects (InvalidRequest
                [Lit ''provider response JSON could not be projected: '', Lit m])))
          | Some (Inr view) \<Rightarrow>
              Some (case from_slice view of
                Inl e \<Rightarrow> Err (Rejects (UnsupportedCapability
                  [Lit ''provider response metadata cannot be represented as serde_json::Value: '', Lit e]))
              | Inr v \<Rightarrow> Ok \<lparr> response_value = v, response_source = scanned_source sc,
                  response_spans = doc_source_spans d, response_strings = doc_exact_strings d,
                  response_keys = doc_exact_keys d, opaque_paths = opaque \<rparr>)))"

end
