(* ===== verification/Exact_Json.thy ===== *)
theory Exact_Json
  imports Json_Document "HOL-Library.Product_Lexorder"
begin

text \<open>
  The JSON writer of the client (\<^verbatim>\<open>src/exact_json.rs\<close>): strings from exact UTF-16 units,
  the canonical text of a scanned value under the number and key order of a wire encoding, and
  the normalisation of a native generation body.

  Two number formatters are not part of the repository and are fields of \<open>json_numbers\<close>:
  serde_json's number (parsed and printed) and ryu-js's text of a finite double.
\<close>

section \<open>Strings\<close>

definition hex_char :: "nat \<Rightarrow> byte" where
  "hex_char n = (if n < 10 then word_of_nat (0x30 + n) else word_of_nat (0x61 + (n - 10)))"

text \<open>\<^verbatim>\<open>{:04x}\<close> of a 16-bit value, after the backslash and the letter u.\<close>

definition unicode_escape_text :: "nat \<Rightarrow> bytes" where
  "unicode_escape_text n =
    [0x5C, 0x75, hex_char (n div 0x1000 mod 0x10), hex_char (n div 0x100 mod 0x10),
     hex_char (n div 0x10 mod 0x10), hex_char (n mod 0x10)]"

text \<open>\<^verbatim>\<open>char::encode_utf8\<close>\<close>

definition utf8_of_scalar :: "scalar \<Rightarrow> bytes" where
  "utf8_of_scalar c =
    (if c < 0x80 then [word_of_nat c]
     else if c < 0x800 then [word_of_nat (0xC0 + c div 0x40), word_of_nat (0x80 + c mod 0x40)]
     else if c < 0x10000
       then [word_of_nat (0xE0 + c div 0x1000), word_of_nat (0x80 + c div 0x40 mod 0x40),
             word_of_nat (0x80 + c mod 0x40)]
     else [word_of_nat (0xF0 + c div 0x40000), word_of_nat (0x80 + c div 0x1000 mod 0x40),
           word_of_nat (0x80 + c div 0x40 mod 0x40), word_of_nat (0x80 + c mod 0x40)])"

definition encode_utf8 :: "scalars \<Rightarrow> bytes" where
  "encode_utf8 s = concat (map utf8_of_scalar s)"

definition write_json_char :: "scalar \<Rightarrow> bytes" where
  "write_json_char c =
    (if c = 0x22 then [0x5C, 0x22] else if c = 0x5C then [0x5C, 0x5C]
     else if c = 0x08 then [0x5C, 0x62] else if c = 0x0C then [0x5C, 0x66]
     else if c = 0x0A then [0x5C, 0x6E] else if c = 0x0D then [0x5C, 0x72]
     else if c = 0x09 then [0x5C, 0x74]
     else if c \<le> 0x1F then unicode_escape_text c
     else utf8_of_scalar c)"

definition write_unit :: "u16 \<Rightarrow> bytes" where
  "write_unit u =
    (if is_high u \<or> is_low u then unicode_escape_text (unat u) else write_json_char (unat u))"

fun write_units :: "u16 list \<Rightarrow> bytes" where
  "write_units [] = []"
| "write_units [u] = write_unit u"
| "write_units (u # v # us) =
    (if is_high u \<and> is_low v then write_json_char (join_pair u v) @ write_units us
     else write_unit u @ write_units (v # us))"

definition write_json_string_from_utf16 :: "u16 list \<Rightarrow> bytes" where
  "write_json_string_from_utf16 us = 0x22 # write_units us @ [0x22]"

definition json_string_len_from_utf16 :: "u16 list \<Rightarrow> nat" where
  "json_string_len_from_utf16 us = min (length (write_json_string_from_utf16 us)) (2 ^ 64 - 1)"

text \<open>\<^verbatim>\<open>to_well_formed_utf16\<close>, the same loop as the scanner's normalisation of lone units.\<close>

definition to_well_formed_utf16 :: "u16 list \<Rightarrow> u16 list" where
  "to_well_formed_utf16 us = replace_lone us"

section \<open>Numbers\<close>

definition digits_value :: "bytes \<Rightarrow> nat" where
  "digits_value ds = foldl (\<lambda>n d. 10 * n + (unat d - 0x30)) 0 ds"

text \<open>Sign, significand and decimal exponent of a JSON number.\<close>

definition exponent_value :: "bytes \<Rightarrow> int" where
  "exponent_value bs =
    (case bs of
       m # s # r \<Rightarrow>
         if s = 0x2D then - int (digits_value r)
         else if s = 0x2B then int (digits_value r) else int (digits_value (s # r))
     | _ \<Rightarrow> 0)"

definition decimal_parts :: "bytes \<Rightarrow> bool \<times> nat \<times> int" where
  "decimal_parts bs =
    (let neg = take 1 bs = [0x2D]; r = (if neg then drop 1 bs else bs);
         i = takeWhile is_ascii_digit r; r1 = dropWhile is_ascii_digit r;
         f = (if take 1 r1 = [0x2E] then takeWhile is_ascii_digit (drop 1 r1) else []);
         r2 = (if take 1 r1 = [0x2E] then dropWhile is_ascii_digit (drop 1 r1) else r1)
     in (neg, digits_value (i @ f), exponent_value r2 - int (length f)))"

fun bit_size :: "nat \<Rightarrow> nat" where
  "bit_size n = (if n = 0 then 0 else 1 + bit_size (n div 2))"

declare bit_size.simps [simp del]

text \<open>
  The bits of the double nearest to \<open>num / den\<close>, ties to even: the binary exponent of the last
  place is \<open>k\<close>, at least that of the subnormals; the sum carries into the exponent field.
\<close>

definition nearest_double :: "nat \<Rightarrow> nat \<Rightarrow> nat" where
  "nearest_double num den =
    (if num = 0 then 0
     else
       (let l = int (bit_size num) - int (bit_size den);
            scale = (\<lambda>e. if 0 \<le> e then (num, den * 2 ^ nat e) else (num * 2 ^ nat (- e), den));
            small = (case scale l of (n, d) \<Rightarrow> n < d);
            k = max ((if small then l - 1 else l) - 52) (- 1074) in
        case scale k of
          (n, d) \<Rightarrow>
            (let q = n div d; r = n mod d;
                 q = (if d < 2 * r \<or> (2 * r = d \<and> odd q) then q + 1 else q) in
             min (nat (k + 1074) * 2 ^ 52 + q) (0x7FF * 2 ^ 52))))"

text \<open>\<^verbatim>\<open>str::parse::<f64>\<close> of a JSON number, as bits.\<close>

definition parse_f64 :: "bytes \<Rightarrow> f64" where
  "parse_f64 bs =
    (case decimal_parts bs of
       (neg, m, e) \<Rightarrow>
         word_of_nat ((if neg then 2 ^ 63 else 0)
           + (if 0 \<le> e then nearest_double (m * 10 ^ nat e) 1 else nearest_double m (10 ^ nat (- e)))))"

definition is_finite_f64 :: "f64 \<Rightarrow> bool" where
  "is_finite_f64 w \<longleftrightarrow> unat w div 2 ^ 52 mod 2 ^ 11 \<noteq> 0x7FF"

definition is_zero_f64 :: "f64 \<Rightarrow> bool" where
  "is_zero_f64 w \<longleftrightarrow> unat w mod 2 ^ 63 = 0"

datatype json_encoding = Serde | JavaScript

fun encoding_for_protocol :: "protocol_family \<Rightarrow> json_encoding" where
  "encoding_for_protocol AnthropicMessages = JavaScript"
| "encoding_for_protocol FoundryClaude = JavaScript"
| "encoding_for_protocol BedrockClaude = JavaScript"
| "encoding_for_protocol VertexClaude = JavaScript"
| "encoding_for_protocol _ = Serde"

record json_numbers =
  serde_number :: "bytes \<Rightarrow> string + bytes"
  javascript_number :: "f64 \<Rightarrow> bytes"

definition write_number :: "json_numbers \<Rightarrow> json_encoding \<Rightarrow> bytes \<Rightarrow> json_failure + bytes" where
  "write_number nums enc raw =
    (case enc of
       Serde \<Rightarrow>
         map_err (\<lambda>e. Rejects (InvalidRequest
           [Lit ''JSON number cannot be represented by the SDK codec: '', Lit e])) (serde_number nums raw)
     | JavaScript \<Rightarrow>
         (let x = parse_f64 raw in
          Ok (if is_finite_f64 x then javascript_number nums x else literal_null)))"

section \<open>Key order\<close>

fun index_digits :: "nat \<Rightarrow> u16 list \<Rightarrow> nat option" where
  "index_digits n [] = Some n"
| "index_digits n (u # us) =
    (if 0x30 \<le> u \<and> u \<le> 0x39
     then (let n' = n * 10 + (unat u - 0x30) in
           if n * 10 < 2 ^ 64 \<and> n' < 2 ^ 64 then index_digits n' us else None)
     else None)"

definition javascript_array_index :: "u16 list \<Rightarrow> nat option" where
  "javascript_array_index key =
    (if key = [] \<or> 10 < length key \<or> (1 < length key \<and> hd key = 0x30) then None
     else filter_option (\<lambda>n. n < 2 ^ 32 - 1) (index_digits 0 key))"

text \<open>The sort key: array indices in ascending order first, then the other keys in place.\<close>

definition javascript_rank :: "nat \<Rightarrow> u16 list \<Rightarrow> nat \<times> nat \<times> nat" where
  "javascript_rank position key =
    (case javascript_array_index key of Some n \<Rightarrow> (0, n, position) | None \<Rightarrow> (1, 0, position))"

definition javascript_order :: "(u16 list \<times> 'a) list \<Rightarrow> (u16 list \<times> 'a) list" where
  "javascript_order xs =
    map snd (sort_key (\<lambda>(p, k, _). javascript_rank p k) (List.enumerate 0 xs))"

definition ordered_members :: "json_encoding \<Rightarrow> (u16 list \<times> 'a) list \<Rightarrow> (u16 list \<times> 'a) list" where
  "ordered_members enc xs = (case enc of JavaScript \<Rightarrow> javascript_order xs | Serde \<Rightarrow> xs)"

section \<open>The canonical writer\<close>

datatype work = WorkNode nat | WorkByte byte | WorkString "u16 list" | WorkRaw bytes

definition missing_part :: "string \<Rightarrow> 'a option \<Rightarrow> json_failure + 'a" where
  "missing_part m x = (case x of Some y \<Rightarrow> Ok y | None \<Rightarrow> Err (invalid_request m))"

text \<open>
  The members of an object: a field overlay replaces the first member of its name and leaves
  the list of overlays; overlays that are left follow the members.
\<close>

fun take_overlay :: "scalars \<Rightarrow> (scalars \<times> bytes) list \<Rightarrow> (bytes \<times> (scalars \<times> bytes) list) option" where
  "take_overlay key [] = None"
| "take_overlay key ((k, b) # r) =
    (if k = key then Some (b, r) else map_option (\<lambda>(b', r'). (b', (k, b) # r')) (take_overlay key r))"

fun overlay_members ::
  "(u16 list \<times> nat) list \<Rightarrow> (scalars \<times> bytes) list \<Rightarrow> (u16 list \<times> work) list" where
  "overlay_members [] overlays = map (\<lambda>(k, b). (encode_utf16 k, WorkRaw b)) overlays"
| "overlay_members ((k, i) # ms) overlays =
    (case (if utf16_valid k then take_overlay (from_utf16_lossy k) overlays else None) of
       Some (b, r) \<Rightarrow> (k, WorkRaw b) # overlay_members ms r
     | None \<Rightarrow> (k, WorkNode i) # overlay_members ms overlays)"

definition member_work :: "u16 list \<times> work \<Rightarrow> work list" where
  "member_work kw = [WorkString (fst kw), WorkByte 0x3A, snd kw]"

text \<open>One job of the stack: what it writes, and the jobs it leaves in its place.\<close>

record write_policy =
  policy_numbers :: json_numbers
  policy_encoding :: json_encoding
  string_overrides :: "(nat \<times> u16 list) list"
  normalize_values :: bool

definition node_work :: "write_policy \<Rightarrow> flat_document \<Rightarrow> (scalars \<times> bytes) list \<Rightarrow> nat
    \<Rightarrow> json_failure + bytes \<times> (scalars \<times> bytes) list \<times> work list" where
  "node_work pol d overlays i =
    (case node_kind d i of
       KindNull \<Rightarrow> Ok (literal_null, overlays, [])
     | KindBoolean \<Rightarrow>
         bind_result (missing_part ''flat JSON boolean has no source token'' (primitive_source d i))
           (\<lambda>raw. Ok (raw, overlays, []))
     | KindNumber \<Rightarrow>
         bind_result (missing_part ''flat JSON number has no source token'' (number_source d i)) (\<lambda>raw.
         bind_result (write_number (policy_numbers pol) (policy_encoding pol) raw)
           (\<lambda>b. Ok (b, overlays, [])))
     | KindString \<Rightarrow>
         bind_result (missing_part ''flat JSON string has no decoded UTF-16 units'' (string_units d i)) (\<lambda>own.
         let units = (case map_of (string_overrides pol) i of Some us \<Rightarrow> us | None \<Rightarrow> own) in
         Ok (write_json_string_from_utf16
               (if normalize_values pol then to_well_formed_utf16 units else units), overlays, []))
     | KindArray \<Rightarrow>
         bind_result (missing_part ''flat JSON array has no child list'' (node_array d i)) (\<lambda>items.
         Ok ([], overlays, WorkByte 0x5B # join_with (WorkByte 0x2C) (map (\<lambda>j. [WorkNode j]) items) @ [WorkByte 0x5D]))
     | KindObject \<Rightarrow>
         bind_result (missing_part ''flat JSON object has no child list'' (object_entries d i)) (\<lambda>members.
         Ok ([], [], WorkByte 0x7B
           # join_with (WorkByte 0x2C)
               (map member_work (ordered_members (policy_encoding pol) (overlay_members members overlays)))
           @ [WorkByte 0x7D])))"

partial_function (option) write_loop ::
  "write_policy \<Rightarrow> flat_document \<Rightarrow> (scalars \<times> bytes) list \<Rightarrow> bytes \<Rightarrow> work list
    \<Rightarrow> (json_failure + bytes) option" where
  "write_loop pol d overlays out stack =
    (case stack of
       [] \<Rightarrow> Some (Ok out)
     | WorkByte b # jobs \<Rightarrow> write_loop pol d overlays (out @ [b]) jobs
     | WorkString us # jobs \<Rightarrow> write_loop pol d overlays (out @ write_json_string_from_utf16 us) jobs
     | WorkRaw bs # jobs \<Rightarrow> write_loop pol d overlays (out @ bs) jobs
     | WorkNode i # jobs \<Rightarrow>
         (case node_work pol d overlays i of
            Inl e \<Rightarrow> Some (Err e)
          | Inr (b, overlays, new) \<Rightarrow> write_loop pol d overlays (out @ b) (new @ jobs)))"

definition checked_utf8 :: "string \<Rightarrow> bytes \<Rightarrow> json_failure + bytes" where
  "checked_utf8 m bs =
    (case utf8_error bs of
       None \<Rightarrow> Ok bs
     | Some e \<Rightarrow> Err (Rejects (InvalidRequest [Lit m, Utf8Err e])))"

definition serialize_json_node_with_policy ::
  "write_policy \<Rightarrow> flat_document \<Rightarrow> nat \<Rightarrow> (scalars \<times> bytes) list \<Rightarrow> (json_failure + bytes) option" where
  "serialize_json_node_with_policy pol d root overlays =
    (if overlays \<noteq> [] \<and> node_kind d root \<noteq> KindObject
     then Some (Err (invalid_request ''JSON field overlays require an object payload''))
     else map_option (\<lambda>r. bind_result r (checked_utf8 ''canonical JSON output is not UTF-8: ''))
            (write_loop pol d overlays [] [WorkNode root]))"

definition plain_policy :: "json_numbers \<Rightarrow> json_encoding \<Rightarrow> write_policy" where
  "plain_policy nums enc =
    \<lparr> policy_numbers = nums, policy_encoding = enc, string_overrides = [], normalize_values = False \<rparr>"

definition serialize_json_node_with_fields ::
  "json_numbers \<Rightarrow> json_encoding \<Rightarrow> flat_document \<Rightarrow> nat \<Rightarrow> (scalars \<times> bytes) list
    \<Rightarrow> (json_failure + bytes) option" where
  "serialize_json_node_with_fields nums enc d root overlays =
    serialize_json_node_with_policy (plain_policy nums enc) d root overlays"

definition serialize_json_node ::
  "json_numbers \<Rightarrow> json_encoding \<Rightarrow> flat_document \<Rightarrow> nat \<Rightarrow> (json_failure + bytes) option" where
  "serialize_json_node nums enc d root = serialize_json_node_with_fields nums enc d root []"

definition canonical_json_at ::
  "json_numbers \<Rightarrow> json_scanner \<Rightarrow> scalars \<Rightarrow> (json_failure + bytes) option" where
  "canonical_json_at nums sc p =
    (case node_id_at sc p of
       None \<Rightarrow>
         Some (Err (Rejects (InvalidRequest
           [Lit ''provider JSON pointer did not exist: '', DebugStr (map char_of p)])))
     | Some i \<Rightarrow> serialize_json_node nums JavaScript (scanned sc) i)"

text \<open>\<^verbatim>\<open>serialize_json_payload_with_overrides\<close>: overrides address strings by pointer.\<close>

fun overrides_by_node ::
  "json_scanner \<Rightarrow> (scalars \<times> u16 list) list \<Rightarrow> (nat \<times> u16 list) list \<Rightarrow> json_failure + (nat \<times> u16 list) list" where
  "overrides_by_node sc [] found = Ok found"
| "overrides_by_node sc ((p, us) # r) found =
    (case filter_option (\<lambda>i. node_kind (scanned sc) i = KindString) (node_id_at sc p) of
       None \<Rightarrow>
         Err (Rejects (InvalidRequest
           [Lit ''UTF-16 JSON override does not target a string leaf: '', DebugStr (map char_of p)]))
     | Some i \<Rightarrow> overrides_by_node sc r (AList.update i us found))"

definition serialize_payload_with_overrides ::
  "json_numbers \<Rightarrow> json_encoding \<Rightarrow> json_scanner \<Rightarrow> (scalars \<times> u16 list) list
    \<Rightarrow> (json_failure + bytes) option" where
  "serialize_payload_with_overrides nums enc sc overrides =
    (case overrides_by_node sc overrides [] of
       Inl e \<Rightarrow> Some (Err e)
     | Inr by_node \<Rightarrow>
         serialize_json_node_with_policy
           ((plain_policy nums enc) \<lparr> string_overrides := by_node \<rparr>) (scanned sc) (root_node sc) [])"

section \<open>Native generation bodies\<close>

text \<open>Whether a string value below the pending nodes is malformed; keys are not looked at.\<close>

definition pending_children :: "flat_document \<Rightarrow> nat \<Rightarrow> nat list" where
  "pending_children d i =
    (case node_of d i of
       ArrayNode items \<Rightarrow> rev items
     | ObjectNode members \<Rightarrow> rev (map (\<lambda>(_, _, j). j) members)
     | _ \<Rightarrow> [])"

partial_function (option) malformed_loop :: "flat_document \<Rightarrow> nat list \<Rightarrow> (json_failure + bool) option" where
  "malformed_loop d pending =
    (case pending of
       [] \<Rightarrow> Some (Ok False)
     | i # more_nodes \<Rightarrow>
         (if node_kind d i = KindString then
            (case string_units d i of
               None \<Rightarrow> Some (Err (invalid_request ''flat JSON string has no decoded UTF-16 units''))
             | Some us \<Rightarrow> if \<not> utf16_valid us then Some (Ok True) else malformed_loop d more_nodes)
          else malformed_loop d (pending_children d i @ more_nodes)))"

definition native_generation :: "protocol_family \<Rightarrow> bool" where
  "native_generation p \<longleftrightarrow>
    p = AnthropicMessages \<or> p = FoundryClaude \<or> p = BedrockClaude \<or> p = VertexClaude"

definition normalize_native_generation_json_body ::
  "json_numbers \<Rightarrow> bytes \<Rightarrow> protocol_family \<Rightarrow> (json_failure + bytes option) option" where
  "normalize_native_generation_json_body nums body p =
    (if \<not> native_generation p then Some (Ok None)
     else (case parse_scanner body ''final request body is invalid JSON'' of
       Inl e \<Rightarrow> Some (Err e)
     | Inr sc \<Rightarrow>
         (let d = scanned sc; root = root_node sc in
          if node_kind d root \<noteq> KindArray \<and> node_kind d root \<noteq> KindObject then Some (Ok None)
          else (case malformed_loop d [root] of
            None \<Rightarrow> None
          | Some (Inl e) \<Rightarrow> Some (Err e)
          | Some (Inr False) \<Rightarrow> Some (Ok None)
          | Some (Inr True) \<Rightarrow>
              map_option (\<lambda>r. bind_result r (\<lambda>b. Ok (Some b)))
                (serialize_json_node_with_policy
                  ((plain_policy nums JavaScript) \<lparr> normalize_values := True \<rparr>) d root [])))))"

section \<open>Written strings read back\<close>

lemma unat_byte: "n < 256 \<Longrightarrow> unat (word_of_nat n :: byte) = n"
  by (simp add: unat_of_nat)

lemma hex_value_char:
  assumes "n < 16"
  shows "hex_value (hex_char n) = Some n"
proof -
  have "list_all (\<lambda>n. hex_value (hex_char n) = Some n) [0..<16]" by code_simp
  then show ?thesis using assms by (simp only: list_all_iff set_upt) simp
qed

lemma hex_fold_chars:
  assumes "a < 16" "b < 16" "c < 16" "d < 16"
  shows "hex_fold 0 [hex_char a, hex_char b, hex_char c, hex_char d] = Some (16 * (16 * (16 * a + b) + c) + d)"
  using assms by (simp add: hex_value_char)

lemma hex_fold_unicode:
  assumes "n < 65536"
  shows "hex_fold 0 (drop 2 (unicode_escape_text n)) = Some n"
proof -
  have "n div 4096 mod 16 = n div 4096" using assms by (simp add: less_mult_imp_div_less)
  moreover have "16 * (n div 4096) + n div 256 mod 16 = n div 256"
    using mult_div_mod_eq [of 16 "n div 256"] by (simp add: div_mult2_eq [symmetric])
  moreover have "16 * (n div 256) + n div 16 mod 16 = n div 16"
    using mult_div_mod_eq [of 16 "n div 16"] by (simp add: div_mult2_eq [symmetric])
  ultimately show ?thesis
    using hex_fold_chars [of "n div 4096 mod 16" "n div 256 mod 16" "n div 16 mod 16" "n mod 16"] assms
    by (simp add: unicode_escape_text_def del: hex_fold.simps)
qed

definition width_ok :: "scalar \<Rightarrow> bytes \<Rightarrow> bool" where
  "width_ok c bs \<longleftrightarrow> next_char bs = Some (c, length bs) \<and> bs \<noteq> []
     \<and> (\<forall>r. valid_utf8 r \<longrightarrow> valid_utf8 (bs @ r)) \<and> (0x80 \<le> c \<longrightarrow> 0x80 \<le> hd bs) \<and> (c < 0x80 \<longrightarrow> hd bs = word_of_nat c)"

lemma utf8_width_1: "unat b < 0x80 \<Longrightarrow> utf8_width b = 1"
  by (simp add: utf8_width_def word_less_nat_alt)

lemma valid_utf8_Cons:
  "valid_utf8 (a # r) \<longleftrightarrow> (case utf8_width a of
        Suc 0 \<Rightarrow> valid_utf8 r
      | Suc (Suc 0) \<Rightarrow> (case r of [] \<Rightarrow> False | b # r1 \<Rightarrow> is_cont b \<and> valid_utf8 r1)
      | Suc (Suc (Suc 0)) \<Rightarrow> (case r of b # c # r2 \<Rightarrow> second_ok3 a b \<and> is_cont c \<and> valid_utf8 r2 | _ \<Rightarrow> False)
      | Suc (Suc (Suc (Suc 0))) \<Rightarrow>
          (case r of b # c # d # r3 \<Rightarrow> second_ok4 a b \<and> is_cont c \<and> is_cont d \<and> valid_utf8 r3 | _ \<Rightarrow> False)
      | _ \<Rightarrow> False)"
proof -
  have "utf8_error_from k xs = None \<longleftrightarrow> valid_utf8 xs" if "length xs \<le> length r" for k xs by (rule utf8_shift)
  then show ?thesis
    by (subst valid_utf8_def) (simp add: utf8_error_def split: nat.split list.split)
qed

lemma width_seq:
  assumes "next_char (a # bs) = Some (c, length (a # bs))" "\<And>r. valid_utf8 (a # bs @ r) \<longleftrightarrow> valid_utf8 r"
    "\<not> a < 0x80" "0x80 \<le> c"
  shows "width_ok c (a # bs)"
  using assms by (auto simp: width_ok_def not_less)

lemma width_multi: "utf8_width a \<noteq> 1 \<Longrightarrow> \<not> a < 0x80"
  by auto

lemma seq2_ok:
  assumes "utf8_width a = 2" "is_cont b" "c = unat a mod 0x20 * 0x40 + unat b mod 0x40" "0x80 \<le> c"
  shows "width_ok c [a, b]"
proof (rule width_seq)
  show "valid_utf8 (a # [b] @ r) \<longleftrightarrow> valid_utf8 r" for r
    using assms by (simp add: valid_utf8_Cons numeral_2_eq_2)
qed (use assms in \<open>auto simp: next_char_def\<close>)

lemma seq3_ok:
  assumes "utf8_width a = 3" "second_ok3 a b" "is_cont b'"
    "c = (unat a mod 0x10 * 0x40 + unat b mod 0x40) * 0x40 + unat b' mod 0x40" "0x80 \<le> c"
  shows "width_ok c [a, b, b']"
proof (rule width_seq)
  show "valid_utf8 (a # [b, b'] @ r) \<longleftrightarrow> valid_utf8 r" for r
    using assms by (simp add: valid_utf8_Cons numeral_3_eq_3)
qed (use assms in \<open>auto simp: next_char_def\<close>)

lemma seq4_ok:
  assumes "utf8_width a = 4" "second_ok4 a b" "is_cont b'" "is_cont b''"
    "c = ((unat a mod 0x08 * 0x40 + unat b mod 0x40) * 0x40 + unat b' mod 0x40) * 0x40 + unat b'' mod 0x40" "0x80 \<le> c"
  shows "width_ok c [a, b, b', b'']"
proof (rule width_seq)
  have w: "utf8_width a = Suc (Suc (Suc (Suc 0)))" using assms(1) by simp
  show "valid_utf8 (a # [b, b', b''] @ r) \<longleftrightarrow> valid_utf8 r" for r
    using assms(2-4) by (simp add: valid_utf8_Cons [of a] w)
qed (use assms in \<open>auto simp: next_char_def\<close>)

lemma trail_byte:
  assumes "n < 64"
  shows "unat (word_of_nat (0x80 + n) :: byte) mod 0x40 = n" "is_cont (word_of_nat (0x80 + n))"
    "unat (word_of_nat (0x80 + n) :: byte) = 0x80 + n"
proof -
  show u: "unat (word_of_nat (0x80 + n) :: byte) = 0x80 + n" using assms by (intro unat_byte) simp
  show "unat (word_of_nat (0x80 + n) :: byte) mod 0x40 = n" unfolding u using assms mod_mult_self3 [of 2 64 n] by simp
  show "is_cont (word_of_nat (0x80 + n))" unfolding is_cont_def word_le_nat_alt u using assms by simp
qed

lemma lead_byte:
  assumes "n < 16"
  shows "unat (word_of_nat (0xE0 + n) :: byte) = 0xE0 + n" "utf8_width (word_of_nat (0xE0 + n)) = 3"
proof -
  show u: "unat (word_of_nat (0xE0 + n) :: byte) = 0xE0 + n" using assms by (intro unat_byte) simp
  show "utf8_width (word_of_nat (0xE0 + n)) = 3"
    unfolding utf8_width_def word_less_nat_alt u using assms by simp
qed

lemma utf8_scalar_2:
  assumes "0x80 \<le> c" "c < 0x800"
  shows "width_ok c (utf8_of_scalar c)"
proof -
  define x z where "x = c div 0x40" and "z = c mod 0x40"
  have c: "c = x * 0x40 + z" by (simp add: x_def z_def)
  have b: "x < 0x20" "2 \<le> x" "z < 64" using assms by (simp_all add: x_def z_def less_mult_imp_div_less)
  have u: "unat (word_of_nat (0xC0 + x) :: byte) = 0xC0 + x" using b by (intro unat_byte) simp
  have w: "utf8_width (word_of_nat (0xC0 + x)) = 2"
    unfolding utf8_width_def word_less_nat_alt u using b by simp
  have "(0xC0 + x) mod 0x20 = x" using b mod_mult_self3 [of 6 32 x] by simp
  then have "width_ok c [word_of_nat (0xC0 + x), word_of_nat (0x80 + z)]"
    using seq2_ok [OF w trail_byte(2) [OF b(3)]] trail_byte(1) [OF b(3)] assms(1) u c by simp
  then show ?thesis using assms by (simp add: utf8_of_scalar_def x_def z_def)
qed

lemma utf8_scalar_3:
  assumes "0x800 \<le> c" "c < 0x10000" "c < 0xD800 \<or> 0xE000 \<le> c"
  shows "width_ok c (utf8_of_scalar c)"
proof -
  define x y z where "x = c div 0x1000" and "y = c div 0x40 mod 0x40" and "z = c mod 0x40"
  have "c div 0x40 = x * 0x40 + y" by (simp add: x_def y_def div_mult2_eq [of c 64 64, simplified])
  then have c: "c = (x * 0x40 + y) * 0x40 + z" by (metis mult_div_mod_eq mult.commute z_def)
  have b: "x < 16" "y < 64" "z < 64" using assms(2) by (simp_all add: x_def y_def z_def less_mult_imp_div_less)
  have s: "second_ok3 (word_of_nat (0xE0 + x)) (word_of_nat (0x80 + y))"
    using assms trail_byte [OF b(2)] b c
    unfolding second_ok3_def word_le_nat_alt word_unat_eq_iff lead_byte(1) [OF b(1)] trail_byte(3) [OF b(2)] by auto
  have "(0xE0 + x) mod 0x10 = x" using b mod_mult_self3 [of 14 16 x] by simp
  then have "width_ok c [word_of_nat (0xE0 + x), word_of_nat (0x80 + y), word_of_nat (0x80 + z)]"
    using seq3_ok [OF lead_byte(2) [OF b(1)] s trail_byte(2) [OF b(3)], of c]
      trail_byte(1) [OF b(2)] trail_byte(1) [OF b(3)] assms(1) lead_byte(1) [OF b(1)] c by simp
  then show ?thesis using assms by (simp add: utf8_of_scalar_def x_def y_def z_def)
qed

lemma utf8_scalar_4:
  assumes "0x10000 \<le> c" "c < 0x110000"
  shows "width_ok c (utf8_of_scalar c)"
proof -
  define v x y z where "v = c div 0x40000" and "x = c div 0x1000 mod 0x40" and "y = c div 0x40 mod 0x40" and "z = c mod 0x40"
  have "c div 0x1000 = v * 0x40 + x" by (simp add: x_def v_def div_mult2_eq [of c 4096 64, simplified])
  moreover have "c div 0x40 = c div 0x1000 * 0x40 + y" by (simp add: y_def div_mult2_eq [of c 64 64, simplified])
  ultimately have c: "c = ((v * 0x40 + x) * 0x40 + y) * 0x40 + z" by (metis mult_div_mod_eq mult.commute z_def)
  have b: "v < 5" "x < 64" "y < 64" "z < 64"
    using assms(2) by (simp_all add: v_def x_def y_def z_def less_mult_imp_div_less)
  have u: "unat (word_of_nat (0xF0 + v) :: byte) = 0xF0 + v" using b by (intro unat_byte) simp
  have w: "utf8_width (word_of_nat (0xF0 + v)) = 4"
    unfolding utf8_width_def word_less_nat_alt u using b by simp
  have s: "second_ok4 (word_of_nat (0xF0 + v)) (word_of_nat (0x80 + x))"
    using assms trail_byte [OF b(2)] b c
    unfolding second_ok4_def word_le_nat_alt word_unat_eq_iff u trail_byte(3) [OF b(2)] by auto
  have "(0xF0 + v) mod 0x08 = v" using b mod_mult_self3 [of 30 8 v] by simp
  then have "width_ok c [word_of_nat (0xF0 + v), word_of_nat (0x80 + x), word_of_nat (0x80 + y), word_of_nat (0x80 + z)]"
    using seq4_ok [OF w s trail_byte(2) [OF b(3)] trail_byte(2) [OF b(4)], of c]
      trail_byte(1) [OF b(2)] trail_byte(1) [OF b(3)] trail_byte(1) [OF b(4)] assms(1) u c by simp
  then show ?thesis using assms by (simp add: utf8_of_scalar_def v_def x_def y_def z_def)
qed

lemma utf8_scalar_ok:
  assumes "is_scalar c"
  shows "width_ok c (utf8_of_scalar c)"
proof -
  have "c < 0x80 \<or> (0x80 \<le> c \<and> c < 0x800) \<or> (0x800 \<le> c \<and> c < 0x10000 \<and> (c < 0xD800 \<or> 0xE000 \<le> c))
      \<or> (0x10000 \<le> c \<and> c < 0x110000)"
    using assms unfolding is_scalar_def by arith
  then show ?thesis
  proof (elim disjE)
    assume c: "c < 0x80"
    then have "unat (word_of_nat c :: byte) = c" by (simp add: unat_byte)
    then show ?thesis
      using c by (simp add: width_ok_def utf8_of_scalar_def next_char_def utf8_width_1 valid_utf8_Cons)
  qed (auto intro: utf8_scalar_2 utf8_scalar_3 utf8_scalar_4)
qed

lemma unit_scalar: "\<not> is_high u \<Longrightarrow> \<not> is_low u \<Longrightarrow> is_scalar (unat u)"
  using unsigned_less [of u, where 'a = nat]
  by (auto simp: is_high_def is_low_def is_scalar_def word_le_nat_alt word_less_nat_alt)

lemma pair_scalar: "is_high h \<Longrightarrow> is_low l \<Longrightarrow> is_scalar (join_pair h l)"
  by (auto simp: is_high_def is_low_def is_scalar_def join_pair_def word_le_nat_alt word_less_nat_alt)

lemma ascii_pass: "list_all (\<lambda>b. b < 0x80) bs \<Longrightarrow> valid_utf8 r \<Longrightarrow> valid_utf8 (bs @ r)"
  by (induction bs) (simp_all add: valid_utf8_Cons utf8_width_def)

lemma hex_char_ascii:
  assumes "n < 16"
  shows "hex_char n < 0x80"
proof -
  have "list_all (\<lambda>n. hex_char n < 0x80) [0..<16]" by code_simp
  then show ?thesis using assms by (simp only: list_all_iff set_upt) simp
qed

lemma unicode_escape_ascii: "list_all (\<lambda>b. b < 0x80) (unicode_escape_text n)"
  by (simp add: unicode_escape_text_def hex_char_ascii)

lemma unicode_escape_chars:
  assumes "n < 65536" "string_chars bs us"
  shows "string_chars (unicode_escape_text n @ bs) (word_of_nat n # us)"
proof -
  have "unicode_escape_text n = 0x5C # 0x75 # drop 2 (unicode_escape_text n)"
    "length (drop 2 (unicode_escape_text n)) = 4" by (simp_all add: unicode_escape_text_def)
  then show ?thesis
    using unicode_escape [OF _ hex_fold_unicode [OF assms(1)] assms(2)] by (metis append_Cons)
qed

lemma char_written:
  assumes "is_scalar c" "string_chars bs us"
  shows "string_chars (write_json_char c @ bs) (utf16_of_scalar c @ us)"
proof -
  consider "c \<in> {0x22, 0x5C, 0x08, 0x0C, 0x0A, 0x0D, 0x09}"
    | "c \<notin> {0x22, 0x5C, 0x08, 0x0C, 0x0A, 0x0D, 0x09}" "c \<le> 0x1F"
    | "c \<notin> {0x22, 0x5C}" "0x1F < c" by fastforce
  then show ?thesis
  proof cases
    case 1
    then show ?thesis
      using assms(2)
      by (auto simp: write_json_char_def utf16_of_scalar_def simple_escape_def intro!: short_escape)
  next
    case 2
    then show ?thesis
      using unicode_escape_chars [of c, OF _ assms(2)] by (auto simp: write_json_char_def utf16_of_scalar_def)
  next
    case 3
    note w = utf8_scalar_ok [OF assms(1), unfolded width_ok_def]
    have "hd (utf8_of_scalar c) \<noteq> 0x22 \<and> hd (utf8_of_scalar c) \<noteq> 0x5C \<and> \<not> hd (utf8_of_scalar c) < 0x20"
    proof (cases "c < 0x80")
      case True
      then have h: "unat (hd (utf8_of_scalar c)) = c" using w by (simp add: unat_byte)
      show ?thesis unfolding word_less_nat_alt word_unat_eq_iff h using 3 by simp
    next
      case False
      then have "0x80 \<le> hd (utf8_of_scalar c)" using w by simp
      then show ?thesis by (auto simp: word_le_nat_alt word_less_nat_alt)
    qed
    then have "string_chars (utf8_of_scalar c @ bs) (utf16_of_scalar c @ us)"
      using w plain_char [OF _ _ _ _ assms(2)] by blast
    then show ?thesis using 3 by (auto simp: write_json_char_def)
  qed
qed

lemma char_written_utf8: "is_scalar c \<Longrightarrow> valid_utf8 r \<Longrightarrow> valid_utf8 (write_json_char c @ r)"
  using utf8_scalar_ok [of c] ascii_pass [OF unicode_escape_ascii, of r c]
  by (simp add: write_json_char_def width_ok_def valid_utf8_Cons utf8_width_def)

lemma unit_written: "string_chars bs us \<Longrightarrow> string_chars (write_unit u @ bs) (u # us)"
  using char_written [OF unit_scalar, of u bs us] unicode_escape_chars [of "unat u" bs us]
    unsigned_less [of u, where 'a = nat]
  by (auto simp: write_unit_def utf16_of_unit)

lemma units_written: "string_chars (write_units us) us"
proof (induction us rule: write_units.induct)
  case (3 u v us)
  show ?case
  proof (cases "is_high u \<and> is_low v")
    case True
    then show ?thesis
      using char_written [OF pair_scalar "3.IH"(1)] by (auto simp: utf16_of_pair)
  next
    case False
    then show ?thesis using unit_written [OF "3.IH"(2)] by auto
  qed
qed (use unit_written [OF no_chars] no_chars in auto)

lemma unit_written_utf8: "valid_utf8 r \<Longrightarrow> valid_utf8 (write_unit u @ r)"
  using char_written_utf8 [OF unit_scalar, of u r] ascii_pass [OF unicode_escape_ascii, of r "unat u"]
  by (simp add: write_unit_def)

lemma units_written_utf8: "valid_utf8 r \<Longrightarrow> valid_utf8 (write_units us @ r)"
proof (induction us rule: write_units.induct)
  case (3 u v us)
  then show ?case using char_written_utf8 [OF pair_scalar, of u v "write_units us @ r"] unit_written_utf8 by simp
qed (simp_all add: unit_written_utf8)

lemma string_written: "value_text (write_json_string_from_utf16 us) (JStr (write_json_string_from_utf16 us) us)"
  by (rule string_value [OF units_written]) (simp add: write_json_string_from_utf16_def)

lemma string_written_utf8: "valid_utf8 r \<Longrightarrow> valid_utf8 (write_json_string_from_utf16 us @ r)"
  by (simp add: write_json_string_from_utf16_def valid_utf8_Cons utf8_width_def units_written_utf8)

end
