(* ===== verification/Json_Unique.thy ===== *)
theory Json_Unique
  imports Json_Accept
begin

text \<open>
  The grammar is unambiguous: a text has one tree.  With soundness and completeness of the
  scanner this makes the document of a source stand for exactly the tree of the sentence.
\<close>

section \<open>Texts in pieces\<close>

definition same_split :: "('p \<Rightarrow> bytes) \<Rightarrow> ('p \<Rightarrow> 'v) \<Rightarrow> byte \<Rightarrow> 'p \<Rightarrow> 'p \<Rightarrow> bool" where
  "same_split tx val z p p' \<longleftrightarrow>
    (\<forall>x x'. x \<noteq> [] \<longrightarrow> hd x \<in> {0x2C, z} \<longrightarrow> x' \<noteq> [] \<longrightarrow> hd x' \<in> {0x2C, z} \<longrightarrow> tx p @ x = tx p' @ x' \<longrightarrow>
      tx p = tx p' \<and> val p = val p')"

lemma join_with_Cons:
  "join_with c (p # ps) = (if ps = [] then p else p @ c # join_with c ps)"
  by (cases ps) simp_all

lemma join_unique:
  assumes "z \<noteq> 0x2C"
  shows "ps \<noteq> [] \<Longrightarrow> ps' \<noteq> [] \<Longrightarrow> \<forall>p \<in> set ps. \<forall>p' \<in> set ps'. same_split tx val z p p' \<Longrightarrow>
    join_with 0x2C (map tx ps) @ z # r = join_with 0x2C (map tx ps') @ z # r' \<Longrightarrow>
    map tx ps = map tx ps' \<and> map val ps = map val ps' \<and> r = r'"
proof (induction ps arbitrary: ps')
  case (Cons p ps)
  from Cons.prems obtain p' qs where q: "ps' = p' # qs" by (cases ps') auto
  let ?x = "if ps = [] then z # r else 0x2C # join_with 0x2C (map tx ps) @ z # r"
  let ?x' = "if qs = [] then z # r' else 0x2C # join_with 0x2C (map tx qs) @ z # r'"
  have eq: "tx p @ ?x = tx p' @ ?x'" using Cons.prems(4) by (auto simp: q join_with_Cons split: if_splits)
  have "same_split tx val z p p'" using Cons.prems(3) q by simp
  moreover have "?x \<noteq> []" "hd ?x \<in> {0x2C, z}" "?x' \<noteq> []" "hd ?x' \<in> {0x2C, z}" by simp_all
  ultimately have s: "tx p = tx p'" "val p = val p'" using eq unfolding same_split_def by blast+
  then have x: "?x = ?x'" using eq by simp
  show ?case
  proof (cases "ps = []")
    case True
    then have "qs = []" using x assms by (auto split: if_splits)
    then show ?thesis using x s True q by simp
  next
    case False
    then have n: "qs \<noteq> []" using x assms by (auto split: if_splits)
    have j: "join_with 0x2C (map tx ps) @ z # r = join_with 0x2C (map tx qs) @ z # r'" using x False n by simp
    have "\<forall>p \<in> set ps. \<forall>p' \<in> set qs. same_split tx val z p p'" using Cons.prems(3) q by simp
    from Cons.IH [OF False n this j] show ?thesis using s q by simp
  qed
qed simp

record element_piece =
  el_before :: bytes
  el_text :: bytes
  el_tree :: json_tree
  el_after :: bytes

definition element_ok :: "element_piece \<Rightarrow> bool" where
  "element_ok p \<longleftrightarrow> is_ws (el_before p) \<and> value_text (el_text p) (el_tree p) \<and> is_ws (el_after p)"

definition element_text :: "element_piece \<Rightarrow> bytes" where
  "element_text p = el_before p @ el_text p @ el_after p"

record member_piece =
  me_before :: bytes
  me_chars :: bytes
  me_key :: "u16 list"
  me_gap :: bytes
  me_value :: element_piece

definition member_ok :: "member_piece \<Rightarrow> bool" where
  "member_ok p \<longleftrightarrow> is_ws (me_before p) \<and> string_chars (me_chars p) (me_key p) \<and> is_ws (me_gap p) \<and> element_ok (me_value p)"

definition member_piece_text :: "member_piece \<Rightarrow> bytes" where
  "member_piece_text p = me_before p @ 0x22 # me_chars p @ 0x22 # me_gap p @ 0x3A # element_text (me_value p)"

lemma element_piece_simps:
  "element_ok \<lparr> el_before = w, el_text = bs, el_tree = t, el_after = w' \<rparr> \<longleftrightarrow> is_ws w \<and> value_text bs t \<and> is_ws w'"
  "element_text \<lparr> el_before = w, el_text = bs, el_tree = t, el_after = w' \<rparr> = w @ bs @ w'"
  by (simp_all add: element_ok_def element_text_def)

lemma member_piece_simps:
  "member_ok \<lparr> me_before = w, me_chars = cs, me_key = k, me_gap = v, me_value = e \<rparr> \<longleftrightarrow>
    is_ws w \<and> string_chars cs k \<and> is_ws v \<and> element_ok e"
  "member_piece_text \<lparr> me_before = w, me_chars = cs, me_key = k, me_gap = v, me_value = e \<rparr> =
    w @ 0x22 # cs @ 0x22 # v @ 0x3A # element_text e"
  by (simp_all add: member_ok_def member_piece_text_def)

definition put_members :: "(u16 list \<times> json_tree) list \<Rightarrow> (u16 list \<times> json_tree) list" where
  "put_members kts = foldl (\<lambda>m (k, t). put_member k t m) [] kts"

lemma join_with_snoc: "xs \<noteq> [] \<Longrightarrow> join_with c (xs @ [x]) = join_with c xs @ c # x"
  by (induction c xs rule: join_with.induct) auto

lemma pieces:
  "value_text b t \<Longrightarrow> True"
  "elements_text es ts \<Longrightarrow> \<exists>ps. ps \<noteq> [] \<and> list_all element_ok ps
     \<and> es = join_with 0x2C (map element_text ps) \<and> ts = map el_tree ps"
  "members_text ms kts \<Longrightarrow> \<exists>ps. ps \<noteq> [] \<and> list_all member_ok ps
     \<and> ms = join_with 0x2C (map member_piece_text ps) \<and> kts = put_members (map (\<lambda>p. (me_key p, el_tree (me_value p))) ps)"
proof (induction rule: value_text_elements_text_members_text.inducts)
  case (first_element w bs t w')
  then show ?case
    by (intro exI [of _ "[\<lparr> el_before = w, el_text = bs, el_tree = t, el_after = w' \<rparr>]"])
      (simp add: element_piece_simps)
next
  case (next_element es ts w bs t w')
  then obtain ps where "ps \<noteq> []" "list_all element_ok ps" "es = join_with 0x2C (map element_text ps)" "ts = map el_tree ps"
    by auto
  then show ?case
    using next_element
    by (intro exI [of _ "ps @ [\<lparr> el_before = w, el_text = bs, el_tree = t, el_after = w' \<rparr>]"])
      (simp add: element_piece_simps join_with_snoc)
next
  case (first_member w cs k v v' bs t w')
  then show ?case
    by (intro exI [of _ "[\<lparr> me_before = w, me_chars = cs, me_key = k, me_gap = v,
        me_value = \<lparr> el_before = v', el_text = bs, el_tree = t, el_after = w' \<rparr> \<rparr>]"])
      (simp add: member_piece_simps element_piece_simps put_members_def)
next
  case (next_member ms kts w cs k v v' bs t w')
  then obtain ps where "ps \<noteq> []" "list_all member_ok ps" "ms = join_with 0x2C (map member_piece_text ps)"
    "kts = put_members (map (\<lambda>p. (me_key p, el_tree (me_value p))) ps)"
    by auto
  then show ?case
    using next_member
    by (intro exI [of _ "ps @ [\<lparr> me_before = w, me_chars = cs, me_key = k, me_gap = v,
        me_value = \<lparr> el_before = v', el_text = bs, el_tree = t, el_after = w' \<rparr> \<rparr>]"])
      (simp add: member_piece_simps element_piece_simps put_members_def join_with_snoc)
qed auto

section \<open>Tokens are read one way\<close>

lemma ws_unique:
  assumes "is_ws w" "is_ws w'" "w @ x = w' @ x'" "x \<noteq> []" "\<not> is_json_ws (hd x)" "x' \<noteq> []" "\<not> is_json_ws (hd x')"
  shows "w = w' \<and> x = x'"
proof -
  have tw: "takeWhile is_json_ws (v @ y) = v" if "is_ws v" "y \<noteq> []" "\<not> is_json_ws (hd y)" for v y
    using that by (cases y) (auto simp: is_ws_def list_all_iff takeWhile_append2)
  have "w = w'" using tw [OF assms(1,4,5)] tw [OF assms(2,6,7)] assms(3) by simp
  then show ?thesis using assms(3) by simp
qed

lemma follows_ends: "follows r \<Longrightarrow> ends_token r"
  by (auto simp: follows_def ends_token_def)

lemma prim_unique:
  assumes "bs = literal_null \<or> bs = literal_true \<or> bs = literal_false \<or> number_text bs"
    and "bs' = literal_null \<or> bs' = literal_true \<or> bs' = literal_false \<or> number_text bs'"
    and "bs @ r = bs' @ r'" "follows r" "follows r'"
  shows "bs = bs'"
proof -
  let ?st = "new_parser (bs @ r)"
  have "primitive_text ?st = Ok (advance (length bs) ?st)" "primitive_text ?st = Ok (advance (length bs') ?st)"
    using primitive_text_complete [OF assms(1), of ?st r] primitive_text_complete [OF assms(2), of ?st r']
      follows_ends assms(3-5) by simp_all
  then have "offset (advance (length bs) ?st) = offset (advance (length bs') ?st)" by simp
  then have "length bs = length bs'" by (simp add: advance_def)
  then show ?thesis using assms(3) by simp
qed

lemma string_unique:
  assumes "string_chars cs us" "string_chars cs' us'" "cs @ 0x22 # r = cs' @ 0x22 # r'"
  shows "cs = cs' \<and> us = us' \<and> r = r'"
proof -
  have "string_loop (cs @ 0x22 # r) 0 [] = Ok (us, length cs + 1)"
    "string_loop (cs @ 0x22 # r) 0 [] = Ok (us', length cs' + 1)"
    using string_loop_complete [OF assms(1), of 0 "cs @ 0x22 # r" r "[]"]
      string_loop_complete [OF assms(2), of 0 "cs @ 0x22 # r" r' "[]"] assms(3) by simp_all
  then have "us = us'" "length cs = length cs'" by simp_all
  then show ?thesis using assms(3) by simp
qed

section \<open>Values are read one way\<close>

definition unique_below :: "nat \<Rightarrow> bool" where
  "unique_below n \<longleftrightarrow>
    (\<forall>b t b' t' r r'. length b < n \<longrightarrow> value_text b t \<longrightarrow> value_text b' t' \<longrightarrow> b @ r = b' @ r' \<longrightarrow>
      follows r \<longrightarrow> follows r' \<longrightarrow> b = b' \<and> t = t')"

lemma closers: "z \<in> {0x5D, 0x7D} \<Longrightarrow> x \<noteq> [] \<Longrightarrow> hd x \<in> {0x2C, z} \<Longrightarrow> follows x \<and> \<not> is_json_ws (hd x)"
  by (cases x) (auto simp: is_json_ws_def)

lemma value_not_ws: "value_text b t \<Longrightarrow> b @ x \<noteq> [] \<and> \<not> is_json_ws (hd (b @ x))"
  using value_start [of b t] by auto

lemma element_split:
  assumes "unique_below n" "element_ok p" "element_ok p'" "length (el_text p) < n" "z \<in> {0x5D, 0x7D}"
  shows "same_split element_text el_tree z p p'"
  unfolding same_split_def
proof (intro allI impI)
  fix x x'
  assume x: "x \<noteq> []" "hd x \<in> {0x2C, z}" "x' \<noteq> []" "hd x' \<in> {0x2C, z}" and eq: "element_text p @ x = element_text p' @ x'"
  note ok = assms(2,3) [unfolded element_ok_def]
  note c = closers [OF assms(5) x(1,2)] closers [OF assms(5) x(3,4)]
  have "el_before p @ el_text p @ el_after p @ x = el_before p' @ el_text p' @ el_after p' @ x'"
    using eq by (simp add: element_text_def)
  then have w: "el_before p = el_before p'" "el_text p @ el_after p @ x = el_text p' @ el_after p' @ x'"
    using ws_unique [of "el_before p" "el_before p'"] ok value_not_ws by blast+
  have t: "el_text p = el_text p'" "el_tree p = el_tree p'"
    using assms(1,4) ok w(2) follows_ws c unfolding unique_below_def by blast+
  have "el_after p = el_after p'" using ws_unique [of "el_after p" "el_after p'" x x'] ok c x w(2) t(1) by simp
  then show "element_text p = element_text p' \<and> el_tree p = el_tree p'"
    using w(1) t by (simp add: element_text_def)
qed

lemma member_split:
  assumes "unique_below n" "member_ok p" "member_ok p'" "length (el_text (me_value p)) < n"
  shows "same_split member_piece_text (\<lambda>p. (me_key p, el_tree (me_value p))) 0x7D p p'"
  unfolding same_split_def
proof (intro allI impI)
  fix x x'
  assume x: "x \<noteq> []" "hd x \<in> {0x2C, 0x7D}" "x' \<noteq> []" "hd x' \<in> {0x2C, 0x7D}"
    and eq: "member_piece_text p @ x = member_piece_text p' @ x'"
  note ok = assms(2,3) [unfolded member_ok_def]
  have ws: "\<not> is_json_ws 0x22" "\<not> is_json_ws 0x3A" by (simp_all add: is_json_ws_def)
  have E: "me_before p @ (0x22 # me_chars p @ 0x22 # me_gap p @ 0x3A # element_text (me_value p) @ x) =
      me_before p' @ (0x22 # me_chars p' @ 0x22 # me_gap p' @ 0x3A # element_text (me_value p') @ x')"
    using eq by (simp add: member_piece_text_def)
  have b: "me_before p = me_before p'"
    "me_chars p @ 0x22 # me_gap p @ 0x3A # element_text (me_value p) @ x =
      me_chars p' @ 0x22 # me_gap p' @ 0x3A # element_text (me_value p') @ x'"
    using ws_unique [OF _ _ E] ok ws(1) by simp_all
  from string_unique [OF _ _ b(2)] have s: "me_chars p = me_chars p'" "me_key p = me_key p'"
    "me_gap p @ 0x3A # element_text (me_value p) @ x = me_gap p' @ 0x3A # element_text (me_value p') @ x'"
    using ok by blast+
  have g: "me_gap p = me_gap p'" "element_text (me_value p) @ x = element_text (me_value p') @ x'"
    using ws_unique [OF _ _ s(3)] ok ws(2) by simp_all
  have "same_split element_text el_tree 0x7D (me_value p) (me_value p')"
    using element_split [OF assms(1) _ _ assms(4), of "me_value p'" "0x7D"] ok by simp
  then have "element_text (me_value p) = element_text (me_value p')" "el_tree (me_value p) = el_tree (me_value p')"
    using x g(2) unfolding same_split_def by blast+
  then show "member_piece_text p = member_piece_text p' \<and> (me_key p, el_tree (me_value p)) = (me_key p', el_tree (me_value p'))"
    using b(1) s(1,2) g(1) by (simp add: member_piece_text_def)
qed

lemma length_join: "x \<in> set xs \<Longrightarrow> length x \<le> length (join_with c xs)"
  by (induction c xs rule: join_with.induct) auto

lemma array_unique:
  assumes "unique_below (length es + 2)" "elements_text es ts" "elements_text es' ts'"
    and "es @ 0x5D # r = es' @ 0x5D # r'"
  shows "es = es' \<and> ts = ts'"
proof -
  obtain ps where ps: "ps \<noteq> []" "list_all element_ok ps" "es = join_with 0x2C (map element_text ps)" "ts = map el_tree ps"
    using pieces(2) [OF assms(2)] by blast
  obtain qs where qs: "qs \<noteq> []" "list_all element_ok qs" "es' = join_with 0x2C (map element_text qs)" "ts' = map el_tree qs"
    using pieces(2) [OF assms(3)] by blast
  have "length (el_text p) < length es + 2" if "p \<in> set ps" for p
    using length_join [of "element_text p" "map element_text ps" "0x2C"] that by (simp add: ps(3) element_text_def)
  then have "\<forall>p \<in> set ps. \<forall>q \<in> set qs. same_split element_text el_tree 0x5D p q"
    using element_split [OF assms(1)] ps(2) qs(2) by (simp add: list_all_iff)
  from join_unique [OF _ ps(1) qs(1) this assms(4) [unfolded ps(3) qs(3)]] show ?thesis
    by (simp add: ps(3,4) qs(3,4))
qed

lemma object_unique:
  assumes "unique_below (length ms + 2)" "members_text ms kts" "members_text ms' kts'"
    and "ms @ 0x7D # r = ms' @ 0x7D # r'"
  shows "ms = ms' \<and> kts = kts'"
proof -
  let ?v = "\<lambda>p. (me_key p, el_tree (me_value p))"
  obtain ps where ps: "ps \<noteq> []" "list_all member_ok ps" "ms = join_with 0x2C (map member_piece_text ps)"
      "kts = put_members (map ?v ps)"
    using pieces(3) [OF assms(2)] by blast
  obtain qs where qs: "qs \<noteq> []" "list_all member_ok qs" "ms' = join_with 0x2C (map member_piece_text qs)"
      "kts' = put_members (map ?v qs)"
    using pieces(3) [OF assms(3)] by blast
  have "length (el_text (me_value p)) < length ms + 2" if "p \<in> set ps" for p
    using length_join [of "member_piece_text p" "map member_piece_text ps" "0x2C"] that
    by (simp add: ps(3) member_piece_text_def element_text_def)
  then have "\<forall>p \<in> set ps. \<forall>q \<in> set qs. same_split member_piece_text ?v 0x7D p q"
    using member_split [OF assms(1)] ps(2) qs(2) by (simp add: list_all_iff)
  from join_unique [OF _ ps(1) qs(1) this assms(4) [unfolded ps(3) qs(3)]] show ?thesis
    by (simp add: ps(3,4) qs(3,4))
qed

definition prim_text :: "bytes \<Rightarrow> bool" where
  "prim_text bs \<longleftrightarrow> bs = literal_null \<or> bs = literal_true \<or> bs = literal_false \<or> number_text bs"

definition array_body :: "bytes \<Rightarrow> json_tree list \<Rightarrow> bool" where
  "array_body es ts \<longleftrightarrow> is_ws es \<and> ts = [] \<or> elements_text es ts"

definition object_body :: "bytes \<Rightarrow> (u16 list \<times> json_tree) list \<Rightarrow> bool" where
  "object_body ms kts \<longleftrightarrow> is_ws ms \<and> kts = [] \<or> members_text ms kts"

lemma prim_start: "prim_text bs \<Longrightarrow> bs \<noteq> [] \<and> hd bs \<notin> {0x22, 0x5B, 0x7B}"
proof -
  have "\<not> is_ascii_digit 0x22" "\<not> is_ascii_digit 0x5B" "\<not> is_ascii_digit 0x7B" by (simp_all add: is_ascii_digit_def)
  moreover assume "prim_text bs"
  ultimately show ?thesis
    using hd_number [of bs] value_start [OF number_value, of bs]
    by (auto simp: prim_text_def literal_null_def literal_true_def literal_false_def)
qed

lemma value_kinds [consumes 1, case_names prim str arr obj]:
  assumes "value_text bs t"
  obtains "prim_text bs" "t = JPrim bs"
  | cs us where "string_chars cs us" "bs = 0x22 # cs @ [0x22]" "t = JStr bs us"
  | es ts where "array_body es ts" "bs = 0x5B # es @ [0x5D]" "t = JArr bs ts"
  | ms kts where "object_body ms kts" "bs = 0x7B # ms @ [0x7D]" "t = JObj bs kts"
  using assms by (cases rule: value_text.cases) (auto simp: prim_text_def array_body_def object_body_def)

lemma elements_first:
  assumes "elements_text es ts"
  shows "\<exists>w b x. es = w @ b @ x \<and> is_ws w \<and> b \<noteq> [] \<and> \<not> is_json_ws (hd b) \<and> hd b \<noteq> 0x5D"
proof -
  obtain p ps where p: "element_ok p" "es = join_with 0x2C (map element_text (p # ps))"
    using pieces(2) [OF assms] by (metis list.exhaust list.pred_inject(2))
  have "es = el_before p @ el_text p @ (el_after p @ (if ps = [] then [] else 0x2C # join_with 0x2C (map element_text ps)))"
    by (simp add: p(2) join_with_Cons element_text_def)
  then show ?thesis using p(1) value_start unfolding element_ok_def by blast
qed

lemma members_first:
  assumes "members_text ms kts"
  shows "\<exists>w x. ms = w @ 0x22 # x \<and> is_ws w"
proof -
  obtain p ps where p: "member_ok p" "ms = join_with 0x2C (map member_piece_text (p # ps))"
    using pieces(3) [OF assms] by (metis list.exhaust list.pred_inject(2))
  then show ?thesis by (auto simp: join_with_Cons member_piece_text_def member_ok_def)
qed

lemma empty_not_full_array: "is_ws w \<Longrightarrow> elements_text es ts \<Longrightarrow> w @ 0x5D # r = es @ 0x5D # r' \<Longrightarrow> False"
proof -
  assume w: "is_ws w" and e: "elements_text es ts" and eq: "w @ 0x5D # r = es @ 0x5D # r'"
  obtain v b x where v: "es = v @ b @ x" "is_ws v" "b \<noteq> []" "\<not> is_json_ws (hd b)" "hd b \<noteq> 0x5D"
    using elements_first [OF e] by blast
  have eq': "w @ 0x5D # r = v @ (b @ x @ 0x5D # r')" using eq v(1) by simp
  have "0x5D # r = b @ x @ 0x5D # r'" using ws_unique [OF w v(2) eq'] v(3,4) by (simp add: is_json_ws_def)
  then show False using v(3,5) by (cases b) auto
qed

lemma empty_not_full_object: "is_ws w \<Longrightarrow> members_text ms kts \<Longrightarrow> w @ 0x7D # r = ms @ 0x7D # r' \<Longrightarrow> False"
proof -
  assume w: "is_ws w" and e: "members_text ms kts" and eq: "w @ 0x7D # r = ms @ 0x7D # r'"
  obtain v x where v: "ms = v @ 0x22 # x" "is_ws v" using members_first [OF e] by blast
  have eq': "w @ 0x7D # r = v @ (0x22 # x @ 0x7D # r')" using eq v(1) by simp
  show False using ws_unique [OF w v(2) eq'] by (simp add: is_json_ws_def)
qed

lemma array_body_unique:
  assumes "unique_below (length es + 2)" "array_body es ts" "array_body es' ts'" "es @ 0x5D # r = es' @ 0x5D # r'"
  shows "es = es' \<and> ts = ts'"
proof -
  have "\<not> is_json_ws 0x5D" by (simp add: is_json_ws_def)
  then show ?thesis
    using array_unique [OF assms(1) _ _ assms(4)] ws_unique [OF _ _ assms(4)] assms(2-4)
      empty_not_full_array [of es es' ts' r r'] empty_not_full_array [of es' es ts r' r]
    unfolding array_body_def by auto
qed

lemma object_body_unique:
  assumes "unique_below (length ms + 2)" "object_body ms kts" "object_body ms' kts'" "ms @ 0x7D # r = ms' @ 0x7D # r'"
  shows "ms = ms' \<and> kts = kts'"
proof -
  have "\<not> is_json_ws 0x7D" by (simp add: is_json_ws_def)
  then show ?thesis
    using object_unique [OF assms(1) _ _ assms(4)] ws_unique [OF _ _ assms(4)] assms(2-4)
      empty_not_full_object [of ms ms' kts' r r'] empty_not_full_object [of ms' ms kts r' r]
    unfolding object_body_def by auto
qed

lemma unique_step:
  assumes "unique_below (length b)" "value_text b t" "value_text b' t'" "b @ r = b' @ r'" "follows r" "follows r'"
  shows "b = b' \<and> t = t'"
proof -
  have ne: "b \<noteq> []" "b' \<noteq> []" using value_start assms(2,3) by blast+
  then have h: "hd b = hd b'" using assms(4) by (metis hd_append2)
  show ?thesis
    using assms(2)
  proof (cases rule: value_kinds)
    case prim
    have p: "prim_text b'" "t' = JPrim b'"
      using assms(3) prim_start [OF prim(1)] h by (cases rule: value_kinds; simp)+
    then show ?thesis
      using prim_unique [of b b' r r'] prim assms(4-6) by (simp add: prim_text_def)
  next
    case (str cs us)
    obtain cs' us' where s: "string_chars cs' us'" "b' = 0x22 # cs' @ [0x22]" "t' = JStr b' us'"
      using assms(3) prim_start [of b'] h str(2) by (cases rule: value_kinds) auto
    then show ?thesis using string_unique [OF str(1) s(1), of r r'] assms(4) str by simp
  next
    case (arr es ts)
    obtain es' ts' where s: "array_body es' ts'" "b' = 0x5B # es' @ [0x5D]" "t' = JArr b' ts'"
      using assms(3) prim_start [of b'] h arr(2) by (cases rule: value_kinds) auto
    then show ?thesis
      using array_body_unique [OF _ arr(1) s(1), of r r'] assms(1,4) arr by simp
  next
    case (obj ms kts)
    obtain ms' kts' where s: "object_body ms' kts'" "b' = 0x7B # ms' @ [0x7D]" "t' = JObj b' kts'"
      using assms(3) prim_start [of b'] h obj(2) by (cases rule: value_kinds) auto
    then show ?thesis
      using object_body_unique [OF _ obj(1) s(1), of r r'] assms(1,4) obj by simp
  qed
qed

lemma unique_mono: "unique_below n \<Longrightarrow> m \<le> n \<Longrightarrow> unique_below m"
  unfolding unique_below_def by (meson less_le_trans)

lemma unique_all: "unique_below n"
proof (induction n)
  case 0
  then show ?case by (simp add: unique_below_def)
next
  case (Suc n)
  show ?case
    unfolding unique_below_def
  proof (intro allI impI)
    fix b t b' t' r r'
    assume a: "length b < Suc n" "value_text b t" "value_text b' t'" "b @ r = b' @ r'" "follows r" "follows r'"
    have "unique_below (length b)" using unique_mono [OF Suc] a(1) by simp
    then show "b = b' \<and> t = t'" using unique_step a(2-6) by blast
  qed
qed

lemma json_text_unique:
  assumes "json_text s t" "json_text s t'"
  shows "t = t'"
proof -
  obtain w b v where w: "s = w @ b @ v" "is_ws w" "is_ws v" "value_text b t"
    using assms(1) by (auto simp: json_text_def)
  obtain w' b' v' where w': "s = w' @ b' @ v'" "is_ws w'" "is_ws v'" "value_text b' t'"
    using assms(2) by (auto simp: json_text_def)
  have e: "w @ (b @ v) = w' @ (b' @ v')" using w(1) w'(1) by simp
  have "b @ v = b' @ v'"
    using ws_unique [OF w(2) w'(2) e] value_not_ws [OF w(4)] value_not_ws [OF w'(4)] by blast
  moreover have "follows v" "follows v'" using follows_ws [OF w(3), of "[]"] follows_ws [OF w'(3), of "[]"] by simp_all
  ultimately show ?thesis using unique_step [OF unique_all w(4) w'(4)] by blast
qed

lemma document_reads: "json_text s t \<Longrightarrow> \<exists>d. document s = Ok d \<and> stands_for s d (doc_root d) t"
  using document_complete document_sound json_text_unique by blast

section \<open>The tree of a node\<close>

lemma exact_units_inj:
  assumes "from_utf16_lossy us = from_utf16_lossy vs" "exact_units us = exact_units vs"
  shows "us = vs"
proof (cases "utf16_valid us")
  case True
  then have "utf16_valid vs" using assms(2) by (auto simp: exact_units_def split: if_splits)
  then show ?thesis using valid_encode [OF True] valid_encode [of vs] assms(1) by metis
next
  case False
  then show ?thesis using assms(2) by (auto simp: exact_units_def split: if_splits)
qed

lemma tree_at_prim: "tree_at st Op i t \<Longrightarrow> nodes st ! i = Primitive raw \<Longrightarrow> t = JPrim (node_text st i)"
  by (erule tree_at.cases) auto

lemma tree_at_str: "tree_at st Op i t \<Longrightarrow> nodes st ! i = StringNode shown \<Longrightarrow>
    \<exists>us. t = JStr (node_text st i) us \<and> shown = from_utf16_lossy us \<and> map_of (node_exact_strings st) i = exact_units us"
  by (erule tree_at.cases) auto

lemma tree_at_arr: "tree_at st Op i t \<Longrightarrow> nodes st ! i = ArrayNode items \<Longrightarrow>
    \<exists>ts. t = JArr (node_text st i) ts \<and> list_all2 (tree_at st Op) items ts"
  by (erule tree_at.cases) auto

lemma tree_at_obj: "tree_at st Op i t \<Longrightarrow> nodes st ! i = ObjectNode members \<Longrightarrow>
    \<exists>kts. t = JObj (node_text st i) kts \<and> list_all2 (\<lambda>m kt. fst m = from_utf16_lossy (fst kt)
      \<and> fst (snd m) = fst kt \<and> tree_at st Op (snd (snd m)) (snd kt)) members kts"
  by (erule tree_at.cases) auto

lemma list_all2_unique:
  "list_all2 (\<lambda>x y. P x y \<and> (\<forall>y'. P x y' \<longrightarrow> y = y')) xs ys \<Longrightarrow> list_all2 P xs ys' \<Longrightarrow> ys = ys'"
proof (induction arbitrary: ys' rule: list_all2_induct)
  case (Cons x xs y ys)
  then show ?case by (cases ys') auto
qed simp

lemma tree_at_unique: "tree_at st Op i t \<Longrightarrow> tree_at st Op i t' \<Longrightarrow> t = t'"
proof (induction arbitrary: t' rule: tree_at.induct)
  case (at_prim i)
  show ?case using tree_at_prim [OF at_prim.prems at_prim.hyps(3)] by simp
next
  case (at_str i us)
  show ?case using tree_at_str [OF at_str.prems at_str.hyps(3)] at_str.hyps(4) exact_units_inj by fastforce
next
  case (at_arr i items ts)
  obtain ts' where t: "t' = JArr (node_text st i) ts'" "list_all2 (tree_at st Op) items ts'"
    using tree_at_arr [OF at_arr.prems at_arr.hyps(3)] by blast
  have "list_all2 (\<lambda>x y. tree_at st Op x y \<and> (\<forall>y'. tree_at st Op x y' \<longrightarrow> y = y')) items ts"
    by (rule list_all2_mono [OF at_arr.IH]) blast
  then show ?case using list_all2_unique t by blast
next
  case (at_obj i members kts)
  let ?P = "\<lambda>m kt. fst m = from_utf16_lossy (fst kt) \<and> fst (snd m) = fst kt \<and> tree_at st Op (snd (snd m)) (snd kt)"
  obtain kts' where t: "t' = JObj (node_text st i) kts'" "list_all2 ?P members kts'"
    using tree_at_obj [OF at_obj.prems at_obj.hyps(3)] by blast
  have "list_all2 (\<lambda>x y. ?P x y \<and> (\<forall>y'. ?P x y' \<longrightarrow> y = y')) members kts"
    by (rule list_all2_mono [OF at_obj.IH]) (metis prod.expand)
  then show ?case using list_all2_unique [of ?P members kts kts'] t by blast
qed

lemma stands_for_unique: "stands_for s d i t \<Longrightarrow> stands_for s d i t' \<Longrightarrow> t = t'"
  unfolding stands_for_def by (rule tree_at_unique)

section \<open>Spans are slices of the source\<close>

definition bounded :: "json_parser \<Rightarrow> bool" where
  "bounded st \<longleftrightarrow> (\<forall>sp \<in> set (node_source_spans st). snd sp \<le> length (source st))"

lemma bounded_core: "core st' = core st \<Longrightarrow> bounded st' = bounded st"
  by (simp add: bounded_def core_def)

lemma bounded_same:
  "node_source_spans st' = node_source_spans st \<Longrightarrow> source st' = source st \<Longrightarrow> bounded st' = bounded st"
  by (simp add: bounded_def)

lemma primitive_text_spans: "primitive_text st = Ok st' \<Longrightarrow> node_source_spans st' = node_source_spans st"
  using primitive_text_sound [of st st'] core_eq(4) [OF eats_core] by blast

lemma consume_core: "consume b st = (c, st') \<Longrightarrow> core st' = core st"
  using consume_eats [of b st st'] consume_False [of b st st'] by (cases c) (auto dest: eats_core)

lemma scan_string_spans:
  assumes "scan_string st = Ok (r, st')"
  shows "node_source_spans st' = node_source_spans st"
proof -
  obtain shown exact where "r = (shown, exact)" by fastforce
  then obtain bs where "eats st bs st'" using scan_string_sound [of st shown exact st'] assms by blast
  then show ?thesis using core_eq(4) [OF eats_core] by blast
qed

lemma json_value_bounded:
  assumes "json_value st = Ok ((i, state), st')" "bounded st"
  shows "bounded st'"
proof -
  have m: "source st' = source st" "offset st' \<le> length (source st)"
    using json_value_moves [OF assms(1)] by (auto simp: moves_on_def moves_def)
  have "\<exists>a. node_source_spans st' = node_source_spans st @ [(a, offset st')]"
    using assms(1)
  proof (cases rule: json_value_cases)
    case object
    then show ?thesis using push_node_eq(3,6) [OF object(3)] by simp
  next
    case array
    then show ?thesis using push_node_eq(3,6) [OF array(3)] by simp
  next
    case (quoted shown exact st1 st2)
    have "offset st' = offset st2" by (simp add: quoted(5) note_span_def note_exact_def split: option.splits)
    then show ?thesis
      using push_node_eq(3,6) [OF quoted(4)] scan_string_spans [OF quoted(3)] quoted(5) by simp
  next
    case (primitive raw st1 st2)
    have "offset st' = offset st2" by (simp add: primitive(5) note_span_def)
    then show ?thesis
      using push_node_eq(3,6) [OF primitive(4)] primitive_text_spans [OF primitive(2)] primitive(5) by simp
  qed
  then show ?thesis using assms(2) m by (auto simp: bounded_def)
qed

lemma opened_core: "opened i state c stack st = Ok (st', stack') \<Longrightarrow> core st' = core st"
  by (auto simp: opened_def bind_result_Inr split: option.splits dest: core_pop_path_expect)

lemma array_value_bounded: "array_value p st stack = Ok (st', stack') \<Longrightarrow> bounded st \<Longrightarrow> bounded st'"
proof (erule array_value_cases)
  fix items items' child state st1 f fs
  assume v: "json_value (push_path (scalars_of (decimal (length items))) st) = Ok ((child, state), st1)" and b: "bounded st"
    and o: "opened child state (scalars_of (decimal (length items))) (f \<lparr> frame_at := ArrayComma \<rparr> # fs)
       (st1 \<lparr> nodes := (nodes st1)[p := ArrayNode (items' @ [child])] \<rparr>) = Ok (st', stack')"
  have "bounded st1" using json_value_bounded [OF v] b bounded_core [OF core_simps(3)] by blast
  then have "bounded (st1 \<lparr> nodes := (nodes st1)[p := ArrayNode (items' @ [child])] \<rparr>)" by (simp add: bounded_def)
  then show "bounded st'" using bounded_core [OF opened_core [OF o]] by blast
qed

lemma object_value_bounded: "object_value p st stack = Ok (st', stack') \<Longrightarrow> bounded st \<Longrightarrow> bounded st'"
proof (erule object_value_cases)
  fix f fs key units members members' st1 child state st2
  assume s1: "st1 = (if list_ex (\<lambda>(_, u, _). u = units) members
            then clear_replaced_subtree (pointer_with_child st key) st else st)" and b: "bounded st"
    and v: "json_value (push_path key (note_key (pointer_with_child st key) units st1)) = Ok ((child, state), st2)"
    and o: "opened child state key (f \<lparr> frame_key := None, frame_at := ObjectComma \<rparr> # fs)
       (st2 \<lparr> nodes := (nodes st2)[p := ObjectNode (put_field key units child members')] \<rparr>) = Ok (st', stack')"
  have "core (push_path key (note_key (pointer_with_child st key) units st1)) = core st" by (simp add: s1)
  then have "bounded st2" using json_value_bounded [OF v] b bounded_core by blast
  then have "bounded (st2 \<lparr> nodes := (nodes st2)[p := ObjectNode (put_field key units child members')] \<rparr>)"
    by (simp add: bounded_def)
  then show "bounded st'" using bounded_core [OF opened_core [OF o]] by blast
qed

lemma pop_frame_bounded:
  assumes "pop_frame st stack = Ok (st', stack')" "bounded st" "offset st \<le> length (source st)"
  shows "bounded st'"
proof -
  obtain f fs where s: "stack = f # fs" using assms(1) by (cases stack) (auto simp: pop_frame_def)
  show ?thesis
    using pop_frame_eq(2,7) [OF assms(1) [unfolded s]] assms(2,3) set_update_subset_insert
    by (fastforce simp: bounded_def)
qed

lemma object_key_bounded: "object_key st stack = Ok (st', stack') \<Longrightarrow> bounded st \<Longrightarrow> bounded st'"
  using scan_string_spans scan_string_moves bounded_same unfolding object_key_Ok moves_on_def moves_def by metis

lemma frame_step_bounded:
  assumes "frame_step st stack = Ok (st', stack')" "bounded st" "offset st \<le> length (source st)"
  shows "bounded st'"
proof -
  define w where "w = whitespace st"
  have b: "bounded w" using assms(2) bounded_core [OF core_simps(2)] by (simp add: w_def)
  have wl: "offset w \<le> length (source w)"
    using moves_whitespace [of st] assms(3) by (simp add: moves_def w_def)
  obtain f fs where stack: "stack = f # fs"
    using assms(1) by (auto simp: frame_step_def Let_def split: list.splits)
  note s = assms(1) [unfolded frame_step_def Let_def stack list.case, folded w_def]
  have c: "bounded v \<and> offset v \<le> length (source v)" if "consume x w = (r, v)" for x r v
  proof -
    have "bounded v" using b bounded_core [OF consume_core [OF that]] by blast
    moreover have "moves w v" using stays_consume [of x w v] moves_consume [of x w v] that moves_on_moves by (cases r) auto
    ultimately show ?thesis using wl by (simp add: moves_def)
  qed
  have d: "bounded v'" if "consume x w = (r, v)" "consume y v = (r', v')" for x y r r' v v'
    using c [OF that(1)] bounded_core [OF consume_core [OF that(2)]] by blast
  show ?thesis
    using s b
    by (cases "frame_at f")
      (auto simp: bind_result_Inr dest: array_value_bounded object_value_bounded object_key_bounded c
        pop_frame_bounded d split: prod.splits bool.splits)
qed


lemma document_loop_bounded:
  "document_loop st stack = Ok st' \<Longrightarrow> bounded st \<Longrightarrow> offset st \<le> length (source st) \<Longrightarrow> bounded st'"
proof (induction st stack rule: document_loop.induct)
  case (1 st stack)
  show ?case
  proof (cases "stack = []")
    case True
    then show ?thesis using 1 by (simp add: document_loop.simps)
  next
    case False
    then obtain st1 stack1 where s: "frame_step st stack = Ok (st1, stack1)" "document_loop st1 stack1 = Ok st'"
      using "1.prems" by (subst (asm) document_loop.simps) (auto split: sum.splits prod.splits)
    have "bounded st1" using frame_step_bounded [OF s(1) "1.prems"(2,3)] .
    moreover have "offset st1 \<le> length (source st1)"
      using frame_step_moves [OF s(1)] "1.prems"(3) by (simp add: moves_on_def moves_def)
    ultimately show ?thesis using "1.IH" [OF False s(1) refl s(2)] by blast
  qed
qed

lemma document_bounded:
  assumes "document s = Ok d" "sp \<in> set (doc_node_source_spans d)"
  shows "snd sp \<le> length s"
proof -
  obtain root state st st' where v: "json_value (new_parser s) = Ok ((root, state), st)"
      "document_loop st (first_frame root state) = Ok st'" and d: "doc_node_source_spans d = node_source_spans st'"
    using assms(1) unfolding document_Ok by auto
  have m: "source st = s" "offset st \<le> length s"
    using json_value_moves [OF v(1)] by (auto simp: moves_on_def moves_def)
  have "bounded st" using json_value_bounded [OF v(1)] by (simp add: bounded_def)
  then have "bounded st'" using document_loop_bounded [OF v(2)] m by simp
  moreover have "source st' = s" using document_loop_source [OF v(2)] m by simp
  ultimately show ?thesis using assms(2) d by (auto simp: bounded_def)
qed

lemma value_end:
  assumes "value_text bs t"
  shows "last bs < 0x80"
  using assms
proof (cases rule: value_text.cases)
  case number_value
  have "bs \<noteq> []" using value_start assms by blast
  then show ?thesis using number_ascii [OF number_value(2)] by (simp add: list_all_iff)
qed (auto simp: literal_null_def literal_true_def literal_false_def)

text \<open>After an ASCII byte of valid UTF-8 comes a character.\<close>

lemma valid_utf8_tail:
  assumes "valid_utf8 (a # r)" "Suc j < utf8_width a"
  shows "j < length r \<and> is_cont (r ! j)"
proof -
  have c: "is_cont b" if "second_ok3 a b \<or> second_ok4 a b" for b
  proof -
    have "0x80 \<le> b" if "0x90 \<le> b \<or> 0xA0 \<le> b" using that by (auto simp: word_le_nat_alt)
    moreover have "b \<le> 0xBF" if "b \<le> 0x9F \<or> b \<le> 0x8F" using that by (auto simp: word_le_nat_alt)
    ultimately show ?thesis using that by (auto simp: is_cont_def second_ok3_def second_ok4_def split: if_splits)
  qed
  have w: "utf8_width a = 1 \<or> utf8_width a = Suc 1 \<or> utf8_width a = Suc (Suc 1) \<or> utf8_width a = Suc (Suc (Suc 1)) \<or> utf8_width a = 0"
    by (simp add: utf8_width_def)
  have u: "utf8_error_from 0 (a # r) = None" using assms(1) by (simp add: valid_utf8_def utf8_error_def)
  show ?thesis
    using w
  proof (elim disjE)
    assume "utf8_width a = Suc 1"
    then show ?thesis using u assms(2) by (auto split: list.splits if_splits)
  next
    assume a: "utf8_width a = Suc (Suc 1)"
    then obtain x y r2 where "r = x # y # r2" "is_cont x" "is_cont y"
      using u c by (auto split: list.splits if_splits)
    moreover have "j = 0 \<or> j = Suc 0" using assms(2) a by auto
    ultimately show ?thesis by auto
  next
    assume a: "utf8_width a = Suc (Suc (Suc 1))"
    then obtain x y z r3 where "r = x # y # z # r3" "is_cont x" "is_cont y" "is_cont z"
      using u c by (auto split: list.splits if_splits)
    moreover have "j = 0 \<or> j = Suc 0 \<or> j = Suc (Suc 0)" using assms(2) a by auto
    ultimately show ?thesis by auto
  qed (use assms(2) in simp_all)
qed

lemma after_ascii:
  "valid_utf8 s \<Longrightarrow> Suc j < length s \<Longrightarrow> s ! j < 0x80 \<Longrightarrow> \<not> is_cont (s ! Suc j)"
proof (induction "length s" arbitrary: s j rule: less_induct)
  case less
  then obtain a r where s: "s = a # r" by (cases s) auto
  note v = valid_utf8_first [of a r, folded s, OF less.prems(1)]
  define k where "k = utf8_width a"
  have k: "1 \<le> k" "k \<le> length s" using v(1) next_char_width [of s] by (auto simp: k_def s)
  show ?case
  proof (cases "j < k")
    case True
    have "j = 0"
    proof (rule ccontr)
      assume "j \<noteq> 0"
      then have "is_cont (s ! j)"
        using valid_utf8_tail [of a r "j - 1"] less.prems(1) True by (simp add: s k_def)
      then show False using less.prems(3) by (simp add: is_cont_def word_le_nat_alt word_less_nat_alt)
    qed
    then have "valid_utf8 r" using less.prems(1,3) valid_ascii by (simp add: s)
    then show ?thesis using valid_boundary less.prems(2) \<open>j = 0\<close> by (cases r) (auto simp: s)
  next
    case False
    have "\<not> is_cont (drop k s ! Suc (j - k))"
      using less.hyps [of "drop k s" "j - k"] v(2) less.prems(2,3) False k by (simp add: k_def)
    then show ?thesis using False less.prems(2) by simp
  qed
qed

lemma span_boundaries:
  assumes "valid_utf8 s" "b \<le> length s" "take (b - a) (drop a s) = bs" "value_text bs t"
  shows "str_get s (a, b) = Some bs"
proof -
  have st: "bs \<noteq> []" "\<not> is_cont (hd bs)" "last bs < 0x80" using value_start value_end assms(4) by blast+
  then have ab: "a < b" using assms(3) by (cases "a < b") auto
  then have n: "length bs = b - a" using assms(2,3) by auto
  have "hd bs = s ! a" using ab assms(2) by (simp add: assms(3) [symmetric] hd_conv_nth nth_take del: length_drop)
  then have "is_char_boundary s a" using st(2) ab assms(2) by (simp add: is_char_boundary_def)
  moreover have "last bs = s ! (b - 1)"
    using st(1) ab assms(2) n by (simp add: last_conv_nth assms(3) [symmetric])
  then have "is_char_boundary s b"
    using after_ascii [OF assms(1), of "b - 1"] st(3) ab assms(2) by (auto simp: is_char_boundary_def)
  ultimately show ?thesis using ab assms(3) by (simp add: str_get_def)
qed

lemma node_source:
  assumes "document s = Ok d" "valid_utf8 s" "stands_for s d i t"
  shows "i < length (doc_node_source_spans d)" "str_get s (doc_node_source_spans d ! i) = Some (tree_text t)"
proof -
  note t = tree_at_text [OF assms(3) [unfolded stands_for_def]]
  show i: "i < length (doc_node_source_spans d)"
  proof -
    obtain root state st st' where v: "json_value (new_parser s) = Ok ((root, state), st)"
        "document_loop st (first_frame root state) = Ok st'"
      and d: "doc_node_source_spans d = node_source_spans st'" "doc_nodes d = nodes st'"
      using assms(1) unfolding document_Ok by auto
    have "inv root st' []" using document_loop_sound [OF _ v(2)] first_value_sound [OF v(1)] by blast
    then show ?thesis using t d by (simp add: inv_def sizes_def parser_of_def)
  qed
  obtain a b where ab: "doc_node_source_spans d ! i = (a, b)" by fastforce
  have "b \<le> length s" using document_bounded [OF assms(1) nth_mem [OF i]] ab by simp
  moreover have "node_text (parser_of s d) i = take (b - a) (drop a s)"
    by (simp add: node_text_def text_between_def parser_of_def new_parser_def ab)
  then have "take (b - a) (drop a s) = tree_text t" "value_text (tree_text t) t" using t by metis+
  ultimately show "str_get s (doc_node_source_spans d ! i) = Some (tree_text t)"
    using span_boundaries [OF assms(2)] ab by simp
qed

section \<open>Properties\<close>


text \<open>
  C27. A rejection blames the source: on valid UTF-8 the scanner never panics and never reports
  one of its internal inconsistencies (a missing frame, a node of another kind, a lost path or
  span); every error it returns is one of the messages about the text.
\<close>

theorem rejections_blame_the_source:
  assumes "valid_utf8 s" "document s = Err e"
  shows "about_source e"
  using assms by (rule document_error)

theorem rejections_blame_the_source_witness:
  "valid_utf8 [0x5B, 0x31, 0x2C, 0x5D] \<and> about_source (ScanError ''expected a JSON value'')"
proof -
  have v: "valid_utf8 [0x5B, 0x31, 0x2C, 0x5D]" by (simp add: valid_utf8_def) code_simp
  have "document [0x5B, 0x31, 0x2C, 0x5D] = Err (ScanError ''expected a JSON value'')" by code_simp
  then show ?thesis using v rejections_blame_the_source [OF v] by blast
qed

text \<open>
  C28. Well-typed stacks: when every frame refers to a distinct node of the frame's own kind,
  holds a key wherever its state needs one, and the path has one component per child frame,
  one turn of the scanner's loop on whole characters ends in an error about the source or in
  such a state again.
\<close>

theorem frames_stay_typed:
  assumes "stack_wf st stack" "clean st" "stack \<noteq> []"
  shows "case frame_step st stack of
    Inl e \<Rightarrow> about_source e
  | Inr (st', stack') \<Rightarrow> clean st' \<and> stack_wf st' stack'"
  using frame_step_steady [OF assms] by (simp add: steady_def)

theorem frames_stay_typed_witness:
  "\<exists>st stack st'. clean st \<and> stack_wf st stack \<and> stack = [\<lparr> frame_node = 0, frame_at = FirstArray,
      frame_key = None, path_component = None \<rparr>]
     \<and> frame_step st stack = Ok (st', [(stack ! 0)\<lparr> frame_at := ArrayComma \<rparr>])
     \<and> stack_wf st' [(stack ! 0)\<lparr> frame_at := ArrayComma \<rparr>]"
proof -
  define st where "st = (new_parser [0x5B, 0x31, 0x5D])
    \<lparr> offset := 1, nodes := [ArrayNode []], starts := [0], node_pointers := [[]],
      node_source_spans := [(0, 1)], pointer_nodes := [([], 0)] \<rparr>"
  define stack where "stack = [\<lparr> frame_node = 0, frame_at = FirstArray, frame_key = None, path_component = None \<rparr>]"
  have c: "clean st" by (simp add: clean_def st_def rest_def new_parser_def valid_utf8_def utf8_error_def utf8_width_def)
  have w: "stack_wf st stack"
    by (simp add: stack_wf_def st_def stack_def sizes_def new_parser_def frame_ok_def array_state_def)
  have "case frame_step st stack of
      Inr (_, k) \<Rightarrow> k = [(stack ! 0)\<lparr> frame_at := ArrayComma \<rparr>] | Inl _ \<Rightarrow> False"
    unfolding st_def stack_def by code_simp
  then obtain st' where f: "frame_step st stack = Ok (st', [(stack ! 0)\<lparr> frame_at := ArrayComma \<rparr>])"
    by (auto split: sum.splits)
  have "stack_wf st' [(stack ! 0)\<lparr> frame_at := ArrayComma \<rparr>]"
    using frames_stay_typed [OF w c] f by (simp add: stack_def)
  then show ?thesis using c w f stack_def by blast
qed

end
