(* ===== verification/Exact_Canonical.thy ===== *)
theory Exact_Canonical
  imports Exact_Json Json_Unique "HOL-Library.Multiset"
begin

text \<open>
  The canonical writer against a recursive reference on trees: the loop over the work stack
  returns, writes the text of the canonical tree, and that text is a sentence of the grammar
  with the same strings and keys, unit for unit.  The normalised body of a native generation
  holds no malformed string value.
\<close>

section \<open>The canonical tree\<close>

definition array_text :: "bytes list \<Rightarrow> bytes" where
  "array_text bs = 0x5B # join_with 0x2C bs @ [0x5D]"

definition member_text :: "u16 list \<times> json_tree \<Rightarrow> bytes" where
  "member_text kt = write_json_string_from_utf16 (fst kt) @ 0x3A # tree_text (snd kt)"

definition object_text :: "(u16 list \<times> json_tree) list \<Rightarrow> bytes" where
  "object_text kts = 0x7B # join_with 0x2C (map member_text kts) @ [0x7D]"

definition with_key :: "'k \<times> ('e + 'a) \<Rightarrow> 'e + 'k \<times> 'a" where
  "with_key kr = bind_result (snd kr) (\<lambda>x. Ok (fst kr, x))"

fun canonical :: "write_policy \<Rightarrow> json_tree \<Rightarrow> json_failure + json_tree" where
  "canonical pol (JPrim raw) =
    (if kind_of (Primitive raw) = KindNumber
     then bind_result (write_number (policy_numbers pol) (policy_encoding pol) raw) (\<lambda>b. Ok (JPrim b))
     else Ok (JPrim raw))"
| "canonical pol (JStr b us) =
    (let us = (if normalize_values pol then to_well_formed_utf16 us else us) in
     Ok (JStr (write_json_string_from_utf16 us) us))"
| "canonical pol (JArr b ts) =
    bind_result (collect_results (map (canonical pol) ts)) (\<lambda>ts. Ok (JArr (array_text (map tree_text ts)) ts))"
| "canonical pol (JObj b kts) =
    bind_result
      (collect_results (map with_key
        (ordered_members (policy_encoding pol) (map (\<lambda>(k, t). (k, canonical pol t)) kts))))
      (\<lambda>kts. Ok (JObj (object_text kts) kts))"

section \<open>Key order\<close>

lemma sort_key_map: "sort_key f (map g xs) = map g (sort_key (\<lambda>x. f (g x)) xs)"
proof (induction xs)
  case (Cons x xs)
  have "insort_key f (g x) (map g ys) = map g (insort_key (\<lambda>x. f (g x)) x ys)" for ys
    by (induction ys) auto
  then show ?case using Cons by simp
qed simp

lemma enumerate_map: "List.enumerate n (map f xs) = map (\<lambda>(i, x). (i, f x)) (List.enumerate n xs)"
  by (induction xs arbitrary: n) auto

lemma ordered_members_map:
  "ordered_members enc (map (\<lambda>(k, x). (k, f x)) xs) = map (\<lambda>(k, x). (k, f x)) (ordered_members enc xs)"
proof -
  have r: "(\<lambda>x. (\<lambda>(p, k, _). javascript_rank p k) ((\<lambda>(i, x). (i, (\<lambda>(k, x). (k, f x)) x)) x))
      = (\<lambda>(p, k, _). javascript_rank p k)"
    by (auto simp: fun_eq_iff)
  show ?thesis
    by (cases enc)
      (auto simp: ordered_members_def javascript_order_def enumerate_map sort_key_map r)
qed

lemma mset_ordered_members: "mset (ordered_members enc xs) = mset xs"
proof (cases enc)
  case JavaScript
  have "mset (map snd (sort_key f (List.enumerate 0 xs))) = mset (map snd (List.enumerate 0 xs))"
    for f :: "_ \<Rightarrow> nat \<times> nat \<times> nat"
    by (simp only: mset_map mset_sort)
  then show ?thesis by (simp add: ordered_members_def JavaScript javascript_order_def del: mset_map)
qed (simp add: ordered_members_def)

lemma set_ordered_members: "set (ordered_members enc xs) = set xs"
  using mset_eq_setD [OF mset_ordered_members] .

section \<open>What a part of the stack writes\<close>

definition writes :: "write_policy \<Rightarrow> flat_document \<Rightarrow> work list \<Rightarrow> json_failure + bytes \<Rightarrow> bool" where
  "writes pol d chunk r \<longleftrightarrow>
    (\<forall>out jobs. write_loop pol d [] out (chunk @ jobs) =
      (case r of Inl e \<Rightarrow> Some (Err e) | Inr b \<Rightarrow> write_loop pol d [] (out @ b) jobs))"

lemma writes_steps:
  "writes pol d [WorkByte b] (Ok [b])"
  "writes pol d [WorkString us] (Ok (write_json_string_from_utf16 us))"
  "writes pol d [] (Ok [])"
  by (simp_all add: writes_def write_loop.simps)

lemma writes_append:
  assumes "writes pol d c1 r1" "writes pol d c2 r2"
  shows "writes pol d (c1 @ c2) (bind_result r1 (\<lambda>b1. bind_result r2 (\<lambda>b2. Ok (b1 @ b2))))"
  using assms by (cases r1; cases r2) (simp_all add: writes_def)

lemma writes_Cons:
  assumes "writes pol d [w] r1" "writes pol d c2 r2"
  shows "writes pol d (w # c2) (bind_result r1 (\<lambda>b1. bind_result r2 (\<lambda>b2. Ok (b1 @ b2))))"
  using writes_append [OF assms] by simp

lemma collect_results_cases:
  "collect_results (r # rs) = bind_result r (\<lambda>x. bind_result (collect_results rs) (\<lambda>xs. Ok (x # xs)))"
  by simp

lemma writes_join:
  "list_all2 (writes pol d) chunks rs \<Longrightarrow>
    writes pol d (join_with (WorkByte b) chunks)
      (bind_result (collect_results rs) (\<lambda>bs. Ok (join_with b bs)))"
proof (induction "WorkByte b" chunks arbitrary: rs rule: join_with.induct)
  case 1
  then show ?case by (simp add: writes_steps)
next
  case (2 c)
  then obtain r where "rs = [r]" "writes pol d c r" by (auto simp: list_all2_Cons1)
  then show ?case by (cases r) auto
next
  case (3 c c' cs)
  then obtain r r' rs' where rs: "rs = r # r' # rs'" "writes pol d c r" "list_all2 (writes pol d) (c' # cs) (r' # rs')"
    by (auto simp: list_all2_Cons1)
  note W = writes_append [OF rs(2) writes_Cons [OF writes_steps(1) [of pol d b] "3.hyps" [OF rs(3)]]]
  show ?case
    using W by (cases r; cases r'; cases "collect_results rs'") (simp_all add: rs(1))
qed

lemma node_of_doc: "nodes (parser_of s d) ! i = node_of d i"
  by (simp_all add: parser_of_def node_of_def)

lemma exact_of_doc [simp]: "node_exact_strings (parser_of s d) = doc_node_exact_strings d"
  by (simp add: parser_of_def)

lemma write_loop_node:
  "write_loop pol d overlays out (WorkNode i # jobs) =
    (case node_work pol d overlays i of
       Inl e \<Rightarrow> Some (Err e)
     | Inr (b, overlays, new) \<Rightarrow> write_loop pol d overlays (out @ b) (new @ jobs))"
  by (subst write_loop.simps) simp

lemma write_loop_nil: "write_loop pol d overlays out [] = Some (Ok out)"
  by (subst write_loop.simps) simp

lemma writes_node_work:
  assumes "node_work pol d [] i = (case r of Inl e \<Rightarrow> Err e | Inr b \<Rightarrow> Ok (b, [], []))"
  shows "writes pol d [WorkNode i] r"
  using assms by (cases r) (simp_all add: writes_def write_loop_node)

lemma writes_children:
  assumes "node_work pol d [] i = Ok ([], [], chunk)" "writes pol d chunk r"
  shows "writes pol d [WorkNode i] r"
  using assms by (simp add: writes_def write_loop_node)

lemma string_units_at_node:
  assumes "node_of d i = StringNode (from_utf16_lossy us)" "map_of (doc_node_exact_strings d) i = exact_units us"
  shows "string_units d i = Some us"
  using assms valid_encode by (simp add: string_units_def node_string_def exact_units_def split: if_splits)

definition tree_bytes :: "json_failure + json_tree \<Rightarrow> json_failure + bytes" where
  "tree_bytes r = bind_result r (\<lambda>t. Ok (tree_text t))"

lemma collect_tree_bytes:
  "collect_results (map tree_bytes rs) = bind_result (collect_results rs) (\<lambda>ts. Ok (map tree_text ts))"
proof (induction rs)
  case (Cons r rs)
  then show ?case by (cases r; cases "collect_results rs") (simp_all add: tree_bytes_def)
qed simp

definition member_bytes :: "u16 list \<times> (json_failure + json_tree) \<Rightarrow> json_failure + bytes" where
  "member_bytes kr = bind_result (with_key kr) (\<lambda>kt. Ok (member_text kt))"

lemma collect_member_bytes:
  "collect_results (map member_bytes krs) = bind_result (collect_results (map with_key krs)) (\<lambda>kts. Ok (map member_text kts))"
proof (induction krs)
  case (Cons kr krs)
  then show ?case
    by (cases "with_key kr"; cases "collect_results (map with_key krs)") (simp_all add: member_bytes_def)
qed simp

lemma overlay_members_none: "overlay_members ms [] = map (\<lambda>(k, i). (k, WorkNode i)) ms"
  by (induction ms) auto

lemma writes_member:
  assumes "writes pol d [WorkNode i] (tree_bytes r)"
  shows "writes pol d (member_work (k, WorkNode i)) (member_bytes (k, r))"
  using writes_Cons [OF writes_steps(2) [of pol d k] writes_Cons [OF writes_steps(1) [of pol d "0x3A"] assms]]
  by (cases r) (simp_all add: member_work_def tree_bytes_def member_bytes_def with_key_def member_text_def)

lemma writes_bracketed:
  assumes "list_all2 (writes pol d) chunks rs"
  shows "writes pol d (WorkByte a # join_with (WorkByte 0x2C) chunks @ [WorkByte z])
    (bind_result (collect_results rs) (\<lambda>bs. Ok (a # join_with 0x2C bs @ [z])))"
  using writes_Cons [OF writes_steps(1) [of pol d a] writes_append [OF writes_join [OF assms] writes_steps(1) [of pol d z]]]
  by (cases "collect_results rs") simp_all

lemma writes_tree:
  assumes "tree_at (parser_of s d) {} i t" "string_overrides pol = []"
  shows "writes pol d [WorkNode i] (tree_bytes (canonical pol t))"
  using assms(1)
proof (induction rule: tree_at.induct)
  case (at_prim i)
  let ?raw = "node_text (parser_of s d) i"
  have n: "node_of d i = Primitive ?raw" using at_prim by (simp only: node_of_doc)
  show ?case
    by (rule writes_node_work, cases "write_number (policy_numbers pol) (policy_encoding pol) ?raw")
      (auto simp: node_work_def node_kind_def n primitive_source_def number_source_def missing_part_def
        tree_bytes_def split: sum.split)
next
  case (at_str i us)
  have u: "string_units d i = Some us" using at_str by (intro string_units_at_node) (simp_all only: node_of_doc exact_of_doc)
  have n: "node_of d i = StringNode (from_utf16_lossy us)" using at_str by (simp only: node_of_doc)
  show ?case
    by (intro writes_node_work)
      (simp add: node_work_def node_kind_def n u missing_part_def assms(2) tree_bytes_def Let_def)
next
  case (at_arr i items ts)
  have n: "node_of d i = ArrayNode items" using at_arr by (simp only: node_of_doc)
  have "list_all2 (writes pol d) (map (\<lambda>j. [WorkNode j]) items) (map tree_bytes (map (canonical pol) ts))"
    using at_arr.IH by (auto simp: list_all2_map1 list_all2_map2 elim: list_all2_mono)
  from writes_bracketed [OF this, of "0x5B" "0x5D"]
  have "writes pol d (WorkByte 0x5B # join_with (WorkByte 0x2C) (map (\<lambda>j. [WorkNode j]) items) @ [WorkByte 0x5D])
      (tree_bytes (canonical pol (JArr b ts)))" for b
    by (cases "collect_results (map (canonical pol) ts)")
      (simp_all add: collect_tree_bytes [of "map (canonical pol) ts", simplified] tree_bytes_def array_text_def)
  then show ?case
    by (intro writes_children) (simp_all add: node_work_def node_kind_def n node_array_def missing_part_def)
next
  case (at_obj i members kts)
  have n: "node_of d i = ObjectNode members" using at_obj by (simp only: node_of_doc)
  define z where "z = map (\<lambda>(m, kt). (fst kt, snd (snd m), snd kt)) (zip members kts)"
  have l: "list_all2 (\<lambda>m kt. fst (snd m) = fst kt \<and> writes pol d [WorkNode (snd (snd m))] (tree_bytes (canonical pol (snd kt)))) members kts"
    using at_obj.IH by (rule list_all2_mono) auto
  have zm: "map snd members = map (\<lambda>(k, x). (k, fst x)) z" "kts = map (\<lambda>(k, x). (k, snd x)) z"
    and zw: "\<forall>(k, i, t) \<in> set z. writes pol d [WorkNode i] (tree_bytes (canonical pol t))"
    using l unfolding z_def by (induction rule: list_all2_induct) auto
  let ?enc = "policy_encoding pol"
  define y where "y = ordered_members ?enc z"
  have yw: "\<forall>(k, i, t) \<in> set y. writes pol d [WorkNode i] (tree_bytes (canonical pol t))"
    using zw by (simp add: y_def set_ordered_members)
  have chunks: "ordered_members ?enc (overlay_members (map snd members) []) = map (\<lambda>(k, x). (k, WorkNode (fst x))) y"
    using ordered_members_map [of ?enc "\<lambda>x. WorkNode (fst x)" z]
    by (simp add: overlay_members_none zm(1) y_def comp_def case_prod_beta')
  have trees: "ordered_members ?enc (map (\<lambda>(k, t). (k, canonical pol t)) kts) = map (\<lambda>(k, x). (k, canonical pol (snd x))) y"
    using ordered_members_map [of ?enc "\<lambda>x. canonical pol (snd x)" z]
    by (simp add: zm(2) y_def comp_def case_prod_beta')
  have "list_all2 (writes pol d) (map member_work (map (\<lambda>(k, x). (k, WorkNode (fst x))) y))
      (map member_bytes (map (\<lambda>(k, x). (k, canonical pol (snd x))) y))"
    using yw by (induction y) (auto intro!: writes_member)
  from writes_bracketed [OF this, of "0x7B" "0x7D"]
  have "writes pol d (WorkByte 0x7B # join_with (WorkByte 0x2C)
      (map member_work (map (\<lambda>(k, x). (k, WorkNode (fst x))) y)) @ [WorkByte 0x7D])
      (tree_bytes (canonical pol (JObj b kts)))" for b
    unfolding collect_member_bytes canonical.simps trees tree_bytes_def
    by (cases "collect_results (map with_key (map (\<lambda>(k, x). (k, canonical pol (snd x))) y))")
      (simp_all add: object_text_def)
  then show ?case
    by (intro writes_children) (simp_all add: node_work_def node_kind_def n object_entries_def missing_part_def chunks)
qed

section \<open>The canonical text is JSON\<close>

fun well_tree :: "json_tree \<Rightarrow> bool" where
  "well_tree (JPrim raw) \<longleftrightarrow> raw = literal_null \<or> raw = literal_true \<or> raw = literal_false \<or> number_text raw"
| "well_tree (JStr b us) \<longleftrightarrow> True"
| "well_tree (JArr b ts) \<longleftrightarrow> list_all well_tree ts"
| "well_tree (JObj b kts) \<longleftrightarrow> distinct (map fst kts) \<and> list_all (\<lambda>kt. well_tree (snd kt)) kts"

definition well_members :: "(u16 list \<times> json_tree) list \<Rightarrow> bool" where
  "well_members kts \<longleftrightarrow> distinct (map fst kts) \<and> list_all (\<lambda>kt. well_tree (snd kt)) kts"

lemma keys_put_member: "set (map fst (put_member k t kts)) = insert k (set (map fst kts))"
  by (induction k t kts rule: put_member.induct) auto

lemma well_put_member: "well_members kts \<Longrightarrow> well_tree t \<Longrightarrow> well_members (put_member k t kts)"
proof (induction k t kts rule: put_member.induct)
  case (2 k t k' t' r)
  then show ?case using keys_put_member [of k t r] by (auto simp: well_members_def)
qed (simp add: well_members_def)

lemma value_text_well:
  "value_text b t \<Longrightarrow> well_tree t"
  "elements_text b ts \<Longrightarrow> list_all well_tree ts"
  "members_text b kts \<Longrightarrow> well_members kts"
proof (induction rule: value_text_elements_text_members_text.inducts)
  case (next_member ms kts w cs k v v' bs t w')
  then show ?case by (intro well_put_member)
qed (auto simp: well_members_def)

definition numbers_ok :: "json_numbers \<Rightarrow> json_encoding \<Rightarrow> bool" where
  "numbers_ok nums enc \<longleftrightarrow>
    (\<forall>raw b. number_text raw \<longrightarrow> write_number nums enc raw = Ok b \<longrightarrow> number_text b \<or> b = literal_null)"

definition sentence :: "json_tree \<Rightarrow> bool" where
  "sentence t \<longleftrightarrow> value_text (tree_text t) t \<and> (\<forall>r. valid_utf8 r \<longrightarrow> valid_utf8 (tree_text t @ r))"

lemma join_snoc: "join_with c (xs @ [x]) = (if xs = [] then x else join_with c xs @ c # x)"
  by (induction c xs rule: join_with.induct) auto

lemma elements_join:
  "ts \<noteq> [] \<Longrightarrow> list_all sentence ts \<Longrightarrow> elements_text (join_with 0x2C (map tree_text ts)) ts"
proof (induction ts rule: rev_induct)
  case (snoc t ts)
  have v: "value_text (tree_text t) t" using snoc.prems by (simp add: sentence_def)
  show ?case
  proof (cases "ts = []")
    case True
    then show ?thesis using first_element [of "[]" _ t "[]"] v by simp
  next
    case False
    then have "elements_text (join_with 0x2C (map tree_text ts)) ts" using snoc by simp
    then show ?thesis
      using next_element [of _ ts "[]" "tree_text t" t "[]"] v False by (simp add: join_snoc)
  qed
qed simp

lemma put_member_new: "k \<notin> set (map fst kts) \<Longrightarrow> put_member k t kts = kts @ [(k, t)]"
  by (induction kts) auto

lemma members_join:
  "kts \<noteq> [] \<Longrightarrow> distinct (map fst kts) \<Longrightarrow> list_all (\<lambda>kt. sentence (snd kt)) kts \<Longrightarrow>
    members_text (join_with 0x2C (map member_text kts)) kts"
proof (induction kts rule: rev_induct)
  case (snoc kt kts)
  obtain k t where kt: "kt = (k, t)" by (cases kt)
  have v: "value_text (tree_text t) t" using snoc.prems by (simp add: sentence_def kt)
  have m: "member_text kt = 0x22 # write_units k @ 0x22 # 0x3A # tree_text t"
    by (simp add: kt member_text_def write_json_string_from_utf16_def)
  show ?case
  proof (cases "kts = []")
    case True
    then show ?thesis
      using first_member [of "[]" "write_units k" k "[]" "[]" "tree_text t" t "[]"] units_written v m kt by simp
  next
    case False
    then have "members_text (join_with 0x2C (map member_text kts)) kts" using snoc by simp
    then have "members_text (join_with 0x2C (map member_text kts) @ 0x2C # member_text kt) (put_member k t kts)"
      using next_member [of _ kts "[]" "write_units k" k "[]" "[]" "tree_text t" t "[]"] units_written v m by simp
    then show ?thesis
      using snoc.prems False by (simp add: join_snoc kt put_member_new)
  qed
qed simp

definition passes_utf8 :: "bytes \<Rightarrow> bool" where
  "passes_utf8 bs \<longleftrightarrow> (\<forall>r. valid_utf8 r \<longrightarrow> valid_utf8 (bs @ r))"

lemma passes_utf8_simps:
  "passes_utf8 []" "passes_utf8 a \<Longrightarrow> passes_utf8 b \<Longrightarrow> passes_utf8 (a @ b)"
  "x < 0x80 \<Longrightarrow> passes_utf8 b \<Longrightarrow> passes_utf8 (x # b)"
  by (simp_all add: passes_utf8_def valid_utf8_Cons utf8_width_def)

lemma passes_join: "list_all passes_utf8 bs \<Longrightarrow> c < 0x80 \<Longrightarrow> passes_utf8 (join_with c bs)"
  by (induction c bs rule: join_with.induct) (auto intro!: passes_utf8_simps)

lemma sentence_alt: "sentence t \<longleftrightarrow> value_text (tree_text t) t \<and> passes_utf8 (tree_text t)"
  by (simp add: sentence_def passes_utf8_def)

lemma literal_ascii:
  "raw = literal_null \<or> raw = literal_true \<or> raw = literal_false \<Longrightarrow> list_all (\<lambda>b. b < 0x80) raw"
  by (auto simp: literal_null_def literal_true_def literal_false_def)

lemma prim_sentence: "raw = literal_null \<or> raw = literal_true \<or> raw = literal_false \<or> number_text raw \<Longrightarrow> sentence (JPrim raw)"
  using literal_ascii number_ascii
  by (auto simp: sentence_def intro: literal_value number_value ascii_pass)

lemma array_sentence:
  assumes "list_all sentence ts"
  shows "sentence (JArr (array_text (map tree_text ts)) ts)"
proof -
  have "passes_utf8 (array_text (map tree_text ts))"
    using assms unfolding array_text_def
    by (intro passes_utf8_simps passes_join) (auto simp: list_all_iff sentence_alt)
  moreover have "value_text (array_text (map tree_text ts)) (JArr (array_text (map tree_text ts)) ts)"
  proof (cases "ts = []")
    case False
    then show ?thesis using full_array [OF elements_join [OF False assms]] by (simp add: array_text_def)
  qed (simp add: array_text_def empty_array [of "[]"])
  ultimately show ?thesis by (simp add: sentence_alt)
qed

lemma object_sentence:
  assumes "distinct (map fst kts)" "list_all (\<lambda>kt. sentence (snd kt)) kts"
  shows "sentence (JObj (object_text kts) kts)"
proof -
  have "passes_utf8 (member_text kt)" if "kt \<in> set kts" for kt
    using assms(2) that string_written_utf8 unfolding member_text_def
    by (intro passes_utf8_simps) (auto simp: list_all_iff sentence_alt passes_utf8_def)
  then have "passes_utf8 (object_text kts)"
    unfolding object_text_def by (intro passes_utf8_simps passes_join) (auto simp: list_all_iff)
  moreover have "value_text (object_text kts) (JObj (object_text kts) kts)"
  proof (cases "kts = []")
    case False
    then show ?thesis using full_object [OF members_join [OF False assms]] by (simp add: object_text_def)
  qed (simp add: object_text_def empty_object [of "[]"])
  ultimately show ?thesis by (simp add: sentence_alt)
qed

lemma with_key_Ok: "collect_results (map with_key krs) = Ok kts \<Longrightarrow> krs = map (\<lambda>(k, t). (k, Ok t)) kts"
  by (induction krs arbitrary: kts) (auto simp: bind_result_Inr with_key_def split: prod.splits)

lemma canonical_sentence:
  "well_tree t \<Longrightarrow> numbers_ok (policy_numbers pol) (policy_encoding pol) \<Longrightarrow> canonical pol t = Ok t' \<Longrightarrow> sentence t'"
proof (induction pol t arbitrary: t' rule: canonical.induct)
  case (1 pol raw)
  then show ?case
    by (auto simp: bind_result_Inr numbers_ok_def split: if_splits intro: prim_sentence)
next
  case (2 pol b us)
  then show ?case
    using string_written string_written_utf8 by (auto simp: Let_def sentence_def)
next
  case (3 pol b ts)
  then obtain us where us: "collect_results (map (canonical pol) ts) = Ok us" "t' = JArr (array_text (map tree_text us)) us"
    by (auto simp: bind_result_Inr)
  have "map (canonical pol) ts = map Inr us" using collect_results_Ok [OF us(1)] .
  then have "sentence u" if "u \<in> set us" for u
  proof -
    have "Ok u \<in> set (map (canonical pol) ts)" using that \<open>map (canonical pol) ts = map Inr us\<close> by simp
    then obtain t where "t \<in> set ts" "canonical pol t = Ok u" by auto
    then show ?thesis using "3.IH" [of t] "3.prems"(1,2) by (auto simp: list_all_iff)
  qed
  then have "list_all sentence us" by (simp add: list_all_iff)
  then show ?case using array_sentence us(2) by simp
next
  case (4 pol b kts)
  let ?enc = "policy_encoding pol"
  obtain us where us: "collect_results (map with_key
      (ordered_members ?enc (map (\<lambda>(k, t). (k, canonical pol t)) kts))) = Ok us" "t' = JObj (object_text us) us"
    using "4.prems"(3) by (auto simp: bind_result_Inr)
  have eq: "map (\<lambda>(k, t). (k, canonical pol t)) (ordered_members ?enc kts) = map (\<lambda>(k, t). (k, Ok t)) us"
    using with_key_Ok [OF us(1)] by (simp add: ordered_members_map)
  have keys: "map fst us = map fst (ordered_members ?enc kts)"
    using arg_cong [OF eq, of "map fst"] by (simp add: comp_def case_prod_beta')
  have "mset (map fst (ordered_members ?enc kts)) = mset (map fst kts)"
    using mset_ordered_members by (metis mset_map)
  then have d: "distinct (map fst us)"
    using "4.prems"(1) unfolding keys by (metis mset_eq_imp_distinct_iff well_tree.simps(4))
  have "sentence u" if "(k, u) \<in> set us" for k u
  proof -
    have "(k, Ok u) \<in> set (map (\<lambda>(k, t). (k, canonical pol t)) (ordered_members ?enc kts))"
      using that unfolding eq by force
    then obtain t where "(k, t) \<in> set kts" "canonical pol t = Ok u"
      by (auto simp: set_ordered_members)
    then show ?thesis using "4.IH" [of "(k, t)" k t u] "4.prems"(1,2) by (auto simp: list_all_iff)
  qed
  then have "list_all (\<lambda>kt. sentence (snd kt)) us" by (auto simp: list_all_iff)
  then show ?case using object_sentence [OF d] us(2) by simp
qed

section \<open>Malformed values\<close>

fun values_valid :: "json_tree \<Rightarrow> bool" where
  "values_valid (JPrim b) \<longleftrightarrow> True"
| "values_valid (JStr b us) \<longleftrightarrow> utf16_valid us"
| "values_valid (JArr b ts) \<longleftrightarrow> list_all values_valid ts"
| "values_valid (JObj b kts) \<longleftrightarrow> list_all (\<lambda>kt. values_valid (snd kt)) kts"

definition checks :: "flat_document \<Rightarrow> nat \<Rightarrow> json_tree \<Rightarrow> bool" where
  "checks d i t \<longleftrightarrow>
    (\<forall>pending. malformed_loop d (i # pending) = (if values_valid t then malformed_loop d pending else Some (Ok True)))"

lemma malformed_loop_node:
  "malformed_loop d (i # pending) =
    (if node_kind d i = KindString then
       (case string_units d i of
          None \<Rightarrow> Some (Err (invalid_request ''flat JSON string has no decoded UTF-16 units''))
        | Some us \<Rightarrow> if \<not> utf16_valid us then Some (Ok True) else malformed_loop d pending)
     else malformed_loop d (pending_children d i @ pending))"
  by (subst malformed_loop.simps) simp

lemma malformed_loop_nil: "malformed_loop d [] = Some (Ok False)"
  by (subst malformed_loop.simps) simp

lemma checks_list:
  "list_all2 (checks d) is ts \<Longrightarrow>
    malformed_loop d (is @ pending) = (if list_all values_valid ts then malformed_loop d pending else Some (Ok True))"
  by (induction rule: list_all2_induct) (simp_all add: checks_def)

lemma checks_children:
  assumes "node_kind d i \<noteq> KindString" "pending_children d i = rev is" "list_all2 (checks d) is ts"
    "values_valid t \<longleftrightarrow> list_all values_valid ts"
  shows "checks d i t"
  using checks_list [OF list_all2_rev [THEN iffD2, OF assms(3)]] assms(1,2,4)
  by (simp add: checks_def malformed_loop_node list_all_iff)

lemma checks_tree: "tree_at (parser_of s d) {} i t \<Longrightarrow> checks d i t"
proof (induction rule: tree_at.induct)
  case (at_prim i)
  then have "node_of d i = Primitive (node_text (parser_of s d) i)" by (simp only: node_of_doc)
  then show ?case by (intro checks_children [of _ _ "[]" "[]"]) (auto simp: node_kind_def pending_children_def)
next
  case (at_str i us)
  have n: "node_of d i = StringNode (from_utf16_lossy us)" using at_str by (simp only: node_of_doc)
  have u: "string_units d i = Some us"
    using at_str by (intro string_units_at_node) (simp_all only: node_of_doc exact_of_doc)
  show ?case by (simp add: checks_def malformed_loop_node node_kind_def n u)
next
  case (at_arr i items ts)
  have n: "node_of d i = ArrayNode items" using at_arr by (simp only: node_of_doc)
  have "list_all2 (checks d) items ts" by (rule list_all2_mono [OF at_arr.IH]) blast
  then show ?case
    by (rule checks_children [rotated 2]) (simp_all add: node_kind_def pending_children_def n)
next
  case (at_obj i members kts)
  have n: "node_of d i = ObjectNode members" using at_obj by (simp only: node_of_doc)
  have "list_all2 (\<lambda>m kt. checks d (snd (snd m)) (snd kt)) members kts"
    by (rule list_all2_mono [OF at_obj.IH]) blast
  then have "list_all2 (checks d) (map (\<lambda>m. snd (snd m)) members) (map snd kts)"
    by (simp add: list_all2_map1 list_all2_map2)
  then show ?case
    by (rule checks_children [rotated 2])
      (simp_all add: node_kind_def pending_children_def n case_prod_beta' list_all_iff)
qed

lemma canonical_values:
  "normalize_values pol \<Longrightarrow> canonical pol t = Ok t' \<Longrightarrow> values_valid t'"
proof (induction pol t arbitrary: t' rule: canonical.induct)
  case (1 pol raw)
  then show ?case by (auto simp: bind_result_Inr split: if_splits)
next
  case (2 pol b us)
  then show ?case using replace_lone_valid by (auto simp: Let_def to_well_formed_utf16_def)
next
  case (3 pol b ts)
  then obtain us where us: "collect_results (map (canonical pol) ts) = Ok us" "t' = JArr (array_text (map tree_text us)) us"
    by (auto simp: bind_result_Inr)
  have "values_valid u" if "u \<in> set us" for u
  proof -
    have "Ok u \<in> set (map (canonical pol) ts)" using that collect_results_Ok [OF us(1)] by simp
    then show ?thesis using "3.IH" "3.prems"(1) by auto
  qed
  then show ?case using us(2) by (simp add: list_all_iff)
next
  case (4 pol b kts)
  let ?enc = "policy_encoding pol"
  obtain us where us: "collect_results (map with_key
      (ordered_members ?enc (map (\<lambda>(k, t). (k, canonical pol t)) kts))) = Ok us" "t' = JObj (object_text us) us"
    using "4.prems"(2) by (auto simp: bind_result_Inr)
  have "values_valid u" if "(k, u) \<in> set us" for k u
  proof -
    have "(k, Ok u) \<in> set (ordered_members ?enc (map (\<lambda>(k, t). (k, canonical pol t)) kts))"
      using that unfolding with_key_Ok [OF us(1)] by force
    then obtain t where "(k, t) \<in> set kts" "canonical pol t = Ok u" by (auto simp: set_ordered_members)
    then show ?thesis using "4.IH" [of "(k, t)" k t u] "4.prems"(1) by auto
  qed
  then show ?case using us(2) by (auto simp: list_all_iff)
qed

lemma collect_results_total: "(\<And>r. r \<in> set rs \<Longrightarrow> \<exists>x. r = Ok x) \<Longrightarrow> \<exists>xs. collect_results rs = Ok xs"
proof (induction rs)
  case (Cons r rs)
  then obtain x xs where "r = Ok x" "collect_results rs = Ok xs" by (meson list.set_intros)
  then show ?case by simp
qed simp

lemma javascript_total: "policy_encoding pol = JavaScript \<Longrightarrow> \<exists>t'. canonical pol t = Ok t'"
proof (induction pol t rule: canonical.induct)
  case (1 pol raw)
  then show ?case by (simp add: write_number_def Let_def)
next
  case (3 pol b ts)
  have "\<exists>us. collect_results (map (canonical pol) ts) = Ok us"
    by (rule collect_results_total) (use 3 in auto)
  then show ?case by auto
next
  case (4 pol b kts)
  have "\<exists>us. collect_results (map with_key
      (ordered_members (policy_encoding pol) (map (\<lambda>(k, t). (k, canonical pol t)) kts))) = Ok us"
    by (rule collect_results_total) (use 4 in \<open>fastforce simp: set_ordered_members with_key_def\<close>)
  then show ?case by auto
qed (auto simp: Let_def)

section \<open>Properties\<close>

lemma parse_scanner_Ok:
  "parse_scanner s m = Ok sc \<longleftrightarrow> valid_utf8 s \<and> document s = Ok (scanned sc) \<and> scanned_source sc = s"
  by (cases sc; cases "utf8_error s") (auto simp: parse_scanner_def valid_utf8_def bind_result_Inr map_err_Inr)

lemma parse_reads:
  assumes "json_text s t" "valid_utf8 s"
  shows "\<exists>sc. parse_scanner s m = Ok sc \<and> stands_for s (scanned sc) (root_node sc) t"
proof -
  obtain d where "document s = Ok d" "stands_for s d (doc_root d) t" using document_reads [OF assms(1)] by blast
  then show ?thesis
    using assms(2)
    by (intro exI [of _ "\<lparr> scanned_source = s, scanned = d \<rparr>"]) (simp add: parse_scanner_Ok root_node_def)
qed

lemma sentence_text: "sentence t \<Longrightarrow> json_text (tree_text t) t \<and> valid_utf8 (tree_text t)"
proof
  assume s: "sentence t"
  then show "json_text (tree_text t) t"
    unfolding json_text_def sentence_def by (intro exI [of _ "[]"] exI [of _ "tree_text t"]) simp
  have "valid_utf8 []" by (simp add: valid_utf8_def utf8_error_def)
  then have "valid_utf8 (tree_text t @ [])" using s unfolding sentence_def by blast
  then show "valid_utf8 (tree_text t)" by simp
qed

lemma serialize_tree:
  assumes "stands_for s d i t" "string_overrides pol = []" "numbers_ok (policy_numbers pol) (policy_encoding pol)"
    "json_text s' t"
  shows "serialize_json_node_with_policy pol d i [] = Some (tree_bytes (canonical pol t))"
proof -
  have "well_tree t" using assms(4) value_text_well(1) by (auto simp: json_text_def)
  then have v: "valid_utf8 (tree_text t')" if "canonical pol t = Ok t'" for t'
    using sentence_text [OF canonical_sentence [OF _ assms(3) that]] by blast
  have L: "write_loop pol d [] [] [WorkNode i] =
      (case tree_bytes (canonical pol t) of Inl e \<Rightarrow> Some (Err e) | Inr b \<Rightarrow> write_loop pol d [] b [])"
    using writes_tree [OF assms(1) [unfolded stands_for_def] assms(2), unfolded writes_def, THEN spec, THEN spec,
        of "[]" "[]"]
    unfolding append_Nil append_Cons .
  show ?thesis
  proof (cases "canonical pol t")
    case (Inl e)
    then show ?thesis using L by (simp add: serialize_json_node_with_policy_def tree_bytes_def)
  next
    case (Inr t')
    have "utf8_error (tree_text t') = None" using v [OF Inr] by (simp add: valid_utf8_def)
    then show ?thesis
      using L Inr by (simp add: serialize_json_node_with_policy_def tree_bytes_def write_loop_nil checked_utf8_def)
  qed
qed

text \<open>
  C12. Exact strings survive the wire: for every sequence of UTF-16 units, paired or not, the
  JSON string the writer emits is scanned back to one string node whose exact units are that
  sequence.
\<close>

theorem written_units_read_back:
  "\<exists>sc. parse_scanner (write_json_string_from_utf16 us) m = Ok sc
     \<and> node_kind (scanned sc) (root_node sc) = KindString
     \<and> string_units (scanned sc) (root_node sc) = Some us"
proof -
  let ?s = "write_json_string_from_utf16 us"
  have s: "sentence (JStr ?s us)" using string_written string_written_utf8 by (simp add: sentence_def)
  then have "json_text ?s (JStr ?s us)" "valid_utf8 ?s" using sentence_text [OF s] by simp_all
  then obtain sc where sc: "parse_scanner ?s m = Ok sc" "stands_for ?s (scanned sc) (root_node sc) (JStr ?s us)"
    using parse_reads by blast
  have "node_of (scanned sc) (root_node sc) = StringNode (from_utf16_lossy us)
      \<and> map_of (doc_node_exact_strings (scanned sc)) (root_node sc) = exact_units us"
    using sc(2) unfolding stands_for_def by (cases rule: tree_at.cases) (simp_all only: node_of_doc exact_of_doc)
  then show ?thesis using sc(1) string_units_at_node by (auto simp: node_kind_def)
qed

text \<open>
  C5. The canonical writer refines its recursive reference: on a scanned source the loop over
  the work stack returns, with the error or with the text of the canonical tree of the sentence
  (same strings and keys, unit for unit, members in the order of the encoding, numbers through
  the formatter); that text is again a sentence, with that canonical tree.
\<close>

theorem canonical_writer:
  assumes "json_text s t" "valid_utf8 s" "numbers_ok nums enc"
  shows "\<exists>sc. parse_scanner s m = Ok sc
    \<and> serialize_json_node nums enc (scanned sc) (root_node sc) =
        Some (case canonical (plain_policy nums enc) t of Inl e \<Rightarrow> Err e | Inr t' \<Rightarrow> Ok (tree_text t'))
    \<and> (case canonical (plain_policy nums enc) t of Inl e \<Rightarrow> True | Inr t' \<Rightarrow> json_text (tree_text t') t')"
proof -
  obtain sc where sc: "parse_scanner s m = Ok sc" "stands_for s (scanned sc) (root_node sc) t"
    using parse_reads [OF assms(1,2)] by blast
  let ?p = "plain_policy nums enc"
  have p: "string_overrides ?p = []" "numbers_ok (policy_numbers ?p) (policy_encoding ?p)"
    using assms(3) by (simp_all add: plain_policy_def)
  have "well_tree t" using assms(1) value_text_well(1) by (auto simp: json_text_def)
  then have "json_text (tree_text t') t'" if "canonical ?p t = Ok t'" for t'
    using sentence_text [OF canonical_sentence [OF _ p(2) that]] by blast
  then show ?thesis
    using sc(1) serialize_tree [OF sc(2) p assms(1)]
    by (intro exI [of _ sc])
      (auto simp: serialize_json_node_def serialize_json_node_with_fields_def tree_bytes_def split: sum.split)
qed

text \<open>A formatter that prints every number as the digit one, for the concrete instances.\<close>

definition unit_numbers :: json_numbers where
  "unit_numbers = \<lparr> serde_number = (\<lambda>raw. Ok [0x31]), javascript_number = (\<lambda>x. [0x31]) \<rparr>"

lemma one_number: "number_text [0x31]"
  unfolding number_text_def
  by (intro exI [of _ "[]"] exI [of _ "[0x31]"])
    (simp add: int_text_def digit_run_def is_ascii_digit_def frac_text_def exp_text_def)

lemma unit_numbers_ok: "numbers_ok unit_numbers enc"
  by (cases enc) (auto simp: numbers_ok_def unit_numbers_def write_number_def Let_def one_number map_err_Inr split: if_splits)

lemma one_element: "value_text b t \<Longrightarrow> json_text (0x5B # b @ [0x5D]) (JArr (0x5B # b @ [0x5D]) [t])"
proof -
  assume "value_text b t"
  then have "value_text (0x5B # b @ [0x5D]) (JArr (0x5B # b @ [0x5D]) [t])"
    using full_array [OF first_element [of "[]" b t "[]"]] by simp
  then show ?thesis
    unfolding json_text_def by (intro exI [of _ "[]"] exI [of _ "0x5B # b @ [0x5D]"]) simp
qed

theorem canonical_writer_witness:
  "\<exists>sc. parse_scanner [0x5B, 0x31, 0x5D] ''x'' = Ok sc
    \<and> serialize_json_node unit_numbers JavaScript (scanned sc) (root_node sc) = Some (Ok [0x5B, 0x31, 0x5D])"
proof -
  let ?t = "JArr [0x5B, 0x31, 0x5D] [JPrim [0x31]]"
  have t: "json_text [0x5B, 0x31, 0x5D] ?t" using one_element [OF number_value [OF one_number]] by simp
  have v: "valid_utf8 [0x5B, 0x31, 0x5D]" by (simp add: valid_utf8_def utf8_error_def)
  have "is_finite_f64 (parse_f64 [0x31])" by code_simp
  then have "canonical (plain_policy unit_numbers JavaScript) ?t = Ok ?t"
    by (simp add: plain_policy_def write_number_def unit_numbers_def Let_def array_text_def
        literal_null_def literal_true_def literal_false_def)
  then show ?thesis
    using canonical_writer [OF t v unit_numbers_ok, of "''x''" JavaScript] by auto
qed

fun is_container :: "json_tree \<Rightarrow> bool" where
  "is_container (JArr b ts) = True"
| "is_container (JObj b kts) = True"
| "is_container _ = False"

lemma container_kind:
  assumes "stands_for s d i t"
  shows "is_container t \<longleftrightarrow> node_kind d i = KindArray \<or> node_kind d i = KindObject"
  using assms unfolding stands_for_def
  by (cases rule: tree_at.cases) (simp_all only: node_of_doc node_kind_def, simp_all)

text \<open>
  C6. A signed native body holds no malformed string value: for the Claude protocols and a JSON
  object or array, the final normalisation returns; it leaves the bytes alone exactly when every
  string value is well-formed UTF-16, and otherwise its bytes are a sentence whose every string
  value is well-formed, the canonical JavaScript image of the body.
\<close>

theorem native_bodies_are_well_formed:
  assumes "native_generation p" "numbers_ok nums JavaScript" "json_text body t" "valid_utf8 body" "is_container t"
  shows "if values_valid t then normalize_native_generation_json_body nums body p = Some (Ok None)
    else \<exists>t'. canonical ((plain_policy nums JavaScript)\<lparr> normalize_values := True \<rparr>) t = Ok t'
      \<and> normalize_native_generation_json_body nums body p = Some (Ok (Some (tree_text t')))
      \<and> json_text (tree_text t') t' \<and> values_valid t'"
proof -
  let ?m = "''final request body is invalid JSON''"
  let ?p = "(plain_policy nums JavaScript)\<lparr> normalize_values := True \<rparr>"
  obtain sc where sc: "parse_scanner body ?m = Ok sc" "stands_for body (scanned sc) (root_node sc) t"
    using parse_reads [OF assms(3,4)] by blast
  have p: "string_overrides ?p = []" "numbers_ok (policy_numbers ?p) (policy_encoding ?p)" "normalize_values ?p"
      "policy_encoding ?p = JavaScript"
    using assms(2) by (simp_all add: plain_policy_def)
  obtain t' where t': "canonical ?p t = Ok t'" using javascript_total [OF p(4)] by blast
  have w: "well_tree t" using assms(3) value_text_well(1) by (auto simp: json_text_def)
  have l: "malformed_loop (scanned sc) [root_node sc] = Some (Ok (\<not> values_valid t))"
    using checks_tree [OF sc(2) [unfolded stands_for_def]] by (simp add: checks_def malformed_loop_nil)
  show ?thesis
    using sc(1) container_kind [OF sc(2)] assms(1,5) l t' serialize_tree [OF sc(2) p(1,2) assms(3)]
      sentence_text [OF canonical_sentence [OF w p(2) t']] canonical_values [OF p(3) t']
    by (auto simp: normalize_native_generation_json_body_def Let_def tree_bytes_def)
qed

theorem native_bodies_are_well_formed_witness:
  "normalize_native_generation_json_body unit_numbers
     [0x5B, 0x22, 0x5C, 0x75, 0x64, 0x38, 0x30, 0x30, 0x22, 0x5D] AnthropicMessages
    = Some (Ok (Some [0x5B, 0x22, 0xEF, 0xBF, 0xBD, 0x22, 0x5D]))"
proof -
  let ?q = "[0x22, 0x5C, 0x75, 0x64, 0x38, 0x30, 0x30, 0x22] :: bytes"
  let ?b = "0x5B # ?q @ [0x5D]"
  have h: "hex_fold 0 [0x64, 0x38, 0x30, 0x30] = Some 0xD800" by (simp add: hex_value_def)
  have "string_chars (0x5C # 0x75 # [0x64, 0x38, 0x30, 0x30] @ []) [word_of_nat 0xD800]"
    by (rule unicode_escape [OF _ h no_chars]) simp
  then have "value_text ?q (JStr ?q [0xD800])" using string_value [of _ "[0xD800]" ?q] by simp
  then have t: "json_text ?b (JArr ?b [JStr ?q [0xD800]])" by (rule one_element)
  have v: "valid_utf8 ?b" by (simp add: valid_utf8_def utf8_error_def utf8_width_def)
  have bad: "\<not> values_valid (JArr ?b [JStr ?q [0xD800]])" by (simp add: is_high_def)
  have w: "write_json_string_from_utf16 [0xFFFD] = [0x22, 0xEF, 0xBF, 0xBD, 0x22]" by code_simp
  have "native_generation AnthropicMessages" by (simp add: native_generation_def)
  from native_bodies_are_well_formed [OF this unit_numbers_ok t v] bad w show ?thesis
    by (auto simp: array_text_def to_well_formed_utf16_def is_high_def Let_def)
qed

end
