(* ===== verification/Json_Payload.thy ===== *)
theory Json_Payload
  imports Exact_Canonical Json_Value "HOL-Library.List_Lexorder"
begin

text \<open>
  The source-carrying JSON value (\<^verbatim>\<open>JsonPayload\<close> of \<^verbatim>\<open>src/protocol/json_payload.rs\<close>):
  reads through the scanner, edits that keep the source of what they do not touch, the merges
  of cumulative provider snapshots, the comparison of argument snapshots and the assembly of
  streamed fragments.

  A payload is its UTF-8 source.  serde_json's raw value and numbers are not part of the
  repository: \<open>raw_value\<close> is \<^verbatim>\<open>RawValue::from_string\<close> (the validated source, or an
  error) and \<open>parse_number\<close> its reading of a number.
\<close>

section \<open>Reads\<close>

record json_lib =
  raw_value :: "bytes \<Rightarrow> string + bytes"
  lib_numbers :: json_numbers
  parse_number :: "bytes \<Rightarrow> json_number option"

definition parse_payload :: "json_lib \<Rightarrow> bytes \<Rightarrow> string + json_payload" where
  "parse_payload lib src = bind_result (raw_value lib src) (\<lambda>b. Ok (string_of_bytes b))"

definition payload_scanner :: "json_payload \<Rightarrow> json_failure + json_scanner" where
  "payload_scanner p = parse_scanner (bytes_of_string p) ''JSON payload is invalid''"

definition reading :: "json_payload \<Rightarrow> (json_scanner \<Rightarrow> 'a option) \<Rightarrow> 'a option" where
  "reading p f = (case payload_scanner p of Inl _ \<Rightarrow> None | Inr sc \<Rightarrow> f sc)"

definition payload_kind_at :: "json_payload \<Rightarrow> scalars \<Rightarrow> flat_json_kind option" where
  "payload_kind_at p at = reading p (\<lambda>sc. kind_at sc at)"

definition payload_string_at :: "json_payload \<Rightarrow> scalars \<Rightarrow> scalars option" where
  "payload_string_at p at = reading p (\<lambda>sc. string_at sc at)"

definition payload_string_units_at :: "json_payload \<Rightarrow> scalars \<Rightarrow> u16 list option" where
  "payload_string_units_at p at = reading p (\<lambda>sc. string_units_at sc at)"

definition payload_string_is :: "json_payload \<Rightarrow> scalars \<Rightarrow> scalars \<Rightarrow> bool" where
  "payload_string_is p at expected \<longleftrightarrow> payload_string_at p at = Some expected"

definition payload_raw_source_at :: "json_payload \<Rightarrow> scalars \<Rightarrow> bytes option" where
  "payload_raw_source_at p at = reading p (\<lambda>sc. raw_source_at sc at)"

definition payload_bool_at :: "json_payload \<Rightarrow> scalars \<Rightarrow> bool option" where
  "payload_bool_at p at =
    reading p (\<lambda>sc.
      if kind_at sc at \<noteq> Some KindBoolean then None
      else (case raw_source_at sc at of
              Some raw \<Rightarrow>
                if raw = literal_true then Some True else if raw = literal_false then Some False else None
            | None \<Rightarrow> None))"

definition payload_at :: "json_lib \<Rightarrow> json_payload \<Rightarrow> scalars \<Rightarrow> json_payload option" where
  "payload_at lib p at =
    (case payload_raw_source_at p at of
       None \<Rightarrow> None
     | Some raw \<Rightarrow> (case parse_payload lib raw of Inl _ \<Rightarrow> None | Inr q \<Rightarrow> Some q))"

definition payload_array_len :: "json_payload \<Rightarrow> scalars \<Rightarrow> nat option" where
  "payload_array_len p at = reading p (\<lambda>sc. array_len_at sc at)"

definition payload_object_len :: "json_payload \<Rightarrow> scalars \<Rightarrow> nat option" where
  "payload_object_len p at =
    reading p (\<lambda>sc. case node_id_at sc at of
      Some i \<Rightarrow> map_option length (object_entries (scanned sc) i) | None \<Rightarrow> None)"

definition index_pointer :: "scalars \<Rightarrow> nat \<Rightarrow> scalars" where
  "index_pointer at k = at @ 0x2F # scalars_of (decimal k)"

definition payload_array_item_at :: "json_lib \<Rightarrow> json_payload \<Rightarrow> scalars \<Rightarrow> nat \<Rightarrow> json_payload option" where
  "payload_array_item_at lib p at k =
    (case payload_array_len p at of
       None \<Rightarrow> None
     | Some n \<Rightarrow> if n \<le> k then None else payload_at lib p (index_pointer at k))"

definition payload_array_items :: "json_lib \<Rightarrow> json_payload \<Rightarrow> json_payload list option" where
  "payload_array_items lib p =
    (case payload_array_len p [] of
       None \<Rightarrow> None
     | Some n \<Rightarrow> those (map (payload_array_item_at lib p []) [0..<n]))"

definition payload_object_entries_at :: "json_payload \<Rightarrow> scalars \<Rightarrow> (scalars \<times> u16 list) list option" where
  "payload_object_entries_at p at = reading p (\<lambda>sc. object_entries_at sc at)"

definition has_only_fields_at :: "json_payload \<Rightarrow> scalars \<Rightarrow> scalars list \<Rightarrow> bool" where
  "has_only_fields_at p at allowed =
    (case payload_object_entries_at p at of
       None \<Rightarrow> False
     | Some entries \<Rightarrow>
         list_all (\<lambda>(shown, units). list_ex (\<lambda>a. shown = a \<and> units = encode_utf16 a) allowed) entries)"

definition root_string_code_units :: "json_payload \<Rightarrow> u16 list option" where
  "root_string_code_units p =
    reading p (\<lambda>sc. if kind_at sc [] \<noteq> Some KindString then None else string_units (scanned sc) (root_node sc))"

definition is_root_string :: "json_payload \<Rightarrow> bool" where
  "is_root_string p \<longleftrightarrow> payload_kind_at p [] = Some KindString"

definition is_root_array :: "json_payload \<Rightarrow> bool" where
  "is_root_array p \<longleftrightarrow> payload_kind_at p [] = Some KindArray"

definition is_root_object :: "json_payload \<Rightarrow> bool" where
  "is_root_object p \<longleftrightarrow> payload_kind_at p [] = Some KindObject"

definition is_root_null :: "json_payload \<Rightarrow> bool" where
  "is_root_null p \<longleftrightarrow> payload_kind_at p [] = Some KindNull"

definition payload_number_at :: "json_payload \<Rightarrow> scalars \<Rightarrow> f64 option" where
  "payload_number_at p at =
    reading p (\<lambda>sc. if kind_at sc at \<noteq> Some KindNumber then None
      else map_option parse_f64 (raw_source_at sc at))"

definition unsigned_integer_at :: "json_lib \<Rightarrow> json_payload \<Rightarrow> scalars \<Rightarrow> u64 option" where
  "unsigned_integer_at lib p at =
    reading p (\<lambda>sc. if kind_at sc at \<noteq> Some KindNumber then None
      else (case raw_source_at sc at of
              None \<Rightarrow> None
            | Some raw \<Rightarrow> (case parse_number lib raw of Some (PosInt n) \<Rightarrow> Some n | _ \<Rightarrow> None)))"

section \<open>Edits\<close>

definition from_fields :: "(u16 list \<times> bytes) list \<Rightarrow> bytes" where
  "from_fields ms =
    0x7B # join_with 0x2C (map (\<lambda>(k, b). write_json_string_from_utf16 k @ 0x3A # b) ms) @ [0x7D]"

definition object_from_fields :: "json_lib \<Rightarrow> (u16 list \<times> bytes) list \<Rightarrow> string + json_payload" where
  "object_from_fields lib ms = parse_payload lib (from_fields ms)"

text \<open>The members after the edit: all of its name replaced (or dropped), a new one at the end.\<close>

fun edited :: "json_scanner \<Rightarrow> u16 list \<Rightarrow> bytes option \<Rightarrow> (u16 list \<times> nat) list
    \<Rightarrow> json_failure + (u16 list \<times> bytes) list \<times> bool" where
  "edited sc key replacement [] = Ok ([], False)"
| "edited sc key replacement ((k, i) # ms) =
    (if k = key
     then bind_result (edited sc key replacement ms) (\<lambda>(r, _).
            Ok ((case replacement of Some b \<Rightarrow> (k, b) # r | None \<Rightarrow> r), True))
     else
       bind_result (missing_part ''JSON object member has no source span'' (raw_source_for_node sc i)) (\<lambda>b.
       bind_result (edited sc key replacement ms) (\<lambda>(r, found). Ok ((k, b) # r, found))))"

definition edit_object_field ::
  "json_lib \<Rightarrow> json_payload \<Rightarrow> scalars \<Rightarrow> json_payload option \<Rightarrow> json_failure + json_payload" where
  "edit_object_field lib p name replacement =
    bind_result (payload_scanner p) (\<lambda>sc.
    bind_result (missing_part ''editing a JSON field requires an object payload''
      (object_entries (scanned sc) (root_node sc))) (\<lambda>entries.
    let key = encode_utf16 name; b = map_option bytes_of_string replacement in
    bind_result (edited sc key b entries) (\<lambda>(ms, found).
    let ms = (case b of Some v \<Rightarrow> if found then ms else ms @ [(key, v)] | None \<Rightarrow> ms);
        src = from_fields ms in
    if utf8_error src \<noteq> None then Err Panics
    else map_err (\<lambda>e. Rejects (InvalidRequest [Lit ''JSON object edit produced invalid source: '', Lit e]))
           (parse_payload lib src))))"

definition with_object_field :: "json_lib \<Rightarrow> json_payload \<Rightarrow> scalars \<Rightarrow> json_payload \<Rightarrow> json_failure + json_payload" where
  "with_object_field lib p name v = edit_object_field lib p name (Some v)"

definition without_object_field :: "json_lib \<Rightarrow> json_payload \<Rightarrow> scalars \<Rightarrow> json_failure + json_payload" where
  "without_object_field lib p name = edit_object_field lib p name None"

section \<open>Slices of valid UTF-8\<close>

lemma chunk_passes: "valid_utf8 (a # r) \<Longrightarrow> passes_utf8 (take (utf8_width a) (a # r))"
proof -
  assume v: "valid_utf8 (a # r)"
  have "utf8_width a = Suc 0 \<or> utf8_width a = Suc (Suc 0) \<or> utf8_width a = Suc (Suc (Suc 0))
      \<or> utf8_width a = Suc (Suc (Suc (Suc 0))) \<or> utf8_width a = 0"
    by (simp add: utf8_width_def)
  then show ?thesis
    using v unfolding passes_utf8_def
    by (elim disjE) (auto simp: valid_utf8_Cons split: list.splits)
qed

lemma valid_split:
  "valid_utf8 (x @ y) \<Longrightarrow> y = [] \<or> \<not> is_cont (hd y) \<Longrightarrow> passes_utf8 x \<and> valid_utf8 y"
proof (induction "length x" arbitrary: x rule: less_induct)
  case less
  show ?case
  proof (cases x)
    case Nil
    then show ?thesis using less.prems by (simp add: passes_utf8_simps)
  next
    case (Cons a r)
    define k where "k = utf8_width a"
    have va: "valid_utf8 (a # (r @ y))" using less.prems(1) Cons by simp
    have k: "1 \<le> k"
      using valid_utf8_first(1) [OF va] next_char_width [of "a # r @ y"] by (auto simp: k_def)
    have "k \<le> length x"
    proof (rule ccontr)
      assume "\<not> k \<le> length x"
      then have "Suc (length r) < utf8_width a" by (simp add: k_def Cons)
      then have t: "length r < length (r @ y) \<and> is_cont ((r @ y) ! length r)"
        by (rule valid_utf8_tail [OF va])
      then have "y \<noteq> []" "is_cont (hd y)" by (auto simp: nth_append hd_conv_nth)
      then show False using less.prems(2) by simp
    qed
    then have split: "take k (x @ y) = take k x" "drop k (x @ y) = drop k x @ y" by simp_all
    have "valid_utf8 (drop k x @ y)"
      using valid_utf8_first(2) [OF va] split(2) by (simp add: k_def Cons)
    then have IH: "passes_utf8 (drop k x) \<and> valid_utf8 y"
      using less.hyps [of "drop k x"] less.prems(2) k Cons by simp
    have "passes_utf8 (take k x)" using chunk_passes [OF va] split(1) by (simp add: k_def Cons)
    then have "passes_utf8 (take k x @ drop k x)" using IH passes_utf8_simps(2) by blast
    then show ?thesis using IH by simp
  qed
qed

lemma slice_passes:
  assumes "valid_utf8 s" "str_get s (a, b) = Some bs"
  shows "passes_utf8 bs"
proof -
  have c: "a \<le> b" "is_char_boundary s a" "is_char_boundary s b" "bs = take (b - a) (drop a s)"
    using assms(2) by (auto simp: str_get_def split: if_splits)
  have h: "drop i s = [] \<or> \<not> is_cont (hd (drop i s))" if "is_char_boundary s i" for i
    using that by (cases "i < length s") (auto simp: is_char_boundary_def hd_drop_conv_nth)
  have "valid_utf8 (drop a s)" using valid_split [of "take a s" "drop a s"] assms(1) h [OF c(2)] by simp
  moreover have "drop a s = bs @ drop b s"
    using c(1) by (simp add: c(4)) (metis append_take_drop_id drop_drop le_add_diff_inverse2)
  ultimately show ?thesis using valid_split [of bs "drop b s"] h [OF c(3)] by simp
qed

lemma node_sentence:
  assumes "document s = Ok d" "valid_utf8 s" "stands_for s d i t"
  shows "sentence t"
proof -
  obtain a b where ab: "doc_node_source_spans d ! i = (a, b)" by fastforce
  have "passes_utf8 (tree_text t)" using node_source(2) [OF assms] slice_passes [OF assms(2)] ab by metis
  moreover have "value_text (tree_text t) t"
    using tree_at_text [OF assms(3) [unfolded stands_for_def]] by metis
  ultimately show ?thesis by (simp add: sentence_alt)
qed

section \<open>Edited objects\<close>

definition accepts_json :: "json_lib \<Rightarrow> bool" where
  "accepts_json lib \<longleftrightarrow> (\<forall>b t. value_text b t \<longrightarrow> valid_utf8 b \<longrightarrow> raw_value lib b = Ok b)"

definition payload_tree :: "json_payload \<Rightarrow> json_tree \<Rightarrow> bool" where
  "payload_tree p t \<longleftrightarrow> value_text (bytes_of_string p) t \<and> valid_utf8 (bytes_of_string p)"

lemma value_json: "value_text b t \<Longrightarrow> json_text b t"
  unfolding json_text_def by (intro exI [of _ "[]"] exI [of _ b]) simp

lemma payload_reads:
  assumes "payload_tree p t"
  shows "\<exists>sc. payload_scanner p = Ok sc \<and> stands_for (bytes_of_string p) (scanned sc) (root_node sc) t"
  using parse_reads [OF value_json] assms by (simp add: payload_tree_def payload_scanner_def)

lemma parse_sentence:
  assumes "accepts_json lib" "sentence t"
  shows "parse_payload lib (tree_text t) = Ok (string_of_bytes (tree_text t))"
    "payload_tree (string_of_bytes (tree_text t)) t"
proof -
  have "value_text (tree_text t) t" "valid_utf8 (tree_text t)"
    using sentence_text [OF assms(2)] assms(2) by (simp_all add: sentence_def)
  then show "parse_payload lib (tree_text t) = Ok (string_of_bytes (tree_text t))"
    "payload_tree (string_of_bytes (tree_text t)) t"
    using assms(1) by (auto simp: accepts_json_def parse_payload_def payload_tree_def)
qed

definition member_texts :: "(u16 list \<times> json_tree) list \<Rightarrow> (u16 list \<times> bytes) list" where
  "member_texts kts = map (\<lambda>(k, t). (k, tree_text t)) kts"

lemma from_fields_texts: "from_fields (member_texts kts) = object_text kts"
proof -
  have "map (\<lambda>(k, b). write_json_string_from_utf16 k @ 0x3A # b) (member_texts kts) = map member_text kts"
    by (simp add: member_texts_def member_text_def case_prod_beta')
  then show ?thesis by (simp only: from_fields_def object_text_def)
qed

text \<open>The entries of a scanned object, each with its tree and its source.\<close>

lemma tree_at_JObj:
  "tree_at st Op i (JObj b kts) \<Longrightarrow> \<exists>members. nodes st ! i = ObjectNode members
    \<and> list_all2 (\<lambda>m kt. fst m = from_utf16_lossy (fst kt) \<and> fst (snd m) = fst kt
        \<and> tree_at st Op (snd (snd m)) (snd kt)) members kts"
  by (erule tree_at.cases) auto

lemma object_nodes:
  assumes "payload_scanner p = Ok sc" "stands_for (bytes_of_string p) (scanned sc) (root_node sc) (JObj b kts)"
  shows "\<exists>ms. object_entries (scanned sc) (root_node sc) = Some ms
    \<and> list_all2 (\<lambda>m kt. fst m = fst kt \<and> raw_source_for_node sc (snd m) = Some (tree_text (snd kt))
        \<and> sentence (snd kt)) ms kts"
proof -
  let ?s = "bytes_of_string p" and ?d = "scanned sc"
  have doc: "document ?s = Ok ?d" "valid_utf8 ?s" "scanned_source sc = ?s"
    using assms(1) by (simp_all add: payload_scanner_def parse_scanner_Ok)
  obtain members where n: "nodes (parser_of ?s ?d) ! root_node sc = ObjectNode members"
    and t: "list_all2 (\<lambda>m kt. fst m = from_utf16_lossy (fst kt) \<and> fst (snd m) = fst kt
        \<and> tree_at (parser_of ?s ?d) {} (snd (snd m)) (snd kt)) members kts"
    using tree_at_JObj [OF assms(2) [unfolded stands_for_def]] by blast
  have src: "raw_source_for_node sc i = Some (tree_text t) \<and> sentence t" if "stands_for ?s ?d i t" for i t
    using node_source [OF doc(1,2) that] node_sentence [OF doc(1,2) that]
    by (simp add: raw_source_for_node_def doc(3))
  have "list_all2 (\<lambda>m kt. fst m = fst kt \<and> raw_source_for_node sc (snd m) = Some (tree_text (snd kt))
        \<and> sentence (snd kt)) (map snd members) kts"
    unfolding list_all2_map1 by (rule list_all2_mono [OF t]) (use src in \<open>auto simp: stands_for_def\<close>)
  moreover have "node_of ?d (root_node sc) = ObjectNode members" using n by (simp only: node_of_doc)
  ultimately show ?thesis by (simp add: object_entries_def)
qed

definition replace_member :: "u16 list \<Rightarrow> bytes option \<Rightarrow> (u16 list \<times> json_tree) list \<Rightarrow> (u16 list \<times> bytes) list" where
  "replace_member key r kts =
    (case r of
       Some b \<Rightarrow> map (\<lambda>(k, t). (k, if k = key then b else tree_text t)) kts
     | None \<Rightarrow> member_texts (filter (\<lambda>(k, t). k \<noteq> key) kts))"

lemma edited_members:
  "list_all2 (\<lambda>m kt. fst m = fst kt \<and> raw_source_for_node sc (snd m) = Some (tree_text (snd kt)) \<and> sentence (snd kt)) ms kts \<Longrightarrow>
    edited sc key r ms = Ok (replace_member key r kts, key \<in> fst ` set kts)"
  by (induction rule: list_all2_induct)
    (auto simp: replace_member_def member_texts_def missing_part_def split: option.splits prod.splits)

lemma put_member_texts:
  "distinct (map fst kts) \<Longrightarrow>
    member_texts (put_member key t kts) =
      (if key \<in> fst ` set kts then replace_member key (Some (tree_text t)) kts
       else replace_member key (Some (tree_text t)) kts @ [(key, tree_text t)])"
proof (induction kts)
  case (Cons kt kts)
  obtain k u where kt: "kt = (k, u)" by fastforce
  show ?case
  proof (cases "k = key")
    case True
    have "(if k' = key then tree_text t else tree_text u') = tree_text u'" if "(k', u') \<in> set kts" for k' u'
      using Cons.prems that True kt by force
    then have "map (\<lambda>(k, u). (k, if k = key then tree_text t else tree_text u)) kts = member_texts kts"
      by (auto simp: member_texts_def)
    then show ?thesis using True by (simp add: kt member_texts_def replace_member_def)
  next
    case False
    then show ?thesis using Cons by (auto simp: kt member_texts_def replace_member_def)
  qed
qed (simp add: member_texts_def replace_member_def)

lemma edited_object:
  assumes "accepts_json lib" "payload_tree p (JObj b kts)"
    and "member_texts kts' = (case r of
        Some v \<Rightarrow> (let ms = replace_member key (Some (bytes_of_string v)) kts in if key \<in> fst ` set kts then ms
          else ms @ [(key, bytes_of_string v)])
      | None \<Rightarrow> replace_member key None kts)"
    and "key = encode_utf16 name" "distinct (map fst kts')" "list_all (\<lambda>kt. sentence (snd kt)) kts'"
  shows "edit_object_field lib p name r = Ok (string_of_bytes (object_text kts'))
    \<and> payload_tree (string_of_bytes (object_text kts')) (JObj (object_text kts') kts')"
proof -
  obtain sc where sc: "payload_scanner p = Ok sc"
      "stands_for (bytes_of_string p) (scanned sc) (root_node sc) (JObj b kts)"
    using payload_reads [OF assms(2)] by blast
  obtain ms where ms: "object_entries (scanned sc) (root_node sc) = Some ms"
    "list_all2 (\<lambda>m kt. fst m = fst kt \<and> raw_source_for_node sc (snd m) = Some (tree_text (snd kt))
        \<and> sentence (snd kt)) ms kts"
    using object_nodes [OF sc] by blast
  have s: "sentence (JObj (object_text kts') kts')" by (rule object_sentence) (fact assms(5,6))+
  then have u: "utf8_error (object_text kts') = None" using sentence_text [OF s] by (simp add: valid_utf8_def)
  note q = parse_sentence [OF assms(1) s, simplified]
  have "edit_object_field lib p name r = Ok (string_of_bytes (object_text kts'))"
  proof (cases r)
    case None
    then show ?thesis
      using sc(1) ms(1) edited_members [OF ms(2)] assms(3) from_fields_texts [of kts'] u q(1)
      by (simp add: edit_object_field_def missing_part_def assms(4))
  next
    case (Some v)
    have m: "member_texts kts' = (let ms = replace_member key (Some (bytes_of_string v)) kts in
        if key \<in> fst ` set kts then ms else ms @ [(key, bytes_of_string v)])"
      using assms(3) Some by simp
    show ?thesis
    proof (cases "key \<in> fst ` set kts")
      case True
      then show ?thesis
        using sc(1) ms(1) edited_members [OF ms(2)] m from_fields_texts [of kts'] u q(1) Some
        by (simp add: edit_object_field_def missing_part_def assms(4))
    next
      case False
      then show ?thesis
        using sc(1) ms(1) edited_members [OF ms(2)] m from_fields_texts [of kts'] u q(1) Some
        by (simp add: edit_object_field_def missing_part_def assms(4))
    qed
  qed
  then show ?thesis using q(2) by simp
qed

lemma payload_members:
  assumes "payload_tree p (JObj b kts)"
  shows "distinct (map fst kts)" "list_all (\<lambda>kt. sentence (snd kt)) kts"
proof -
  obtain sc where sc: "payload_scanner p = Ok sc"
      "stands_for (bytes_of_string p) (scanned sc) (root_node sc) (JObj b kts)"
    using payload_reads [OF assms] by blast
  obtain ms where "list_all2 (\<lambda>m kt. fst m = fst kt \<and> raw_source_for_node sc (snd m) = Some (tree_text (snd kt))
        \<and> sentence (snd kt)) ms kts"
    using object_nodes [OF sc] by blast
  then show "list_all (\<lambda>kt. sentence (snd kt)) kts"
    by (induction rule: list_all2_induct) auto
  show "distinct (map fst kts)" using value_text_well(1) [of "bytes_of_string p" "JObj b kts"] assms by (simp add: payload_tree_def)
qed

lemma put_member_sentences:
  "list_all (\<lambda>kt. sentence (snd kt)) kts \<Longrightarrow> sentence t \<Longrightarrow> list_all (\<lambda>kt. sentence (snd kt)) (put_member k t kts)"
  by (induction k t kts rule: put_member.induct) auto

lemma distinct_put_member: "distinct (map fst kts) \<Longrightarrow> distinct (map fst (put_member k t kts))"
proof (induction k t kts rule: put_member.induct)
  case (2 k t k' t' r)
  then show ?case using keys_put_member [of k t r] by auto
qed simp

text \<open>
  C11. An edit touches one field: setting a field of an object payload yields an object with the
  same members, each with its exact source, except that the named one has the new value in its
  old place or at the end; removing a field yields the other members in order, each with its
  exact source.  Numbers, escapes, nested spacing and lone surrogates of the rest survive.
\<close>

theorem edit_touches_one_field:
  assumes "accepts_json lib" "payload_tree p (JObj b kts)" "payload_tree v tv" "key = encode_utf16 name"
  shows "(\<exists>q. with_object_field lib p name v = Ok q
      \<and> payload_tree q (JObj (bytes_of_string q) (put_member key tv kts)))
    \<and> (\<exists>q. without_object_field lib p name = Ok q
      \<and> payload_tree q (JObj (bytes_of_string q) (filter (\<lambda>(k, t). k \<noteq> key) kts)))"
proof
  note m = payload_members [OF assms(2)]
  have v: "tree_text tv = bytes_of_string v" "value_text (bytes_of_string v) tv" "valid_utf8 (bytes_of_string v)"
    using assms(3) value_text_text by (auto simp: payload_tree_def)
  have "passes_utf8 (bytes_of_string v)" using valid_split [of "bytes_of_string v" "[]"] v(3) by simp
  then have sv: "sentence tv" using v by (simp add: sentence_alt)
  let ?kts = "put_member key tv kts"
  have "edit_object_field lib p name (Some v) = Ok (string_of_bytes (object_text ?kts))
      \<and> payload_tree (string_of_bytes (object_text ?kts)) (JObj (object_text ?kts) ?kts)"
    by (rule edited_object [OF assms(1,2) _ assms(4) distinct_put_member [OF m(1)] put_member_sentences [OF m(2) sv]])
      (simp add: put_member_texts [OF m(1)] v(1) Let_def)
  then show "\<exists>q. with_object_field lib p name v = Ok q \<and> payload_tree q (JObj (bytes_of_string q) ?kts)"
    by (auto simp: with_object_field_def)
  let ?kts = "filter (\<lambda>(k, t). k \<noteq> key) kts"
  have d: "distinct (map fst ?kts)" "list_all (\<lambda>kt. sentence (snd kt)) ?kts"
    using m by (auto simp: distinct_map_filter list_all_iff)
  have "edit_object_field lib p name None = Ok (string_of_bytes (object_text ?kts))
      \<and> payload_tree (string_of_bytes (object_text ?kts)) (JObj (object_text ?kts) ?kts)"
    by (rule edited_object [OF assms(1,2) _ assms(4) d]) (simp add: replace_member_def)
  then show "\<exists>q. without_object_field lib p name = Ok q \<and> payload_tree q (JObj (bytes_of_string q) ?kts)"
    by (auto simp: without_object_field_def)
qed

definition unit_lib :: json_lib where
  "unit_lib = \<lparr> raw_value = (\<lambda>b. Ok b), lib_numbers = unit_numbers, parse_number = (\<lambda>b. Some (PosInt 1)) \<rparr>"

theorem edit_touches_one_field_witness:
  "\<exists>q. with_object_field unit_lib (string_of_bytes [0x7B, 0x22, 0x61, 0x22, 0x3A, 0x31, 0x7D]) [0x62]
        (string_of_bytes [0x31]) = Ok q
     \<and> payload_tree q (JObj (bytes_of_string q) [([0x61], JPrim [0x31]), ([0x62], JPrim [0x31])])"
proof -
  let ?b = "[0x7B, 0x22, 0x61, 0x22, 0x3A, 0x31, 0x7D] :: bytes"
  have "next_char [0x61] = Some (0x61, length [0x61::byte])" by (simp add: next_char_def utf8_width_def)
  then have "string_chars ([0x61] @ []) (utf16_of_scalar 0x61 @ [])"
    by (intro plain_char no_chars) (simp_all add: next_char_def)
  then have "string_chars [0x61] [0x61]" by (simp add: utf16_of_scalar_def)
  then have "members_text [0x22, 0x61, 0x22, 0x3A, 0x31] [([0x61], JPrim [0x31])]"
    using first_member [of "[]" "[0x61]" "[0x61]" "[]" "[]" "[0x31]" "JPrim [0x31]" "[]"] number_value [OF one_number]
    by simp
  then have "value_text ?b (JObj ?b [([0x61], JPrim [0x31])])" by (rule full_object) simp
  then have p: "payload_tree (string_of_bytes ?b) (JObj ?b [([0x61], JPrim [0x31])])"
    by (simp add: payload_tree_def valid_utf8_def utf8_error_def utf8_width_def)
  have v: "payload_tree (string_of_bytes [0x31]) (JPrim [0x31])"
    using number_value [OF one_number] by (simp add: payload_tree_def valid_utf8_def utf8_error_def utf8_width_def)
  have "accepts_json unit_lib" by (simp add: accepts_json_def unit_lib_def)
  from edit_touches_one_field [OF this p v, of "[0x62]" "[0x62]"] show ?thesis
    by (simp add: encode_utf16_def utf16_of_scalar_def)
qed

end
