(* ===== verification/Json_Pointers.thy ===== *)
theory Json_Pointers
  imports Exact_Canonical
begin

text \<open>
  JSON pointers into a scanned document.  The scanner keeps an index from the pointer of every
  node to its number while it reads, and drops the entries of a member that a repeated key
  replaces (\<^verbatim>\<open>src/response_json.rs\<close>).  Here the index is shown to be the walk of the
  document: where the keys of the objects a path goes through are the text they are shown as,
  the pointer of the path leads to the node the path leads to, and to nothing else; where the
  scanner has kept the units of some key that is not, the reads walk the document by the code
  units of its keys, and find the same.
\<close>

section \<open>Pointers of paths\<close>

definition escaped :: "scalars \<Rightarrow> scalars" where
  "escaped c = concat (map escape_scalar c)"

definition pointer_of :: "scalars list \<Rightarrow> scalars" where
  "pointer_of cs = concat (map (\<lambda>c. 0x2F # escaped c) cs)"

lemma pointer_of_simps [simp]:
  "pointer_of [] = []" "pointer_of (c # cs) = 0x2F # escaped c @ pointer_of cs"
  "pointer_of (cs @ ds) = pointer_of cs @ pointer_of ds"
  by (simp_all add: pointer_of_def)

lemma escaped_simps [simp]:
  "escaped [] = []" "escaped (x # c) = escape_scalar x @ escaped c"
  by (simp_all add: escaped_def)

lemma escaped_plain: "0x7E \<notin> set c \<Longrightarrow> 0x2F \<notin> set c \<Longrightarrow> escaped c = c"
  by (induction c) (auto simp: escape_scalar_def)

lemma push_pointer_segment_escaped: "push_pointer_segment p c = p @ 0x2F # escaped c"
  by (simp add: push_pointer_segment_def escaped_def [symmetric] escaped_plain)

lemma escaped_no_slash: "0x2F \<notin> set (escaped c)"
  by (induction c) (auto simp: escape_scalar_def)

lemma replace2_other: "x \<noteq> a \<Longrightarrow> replace2 a b c (x # r) = x # replace2 a b c r"
  by (cases r) simp_all

lemma unescape_slash: "replace2 0x7E 0x31 0x2F (escaped c) = concat (map (\<lambda>x. if x = 0x7E then [0x7E, 0x30] else [x]) c)"
  by (induction c) (auto simp: escape_scalar_def replace2_other)

lemma unescape_tilde:
  "replace2 0x7E 0x30 0x7E (concat (map (\<lambda>x. if x = 0x7E then [0x7E, 0x30] else [x]) c)) = c"
  by (induction c) (auto simp: replace2_other)

lemma unescape_escaped [simp]: "unescape_segment (escaped c) = c"
  by (simp add: unescape_segment_def unescape_slash unescape_tilde)

lemma escaped_inj: "escaped c = escaped d \<longleftrightarrow> c = d"
  by (metis unescape_escaped)

definition breaks :: "scalars \<Rightarrow> bool" where
  "breaks r \<longleftrightarrow> r = [] \<or> hd r = 0x2F"

lemma breaks_pointer [simp]: "breaks (pointer_of cs)"
  by (cases cs) (simp_all add: breaks_def)

lemma first_segment:
  assumes "escaped c @ x = escaped d @ y" "breaks x" "breaks y"
  shows "c = d \<and> x = y"
proof -
  have t: "takeWhile (\<lambda>b. b \<noteq> 0x2F) (escaped e @ z) = escaped e" if "breaks z" for e z
    using escaped_no_slash [of e] that
    by (cases z) (auto simp: breaks_def takeWhile_append)
  have "escaped c = escaped d" using t [OF assms(2), of c] t [OF assms(3), of d] assms(1) by simp
  then show ?thesis using assms(1) escaped_inj by simp
qed

lemma pointer_prefix:
  "pointer_of cs = pointer_of ds @ r \<Longrightarrow> breaks r \<Longrightarrow> \<exists>es. cs = ds @ es \<and> r = pointer_of es"
proof (induction ds arbitrary: cs)
  case (Cons d ds)
  then obtain c cs' where cs: "cs = c # cs'" by (cases cs) auto
  have "breaks (pointer_of ds @ r)" using Cons.prems(2) by (cases ds) (simp_all add: breaks_def)
  then have "c = d" "pointer_of cs' = pointer_of ds @ r"
    using first_segment [of c "pointer_of cs'" d "pointer_of ds @ r"] Cons.prems(1) by (simp_all add: cs)
  then show ?case using Cons.IH [of cs'] Cons.prems(2) by (auto simp: cs)
qed auto

lemma pointer_of_inj: "pointer_of cs = pointer_of ds \<longleftrightarrow> cs = ds"
proof
  assume "pointer_of cs = pointer_of ds"
  then obtain es where "cs = ds @ es" "pointer_of es = []"
    using pointer_prefix [of cs ds "[]"] by (auto simp: breaks_def)
  then show "cs = ds" by (cases es) simp_all
qed simp

lemma within_pointer: "pointer_is_within (pointer_of cs) (pointer_of ds) \<longleftrightarrow> (\<exists>es. cs = ds @ es)"
proof
  assume "pointer_is_within (pointer_of cs) (pointer_of ds)"
  then consider "pointer_of ds = []" | "pointer_of cs = pointer_of ds"
    | r where "pointer_of cs = pointer_of ds @ r" "hd r = 0x2F"
    by (auto simp: pointer_is_within_def starts_with_def strip_prefix_Some split: option.splits)
      (metis list.sel(1) neq_Nil_conv take_Cons' )
  then show "\<exists>es. cs = ds @ es"
  proof cases
    case 1
    then show ?thesis by (cases ds) simp_all
  next
    case 2
    then show ?thesis by (simp add: pointer_of_inj)
  next
    case 3
    then show ?thesis using pointer_prefix [of cs ds r] by (auto simp: breaks_def)
  qed
next
  assume "\<exists>es. cs = ds @ es"
  then obtain es where "cs = ds @ es" by blast
  then show "pointer_is_within (pointer_of cs) (pointer_of ds)"
    by (cases es) (auto simp: pointer_is_within_def strip_prefix_append starts_with_def)
qed

section \<open>Walks\<close>

definition kid :: "flat_node list \<Rightarrow> nat \<Rightarrow> scalars \<Rightarrow> nat \<Rightarrow> bool" where
  "kid ns i c j \<longleftrightarrow> i < length ns \<and>
    (case ns ! i of
       ArrayNode items \<Rightarrow> \<exists>k < length items. c = scalars_of (decimal k) \<and> j = items ! k
     | ObjectNode ms \<Rightarrow> (\<exists>u. (c, u, j) \<in> set ms)
     | _ \<Rightarrow> False)"

fun goes :: "flat_node list \<Rightarrow> nat \<Rightarrow> scalars list \<Rightarrow> nat \<Rightarrow> bool" where
  "goes ns i [] j \<longleftrightarrow> j = i"
| "goes ns i (c # cs) j \<longleftrightarrow> (\<exists>k. kid ns i c k \<and> goes ns k cs j)"

text \<open>The keys of an object have distinct units and are shown by them; a key is plain when it is
the text it is shown as.\<close>

definition plain_key :: "u16 list \<Rightarrow> bool" where
  "plain_key u \<longleftrightarrow> encode_utf16 (from_utf16_lossy u) = u"

definition shown_node :: "flat_node \<Rightarrow> bool" where
  "shown_node nd \<longleftrightarrow> (case nd of
     ObjectNode ms \<Rightarrow> distinct (map (fst \<circ> snd) ms) \<and> (\<forall>m \<in> set ms. fst m = from_utf16_lossy (fst (snd m)))
   | _ \<Rightarrow> True)"

definition plain_node :: "flat_node \<Rightarrow> bool" where
  "plain_node nd \<longleftrightarrow> (case nd of
     ObjectNode ms \<Rightarrow> \<forall>u \<in> (fst \<circ> snd) ` set ms. plain_key u | _ \<Rightarrow> True)"

text \<open>A walk through plain objects.\<close>

fun straight :: "flat_node list \<Rightarrow> nat \<Rightarrow> scalars list \<Rightarrow> nat \<Rightarrow> bool" where
  "straight ns i [] j \<longleftrightarrow> j = i"
| "straight ns i (c # cs) j \<longleftrightarrow> plain_node (ns ! i) \<and> (\<exists>k. kid ns i c k \<and> straight ns k cs j)"

lemma goes_append: "goes ns i (cs @ ds) j \<longleftrightarrow> (\<exists>k. goes ns i cs k \<and> goes ns k ds j)"
  by (induction cs arbitrary: i) auto

lemma goes_mono:
  assumes "\<And>x d k. kid ns x d k \<Longrightarrow> kid ns' x d k"
  shows "goes ns x es i \<Longrightarrow> goes ns' x es i"
proof (induction es arbitrary: x)
  case (Cons d es)
  then show ?case using assms by (metis goes.simps(2))
qed simp

lemma straight_append: "straight ns i (cs @ ds) j \<longleftrightarrow> (\<exists>k. straight ns i cs k \<and> straight ns k ds j)"
  by (induction cs arbitrary: i) auto

lemma straight_goes: "straight ns i cs j \<Longrightarrow> goes ns i cs j"
  by (induction cs arbitrary: i) auto

lemma scalars_of_inj: "scalars_of s = scalars_of t \<longleftrightarrow> s = t"
  by (simp add: scalars_of_def inj_map_eq_map inj_def)

lemma plain_key_inj: "plain_key u \<Longrightarrow> plain_key v \<Longrightarrow> from_utf16_lossy u = from_utf16_lossy v \<Longrightarrow> u = v"
  by (metis plain_key_def)

lemma kid_unique:
  assumes "kid ns i c j" "kid ns i c k" "plain_node (ns ! i)" "\<forall>nd \<in> set ns. shown_node nd"
  shows "j = k"
proof (cases "ns ! i")
  case (ObjectNode ms)
  then have s: "distinct (map (fst \<circ> snd) ms)" "\<forall>m \<in> set ms. fst m = from_utf16_lossy (fst (snd m))"
    and p: "\<forall>u \<in> (fst \<circ> snd) ` set ms. plain_key u"
    using assms nth_mem [of i ns] by (force simp: kid_def shown_node_def plain_node_def)+
  obtain u v where uv: "(c, u, j) \<in> set ms" "(c, v, k) \<in> set ms"
    using assms(1,2) ObjectNode by (auto simp: kid_def)
  have "plain_key u" "plain_key v" using p uv by (force simp: image_iff)+
  moreover have "c = from_utf16_lossy u" "c = from_utf16_lossy v" using bspec [OF s(2) uv(1)] bspec [OF s(2) uv(2)] by simp_all
  ultimately have "u = v" using plain_key_inj by metis
  then show ?thesis using s(1) uv by (force simp: distinct_map inj_on_def)
qed (use assms in \<open>auto simp: kid_def scalars_of_inj decimal_inj\<close>)

lemma straight_unique:
  "straight ns i cs j \<Longrightarrow> goes ns i cs k \<Longrightarrow> \<forall>nd \<in> set ns. shown_node nd \<Longrightarrow> j = k"
  by (induction cs arbitrary: i) (auto dest: kid_unique)

text \<open>The nodes, the pointer each was read at, and the index from pointers to nodes.\<close>

definition laid :: "nat \<Rightarrow> flat_node list \<Rightarrow> scalars list \<Rightarrow> (scalars \<times> nat) list \<Rightarrow> bool" where
  "laid root ns ps m \<longleftrightarrow> root < length ns \<and> length ps = length ns \<and> ps ! root = []
    \<and> (\<forall>nd \<in> set ns. shown_node nd)
    \<and> (\<forall>i c j. kid ns i c j \<longrightarrow> j < length ns \<and> ps ! j = push_pointer_segment (ps ! i) c)
    \<and> (\<forall>cs i. straight ns root cs i \<longrightarrow> map_of m (pointer_of cs) = Some i)
    \<and> (\<forall>r i. map_of m r = Some i \<longrightarrow> (\<exists>cs. goes ns root cs i \<and> r = pointer_of cs))"

lemma laid_pointer:
  assumes "laid root ns ps m" "i < length ns" "goes ns i cs j"
  shows "j < length ns \<and> ps ! j = ps ! i @ pointer_of cs"
  using assms(2,3)
proof (induction cs arbitrary: i)
  case (Cons c cs)
  then obtain k where k: "kid ns i c k" "goes ns k cs j" by auto
  then have "k < length ns" "ps ! k = ps ! i @ 0x2F # escaped c"
    using assms(1) by (auto simp: laid_def push_pointer_segment_escaped)
  then show ?case using Cons.IH [of k] k by simp
qed simp

lemma laid_root: "laid root ns ps m \<Longrightarrow> goes ns root cs j \<Longrightarrow> j < length ns \<and> ps ! j = pointer_of cs"
  using laid_pointer [of root ns ps m root cs j] by (simp add: laid_def)

lemma laid_same: "laid root ns ps m \<Longrightarrow> goes ns root cs j \<Longrightarrow> goes ns root ds j \<Longrightarrow> cs = ds"
  by (metis laid_root pointer_of_inj)

definition childless :: "flat_node \<Rightarrow> bool" where
  "childless nd \<longleftrightarrow> (case nd of ArrayNode items \<Rightarrow> items = [] | ObjectNode ms \<Rightarrow> ms = [] | _ \<Rightarrow> True)"

lemma childless_shown: "childless nd \<Longrightarrow> shown_node nd"
  by (cases nd) (simp_all add: childless_def shown_node_def)

text \<open>A new node below \<open>q\<close> under \<open>c\<close>, in place of one that was there or beside it.\<close>

definition attached :: "flat_node list \<Rightarrow> nat \<Rightarrow> scalars \<Rightarrow> flat_node list \<Rightarrow> bool" where
  "attached ns q c ns' \<longleftrightarrow> length ns' = Suc (length ns) \<and> (\<forall>nd \<in> set ns'. shown_node nd)
    \<and> (\<forall>i d j. kid ns' i d j \<longrightarrow> i < length ns \<and> (kid ns i d j \<or> i = q \<and> d = c \<and> j = length ns))
    \<and> (\<forall>i d j. kid ns i d j \<longrightarrow> \<not> (i = q \<and> d = c) \<longrightarrow> kid ns' i d j)
    \<and> kid ns' q c (length ns)
    \<and> (\<forall>i < length ns. plain_node (ns' ! i) \<longrightarrow> plain_node (ns ! i))"

lemma attached_goes:
  assumes a: "attached ns q c ns'" and l: "laid root ns ps m" and q: "goes ns root ds q"
  shows "goes ns root xs x \<Longrightarrow> goes ns x cs i \<Longrightarrow> \<nexists>es. xs @ cs = ds @ c # es \<Longrightarrow> goes ns' x cs i"
proof (induction cs arbitrary: xs x)
  case (Cons d cs)
  obtain k where k: "kid ns x d k" "goes ns k cs i" using Cons.prems(2) by auto
  have "\<not> (x = q \<and> d = c)"
  proof
    assume "x = q \<and> d = c"
    then have "xs @ d # cs = ds @ c # cs" using laid_same [OF l Cons.prems(1)] q by simp
    then show False using Cons.prems(3) by blast
  qed
  then have "kid ns' x d k" using a k(1) by (auto simp: attached_def)
  moreover have "goes ns' k cs i"
    using Cons.prems(1,3) k by (intro Cons.IH [of "xs @ [d]"]) (auto simp: goes_append)
  ultimately show ?case by auto
qed simp

lemma attached_straight:
  assumes a: "attached ns q c ns'" and l: "laid root ns ps m" and q: "goes ns root ds q"
  shows "straight ns root xs x \<Longrightarrow> straight ns' x cs i \<Longrightarrow> \<nexists>es. xs = ds @ c # es \<Longrightarrow>
    (straight ns x cs i \<and> (\<nexists>es. xs @ cs = ds @ c # es)) \<or> (xs @ cs = ds @ [c] \<and> i = length ns)"
proof (induction cs arbitrary: xs x)
  case (Cons d cs)
  have shown: "\<forall>nd \<in> set ns. shown_node nd" using l by (simp add: laid_def)
  have xl: "x < length ns" using laid_root [OF l straight_goes [OF Cons.prems(1)]] by simp
  obtain k where k: "plain_node (ns' ! x)" "kid ns' x d k" "straight ns' k cs i" using Cons.prems(2) by auto
  then have plain: "plain_node (ns ! x)" using a xl by (simp add: attached_def)
  show ?case
  proof (cases "x = q \<and> d = c")
    case True
    have "k = length ns" using kid_unique [of ns' x d k "length ns"] k True a by (simp add: attached_def)
    moreover have "\<not> kid ns' (length ns) e j" for e j using a by (auto simp: attached_def)
    ultimately have "cs = [] \<and> i = length ns" using k(3) by (cases cs) auto
    then show ?thesis using True laid_same [OF l straight_goes [OF Cons.prems(1)]] q by auto
  next
    case False
    then have kid: "kid ns x d k" using a k(2) by (auto simp: attached_def)
    have nx: "\<nexists>es. xs @ [d] = ds @ c # es"
    proof
      assume "\<exists>es. xs @ [d] = ds @ c # es"
      then obtain es where e: "xs @ [d] = ds @ c # es" by blast
      show False
      proof (cases es rule: rev_cases)
        case Nil
        then have "xs = ds" "d = c" using e by simp_all
        then show ?thesis using straight_unique [OF Cons.prems(1) _ shown] q False by blast
      next
        case (snoc ys y)
        then have "xs = ds @ c # ys" using e by (metis append_Cons append_assoc butlast_snoc)
        then show ?thesis using Cons.prems(3) by blast
      qed
    qed
    have "straight ns root (xs @ [d]) k" using Cons.prems(1) plain kid by (auto simp: straight_append)
    from Cons.IH [OF this k(3) nx] show ?thesis using plain kid by auto
  qed
qed auto

lemma map_of_outside: "map_of (outside p m) r = (if pointer_is_within r p then None else map_of m r)"
  by (induction m) (auto simp: outside_def)

lemma attach_laid:
  assumes a: "attached ns q c ns'" and l: "laid root ns ps m" and q: "goes ns root ds q"
    and p: "p = push_pointer_segment (ps ! q) c"
    and m': "m' = AList.update p (length ns) m1"
    and m1: "m1 = outside p m \<or> m1 = m \<and> (\<forall>j. kid ns q c j \<longrightarrow> kid ns' q c j)"
  shows "laid root ns' (ps @ [p]) m'"
proof -
  have qp: "q < length ns" "ps ! q = pointer_of ds" using laid_root [OF l q] by simp_all
  have pp: "p = pointer_of (ds @ [c])" by (simp add: p qp push_pointer_segment_escaped)
  have len: "length ps = length ns" "root < length ns" using l by (simp_all add: laid_def)
  have within: "pointer_is_within (pointer_of cs) p \<longleftrightarrow> (\<exists>es. cs = ds @ c # es)" for cs
    using within_pointer [of cs "ds @ [c]"] by (simp only: pp) simp
  have at: "pointer_of cs = p \<longleftrightarrow> cs = ds @ [c]" for cs by (simp only: pp pointer_of_inj)
  have kids: "j < length ns' \<and> (ps @ [p]) ! j = push_pointer_segment ((ps @ [p]) ! i) d"
    if k: "kid ns' i d j" for i d j
  proof -
    have i: "i < length ns" "kid ns i d j \<or> i = q \<and> d = c \<and> j = length ns"
      using k a unfolding attached_def by blast+
    have n: "length ns' = Suc (length ns)" using a by (simp add: attached_def)
    from i(2) show ?thesis
    proof
      assume "kid ns i d j"
      then have "j < length ns" "ps ! j = push_pointer_segment (ps ! i) d" using l by (auto simp: laid_def)
      then show ?thesis using i(1) n len by (simp add: nth_append)
    next
      assume "i = q \<and> d = c \<and> j = length ns"
      then show ?thesis using n len qp p by (auto simp: nth_append)
    qed
  qed
  have straight: "map_of m' (pointer_of cs) = Some i" if s: "straight ns' root cs i" for cs i
  proof -
    consider "straight ns root cs i" "\<nexists>es. cs = ds @ c # es" | "cs = ds @ [c]" "i = length ns"
      using attached_straight [OF a l q, of "[]" root cs i] s by auto
    then show ?thesis
    proof cases
      case 1
      then have "pointer_of cs \<noteq> p" using at by blast
      moreover have "map_of m1 (pointer_of cs) = map_of m (pointer_of cs)"
        using m1 within [of cs] 1(2) by (auto simp: map_of_outside)
      moreover have "map_of m (pointer_of cs) = Some i" using l 1(1) by (simp add: laid_def)
      ultimately show ?thesis by (simp add: m' update_conv)
    next
      case 2
      then show ?thesis using at [of cs] by (simp add: m' update_conv)
    qed
  qed
  have keep: "goes ns' root cs i" if "goes ns root cs i" "\<nexists>es. cs = ds @ c # es" for cs i
    using attached_goes [OF a l q, of "[]" root cs i] that by simp
  have index: "\<exists>cs. goes ns' root cs i \<and> r = pointer_of cs" if r: "map_of m' r = Some i" for r i
  proof (cases "r = p")
    case True
    then have "i = length ns" using r by (simp add: m' update_conv)
    moreover have "goes ns' root (ds @ [c]) (length ns)"
      using keep [OF q] a by (auto simp: goes_append attached_def)
    ultimately show ?thesis using True pp by blast
  next
    case False
    then have r1: "map_of m1 r = Some i" using r by (simp add: m' update_conv)
    have "map_of m r = Some i" using m1 r1 by (auto simp: map_of_outside split: if_splits)
    then obtain cs where cs: "goes ns root cs i" "r = pointer_of cs" using l unfolding laid_def by blast
    from m1 show ?thesis
    proof
      assume "m1 = outside p m"
      then have "\<nexists>es. cs = ds @ c # es" using r1 within [of cs] cs(2) by (auto simp: map_of_outside)
      then show ?thesis using keep cs by blast
    next
      assume m: "m1 = m \<and> (\<forall>j. kid ns q c j \<longrightarrow> kid ns' q c j)"
      have "kid ns x d k \<Longrightarrow> kid ns' x d k" for x d k
        using m a unfolding attached_def by metis
      then have "goes ns' root cs i" using goes_mono [of ns ns' root cs i] cs(1) by blast
      then show ?thesis using cs(2) by blast
    qed
  qed
  have "(ps @ [p]) ! root = []" using l len by (simp add: laid_def nth_append)
  moreover have "root < length ns'" "length (ps @ [p]) = length ns'" "\<forall>nd \<in> set ns'. shown_node nd"
    using a len by (simp_all add: attached_def)
  ultimately show ?thesis using kids straight index unfolding laid_def by blast
qed

section \<open>The frames\<close>

text \<open>The current path is the pointer of the innermost open container; the offsets cut it back to
those of the containers around it.\<close>

fun paths :: "scalars list \<Rightarrow> nat list \<Rightarrow> scalars \<Rightarrow> frame list \<Rightarrow> bool" where
  "paths ps offs p [] \<longleftrightarrow> offs = []"
| "paths ps offs p [f] \<longleftrightarrow> offs = [] \<and> p = ps ! frame_node f \<and> path_component f = None"
| "paths ps offs p (f # g # fs) \<longleftrightarrow> offs \<noteq> [] \<and> p = ps ! frame_node f \<and> path_component f \<noteq> None
    \<and> paths ps (butlast offs) (take (last offs) p) (g # fs)"

definition keyed :: "frame \<Rightarrow> bool" where
  "keyed f \<longleftrightarrow> (\<forall>c u. frame_key f = Some (c, u) \<longrightarrow> c = from_utf16_lossy u)"

definition mapped :: "nat \<Rightarrow> json_parser \<Rightarrow> frame list \<Rightarrow> bool" where
  "mapped root st stack \<longleftrightarrow> laid root (nodes st) (node_pointers st) (pointer_nodes st)
    \<and> (\<forall>f \<in> set stack. keyed f \<and> (\<exists>ds. goes (nodes st) root ds (frame_node f)))
    \<and> paths (node_pointers st) (path_offsets st) (current_path st) stack"

definition layout where
  "layout st = (nodes st, node_pointers st, pointer_nodes st, path_offsets st, current_path st)"

lemma mapped_layout: "layout st' = layout st \<Longrightarrow> mapped root st' stack \<longleftrightarrow> mapped root st stack"
  by (simp add: mapped_def layout_def)

lemma layout_simps [simp]:
  "layout (advance n st) = layout st" "layout (whitespace st) = layout st"
  "layout (note_span p r st) = layout st"
  by (simp_all add: layout_def advance_def whitespace_def note_span_def)

lemma eats_layout: "eats st bs st' \<Longrightarrow> layout st' = layout st"
  by (drule eatsD(1)) simp

lemma consume_layout: "consume b st = (c, st') \<Longrightarrow> layout st' = layout st"
  using consume_eats [of b st st'] consume_False [of b st st'] by (cases c) (auto dest: eats_layout)

lemma paths_cong:
  assumes "\<forall>f \<in> set fs. ps' ! frame_node f = ps ! frame_node f"
  shows "paths ps' offs p fs \<longleftrightarrow> paths ps offs p fs"
  using assms by (induction ps offs p fs rule: paths.induct) auto

section \<open>What one turn does to the index\<close>

lemma json_value_lays:
  assumes "json_value st = Ok ((i, state), st')"
  shows "i = length (nodes st) \<and> (\<exists>nd. childless nd \<and>
    layout st' = (nodes st @ [nd], node_pointers st @ [current_path st],
      AList.update (current_path st) i (pointer_nodes st), path_offsets st, current_path st))"
proof -
  have push: "i = length (nodes st) \<and> (\<exists>nd. childless nd \<and>
    layout st2 = (nodes st @ [nd], node_pointers st @ [current_path st],
      AList.update (current_path st) i (pointer_nodes st), path_offsets st, current_path st))"
    if "push_node nd a (current_path (whitespace st)) st1 = (i, st2)" "layout st1 = layout st" "childless nd" for nd a st1 st2
    using that by (auto simp: push_node_def Let_def layout_def whitespace_def)
  have noted: "layout (note_exact j e st2) = layout st2" for j e st2
    by (simp add: note_exact_def layout_def split: option.splits)
  have leaf: "childless (StringNode t)" "childless (Primitive raw)" for t raw by (simp_all add: childless_def)
  from assms show ?thesis
  proof (cases rule: json_value_cases)
    case object
    show ?thesis by (rule push [OF object(3)]) (simp_all add: childless_def)
  next
    case array
    show ?thesis by (rule push [OF array(3)]) (simp_all add: childless_def)
  next
    case (quoted shown exact st1 st2)
    then have "layout st1 = layout st"
      using scan_string_sound [OF quoted(3)] eats_layout by fastforce
    then show ?thesis using push [OF quoted(4) _ leaf(1)] unfolding quoted(5) noted layout_simps by blast
  next
    case (primitive raw st1 st2)
    then have "layout st1 = layout st"
      using primitive_text_sound [OF primitive(2)] eats_layout by fastforce
    then show ?thesis using push [OF primitive(4) _ leaf(2)] unfolding primitive(5) layout_simps by blast
  qed
qed

lemma array_attached:
  assumes "\<forall>nd \<in> set ns. shown_node nd" "childless nd" "q < length ns" "ns ! q = ArrayNode items"
  shows "attached ns q (scalars_of (decimal (length items)))
    ((ns @ [nd])[q := ArrayNode (items @ [length ns])])"
proof -
  let ?ns = "(ns @ [nd])[q := ArrayNode (items @ [length ns])]"
  have "shown_node (ArrayNode xs)" for xs by (simp add: shown_node_def)
  then have "\<forall>nd \<in> set ?ns. shown_node nd"
    using assms(1,2) childless_shown set_update_subset_insert [of "ns @ [nd]" q] by fastforce
  moreover have "kid ?ns i d j \<longleftrightarrow> i < length ns \<and> (kid ns i d j
      \<or> i = q \<and> d = scalars_of (decimal (length items)) \<and> j = length ns)" for i d j
  proof (cases "i = q")
    case True
    have "kid ?ns q d j \<longleftrightarrow> (\<exists>k < Suc (length items). d = scalars_of (decimal k) \<and> j = (items @ [length ns]) ! k)"
      using assms(3) by (simp add: kid_def)
    also have "\<dots> \<longleftrightarrow> (d = scalars_of (decimal (length items)) \<and> j = length ns)
        \<or> (\<exists>k < length items. d = scalars_of (decimal k) \<and> j = items ! k)"
      unfolding Ex_less_Suc by (auto simp: nth_append)
    finally show ?thesis using True assms(3,4) by (auto simp: kid_def)
  next
    case False
    then have "?ns ! i = (if i < length ns then ns ! i else nd)" if "i < Suc (length ns)"
      using that by (auto simp: nth_append less_Suc_eq)
    then show ?thesis using False assms(2)
      by (auto simp: kid_def childless_def split: flat_node.splits)
  qed
  moreover have "plain_node (ns ! i)" if "i < length ns" "plain_node (?ns ! i)" for i
    using that assms(4) by (cases "i = q") (auto simp: plain_node_def nth_append)
  ultimately show ?thesis using assms(3) by (auto simp: attached_def kid_def)
qed

lemma put_field_keys:
  "map fst (put_field k u j ms) =
    (if list_ex (\<lambda>(_, v, _). v = u) ms then map fst ms else map fst ms @ [k])"
  by (induction ms) auto

lemma put_field_entries:
  "(c, v, i) \<in> set (put_field k u j ms) \<Longrightarrow> (c, v, i) \<in> set ms \<or> v = u \<and> i = j \<and> (c = k \<or> (\<exists>i. (c, u, i) \<in> set ms))"
  by (induction ms) (auto split: if_splits)

lemma put_field_has: "\<exists>c. (c, u, j) \<in> set (put_field k u j ms)"
  by (induction ms) auto

lemma put_field_other: "(c, v, i) \<in> set ms \<Longrightarrow> v \<noteq> u \<Longrightarrow> (c, v, i) \<in> set (put_field k u j ms)"
  by (induction ms) auto

lemma put_field_units: "(fst \<circ> snd) ` set (put_field k v x ms) = insert v ((fst \<circ> snd) ` set ms)"
proof (induction ms)
  case (Cons m ms)
  then show ?case by (cases m) (simp add: insert_commute)
qed simp

lemma put_field_unit_list:
  "map (fst \<circ> snd) (put_field k u j ms) =
    (if list_ex (\<lambda>(_, v, _). v = u) ms then map (fst \<circ> snd) ms else map (fst \<circ> snd) ms @ [u])"
  by (induction ms) auto

lemma put_field_shown:
  assumes "shown_node (ObjectNode ms)" "k = from_utf16_lossy u"
  shows "shown_node (ObjectNode (put_field k u j ms))" "(k, u, j) \<in> set (put_field k u j ms)"
proof -
  have ms: "c = from_utf16_lossy v" if "(c, v, i) \<in> set ms" for c v i
    using assms(1) that by (force simp: shown_node_def)
  have new: "c = from_utf16_lossy v" if "(c, v, i) \<in> set (put_field k u j ms)" for c v i
    using put_field_entries [OF that] ms assms(2) by blast
  have "distinct (map (fst \<circ> snd) ms)" using assms(1) by (simp add: shown_node_def)
  then have "distinct (map (fst \<circ> snd) (put_field k u j ms))"
    unfolding put_field_unit_list by (auto simp: list_ex_iff)
  then show "shown_node (ObjectNode (put_field k u j ms))" using new by (auto simp: shown_node_def)
  show "(k, u, j) \<in> set (put_field k u j ms)" using put_field_has [of u j k ms] new assms(2) by auto
qed

lemma object_attached:
  assumes "\<forall>nd \<in> set ns. shown_node nd" "childless nd" "q < length ns" "ns ! q = ObjectNode ms"
    and u: "k = from_utf16_lossy u"
  shows "attached ns q k ((ns @ [nd])[q := ObjectNode (put_field k u (length ns) ms)])"
    "\<not> list_ex (\<lambda>(_, v, _). v = u) ms \<Longrightarrow> kid ns q k j \<Longrightarrow>
      kid ((ns @ [nd])[q := ObjectNode (put_field k u (length ns) ms)]) q k j"
proof -
  let ?ms = "put_field k u (length ns) ms"
  let ?ns = "(ns @ [nd])[q := ObjectNode ?ms]"
  have sh: "shown_node (ObjectNode ms)" using assms(1,3,4) nth_mem by metis
  have ms: "c = from_utf16_lossy v" if "(c, v, i) \<in> set ms" for c v i
    using sh that by (force simp: shown_node_def)
  have shown: "\<forall>nd \<in> set ?ns. shown_node nd"
    using assms(1,2) childless_shown put_field_shown(1) [OF sh u] set_update_subset_insert [of "ns @ [nd]" q]
    by fastforce
  have q: "kid ?ns q d j \<longleftrightarrow> (\<exists>v. (d, v, j) \<in> set ?ms)" "kid ns q d j \<longleftrightarrow> (\<exists>v. (d, v, j) \<in> set ms)" for d j
    using assms(3,4) by (simp_all add: kid_def)
  have other: "kid ?ns i d j \<longleftrightarrow> kid ns i d j" if "i \<noteq> q" for i d j
  proof -
    have "?ns ! i = (if i < length ns then ns ! i else nd)" if "i < Suc (length ns)"
      using that \<open>i \<noteq> q\<close> by (auto simp: nth_append less_Suc_eq)
    then show ?thesis using that assms(2)
      by (auto simp: kid_def childless_def split: flat_node.splits)
  qed
  have new: "kid ns q d j \<or> d = k \<and> j = length ns" if "(d, v, j) \<in> set ?ms" for d v j
    unfolding q(2) using put_field_entries [OF that] ms u by blast
  have fwd: "i < length ns \<and> (kid ns i d j \<or> i = q \<and> d = k \<and> j = length ns)" if "kid ?ns i d j" for i d j
  proof (cases "i = q")
    case True
    then have "kid ?ns q d j" using that by simp
    then obtain v where "(d, v, j) \<in> set ?ms" unfolding q(1) by (rule exE)
    then show ?thesis using new True assms(3) by blast
  next
    case False
    then have "kid ns i d j" using that other by blast
    then show ?thesis by (simp add: kid_def)
  qed
  have bwd: "kid ?ns i d j" if "kid ns i d j" "\<not> (i = q \<and> d = k)" for i d j
  proof (cases "i = q")
    case True
    then have "kid ns q d j" using that by simp
    then obtain v where v: "(d, v, j) \<in> set ms" unfolding q(2) by (rule exE)
    then have "v \<noteq> u" using ms [OF v] u that True by auto
    then show ?thesis using put_field_other [OF v] unfolding True q(1) by (intro exI)
  qed (use that other in simp)
  have "kid ?ns q k (length ns)" unfolding q(1) using put_field_shown(2) [OF sh u] by (rule exI)
  moreover have "plain_node (ns ! i)" if "i < length ns" "plain_node (?ns ! i)" for i
  proof (cases "i = q")
    case True
    have "?ns ! i = ObjectNode ?ms" using True assms(3) by simp
    then have "\<forall>v \<in> (fst \<circ> snd) ` set ?ms. plain_key v" using that(2) by (simp add: plain_node_def)
    then show ?thesis unfolding put_field_units using True assms(4) by (simp add: plain_node_def)
  qed (use that in \<open>simp add: nth_append\<close>)
  ultimately show "attached ns q k ?ns" using shown fwd bwd by (simp add: attached_def)
  show "kid ?ns q k j" if new: "\<not> list_ex (\<lambda>(_, v, _). v = u) ms" and old: "kid ns q k j"
  proof -
    obtain v where v: "(k, v, j) \<in> set ms" using old unfolding q(2) by (rule exE)
    then have "v \<noteq> u" using new by (auto simp: list_ex_iff)
    then show ?thesis using put_field_other [OF v] unfolding q(1) by (intro exI)
  qed
qed

lemma paths_shorter: "paths ps offs p fs \<Longrightarrow> g \<in> set fs \<Longrightarrow> length (ps ! frame_node g) \<le> length p"
proof (induction ps offs p fs rule: paths.induct)
  case (3 ps offs p f g' fs)
  then show ?case by fastforce
qed auto

lemma paths_same:
  assumes "frame_node f' = frame_node f" "path_component f' = path_component f"
  shows "paths ps offs p (f' # fs) \<longleftrightarrow> paths ps offs p (f # fs)"
  using assms by (cases fs) simp_all

text \<open>A value is read below the innermost container.\<close>

lemma value_mapped:
  assumes m: "mapped root st (f # fs)" and q: "q = frame_node f"
    and v: "json_value (push_path c st1) = Ok ((child, state), st2)"
    and s1: "layout st1 = (nodes st, node_pointers st, m1, path_offsets st, current_path st)"
    and m1: "m1 = outside (pointer_with_child st c) (pointer_nodes st)
      \<or> m1 = pointer_nodes st \<and> (\<forall>j. kid (nodes st) q c j \<longrightarrow> kid ns' q c j)"
    and a: "\<And>nd. childless nd \<Longrightarrow> nodes st2 = nodes st @ [nd] \<Longrightarrow> attached (nodes st) q c ns'"
    and f': "frame_node f' = frame_node f" "path_component f' = path_component f" "keyed f'"
    and o: "opened child state c (f' # fs) (st2 \<lparr> nodes := ns' \<rparr>) = Ok (st', stack')"
  shows "mapped root st' stack'"
proof -
  define p where "p = pointer_with_child st c"
  define n where "n = length (nodes st)"
  have l: "laid root (nodes st) (node_pointers st) (pointer_nodes st)"
    and pt: "paths (node_pointers st) (path_offsets st) (current_path st) (f # fs)"
    using m by (simp_all add: mapped_def)
  obtain ds where ds: "goes (nodes st) root ds q" using m q by (auto simp: mapped_def)
  have cur: "current_path st = node_pointers st ! q" using pt by (cases fs) (simp_all add: q)
  have s1': "nodes st1 = nodes st" "node_pointers st1 = node_pointers st" "pointer_nodes st1 = m1"
      "path_offsets st1 = path_offsets st" "current_path st1 = current_path st"
    using s1 by (simp_all add: layout_def)
  obtain nd where nd: "childless nd" and child: "child = n" and l2:
    "nodes st2 = nodes st @ [nd]" "node_pointers st2 = node_pointers st @ [p]"
    "pointer_nodes st2 = AList.update p n m1" "path_offsets st2 = path_offsets st @ [length (current_path st)]"
    "current_path st2 = p"
    using json_value_lays [OF v] by (auto simp: layout_def s1' p_def n_def push_path_def pointer_with_child_def)
  note at = a [OF nd l2(1)]
  have p: "p = push_pointer_segment (node_pointers st ! q) c" by (simp add: p_def pointer_with_child_def cur)
  have new: "laid root ns' (node_pointers st @ [p]) (AList.update p n m1)"
    using attach_laid [OF at l ds p _ m1 [folded p_def]] by (simp add: n_def)
  have up: "goes ns' root (ds @ [c]) n"
    using attached_goes [OF at l ds, of "[]" root ds q] ds at by (auto simp: goes_append attached_def n_def)
  have low: "length (node_pointers st ! frame_node g) \<le> length (current_path st)" if "g \<in> set (f # fs)" for g
    using paths_shorter [OF pt that] .
  have frames: "\<exists>es. goes (nodes st) root es (frame_node g)" if "g \<in> set (f # fs)" for g
    using m that unfolding mapped_def by blast
  have still: "\<exists>es. goes ns' root es (frame_node g)" if g: "g \<in> set (f # fs)" for g
  proof -
    obtain es where es: "goes (nodes st) root es (frame_node g)" using frames [OF g] by blast
    have "\<nexists>xs. es = ds @ c # xs"
      using low [OF that] laid_root [OF l es] laid_root [OF l ds] by (auto simp: cur)
    then show ?thesis using attached_goes [OF at l ds, of "[]" root es "frame_node g"] es by auto
  qed
  have within: "frame_node g < length (node_pointers st)" if "g \<in> set (f # fs)" for g
    using frames [OF that] laid_root [OF l] l by (force simp: laid_def)
  have len: "n = length (node_pointers st)" using l by (simp add: n_def laid_def)
  have pt': "paths (node_pointers st @ [p]) (path_offsets st) (current_path st) (f' # fs)"
    using pt within paths_same [OF f'(1,2)] paths_cong [of "f # fs" "node_pointers st @ [p]" "node_pointers st"]
    by (simp add: nth_append)
  have cut: "take (length (current_path st)) p = current_path st"
    by (simp add: p cur push_pointer_segment_escaped)
  have keys: "keyed g" if "g \<in> set fs" for g using m that by (simp add: mapped_def)
  show ?thesis
  proof (cases state)
    case None
    then have "stack' = f' # fs" "nodes st' = ns'" "node_pointers st' = node_pointers st @ [p]"
      "pointer_nodes st' = AList.update p n m1" "path_offsets st' = path_offsets st"
      "current_path st' = current_path st"
      using o cut by (auto simp: opened_def bind_result_Inr pop_path_expect_def pop_path_def l2
          split: if_splits sum.splits)
    then show ?thesis using new pt' still keys f' by (auto simp: mapped_def)
  next
    case (Some s)
    then have st': "st' = st2 \<lparr> nodes := ns' \<rparr>"
      and stack': "stack' = \<lparr> frame_node = n, frame_at = s, frame_key = None, path_component = Some c \<rparr> # f' # fs"
      using o by (simp_all add: opened_def child)
    have "paths (node_pointers st @ [p]) (path_offsets st @ [length (current_path st)]) p stack'"
      using pt' cut by (simp add: stack' len)
    then show ?thesis using new still keys f' up by (auto simp: mapped_def st' stack' l2 keyed_def)
  qed
qed

lemma array_value_mapped:
  assumes "array_value q st (f # fs) = Ok (st', stack')" "mapped root st (f # fs)" "q = frame_node f"
  shows "mapped root st' stack'"
  using assms(1)
proof (cases rule: array_value_cases)
  case (1 items items' child state st1 f0 fs0)
  have l: "laid root (nodes st) (node_pointers st) (pointer_nodes st)" using assms(2) by (simp add: mapped_def)
  have i: "q < length (nodes st)" "nodes st ! q = ArrayNode items"
    using 1(1) by (auto simp: get_node_def split: if_splits)
  have st1: "child = length (nodes st)" "\<exists>nd. childless nd \<and> nodes st1 = nodes st @ [nd]"
    using json_value_lays [OF 1(2)] by (auto simp: layout_def push_path_def)
  then have items': "items' = items" "f0 = f" "fs0 = fs" using 1(3,4) i by (auto simp: get_node_def nth_append split: if_splits)
  show ?thesis
  proof (rule value_mapped [OF assms(2,3) 1(2) _ _ _ _ _ _ 1(5) [unfolded items']])
    show "layout st = (nodes st, node_pointers st, pointer_nodes st, path_offsets st, current_path st)"
      by (simp add: layout_def)
    show "pointer_nodes st = outside (pointer_with_child st (scalars_of (decimal (length items)))) (pointer_nodes st)
      \<or> pointer_nodes st = pointer_nodes st \<and> (\<forall>j. kid (nodes st) q (scalars_of (decimal (length items))) j \<longrightarrow>
          kid ((nodes st1)[q := ArrayNode (items @ [child])]) q (scalars_of (decimal (length items))) j)"
      using i by (simp add: kid_def scalars_of_inj decimal_inj)
    show "attached (nodes st) q (scalars_of (decimal (length items)))
        ((nodes st1)[q := ArrayNode (items @ [child])])" if "childless nd" "nodes st1 = nodes st @ [nd]" for nd
      using array_attached [OF _ that(1) i] l that(2) by (simp add: st1(1) laid_def)
    show "keyed (f \<lparr> frame_at := ArrayComma \<rparr>)" using assms(2) by (simp add: mapped_def keyed_def)
  qed simp_all
qed

lemma opened_nodes: "opened i state c stack st = Ok (st', stack') \<Longrightarrow> nodes st' = nodes st"
  by (rule core_eq(2) [OF opened_core])

lemma object_value_mapped:
  assumes "object_value q st (f # fs) = Ok (st', stack')" "mapped root st (f # fs)" "q = frame_node f"
  shows "mapped root st' stack'"
  using assms(1)
proof (cases rule: object_value_cases)
  case (1 f0 fs0 key units members members' st1 child state st2)
  have shown: "\<forall>nd \<in> set (nodes st). shown_node nd" using assms(2) by (simp add: mapped_def laid_def)
  have i: "q < length (nodes st)" "nodes st ! q = ObjectNode members"
    using 1(3) by (auto simp: get_node_def split: if_splits)
  have lay1: "layout (note_key p units st1) = (nodes st, node_pointers st,
      if list_ex (\<lambda>(_, u, _). u = units) members then outside (pointer_with_child st key) (pointer_nodes st)
      else pointer_nodes st, path_offsets st, current_path st)" for p
    by (simp add: 1(4) note_key_def clear_replaced_subtree_def layout_def)
  obtain nd0 where st2: "child = length (nodes st)" "childless nd0" "nodes st2 = nodes st @ [nd0]"
    using json_value_lays [OF 1(5)] lay1 by (auto simp: layout_def push_path_def)
  then have e: "members' = members" "f0 = f" "fs0 = fs"
    using 1(1,6) i by (auto simp: get_node_def nth_append split: if_splits)
  have key: "key = from_utf16_lossy units" using assms(2) 1(2) by (simp add: mapped_def keyed_def e)
  show ?thesis
  proof (rule value_mapped [OF assms(2,3) 1(5) lay1 _ _ _ _ _ 1(7) [unfolded e]])
    show "(if list_ex (\<lambda>(_, u, _). u = units) members then outside (pointer_with_child st key) (pointer_nodes st)
        else pointer_nodes st) = outside (pointer_with_child st key) (pointer_nodes st)
      \<or> (if list_ex (\<lambda>(_, u, _). u = units) members then outside (pointer_with_child st key) (pointer_nodes st)
        else pointer_nodes st) = pointer_nodes st
        \<and> (\<forall>j. kid (nodes st) q key j \<longrightarrow>
            kid ((nodes st2)[q := ObjectNode (put_field key units child members)]) q key j)"
      using object_attached(2) [OF shown st2(2) i key] by (simp add: st2)
    show "attached (nodes st) q key ((nodes st2)[q := ObjectNode (put_field key units child members)])"
      if "childless nd" "nodes st2 = nodes st @ [nd]" for nd
      using object_attached(1) [OF shown that(1) i key] that(2) by (simp add: st2(1))
  qed (simp_all add: keyed_def)
qed

lemma pop_frame_mapped:
  assumes "pop_frame st (f # fs) = Ok (st', stack')" "mapped root st (f # fs)"
  shows "mapped root st' stack'"
proof -
  have n: "stack' = fs" "nodes st' = nodes st" using pop_frame_eq(1,3) [OF assms(1)] by simp_all
  have p: "node_pointers st' = node_pointers st" "pointer_nodes st' = pointer_nodes st"
    using assms(1) by (auto simp: pop_frame_def Let_def bind_result_Inr pop_path_def note_span_def
        split: if_splits option.splits)
  have "paths (node_pointers st) (path_offsets st') (current_path st') fs"
    using assms by (cases fs) (auto simp: mapped_def pop_frame_def Let_def bind_result_Inr pop_path_def note_span_def
        split: if_splits option.splits)
  then show ?thesis using assms(2) by (simp add: mapped_def n p)
qed

lemma mapped_top:
  assumes "mapped root st (f # fs)" "frame_node f' = frame_node f" "path_component f' = path_component f" "keyed f'"
  shows "mapped root st (f' # fs)"
  using assms paths_same [OF assms(2,3)] by (auto simp: mapped_def)

lemma object_key_mapped:
  assumes "object_key st (f # fs) = Ok (st', stack')" "mapped root st (f # fs)"
  shows "mapped root st' stack'"
proof -
  obtain key exact where s: "scan_string st = Ok ((key, exact), st')"
    and stack': "stack' = f \<lparr> frame_key := Some (key, case exact of Some us \<Rightarrow> us | None \<Rightarrow> encode_utf16 key),
        frame_at := ObjectColon \<rparr> # fs"
    using assms(1) by (auto simp: object_key_Ok)
  obtain us where t: "layout st' = layout st" "key = from_utf16_lossy us" "exact = exact_units us"
    using scan_string_sound [OF s] eats_layout by blast
  have us: "(case exact of Some us \<Rightarrow> us | None \<Rightarrow> encode_utf16 key) = us"
    using valid_encode [of us] t(2,3) by (simp add: exact_units_def)
  have m: "mapped root st' (f # fs)" using assms(2) mapped_layout [OF t(1)] by simp
  show ?thesis unfolding stack' us by (rule mapped_top [OF m]) (simp_all add: keyed_def t(2))
qed

lemma frame_step_mapped:
  assumes "frame_step st0 stack = Ok (st', stack')" "mapped root st0 stack"
  shows "mapped root st' stack'"
proof -
  obtain f fs where stack: "stack = f # fs"
    using assms(1) by (auto simp: frame_step_def Let_def split: list.splits)
  define st where "st = whitespace st0"
  have m: "mapped root st (f # fs)"
    using assms(2) mapped_layout [OF layout_simps(2)] unfolding stack st_def by blast
  note s = assms(1) [unfolded frame_step_def Let_def stack list.case st_def [symmetric]]
  have c: "mapped root st1 (f # fs)" if "consume b st = (r, st1)" for b r st1
    using m mapped_layout [OF consume_layout [OF that]] by blast
  have c2: "mapped root st2 (f # fs)" if "consume b st = (r, st1)" "consume b' st1 = (r', st2)" for b b' r r' st1 st2
    using c [OF that(1)] mapped_layout [OF consume_layout [OF that(2)]] by blast
  have t: "mapped root st1 (f \<lparr> frame_at := a \<rparr> # fs)" if "mapped root st1 (f # fs)" for st1 a
    using that by (intro mapped_top [OF that]) (simp_all add: mapped_def keyed_def)
  show ?thesis
  proof (cases "frame_at f")
    case FirstArray
    then show ?thesis using s
      by (auto split: prod.splits bool.splits dest: c intro: pop_frame_mapped array_value_mapped)
  next
    case ArrayValue
    then show ?thesis using s m by (auto intro: array_value_mapped)
  next
    case ArrayComma
    then show ?thesis using s
      by (auto split: prod.splits bool.splits dest: c c2 intro: pop_frame_mapped t)
  next
    case FirstObject
    then show ?thesis using s
      by (auto split: prod.splits bool.splits dest: c intro: pop_frame_mapped object_key_mapped)
  next
    case ObjectKey
    then show ?thesis using s m by (auto intro: object_key_mapped)
  next
    case ObjectColon
    then show ?thesis using s by (auto split: prod.splits bool.splits dest: c intro: t)
  next
    case ObjectValue
    then show ?thesis using s m by (auto intro: object_value_mapped)
  next
    case ObjectComma
    then show ?thesis using s
      by (auto split: prod.splits bool.splits dest: c c2 intro: pop_frame_mapped t)
  qed
qed

lemma document_loop_mapped:
  "document_loop st stack = Ok st' \<Longrightarrow> mapped root st stack \<Longrightarrow> mapped root st' []"
proof (induction st stack rule: document_loop.induct)
  case (1 st stack)
  show ?case
  proof (cases "stack = []")
    case True
    then show ?thesis using 1 by (simp add: document_loop.simps)
  next
    case False
    then obtain st1 stack1 where s: "frame_step st stack = Ok (st1, stack1)" "document_loop st1 stack1 = Ok st'"
      using "1.prems" by (subst (asm) document_loop.simps) (auto split: sum.splits prod.splits)
    then show ?thesis
      using "1.IH" [OF False s(1) refl s(2) frame_step_mapped [OF s(1) "1.prems"(2)]] by simp
  qed
qed

section \<open>Array positions\<close>

definition digits_value :: "string \<Rightarrow> nat" where
  "digits_value s = foldl (\<lambda>n c. 10 * n + digit_val c) 0 s"

lemma digits_value_snoc [simp]: "digits_value (s @ [c]) = 10 * digits_value s + digit_val c"
  by (simp add: digits_value_def)

lemma digit_facts: "n < 10 \<Longrightarrow> is_digit (digit n) \<and> digit_val (digit n) = n \<and> (digit n = CHR ''0'' \<longrightarrow> n = 0)"
proof -
  assume "n < 10"
  then have "n \<in> set [0, 1, 2, 3, 4, 5, 6, 7, 8, 9]" by auto
  moreover have "\<forall>n \<in> set [0, 1, 2, 3, 4, 5, 6, 7, 8, 9].
    is_digit (digit n) \<and> digit_val (digit n) = n \<and> (digit n = CHR ''0'' \<longrightarrow> n = 0)" by code_simp
  ultimately show ?thesis by blast
qed

lemma is_digit_digit: "is_digit c \<Longrightarrow> digit_val c < 10 \<and> digit (digit_val c) = c"
proof -
  assume c: "is_digit c"
  have "(of_char c :: nat) \<le> 57" "48 \<le> (of_char c :: nat)"
    using c by (auto simp: is_digit_def less_eq_char_def)
  then show ?thesis by (simp add: digit_val_def digit_def)
qed

lemma decimal_digits:
  "decimal n \<noteq> [] \<and> list_all is_digit (decimal n) \<and> digits_value (decimal n) = n
    \<and> (hd (decimal n) = CHR ''0'' \<longrightarrow> n = 0)"
proof (induction n rule: less_induct)
  case (less n)
  show ?case
  proof (cases "n < 10")
    case True
    then show ?thesis using digit_facts [OF True] digits_value_snoc [of "[]" "digit n"]
      by (simp add: decimal.simps [of n] digits_value_def)
  next
    case False
    have m: "n mod 10 < 10" by simp
    show ?thesis using less [of "n div 10"] False digit_facts [OF m] by (subst (1 2 3 4) decimal.simps) auto
  qed
qed

lemma digits_decimal:
  "s \<noteq> [] \<Longrightarrow> list_all is_digit s \<Longrightarrow> hd s \<noteq> CHR ''0'' \<or> length s = 1 \<Longrightarrow>
    decimal (digits_value s) = s \<and> (hd s \<noteq> CHR ''0'' \<longrightarrow> 0 < digits_value s)"
proof (induction s rule: rev_induct)
  case (snoc c s)
  have c: "digit_val c < 10" "digit (digit_val c) = c" using is_digit_digit [of c] snoc.prems by simp_all
  show ?case
  proof (cases "s = []")
    case True
    have "0 < digit_val c" if "c \<noteq> CHR ''0''"
    proof (rule ccontr)
      assume "\<not> 0 < digit_val c"
      then have "c = digit 0" using c(2) by simp
      moreover have "digit 0 = CHR ''0''" by code_simp
      ultimately show False using that by simp
    qed
    then show ?thesis using True c by (simp add: digits_value_def decimal.simps)
  next
    case False
    then have "hd s \<noteq> CHR ''0''" using snoc.prems by auto
    then have "decimal (digits_value s) = s" "0 < digits_value s" using snoc.IH snoc.prems False by simp_all
    then show ?thesis using c by (subst decimal.simps) auto
  qed
qed simp

lemma array_index_iff: "array_index s = Some k \<longleftrightarrow> s = decimal k \<and> k < 2 ^ 64"
proof
  assume a: "array_index s = Some k"
  then have s: "s \<noteq> []" "list_all is_digit s" "k = digits_value s" "k < 2 ^ 64"
    "\<not> (take 1 s = ''0'' \<and> length s \<noteq> 1)"
    by (auto simp: array_index_def parse_digits_def digits_value_def split: if_splits)
  then have "hd s \<noteq> CHR ''0'' \<or> length s = 1" by (cases s) auto
  then show "s = decimal k \<and> k < 2 ^ 64" using digits_decimal [OF s(1,2)] s by simp
next
  assume s: "s = decimal k \<and> k < 2 ^ 64"
  have "\<not> (take 1 s = ''0'' \<and> length s \<noteq> 1)"
  proof
    assume z: "take 1 s = ''0'' \<and> length s \<noteq> 1"
    then have "hd s = CHR ''0''" by (cases s) auto
    then have "k = 0" using decimal_digits [of k] s by simp
    then show False using z s by (simp add: decimal.simps)
  qed
  then show "array_index s = Some k"
    using s decimal_digits [of k] by (simp add: array_index_def parse_digits_def digits_value_def [symmetric])
qed

lemma segment_index_iff: "segment_index c = Some k \<longleftrightarrow> c = scalars_of (decimal k) \<and> k < 2 ^ 64"
proof -
  have d: "list_all (\<lambda>x. x < 128) (scalars_of (decimal k))"
    using decimal_digits [of k] by (fastforce simp: scalars_of_def list_all_iff is_digit_def less_eq_char_def)
  have inv: "map char_of (scalars_of s) = s" for s by (simp add: scalars_of_def comp_def)
  have "scalars_of (map char_of c) = c" if "list_all (\<lambda>x. x < 128) c"
    using that by (induction c) (simp_all add: scalars_of_def)
  then show ?thesis using d inv by (auto simp: segment_index_def array_index_iff split: if_splits)
qed

section \<open>The index is the walk\<close>

fun tree_child :: "json_tree \<Rightarrow> scalars \<Rightarrow> json_tree option" where
  "tree_child (JArr _ ts) c =
    (case segment_index c of Some k \<Rightarrow> if k < length ts then Some (ts ! k) else None | None \<Rightarrow> None)"
| "tree_child (JObj _ kts) c = map_of kts (encode_utf16 c)"
| "tree_child _ c = None"

text \<open>The value a path leads to.\<close>

fun tree_get :: "json_tree \<Rightarrow> scalars list \<Rightarrow> json_tree option" where
  "tree_get t [] = Some t"
| "tree_get t (c # cs) = (case tree_child t c of Some u \<Rightarrow> tree_get u cs | None \<Rightarrow> None)"

definition doc_walk :: "flat_document \<Rightarrow> nat \<Rightarrow> scalars list \<Rightarrow> nat option" where
  "doc_walk d i cs = walk_segments d i (map escaped cs)"

lemma doc_walk_simps [simp]:
  "doc_walk d i [] = Some i"
  "doc_walk d i (c # cs) = (case child_at d i (escaped c) of Some j \<Rightarrow> doc_walk d j cs | None \<Rightarrow> None)"
  by (simp_all add: doc_walk_def split: option.splits)

text \<open>Every object the path goes through has plain keys.\<close>

fun plain_path :: "json_tree \<Rightarrow> scalars list \<Rightarrow> bool" where
  "plain_path t [] \<longleftrightarrow> True"
| "plain_path t (c # cs) \<longleftrightarrow>
    (case t of JObj _ kts \<Rightarrow> list_all (\<lambda>(k, u). plain_key k) kts | _ \<Rightarrow> True)
    \<and> (case tree_child t c of Some u \<Rightarrow> plain_path u cs | None \<Rightarrow> True)"

lemma find_member:
  "list_all2 (\<lambda>m kt. fst m = from_utf16_lossy (fst kt) \<and> fst (snd m) = fst kt \<and> P (snd (snd m)) (snd kt)) ms kts
   \<Longrightarrow> rel_option P (map_option (\<lambda>(_, _, j). j) (List.find (\<lambda>(_, k, _). k = us) ms)) (map_of kts us)"
proof (induction rule: list_all2_induct)
  case (Cons m ms kt kts)
  then show ?case by (cases m; cases kt) auto
qed simp

lemma child_stands:
  assumes "stands_for s d i t"
  shows "rel_option (stands_for s d) (child_at d i (escaped c)) (tree_child t c)"
  using assms unfolding stands_for_def
proof (cases rule: tree_at.cases)
  case (at_arr items ts)
  then have "node_of d i = ArrayNode items" by (simp add: node_of_def parser_of_def)
  moreover have "length items = length ts" "\<forall>k < length items. tree_at (parser_of s d) {} (items ! k) (ts ! k)"
    using at_arr by (auto dest: list_all2_lengthD list_all2_nthD)
  ultimately show "rel_option (tree_at (parser_of s d) {}) (child_at d i (escaped c)) (tree_child t c)"
    using at_arr by (simp add: child_at_def split: option.splits)
next
  case (at_obj ms kts)
  then have "node_of d i = ObjectNode ms" by (simp add: node_of_def parser_of_def)
  then show "rel_option (tree_at (parser_of s d) {}) (child_at d i (escaped c)) (tree_child t c)"
    using at_obj find_member [of "tree_at (parser_of s d) {}" ms kts "encode_utf16 c"]
    by (simp add: child_at_def)
qed (simp_all add: child_at_def node_of_def parser_of_def)

lemma walk_stands:
  "stands_for s d i t \<Longrightarrow> rel_option (stands_for s d) (doc_walk d i cs) (tree_get t cs)"
proof (induction cs arbitrary: i t)
  case (Cons c cs)
  show ?case using child_stands [OF Cons.prems, of c]
    by (cases "child_at d i (escaped c)"; cases "tree_child t c") (simp_all add: Cons.IH)
qed simp

lemma exact_walk:
  assumes "doc_exact_keys (scanned sc) \<noteq> []"
  shows "node_id_at sc (pointer_of cs) = doc_walk (scanned sc) (doc_root (scanned sc)) cs"
proof (cases cs)
  case Nil
  then show ?thesis using assms by (simp add: node_id_at_def)
next
  case (Cons c ds)
  have "split_on 0x2F (escaped c @ pointer_of ds) = map escaped (c # ds)" for c ds
  proof (induction ds arbitrary: c)
    case Nil
    then show ?case using split_on_no_sep [OF escaped_no_slash] by simp
  next
    case (Cons d ds)
    then show ?case using split_on_append_sep [OF escaped_no_slash, of c "escaped d @ pointer_of ds"] by simp
  qed
  then show ?thesis
    using assms strip_prefix_append [of "[0x2F]" "escaped c @ pointer_of ds"]
    by (simp add: node_id_at_def Cons doc_walk_def Let_def)
qed

lemma short_lists:
  "value_text b t \<Longrightarrow> True"
  "elements_text es ts \<Longrightarrow> length ts \<le> length es"
  "members_text ms kts \<Longrightarrow> True"
proof (induction rule: value_text_elements_text_members_text.inducts)
  case (first_element w bs t w')
  then show ?case using value_start [of bs t] by (cases bs) simp_all
qed simp_all

lemma short_arrays: "value_text b (JArr x ts) \<Longrightarrow> length ts \<le> length b"
  by (erule value_text.cases) (auto dest: short_lists(2))

lemma stands_short:
  assumes "document s = Ok d" "valid_utf8 s" "stands_for s d i t"
  shows "length (tree_text t) \<le> length s"
proof -
  obtain sp where "str_get s sp = Some (tree_text t)" using node_source(2) [OF assms] by blast
  then have "tree_text t = take (snd sp - fst sp) (drop (fst sp) s)" by (simp add: str_get_def split: if_splits)
  then show ?thesis by simp
qed

lemma kid_child:
  assumes st: "stands_for s d i t" and d: "document s = Ok d" "valid_utf8 s" "length s < 2 ^ 64"
    and sh: "shown_node (doc_nodes d ! i)" and pl: "plain_node (doc_nodes d ! i)" and c: "list_all is_scalar c"
  shows "kid (doc_nodes d) i c j \<longleftrightarrow> child_at d i (escaped c) = Some j"
proof -
  have i: "i < length (doc_nodes d)" and v: "value_text (tree_text t) t"
    using tree_at_text [OF st [unfolded stands_for_def]] by (auto simp: parser_of_def)
  have n: "node_of d i = doc_nodes d ! i" by (simp add: node_of_def)
  show ?thesis
  proof (cases "doc_nodes d ! i")
    case (ArrayNode items)
    have "length items \<le> length s"
      using st unfolding stands_for_def
    proof (cases rule: tree_at.cases)
      case (at_arr items' ts)
      then have "length items = length ts" using ArrayNode by (auto simp: parser_of_def dest: list_all2_lengthD)
      moreover have "length ts \<le> length (tree_text t)" using v short_arrays by (simp add: at_arr(1))
      ultimately show ?thesis using stands_short [OF d(1,2) st] by simp
    qed (use ArrayNode in \<open>simp_all add: parser_of_def\<close>)
    then have small: "k < 2 ^ 64" if "k < length items" for k using d(3) that by linarith
    have "(\<exists>k < length items. c = scalars_of (decimal k) \<and> j = items ! k)
      \<longleftrightarrow> (\<exists>k < length items. segment_index c = Some k \<and> j = items ! k)"
      using small by (auto simp: segment_index_iff)
    moreover have "child_at d i (escaped c) =
        (case segment_index c of Some k \<Rightarrow> if k < length items then Some (items ! k) else None | None \<Rightarrow> None)"
      by (simp add: child_at_def n ArrayNode)
    ultimately show ?thesis by (cases "segment_index c") (auto simp: kid_def i ArrayNode)
  next
    case (ObjectNode ms)
    have ms: "k = c \<longleftrightarrow> u = encode_utf16 c" if "(k, u, x) \<in> set ms" for k u x
    proof -
      have "k = from_utf16_lossy u" "encode_utf16 (from_utf16_lossy u) = u"
        using sh pl that by (force simp: ObjectNode shown_node_def plain_node_def plain_key_def)+
      then show ?thesis using c lossy_encode_append [of c "[]"] by (auto simp: list_all_iff)
    qed
    have dist: "distinct (map (fst \<circ> snd) ms)" using sh by (simp add: ObjectNode shown_node_def)
    have "(\<exists>u. (c, u, j) \<in> set ms) \<longleftrightarrow>
      map_option (\<lambda>(_, _, j). j) (List.find (\<lambda>(_, k, _). k = encode_utf16 c) ms) = Some j"
      using ms dist
    proof (induction ms)
      case (Cons m ms)
      obtain k u x where m: "m = (k, u, x)" by (cases m)
      have k: "k = c \<longleftrightarrow> u = encode_utf16 c" using Cons.prems(1) [of k u x] by (simp add: m)
      have IH: "(\<exists>u. (c, u, j) \<in> set ms) \<longleftrightarrow>
        map_option (\<lambda>(_, _, j). j) (List.find (\<lambda>(_, k, _). k = encode_utf16 c) ms) = Some j"
        by (rule Cons.IH) (use Cons.prems in auto)
      show ?case
      proof (cases "k = c")
        case True
        have "(c, v, y) \<notin> set ms" for v y
        proof
          assume y: "(c, v, y) \<in> set ms"
          then have "v = u" using Cons.prems(1) [of c v y] True k by simp
          then show False using Cons.prems(2) y by (force simp: m image_iff)
        qed
        then show ?thesis using True k by (auto simp: m)
      next
        case False
        then show ?thesis using k IH by (simp add: m)
      qed
    qed simp
    then show ?thesis by (simp add: kid_def i ObjectNode child_at_def n)
  qed (simp_all add: kid_def child_at_def n)
qed

lemma stands_plain:
  assumes "stands_for s d i t" "plain_path t (c # cs)"
  shows "plain_node (doc_nodes d ! i)"
  using assms(1) unfolding stands_for_def
proof (cases rule: tree_at.cases)
  case (at_obj ms kts)
  have "list_all (\<lambda>(k, u). plain_key k) kts" using assms(2) by (simp add: at_obj(1))
  with at_obj(5) have "\<forall>m \<in> set ms. plain_key (fst (snd m))"
    by (induction rule: list_all2_induct) auto
  then show ?thesis using at_obj(4) by (auto simp: plain_node_def parser_of_def)
qed (simp_all add: plain_node_def parser_of_def)

lemma goes_walk:
  assumes d: "document s = Ok d" "valid_utf8 s" "length s < 2 ^ 64" and sh: "\<forall>nd \<in> set (doc_nodes d). shown_node nd"
  shows "stands_for s d i t \<Longrightarrow> list_all (list_all is_scalar) cs \<Longrightarrow> plain_path t cs \<Longrightarrow>
    (goes (doc_nodes d) i cs j \<longleftrightarrow> doc_walk d i cs = Some j)
    \<and> (goes (doc_nodes d) i cs j \<longrightarrow> straight (doc_nodes d) i cs j)"
proof (induction cs arbitrary: i t)
  case (Cons c cs)
  have i: "i < length (doc_nodes d)"
    using tree_at_text [OF Cons.prems(1) [unfolded stands_for_def]] by (auto simp: parser_of_def)
  note plain = stands_plain [OF Cons.prems(1,3)]
  have k: "kid (doc_nodes d) i c k \<longleftrightarrow> child_at d i (escaped c) = Some k" for k
    using kid_child [OF Cons.prems(1) d _ plain] sh i Cons.prems(2) by simp
  show ?case
  proof (cases "child_at d i (escaped c)")
    case (Some k')
    then obtain u where "stands_for s d k' u" "tree_child t c = Some u"
      using child_stands [OF Cons.prems(1), of c] by (auto simp: option_rel_Some1)
    then show ?thesis using Cons.IH [of k' u] Cons.prems(2,3) plain by (auto simp: k Some)
  qed (simp add: k)
qed auto

lemma laid_walk:
  assumes l: "laid (doc_root d) (doc_nodes d) ps (doc_pointer_nodes d)" and t: "stands_for s d (doc_root d) t"
    and d: "document s = Ok d" "valid_utf8 s" "length s < 2 ^ 64"
    and cs: "list_all (list_all is_scalar) cs" "plain_path t cs"
  shows "map_of (doc_pointer_nodes d) (pointer_of cs) = doc_walk d (doc_root d) cs"
proof -
  have sh: "\<forall>nd \<in> set (doc_nodes d). shown_node nd" using l by (simp add: laid_def)
  have "map_of (doc_pointer_nodes d) (pointer_of cs) = Some j \<longleftrightarrow> doc_walk d (doc_root d) cs = Some j" for j
  proof
    assume "map_of (doc_pointer_nodes d) (pointer_of cs) = Some j"
    then obtain ds where "goes (doc_nodes d) (doc_root d) ds j" "pointer_of cs = pointer_of ds"
      using l unfolding laid_def by blast
    then show "doc_walk d (doc_root d) cs = Some j"
      using goes_walk [OF d sh t cs, of j] by (simp add: pointer_of_inj)
  next
    assume "doc_walk d (doc_root d) cs = Some j"
    then have "straight (doc_nodes d) (doc_root d) cs j" using goes_walk [OF d sh t cs, of j] by blast
    then show "map_of (doc_pointer_nodes d) (pointer_of cs) = Some j" using l unfolding laid_def by blast
  qed
  then show ?thesis by (metis option.exhaust)
qed

lemma document_laid:
  assumes "document s = Ok d"
  shows "laid (doc_root d) (doc_nodes d) (doc_node_pointers d) (doc_pointer_nodes d)"
proof -
  obtain root state st st' where v: "json_value (new_parser s) = Ok ((root, state), st)"
      "document_loop st (first_frame root state) = Ok st'"
    and d: "doc_root d = root" "doc_nodes d = nodes st'" "doc_node_pointers d = node_pointers st'"
      "doc_pointer_nodes d = pointer_nodes st'"
    using assms(1) unfolding document_Ok by auto
  obtain nd where nd: "childless nd" and l: "root = 0"
    "layout st = ([nd], [[]], [([], 0)], [], [])"
    using json_value_lays [OF v(1)] by (auto simp: new_parser_def)
  have k: "\<not> kid [nd] i c j" for i c j
    using nd by (auto simp: kid_def childless_def split: flat_node.splits)
  then have g: "goes [nd] i cs j \<longleftrightarrow> cs = [] \<and> j = i" "straight [nd] i cs j \<longleftrightarrow> cs = [] \<and> j = i" for i cs j
    by (cases cs; auto)+
  have "mapped root st (first_frame root state)"
    using l childless_shown [OF nd]
    by (auto simp: mapped_def layout_def laid_def k g first_frame_def keyed_def split: option.splits if_splits)
  then have "mapped root st' []" using document_loop_mapped [OF v(2)] by blast
  then show ?thesis by (simp add: mapped_def d)
qed

lemma pointer_reads:
  assumes "parse_scanner b m = Ok sc" "json_text b t" "length b < 2 ^ 64"
    and "plain_path t cs \<or> doc_exact_keys (scanned sc) \<noteq> []"
    and "list_all (list_all is_scalar) cs"
  shows "rel_option (stands_for b (scanned sc)) (node_id_at sc (pointer_of cs)) (tree_get t cs)"
    "raw_source_at sc (pointer_of cs) = map_option tree_text (tree_get t cs)"
proof -
  have d: "document b = Ok (scanned sc)" "valid_utf8 b" "scanned_source sc = b"
    using assms(1) by (cases "utf8_error b = None"; auto simp: parse_scanner_def bind_result_Inr map_err_Inr valid_utf8_def)+
  obtain t' where "json_text b t'" "stands_for b (scanned sc) (doc_root (scanned sc)) t'"
    using document_sound [OF d(1)] by blast
  then have root: "stands_for b (scanned sc) (doc_root (scanned sc)) t"
    using json_text_unique assms(2) by blast
  have "node_id_at sc (pointer_of cs) = doc_walk (scanned sc) (doc_root (scanned sc)) cs"
  proof (cases "doc_exact_keys (scanned sc) = []")
    case True
    then show ?thesis
      using laid_walk [OF document_laid [OF d(1)] root d(1,2) assms(3,5)] assms(4)
      by (simp add: node_id_at_def Let_def)
  qed (rule exact_walk)
  then show r: "rel_option (stands_for b (scanned sc)) (node_id_at sc (pointer_of cs)) (tree_get t cs)"
    using walk_stands [OF root] by simp
  show "raw_source_at sc (pointer_of cs) = map_option tree_text (tree_get t cs)"
    using r
  proof (cases rule: option.rel_cases)
    case (Some i u)
    then show ?thesis using node_source [OF d(1,2) Some(3)]
      by (simp add: raw_source_at_def raw_source_for_node_def d(3))
  qed (simp add: raw_source_at_def)
qed

text \<open>
  In \<^verbatim>\<open>{"\ud800":1,"\ufffd":2,"\ufffd":3}\<close> the first key is shown as the second, so
  the repetition of the second drops the units kept for the first: the document then looks as
  if all its keys were plain, and the finish of a response no longer refuses it.
\<close>

lemma exact_key_forgotten:
  assumes "p = pointer_with_child st [0xFFFD]"
  shows "from_utf16_lossy [0xD800] = [0xFFFD] \<and> from_utf16_lossy [0xFFFD] = [0xFFFD]"
    "map_of (exact_keys (note_key p [0xD800] st)) p = Some [0xD800]"
    "map_of (exact_keys (clear_replaced_subtree p (note_key p [0xFFFD] (note_key p [0xD800] st)))) p = None"
proof -
  show "from_utf16_lossy [0xD800] = [0xFFFD] \<and> from_utf16_lossy [0xFFFD] = [0xFFFD]"
    by (simp add: is_high_def is_low_def)
  then have "encode_utf16 (from_utf16_lossy [0xD800]) \<noteq> [0xD800]"
    by (simp add: encode_utf16_def utf16_of_scalar_def)
  then show "map_of (exact_keys (note_key p [0xD800] st)) p = Some [0xD800]"
    by (simp add: note_key_def update_conv)
  show "map_of (exact_keys (clear_replaced_subtree p (note_key p [0xFFFD] (note_key p [0xD800] st)))) p = None"
    by (simp add: clear_replaced_subtree_def map_of_outside pointer_is_within_def)
qed

section \<open>Properties\<close>

text \<open>
  C14. A pointer leads where its path leads: in an accepted source the pointer of a path finds a
  node exactly when the path leads to a value of the sentence (the last of equal keys, the
  element at a position), and that node stands for this value, with its source text, its
  units and its kind.  Either the keys of the objects on the way are the text they are shown
  as, or the scanner has kept the units of some key.
\<close>

theorem pointers_follow_paths:
  assumes "parse_scanner b m = Ok sc" "json_text b t" "length b < 2 ^ 64"
    and "plain_path t cs \<or> doc_exact_keys (scanned sc) \<noteq> []"
    and "list_all (list_all is_scalar) cs"
  shows "rel_option (stands_for b (scanned sc)) (node_id_at sc (pointer_of cs)) (tree_get t cs)
    \<and> raw_source_at sc (pointer_of cs) = map_option tree_text (tree_get t cs)"
  using pointer_reads [OF assms] by blast

text \<open>The source \<^verbatim>\<open>{"a/b":[null]}\<close>.\<close>

definition sample_tree :: json_tree where
  "sample_tree =
    (let items = JArr (array_text [literal_null]) [JPrim literal_null]; kts = [([0x61, 0x2F, 0x62], items)]
     in JObj (object_text kts) kts)"

lemma sample_sentence: "sentence sample_tree"
proof -
  have "sentence (JPrim literal_null)" by (intro prim_sentence) simp
  then show ?thesis
    unfolding sample_tree_def Let_def
    using array_sentence [of "[JPrim literal_null]"] by (intro object_sentence) simp_all
qed

theorem pointers_follow_paths_witness:
  "\<exists>sc. parse_scanner (tree_text sample_tree) [] = Ok sc
    \<and> raw_source_at sc [0x2F, 0x61, 0x7E, 0x31, 0x62, 0x2F, 0x30] = Some literal_null"
proof -
  have s: "json_text (tree_text sample_tree) sample_tree" "valid_utf8 (tree_text sample_tree)"
    using sentence_text [OF sample_sentence] by simp_all
  obtain sc where sc: "parse_scanner (tree_text sample_tree) [] = Ok sc" using parse_reads [OF s] by blast
  let ?cs = "[[0x61, 0x2F, 0x62], [0x30]] :: scalars list"
  have "pointer_of ?cs = [0x2F, 0x61, 0x7E, 0x31, 0x62, 0x2F, 0x30]" by (simp add: escape_scalar_def)
  moreover have "encode_utf16 [0x61, 0x2F, 0x62] = [0x61, 0x2F, 0x62]" "segment_index [0x30] = Some 0"
    by code_simp+
  moreover have "length (tree_text sample_tree) < 2 ^ 64" "list_all (list_all is_scalar) ?cs"
    "plain_path sample_tree ?cs" "map_option tree_text (tree_get sample_tree ?cs) = Some literal_null" by code_simp+
  ultimately show ?thesis using pointers_follow_paths [OF sc s(1), of ?cs] sc by metis
qed

end
