(* ===== verification/Content_Codec.thy ===== *)
theory Content_Codec
  imports Json_Payload Json_Pointers
begin

text \<open>
  The saved form of a content block (\<^verbatim>\<open>src/protocol/message.rs\<close>): the hand-written
  serialization of \<^verbatim>\<open>ContentBlock\<close>, which keeps payloads as their source, and its
  reading through the scanner.

  serde's own readers and writers are not part of the repository: \<open>quote\<close> writes a
  string, \<open>read_text\<close>, \<open>read_bool\<close> and \<open>read_protocol\<close> read a string, a boolean
  and the name of a wire family, and the derived pairs of the extension and of the media sources
  write and read those values.
\<close>

record content_lib =
  content_json :: json_lib
  quote :: "scalars \<Rightarrow> bytes"
  read_text :: "bytes \<Rightarrow> string + scalars"
  read_bool :: "bytes \<Rightarrow> string + bool"
  read_protocol :: "bytes \<Rightarrow> string + protocol_family"
  write_native :: "native_extension \<Rightarrow> bytes"
  read_native :: "bytes \<Rightarrow> string + native_extension"
  write_image :: "image_source \<Rightarrow> bytes"
  read_image :: "bytes \<Rightarrow> string + image_source"
  write_document :: "document_source \<Rightarrow> bytes"
  read_document :: "bytes \<Rightarrow> string + document_source"
  write_video :: "video_source \<Rightarrow> bytes"
  read_video :: "bytes \<Rightarrow> string + video_source"

datatype content_error = ContentScan json_failure | ContentText message

section \<open>Serialization\<close>

definition text_of_rust :: "string \<Rightarrow> scalars" where
  "text_of_rust s = decode_utf8 (bytes_of_string s)"

definition rust_of_text :: "scalars \<Rightarrow> string" where
  "rust_of_text s = string_of_bytes (encode_utf8 s)"

definition quote_string :: "content_lib \<Rightarrow> string \<Rightarrow> bytes" where
  "quote_string lib s = quote lib (text_of_rust s)"

definition write_fields :: "content_lib \<Rightarrow> (string \<times> bytes) list \<Rightarrow> bytes" where
  "write_fields lib fs =
    0x7B # join_with 0x2C (map (\<lambda>(k, b). quote lib (scalars_of k) @ 0x3A # b) fs) @ [0x7D]"

fun serialize_some :: "string \<Rightarrow> ('a \<Rightarrow> bytes) \<Rightarrow> 'a option \<Rightarrow> (string \<times> bytes) list" where
  "serialize_some k w None = []"
| "serialize_some k w (Some x) = [(k, w x)]"

definition write_bool :: "bool \<Rightarrow> bytes" where
  "write_bool b = (if b then literal_true else literal_false)"

text \<open>The inner option of the citations is written as null.\<close>

definition write_citations :: "json_payload option \<Rightarrow> bytes" where
  "write_citations c = (case c of None \<Rightarrow> literal_null | Some p \<Rightarrow> bytes_of_string p)"

fun block_fields :: "content_lib \<Rightarrow> content_block \<Rightarrow> string \<times> (string \<times> bytes) list" where
  "block_fields lib (NativeBlock v) = (''native'', [(''value'', write_native lib v)])"
| "block_fields lib (ProviderContent f v) =
    (''provider_content'',
     [(''protocol'', quote lib (scalars_of (protocol_name f))), (''value'', bytes_of_string v)])"
| "block_fields lib (TextBlock t sig cites) =
    (''text'', (''text'', quote lib t)
       # serialize_some ''thought_signature'' (quote_string lib) sig
       @ serialize_some ''citations'' write_citations cites)"
| "block_fields lib (TextJsUtf16 t us sig cites) =
    (''text_js_utf16'', (''text'', quote lib t)
       # serialize_some ''thought_signature'' (quote_string lib) sig
       @ serialize_some ''citations'' write_citations cites)"
| "block_fields lib (ToolUse i n v provider caller toolset sig) =
    (''tool_use'',
     [(''id'', quote_string lib i), (''name'', quote_string lib n), (''input'', bytes_of_string v)]
       @ serialize_some ''provider_id'' (quote_string lib) provider
       @ serialize_some ''caller'' bytes_of_string caller
       @ serialize_some ''toolset_name'' (quote_string lib) toolset
       @ serialize_some ''thought_signature'' (quote_string lib) sig)"
| "block_fields lib (ToolResult i body err blocks cache toolset) =
    (''tool_result'',
     [(''tool_use_id'', quote_string lib i), (''content'', bytes_of_string body)]
       @ serialize_some ''is_error'' write_bool err
       @ serialize_some ''blocks'' bytes_of_string blocks
       @ serialize_some ''cache_reference'' (quote_string lib) cache
       @ serialize_some ''toolset_name'' (quote_string lib) toolset)"
| "block_fields lib (Thinking t sig) =
    (''thinking'', (''text'', quote lib t) # serialize_some ''signature'' (quote_string lib) sig)"
| "block_fields lib (RedactedThinking d) = (''redacted_thinking'', [(''data'', quote_string lib d)])"
| "block_fields lib (ImageBlock s) = (''image'', [(''source'', write_image lib s)])"
| "block_fields lib (DocumentBlock s title) =
    (''document'', (''source'', write_document lib s) # serialize_some ''title'' (quote_string lib) title)"
| "block_fields lib (VideoBlock s) = (''video'', [(''source'', write_video lib s)])"
| "block_fields lib (AudioBlock f d) =
    (''audio'', [(''format'', quote_string lib f), (''data'', quote_string lib d)])"

definition validate_root :: "bool \<Rightarrow> string \<Rightarrow> string \<Rightarrow> llm_error + unit" where
  "validate_root ok field tag =
    (if ok then Ok () else Err (InvalidRequest [Lit field, Lit '' must be a JSON '', Lit tag, Lit '' value'']))"

definition validate_root_string :: "json_payload \<Rightarrow> string \<Rightarrow> llm_error + unit" where
  "validate_root_string p field = validate_root (is_root_string p) field ''string''"

definition validate_root_array :: "json_payload \<Rightarrow> string \<Rightarrow> llm_error + unit" where
  "validate_root_array p field = validate_root (is_root_array p) field ''array''"

fun check_block :: "content_block \<Rightarrow> llm_error + unit" where
  "check_block (ToolResult i body err blocks cache toolset) =
    bind_result (validate_root_string body ''tool result content'') (\<lambda>_.
      case blocks of
        None \<Rightarrow> Ok ()
      | Some bs \<Rightarrow> validate_root_array bs ''tool result blocks'')"
| "check_block _ = Ok ()"

definition serialize_block :: "content_lib \<Rightarrow> content_block \<Rightarrow> llm_error + bytes" where
  "serialize_block lib b =
    bind_result (check_block b) (\<lambda>_.
      case block_fields lib b of
        (tag, fs) \<Rightarrow> Ok (write_fields lib ((''type'', quote lib (scalars_of tag)) # fs)))"

section \<open>Reading\<close>

definition field_pointer :: "string \<Rightarrow> scalars" where
  "field_pointer k = 0x2F # scalars_of k"

definition content_text :: "string \<Rightarrow> content_error" where
  "content_text s = ContentText [Lit s]"

definition raw_field_at :: "json_scanner \<Rightarrow> string \<Rightarrow> content_error + bytes" where
  "raw_field_at sc k =
    (case raw_source_at sc (field_pointer k) of
       Some b \<Rightarrow> Ok b
     | None \<Rightarrow> Err (ContentText [Lit ''required JSON field /'', Lit k, Lit '' is missing'']))"

definition required_value_at ::
  "(bytes \<Rightarrow> string + 'a) \<Rightarrow> json_scanner \<Rightarrow> string \<Rightarrow> content_error + 'a" where
  "required_value_at r sc k = bind_result (raw_field_at sc k) (\<lambda>b. map_err content_text (r b))"

definition optional_json_payload_at ::
  "content_lib \<Rightarrow> json_scanner \<Rightarrow> string \<Rightarrow> content_error + json_payload option" where
  "optional_json_payload_at lib sc k =
    (case raw_source_at sc (field_pointer k) of
       None \<Rightarrow> Ok None
     | Some b \<Rightarrow> bind_result (map_err content_text (parse_payload (content_json lib) b)) (\<lambda>p. Ok (Some p)))"

definition optional_nullable_json_payload_at ::
  "content_lib \<Rightarrow> json_scanner \<Rightarrow> string \<Rightarrow> content_error + json_payload option option" where
  "optional_nullable_json_payload_at lib sc k =
    (case raw_source_at sc (field_pointer k) of
       None \<Rightarrow> Ok None
     | Some b \<Rightarrow>
         if kind_at sc (field_pointer k) = Some KindNull then Ok (Some None)
         else bind_result (map_err content_text (parse_payload (content_json lib) b)) (\<lambda>p. Ok (Some (Some p))))"

definition optional_required_bool_at ::
  "content_lib \<Rightarrow> json_scanner \<Rightarrow> string \<Rightarrow> content_error + bool option" where
  "optional_required_bool_at lib sc k =
    (case raw_source_at sc (field_pointer k) of
       None \<Rightarrow> Ok None
     | Some b \<Rightarrow> bind_result (map_err content_text (read_bool lib b)) (\<lambda>x. Ok (Some x)))"

definition scalar_string_at :: "json_scanner \<Rightarrow> string \<Rightarrow> content_error + scalars" where
  "scalar_string_at sc k =
    (case string_units_at sc (field_pointer k) of
       None \<Rightarrow> Err (ContentText [Lit ''required string field /'', Lit k, Lit '' is missing''])
     | Some us \<Rightarrow>
         if utf16_valid us then Ok (from_utf16_lossy us)
         else Err (ContentText [Lit ''field /'', Lit k, Lit '' contains unpaired UTF-16 units'']))"

definition required_string :: "json_scanner \<Rightarrow> string \<Rightarrow> content_error + string" where
  "required_string sc k = bind_result (scalar_string_at sc k) (\<lambda>t. Ok (rust_of_text t))"

definition optional_scalar_string_at :: "json_scanner \<Rightarrow> string \<Rightarrow> content_error + string option" where
  "optional_scalar_string_at sc k =
    (if raw_source_at sc (field_pointer k) = None \<or> kind_at sc (field_pointer k) = Some KindNull then Ok None
     else bind_result (required_string sc k) (\<lambda>s. Ok (Some s)))"

definition block_payload_at :: "content_lib \<Rightarrow> json_scanner \<Rightarrow> string \<Rightarrow> content_error + json_payload" where
  "block_payload_at lib sc k =
    bind_result (raw_field_at sc k) (\<lambda>b. map_err content_text (parse_payload (content_json lib) b))"

definition checked_root :: "llm_error + unit \<Rightarrow> 'a \<Rightarrow> content_error + 'a" where
  "checked_root r x = bind_result (map_err (\<lambda>e. ContentScan (Rejects e)) r) (\<lambda>_. Ok x)"

definition decode_text :: "content_lib \<Rightarrow> json_scanner \<Rightarrow> string \<Rightarrow> content_error + content_block" where
  "decode_text lib sc tag =
    (case string_at sc (field_pointer ''text'') of
       None \<Rightarrow> Err (content_text ''text content block is missing a string text'')
     | Some t \<Rightarrow>
         (case string_units_at sc (field_pointer ''text'') of
            None \<Rightarrow> Err (content_text ''text content block has no UTF-16 source units'')
          | Some us \<Rightarrow>
              bind_result (optional_scalar_string_at sc ''thought_signature'') (\<lambda>sig.
              bind_result (optional_nullable_json_payload_at lib sc ''citations'') (\<lambda>cites.
                if tag = ''text_js_utf16'' \<or> \<not> utf16_valid us then Ok (TextJsUtf16 t us sig cites)
                else Ok (TextBlock t sig cites)))))"

definition decode_tool_use :: "content_lib \<Rightarrow> json_scanner \<Rightarrow> content_error + content_block" where
  "decode_tool_use lib sc =
    bind_result (required_value_at (read_text lib) sc ''id'') (\<lambda>i.
    bind_result (required_string sc ''name'') (\<lambda>n.
    bind_result (block_payload_at lib sc ''input'') (\<lambda>v.
    bind_result (optional_scalar_string_at sc ''provider_id'') (\<lambda>provider.
    bind_result (optional_json_payload_at lib sc ''caller'') (\<lambda>caller.
    bind_result (optional_scalar_string_at sc ''toolset_name'') (\<lambda>toolset.
    bind_result (optional_scalar_string_at sc ''thought_signature'') (\<lambda>sig.
      Ok (ToolUse (rust_of_text i) n v provider caller toolset sig))))))))"

definition decode_tool_result :: "content_lib \<Rightarrow> json_scanner \<Rightarrow> content_error + content_block" where
  "decode_tool_result lib sc =
    bind_result (required_value_at (read_text lib) sc ''tool_use_id'') (\<lambda>i.
    bind_result (block_payload_at lib sc ''content'') (\<lambda>body.
    bind_result (checked_root (validate_root_string body ''tool result content'') body) (\<lambda>body.
    bind_result (optional_required_bool_at lib sc ''is_error'') (\<lambda>err.
    bind_result (optional_json_payload_at lib sc ''blocks'') (\<lambda>blocks.
    bind_result
      (case blocks of
         None \<Rightarrow> Ok None
       | Some bs \<Rightarrow> checked_root (validate_root_array bs ''tool result blocks'') (Some bs)) (\<lambda>blocks.
    bind_result (optional_scalar_string_at sc ''cache_reference'') (\<lambda>cache.
    bind_result (optional_scalar_string_at sc ''toolset_name'') (\<lambda>toolset.
      Ok (ToolResult (rust_of_text i) body err blocks cache toolset)))))))))"

definition decode_kind :: "content_lib \<Rightarrow> json_scanner \<Rightarrow> string \<Rightarrow> content_error + content_block" where
  "decode_kind lib sc tag =
    (if tag = ''provider_content'' then
       bind_result (required_value_at (read_protocol lib) sc ''protocol'') (\<lambda>f.
       bind_result (block_payload_at lib sc ''value'') (\<lambda>v. Ok (ProviderContent f v)))
     else if tag = ''text'' \<or> tag = ''text_js_utf16'' then decode_text lib sc tag
     else if tag = ''tool_use'' then decode_tool_use lib sc
     else if tag = ''tool_result'' then decode_tool_result lib sc
     else if tag = ''native'' then
       bind_result (required_value_at (read_native lib) sc ''value'') (\<lambda>v. Ok (NativeBlock v))
     else if tag = ''thinking'' then
       bind_result (scalar_string_at sc ''text'') (\<lambda>t.
       bind_result (optional_scalar_string_at sc ''signature'') (\<lambda>sig. Ok (Thinking t sig)))
     else if tag = ''redacted_thinking'' then
       bind_result (required_string sc ''data'') (\<lambda>d. Ok (RedactedThinking d))
     else if tag = ''image'' then
       bind_result (required_value_at (read_image lib) sc ''source'') (\<lambda>s. Ok (ImageBlock s))
     else if tag = ''document'' then
       bind_result (required_value_at (read_document lib) sc ''source'') (\<lambda>s.
       bind_result (optional_scalar_string_at sc ''title'') (\<lambda>title. Ok (DocumentBlock s title)))
     else if tag = ''video'' then
       bind_result (required_value_at (read_video lib) sc ''source'') (\<lambda>s. Ok (VideoBlock s))
     else if tag = ''audio'' then
       bind_result (required_string sc ''format'') (\<lambda>f.
       bind_result (required_string sc ''data'') (\<lambda>d. Ok (AudioBlock f d)))
     else Err (ContentText [Lit ''unknown content block type '', DebugStr tag]))"

definition decode_content_block :: "content_lib \<Rightarrow> bytes \<Rightarrow> content_error + content_block" where
  "decode_content_block lib src =
    bind_result (map_err ContentScan (parse_scanner src ''content block is not valid JSON'')) (\<lambda>sc.
      case string_at sc (field_pointer ''type'') of
        None \<Rightarrow> Err (content_text ''content block is missing a string type'')
      | Some tag \<Rightarrow> decode_kind lib sc (rust_of_text tag))"

section \<open>The text of a message\<close>

fun text_of_block :: "content_block \<Rightarrow> scalars option" where
  "text_of_block (TextBlock t sig cites) = Some t"
| "text_of_block (TextJsUtf16 t us sig cites) = Some t"
| "text_of_block (ProviderContent f v) = payload_string_at v (field_pointer ''text'')"
| "text_of_block _ = None"

definition message_text :: "conversation_message \<Rightarrow> scalars" where
  "message_text m = concat (List.map_filter text_of_block (content m))"

section \<open>Texts and strings\<close>

lemma decode_scalar: "is_scalar c \<Longrightarrow> decode_utf8 (utf8_of_scalar c @ r) = c # decode_utf8 r"
  using utf8_scalar_ok [of c] next_char_append [of "utf8_of_scalar c"]
  by (subst decode_utf8.simps) (simp add: width_ok_def)

lemma decode_encode_utf8: "list_all is_scalar t \<Longrightarrow> decode_utf8 (encode_utf8 t) = t"
proof (induction t)
  case Nil
  then show ?case by (simp add: encode_utf8_def decode_utf8.simps next_char_def)
next
  case (Cons c t)
  then show ?case using decode_scalar [of c "encode_utf8 t"] by (simp add: encode_utf8_def)
qed

lemma text_of_rust_text [simp]: "list_all is_scalar t \<Longrightarrow> text_of_rust (rust_of_text t) = t"
  by (simp add: text_of_rust_def rust_of_text_def decode_encode_utf8)

lemma lossy_scalars: "list_all is_scalar t \<Longrightarrow> from_utf16_lossy (encode_utf16 t) = t"
  using lossy_encode_append [of t "[]"] by (simp add: list_all_iff)

lemma utf16_valid_scalar:
  assumes "is_scalar c" "utf16_valid r"
  shows "utf16_valid (utf16_of_scalar c @ r)"
proof (cases "c < 0x10000")
  case True
  then have u: "unat (word_of_nat c :: u16) = c" by (rule unat_u16_of_nat)
  have "\<not> is_high (word_of_nat c)" "\<not> is_low (word_of_nat c)"
    using assms(1) True by (auto simp: is_high_def is_low_def is_scalar_def word_le_nat_alt word_less_nat_alt u)
  then show ?thesis using True assms(2) by (cases r) (simp_all add: utf16_of_scalar_def)
next
  case False
  define h l where "h = (c - 0x10000) div 0x400" and "l = (c - 0x10000) mod 0x400"
  have b: "h < 0x400" "l < 0x400"
    using assms(1) False by (auto simp: h_def l_def is_scalar_def less_mult_imp_div_less)
  have u: "unat (word_of_nat (0xD800 + h) :: u16) = 0xD800 + h" "unat (word_of_nat (0xDC00 + l) :: u16) = 0xDC00 + l"
    using b by (simp_all only: unat_of_nat) simp_all
  have "is_high (word_of_nat (0xD800 + h))" "is_low (word_of_nat (0xDC00 + l))"
    using b u by (simp_all add: is_high_def is_low_def word_le_nat_alt word_less_nat_alt)
  then show ?thesis using False assms(2) by (simp add: utf16_of_scalar_def h_def l_def)
qed

lemma utf16_valid_encode: "list_all is_scalar t \<Longrightarrow> utf16_valid (encode_utf16 t)"
  by (induction t) (simp_all add: encode_utf16_def utf16_valid_scalar)


section \<open>Reading written fields\<close>

definition rust_string :: "string \<Rightarrow> bool" where
  "rust_string s \<longleftrightarrow> (\<exists>t. list_all is_scalar t \<and> s = rust_of_text t)"

definition json_bytes :: "bytes \<Rightarrow> bool" where
  "json_bytes b \<longleftrightarrow> (\<exists>t. sentence t \<and> tree_text t = b)"

definition payload_ok :: "json_payload \<Rightarrow> bool" where
  "payload_ok p \<longleftrightarrow> json_bytes (bytes_of_string p)"

text \<open>What is assumed of serde: a string is written as a JSON string of its text and read back,
booleans and the names of the families are read back, and raw values are accepted.\<close>

definition serde_ok :: "content_lib \<Rightarrow> bool" where
  "serde_ok lib \<longleftrightarrow> accepts_json (content_json lib)
    \<and> (\<forall>s. list_all is_scalar s \<longrightarrow> sentence (JStr (quote lib s) (encode_utf16 s)) \<and> read_text lib (quote lib s) = Ok s)
    \<and> (\<forall>x. read_bool lib (write_bool x) = Ok x)
    \<and> (\<forall>f. read_protocol lib (quote lib (scalars_of (protocol_name f))) = Ok f)"

definition plain_field :: "string \<Rightarrow> bool" where
  "plain_field k \<longleftrightarrow> 0x7E \<notin> set (scalars_of k) \<and> 0x2F \<notin> set (scalars_of k)"

lemma scalars_of_scalars: "list_all is_scalar (scalars_of s)"
proof -
  have "is_scalar (of_char c)" for c
  proof -
    have "(of_char c :: nat) < 256" by simp
    then show ?thesis unfolding is_scalar_def by linarith
  qed
  then show ?thesis by (simp add: scalars_of_def list_all_iff)
qed

lemma field_pointer_plain: "plain_field k \<Longrightarrow> field_pointer k = pointer_of [scalars_of k]"
  by (simp add: plain_field_def field_pointer_def escaped_plain)

lemma encode_scalars_inj: "encode_utf16 (scalars_of j) = encode_utf16 (scalars_of k) \<longleftrightarrow> j = k"
  by (metis lossy_scalars scalars_of_scalars scalars_of_inj)

definition named :: "(string \<times> json_tree) list \<Rightarrow> (u16 list \<times> json_tree) list" where
  "named fts = map (\<lambda>(k, t). (encode_utf16 (scalars_of k), t)) fts"

definition field_texts :: "(string \<times> json_tree) list \<Rightarrow> (string \<times> bytes) list" where
  "field_texts fts = map (\<lambda>(k, t). (k, tree_text t)) fts"

lemma named_map_of: "map_of (named fts) (encode_utf16 (scalars_of k)) = map_of fts k"
  by (induction fts) (auto simp: named_def encode_scalars_inj)

lemma field_texts_map_of: "map_of (field_texts fts) k = map_option tree_text (map_of fts k)"
  by (induction fts) (auto simp: field_texts_def)

lemma quoted_string:
  assumes "serde_ok lib" "list_all is_scalar s"
  shows "\<exists>cs. quote lib s = 0x22 # cs @ [0x22] \<and> string_chars cs (encode_utf16 s)"
proof -
  have "value_text (quote lib s) (JStr (quote lib s) (encode_utf16 s))"
    using assms by (simp add: serde_ok_def sentence_def)
  then show ?thesis by (cases rule: value_text.cases) auto
qed

lemma fields_members:
  assumes "serde_ok lib"
  shows "fts \<noteq> [] \<Longrightarrow> distinct (map fst fts) \<Longrightarrow> list_all (\<lambda>(k, t). sentence t) fts \<Longrightarrow>
    members_text (join_with 0x2C (map (\<lambda>(k, b). quote lib (scalars_of k) @ 0x3A # b) (field_texts fts))) (named fts)"
proof (induction fts rule: rev_induct)
  case (snoc f fts)
  obtain k t where f: "f = (k, t)" by (cases f)
  obtain cs where q: "quote lib (scalars_of k) = 0x22 # cs @ [0x22]" "string_chars cs (encode_utf16 (scalars_of k))"
    using quoted_string [OF assms scalars_of_scalars] by blast
  have v: "value_text (tree_text t) t" using snoc.prems by (simp add: f sentence_def)
  show ?case
  proof (cases "fts = []")
    case True
    then show ?thesis
      using first_member [of "[]" cs "encode_utf16 (scalars_of k)" "[]" "[]" "tree_text t" t "[]"] q v
      by (simp add: f field_texts_def named_def)
  next
    case False
    have new: "encode_utf16 (scalars_of k) \<notin> set (map fst (named fts))"
      using snoc.prems by (force simp: f named_def encode_scalars_inj)
    have "members_text (join_with 0x2C (map (\<lambda>(k, b). quote lib (scalars_of k) @ 0x3A # b) (field_texts fts))) (named fts)"
      using snoc False by simp
    then show ?thesis
      using next_member [of _ "named fts" "[]" cs "encode_utf16 (scalars_of k)" "[]" "[]" "tree_text t" t "[]"]
        q v False put_member_new [OF new]
      by (simp add: f field_texts_def join_snoc) (simp add: named_def)
  qed
qed simp

lemma fields_sentence:
  assumes "serde_ok lib" "fts \<noteq> []" "distinct (map fst fts)" "list_all (\<lambda>(k, t). sentence t) fts"
  defines "b \<equiv> write_fields lib (field_texts fts)"
  shows "sentence (JObj b (named fts))"
proof -
  have "passes_utf8 (quote lib (scalars_of k))" for k
    using assms(1) scalars_of_scalars by (simp add: serde_ok_def sentence_alt)
  moreover have "passes_utf8 (tree_text t)" if "(k, t) \<in> set fts" for k t
    using assms(4) that by (auto simp: list_all_iff sentence_alt)
  ultimately have "passes_utf8 b"
    unfolding b_def write_fields_def field_texts_def
    by (intro passes_utf8_simps passes_join) (auto simp: list_all_iff intro!: passes_utf8_simps)
  moreover have "value_text b (JObj b (named fts))"
    using full_object [OF fields_members [OF assms(1-4)]] by (simp add: b_def write_fields_def)
  ultimately show ?thesis by (simp add: sentence_alt)
qed


fun kind_of_tree :: "json_tree \<Rightarrow> flat_json_kind" where
  "kind_of_tree (JPrim raw) = kind_of (Primitive raw)"
| "kind_of_tree (JStr b us) = KindString"
| "kind_of_tree (JArr b ts) = KindArray"
| "kind_of_tree (JObj b kts) = KindObject"

fun units_of_tree :: "json_tree \<Rightarrow> u16 list option" where
  "units_of_tree (JStr b us) = Some us"
| "units_of_tree _ = None"

lemma stands_views:
  assumes "stands_for s d i t"
  shows "node_kind d i = kind_of_tree t" "string_units d i = units_of_tree t"
    "node_string d i = map_option from_utf16_lossy (units_of_tree t)"
proof -
  have "node_kind d i = kind_of_tree t \<and> string_units d i = units_of_tree t
      \<and> node_string d i = map_option from_utf16_lossy (units_of_tree t)"
    using assms unfolding stands_for_def
  proof (cases rule: tree_at.cases)
    case (at_str us)
    then have n: "node_of d i = StringNode (from_utf16_lossy us)" "map_of (doc_node_exact_strings d) i = exact_units us"
      by (simp_all add: parser_of_def node_of_def)
    then show ?thesis using string_units_at_node [OF n] by (simp add: at_str(1) node_kind_def node_string_def)
  qed (simp_all add: node_kind_def node_string_def string_units_def node_of_def parser_of_def)
  then show "node_kind d i = kind_of_tree t" "string_units d i = units_of_tree t"
    "node_string d i = map_option from_utf16_lossy (units_of_tree t)" by simp_all
qed

text \<open>A scanner over written fields reads them by name.\<close>

definition views :: "json_scanner \<Rightarrow> (string \<times> json_tree) list \<Rightarrow> bool" where
  "views sc fts \<longleftrightarrow> (\<forall>k. plain_field k \<longrightarrow>
    raw_source_at sc (field_pointer k) = map_option tree_text (map_of fts k)
    \<and> kind_at sc (field_pointer k) = map_option kind_of_tree (map_of fts k)
    \<and> string_units_at sc (field_pointer k) = Option.bind (map_of fts k) units_of_tree
    \<and> string_at sc (field_pointer k) = map_option from_utf16_lossy (Option.bind (map_of fts k) units_of_tree))"

lemma named_plain: "list_all (\<lambda>(k, u). plain_key k) (named fts)"
  by (auto simp: named_def list_all_iff plain_key_def lossy_scalars [OF scalars_of_scalars])

lemma written_views:
  assumes "serde_ok lib" "fts \<noteq> []" "distinct (map fst fts)" "list_all (\<lambda>(k, t). sentence t) fts"
    and b: "b = write_fields lib (field_texts fts)" "length b < 2 ^ 64"
  shows "\<exists>sc. parse_scanner b m = Ok sc \<and> views sc fts"
proof -
  define t where "t = JObj b (named fts)"
  have s: "sentence t" using fields_sentence [OF assms(1-4)] by (simp add: t_def b)
  have j: "json_text b t" "valid_utf8 b" using sentence_text [OF s] by (simp_all add: t_def)
  obtain sc where sc: "parse_scanner b m = Ok sc" using parse_reads [OF j] by blast
  have "raw_source_at sc (field_pointer k) = map_option tree_text (map_of fts k)
    \<and> kind_at sc (field_pointer k) = map_option kind_of_tree (map_of fts k)
    \<and> string_units_at sc (field_pointer k) = Option.bind (map_of fts k) units_of_tree
    \<and> string_at sc (field_pointer k) = map_option from_utf16_lossy (Option.bind (map_of fts k) units_of_tree)"
    if k: "plain_field k" for k
  proof -
    have g: "tree_get t [scalars_of k] = map_of fts k"
      by (simp add: t_def named_map_of split: option.splits)
    have p: "plain_path t [scalars_of k]" using named_plain by (simp add: t_def split: option.splits)
    have sl: "list_all (list_all is_scalar) [scalars_of k]" using scalars_of_scalars by simp
    have r: "rel_option (stands_for b (scanned sc)) (node_id_at sc (field_pointer k)) (map_of fts k)"
      and raw: "raw_source_at sc (field_pointer k) = map_option tree_text (map_of fts k)"
      using pointer_reads [OF sc j(1) b(2) _ sl] p g field_pointer_plain [OF k] by simp_all
    from r show ?thesis
    proof (cases rule: option.rel_cases)
      case None
      then show ?thesis using raw by (simp add: kind_at_def string_units_at_def string_at_def on_node_def)
    next
      case (Some i u)
      then show ?thesis using raw stands_views [OF Some(3)]
        by (simp add: kind_at_def string_units_at_def string_at_def on_node_def)
    qed
  qed
  then show ?thesis using sc by (auto simp: views_def)
qed

section \<open>Every reader on the field it was written for\<close>

definition holds :: "(string \<times> json_tree) list \<Rightarrow> string \<Rightarrow> bytes option \<Rightarrow> bool" where
  "holds fts k b \<longleftrightarrow> map_option tree_text (map_of fts k) = b \<and> (\<forall>t. map_of fts k = Some t \<longrightarrow> sentence t)"

lemma tree_of_quote:
  assumes "serde_ok lib" "list_all is_scalar s" "sentence t" "tree_text t = quote lib s"
  shows "t = JStr (quote lib s) (encode_utf16 s)"
proof -
  have "sentence (JStr (quote lib s) (encode_utf16 s))" using assms(1,2) by (simp add: serde_ok_def)
  then have "json_text (quote lib s) (JStr (quote lib s) (encode_utf16 s))" using sentence_text by fastforce
  then show ?thesis using json_text_unique sentence_text [OF assms(3)] assms(4) by metis
qed

lemma reads_text:
  assumes "serde_ok lib" "views sc fts" "plain_field k" "list_all is_scalar s" "holds fts k (Some (quote lib s))"
  shows "string_units_at sc (field_pointer k) = Some (encode_utf16 s)" "string_at sc (field_pointer k) = Some s"
    "scalar_string_at sc k = Ok s" "kind_at sc (field_pointer k) = Some KindString"
    "raw_source_at sc (field_pointer k) = Some (quote lib s)"
proof -
  obtain t where t: "map_of fts k = Some t" "sentence t" "tree_text t = quote lib s"
    using assms(5) by (auto simp: holds_def)
  note t = t(1) [unfolded tree_of_quote [OF assms(1,4) t(2,3)]]
  show "string_units_at sc (field_pointer k) = Some (encode_utf16 s)" "string_at sc (field_pointer k) = Some s"
    "kind_at sc (field_pointer k) = Some KindString" "raw_source_at sc (field_pointer k) = Some (quote lib s)"
    using assms(2,3) t by (simp_all add: views_def lossy_scalars assms(4))
  then show "scalar_string_at sc k = Ok s"
    by (simp add: scalar_string_at_def utf16_valid_encode lossy_scalars assms(4))
qed

lemma reads_string:
  assumes "serde_ok lib" "views sc fts" "plain_field k" "rust_string s" "holds fts k (Some (quote_string lib s))"
  shows "required_string sc k = Ok s" "required_value_at (read_text lib) sc k = Ok (text_of_rust s)"
    "optional_scalar_string_at sc k = Ok (Some s)" "rust_of_text (text_of_rust s) = s"
proof -
  obtain t where t: "list_all is_scalar t" "s = rust_of_text t" using assms(4) by (auto simp: rust_string_def)
  then have h: "holds fts k (Some (quote lib t))" using assms(5) by (simp add: quote_string_def)
  note r = reads_text [OF assms(1-3) t(1) h]
  show "required_string sc k = Ok s" using r(3) t by (simp add: required_string_def)
  then show "optional_scalar_string_at sc k = Ok (Some s)" using r(4,5) by (simp add: optional_scalar_string_at_def)
  show "required_value_at (read_text lib) sc k = Ok (text_of_rust s)"
    using r(5) t assms(1) by (simp add: required_value_at_def raw_field_at_def serde_ok_def)
  show "rust_of_text (text_of_rust s) = s" using t by simp
qed

lemma reads_no_field:
  assumes "views sc fts" "plain_field k" "holds fts k None"
  shows "optional_scalar_string_at sc k = Ok None" "optional_json_payload_at lib sc k = Ok None"
    "optional_nullable_json_payload_at lib sc k = Ok None" "optional_required_bool_at lib sc k = Ok None"
proof -
  have "raw_source_at sc (field_pointer k) = None" using assms by (simp add: views_def holds_def)
  then show "optional_scalar_string_at sc k = Ok None" "optional_json_payload_at lib sc k = Ok None"
    "optional_nullable_json_payload_at lib sc k = Ok None" "optional_required_bool_at lib sc k = Ok None"
    by (simp_all add: optional_scalar_string_at_def optional_json_payload_at_def
        optional_nullable_json_payload_at_def optional_required_bool_at_def)
qed

lemma reads_payload:
  assumes "serde_ok lib" "views sc fts" "plain_field k" "payload_ok p" "holds fts k (Some (bytes_of_string p))"
  shows "block_payload_at lib sc k = Ok p" "optional_json_payload_at lib sc k = Ok (Some p)"
    "kind_at sc (field_pointer k) \<noteq> Some KindNull \<Longrightarrow> optional_nullable_json_payload_at lib sc k = Ok (Some (Some p))"
proof -
  obtain t where t: "map_of fts k = Some t" "sentence t" "tree_text t = bytes_of_string p"
    using assms(5) by (auto simp: holds_def)
  have raw: "raw_source_at sc (field_pointer k) = Some (tree_text t)" using assms(2,3) t by (simp add: views_def)
  have p: "parse_payload (content_json lib) (tree_text t) = Ok p"
    using parse_sentence(1) [of "content_json lib" t] assms(1) t by (simp add: serde_ok_def)
  show "block_payload_at lib sc k = Ok p" "optional_json_payload_at lib sc k = Ok (Some p)"
    "kind_at sc (field_pointer k) \<noteq> Some KindNull \<Longrightarrow> optional_nullable_json_payload_at lib sc k = Ok (Some (Some p))"
    using raw p by (simp_all add: block_payload_at_def raw_field_at_def optional_json_payload_at_def
        optional_nullable_json_payload_at_def)
qed

lemma reads_value:
  assumes "views sc fts" "plain_field k" "holds fts k (Some b)" "r b = Ok x"
  shows "required_value_at r sc k = Ok x"
  using assms by (auto simp: views_def holds_def required_value_at_def raw_field_at_def)


section \<open>The round trip\<close>

text \<open>
  What a block must be to survive: Rust strings, valid payloads, media values their own reader
  reads back, exact units that are those of the text (they are not saved), and no citations that
  are a present null (saved like absent ones of the inner option).
\<close>

definition citations_ok :: "json_payload option option \<Rightarrow> bool" where
  "citations_ok c \<longleftrightarrow>
    (\<forall>p. c = Some (Some p) \<longrightarrow> payload_ok p \<and> bytes_of_string p \<noteq> literal_null)"

definition opt_all :: "('a \<Rightarrow> bool) \<Rightarrow> 'a option \<Rightarrow> bool" where
  "opt_all P x \<longleftrightarrow> (case x of None \<Rightarrow> True | Some y \<Rightarrow> P y)"

definition pair_ok :: "('a \<Rightarrow> bytes) \<Rightarrow> (bytes \<Rightarrow> string + 'a) \<Rightarrow> 'a \<Rightarrow> bool" where
  "pair_ok w r x \<longleftrightarrow> json_bytes (w x) \<and> r (w x) = Ok x"

fun block_ok :: "content_lib \<Rightarrow> content_block \<Rightarrow> bool" where
  "block_ok lib (NativeBlock v) \<longleftrightarrow> pair_ok (write_native lib) (read_native lib) v"
| "block_ok lib (ProviderContent f v) \<longleftrightarrow> payload_ok v"
| "block_ok lib (TextBlock t sig cites) \<longleftrightarrow>
    list_all is_scalar t \<and> opt_all rust_string sig \<and> citations_ok cites"
| "block_ok lib (TextJsUtf16 t us sig cites) \<longleftrightarrow>
    list_all is_scalar t \<and> us = encode_utf16 t \<and> opt_all rust_string sig \<and> citations_ok cites"
| "block_ok lib (ToolUse i n v provider caller toolset sig) \<longleftrightarrow>
    rust_string i \<and> rust_string n \<and> payload_ok v \<and> opt_all rust_string provider
    \<and> opt_all payload_ok caller \<and> opt_all rust_string toolset \<and> opt_all rust_string sig"
| "block_ok lib (ToolResult i body err blocks cache toolset) \<longleftrightarrow>
    rust_string i \<and> payload_ok body \<and> opt_all payload_ok blocks
    \<and> opt_all rust_string cache \<and> opt_all rust_string toolset"
| "block_ok lib (Thinking t sig) \<longleftrightarrow> list_all is_scalar t \<and> opt_all rust_string sig"
| "block_ok lib (RedactedThinking d) \<longleftrightarrow> rust_string d"
| "block_ok lib (ImageBlock s) \<longleftrightarrow> pair_ok (write_image lib) (read_image lib) s"
| "block_ok lib (DocumentBlock s title) \<longleftrightarrow>
    pair_ok (write_document lib) (read_document lib) s \<and> opt_all rust_string title"
| "block_ok lib (VideoBlock s) \<longleftrightarrow> pair_ok (write_video lib) (read_video lib) s"
| "block_ok lib (AudioBlock f d) \<longleftrightarrow> rust_string f \<and> rust_string d"

lemma serialize_some_alt: "serialize_some k w x = (case x of None \<Rightarrow> [] | Some y \<Rightarrow> [(k, w y)])"
  by (cases x) simp_all

lemma json_bytes_literal: "json_bytes (write_bool b)" "json_bytes literal_null"
  using prim_sentence [of literal_true] prim_sentence [of literal_false] prim_sentence [of literal_null]
  by (auto simp: json_bytes_def write_bool_def intro: exI [of _ "JPrim _"])

lemma json_bytes_quote:
  assumes "serde_ok lib"
  shows "list_all is_scalar s \<Longrightarrow> json_bytes (quote lib s)" "rust_string r \<Longrightarrow> json_bytes (quote_string lib r)"
proof -
  show q: "list_all is_scalar s \<Longrightarrow> json_bytes (quote lib s)" for s
    using assms by (auto simp: serde_ok_def json_bytes_def intro: exI [of _ "JStr (quote lib s) (encode_utf16 s)"])
  show "rust_string r \<Longrightarrow> json_bytes (quote_string lib r)"
    using q by (auto simp: rust_string_def quote_string_def)
qed

text \<open>The fields of a block, its kind first.\<close>

definition all_fields :: "content_lib \<Rightarrow> content_block \<Rightarrow> (string \<times> bytes) list" where
  "all_fields lib b = (''type'', quote lib (scalars_of (fst (block_fields lib b)))) # snd (block_fields lib b)"

lemma fields_json:
  assumes "serde_ok lib" "block_ok lib b"
  shows "distinct (map fst (all_fields lib b))" "list_all (\<lambda>(k, x). json_bytes x) (all_fields lib b)"
proof -
  show "distinct (map fst (all_fields lib b))"
    by (cases b) (auto simp: all_fields_def serialize_some_alt split: option.splits)
  have "json_bytes (write_citations c)" if "citations_ok (Some c)" for c
    using that json_bytes_literal by (auto simp: write_citations_def citations_ok_def payload_ok_def split: option.splits)
  then show "list_all (\<lambda>(k, x). json_bytes x) (all_fields lib b)"
    using assms(2) json_bytes_quote [OF assms(1)] json_bytes_literal scalars_of_scalars
    by (cases b) (auto simp: all_fields_def serialize_some_alt opt_all_def pair_ok_def payload_ok_def split: option.splits)
qed

lemma fields_trees:
  "list_all (\<lambda>(k, x). json_bytes x) fs \<Longrightarrow>
    \<exists>fts. field_texts fts = fs \<and> map fst fts = map fst fs \<and> list_all (\<lambda>(k, t). sentence t) fts"
proof (induction fs)
  case (Cons f fs)
  obtain k x where f: "f = (k, x)" by (cases f)
  obtain t where t: "sentence t" "tree_text t = x" using Cons.prems by (auto simp: f json_bytes_def)
  obtain fts where "field_texts fts = fs" "map fst fts = map fst fs" "list_all (\<lambda>(k, t). sentence t) fts"
    using Cons by auto
  then show ?case using t by (intro exI [of _ "(k, t) # fts"]) (auto simp: f field_texts_def)
qed (simp add: field_texts_def)


lemma holds_field:
  "field_texts fts = fs \<Longrightarrow> list_all (\<lambda>(k, t). sentence t) fts \<Longrightarrow> holds fts k (map_of fs k)"
  by (auto simp: holds_def field_texts_map_of [symmetric] list_all_iff dest: map_of_SomeD)

lemma reads_optional_string:
  assumes "serde_ok lib" "views sc fts" "plain_field k" "opt_all rust_string x"
    "holds fts k (map_option (quote_string lib) x)"
  shows "optional_scalar_string_at sc k = Ok x"
  using assms reads_string(3) [OF assms(1-3)] reads_no_field(1) [OF assms(2,3)]
  by (cases x) (simp_all add: opt_all_def)

lemma reads_optional_payload:
  assumes "serde_ok lib" "views sc fts" "plain_field k" "opt_all payload_ok x"
    "holds fts k (map_option bytes_of_string x)"
  shows "optional_json_payload_at lib sc k = Ok x"
  using assms reads_payload(2) [OF assms(1-3)] reads_no_field(2) [OF assms(2,3)]
  by (cases x) (simp_all add: opt_all_def)

lemma reads_citations:
  assumes "serde_ok lib" "views sc fts" "plain_field k" "citations_ok c"
    "holds fts k (map_option write_citations c)"
  shows "optional_nullable_json_payload_at lib sc k = Ok c"
proof (cases c)
  case None
  then show ?thesis using reads_no_field(3) [OF assms(2,3)] assms(5) by simp
next
  case (Some d)
  then obtain t where t: "map_of fts k = Some t" "sentence t" "tree_text t = write_citations d"
    using assms(5) by (auto simp: holds_def)
  have raw: "raw_source_at sc (field_pointer k) = Some (tree_text t)"
    and kind: "kind_at sc (field_pointer k) = Some (kind_of_tree t)" using assms(2,3) t by (simp_all add: views_def)
  have null: "kind_of_tree t = KindNull \<longleftrightarrow> tree_text t = literal_null"
  proof -
    have "t = JPrim literal_null" if "tree_text t = literal_null"
      using that sentence_text [OF t(2)] sentence_text [OF prim_sentence [of literal_null]] json_text_unique by fastforce
    then show ?thesis
      by (cases t) (auto simp: literal_null_def literal_true_def literal_false_def)
  qed
  show ?thesis
  proof (cases d)
    case None
    then show ?thesis using raw kind null t Some
      by (simp add: optional_nullable_json_payload_at_def write_citations_def)
  next
    case (Some p)
    then have "kind_at sc (field_pointer k) \<noteq> Some KindNull" "payload_ok p"
      using kind null t assms(4) \<open>c = Some d\<close> by (auto simp: write_citations_def citations_ok_def)
    then show ?thesis
      using reads_payload(3) [OF assms(1-3)] assms(5) Some \<open>c = Some d\<close> by (simp add: write_citations_def)
  qed
qed

lemma reads_optional_bool:
  assumes "serde_ok lib" "views sc fts" "plain_field k" "holds fts k (map_option write_bool x)"
  shows "optional_required_bool_at lib sc k = Ok x"
proof (cases x)
  case None
  then show ?thesis using reads_no_field(4) [OF assms(2,3)] assms(4) by simp
next
  case (Some y)
  then have "raw_source_at sc (field_pointer k) = Some (write_bool y)"
    using assms(2-4) by (auto simp: views_def holds_def)
  then show ?thesis using assms(1) Some by (simp add: optional_required_bool_at_def serde_ok_def)
qed

lemma map_of_optional [simp]:
  "map_of (serialize_some k w x @ r) j =
    (if j = k \<and> x \<noteq> None then map_option w x else map_of r j)"
  "map_of (serialize_some k w x) j = (if j = k then map_option w x else None)"
  by (cases x; simp)+

lemma optional_default [simp]: "(if x \<noteq> None then map_option w x else None) = map_option w x"
  by (cases x) simp_all

lemma plain_fields:
  "list_all plain_field [''type'', ''value'', ''protocol'', ''text'', ''thought_signature'', ''citations'', ''id'',
     ''name'', ''input'', ''provider_id'', ''caller'', ''toolset_name'', ''tool_use_id'', ''content'', ''is_error'',
     ''blocks'', ''cache_reference'', ''signature'', ''data'', ''source'', ''title'', ''format'']"
  by (simp add: plain_field_def scalars_of_def)


lemma block_kinds:
  "list_all (\<lambda>k. rust_of_text (scalars_of k) = k)
    [''native'', ''provider_content'', ''text'', ''text_js_utf16'', ''tool_use'', ''tool_result'', ''thinking'',
     ''redacted_thinking'', ''image'', ''document'', ''video'', ''audio'']"
  by code_simp

lemma block_kind_text: "rust_of_text (scalars_of (fst (block_fields lib b))) = fst (block_fields lib b)"
  using block_kinds by (cases b) simp_all

text \<open>What the readers find, field by field.\<close>

lemma plain_names:
  "plain_field ''value''" "plain_field ''protocol''" "plain_field ''text''" "plain_field ''thought_signature''"
    "plain_field ''citations''" "plain_field ''id''" "plain_field ''name''" "plain_field ''input''"
    "plain_field ''provider_id''" "plain_field ''caller''" "plain_field ''toolset_name''" "plain_field ''tool_use_id''"
    "plain_field ''content''" "plain_field ''is_error''" "plain_field ''blocks''" "plain_field ''cache_reference''"
    "plain_field ''signature''" "plain_field ''data''" "plain_field ''source''" "plain_field ''title''"
    "plain_field ''format''"
  using plain_fields by simp_all

definition sees :: "content_lib \<Rightarrow> json_scanner \<Rightarrow> content_block \<Rightarrow> bool" where
  "sees lib sc b \<longleftrightarrow> serde_ok lib \<and> block_ok lib b \<and> check_block b = Ok ()
    \<and> (\<exists>fts. views sc fts \<and> (\<forall>k. holds fts k (map_of (all_fields lib b) k)))"

lemma seen:
  assumes "sees lib sc b" "plain_field k"
  shows "map_of (all_fields lib b) k = Some (quote lib t) \<Longrightarrow> list_all is_scalar t \<Longrightarrow>
      scalar_string_at sc k = Ok t \<and> string_at sc (field_pointer k) = Some t
      \<and> string_units_at sc (field_pointer k) = Some (encode_utf16 t)"
    "map_of (all_fields lib b) k = Some (quote_string lib s) \<Longrightarrow> rust_string s \<Longrightarrow>
      required_string sc k = Ok s \<and> required_value_at (read_text lib) sc k = Ok (text_of_rust s)
      \<and> rust_of_text (text_of_rust s) = s"
    "map_of (all_fields lib b) k = Some (bytes_of_string p) \<Longrightarrow> payload_ok p \<Longrightarrow> block_payload_at lib sc k = Ok p"
    "map_of (all_fields lib b) k = map_option (quote_string lib) x \<Longrightarrow> opt_all rust_string x \<Longrightarrow>
      optional_scalar_string_at sc k = Ok x"
    "map_of (all_fields lib b) k = map_option bytes_of_string y \<Longrightarrow> opt_all payload_ok y \<Longrightarrow>
      optional_json_payload_at lib sc k = Ok y"
    "map_of (all_fields lib b) k = map_option write_citations c \<Longrightarrow> citations_ok c \<Longrightarrow>
      optional_nullable_json_payload_at lib sc k = Ok c"
    "map_of (all_fields lib b) k = map_option write_bool e \<Longrightarrow> optional_required_bool_at lib sc k = Ok e"
    "map_of (all_fields lib b) k = Some w \<Longrightarrow> r w = Ok v \<Longrightarrow> required_value_at r sc k = Ok v"
proof -
  obtain fts where f: "serde_ok lib" "views sc fts" "holds fts k (map_of (all_fields lib b) k)"
    using assms(1) by (auto simp: sees_def)
  note f12 = f(1,2) assms(2)
  show "map_of (all_fields lib b) k = Some (quote lib t) \<Longrightarrow> list_all is_scalar t \<Longrightarrow>
      scalar_string_at sc k = Ok t \<and> string_at sc (field_pointer k) = Some t
      \<and> string_units_at sc (field_pointer k) = Some (encode_utf16 t)" using reads_text [OF f12, of t] f(3) by simp
  show "map_of (all_fields lib b) k = Some (quote_string lib s) \<Longrightarrow> rust_string s \<Longrightarrow>
      required_string sc k = Ok s \<and> required_value_at (read_text lib) sc k = Ok (text_of_rust s)
      \<and> rust_of_text (text_of_rust s) = s" using reads_string [OF f12, of s] f(3) by simp
  show "map_of (all_fields lib b) k = Some (bytes_of_string p) \<Longrightarrow> payload_ok p \<Longrightarrow> block_payload_at lib sc k = Ok p"
    using reads_payload(1) [OF f12, of p] f(3) by simp
  show "map_of (all_fields lib b) k = map_option (quote_string lib) x \<Longrightarrow> opt_all rust_string x \<Longrightarrow>
      optional_scalar_string_at sc k = Ok x" using reads_optional_string [OF f12, of x] f(3) by simp
  show "map_of (all_fields lib b) k = map_option bytes_of_string y \<Longrightarrow> opt_all payload_ok y \<Longrightarrow>
      optional_json_payload_at lib sc k = Ok y" using reads_optional_payload [OF f12, of y] f(3) by simp
  show "map_of (all_fields lib b) k = map_option write_citations c \<Longrightarrow> citations_ok c \<Longrightarrow>
      optional_nullable_json_payload_at lib sc k = Ok c" using reads_citations [OF f12, of c] f(3) by simp
  show "map_of (all_fields lib b) k = map_option write_bool e \<Longrightarrow> optional_required_bool_at lib sc k = Ok e"
    using reads_optional_bool [OF f12, of e] f(3) by simp
  show "map_of (all_fields lib b) k = Some w \<Longrightarrow> r w = Ok v \<Longrightarrow> required_value_at r sc k = Ok v"
    using reads_value [OF f(2) assms(2), of w r v] f(3) by simp
qed

lemma native_reads:
  assumes S: "sees lib sc b" and b: "b = NativeBlock x"
  shows "decode_kind lib sc (fst (block_fields lib b)) = Ok b"
proof -
  have B: "block_ok lib b" and C: "check_block b = Ok ()" and L: "serde_ok lib" using S by (simp_all add: sees_def)
  have "required_value_at (read_native lib) sc ''value'' = Ok x"
    using seen(8) [OF S, of "''value''" "write_native lib x" "read_native lib" x] B
    by (simp add: b plain_names all_fields_def pair_ok_def del: map_of_append)
  then show ?thesis by (simp add: b decode_kind_def)
qed

lemma provider_reads:
  assumes S: "sees lib sc b" and b: "b = ProviderContent f x"
  shows "decode_kind lib sc (fst (block_fields lib b)) = Ok b"
proof -
  have B: "block_ok lib b" and C: "check_block b = Ok ()" and L: "serde_ok lib" using S by (simp_all add: sees_def)
  have "required_value_at (read_protocol lib) sc ''protocol'' = Ok f"
    using seen(8) [OF S, of "''protocol''" "quote lib (scalars_of (protocol_name f))" "read_protocol lib" f] L
    by (simp add: b plain_names all_fields_def serde_ok_def del: map_of_append)
  moreover have "block_payload_at lib sc ''value'' = Ok x"
    using seen(3) [OF S, of "''value''"] B by (simp add: b plain_names all_fields_def del: map_of_append)
  ultimately show ?thesis by (simp add: b decode_kind_def)
qed

lemma text_reads:
  assumes S: "sees lib sc b" and b: "b = TextBlock t sig cs"
  shows "decode_kind lib sc (fst (block_fields lib b)) = Ok b"
proof -
  have B: "block_ok lib b" and C: "check_block b = Ok ()" and L: "serde_ok lib" using S by (simp_all add: sees_def)
  have t: "string_units_at sc (field_pointer ''text'') = Some (encode_utf16 t)"
    "string_at sc (field_pointer ''text'') = Some t"
    using seen(1) [OF S, of "''text''"] B by (simp_all add: b plain_names all_fields_def del: map_of_append)
  have s: "optional_scalar_string_at sc ''thought_signature'' = Ok sig"
    using seen(4) [OF S, of "''thought_signature''"] B by (simp add: b plain_names all_fields_def del: map_of_append)
  have c: "optional_nullable_json_payload_at lib sc ''citations'' = Ok cs"
    using seen(6) [OF S, of "''citations''"] B by (simp add: b plain_names all_fields_def del: map_of_append)
  show ?thesis using t s c B utf16_valid_encode by (simp add: b decode_kind_def decode_text_def)
qed

lemma exact_text_reads:
  assumes S: "sees lib sc b" and b: "b = TextJsUtf16 t us sig cs"
  shows "decode_kind lib sc (fst (block_fields lib b)) = Ok b"
proof -
  have B: "block_ok lib b" and C: "check_block b = Ok ()" and L: "serde_ok lib" using S by (simp_all add: sees_def)
  have t: "string_units_at sc (field_pointer ''text'') = Some (encode_utf16 t)"
    "string_at sc (field_pointer ''text'') = Some t"
    using seen(1) [OF S, of "''text''"] B by (simp_all add: b plain_names all_fields_def del: map_of_append)
  have s: "optional_scalar_string_at sc ''thought_signature'' = Ok sig"
    using seen(4) [OF S, of "''thought_signature''"] B by (simp add: b plain_names all_fields_def del: map_of_append)
  have c: "optional_nullable_json_payload_at lib sc ''citations'' = Ok cs"
    using seen(6) [OF S, of "''citations''"] B by (simp add: b plain_names all_fields_def del: map_of_append)
  show ?thesis using t s c B by (simp add: b decode_kind_def decode_text_def)
qed

lemma tool_use_reads:
  assumes S: "sees lib sc b" and b: "b = ToolUse i n x provider caller toolset sig"
  shows "decode_kind lib sc (fst (block_fields lib b)) = Ok b"
proof -
  have B: "block_ok lib b" and C: "check_block b = Ok ()" and L: "serde_ok lib" using S by (simp_all add: sees_def)
  have i: "required_value_at (read_text lib) sc ''id'' = Ok (text_of_rust i)" "rust_of_text (text_of_rust i) = i"
    using seen(2) [OF S, of "''id''"] B by (simp_all add: b plain_names all_fields_def del: map_of_append)
  have n: "required_string sc ''name'' = Ok n"
    using seen(2) [OF S, of "''name''"] B by (simp add: b plain_names all_fields_def del: map_of_append)
  have x: "block_payload_at lib sc ''input'' = Ok x"
    using seen(3) [OF S, of "''input''"] B by (simp add: b plain_names all_fields_def del: map_of_append)
  have p: "optional_scalar_string_at sc ''provider_id'' = Ok provider"
    using seen(4) [OF S, of "''provider_id''"] B by (simp add: b plain_names all_fields_def del: map_of_append)
  have c: "optional_json_payload_at lib sc ''caller'' = Ok caller"
    using seen(5) [OF S, of "''caller''"] B by (simp add: b plain_names all_fields_def del: map_of_append)
  have s: "optional_scalar_string_at sc ''toolset_name'' = Ok toolset"
    using seen(4) [OF S, of "''toolset_name''"] B by (simp add: b plain_names all_fields_def del: map_of_append)
  have g: "optional_scalar_string_at sc ''thought_signature'' = Ok sig"
    using seen(4) [OF S, of "''thought_signature''"] B by (simp add: b plain_names all_fields_def del: map_of_append)
  show ?thesis using i n x p c s g by (simp add: b decode_kind_def decode_tool_use_def)
qed

lemma tool_result_reads:
  assumes S: "sees lib sc b" and b: "b = ToolResult i body err blocks cache toolset"
  shows "decode_kind lib sc (fst (block_fields lib b)) = Ok b"
proof -
  have B: "block_ok lib b" and C: "check_block b = Ok ()" and L: "serde_ok lib" using S by (simp_all add: sees_def)
  have i: "required_value_at (read_text lib) sc ''tool_use_id'' = Ok (text_of_rust i)" "rust_of_text (text_of_rust i) = i"
    using seen(2) [OF S, of "''tool_use_id''"] B by (simp_all add: b plain_names all_fields_def del: map_of_append)
  have x: "block_payload_at lib sc ''content'' = Ok body"
    using seen(3) [OF S, of "''content''"] B by (simp add: b plain_names all_fields_def del: map_of_append)
  have e: "optional_required_bool_at lib sc ''is_error'' = Ok err"
    using seen(7) [OF S, of "''is_error''"] B by (simp add: b plain_names all_fields_def del: map_of_append)
  have bs: "optional_json_payload_at lib sc ''blocks'' = Ok blocks"
    using seen(5) [OF S, of "''blocks''"] B by (simp add: b plain_names all_fields_def del: map_of_append)
  have c: "optional_scalar_string_at sc ''cache_reference'' = Ok cache"
    using seen(4) [OF S, of "''cache_reference''"] B by (simp add: b plain_names all_fields_def del: map_of_append)
  have s: "optional_scalar_string_at sc ''toolset_name'' = Ok toolset"
    using seen(4) [OF S, of "''toolset_name''"] B by (simp add: b plain_names all_fields_def del: map_of_append)
  have r: "validate_root_string body ''tool result content'' = Ok ()"
    "case blocks of None \<Rightarrow> True | Some bs \<Rightarrow> validate_root_array bs ''tool result blocks'' = Ok ()"
    using C by (auto simp: b bind_result_Inr split: option.splits)
  show ?thesis using i x e bs c s r
    by (cases blocks) (simp_all add: b decode_kind_def decode_tool_result_def checked_root_def map_err_def)
qed

lemma thinking_reads:
  assumes S: "sees lib sc b" and b: "b = Thinking t sig"
  shows "decode_kind lib sc (fst (block_fields lib b)) = Ok b"
proof -
  have B: "block_ok lib b" and C: "check_block b = Ok ()" and L: "serde_ok lib" using S by (simp_all add: sees_def)
  have t: "scalar_string_at sc ''text'' = Ok t"
    using seen(1) [OF S, of "''text''"] B by (simp add: b plain_names all_fields_def del: map_of_append)
  have s: "optional_scalar_string_at sc ''signature'' = Ok sig"
    using seen(4) [OF S, of "''signature''"] B by (simp add: b plain_names all_fields_def del: map_of_append)
  show ?thesis using t s by (simp add: b decode_kind_def)
qed

lemma redacted_reads:
  assumes S: "sees lib sc b" and b: "b = RedactedThinking d"
  shows "decode_kind lib sc (fst (block_fields lib b)) = Ok b"
proof -
  have B: "block_ok lib b" and C: "check_block b = Ok ()" and L: "serde_ok lib" using S by (simp_all add: sees_def)
  have "required_string sc ''data'' = Ok d"
    using seen(2) [OF S, of "''data''"] B by (simp add: b plain_names all_fields_def del: map_of_append)
  then show ?thesis by (simp add: b decode_kind_def)
qed

lemma image_reads:
  assumes S: "sees lib sc b" and b: "b = ImageBlock x"
  shows "decode_kind lib sc (fst (block_fields lib b)) = Ok b"
proof -
  have B: "block_ok lib b" and C: "check_block b = Ok ()" and L: "serde_ok lib" using S by (simp_all add: sees_def)
  have "required_value_at (read_image lib) sc ''source'' = Ok x"
    using seen(8) [OF S, of "''source''" "write_image lib x" "read_image lib" x] B
    by (simp add: b plain_names all_fields_def pair_ok_def del: map_of_append)
  then show ?thesis by (simp add: b decode_kind_def)
qed

lemma document_reads_back:
  assumes S: "sees lib sc b" and b: "b = DocumentBlock x title"
  shows "decode_kind lib sc (fst (block_fields lib b)) = Ok b"
proof -
  have B: "block_ok lib b" and C: "check_block b = Ok ()" and L: "serde_ok lib" using S by (simp_all add: sees_def)
  have "required_value_at (read_document lib) sc ''source'' = Ok x"
    using seen(8) [OF S, of "''source''" "write_document lib x" "read_document lib" x] B
    by (simp add: b plain_names all_fields_def pair_ok_def del: map_of_append)
  moreover have "optional_scalar_string_at sc ''title'' = Ok title"
    using seen(4) [OF S, of "''title''"] B by (simp add: b plain_names all_fields_def del: map_of_append)
  ultimately show ?thesis by (simp add: b decode_kind_def)
qed

lemma video_reads:
  assumes S: "sees lib sc b" and b: "b = VideoBlock x"
  shows "decode_kind lib sc (fst (block_fields lib b)) = Ok b"
proof -
  have B: "block_ok lib b" and C: "check_block b = Ok ()" and L: "serde_ok lib" using S by (simp_all add: sees_def)
  have "required_value_at (read_video lib) sc ''source'' = Ok x"
    using seen(8) [OF S, of "''source''" "write_video lib x" "read_video lib" x] B
    by (simp add: b plain_names all_fields_def pair_ok_def del: map_of_append)
  then show ?thesis by (simp add: b decode_kind_def)
qed

lemma audio_reads:
  assumes S: "sees lib sc b" and b: "b = AudioBlock f d"
  shows "decode_kind lib sc (fst (block_fields lib b)) = Ok b"
proof -
  have B: "block_ok lib b" and C: "check_block b = Ok ()" and L: "serde_ok lib" using S by (simp_all add: sees_def)
  have "required_string sc ''format'' = Ok f"
    using seen(2) [OF S, of "''format''"] B by (simp add: b plain_names all_fields_def del: map_of_append)
  moreover have "required_string sc ''data'' = Ok d"
    using seen(2) [OF S, of "''data''"] B by (simp add: b plain_names all_fields_def del: map_of_append)
  ultimately show ?thesis by (simp add: b decode_kind_def)
qed

lemma block_reads: "sees lib sc b \<Longrightarrow> decode_kind lib sc (fst (block_fields lib b)) = Ok b"
  by (cases b) (blast intro: native_reads provider_reads text_reads exact_text_reads tool_use_reads tool_result_reads thinking_reads redacted_reads image_reads document_reads_back video_reads audio_reads)+


section \<open>Properties\<close>

text \<open>
  C2. A content block survives being saved: what the serialization writes, the reading turns back
  into the same block, whatever its kind, for a block of Rust strings, valid payloads and media
  values that serde itself reads back.  The exact units of a text are not part of what is saved.
\<close>

theorem content_block_roundtrip:
  assumes "serde_ok lib" "block_ok lib b" "serialize_block lib b = Ok src" "length src < 2 ^ 64"
  shows "decode_content_block lib src = Ok b"
proof -
  have c: "check_block b = Ok ()" and src: "src = write_fields lib (all_fields lib b)"
    using assms(3) by (auto simp: serialize_block_def bind_result_Inr all_fields_def split: prod.splits)
  obtain fts where fts: "field_texts fts = all_fields lib b" "map fst fts = map fst (all_fields lib b)"
    "list_all (\<lambda>(k, t). sentence t) fts" using fields_trees [OF fields_json(2) [OF assms(1,2)]] by blast
  have "fts \<noteq> []" using fts(1) by (auto simp: field_texts_def all_fields_def)
  then obtain sc where sc: "parse_scanner src ''content block is not valid JSON'' = Ok sc" "views sc fts"
    using written_views [OF assms(1) _ _ fts(3), of src] fts fields_json(1) [OF assms(1,2)] src assms(4) by auto
  have h: "holds fts k (map_of (all_fields lib b) k)" for k using holds_field [OF fts(1,3)] .
  have S: "sees lib sc b" using assms(1,2) c sc(2) h by (auto simp: sees_def)
  have "string_at sc (field_pointer ''type'') = Some (scalars_of (fst (block_fields lib b)))"
    using seen(1) [OF S, of "''type''" "scalars_of (fst (block_fields lib b))"] plain_fields scalars_of_scalars
    by (simp add: all_fields_def)
  then show ?thesis
    using block_reads [OF S] sc(1) by (simp add: decode_content_block_def map_err_def block_kind_text)
qed

definition scanned_text :: "bytes \<Rightarrow> string + scalars" where
  "scanned_text b =
    (case parse_scanner b [] of
       Inl _ \<Rightarrow> Err []
     | Inr sc \<Rightarrow>
         (case string_units (scanned sc) (root_node sc) of
            Some us \<Rightarrow> Ok (from_utf16_lossy us) | None \<Rightarrow> Err []))"

definition scanned_family :: "bytes \<Rightarrow> string + protocol_family" where
  "scanned_family b =
    bind_result (scanned_text b) (\<lambda>s.
      case find (\<lambda>f. scalars_of (protocol_name f) = s) protocol_families of
        Some f \<Rightarrow> Ok f | None \<Rightarrow> Err [])"

definition sample_lib :: content_lib where
  "sample_lib =
    \<lparr> content_json = unit_lib, quote = (\<lambda>s. write_json_string_from_utf16 (encode_utf16 s)),
      read_text = scanned_text,
      read_bool = (\<lambda>b. if b = literal_true then Ok True else if b = literal_false then Ok False else Err []),
      read_protocol = scanned_family,
      write_native = (\<lambda>_. []), read_native = (\<lambda>_. Err []), write_image = (\<lambda>_. []), read_image = (\<lambda>_. Err []),
      write_document = (\<lambda>_. []), read_document = (\<lambda>_. Err []), write_video = (\<lambda>_. []), read_video = (\<lambda>_. Err []) \<rparr>"

lemma sample_serde: "serde_ok sample_lib"
proof -
  have s: "sentence (JStr (write_json_string_from_utf16 us) us)" for us
    using string_written string_written_utf8 by (simp add: sentence_def)
  have t: "scanned_text (write_json_string_from_utf16 (encode_utf16 s)) = Ok s" if "list_all is_scalar s" for s
  proof -
    let ?b = "write_json_string_from_utf16 (encode_utf16 s)"
    obtain sc where sc: "parse_scanner ?b [] = Ok sc"
      "stands_for ?b (scanned sc) (root_node sc) (JStr ?b (encode_utf16 s))"
      using parse_reads sentence_text [OF s] by fastforce
    then show ?thesis using stands_views(2) [OF sc(2)] that by (simp add: scanned_text_def lossy_scalars)
  qed
  have f: "find (\<lambda>g. scalars_of (protocol_name g) = scalars_of (protocol_name f)) protocol_families = Some f" for f
    by (cases f) (simp_all add: protocol_families_def scalars_of_inj)
  show ?thesis
    using s t f scalars_of_scalars
    by (simp add: serde_ok_def sample_lib_def unit_lib_def accepts_json_def write_bool_def scanned_family_def
        literal_true_def literal_false_def)
qed

definition sample_block :: content_block where
  "sample_block = TextBlock [0x68, 0x69] (Some ''sig'') (Some None)"

theorem content_block_roundtrip_witness:
  "\<exists>src. serialize_block sample_lib sample_block = Ok src \<and> decode_content_block sample_lib src = Ok sample_block"
proof -
  have "''sig'' = rust_of_text (scalars_of ''sig'')" by code_simp
  then have "block_ok sample_lib sample_block"
    using scalars_of_scalars
    by (auto simp: sample_block_def opt_all_def citations_ok_def is_scalar_def rust_string_def)
  moreover obtain src where src: "serialize_block sample_lib sample_block = Ok src"
    by (simp add: serialize_block_def sample_block_def)
  moreover have "case serialize_block sample_lib sample_block of Inl _ \<Rightarrow> True | Inr src \<Rightarrow> length src < 2 ^ 64"
    by code_simp
  ultimately have "decode_content_block sample_lib src = Ok sample_block"
    by (intro content_block_roundtrip [OF sample_serde]) simp_all
  then show ?thesis using src by blast
qed

end
