(* ===== verification/Replay.thy ===== *)
theory Replay
  imports Content_Codec Provider
begin

text \<open>
  Moving a conversation to another wire family (\<^verbatim>\<open>src/replay.rs\<close>): which content
  blocks a family can replay, what is left of the others when the caller permits the loss, and
  the adaptation of a whole request with the positions of the blocks it keeps.  The prompt cache
  policy (\<^verbatim>\<open>src/protocol/cache.rs\<close>) and the continuation reference
  (\<^verbatim>\<open>src/protocol/continuation.rs\<close>) are the parts of a request bound to its route.

  The parts of a request that adaptation copies are the extension of the record
  \<open>chat_request\<close>.
\<close>

section \<open>The prompt cache policy\<close>

datatype cache_ttl = FiveMinutes | ThirtyMinutes | OneHour

datatype prompt_cache_mode = ImplicitMode | ExplicitMode

datatype prompt_cache_ttl = CacheThirtyMinutes

record prompt_cache_options =
  cache_mode :: "prompt_cache_mode option"
  minimum_ttl :: "prompt_cache_ttl option"

datatype prompt_cache_retention = InMemory | TwentyFourHours

datatype cache_position = ToolPosition nat | SystemPosition nat | MessagePosition nat nat

datatype cache_scope = GlobalScope

record cache_breakpoint =
  breakpoint_scope :: "cache_scope option"
  breakpoint_at :: cache_position
  breakpoint_ttl :: cache_ttl

record prompt_cache_policy =
  automatic :: "cache_ttl option"
  breakpoints :: "cache_breakpoint list"
  prompt_cache_key :: "string option"
  cache_options :: "prompt_cache_options option"
  cache_retention :: "prompt_cache_retention option"

definition default_cache :: prompt_cache_policy where
  "default_cache = \<lparr> automatic = None, breakpoints = [], prompt_cache_key = None,
     cache_options = None, cache_retention = None \<rparr>"

section \<open>Continuation references\<close>

text \<open>FNV-1a with 128 bits (\<^verbatim>\<open>src/files/http.rs\<close>), printed as 32 hexadecimal digits.\<close>

definition fnv_step :: "128 word \<Rightarrow> byte \<Rightarrow> 128 word" where
  "fnv_step h b = (xor h (ucast b)) * 0x0000000001000000000000000000013B"

definition fnv_hash :: "bytes \<Rightarrow> 128 word" where
  "fnv_hash bs = foldl fnv_step 0x6C62272E07BB014262B821756295C58D bs"

fun hex_digits :: "nat \<Rightarrow> nat \<Rightarrow> bytes" where
  "hex_digits 0 n = []"
| "hex_digits (Suc k) n = hex_digits k (n div 16) @ [hex_char (n mod 16)]"

definition provider_file_endpoint_fingerprint :: "string \<Rightarrow> string" where
  "provider_file_endpoint_fingerprint url =
    ''fnv1a128:'' @ string_of_bytes (hex_digits 32 (unat (fnv_hash (bytes_of_string url))))"

record continuation_ref =
  cr_response :: response_id
  cr_protocol :: protocol_family
  cr_provider :: provider_id
  cr_profile :: string
  cr_endpoint :: string
  cr_account :: string
  cr_model :: string
  cr_workspace :: "string option"

definition scoped_continuation ::
  "response_id \<Rightarrow> provider_profile \<Rightarrow> string \<Rightarrow> string \<Rightarrow> string option \<Rightarrow> continuation_ref" where
  "scoped_continuation r p model account workspace =
    \<lparr> cr_response = r, cr_protocol = protocol p, cr_provider = provider_id p,
      cr_profile = profile_name p, cr_endpoint = provider_file_endpoint_fingerprint (base_url p),
      cr_account = account, cr_model = model, cr_workspace = workspace \<rparr>"

definition validate_continuation ::
  "continuation_ref \<Rightarrow> provider_profile \<Rightarrow> string \<Rightarrow> string option \<Rightarrow> string option \<Rightarrow> llm_error + unit" where
  "validate_continuation c p model account workspace =
    (if cr_protocol c \<noteq> protocol p
        \<or> trim (cr_response c) = []
        \<or> cr_provider c \<noteq> provider_id p
        \<or> cr_profile c \<noteq> profile_name p
        \<or> cr_endpoint c \<noteq> provider_file_endpoint_fingerprint (base_url p)
        \<or> cr_account c = []
        \<or> Some (cr_account c) \<noteq> account
        \<or> cr_model c \<noteq> model
        \<or> cr_workspace c \<noteq> workspace
     then Err (InvalidRequest
       [Lit ''continuation reference does not match the selected connection, model, workspace or account scope''])
     else Ok ())"

section \<open>Replay of one block\<close>

text \<open>Hosting adapters share the replay representation of the wire they host.\<close>

fun native_family :: "protocol_family \<Rightarrow> protocol_family" where
  "native_family BedrockClaude = AnthropicMessages"
| "native_family VertexClaude = AnthropicMessages"
| "native_family FoundryClaude = AnthropicMessages"
| "native_family AzureOpenAi = OpenAiChat"
| "native_family VertexGemini = GeminiGenerateContent"
| "native_family f = f"

datatype replay_policy = RejectIncompatible | DropIncompatible

datatype replay_decision =
    Compatible content_block
  | Incompatible "content_block option" string

fun apply_policy :: "replay_decision \<Rightarrow> replay_policy \<Rightarrow> llm_error + content_block option" where
  "apply_policy (Compatible b) p = Ok (Some b)"
| "apply_policy (Incompatible r reason) DropIncompatible = Ok r"
| "apply_policy (Incompatible r reason) RejectIncompatible = Err (InvalidRequest [Lit reason])"

record replay_context =
  replay_target :: protocol_family
  foreign_reasoning :: bool

definition type_field :: scalars where "type_field = scalars_of ''/type''"

definition has_type :: "json_payload \<Rightarrow> string list \<Rightarrow> bool" where
  "has_type v names \<longleftrightarrow>
    (case payload_string_at v type_field of Some t \<Rightarrow> t \<in> scalars_of ` set names | None \<Rightarrow> False)"

fun foreign_reasoning_block :: "protocol_family \<Rightarrow> content_block \<Rightarrow> bool" where
  "foreign_reasoning_block target (ProviderContent f v) \<longleftrightarrow>
    native_family f \<noteq> target \<and> has_type v [''reasoning'', ''chat_reasoning'']"
| "foreign_reasoning_block target _ \<longleftrightarrow> False"

definition for_message :: "content_block list \<Rightarrow> protocol_family \<Rightarrow> replay_context" where
  "for_message bs target =
    (let target = native_family target in
     \<lparr> replay_target = target, foreign_reasoning = list_ex (foreign_reasoning_block target) bs \<rparr>)"

text \<open>\<^verbatim>\<open>JsonPayload::string\<close>, of text held as UTF-8; \<^verbatim>\<open>String::from_utf16\<close> gives a text only
of paired units.\<close>

definition payload_of_units :: "json_lib \<Rightarrow> u16 list \<Rightarrow> string + json_payload" where
  "payload_of_units lib us = parse_payload lib (write_json_string_from_utf16 us)"

definition ok_of :: "'e + 'a \<Rightarrow> 'a option" where
  "ok_of r = (case r of Inl _ \<Rightarrow> None | Inr x \<Rightarrow> Some x)"

definition paired :: "u16 list option \<Rightarrow> bool" where
  "paired us \<longleftrightarrow> (case us of Some us \<Rightarrow> utf16_valid us | None \<Rightarrow> False)"

text \<open>\<^verbatim>\<open>serde_json::from_str::<bool>\<close> of a value's own source.\<close>

definition bool_source :: "bytes \<Rightarrow> bool option" where
  "bool_source src =
    (if src = literal_true then Some True else if src = literal_false then Some False else None)"

definition portable_text :: "json_payload \<Rightarrow> content_block option" where
  "portable_text v =
    (case payload_string_at v (scalars_of ''/text'') of
       Some t \<Rightarrow>
         if paired (payload_string_units_at v (scalars_of ''/text'')) then Some (TextBlock t None None)
         else None
     | None \<Rightarrow> None)"

definition portable_tool_result :: "json_lib \<Rightarrow> json_payload \<Rightarrow> content_block option" where
  "portable_tool_result lib v =
    (let src = payload_raw_source_at v (scalars_of ''/content'');
         kind = payload_kind_at v (scalars_of ''/content'');
         parsed_blocks =
           (if kind = Some KindArray then Option.bind src (\<lambda>s. ok_of (parse_payload lib s)) else None);
         body = Option.bind src (\<lambda>s.
           if kind = Some KindString then ok_of (parse_payload lib s)
           else ok_of (payload_of_units lib (encode_utf16 (decode_utf8 s)))) in
     case (payload_string_at v (scalars_of ''/tool_use_id''), body) of
       (Some i, Some body) \<Rightarrow>
         if i \<noteq> [] \<and> paired (payload_string_units_at v (scalars_of ''/tool_use_id''))
         then Some (ToolResult (rust_of_text i) body
           (Option.bind (payload_raw_source_at v (scalars_of ''/is_error'')) bool_source)
           parsed_blocks None None)
         else None
     | _ \<Rightarrow> None)"

definition native_replacement :: "json_lib \<Rightarrow> protocol_family \<Rightarrow> json_payload \<Rightarrow> content_block option" where
  "native_replacement lib f v =
    (if payload_string_is v type_field (scalars_of ''text'') then portable_text v
     else if native_family f = AnthropicMessages \<and> payload_string_is v type_field (scalars_of ''tool_result'')
       then portable_tool_result lib v
     else None)"

definition google_computer_formats :: "string list" where
  "google_computer_formats =
    [''google.interactions.computer_call.v1'', ''google.interactions.computer_result.v1'']"

definition openai_call_format :: string where
  "openai_call_format = ''openai.responses.computer_call.v1''"

definition openai_output_format :: string where
  "openai_output_format = ''openai.responses.computer_call_output.v1''"

definition foreign_to :: "replay_context \<Rightarrow> protocol_family option \<Rightarrow> bool" where
  "foreign_to cx src \<longleftrightarrow>
    (case map_option native_family src of Some s \<Rightarrow> s \<noteq> replay_target cx | None \<Rightarrow> False)"

fun decision :: "json_lib \<Rightarrow> replay_context \<Rightarrow> content_block \<Rightarrow> protocol_family option \<Rightarrow> replay_decision" where
  "decision lib cx (NativeBlock v) src =
    (if replay_target cx = GeminiInteractions
        \<and> \<not> foreign_to cx src
        \<and> native_format v \<in> set google_computer_formats
     then Compatible (NativeBlock v)
     else if native_format v = openai_call_format
     then Incompatible None ''computer calls continue through their response reference and paired output''
     else if replay_target cx = OpenAiResponses \<and> native_format v = openai_output_format
     then Compatible (NativeBlock v)
     else Incompatible None ''typed native content is unsupported on the target protocol'')"
| "decision lib cx (ProviderContent f v) src =
    (if has_type v [''computer_call'', ''computer_call_output''] then
       Incompatible None ''computer calls and outputs require the validated typed continuation path''
     else if native_family f = replay_target cx then Compatible (ProviderContent (native_family f) v)
     else Incompatible (native_replacement lib f v)
       ''native content belongs to a different protocol family'')"
| "decision lib cx (Thinking t sig) src =
    (let foreign = foreign_to cx src in
     if replay_target cx = AnthropicMessages \<and> (foreign \<or> sig = None \<and> foreign_reasoning cx) then
       Incompatible None ''foreign reasoning is not signed Anthropic thinking''
     else if sig \<noteq> None
       \<and> (foreign \<or> replay_target cx \<notin> {AnthropicMessages, GeminiGenerateContent}) then
       Incompatible (Some (Thinking t None)) ''reasoning signature belongs to a different protocol family''
     else Compatible (Thinking t sig))"
| "decision lib cx (RedactedThinking r) src =
    (if replay_target cx \<noteq> AnthropicMessages
        \<or> foreign_to cx src then
       Incompatible None ''redacted thinking requires its original Anthropic protocol family''
     else Compatible (RedactedThinking r))"
| "decision lib cx (TextBlock t sig cites) src =
    (let foreign = foreign_to cx src in
     if cites \<noteq> None \<and> (foreign \<or> replay_target cx \<noteq> AnthropicMessages) then
       Incompatible (Some (TextBlock t None None))
         ''text citations field presence belongs to Anthropic Messages''
     else if sig \<noteq> None \<and> (foreign \<or> replay_target cx \<noteq> GeminiGenerateContent) then
       Incompatible (Some (TextBlock t None cites))
         ''text thought signature belongs to a different protocol family''
     else Compatible (TextBlock t sig cites))"
| "decision lib cx (TextJsUtf16 t us sig cites) src =
    (let foreign = foreign_to cx src in
     if cites \<noteq> None \<and> (foreign \<or> replay_target cx \<noteq> AnthropicMessages) then
       Incompatible (Some (TextJsUtf16 t us sig None))
         ''text citations field presence belongs to Anthropic Messages''
     else if sig \<noteq> None \<and> (foreign \<or> replay_target cx \<noteq> GeminiGenerateContent) then
       Incompatible (Some (TextJsUtf16 t us None cites))
         ''text thought signature belongs to a different protocol family''
     else Compatible (TextJsUtf16 t us sig cites))"
| "decision lib cx (ToolUse i n v provider caller toolset sig) src =
    (let foreign = foreign_to cx src;
         strip_signature = (sig \<noteq> None \<and> (foreign \<or> replay_target cx \<noteq> GeminiGenerateContent));
         strip_caller = ((caller \<noteq> None \<or> toolset \<noteq> None) \<and> (foreign \<or> replay_target cx \<noteq> AnthropicMessages));
         strip_provider = (provider \<noteq> None \<and> foreign) in
     if strip_signature \<or> strip_caller \<or> strip_provider then
       Incompatible (Some (ToolUse i n v
           (if strip_provider then None else provider)
           (if strip_caller then None else caller)
           (if strip_caller then None else toolset)
           (if strip_signature then None else sig)))
         ''tool replay metadata belongs to a different protocol family''
     else Compatible (ToolUse i n v provider caller toolset sig))"
| "decision lib cx (ToolResult i body err blocks cache toolset) src =
    (if toolset \<noteq> None \<and> (foreign_to cx src
        \<or> replay_target cx \<noteq> AnthropicMessages) then
       Incompatible (Some (ToolResult i body err blocks cache None))
         ''toolset result metadata belongs to a different protocol family''
     else Compatible (ToolResult i body err blocks cache toolset))"
| "decision lib cx b src = Compatible b"

definition normalize_block ::
  "json_lib \<Rightarrow> replay_context \<Rightarrow> content_block \<Rightarrow> protocol_family option \<Rightarrow> replay_policy
    \<Rightarrow> llm_error + content_block option" where
  "normalize_block lib cx b src policy = apply_policy (decision lib cx b src) policy"

section \<open>Adapting a request\<close>

record chat_request =
  prompt_cache :: prompt_cache_policy
  continuation :: "continuation_ref option"
  request_messages :: "conversation_message list"

type_synonym position_map = "((nat \<times> nat) \<times> (nat \<times> nat)) list"

fun adapt_blocks ::
  "json_lib \<Rightarrow> replay_context \<Rightarrow> protocol_family \<Rightarrow> replay_policy \<Rightarrow> nat \<Rightarrow> nat \<Rightarrow> nat \<Rightarrow> nat
    \<Rightarrow> content_block list \<Rightarrow> llm_error + content_block list \<times> position_map" where
  "adapt_blocks lib cx src policy mi mo bi bo [] = Ok ([], [])"
| "adapt_blocks lib cx src policy mi mo bi bo (b # bs) =
    bind_result (normalize_block lib cx b (Some src) policy) (\<lambda>r.
      case r of
        None \<Rightarrow> adapt_blocks lib cx src policy mi mo (Suc bi) bo bs
      | Some c \<Rightarrow>
          bind_result (adapt_blocks lib cx src policy mi mo (Suc bi) (Suc bo) bs) (\<lambda>(cs, ps).
            Ok (c # cs, ((mi, bi), (mo, bo)) # ps)))"

fun adapt_messages ::
  "json_lib \<Rightarrow> protocol_family \<Rightarrow> protocol_family \<Rightarrow> replay_policy \<Rightarrow> nat \<Rightarrow> nat
    \<Rightarrow> conversation_message list \<Rightarrow> llm_error + conversation_message list \<times> position_map" where
  "adapt_messages lib src target policy mi mo [] = Ok ([], [])"
| "adapt_messages lib src target policy mi mo (m # ms) =
    bind_result (adapt_blocks lib (for_message (content m) target) src policy mi mo 0 0 (content m))
      (\<lambda>(cs, ps).
        let kept = (cs \<noteq> [] \<or> native_options m \<noteq> []) in
        bind_result
          (adapt_messages lib src target policy (Suc mi) (if kept then Suc mo else mo) ms) (\<lambda>(ms', qs).
          Ok ((if kept then [m \<lparr> content := cs \<rparr>] else []) @ ms', ps @ qs)))"

definition same_positions :: "nat \<Rightarrow> conversation_message list \<Rightarrow> position_map" where
  "same_positions k ms =
    concat (map (\<lambda>(mi, m). map (\<lambda>bi. ((mi, bi), (mi, bi))) [0 ..< length (content m)]) (enumerate k ms))"

definition adapt_request ::
  "json_lib \<Rightarrow> 'a chat_request_scheme \<Rightarrow> protocol_family \<Rightarrow> protocol_family \<Rightarrow> replay_policy
    \<Rightarrow> llm_error + 'a chat_request_scheme \<times> position_map" where
  "adapt_request lib req src target policy =
    (if native_family src = native_family target then
       Ok (req, same_positions 0 (request_messages req))
     else if continuation req \<noteq> None then
       Err (InvalidRequest [Lit ''a provider continuation cannot change protocol family''])
     else if prompt_cache req \<noteq> default_cache \<and> policy = RejectIncompatible then
       Err (InvalidRequest [Lit ''prompt cache policy belongs to the original protocol family''])
     else
       bind_result (adapt_messages lib src target policy 0 0 (request_messages req)) (\<lambda>(ms, ps).
         Ok (req \<lparr> prompt_cache := default_cache, request_messages := ms \<rparr>, ps)))"

section \<open>What reduction to plain text would lose\<close>

fun native_cited_text :: "content_block \<Rightarrow> scalars option" where
  "native_cited_text (ProviderContent f v) =
    (if native_family f \<noteq> AnthropicMessages
        \<or> \<not> payload_string_is v type_field (scalars_of ''text'')
        \<or> (case payload_array_len v (scalars_of ''/citations'') of None \<Rightarrow> True | Some n \<Rightarrow> n = 0)
        \<or> \<not> paired (payload_string_units_at v (scalars_of ''/text''))
     then None else payload_string_at v (scalars_of ''/text''))"
| "native_cited_text _ = None"

definition has_replay_metadata :: "content_block \<Rightarrow> bool" where
  "has_replay_metadata b \<longleftrightarrow>
    native_cited_text b \<noteq> None
    \<or> (case b of
         TextBlock _ sig cites \<Rightarrow> sig \<noteq> None \<or> cites \<noteq> None
       | TextJsUtf16 _ _ sig cites \<Rightarrow> sig \<noteq> None \<or> cites \<noteq> None
       | ToolUse _ _ _ provider caller toolset sig \<Rightarrow>
           sig \<noteq> None \<or> provider \<noteq> None \<or> caller \<noteq> None \<or> toolset \<noteq> None
       | _ \<Rightarrow> False)"

section \<open>Lemmas\<close>

lemma native_family_idem [simp]: "native_family (native_family f) = native_family f"
  by (cases f) simp_all

text \<open>Metadata that only the wire family it came from can read; a text block with exact units
keeps its signature when it loses its citations.\<close>

fun carries_foreign :: "protocol_family \<Rightarrow> content_block \<Rightarrow> bool" where
  "carries_foreign target (TextBlock _ sig cites) \<longleftrightarrow> sig \<noteq> None \<or> cites \<noteq> None"
| "carries_foreign target (TextJsUtf16 _ _ sig cites) \<longleftrightarrow> cites \<noteq> None"
| "carries_foreign target (ToolUse _ _ _ provider caller toolset sig) \<longleftrightarrow>
    sig \<noteq> None \<or> provider \<noteq> None \<or> caller \<noteq> None \<or> toolset \<noteq> None"
| "carries_foreign target (ToolResult _ _ _ _ _ toolset) \<longleftrightarrow> toolset \<noteq> None"
| "carries_foreign target (Thinking _ sig) \<longleftrightarrow> sig \<noteq> None \<or> target = AnthropicMessages"
| "carries_foreign target (RedactedThinking _) \<longleftrightarrow> True"
| "carries_foreign target (ProviderContent f _) \<longleftrightarrow> f \<noteq> target"
| "carries_foreign target (NativeBlock v) \<longleftrightarrow>
    \<not> (target = OpenAiResponses \<and> native_format v = openai_output_format)"
| "carries_foreign target _ \<longleftrightarrow> False"

lemma replacement_portable:
  "native_replacement lib f v = Some b \<Longrightarrow> \<not> carries_foreign target b"
  by (auto simp: native_replacement_def portable_text_def portable_tool_result_def Let_def
      split: if_splits option.splits)

lemma normalized_portable:
  assumes "normalize_block lib cx b (Some src) policy = Ok (Some c)"
    and "native_family src \<noteq> replay_target cx"
  shows "\<not> carries_foreign (replay_target cx) c"
proof -
  have f: "foreign_to cx (Some src)" using assms(2) by (simp add: foreign_to_def)
  show ?thesis
  proof (cases b)
    case (ProviderContent p v)
    then show ?thesis using assms(1)
      by (cases policy) (auto simp: normalize_block_def split: if_splits dest: replacement_portable)
  qed (use assms(1) f in \<open>cases policy; force simp: normalize_block_def Let_def split: if_splits\<close>)+
qed

lemma signature_outlives_citations:
  "normalize_block lib \<lparr> replay_target = AnthropicMessages, foreign_reasoning = False \<rparr>
     (TextJsUtf16 t us (Some sig) (Some None)) (Some GeminiGenerateContent) DropIncompatible
   = Ok (Some (TextJsUtf16 t us (Some sig) None))
   \<and> normalize_block lib \<lparr> replay_target = AnthropicMessages, foreign_reasoning = False \<rparr>
     (TextBlock t (Some sig) (Some None)) (Some GeminiGenerateContent) DropIncompatible
   = Ok (Some (TextBlock t None None))"
  by (simp add: normalize_block_def foreign_to_def)

definition pos_less :: "nat \<times> nat \<Rightarrow> nat \<times> nat \<Rightarrow> bool" where
  "pos_less p q \<longleftrightarrow> fst p < fst q \<or> fst p = fst q \<and> snd p < snd q"

definition in_step :: "position_map \<Rightarrow> bool" where
  "in_step ps \<longleftrightarrow> sorted_wrt (\<lambda>p q. pos_less (fst p) (fst q) \<and> pos_less (snd p) (snd q)) ps"

definition block_slots :: "conversation_message list \<Rightarrow> (nat \<times> nat) set" where
  "block_slots ms = {(m, k). m < length ms \<and> k < length (content (ms ! m))}"

text \<open>Where a block of a message may go: its message, its role, and what replay makes of it.\<close>

definition replays ::
  "json_lib \<Rightarrow> protocol_family \<Rightarrow> protocol_family \<Rightarrow> replay_policy
    \<Rightarrow> conversation_message \<Rightarrow> nat \<Rightarrow> conversation_message \<Rightarrow> nat \<Rightarrow> bool" where
  "replays lib src target policy m k m' l \<longleftrightarrow>
    k < length (content m) \<and> l < length (content m')
    \<and> role m' = role m \<and> native_options m' = native_options m
    \<and> (if native_family src = native_family target then content m' ! l = content m ! k
       else normalize_block lib (for_message (content m) target) (content m ! k) (Some src) policy
              = Ok (Some (content m' ! l)))"

lemma adapt_blocks_positions:
  "adapt_blocks lib cx src policy mi mo bi bo bs = Ok (cs, ps) \<Longrightarrow>
    map snd ps = map (Pair mo) [bo ..< bo + length cs]
    \<and> in_step ps
    \<and> (\<forall>p \<in> set ps. fst (fst p) = mi \<and> fst (snd p) = mo \<and> bi \<le> snd (fst p) \<and> bo \<le> snd (snd p)
        \<and> snd (fst p) - bi < length bs \<and> snd (snd p) - bo < length cs
        \<and> normalize_block lib cx (bs ! (snd (fst p) - bi)) (Some src) policy
            = Ok (Some (cs ! (snd (snd p) - bo))))"
proof (induction bs arbitrary: bi bo cs ps)
  case (Cons b bs)
  from Cons.prems obtain r where r: "normalize_block lib cx b (Some src) policy = Ok r"
    by (auto simp: bind_result_Inr)
  show ?case
  proof (cases r)
    case None
    then have "adapt_blocks lib cx src policy mi mo (Suc bi) bo bs = Ok (cs, ps)"
      using Cons.prems r by simp
    from Cons.IH [OF this] show ?thesis by (fastforce simp: nth_Cons' Suc_le_eq)
  next
    case (Some c)
    then obtain cs' ps' where rec: "adapt_blocks lib cx src policy mi mo (Suc bi) (Suc bo) bs = Ok (cs', ps')"
      and e: "cs = c # cs'" "ps = ((mi, bi), (mo, bo)) # ps'"
      using Cons.prems r by (auto simp: bind_result_Inr)
    note IH = Cons.IH [OF rec]
    have s: "in_step ps" unfolding e using IH by (fastforce simp: in_step_def pos_less_def Suc_le_eq)
    have m: "map snd ps = map (Pair mo) [bo ..< bo + length cs]"
      using IH by (simp add: e upt_conv_Cons del: upt_Suc)
    have a: "\<forall>p \<in> set ps. fst (fst p) = mi \<and> fst (snd p) = mo \<and> bi \<le> snd (fst p) \<and> bo \<le> snd (snd p)
        \<and> snd (fst p) - bi < length (b # bs) \<and> snd (snd p) - bo < length cs
        \<and> normalize_block lib cx ((b # bs) ! (snd (fst p) - bi)) (Some src) policy
            = Ok (Some (cs ! (snd (snd p) - bo)))"
      using IH by (auto simp: e nth_Cons' r Some Suc_le_eq)
    show ?thesis using s m a by blast
  qed
qed (simp add: in_step_def)


lemma in_step_append:
  assumes "in_step ps" "in_step qs"
    "\<forall>p \<in> set ps. \<forall>q \<in> set qs. pos_less (fst p) (fst q) \<and> pos_less (snd p) (snd q)"
  shows "in_step (ps @ qs)"
  using assms by (simp add: in_step_def sorted_wrt_append)

lemma block_slots_Nil [simp]: "block_slots [] = {}"
  by (simp add: block_slots_def)

lemma block_slots_Cons:
  "block_slots (m # ms) =
    Pair 0 ` {..< length (content m)} \<union> (\<lambda>p. (Suc (fst p), snd p)) ` block_slots ms"
proof -
  have "(i, k) \<in> block_slots (m # ms) \<longleftrightarrow>
    (i, k) \<in> Pair 0 ` {..< length (content m)} \<union> (\<lambda>p. (Suc (fst p), snd p)) ` block_slots ms" for i k
    by (cases i) (auto simp: block_slots_def image_iff)
  then show ?thesis by auto
qed

definition shifted :: "nat \<Rightarrow> (nat \<times> nat) set \<Rightarrow> (nat \<times> nat) set" where
  "shifted n s = (\<lambda>p. (n + fst p, snd p)) ` s"

lemma shifted_slots:
  "shifted n (block_slots (m # ms)) =
    Pair n ` {..< length (content m)} \<union> shifted (Suc n) (block_slots ms)"
  by (simp add: shifted_def block_slots_Cons image_Un image_image)

lemma adapt_messages_positions:
  assumes "adapt_messages lib src target policy mi mo ms = Ok (ms', ps)"
    and "native_family src \<noteq> native_family target"
  shows "in_step ps \<and> snd ` set ps = shifted mo (block_slots ms')
    \<and> (\<forall>p \<in> set ps. mi \<le> fst (fst p) \<and> fst (fst p) - mi < length ms \<and> mo \<le> fst (snd p)
        \<and> replays lib src target policy (ms ! (fst (fst p) - mi)) (snd (fst p))
            (ms' ! (fst (snd p) - mo)) (snd (snd p)))"
  using assms(1)
proof (induction ms arbitrary: mi mo ms' ps)
  case (Cons m ms)
  from Cons.prems obtain cs qs ns rs where
    b: "adapt_blocks lib (for_message (content m) target) src policy mi mo 0 0 (content m) = Ok (cs, qs)"
    and r: "adapt_messages lib src target policy (Suc mi)
          (if cs \<noteq> [] \<or> native_options m \<noteq> [] then Suc mo else mo) ms = Ok (ns, rs)"
    and e: "ps = qs @ rs"
      "ms' = (if cs \<noteq> [] \<or> native_options m \<noteq> [] then [m \<lparr> content := cs \<rparr>] else []) @ ns"
    by (auto simp: bind_result_Inr Let_def)
  note B = adapt_blocks_positions [OF b]
  note R = Cons.IH [OF r]
  have qs: "replays lib src target policy m (snd (fst p)) (m \<lparr> content := cs \<rparr>) (snd (snd p))"
    and at: "fst (fst p) = mi" "fst (snd p) = mo" if "p \<in> set qs" for p
    using B that assms(2) by (auto simp: replays_def)
  have img: "snd ` set qs = Pair mo ` {..< length cs}"
    using B by (metis add_0 atLeast_upt list.set_map)
  have step: "in_step ps"
    unfolding e(1) using B R at by (intro in_step_append) (fastforce simp: pos_less_def Suc_le_eq split: if_splits)+
  show ?case
  proof (cases "cs \<noteq> [] \<or> native_options m \<noteq> []")
    case True
    then have m': "ms' = m \<lparr> content := cs \<rparr> # ns" using e by simp
    have "snd ` set ps = shifted mo (block_slots ms')"
      using R True by (simp add: e(1) m' shifted_slots img image_Un)
    moreover have "mi \<le> fst (fst p) \<and> fst (fst p) - mi < length (m # ms) \<and> mo \<le> fst (snd p)
        \<and> replays lib src target policy ((m # ms) ! (fst (fst p) - mi)) (snd (fst p))
            (ms' ! (fst (snd p) - mo)) (snd (snd p))" if "p \<in> set ps" for p
    proof (cases "p \<in> set qs")
      case False
      then have "p \<in> set rs" using that e by simp
      then have "Suc mi \<le> fst (fst p) \<and> fst (fst p) - Suc mi < length ms \<and> Suc mo \<le> fst (snd p)
        \<and> replays lib src target policy (ms ! (fst (fst p) - Suc mi)) (snd (fst p))
            (ns ! (fst (snd p) - Suc mo)) (snd (snd p))" using R True by simp
      then show ?thesis by (auto simp: m' nth_Cons' Suc_le_eq)
    qed (use qs at in \<open>simp add: m'\<close>)
    ultimately show ?thesis using step by blast
  next
    case False
    then have m': "ms' = ns" "qs = []" using e img by simp_all
    have "\<forall>p \<in> set ps. Suc mi \<le> fst (fst p) \<and> fst (fst p) - Suc mi < length ms \<and> mo \<le> fst (snd p)
        \<and> replays lib src target policy (ms ! (fst (fst p) - Suc mi)) (snd (fst p))
            (ns ! (fst (snd p) - mo)) (snd (snd p))" using R False by (simp add: e m')
    then have "mi \<le> fst (fst p) \<and> fst (fst p) - mi < length (m # ms) \<and> mo \<le> fst (snd p)
        \<and> replays lib src target policy ((m # ms) ! (fst (fst p) - mi)) (snd (fst p))
            (ms' ! (fst (snd p) - mo)) (snd (snd p))" if "p \<in> set ps" for p
      using that by (auto simp: m' nth_Cons' Suc_le_eq)
    then show ?thesis using step R False by (simp add: e m')
  qed
qed (simp add: in_step_def shifted_def)


lemma same_positions_step:
  "in_step (same_positions k ms) \<and> snd ` set (same_positions k ms) = shifted k (block_slots ms)
    \<and> (\<forall>p \<in> set (same_positions k ms). k \<le> fst (fst p) \<and> fst (fst p) - k < length ms \<and> fst p = snd p
        \<and> snd (fst p) < length (content (ms ! (fst (fst p) - k))))"
proof (induction ms arbitrary: k)
  case (Cons m ms)
  define here where "here = map (\<lambda>bi. ((k, bi), (k, bi))) [0 ..< length (content m)]"
  have e: "same_positions k (m # ms) = here @ same_positions (Suc k) ms"
    by (simp add: same_positions_def here_def)
  note IH = Cons.IH [of "Suc k"]
  have h: "in_step here" by (auto simp: here_def in_step_def pos_less_def sorted_wrt_map sorted_wrt_upt)
  have "in_step (here @ same_positions (Suc k) ms)"
    using IH by (intro in_step_append h) (fastforce simp: here_def pos_less_def)+
  moreover have "snd ` set (here @ same_positions (Suc k) ms) = shifted k (block_slots (m # ms))"
    using IH by (simp add: image_Un shifted_slots here_def image_image atLeast0LessThan)
  moreover have "k \<le> fst (fst p) \<and> fst (fst p) - k < length (m # ms) \<and> fst p = snd p
        \<and> snd (fst p) < length (content ((m # ms) ! (fst (fst p) - k)))"
    if "p \<in> set (here @ same_positions (Suc k) ms)" for p
  proof (cases "p \<in> set here")
    case False
    then have "p \<in> set (same_positions (Suc k) ms)" using that by simp
    then show ?thesis using IH by (fastforce simp: nth_Cons' Suc_le_eq)
  qed (auto simp: here_def)
  ultimately show ?case by (simp only: e) blast
qed (simp add: in_step_def shifted_def same_positions_def)

section \<open>Properties\<close>

text \<open>
  C15. The positions of an adapted request: they list, in the order of both requests, exactly
  the blocks of the new one, each the replay of the block of the old one it is mapped from, in
  a message of the same role and options.
\<close>

theorem adapted_positions:
  assumes "adapt_request lib req src target policy = Ok (req', ps)"
  shows "in_step ps \<and> snd ` set ps = block_slots (request_messages req')
    \<and> (\<forall>((i, k), (j, l)) \<in> set ps. i < length (request_messages req)
        \<and> replays lib src target policy (request_messages req ! i) k (request_messages req' ! j) l)"
proof (cases "native_family src = native_family target")
  case True
  then have e: "req' = req" "ps = same_positions 0 (request_messages req)"
    using assms by (auto simp: adapt_request_def)
  have s: "shifted 0 X = X" for X by (force simp: shifted_def)
  show ?thesis using same_positions_step [of 0 "request_messages req"]
    by (auto simp: e s replays_def True)
next
  case False
  then obtain ms where m: "adapt_messages lib src target policy 0 0 (request_messages req) = Ok (ms, ps)"
    and e: "req' = req \<lparr> prompt_cache := default_cache, request_messages := ms \<rparr>"
    using assms by (auto simp: adapt_request_def bind_result_Inr split: if_splits)
  have s: "shifted 0 X = X" for X by (force simp: shifted_def)
  show ?thesis using adapt_messages_positions [OF m False] by (fastforce simp: e s)
qed

definition sample_history :: "unit chat_request_scheme" where
  "sample_history = \<lparr> prompt_cache = default_cache, continuation = None, request_messages =
     [\<lparr> role = Assistant, content = [Thinking [0x68] None], native_options = [] \<rparr>,
      \<lparr> role = Assistant, content = [Thinking [0x68] None, TextBlock [0x68] (Some ''sig'') None,
         ToolUse ''call'' ''search'' ''{}'' (Some ''p'') None None (Some ''sig'')], native_options = [] \<rparr>] \<rparr>"

definition adapted_history :: "unit chat_request_scheme" where
  "adapted_history = \<lparr> prompt_cache = default_cache, continuation = None, request_messages =
     [\<lparr> role = Assistant, content = [TextBlock [0x68] None None,
         ToolUse ''call'' ''search'' ''{}'' None None None None], native_options = [] \<rparr>] \<rparr>"

lemma sample_adapted:
  "adapt_request unit_lib sample_history GeminiGenerateContent VertexClaude DropIncompatible
    = Ok (adapted_history, [((1, 1), (0, 0)), ((1, 2), (0, 1))])"
  by (simp add: sample_history_def adapted_history_def adapt_request_def for_message_def Let_def
      normalize_block_def foreign_to_def bind_result_def)

theorem adapted_positions_witness:
  "in_step [((1, 1), (0, 0)), ((1, 2), (0, 1))]
    \<and> {(0, 0), (0, 1)} = block_slots (request_messages adapted_history)"
  using adapted_positions [OF sample_adapted] by simp



end
