(* ===== verification/Payload_Merge.thy ===== *)
theory Payload_Merge
  imports Content_Codec
begin

text \<open>
  Combining and comparing payloads (\<^verbatim>\<open>src/protocol/json_payload.rs\<close>): the comparison of
  argument snapshots by decoded value, and the two merges of cumulative provider snapshots, each a
  loop over an explicit stack.  Both are compared with recursive references on trees.
\<close>

section \<open>Comparison of argument snapshots\<close>

text \<open>
  \<^verbatim>\<open>serde_json::Number\<close>: the integer it holds, and the value of an IEEE double that is an
  integer.  The cast of an integer to a double is the nearest double.
\<close>

fun number_integer :: "json_number \<Rightarrow> int option" where
  "number_integer (PosInt n) = Some (int (unat n))"
| "number_integer (NegInt n) = Some (sint n)"
| "number_integer (Float x) = None"

definition f64_sign :: "f64 \<Rightarrow> int" where
  "f64_sign x = (if unat x < 2 ^ 63 then 1 else - 1)"

definition f64_integer :: "f64 \<Rightarrow> int option" where
  "f64_integer x =
    (let e = unat x div 2 ^ 52 mod 2 ^ 11; f = unat x mod 2 ^ 52;
         m = (if e = 0 then f else f + 2 ^ 52); k = int (max e 1) - 1075 in
     if \<not> is_finite_f64 x then None
     else if 0 \<le> k then Some (f64_sign x * int (m * 2 ^ nat k))
     else if m mod 2 ^ nat (- k) = 0 then Some (f64_sign x * int (m div 2 ^ nat (- k)))
     else None)"

definition f64_of_int :: "int \<Rightarrow> f64" where
  "f64_of_int n =
    word_of_nat ((if n < 0 then 2 ^ 63 else 0) + nearest_double (nat \<bar>n\<bar>) 1)"

text \<open>Equality of doubles: the two zeros are equal; no number of a payload is a NaN.\<close>

definition f64_equal :: "f64 \<Rightarrow> f64 \<Rightarrow> bool" where
  "f64_equal x y \<longleftrightarrow> x = y \<or> is_zero_f64 x \<and> is_zero_f64 y"

fun number_f64 :: "json_number \<Rightarrow> f64" where
  "number_f64 (PosInt n) = f64_of_int (int (unat n))"
| "number_f64 (NegInt n) = f64_of_int (sint n)"
| "number_f64 (Float x) = x"

definition exact_float :: "int \<Rightarrow> json_number \<Rightarrow> bool" where
  "exact_float n y \<longleftrightarrow>
    is_finite_f64 (number_f64 y) \<and> f64_integer (number_f64 y) = Some n
    \<and> f64_equal (f64_of_int n) (number_f64 y)"

definition argument_numbers_equal :: "json_lib \<Rightarrow> bytes \<Rightarrow> bytes \<Rightarrow> bool" where
  "argument_numbers_equal lib a b \<longleftrightarrow>
    (case (parse_number lib a, parse_number lib b) of
       (Some x, Some y) \<Rightarrow>
         (case (number_integer x, number_integer y) of
            (Some m, Some n) \<Rightarrow> m = n
          | (Some m, None) \<Rightarrow> exact_float m y
          | (None, Some n) \<Rightarrow> exact_float n x
          | (None, None) \<Rightarrow> f64_equal (number_f64 x) (number_f64 y))
     | _ \<Rightarrow> a = b)"

text \<open>A \<^verbatim>\<open>BTreeMap\<close> of the members, by their exact keys; a later member replaces an earlier one.\<close>

definition member_map :: "(u16 list \<times> nat) list \<Rightarrow> (u16 list \<times> nat) list" where
  "member_map ms = sort_key fst (foldl (\<lambda>m (k, i). AList.update k i m) [] ms)"

text \<open>The pairs of members still to compare, or nothing when a key has no partner.\<close>

definition paired_members :: "(u16 list \<times> nat) list \<Rightarrow> (u16 list \<times> nat) list \<Rightarrow> (nat \<times> nat) list option" where
  "paired_members a b =
    (if length a \<noteq> length b then None
     else those (map (\<lambda>(k, i). map_option (Pair i) (map_of b k)) a))"

text \<open>One pair of nodes: the verdict of the whole comparison, or the pairs it leaves.\<close>

definition compare_nodes ::
  "json_lib \<Rightarrow> flat_document \<Rightarrow> flat_document \<Rightarrow> nat \<Rightarrow> nat \<Rightarrow> (json_failure + bool) + (nat \<times> nat) list" where
  "compare_nodes lib da db i j =
    (let differs = Inl (Ok False); panics = Inl (Err Panics);
         when = (\<lambda>same. if same then Inr [] else differs) in
     if node_kind da i \<noteq> node_kind db j then differs
     else case node_kind da i of
       KindNull \<Rightarrow> when (primitive_source da i = primitive_source db j)
     | KindBoolean \<Rightarrow> when (primitive_source da i = primitive_source db j)
     | KindNumber \<Rightarrow>
         (case (number_source da i, number_source db j) of
            (Some a, Some b) \<Rightarrow> when (argument_numbers_equal lib a b)
          | _ \<Rightarrow> panics)
     | KindString \<Rightarrow> when (string_units da i = string_units db j)
     | KindArray \<Rightarrow>
         (if array_len da i \<noteq> array_len db j then differs
          else (case array_len da i of
              None \<Rightarrow> panics
            | Some n \<Rightarrow>
                (case (those (map (array_item da i) [0..<n]), those (map (array_item db j) [0..<n])) of
                   (Some is, Some js) \<Rightarrow> Inr (rev (zip is js))
                 | _ \<Rightarrow> panics)))
     | KindObject \<Rightarrow>
         (case (object_entries da i, object_entries db j) of
            (Some a, Some b) \<Rightarrow>
              (case paired_members (member_map a) (member_map b) of
                 None \<Rightarrow> differs
               | Some new \<Rightarrow> Inr (rev new))
          | _ \<Rightarrow> panics))"

partial_function (option) compare_loop ::
  "json_lib \<Rightarrow> flat_document \<Rightarrow> flat_document \<Rightarrow> (nat \<times> nat) list \<Rightarrow> (json_failure + bool) option" where
  "compare_loop lib da db pending =
    (if pending = [] then Some (Ok True)
     else
       (case compare_nodes lib da db (fst (hd pending)) (snd (hd pending)) of
          Inl verdict \<Rightarrow> Some verdict
        | Inr new \<Rightarrow> compare_loop lib da db (new @ tl pending)))"

definition semantically_eq :: "json_lib \<Rightarrow> json_payload \<Rightarrow> json_payload \<Rightarrow> (json_failure + bool) option" where
  "semantically_eq lib p q =
    (case (payload_scanner p, payload_scanner q) of
       (Inl e, _) \<Rightarrow> Some (Err e)
     | (Inr a, Inl e) \<Rightarrow> Some (Err e)
     | (Inr a, Inr b) \<Rightarrow> compare_loop lib (scanned a) (scanned b) [(root_node a, root_node b)])"

section \<open>Merges of cumulative snapshots\<close>

datatype merge_job =
    MergeNodes "nat option" "nat option"
  | MergeByte byte
  | MergeString "u16 list"
  | MergeRaw bytes

text \<open>The members of both objects: those of the left with their partner, then the rest of the right.\<close>

fun take_member :: "u16 list \<Rightarrow> (u16 list \<times> nat) list \<Rightarrow> nat option \<times> (u16 list \<times> nat) list" where
  "take_member key [] = (None, [])"
| "take_member key ((k, j) # ms) =
    (if k = key then (Some j, ms) else (case take_member key ms of (r, ms') \<Rightarrow> (r, (k, j) # ms')))"

fun merged_members ::
  "(u16 list \<times> nat) list \<Rightarrow> (u16 list \<times> nat) list \<Rightarrow> (u16 list \<times> nat option \<times> nat option) list" where
  "merged_members [] rs = map (\<lambda>(k, j). (k, None, Some j)) rs"
| "merged_members ((k, i) # ls) rs =
    (case take_member k rs of (r, rs') \<Rightarrow> (k, Some i, r) # merged_members ls rs')"

definition merge_objects :: "flat_document \<Rightarrow> flat_document \<Rightarrow> nat \<Rightarrow> nat \<Rightarrow> json_failure + merge_job list" where
  "merge_objects dl dr i j =
    bind_result (missing_part ''JSON object has no flat children'' (object_entries dl i)) (\<lambda>ls.
    bind_result (missing_part ''JSON object has no flat children'' (object_entries dr j)) (\<lambda>rs.
    Ok (MergeByte 0x7B
      # join_with (MergeByte 0x2C)
          (map (\<lambda>(k, l, r). [MergeString k, MergeByte 0x3A, MergeNodes l r]) (merged_members ls rs))
      @ [MergeByte 0x7D])))"

text \<open>The canonical text of each node; the first error ends it.\<close>

fun serialize_items ::
  "json_numbers \<Rightarrow> json_encoding \<Rightarrow> (flat_document \<times> nat) list \<Rightarrow> (json_failure + bytes list) option" where
  "serialize_items nums enc [] = Some (Ok [])"
| "serialize_items nums enc ((d, i) # r) =
    (case serialize_json_node nums enc d i of
       None \<Rightarrow> None
     | Some (Inl e) \<Rightarrow> Some (Err e)
     | Some (Inr b) \<Rightarrow> map_option (\<lambda>bs. bind_result bs (\<lambda>bs. Ok (b # bs))) (serialize_items nums enc r))"

fun unseen :: "bytes list \<Rightarrow> bytes list \<Rightarrow> bytes list" where
  "unseen seen [] = []"
| "unseen seen (b # bs) = (if b \<in> set seen then unseen seen bs else b # unseen (b # seen) bs)"

definition items_or_none :: "flat_document \<Rightarrow> nat \<Rightarrow> (flat_document \<times> nat) list" where
  "items_or_none d i =
    map (Pair d) (List.map_filter (array_item d i) [0 ..< (case array_len d i of Some n \<Rightarrow> n | None \<Rightarrow> 0)])"

definition merge_arrays ::
  "json_numbers \<Rightarrow> flat_document \<Rightarrow> flat_document \<Rightarrow> nat \<Rightarrow> nat \<Rightarrow> (json_failure + merge_job list) option" where
  "merge_arrays nums dl dr i j =
    map_option (\<lambda>r. bind_result r (\<lambda>bs.
        Ok (MergeByte 0x5B # join_with (MergeByte 0x2C) (map (\<lambda>b. [MergeRaw b]) (unseen [] bs)) @ [MergeByte 0x5D])))
      (serialize_items nums JavaScript (items_or_none dl i @ items_or_none dr j))"

text \<open>One merge: what it writes, and the jobs it leaves.\<close>

definition written_node ::
  "json_numbers \<Rightarrow> flat_document \<Rightarrow> nat \<Rightarrow> (json_failure + bytes \<times> merge_job list) option" where
  "written_node nums d i =
    map_option (\<lambda>r. bind_result r (\<lambda>b. Ok (b, []))) (serialize_json_node nums JavaScript d i)"

definition incremental_step ::
  "json_numbers \<Rightarrow> flat_document \<Rightarrow> flat_document \<Rightarrow> nat option \<Rightarrow> nat option
    \<Rightarrow> (json_failure + bytes \<times> merge_job list) option" where
  "incremental_step nums dl dr l r =
    (let jobs = (\<lambda>x. bind_result x (\<lambda>js. Ok ([], js))) in
     case (l, r) of
       (Some i, Some j) \<Rightarrow>
         if node_kind dl i = KindObject \<and> node_kind dr j = KindObject then Some (jobs (merge_objects dl dr i j))
         else if node_kind dl i = KindArray \<and> node_kind dr j = KindArray
           then map_option jobs (merge_arrays nums dl dr i j)
         else if node_kind dr j = KindNull then Some (Ok ([], [MergeNodes (Some i) None]))
         else written_node nums dr j
     | (None, Some j) \<Rightarrow> written_node nums dr j
     | (Some i, None) \<Rightarrow> written_node nums dl i
     | (None, None) \<Rightarrow> Some (Ok (literal_null, [])))"

definition raw_job ::
  "json_numbers \<Rightarrow> flat_document \<Rightarrow> nat \<Rightarrow> (json_failure + bytes \<times> merge_job list) option" where
  "raw_job nums d i =
    map_option (\<lambda>r. bind_result r (\<lambda>b. Ok ([], [MergeRaw b]))) (serialize_json_node nums JavaScript d i)"

definition overwriting_step ::
  "json_numbers \<Rightarrow> flat_document \<Rightarrow> flat_document \<Rightarrow> nat option \<Rightarrow> nat option
    \<Rightarrow> (json_failure + bytes \<times> merge_job list) option" where
  "overwriting_step nums dl dr l r =
    (case (l, r) of
       (Some i, Some j) \<Rightarrow>
         if node_kind dl i = KindObject \<and> node_kind dr j = KindObject
         then Some (bind_result (merge_objects dl dr i j) (\<lambda>js. Ok ([], js)))
         else raw_job nums dr j
     | (None, Some j) \<Rightarrow> raw_job nums dr j
     | (Some i, None) \<Rightarrow> raw_job nums dl i
     | (None, None) \<Rightarrow> Some (Ok (literal_null, [])))"

partial_function (option) merge_loop ::
  "(nat option \<Rightarrow> nat option \<Rightarrow> (json_failure + bytes \<times> merge_job list) option)
    \<Rightarrow> bytes \<Rightarrow> merge_job list \<Rightarrow> (json_failure + bytes) option" where
  "merge_loop step out stack =
    (case stack of
       [] \<Rightarrow> Some (Ok out)
     | job # jobs \<Rightarrow>
         (case job of
            MergeByte b \<Rightarrow> merge_loop step (out @ [b]) jobs
          | MergeString us \<Rightarrow> merge_loop step (out @ write_json_string_from_utf16 us) jobs
          | MergeRaw bs \<Rightarrow> merge_loop step (out @ bs) jobs
          | MergeNodes l r \<Rightarrow>
              (case step l r of
                 None \<Rightarrow> None
               | Some res \<Rightarrow>
                   (case res of
                      Inl e \<Rightarrow> Some (Err e)
                    | Inr w \<Rightarrow> merge_loop step (out @ fst w) (snd w @ jobs)))))"

definition merged_payload :: "json_lib \<Rightarrow> json_failure + bytes \<Rightarrow> json_failure + json_payload" where
  "merged_payload lib r =
    bind_result r (\<lambda>out.
    bind_result (checked_utf8 ''merged JSON output is not UTF-8: '' out) (\<lambda>src.
      map_err (\<lambda>e. Rejects (InvalidRequest [Lit ''merged JSON payload is invalid: '', Lit e])) (parse_payload lib src)))"

definition merge_with ::
  "json_lib \<Rightarrow> (json_numbers \<Rightarrow> flat_document \<Rightarrow> flat_document \<Rightarrow> nat option \<Rightarrow> nat option
      \<Rightarrow> (json_failure + bytes \<times> merge_job list) option)
    \<Rightarrow> json_payload \<Rightarrow> json_payload \<Rightarrow> (json_failure + json_payload) option" where
  "merge_with lib step p q =
    (case (payload_scanner p, payload_scanner q) of
       (Inl e, _) \<Rightarrow> Some (Err e)
     | (Inr a, Inl e) \<Rightarrow> Some (Err e)
     | (Inr a, Inr b) \<Rightarrow>
         map_option (merged_payload lib)
           (merge_loop (step (lib_numbers lib) (scanned a) (scanned b)) []
             [MergeNodes (Some (root_node a)) (Some (root_node b))]))"

definition merge_incremental ::
  "json_lib \<Rightarrow> json_payload \<Rightarrow> json_payload \<Rightarrow> (json_failure + json_payload) option" where
  "merge_incremental lib p q =
    (if is_root_null q then Some (Ok p) else merge_with lib incremental_step p q)"

definition merge_overwriting_objects ::
  "json_lib \<Rightarrow> json_payload \<Rightarrow> json_payload \<Rightarrow> (json_failure + json_payload) option" where
  "merge_overwriting_objects lib p q = merge_with lib overwriting_step p q"

section \<open>Defaults\<close>

text \<open>Entries of the defaults are added in order when their key is new.\<close>

fun missing_entries ::
  "u16 list set \<Rightarrow> (u16 list \<times> flat_document \<times> nat) list \<Rightarrow> (u16 list \<times> flat_document \<times> nat) list" where
  "missing_entries seen [] = []"
| "missing_entries seen ((k, x) # r) =
    (if k \<in> seen then missing_entries seen r else (k, x) # missing_entries (insert k seen) r)"

definition entries_of :: "json_scanner \<Rightarrow> string \<Rightarrow> json_failure + (u16 list \<times> flat_document \<times> nat) list" where
  "entries_of sc what =
    bind_result (missing_part what (object_entries (scanned sc) (root_node sc)))
      (\<lambda>ms. Ok (map (\<lambda>(k, i). (k, scanned sc, i)) ms))"

definition reparsed :: "json_lib \<Rightarrow> string \<Rightarrow> bytes \<Rightarrow> json_failure + json_payload" where
  "reparsed lib what src = map_err (\<lambda>e. Rejects (InvalidRequest [Lit what, Lit e])) (parse_payload lib src)"

definition canonical_json_with_fields ::
  "json_lib \<Rightarrow> json_encoding \<Rightarrow> json_payload \<Rightarrow> (scalars \<times> bytes) list \<Rightarrow> (json_failure + bytes) option" where
  "canonical_json_with_fields lib enc p overlays =
    (case collect_results (map (\<lambda>(_, b). raw_value lib b) overlays) of
       Inl e \<Rightarrow> Some (Err (Rejects (InvalidRequest [Lit ''JSON field overlay is invalid: '', Lit e])))
     | Inr _ \<Rightarrow>
         (case payload_scanner p of
            Inl e \<Rightarrow> Some (Err e)
          | Inr sc \<Rightarrow> serialize_json_node_with_fields (lib_numbers lib) enc (scanned sc) (root_node sc) overlays))"

definition canonical_json :: "json_lib \<Rightarrow> json_encoding \<Rightarrow> json_payload \<Rightarrow> (json_failure + bytes) option" where
  "canonical_json lib enc p = canonical_json_with_fields lib enc p []"

definition with_canonical_fields ::
  "json_lib \<Rightarrow> json_encoding \<Rightarrow> json_payload \<Rightarrow> (scalars \<times> bytes) list \<Rightarrow> (json_failure + json_payload) option" where
  "with_canonical_fields lib enc p overlays =
    map_option (\<lambda>r. bind_result r (reparsed lib ''canonical JSON payload is invalid: ''))
      (canonical_json_with_fields lib enc p overlays)"

definition with_missing_object_fields ::
  "json_lib \<Rightarrow> json_encoding \<Rightarrow> json_payload \<Rightarrow> json_payload \<Rightarrow> (json_failure + json_payload) option" where
  "with_missing_object_fields lib enc p defaults =
    (case bind_result (payload_scanner p) (\<lambda>a.
          bind_result (payload_scanner defaults) (\<lambda>b.
          if node_kind (scanned a) (root_node a) \<noteq> KindObject \<or> node_kind (scanned b) (root_node b) \<noteq> KindObject
          then Err (invalid_request ''JSON default fields require object payloads'')
          else
            bind_result (entries_of a ''JSON base object has no flat children'') (\<lambda>xs.
            bind_result (entries_of b ''JSON defaults object has no flat children'') (\<lambda>ys.
            Ok (xs @ missing_entries (fst ` set xs) ys))))) of
       Inl e \<Rightarrow> Some (Err e)
     | Inr es \<Rightarrow>
         (case serialize_items (lib_numbers lib) enc (map snd es) of
            None \<Rightarrow> None
          | Some (Inl e) \<Rightarrow> Some (Err e)
          | Some (Inr bs) \<Rightarrow>
              (case bind_result (checked_utf8 ''merged JSON object is not UTF-8: '' (from_fields (zip (map fst es) bs)))
                      (reparsed lib ''merged JSON object is invalid: '') of
                 Inl e \<Rightarrow> Some (Err e)
               | Inr q \<Rightarrow>
                   map_option (\<lambda>r. bind_result r (reparsed lib ''canonical JSON object is invalid: ''))
                     (canonical_json lib enc q))))"

section \<open>Nodes of a document\<close>

lemma stands_prim: "stands_for s d i (JPrim raw) \<Longrightarrow> node_of d i = Primitive raw"
  unfolding stands_for_def by (erule tree_at.cases) (simp_all only: node_of_doc json_tree.inject json_tree.distinct)

lemma stands_str:
  assumes "stands_for s d i (JStr b us)"
  shows "node_of d i = StringNode (from_utf16_lossy us)" "string_units d i = Some us"
  using assms stands_views(2) [OF assms] unfolding stands_for_def
  by (auto elim!: tree_at.cases simp: node_of_def parser_of_def)

lemma stands_arr:
  assumes "stands_for s d i (JArr b ts)"
  shows "\<exists>items. node_of d i = ArrayNode items \<and> list_all2 (stands_for s d) items ts"
  using assms unfolding stands_for_def
  by (rule tree_at.cases) (auto simp: node_of_def parser_of_def stands_for_def [abs_def])

lemma stands_obj:
  assumes "stands_for s d i (JObj b kts)"
  shows "\<exists>ms. object_entries d i = Some ms \<and> list_all2 (\<lambda>m kt. fst m = fst kt \<and> stands_for s d (snd m) (snd kt)) ms kts"
proof -
  obtain members where m: "node_of d i = ObjectNode members"
    "list_all2 (\<lambda>m kt. fst m = from_utf16_lossy (fst kt) \<and> fst (snd m) = fst kt
        \<and> stands_for s d (snd (snd m)) (snd kt)) members kts"
    using assms unfolding stands_for_def
    by (auto dest!: tree_at_JObj simp: node_of_def parser_of_def stands_for_def [abs_def])
  have "list_all2 (\<lambda>m kt. fst m = fst kt \<and> stands_for s d (snd m) (snd kt)) (map snd members) kts"
    unfolding list_all2_map1 by (rule list_all2_mono [OF m(2)]) simp
  then show ?thesis using m(1) by (simp add: object_entries_def)
qed

lemma stands_well: "stands_for s d i t \<Longrightarrow> well_tree t"
  unfolding stands_for_def by (drule tree_at_text) (use value_text_well(1) in blast)

section \<open>Comparison on trees\<close>

function (sequential) same_value :: "json_lib \<Rightarrow> json_tree \<Rightarrow> json_tree \<Rightarrow> bool" where
  "same_value lib (JPrim a) (JPrim b) \<longleftrightarrow>
    kind_of (Primitive a) = kind_of (Primitive b)
    \<and> (if kind_of (Primitive a) = KindNumber then argument_numbers_equal lib a b else a = b)"
| "same_value lib (JStr _ us) (JStr _ vs) \<longleftrightarrow> us = vs"
| "same_value lib (JArr _ ts) (JArr _ us) \<longleftrightarrow>
    length ts = length us \<and> list_all (\<lambda>(t, u). same_value lib t u) (zip ts us)"
| "same_value lib (JObj _ kts) (JObj _ lts) \<longleftrightarrow>
    length kts = length lts
    \<and> list_all (\<lambda>(k, t). case map_of lts k of None \<Rightarrow> False | Some u \<Rightarrow> same_value lib t u) kts"
| "same_value lib _ _ \<longleftrightarrow> False"
  by pat_completeness auto
termination
proof (relation "measure (\<lambda>(lib, t, u). size t)", goal_cases)
  case (2 lib b ts b' us p t u)
  then have "t \<in> set ts" by (auto dest: set_zip_leftD)
  then show ?case by (auto dest: size_list_estimation' [of _ _ _ size])
next
  case (3 lib b kts b' lts kt k t u)
  then have "size t \<le> size_list (size_prod (\<lambda>x. 0) size) kts"
    by (intro size_list_estimation' [of "(k, t)"]) auto
  then show ?case using 3 by simp
qed simp

lemma member_map_distinct: "distinct (map fst ms) \<Longrightarrow> member_map ms = sort_key fst ms"
proof -
  have "distinct (map fst (m @ ms)) \<Longrightarrow> foldl (\<lambda>m (k, i). AList.update k i m) m ms = m @ ms" for m
  proof (induction ms arbitrary: m)
    case (Cons x ms)
    obtain k i where x: "x = (k, i)" by (cases x)
    have "AList.update k i m = m @ [(k, i)]" using Cons.prems
      by (induction m) (auto simp: x)
    then show ?case using Cons.IH [of "m @ [(k, i)]"] Cons.prems by (simp add: x)
  qed simp
  from this [of "[]"] show "distinct (map fst ms) \<Longrightarrow> member_map ms = sort_key fst ms"
    by (simp add: member_map_def)
qed

lemma sorted_members:
  assumes "distinct (map fst ms)"
  shows "set (member_map ms) = set ms" "length (member_map ms) = length ms"
    "map_of (member_map ms) k = map_of ms k"
proof -
  have m: "member_map ms = sort_key fst ms" by (rule member_map_distinct [OF assms])
  have d: "distinct (map fst (sort_key fst ms))"
    using assms mset_sort [of fst ms] by (metis mset_map mset_eq_imp_distinct_iff)
  show "set (member_map ms) = set ms" "length (member_map ms) = length ms" by (simp_all add: m)
  show "map_of (member_map ms) k = map_of ms k"
    using map_of_inject_set [OF d assms] by (simp add: m)
qed

definition compared :: "json_lib \<Rightarrow> flat_document \<Rightarrow> flat_document \<Rightarrow> nat \<times> nat \<Rightarrow> bool \<Rightarrow> bool" where
  "compared lib da db p same \<longleftrightarrow>
    (\<forall>pairs. compare_loop lib da db (p # pairs) = (if same then compare_loop lib da db pairs else Some (Ok False)))"

lemma compared_list:
  "list_all2 (compared lib da db) ps vs \<Longrightarrow>
    compare_loop lib da db (ps @ pairs) = (if list_all id vs then compare_loop lib da db pairs else Some (Ok False))"
  by (induction rule: list_all2_induct) (simp_all add: compared_def)

lemma compared_verdict:
  "compare_nodes lib da db i j = (if same then Inr [] else Inl (Ok False)) \<Longrightarrow> compared lib da db (i, j) same"
  by (simp add: compared_def compare_loop.simps [of lib da db "(i, j) # _"])

lemma compared_children:
  assumes "compare_nodes lib da db i j = Inr (rev ps)" "list_all2 (compared lib da db) ps vs"
    "same \<longleftrightarrow> list_all id vs"
  shows "compared lib da db (i, j) same"
  using compared_list [OF list_all2_rev [THEN iffD2, OF assms(2)]] assms(1,3)
  by (simp add: compared_def compare_loop.simps [of lib da db "(i, j) # _"] list_all_iff)

lemma items_listed:
  assumes "node_of d i = ArrayNode items"
  shows "array_len d i = Some (length items)" "those (map (array_item d i) [0..<length items]) = Some items"
proof -
  show "array_len d i = Some (length items)" by (simp add: array_len_def node_array_def assms)
  have "map (array_item d i) [0..<length items] = map Some items"
    by (rule nth_equalityI) (simp_all add: array_item_def node_array_def assms)
  moreover have "those (map Some items) = Some items" by (induction items) simp_all
  ultimately show "those (map (array_item d i) [0..<length items]) = Some items" by simp
qed

lemma related_lookup:
  "list_all2 (\<lambda>m kt. fst m = fst kt \<and> R (snd m) (snd kt)) ms kts \<Longrightarrow> rel_option R (map_of ms k) (map_of kts k)"
  by (induction rule: list_all2_induct) auto

lemma related_keys:
  "list_all2 (\<lambda>m kt. fst m = fst kt \<and> R (snd m) (snd kt)) ms kts \<Longrightarrow> map fst ms = map fst kts"
  by (induction rule: list_all2_induct) auto

lemma those_partners:
  "those (map (\<lambda>(k, i). map_option (Pair i) (f k)) xs) =
    (if list_all (\<lambda>(k, i). f k \<noteq> None) xs then Some (map (\<lambda>(k, i). (i, the (f k))) xs) else None)"
  by (induction xs) (auto split: option.splits)

lemma prim_kind: "kind_of (Primitive a) \<in> {KindNull, KindBoolean, KindNumber}"
  by simp

lemma prim_kinds:
  "kind_of (Primitive a) \<noteq> KindString" "kind_of (Primitive a) \<noteq> KindArray" "kind_of (Primitive a) \<noteq> KindObject"
  "KindString \<noteq> kind_of (Primitive a)" "KindArray \<noteq> kind_of (Primitive a)" "KindObject \<noteq> kind_of (Primitive a)"
  using prim_kind [of a] by (auto simp del: kind_of.simps)

lemma compare_kinds:
  assumes "stands_for s da i t" "stands_for s' db j u" "kind_of_tree t \<noteq> kind_of_tree u"
  shows "compared lib da db (i, j) False"
  using stands_views(1) [OF assms(1)] stands_views(1) [OF assms(2)] assms(3)
  by (intro compared_verdict) (simp add: compare_nodes_def Let_def)

lemma compare_tree:
  "stands_for s da i t \<Longrightarrow> stands_for s' db j u \<Longrightarrow> compared lib da db (i, j) (same_value lib t u)"
proof (induction lib t u arbitrary: i j rule: same_value.induct)
  case (1 lib a b)
  note n = stands_prim [OF "1.prems"(1)] stands_prim [OF "1.prems"(2)]
  have "kind_of (Primitive a) \<in> {KindNull, KindBoolean, KindNumber}" by (rule prim_kind)
  then have "compare_nodes lib da db i j = (if same_value lib (JPrim a) (JPrim b) then Inr [] else Inl (Ok False))"
    by (auto simp: compare_nodes_def node_kind_def n primitive_source_def number_source_def Let_def
        simp del: kind_of.simps)
  then show ?case by (rule compared_verdict)
next
  case (2 lib b us b' vs)
  note n = stands_str [OF "2.prems"(1)] stands_str [OF "2.prems"(2)]
  show ?case by (rule compared_verdict) (simp add: compare_nodes_def node_kind_def n Let_def)
next
  case (3 lib b ts b' us)
  obtain xs where xs: "node_of da i = ArrayNode xs" "list_all2 (stands_for s da) xs ts"
    using stands_arr [OF "3.prems"(1)] by blast
  obtain ys where ys: "node_of db j = ArrayNode ys" "list_all2 (stands_for s' db) ys us"
    using stands_arr [OF "3.prems"(2)] by blast
  note l = list_all2_lengthD [OF xs(2)] list_all2_lengthD [OF ys(2)]
  show ?case
  proof (cases "length ts = length us")
    case False
    then show ?thesis
      using l by (intro compared_verdict)
        (simp add: compare_nodes_def node_kind_def xs(1) ys(1) items_listed(1) Let_def)
  next
    case True
    have "list_all2 (compared lib da db) (zip xs ys) (map (\<lambda>(t, u). same_value lib t u) (zip ts us))"
      unfolding list_all2_conv_all_nth
    proof (intro conjI allI impI)
      fix n assume "n < length (zip xs ys)"
      then have n: "n < length ts" "n < length us" "n < length xs" "n < length ys" using l True by simp_all
      then have "(ts ! n, us ! n) \<in> set (zip ts us)" by (auto simp: in_set_zip)
      then have "compared lib da db (xs ! n, ys ! n) (same_value lib (ts ! n) (us ! n))"
        using xs(2) ys(2) n by (intro "3.IH" [OF _ refl]) (auto simp: list_all2_conv_all_nth)
      then show "compared lib da db (zip xs ys ! n) (map (\<lambda>(t, u). same_value lib t u) (zip ts us) ! n)"
        using n by simp
    qed (use l True in simp)
    then show ?thesis
      using True l items_listed [OF xs(1)] items_listed [OF ys(1)]
      by (intro compared_children)
        (auto simp: compare_nodes_def node_kind_def xs(1) ys(1) Let_def list_all_iff)
  qed
next
  case (4 lib b kts b' lts)
  obtain ms where ms: "object_entries da i = Some ms"
    "list_all2 (\<lambda>m kt. fst m = fst kt \<and> stands_for s da (snd m) (snd kt)) ms kts"
    using stands_obj [OF "4.prems"(1)] by blast
  obtain ns where ns: "object_entries db j = Some ns"
    "list_all2 (\<lambda>m kt. fst m = fst kt \<and> stands_for s' db (snd m) (snd kt)) ns lts"
    using stands_obj [OF "4.prems"(2)] by blast
  have kinds: "node_kind da i = KindObject" "node_kind db j = KindObject"
    using stands_views(1) [OF "4.prems"(1)] stands_views(1) [OF "4.prems"(2)] by simp_all
  note keys = related_keys [OF ms(2)] related_keys [OF ns(2)]
  have d: "distinct (map fst ms)" "distinct (map fst ns)"
    using stands_well [OF "4.prems"(1)] stands_well [OF "4.prems"(2)] by (simp_all add: keys)
  note S = sorted_members [OF d(1)] sorted_members [OF d(2)]
  have len: "length ms = length kts" "length ns = length lts"
    using list_all2_lengthD ms(2) ns(2) by blast+
  define partner where "partner k = map_of ns k" for k
  have P: "paired_members (member_map ms) (member_map ns) =
      (if length kts = length lts \<and> list_all (\<lambda>(k, i). partner k \<noteq> None) (member_map ms)
       then Some (map (\<lambda>(k, i). (i, the (partner k))) (member_map ms)) else None)"
    unfolding paired_members_def S(6) those_partners partner_def by (simp add: S(2,5) len)
  have K: "partner k = None \<longleftrightarrow> map_of lts k = None" for k
    using related_lookup [OF ns(2), of k] by (auto simp: partner_def rel_option_iff split: option.splits)
  have M: "list_all (\<lambda>(k, i). Q k) (member_map ms) \<longleftrightarrow> list_all (\<lambda>(k, t). Q k) kts" for Q
    using arg_cong [OF keys(1), of "list_all Q"] S(1) by (auto simp: list_all_iff)
  show ?case
  proof (cases "length kts = length lts \<and> list_all (\<lambda>(k, t). map_of lts k \<noteq> None) kts")
    case False
    then have "\<not> same_value lib (JObj b kts) (JObj b' lts)"
      by (auto simp: list_all_iff split: option.splits)
    moreover have "paired_members (member_map ms) (member_map ns) = None"
      using False P K M [of "\<lambda>k. partner k \<noteq> None"] by auto
    ultimately show ?thesis
      by (intro compared_verdict) (simp add: compare_nodes_def kinds ms(1) ns(1) Let_def)
  next
    case True
    define v where "v k = same_value lib (the (map_of kts k)) (the (map_of lts k))" for k
    have step: "compared lib da db (i', the (partner k)) (v k)" if "(k, i') \<in> set (member_map ms)" for k i'
    proof -
      have mk: "map_of ms k = Some i'" using that S(1) d(1) by simp
      obtain t where t: "map_of kts k = Some t" "stands_for s da i' t"
        using related_lookup [OF ms(2), of k] mk by (auto simp: rel_option_iff split: option.splits)
      then have kt: "(k, t) \<in> set kts" by (simp add: map_of_SomeD)
      then obtain u where u: "map_of lts k = Some u" using True by (auto simp: list_all_iff)
      obtain j' where j': "map_of ns k = Some j'" "stands_for s' db j' u"
        using related_lookup [OF ns(2), of k] u by (auto simp: rel_option_iff split: option.splits)
      show ?thesis
        using "4.IH" [of "(k, t)" k t u i' j'] True kt t u j' by (simp add: v_def partner_def)
    qed
    have L: "list_all2 (compared lib da db) (map (\<lambda>(k, i). (i, the (partner k))) (member_map ms))
        (map (\<lambda>(k, i). v k) (member_map ms))"
      using step by (induction "member_map ms") (auto simp: list_all2_map1 list_all2_map2 list_all2_same)
    have V: "same_value lib (JObj b kts) (JObj b' lts) \<longleftrightarrow> list_all (\<lambda>(k, i). v k) (member_map ms)"
    proof -
      have "map_of kts k = Some t" if "(k, t) \<in> set kts" for k t
        using that d(1) keys(1) by simp
      then show ?thesis
        using True unfolding M by (auto simp: list_all_iff v_def split: option.splits)
    qed
    have N: "paired_members (member_map ms) (member_map ns) =
        Some (map (\<lambda>(k, i). (i, the (partner k))) (member_map ms))"
      using True P K M [of "\<lambda>k. partner k \<noteq> None"] by auto
    show ?thesis
      by (rule compared_children [OF _ L])
        (simp_all only: V, simp_all add: compare_nodes_def kinds ms(1) ns(1) N Let_def list_all_iff case_prod_beta')
  qed
qed (simp_all only: same_value.simps, (erule (1) compare_kinds, simp add: prim_kinds del: kind_of.simps)+)

section \<open>The comparison is an equivalence\<close>

lemma zero_f64:
  assumes "is_zero_f64 x"
  shows "f64_integer x = Some 0" "is_finite_f64 x"
proof -
  have "2 ^ 63 dvd unat x" using assms by (simp only: is_zero_f64_def dvd_eq_mod_eq_0)
  then obtain q where q: "unat x = 2 ^ 63 * q" by blast
  moreover have "unat x < 18446744073709551616" by simp
  ultimately have "q < 2" by simp
  then have "unat x = 0 \<or> unat x = 2 ^ 63" using q by (auto simp: less_2_cases_iff)
  then show "f64_integer x = Some 0" "is_finite_f64 x"
    by (auto simp: f64_integer_def is_finite_f64_def Let_def)
qed

text \<open>A number compares by one value: its integer when it is one exactly, else its double.\<close>

definition one_zero :: "f64 \<Rightarrow> f64" where
  "one_zero x = (if is_zero_f64 x then 0 else x)"

definition number_value :: "json_number \<Rightarrow> int + f64" where
  "number_value x =
    (case number_integer x of
       Some n \<Rightarrow> Inl n
     | None \<Rightarrow>
         (case f64_integer (number_f64 x) of
            None \<Rightarrow> Inr (one_zero (number_f64 x))
          | Some n \<Rightarrow> if exact_float n x then Inl n else Inr (one_zero (number_f64 x))))"

lemma f64_equal_iff: "f64_equal x y \<longleftrightarrow> one_zero x = one_zero y"
  by (auto simp: f64_equal_def one_zero_def is_zero_f64_def)

lemma exact_float_value: "number_integer x = None \<Longrightarrow> number_value x = Inl n \<longleftrightarrow> exact_float n x"
  by (auto simp: number_value_def exact_float_def split: option.splits)

lemma exact_float_cong:
  assumes "f64_equal (number_f64 x) (number_f64 y)"
  shows "exact_float n x \<longleftrightarrow> exact_float n y"
proof (cases "number_f64 x = number_f64 y")
  case False
  then have "is_zero_f64 (number_f64 x)" "is_zero_f64 (number_f64 y)" using assms by (simp_all add: f64_equal_def)
  then show ?thesis using zero_f64 assms by (simp add: exact_float_def f64_equal_iff)
qed (simp add: exact_float_def)

lemma inexact_value:
  "number_integer x = None \<Longrightarrow> (\<And>n. \<not> exact_float n x) \<Longrightarrow> number_value x = Inr (one_zero (number_f64 x))"
  by (simp add: number_value_def split: option.splits)

lemma float_values:
  assumes "number_integer x = None" "number_integer y = None"
  shows "number_value x = number_value y \<longleftrightarrow> f64_equal (number_f64 x) (number_f64 y)"
proof (cases "\<exists>n. exact_float n x \<or> exact_float n y")
  case True
  then obtain n where n: "exact_float n x \<or> exact_float n y" by blast
  have "f64_equal (number_f64 x) (number_f64 y) \<longleftrightarrow> exact_float n x \<and> exact_float n y"
    using n exact_float_cong [of x y n] by (auto simp: exact_float_def f64_equal_iff)
  then show ?thesis using n exact_float_value [OF assms(1)] exact_float_value [OF assms(2)] by metis
next
  case False
  then show ?thesis using inexact_value assms by (simp add: f64_equal_iff)
qed

lemma numbers_equal_iff:
  "argument_numbers_equal lib a b \<longleftrightarrow>
    (case (parse_number lib a, parse_number lib b) of
       (Some x, Some y) \<Rightarrow> number_value x = number_value y | _ \<Rightarrow> a = b)"
proof -
  have "number_value x = Inl n" if "number_integer x = Some n" for x n
    using that by (simp add: number_value_def)
  then show ?thesis
    using exact_float_value float_values
    by (simp add: argument_numbers_equal_def split: option.splits) (metis)
qed

definition prim_value :: "json_lib \<Rightarrow> bytes \<Rightarrow> (int + f64) + bytes" where
  "prim_value lib a =
    (if kind_of (Primitive a) = KindNumber
     then (case parse_number lib a of Some x \<Rightarrow> Inl (number_value x) | None \<Rightarrow> Inr a) else Inr a)"

lemma same_prims: "same_value lib (JPrim a) (JPrim b) \<longleftrightarrow> prim_value lib a = prim_value lib b"
proof (cases "kind_of (Primitive a) = KindNumber")
  case True
  then show ?thesis
    by (auto simp: prim_value_def numbers_equal_iff simp del: kind_of.simps split: option.splits if_splits)
next
  case False
  then show ?thesis
    by (auto simp: prim_value_def simp del: kind_of.simps split: option.splits if_splits)
qed

lemma same_arrays:
  "same_value lib (JArr b ts) (JArr b' us) \<longleftrightarrow>
    length ts = length us \<and> (\<forall>n < length ts. same_value lib (ts ! n) (us ! n))"
  by (simp add: list_all_length cong: conj_cong)

lemma same_objects:
  "same_value lib (JObj b kts) (JObj b' lts) \<longleftrightarrow>
    length kts = length lts
    \<and> (\<forall>k t. (k, t) \<in> set kts \<longrightarrow> (\<exists>u. map_of lts k = Some u \<and> same_value lib t u))"
  by (auto simp: list_all_iff split: option.splits) fastforce

declare same_value.simps (1, 3, 4) [simp del]

lemma same_value_refl: "well_tree t \<Longrightarrow> same_value lib t t"
proof (induction t)
  case (JArr b ts)
  then show ?case by (auto simp: same_arrays list_all_iff)
next
  case (JObj b kts)
  have "map_of kts k = Some t" if "(k, t) \<in> set kts" for k t using that JObj.prems by simp
  then show ?case using JObj by (fastforce simp: same_objects list_all_iff)
qed (simp_all add: same_prims)

lemma same_keys:
  assumes "distinct (map fst kts)" "distinct (map fst lts)" "length kts = length lts" "fst ` set kts \<subseteq> fst ` set lts"
  shows "fst ` set kts = fst ` set lts"
  using assms by (intro card_subset_eq) (auto simp: distinct_card [of "map fst _", symmetric, simplified])

lemma same_value_sym: "same_value lib t u \<Longrightarrow> well_tree t \<Longrightarrow> well_tree u \<Longrightarrow> same_value lib u t"
proof (induction lib t u rule: same_value.induct)
  case (1 lib a b)
  then show ?case by (simp add: same_prims)
next
  case (3 lib b ts b' us)
  have "same_value lib (us ! n) (ts ! n)" if "n < length ts" for n
  proof (rule "3.IH" [OF _ refl])
    show "(ts ! n, us ! n) \<in> set (zip ts us)" "same_value lib (ts ! n) (us ! n)" "well_tree (ts ! n)" "well_tree (us ! n)"
      using that "3.prems" by (auto simp: same_arrays in_set_zip list_all_length)
  qed
  then show ?case using "3.prems"(1) by (simp add: same_arrays)
next
  case (4 lib b kts b' lts)
  have d: "distinct (map fst kts)" "distinct (map fst lts)" using "4.prems" by simp_all
  have part: "\<exists>u. map_of lts k = Some u \<and> same_value lib t u" if "(k, t) \<in> set kts" for k t
    using "4.prems"(1) that by (auto simp: same_objects)
  have keys: "fst ` set kts = fst ` set lts"
  proof (rule same_keys [OF d])
    show "length kts = length lts" using "4.prems"(1) by (simp add: same_objects)
    show "fst ` set kts \<subseteq> fst ` set lts"
    proof clarsimp
      fix k t assume "(k, t) \<in> set kts"
      then show "k \<in> fst ` set lts" using part [of k t] by (metis map_of_SomeD fst_conv image_eqI)
    qed
  qed
  have "\<exists>t. map_of kts k = Some t \<and> same_value lib u t" if ku: "(k, u) \<in> set lts" for k u
  proof -
    obtain t where t: "(k, t) \<in> set kts" using keys ku by force
    then have "map_of lts k = Some u" "same_value lib t u" using part [OF t] ku d(2) by auto
    moreover have "well_tree t" "well_tree u" using "4.prems"(2,3) t ku by (force simp: list_all_iff)+
    ultimately have "same_value lib u t" using "4.IH" [of "(k, t)" k t u] t by simp
    then show ?thesis using t d(1) by auto
  qed
  then show ?case using "4.prems"(1) by (simp add: same_objects)
qed simp_all

lemma same_value_trans: "same_value lib t u \<Longrightarrow> same_value lib u v \<Longrightarrow> same_value lib t v"
proof (induction lib t u arbitrary: v rule: same_value.induct)
  case (1 lib a b)
  then obtain c where v: "v = JPrim c" by (cases v) simp_all
  show ?case using 1 by (simp add: v same_prims)
next
  case (2 lib b us b' vs)
  then show ?case by (cases v) simp_all
next
  case (3 lib b ts b' us)
  then obtain b'' vs where v: "v = JArr b'' vs" by (cases v) simp_all
  have "same_value lib (ts ! n) (vs ! n)" if "n < length ts" for n
  proof (rule "3.IH" [OF _ refl])
    show "(ts ! n, us ! n) \<in> set (zip ts us)" "same_value lib (ts ! n) (us ! n)" "same_value lib (us ! n) (vs ! n)"
      using that "3.prems" by (auto simp: v same_arrays in_set_zip)
  qed
  then show ?case using "3.prems" by (simp add: v same_arrays)
next
  case (4 lib b kts b' lts)
  then obtain b'' mts where v: "v = JObj b'' mts" by (cases v) simp_all
  have "\<exists>w. map_of mts k = Some w \<and> same_value lib t w" if kt: "(k, t) \<in> set kts" for k t
  proof -
    obtain u where u: "map_of lts k = Some u" "same_value lib t u"
      using "4.prems"(1) kt by (auto simp: same_objects)
    then obtain w where "map_of mts k = Some w" "same_value lib u w"
      using "4.prems"(2) map_of_SomeD [OF u(1)] by (auto simp: v same_objects)
    then show ?thesis using "4.IH" [of "(k, t)" k t u w] kt u by auto
  qed
  then show ?case using "4.prems" by (simp add: v same_objects)
qed simp_all

lemma compared_payloads:
  assumes "payload_tree p t" "payload_tree q u"
  shows "semantically_eq lib p q = Some (Ok (same_value lib t u))"
proof -
  obtain a where a: "payload_scanner p = Ok a" "stands_for (bytes_of_string p) (scanned a) (root_node a) t"
    using payload_reads [OF assms(1)] by blast
  obtain b where b: "payload_scanner q = Ok b" "stands_for (bytes_of_string q) (scanned b) (root_node b) u"
    using payload_reads [OF assms(2)] by blast
  have "compare_loop lib (scanned a) (scanned b) [] = Some (Ok True)" by (simp add: compare_loop.simps)
  then show ?thesis
    using compare_tree [OF a(2) b(2), of lib] by (simp add: semantically_eq_def a(1) b(1) compared_def)
qed

section \<open>Merges on trees\<close>

text \<open>The canonical JavaScript image of a tree, which always exists.\<close>

definition js :: "json_numbers \<Rightarrow> json_tree \<Rightarrow> json_tree" where
  "js nums t = (case canonical (plain_policy nums JavaScript) t of Inl e \<Rightarrow> JPrim literal_null | Inr t' \<Rightarrow> t')"

definition merged_trees ::
  "(json_tree \<Rightarrow> json_tree \<Rightarrow> json_tree) \<Rightarrow> (json_tree \<Rightarrow> json_tree)
    \<Rightarrow> (u16 list \<times> json_tree) list \<Rightarrow> (u16 list \<times> json_tree) list \<Rightarrow> (u16 list \<times> json_tree) list" where
  "merged_trees f g kts lts =
    map (\<lambda>(k, t). (k, case map_of lts k of None \<Rightarrow> g t | Some u \<Rightarrow> f t u)) kts
    @ map (\<lambda>(k, u). (k, g u)) (filter (\<lambda>(k, u). k \<notin> fst ` set kts) lts)"

lemma merged_trees_cong [fundef_cong]:
  assumes "kts = kts'" "lts = lts'" "g = g'" "\<And>k t u. (k, t) \<in> set kts' \<Longrightarrow> f t u = f' t u"
  shows "merged_trees f g kts lts = merged_trees f' g' kts' lts'"
proof -
  have "map (\<lambda>(k, t). (k, case map_of lts k of None \<Rightarrow> g t | Some u \<Rightarrow> f t u)) kts =
      map (\<lambda>(k, t). (k, case map_of lts' k of None \<Rightarrow> g' t | Some u \<Rightarrow> f' t u)) kts'"
    using assms by (intro map_cong) (auto split: option.split)
  then show ?thesis by (simp only: merged_trees_def assms(1-3))
qed

definition object_tree :: "(u16 list \<times> json_tree) list \<Rightarrow> json_tree" where
  "object_tree kts = JObj (object_text kts) kts"

definition array_tree :: "json_tree list \<Rightarrow> json_tree" where
  "array_tree ts = JArr (array_text (map tree_text ts)) ts"

fun fresh_texts :: "bytes list \<Rightarrow> json_tree list \<Rightarrow> json_tree list" where
  "fresh_texts seen [] = []"
| "fresh_texts seen (t # ts) =
    (if tree_text t \<in> set seen then fresh_texts seen ts else t # fresh_texts (tree_text t # seen) ts)"

fun overwritten :: "json_numbers \<Rightarrow> json_tree \<Rightarrow> json_tree \<Rightarrow> json_tree" where
  "overwritten nums (JObj _ kts) (JObj _ lts) = object_tree (merged_trees (overwritten nums) (js nums) kts lts)"
| "overwritten nums t u = js nums u"

fun accumulated :: "json_numbers \<Rightarrow> json_tree \<Rightarrow> json_tree \<Rightarrow> json_tree" where
  "accumulated nums (JObj _ kts) (JObj _ lts) = object_tree (merged_trees (accumulated nums) (js nums) kts lts)"
| "accumulated nums (JArr _ ts) (JArr _ us) = array_tree (fresh_texts [] (map (js nums) (ts @ us)))"
| "accumulated nums t u = (if kind_of_tree u = KindNull then js nums t else js nums u)"

lemma js_canonical: "canonical (plain_policy nums JavaScript) t = Ok (js nums t)"
  using javascript_total [of "plain_policy nums JavaScript" t] by (auto simp: js_def plain_policy_def)

lemma js_sentence: "well_tree t \<Longrightarrow> numbers_ok nums JavaScript \<Longrightarrow> sentence (js nums t)"
  using canonical_sentence [OF _ _ js_canonical [of nums t]] by (simp add: plain_policy_def)

lemma serialize_js:
  assumes "stands_for s d i t" "numbers_ok nums JavaScript"
  shows "serialize_json_node nums JavaScript d i = Some (Ok (tree_text (js nums t)))"
proof -
  have v: "value_text (tree_text t) t" using tree_at_text assms(1) unfolding stands_for_def by metis
  have "serialize_json_node_with_policy (plain_policy nums JavaScript) d i [] =
      Some (tree_bytes (canonical (plain_policy nums JavaScript) t))"
    by (rule serialize_tree [OF assms(1) _ _ value_json [OF v]]) (simp_all add: plain_policy_def assms(2))
  then show ?thesis
    by (simp add: serialize_json_node_def serialize_json_node_with_fields_def js_canonical tree_bytes_def)
qed

lemma merged_sentence:
  assumes "distinct (map fst kts)" "distinct (map fst lts)"
    "\<And>k t. (k, t) \<in> set kts \<Longrightarrow> sentence (g t)" "\<And>k u. (k, u) \<in> set lts \<Longrightarrow> sentence (g u)"
    "\<And>k t u. (k, t) \<in> set kts \<Longrightarrow> (k, u) \<in> set lts \<Longrightarrow> sentence (f t u)"
  shows "sentence (object_tree (merged_trees f g kts lts))"
  unfolding object_tree_def
proof (rule object_sentence)
  have m: "map fst (merged_trees f g kts lts) = map fst kts @ filter (\<lambda>k. k \<notin> fst ` set kts) (map fst lts)"
    by (simp add: merged_trees_def filter_map comp_def case_prod_beta')
  show "distinct (map fst (merged_trees f g kts lts))"
    unfolding m using assms(1,2) by (auto simp: distinct_map)
  show "list_all (\<lambda>kt. sentence (snd kt)) (merged_trees f g kts lts)"
    using assms(3-5) by (auto simp: merged_trees_def list_all_iff dest!: map_of_SomeD split: option.split)
qed

lemma fresh_subset: "set (fresh_texts seen ts) \<subseteq> set ts"
  by (induction seen ts rule: fresh_texts.induct) auto

lemma overwritten_sentence:
  "well_tree t \<Longrightarrow> well_tree u \<Longrightarrow> numbers_ok nums JavaScript \<Longrightarrow> sentence (overwritten nums t u)"
proof (induction nums t u rule: overwritten.induct)
  case (1 nums b kts b' lts)
  have w: "well_tree t" if "(k, t) \<in> set kts \<or> (k, t) \<in> set lts" for k t
    using that "1.prems"(1,2) by (force simp: list_all_iff)
  have d: "distinct (map fst kts)" "distinct (map fst lts)" using "1.prems"(1,2) by simp_all
  show ?case
    unfolding overwritten.simps
    by (rule merged_sentence [OF d]) (use w js_sentence "1.prems"(3) "1.IH" in blast)+
qed (simp_all add: js_sentence)

lemma accumulated_sentence:
  "well_tree t \<Longrightarrow> well_tree u \<Longrightarrow> numbers_ok nums JavaScript \<Longrightarrow> sentence (accumulated nums t u)"
proof (induction nums t u rule: accumulated.induct)
  case (1 nums b kts b' lts)
  have w: "well_tree t" if "(k, t) \<in> set kts \<or> (k, t) \<in> set lts" for k t
    using that "1.prems"(1,2) by (force simp: list_all_iff)
  have d: "distinct (map fst kts)" "distinct (map fst lts)" using "1.prems"(1,2) by simp_all
  show ?case
    unfolding accumulated.simps
    by (rule merged_sentence [OF d]) (use w js_sentence "1.prems"(3) "1.IH" in blast)+
next
  case (2 nums b ts b' us)
  have "list_all sentence (fresh_texts [] (map (js nums) (ts @ us)))"
    using 2 fresh_subset [of "[]" "map (js nums) (ts @ us)"] js_sentence by (fastforce simp: list_all_iff)
  then show ?case by (simp add: array_tree_def array_sentence)
qed (simp_all add: js_sentence)

section \<open>The merge loops follow the trees\<close>

definition merges ::
  "(nat option \<Rightarrow> nat option \<Rightarrow> (json_failure + bytes \<times> merge_job list) option) \<Rightarrow> merge_job list \<Rightarrow> bytes \<Rightarrow> bool" where
  "merges step jobs b \<longleftrightarrow> (\<forall>out rest. merge_loop step out (jobs @ rest) = merge_loop step (out @ b) rest)"

lemma merge_loop_steps:
  "merge_loop step out [] = Some (Ok out)"
  "merge_loop step out (MergeByte b # jobs) = merge_loop step (out @ [b]) jobs"
  "merge_loop step out (MergeString us # jobs) = merge_loop step (out @ write_json_string_from_utf16 us) jobs"
  "merge_loop step out (MergeRaw bs # jobs) = merge_loop step (out @ bs) jobs"
  "step l r = Some (Ok (w, new)) \<Longrightarrow> merge_loop step out (MergeNodes l r # jobs) = merge_loop step (out @ w) (new @ jobs)"
  by (subst merge_loop.simps, simp)+

lemma merges_steps:
  "merges step [] []" "merges step [MergeByte c] [c]"
  "merges step [MergeString us] (write_json_string_from_utf16 us)" "merges step [MergeRaw b] b"
  by (simp_all add: merges_def merge_loop_steps)

lemma merges_append: "merges step x a \<Longrightarrow> merges step y b \<Longrightarrow> merges step (x @ y) (a @ b)"
  by (simp add: merges_def)

lemma merges_Cons: "merges step [x] a \<Longrightarrow> merges step y b \<Longrightarrow> merges step (x # y) (a @ b)"
  using merges_append [of step "[x]"] by simp

lemma merges_nodes:
  assumes "step l r = Some (Ok (a, new))" "merges step new b"
  shows "merges step [MergeNodes l r] (a @ b)"
  using assms by (simp add: merges_def merge_loop_steps(5))

lemma merges_join:
  "list_all2 (merges step) chunks bs \<Longrightarrow> merges step (join_with (MergeByte c) chunks) (join_with c bs)"
proof (induction "MergeByte c" chunks arbitrary: bs rule: join_with.induct)
  case 1
  then show ?case by (simp add: merges_steps)
next
  case (2 x)
  then show ?case by (auto simp: list_all2_Cons1)
next
  case (3 x y zs)
  then obtain a b bs' where bs: "bs = a # b # bs'" "merges step x a" "list_all2 (merges step) (y # zs) (b # bs')"
    by (auto simp: list_all2_Cons1)
  show ?case
    using merges_append [OF bs(2) merges_Cons [OF merges_steps(2) "3.hyps" [OF bs(3)]]] by (simp add: bs(1))
qed

lemma merges_bracketed:
  assumes "list_all2 (merges step) chunks bs"
  shows "merges step (MergeByte a # join_with (MergeByte 0x2C) chunks @ [MergeByte z]) (a # join_with 0x2C bs @ [z])"
  using merges_Cons [OF merges_steps(2) merges_append [OF merges_join [OF assms] merges_steps(2) [of _ z]], of a] by simp

lemma take_member_alt:
  "distinct (map fst ms) \<Longrightarrow> take_member key ms = (map_of ms key, filter (\<lambda>(k, j). k \<noteq> key) ms)"
proof (induction ms)
  case (Cons m ms)
  obtain k j where m: "m = (k, j)" by (cases m)
  have "filter (\<lambda>(k', j). k' \<noteq> k) ms = ms" if "k \<notin> fst ` set ms"
    using that by (force simp: filter_id_conv)
  then show ?case using Cons by (auto simp: m)
qed simp

lemma merged_members_alt:
  "distinct (map fst ls) \<Longrightarrow> distinct (map fst rs) \<Longrightarrow>
    merged_members ls rs = map (\<lambda>(k, i). (k, Some i, map_of rs k)) ls
      @ map (\<lambda>(k, j). (k, None, Some j)) (filter (\<lambda>(k, j). k \<notin> fst ` set ls) rs)"
proof (induction ls arbitrary: rs)
  case (Cons l ls)
  obtain k i where l: "l = (k, i)" by (cases l)
  let ?rs = "filter (\<lambda>(k', j). k' \<noteq> k) rs"
  have d: "distinct (map fst ?rs)" using Cons.prems(2) by (simp add: distinct_map_filter)
  have "map_of ?rs k' = map_of rs k'" if "k' \<noteq> k" for k'
    using that by (induction rs) auto
  then have "map (\<lambda>(k, i). (k, Some i, map_of ?rs k)) ls = map (\<lambda>(k, i). (k, Some i, map_of rs k)) ls"
  proof (intro map_cong refl)
    fix x assume "x \<in> set ls"
    moreover have "k \<notin> fst ` set ls" using Cons.prems(1) by (simp add: l)
    ultimately have "fst x \<noteq> k" by (metis imageI)
    then show "(case x of (k, i) \<Rightarrow> (k, Some i, map_of ?rs k)) = (case x of (k, i) \<Rightarrow> (k, Some i, map_of rs k))"
      using \<open>\<And>k'. k' \<noteq> k \<Longrightarrow> map_of ?rs k' = map_of rs k'\<close> by (cases x) simp
  qed
  moreover have "filter (\<lambda>(k, j). k \<notin> fst ` set ls) ?rs = filter (\<lambda>(k, j). k \<notin> fst ` set (l # ls)) rs"
    by (auto simp: l intro: filter_cong)
  ultimately show ?case
    using Cons.IH [OF _ d] Cons.prems by (simp add: l take_member_alt [OF Cons.prems(2)])
qed (simp add: filter_True)

lemma related_filter:
  "list_all2 (\<lambda>m kt. fst m = fst kt \<and> R (snd m) (snd kt)) ms kts \<Longrightarrow>
    list_all2 (\<lambda>m kt. fst m = fst kt \<and> R (snd m) (snd kt))
      (filter (\<lambda>(k, j). k \<notin> K) ms) (filter (\<lambda>(k, u). k \<notin> K) kts)"
  by (induction rule: list_all2_induct) (simp_all add: case_prod_beta')

definition job_of :: "u16 list \<times> nat option \<times> nat option \<Rightarrow> merge_job list" where
  "job_of m = (case m of (k, l, r) \<Rightarrow> [MergeString k, MergeByte 0x3A, MergeNodes l r])"

lemma merges_member:
  assumes "merges step [MergeNodes l r] (tree_text t)"
  shows "merges step (job_of (k, l, r)) (member_text (k, t))"
  using merges_Cons [OF merges_steps(3) [of step k] merges_Cons [OF merges_steps(2) [of step "0x3A"] assms]]
  by (simp add: job_of_def member_text_def)

lemma merged_object:
  assumes l: "object_entries dl i = Some ls" "list_all2 (\<lambda>m kt. fst m = fst kt \<and> stands_for s dl (snd m) (snd kt)) ls kts"
    and r: "object_entries dr j = Some rs" "list_all2 (\<lambda>m kt. fst m = fst kt \<and> stands_for s' dr (snd m) (snd kt)) rs lts"
    and d: "distinct (map fst kts)" "distinct (map fst lts)"
    and left: "\<And>i t. stands_for s dl i t \<Longrightarrow> merges step [MergeNodes (Some i) None] (tree_text (g t))"
    and right: "\<And>j u. stands_for s' dr j u \<Longrightarrow> merges step [MergeNodes None (Some j)] (tree_text (g u))"
    and both: "\<And>k i j t u. (k, t) \<in> set kts \<Longrightarrow> stands_for s dl i t \<Longrightarrow> stands_for s' dr j u \<Longrightarrow>
        merges step [MergeNodes (Some i) (Some j)] (tree_text (f t u))"
  shows "\<exists>jobs. merge_objects dl dr i j = Ok jobs \<and> merges step jobs (tree_text (object_tree (merged_trees f g kts lts)))"
proof -
  note keys = related_keys [OF l(2)] related_keys [OF r(2)]
  have m: "merged_members ls rs = map (\<lambda>(k, i). (k, Some i, map_of rs k)) ls
      @ map (\<lambda>(k, j). (k, None, Some j)) (filter (\<lambda>(k, j). k \<notin> fst ` set kts) rs)"
    using merged_members_alt [of ls rs] d keys by (simp flip: set_map)
  let ?lead = "\<lambda>(k, t). (k, case map_of lts k of None \<Rightarrow> g t | Some u \<Rightarrow> f t u)"
  have A: "list_all2 (\<lambda>m kt. merges step (job_of m) (member_text kt))
      (map (\<lambda>(k, i). (k, Some i, map_of rs k)) ls) (map ?lead kts)"
    unfolding list_all2_map1 list_all2_map2
  proof (rule list.rel_mono_strong [OF l(2)])
    fix m kt assume kt: "kt \<in> set kts" and mk: "fst m = fst kt \<and> stands_for s dl (snd m) (snd kt)"
    obtain k i' where m: "m = (k, i')" by (cases m)
    obtain t where t: "kt = (k, t)" "stands_for s dl i' t" using mk by (cases kt) (simp add: m)
    have "rel_option (stands_for s' dr) (map_of rs k) (map_of lts k)" by (rule related_lookup [OF r(2)])
    then have "merges step [MergeNodes (Some i') (map_of rs k)]
        (tree_text (case map_of lts k of None \<Rightarrow> g t | Some u \<Rightarrow> f t u))"
      using left [OF t(2)] both [OF kt [unfolded t(1)] t(2)] by (cases rule: option.rel_cases) simp_all
    then show "merges step (job_of (case m of (k, i) \<Rightarrow> (k, Some i, map_of rs k))) (member_text (?lead kt))"
      using merges_member by (simp add: m t(1))
  qed
  have "list_all2 (\<lambda>m kt. fst m = fst kt \<and> stands_for s' dr (snd m) (snd kt))
      (filter (\<lambda>(k, j). k \<notin> fst ` set kts) rs) (filter (\<lambda>(k, u). k \<notin> fst ` set kts) lts)"
    by (rule related_filter [OF r(2)])
  then have B: "list_all2 (\<lambda>m kt. merges step (job_of m) (member_text kt))
      (map (\<lambda>(k, j). (k, None, Some j)) (filter (\<lambda>(k, j). k \<notin> fst ` set kts) rs))
      (map (\<lambda>(k, u). (k, g u)) (filter (\<lambda>(k, u). k \<notin> fst ` set kts) lts))"
    unfolding list_all2_map1 list_all2_map2
    by (rule list_all2_mono) (clarsimp, rule merges_member, rule right)
  have "list_all2 (merges step) (map job_of (merged_members ls rs)) (map member_text (merged_trees f g kts lts))"
    using list_all2_appendI [OF A B] by (simp only: m merged_trees_def list_all2_map1 list_all2_map2)
  from merges_bracketed [OF this, of "0x7B" "0x7D"]
  show ?thesis
    by (simp add: merge_objects_def l(1) r(1) missing_part_def object_tree_def object_text_def job_of_def [abs_def])
qed

lemma raw_merges:
  "step l r = Some (Ok ([], [MergeRaw b])) \<Longrightarrow> merges step [MergeNodes l r] b"
  using merges_nodes [of step l r "[]" "[MergeRaw b]" b] merges_steps(4) by simp

lemma text_merges:
  "step l r = Some (Ok (b, [])) \<Longrightarrow> merges step [MergeNodes l r] b"
  using merges_nodes [of step l r b "[]" "[]"] merges_steps(1) by simp

lemma kind_of_tree_object: "kind_of_tree t = KindObject \<longleftrightarrow> (\<exists>b kts. t = JObj b kts)"
  by (cases t) (simp_all add: prim_kinds del: kind_of.simps)

lemma overwriting_leaf:
  assumes "numbers_ok nums JavaScript"
  shows "stands_for s dl i t \<Longrightarrow> merges (overwriting_step nums dl dr) [MergeNodes (Some i) None] (tree_text (js nums t))"
    "stands_for s' dr j u \<Longrightarrow> merges (overwriting_step nums dl dr) [MergeNodes None (Some j)] (tree_text (js nums u))"
    "stands_for s dl i t \<Longrightarrow> stands_for s' dr j u \<Longrightarrow> \<not> (kind_of_tree t = KindObject \<and> kind_of_tree u = KindObject) \<Longrightarrow>
      merges (overwriting_step nums dl dr) [MergeNodes (Some i) (Some j)] (tree_text (js nums u))"
  by (rule raw_merges, auto simp: overwriting_step_def raw_job_def serialize_js [OF _ assms] stands_views(1))+

lemma overwriting_merges:
  "numbers_ok nums JavaScript \<Longrightarrow> stands_for s dl i t \<Longrightarrow> stands_for s' dr j u \<Longrightarrow>
    merges (overwriting_step nums dl dr) [MergeNodes (Some i) (Some j)] (tree_text (overwritten nums t u))"
proof (induction nums t u arbitrary: i j rule: overwritten.induct)
  case (1 nums b kts b' lts)
  obtain ls where l: "object_entries dl i = Some ls"
      "list_all2 (\<lambda>m kt. fst m = fst kt \<and> stands_for s dl (snd m) (snd kt)) ls kts"
    using stands_obj [OF "1.prems"(2)] by blast
  obtain rs where r: "object_entries dr j = Some rs"
      "list_all2 (\<lambda>m kt. fst m = fst kt \<and> stands_for s' dr (snd m) (snd kt)) rs lts"
    using stands_obj [OF "1.prems"(3)] by blast
  have d: "distinct (map fst kts)" "distinct (map fst lts)"
    using stands_well [OF "1.prems"(2)] stands_well [OF "1.prems"(3)] by simp_all
  have "\<exists>jobs. merge_objects dl dr i j = Ok jobs \<and> merges (overwriting_step nums dl dr) jobs
      (tree_text (object_tree (merged_trees (overwritten nums) (js nums) kts lts)))"
    by (rule merged_object [OF l r d])
      (use overwriting_leaf(1,2) [OF "1.prems"(1)] "1.IH" [OF _ "1.prems"(1)] in blast)+
  then obtain jobs where j: "merge_objects dl dr i j = Ok jobs"
      "merges (overwriting_step nums dl dr) jobs (tree_text (object_tree (merged_trees (overwritten nums) (js nums) kts lts)))"
    by blast
  have "overwriting_step nums dl dr (Some i) (Some j) = Some (Ok ([], jobs))"
    using j(1) stands_views(1) [OF "1.prems"(2)] stands_views(1) [OF "1.prems"(3)]
    by (simp add: overwriting_step_def)
  from merges_nodes [of "overwriting_step nums dl dr", OF this j(2)]
  show ?case by simp
qed (simp_all only: overwritten.simps, (erule (2) overwriting_leaf(3), simp add: prim_kinds del: kind_of.simps)+)

lemma listed_items:
  assumes "node_of d i = ArrayNode items"
  shows "items_or_none d i = map (Pair d) items"
proof -
  have "List.map_filter (array_item d i) [0..<length items] = map ((!) items) [0..<length items]"
    unfolding List.map_filter_def
    by (simp add: array_item_def node_array_def assms comp_def filter_True)
  also have "\<dots> = items" by (rule map_nth)
  finally have "List.map_filter (array_item d i) [0..<length items] = items" .
  then show ?thesis by (simp add: items_or_none_def items_listed(1) [OF assms])
qed

lemma serialized_items:
  "numbers_ok nums JavaScript \<Longrightarrow> list_all2 (\<lambda>(d, i) t. \<exists>s. stands_for s d i t) xs ts \<Longrightarrow>
    serialize_items nums JavaScript xs = Some (Ok (map (\<lambda>t. tree_text (js nums t)) ts))"
proof (induction xs arbitrary: ts)
  case (Cons x xs)
  obtain d i where x: "x = (d, i)" by (cases x)
  then obtain s t ts' where "ts = t # ts'" "stands_for s d i t" "list_all2 (\<lambda>(d, i) t. \<exists>s. stands_for s d i t) xs ts'"
    using Cons.prems(2) by (auto simp: list_all2_Cons1)
  then show ?case using Cons by (simp add: x serialize_js)
qed simp

lemma unseen_texts: "unseen seen (map tree_text ts) = map tree_text (fresh_texts seen ts)"
  by (induction seen ts rule: fresh_texts.induct) simp_all

lemma merged_array:
  assumes "numbers_ok nums JavaScript" "stands_for s dl i (JArr b ts)" "stands_for s' dr j (JArr b' us)"
  shows "\<exists>jobs. merge_arrays nums dl dr i j = Some (Ok jobs)
    \<and> merges step jobs (tree_text (array_tree (fresh_texts [] (map (js nums) (ts @ us)))))"
proof -
  obtain xs where xs: "node_of dl i = ArrayNode xs" "list_all2 (stands_for s dl) xs ts"
    using stands_arr [OF assms(2)] by blast
  obtain ys where ys: "node_of dr j = ArrayNode ys" "list_all2 (stands_for s' dr) ys us"
    using stands_arr [OF assms(3)] by blast
  have "list_all2 (\<lambda>(d, i) t. \<exists>s. stands_for s d i t) (map (Pair dl) xs @ map (Pair dr) ys) (ts @ us)"
    by (rule list_all2_appendI; unfold list_all2_map1; rule list_all2_mono [OF xs(2)] list_all2_mono [OF ys(2)]) auto
  from serialized_items [OF assms(1) this]
  have S: "serialize_items nums JavaScript (items_or_none dl i @ items_or_none dr j) =
      Some (Ok (map tree_text (map (js nums) (ts @ us))))"
    by (simp add: listed_items [OF xs(1)] listed_items [OF ys(1)] comp_def)
  let ?bs = "map tree_text (fresh_texts [] (map (js nums) (ts @ us)))"
  have "list_all2 (merges step) (map (\<lambda>b. [MergeRaw b]) ?bs) ?bs"
    unfolding list_all2_map1 list_all2_same using merges_steps(4) by blast
  from merges_bracketed [OF this, of "0x5B" "0x5D"]
  moreover have "merge_arrays nums dl dr i j = Some (Ok
      (MergeByte 0x5B # join_with (MergeByte 0x2C) (map (\<lambda>b. [MergeRaw b]) ?bs) @ [MergeByte 0x5D]))"
    unfolding merge_arrays_def S by (simp only: option.map bind_result_simps unseen_texts)
  ultimately show ?thesis by (auto simp: array_tree_def array_text_def simp del: map_append map_map)
qed

lemma incremental_leaf:
  assumes "numbers_ok nums JavaScript"
  shows "stands_for s dl i t \<Longrightarrow> merges (incremental_step nums dl dr) [MergeNodes (Some i) None] (tree_text (js nums t))"
    "stands_for s' dr j u \<Longrightarrow> merges (incremental_step nums dl dr) [MergeNodes None (Some j)] (tree_text (js nums u))"
  by (rule text_merges, simp add: incremental_step_def written_node_def serialize_js [OF _ assms])+

lemma incremental_scalar:
  assumes "numbers_ok nums JavaScript" "stands_for s dl i t" "stands_for s' dr j u"
    "\<not> (kind_of_tree t = KindObject \<and> kind_of_tree u = KindObject)"
    "\<not> (kind_of_tree t = KindArray \<and> kind_of_tree u = KindArray)"
  shows "merges (incremental_step nums dl dr) [MergeNodes (Some i) (Some j)]
    (tree_text (if kind_of_tree u = KindNull then js nums t else js nums u))"
proof (cases "kind_of_tree u = KindNull")
  case True
  have "incremental_step nums dl dr (Some i) (Some j) = Some (Ok ([], [MergeNodes (Some i) None]))"
    using assms(4,5) True by (simp add: incremental_step_def stands_views(1) [OF assms(2)] stands_views(1) [OF assms(3)])
  from merges_nodes [of "incremental_step nums dl dr", OF this incremental_leaf(1) [OF assms(1,2)]]
  show ?thesis using True by simp
next
  case False
  have "incremental_step nums dl dr (Some i) (Some j) = Some (Ok (tree_text (js nums u), []))"
    using assms(4,5) False
    by (auto simp: incremental_step_def written_node_def serialize_js [OF assms(3,1)]
        stands_views(1) [OF assms(2)] stands_views(1) [OF assms(3)])
  then show ?thesis using False by (simp add: text_merges)
qed

lemma incremental_merges:
  "numbers_ok nums JavaScript \<Longrightarrow> stands_for s dl i t \<Longrightarrow> stands_for s' dr j u \<Longrightarrow>
    merges (incremental_step nums dl dr) [MergeNodes (Some i) (Some j)] (tree_text (accumulated nums t u))"
proof (induction nums t u arbitrary: i j rule: accumulated.induct)
  case (1 nums b kts b' lts)
  obtain ls where l: "object_entries dl i = Some ls"
      "list_all2 (\<lambda>m kt. fst m = fst kt \<and> stands_for s dl (snd m) (snd kt)) ls kts"
    using stands_obj [OF "1.prems"(2)] by blast
  obtain rs where r: "object_entries dr j = Some rs"
      "list_all2 (\<lambda>m kt. fst m = fst kt \<and> stands_for s' dr (snd m) (snd kt)) rs lts"
    using stands_obj [OF "1.prems"(3)] by blast
  have d: "distinct (map fst kts)" "distinct (map fst lts)"
    using stands_well [OF "1.prems"(2)] stands_well [OF "1.prems"(3)] by simp_all
  have "\<exists>jobs. merge_objects dl dr i j = Ok jobs \<and> merges (incremental_step nums dl dr) jobs
      (tree_text (object_tree (merged_trees (accumulated nums) (js nums) kts lts)))"
    by (rule merged_object [OF l r d])
      (use incremental_leaf [OF "1.prems"(1)] "1.IH" [OF _ "1.prems"(1)] in blast)+
  then obtain jobs where j: "merge_objects dl dr i j = Ok jobs"
      "merges (incremental_step nums dl dr) jobs (tree_text (object_tree (merged_trees (accumulated nums) (js nums) kts lts)))"
    by blast
  have "incremental_step nums dl dr (Some i) (Some j) = Some (Ok ([], jobs))"
    using j(1) stands_views(1) [OF "1.prems"(2)] stands_views(1) [OF "1.prems"(3)]
    by (simp add: incremental_step_def)
  from merges_nodes [of "incremental_step nums dl dr", OF this j(2)]
  show ?case by simp
next
  case (2 nums b ts b' us)
  obtain jobs where j: "merge_arrays nums dl dr i j = Some (Ok jobs)"
      "merges (incremental_step nums dl dr) jobs (tree_text (accumulated nums (JArr b ts) (JArr b' us)))"
    using merged_array [OF "2.prems", of "incremental_step nums dl dr"] by auto
  have "incremental_step nums dl dr (Some i) (Some j) = Some (Ok ([], jobs))"
    using j(1) stands_views(1) [OF "2.prems"(2)] stands_views(1) [OF "2.prems"(3)]
    by (simp add: incremental_step_def)
  from merges_nodes [of "incremental_step nums dl dr", OF this j(2)]
  show ?case by simp
qed (simp_all only: accumulated.simps, (erule (2) incremental_scalar; simp add: prim_kinds del: kind_of.simps)+)

section \<open>Merged payloads\<close>

lemma root_read: "payload_scanner p = Ok sc \<Longrightarrow> node_id_at sc [] = Some (root_node sc)"
proof -
  assume "payload_scanner p = Ok sc"
  then have d: "document (bytes_of_string p) = Ok (scanned sc)"
    by (auto simp: payload_scanner_def parse_scanner_Ok)
  have "map_of (doc_pointer_nodes (scanned sc)) (pointer_of []) = Some (doc_root (scanned sc))"
    using document_laid [OF d] unfolding laid_def by (metis straight.simps(1))
  then show ?thesis by (simp add: node_id_at_def root_node_def Let_def pointer_of_def)
qed

lemma root_null: "payload_tree q u \<Longrightarrow> is_root_null q \<longleftrightarrow> kind_of_tree u = KindNull"
  using payload_reads [of q u] root_read [of q] stands_views(1)
  by (fastforce simp: is_root_null_def payload_kind_at_def reading_def kind_at_def on_node_def)

lemma merged_trees_payload:
  assumes "accepts_json lib" "payload_tree p t" "payload_tree q u" "sentence x"
    and m: "\<And>s i s' j dl dr. stands_for s dl i t \<Longrightarrow> stands_for s' dr j u \<Longrightarrow>
      merges (step (lib_numbers lib) dl dr) [MergeNodes (Some i) (Some j)] (tree_text x)"
  shows "merge_with lib step p q = Some (Ok (string_of_bytes (tree_text x)))"
    "payload_tree (string_of_bytes (tree_text x)) x"
proof -
  obtain a where a: "payload_scanner p = Ok a" "stands_for (bytes_of_string p) (scanned a) (root_node a) t"
    using payload_reads [OF assms(2)] by blast
  obtain b where b: "payload_scanner q = Ok b" "stands_for (bytes_of_string q) (scanned b) (root_node b) u"
    using payload_reads [OF assms(3)] by blast
  have "merge_loop (step (lib_numbers lib) (scanned a) (scanned b)) []
      [MergeNodes (Some (root_node a)) (Some (root_node b))] = Some (Ok (tree_text x))"
    using m [OF a(2) b(2)] merge_loop_steps(1) unfolding merges_def by (metis append_Cons append_Nil)
  moreover have "utf8_error (tree_text x) = None" using sentence_text [OF assms(4)] by (simp add: valid_utf8_def)
  ultimately show "merge_with lib step p q = Some (Ok (string_of_bytes (tree_text x)))"
    using parse_sentence(1) [OF assms(1,4)] by (simp add: merge_with_def a(1) b(1) merged_payload_def checked_utf8_def)
  show "payload_tree (string_of_bytes (tree_text x)) x" by (rule parse_sentence(2) [OF assms(1,4)])
qed

lemma payload_well: "payload_tree p t \<Longrightarrow> well_tree t"
  using value_text_well(1) by (auto simp: payload_tree_def)

lemma overwriting_payload:
  assumes "accepts_json lib" "numbers_ok (lib_numbers lib) JavaScript" "payload_tree p t" "payload_tree q u"
  shows "merge_overwriting_objects lib p q =
      Some (Ok (string_of_bytes (tree_text (overwritten (lib_numbers lib) t u))))"
    "payload_tree (string_of_bytes (tree_text (overwritten (lib_numbers lib) t u))) (overwritten (lib_numbers lib) t u)"
  using merged_trees_payload [of lib p t q u "overwritten (lib_numbers lib) t u" overwriting_step]
    overwritten_sentence payload_well overwriting_merges assms
  unfolding merge_overwriting_objects_def by blast+

lemma incremental_payload:
  assumes "accepts_json lib" "numbers_ok (lib_numbers lib) JavaScript" "payload_tree p t" "payload_tree q u"
    "kind_of_tree u \<noteq> KindNull"
  shows "merge_incremental lib p q =
      Some (Ok (string_of_bytes (tree_text (accumulated (lib_numbers lib) t u))))"
    "payload_tree (string_of_bytes (tree_text (accumulated (lib_numbers lib) t u))) (accumulated (lib_numbers lib) t u)"
proof -
  have x: "sentence (accumulated (lib_numbers lib) t u)"
    using accumulated_sentence payload_well assms by blast
  note M = merged_trees_payload [where step = incremental_step, OF assms(1,3,4) x incremental_merges [OF assms(2)]]
  show "merge_incremental lib p q =
      Some (Ok (string_of_bytes (tree_text (accumulated (lib_numbers lib) t u))))"
    using M(1) root_null [OF assms(4)] assms(5) by (simp add: merge_incremental_def)
  show "payload_tree (string_of_bytes (tree_text (accumulated (lib_numbers lib) t u))) (accumulated (lib_numbers lib) t u)"
    by (rule M(2))
qed

section \<open>Repeated snapshots\<close>

lemma policy_js: "policy_encoding (plain_policy nums enc) = enc"
  by (simp add: plain_policy_def)

lemma js_simps:
  "js nums (JStr b us) = JStr (write_json_string_from_utf16 us) us"
  "js nums (JArr b ts) = array_tree (map (js nums) ts)"
  "js nums (JObj b kts) = object_tree (map (\<lambda>(k, t). (k, js nums t)) (javascript_order kts))"
proof -
  show "js nums (JStr b us) = JStr (write_json_string_from_utf16 us) us"
    using js_canonical [of nums "JStr b us"] by (simp add: plain_policy_def)
  have "collect_results (map Ok xs) = Ok xs" for xs :: "'a list" by (induction xs) simp_all
  note C = this
  have E: "map (canonical (plain_policy nums JavaScript)) ts = map Ok (map (js nums) ts)"
    by (simp add: js_canonical)
  show "js nums (JArr b ts) = array_tree (map (js nums) ts)"
    using js_canonical [of nums "JArr b ts"] unfolding canonical.simps E C by (simp add: array_tree_def)
  have "map with_key (javascript_order (map (\<lambda>(k, t). (k, Ok (js nums t) :: json_failure + json_tree)) kts)) =
      map Ok (map (\<lambda>(k, t). (k, js nums t)) (javascript_order kts))"
    using ordered_members_map [of JavaScript "\<lambda>t. Ok (js nums t) :: json_failure + json_tree" kts]
    by (simp add: ordered_members_def with_key_def case_prod_beta' comp_def)
  then have "collect_results (map with_key (javascript_order (map (\<lambda>(k, t). (k, Ok (js nums t) :: json_failure + json_tree)) kts))) =
      Ok (map (\<lambda>(k, t). (k, js nums t)) (javascript_order kts))"
    by (simp only: C)
  then show "js nums (JObj b kts) = object_tree (map (\<lambda>(k, t). (k, js nums t)) (javascript_order kts))"
    using js_canonical [of nums "JObj b kts"]
    by (simp add: js_canonical ordered_members_def policy_js object_tree_def)
qed

lemma javascript_order_idem: "javascript_order (javascript_order xs) = javascript_order xs"
proof -
  let ?r = "\<lambda>(p, k, _). javascript_rank p k"
  let ?c = "\<lambda>k. case javascript_array_index k of Some n \<Rightarrow> (0::nat, n) | None \<Rightarrow> (1, 0)"
  define zs where "zs = sort_key ?r (List.enumerate 0 xs)"
  let ?ys = "map snd zs"
  have cr: "?c k \<le> ?c k'" if "javascript_rank p k \<le> javascript_rank p' k'" for p k p' k'
    using that by (auto simp: javascript_rank_def less_eq_prod_def split: option.splits if_splits)
  have rank: "javascript_rank m k \<le> javascript_rank n k'" if "?c k \<le> ?c k'" "m \<le> n" for m n k k'
    using that by (auto simp: javascript_rank_def less_eq_prod_def split: option.splits if_splits)
  have s: "sorted (map ?r zs)" by (simp add: zs_def)
  have "sorted (map ?r (List.enumerate 0 ?ys))"
    unfolding sorted_iff_nth_mono
  proof (intro allI impI)
    fix m n assume mn: "m \<le> n" "n < length (map ?r (List.enumerate 0 ?ys))"
    then have l: "m < length zs" "n < length zs" by simp_all
    have "map ?r zs ! m \<le> map ?r zs ! n" using s mn(1) l by (simp only: sorted_iff_nth_mono length_map)
    then have "?r (zs ! m) \<le> ?r (zs ! n)" using l by (simp only: nth_map)
    then have "?c (fst (snd (zs ! m))) \<le> ?c (fst (snd (zs ! n)))"
      using cr by (cases "zs ! m"; cases "zs ! n") fastforce
    then show "map ?r (List.enumerate 0 ?ys) ! m \<le> map ?r (List.enumerate 0 ?ys) ! n"
      using rank [OF _ mn(1)] l by (simp add: nth_enumerate_eq case_prod_beta')
  qed
  then have "sort_key ?r (List.enumerate 0 ?ys) = List.enumerate 0 ?ys" by (rule sort_key_id_if_sorted)
  then show ?thesis by (simp add: javascript_order_def zs_def)
qed

text \<open>The printed form of a number is printed as itself (ECMAScript prints the shortest text that
reads back to the same double).\<close>

definition numbers_stable :: "json_numbers \<Rightarrow> bool" where
  "numbers_stable nums \<longleftrightarrow>
    (\<forall>raw b. number_text raw \<longrightarrow> write_number nums JavaScript raw = Ok b \<longrightarrow> b \<noteq> literal_null \<longrightarrow>
      write_number nums JavaScript b = Ok b)"

lemma js_prim:
  "js nums (JPrim raw) = JPrim (if kind_of (Primitive raw) = KindNumber
     then (case write_number nums JavaScript raw of Inr b \<Rightarrow> b | Inl e \<Rightarrow> raw) else raw)"
  using js_canonical [of nums "JPrim raw"]
  by (auto simp: plain_policy_def bind_result_Inr simp del: kind_of.simps split: if_splits)

lemma js_stable:
  assumes "numbers_ok nums JavaScript" "numbers_stable nums"
  shows "well_tree t \<Longrightarrow> js nums (js nums t) = js nums t"
proof (induction t)
  case (JPrim raw)
  show ?case
  proof (cases "kind_of (Primitive raw) = KindNumber")
    case True
    then have n: "number_text raw"
      using JPrim by (auto simp: literal_null_def literal_true_def literal_false_def)
    obtain b where b: "write_number nums JavaScript raw = Ok b" by (auto simp: write_number_def Let_def)
    have "number_text b \<or> b = literal_null" using assms(1) n b by (simp add: numbers_ok_def)
    then have "kind_of (Primitive b) = KindNumber \<longrightarrow> write_number nums JavaScript b = Ok b"
      using assms(2) n b by (auto simp: numbers_stable_def)
    then show ?thesis using True b by (simp add: js_prim del: kind_of.simps)
  qed (simp add: js_prim del: kind_of.simps)
next
  case (JStr b us)
  then show ?case by (simp add: js_simps)
next
  case (JArr b ts)
  then have "map (js nums) (map (js nums) ts) = map (js nums) ts" by (auto simp: list_all_iff)
  then show ?case by (simp add: js_simps array_tree_def del: map_map)
next
  case (JObj b kts)
  let ?m = "\<lambda>(k, t). (k, js nums t)"
  have c: "javascript_order (map ?m xs) = map ?m (javascript_order xs)" for xs
    using ordered_members_map [of JavaScript "js nums" xs] by (simp add: ordered_members_def)
  have "?m (?m kt) = ?m kt" if "kt \<in> set (javascript_order kts)" for kt
  proof -
    have "kt \<in> set kts" using that set_ordered_members [of JavaScript kts] by (simp add: ordered_members_def)
    moreover obtain k t where kt: "kt = (k, t)" by fastforce
    ultimately have "well_tree t" using JObj.prems by (force simp: list_all_iff)
    then show ?thesis using JObj.IH [of kt t] \<open>kt \<in> set kts\<close> by (simp add: kt)
  qed
  then have "map ?m (map ?m (javascript_order kts)) = map ?m (javascript_order kts)" by (simp add: comp_def)
  then show ?case by (simp add: js_simps object_tree_def c javascript_order_idem del: map_map)
qed

lemma overwritten_other: "kind_of_tree u \<noteq> KindObject \<Longrightarrow> overwritten nums t u = js nums u"
  by (cases t; cases u) simp_all

lemma merged_keys: "fst ` set (merged_trees f g kts lts) = fst ` set kts \<union> fst ` set lts"
  by (auto simp: merged_trees_def image_Un image_image case_prod_beta')

lemma merged_again:
  assumes "distinct (map fst kts)" "distinct (map fst lts)" "fst ` set lts \<subseteq> fst ` set kts"
    "\<And>k x. (k, x) \<in> set kts \<Longrightarrow> map_of lts k = None \<Longrightarrow> g x = x"
    "\<And>k x u. (k, x) \<in> set kts \<Longrightarrow> (k, u) \<in> set lts \<Longrightarrow> f x u = x"
  shows "merged_trees f g kts lts = kts"
proof -
  have "filter (\<lambda>(k, u). k \<notin> fst ` set kts) lts = []"
    using assms(3) by (force simp: filter_empty_conv)
  moreover have "map (\<lambda>(k, t). (k, case map_of lts k of None \<Rightarrow> g t | Some u \<Rightarrow> f t u)) kts = kts"
    using assms(4) assms(5) [OF _ map_of_SomeD] by (intro map_idI) (auto split: option.split)
  ultimately show ?thesis by (simp add: merged_trees_def)
qed

lemma overwritten_image:
  "well_tree u \<Longrightarrow> overwritten nums (js nums u) u = js nums u"
proof (induction u)
  case (JObj b lts)
  let ?kts = "map (\<lambda>(k, t). (k, js nums t)) (javascript_order lts)"
  have s: "set (javascript_order lts) = set lts"
    using set_ordered_members [of JavaScript lts] by (simp add: ordered_members_def)
  have "mset (javascript_order lts) = mset lts"
    using mset_ordered_members [of JavaScript lts] by (simp add: ordered_members_def)
  then have "mset (map fst (javascript_order lts)) = mset (map fst lts)" by (metis mset_map)
  moreover have d': "distinct (map fst lts)" using JObj.prems by simp
  ultimately have "distinct (map fst (javascript_order lts))" by (metis mset_eq_imp_distinct_iff)
  then have d: "distinct (map fst ?kts)" "distinct (map fst lts)"
    using d' by (simp_all add: comp_def case_prod_beta')
  have "merged_trees (overwritten nums) (js nums) ?kts lts = ?kts"
  proof (rule merged_again [OF d])
    show "fst ` set lts \<subseteq> fst ` set ?kts" by (simp add: s image_image case_prod_beta')
    fix k x assume x: "(k, x) \<in> set ?kts"
    then obtain v where v: "(k, v) \<in> set lts" "x = js nums v" by (auto simp: s)
    show "map_of lts k = None \<Longrightarrow> js nums x = x" using v(1) by (force simp: map_of_eq_None_iff)
    fix u assume "(k, u) \<in> set lts"
    then have "u = v" using v(1) d(2) by (metis map_of_is_SomeI option.inject)
    then show "overwritten nums x u = x"
      using JObj.IH [of "(k, v)" v] JObj.prems v by (force simp: list_all_iff)
  qed
  then show ?case by (simp add: js_simps object_tree_def)
qed (simp_all add: overwritten_other prim_kinds del: kind_of.simps)

lemma overwritten_twice:
  "numbers_ok nums JavaScript \<Longrightarrow> numbers_stable nums \<Longrightarrow> well_tree t \<Longrightarrow> well_tree u \<Longrightarrow> overwritten nums (overwritten nums t u) u = overwritten nums t u"
proof (induction nums t u rule: overwritten.induct)
  case (1 nums b kts b' lts)
  let ?ms = "merged_trees (overwritten nums) (js nums) kts lts"
  have d: "distinct (map fst kts)" "distinct (map fst lts)" using "1.prems"(3,4) by simp_all
  have w: "well_tree t" if "(k, t) \<in> set kts \<or> (k, t) \<in> set lts" for k t
    using that "1.prems"(3,4) by (force simp: list_all_iff)
  have "well_tree (overwritten nums (JObj b kts) (JObj b' lts))"
    using overwritten_sentence [OF "1.prems"(3,4,1)] value_text_well(1) unfolding sentence_def by blast
  then have dm: "distinct (map fst ?ms)" by (simp add: object_tree_def)
  have parts: "(\<exists>t. (k, t) \<in> set kts \<and> x = (case map_of lts k of None \<Rightarrow> js nums t | Some u \<Rightarrow> overwritten nums t u))
      \<or> (\<exists>u. (k, u) \<in> set lts \<and> x = js nums u)" if "(k, x) \<in> set ?ms" for k x
    using that by (auto simp: merged_trees_def)
  have "merged_trees (overwritten nums) (js nums) ?ms lts = ?ms"
  proof (rule merged_again [OF dm d(2)])
    show "fst ` set lts \<subseteq> fst ` set ?ms" by (simp add: merged_keys)
    fix k x assume x: "(k, x) \<in> set ?ms"
    show "js nums x = x" if none: "map_of lts k = None"
    proof -
      have "k \<notin> fst ` set lts" using none by (simp add: map_of_eq_None_iff)
      then obtain t where t: "(k, t) \<in> set kts" "x = js nums t"
        using parts [OF x] none by (auto simp: image_iff)
      have "well_tree t" using w t(1) by blast
      then show ?thesis using js_stable [OF "1.prems"(1,2)] t(2) by simp
    qed
    fix u assume u: "(k, u) \<in> set lts"
    then have m: "map_of lts k = Some u" using d(2) by simp
    have wu: "well_tree u" using w u by blast
    from parts [OF x] show "overwritten nums x u = x"
    proof (elim disjE exE conjE)
      fix t assume t: "(k, t) \<in> set kts" "x = (case map_of lts k of None \<Rightarrow> js nums t | Some u \<Rightarrow> overwritten nums t u)"
      have "well_tree t" using w t(1) by blast
      then show ?thesis using "1.IH" [OF t(1) "1.prems"(1,2) _ wu] t(2) m by simp
    next
      fix v assume v: "(k, v) \<in> set lts" "x = js nums v"
      then have "v = u" using d(2) m by (metis map_of_is_SomeI option.inject)
      then show ?thesis using overwritten_image [OF wu] v(2) by simp
    qed
  qed
  then show ?case by (simp add: object_tree_def)
qed (simp_all add: overwritten_image overwritten_other prim_kinds del: kind_of.simps)

section \<open>Properties\<close>

text \<open>
  C17. The comparison of argument snapshots is by decoded value and is an equivalence: on payloads it
  always returns a verdict, that of the recursive comparison of their trees (numbers by value,
  strings unit for unit, members in any order), and that verdict is reflexive, symmetric and
  transitive.
\<close>

theorem argument_comparison:
  assumes "payload_tree p t" "payload_tree q u" "payload_tree r v"
  shows "semantically_eq lib p q = Some (Ok (same_value lib t u))
    \<and> semantically_eq lib p p = Some (Ok True)
    \<and> semantically_eq lib q p = semantically_eq lib p q
    \<and> (semantically_eq lib p q = Some (Ok True) \<longrightarrow> semantically_eq lib q r = Some (Ok True) \<longrightarrow>
        semantically_eq lib p r = Some (Ok True))"
proof -
  have w: "well_tree t" "well_tree u" using payload_well assms by blast+
  have "same_value lib u t = same_value lib t u" using same_value_sym w by blast
  then show ?thesis
    using compared_payloads [OF assms(1,2), of lib] compared_payloads [OF assms(1,1), of lib]
      compared_payloads [OF assms(2,1), of lib] compared_payloads [OF assms(2,3), of lib]
      compared_payloads [OF assms(1,3), of lib] same_value_refl [OF w(1), of lib] same_value_trans [of lib t u v]
    by simp
qed

lemma sample_payloads:
  "payload_tree (string_of_bytes [0x31]) (JPrim [0x31])"
  "payload_tree (string_of_bytes literal_true) (JPrim literal_true)"
proof -
  show "payload_tree (string_of_bytes [0x31]) (JPrim [0x31])"
    using number_value [OF one_number] by (simp add: payload_tree_def valid_utf8_def utf8_error_def utf8_width_def)
  show "payload_tree (string_of_bytes literal_true) (JPrim literal_true)"
    using literal_value by (simp add: payload_tree_def valid_utf8_def utf8_error_def utf8_width_def literal_true_def)
qed

theorem argument_comparison_witness:
  "semantically_eq unit_lib (string_of_bytes [0x31]) (string_of_bytes literal_true) = Some (Ok False)"
  using argument_comparison [OF sample_payloads(1) sample_payloads(2) sample_payloads(1), of unit_lib]
  by (simp add: same_value.simps literal_null_def literal_true_def literal_false_def)

text \<open>
  C16. Merging provider snapshots follows the trees: both merges return on payloads; usage snapshots are
  merged key by key with every other value replaced by the canonical form of the later one, search
  observations also append array records that are new in canonical form and keep what a null would
  erase; the result is again a payload with that tree.
\<close>

theorem merges_follow_trees:
  assumes "accepts_json lib" "numbers_ok (lib_numbers lib) JavaScript" "payload_tree p t" "payload_tree q u"
  shows "(\<exists>m. merge_overwriting_objects lib p q = Some (Ok m) \<and> payload_tree m (overwritten (lib_numbers lib) t u))
    \<and> (\<exists>m. merge_incremental lib p q = Some (Ok m)
      \<and> payload_tree m (if kind_of_tree u = KindNull then t else accumulated (lib_numbers lib) t u))"
proof
  show "\<exists>m. merge_overwriting_objects lib p q = Some (Ok m) \<and> payload_tree m (overwritten (lib_numbers lib) t u)"
    using overwriting_payload [OF assms] by blast
  show "\<exists>m. merge_incremental lib p q = Some (Ok m)
      \<and> payload_tree m (if kind_of_tree u = KindNull then t else accumulated (lib_numbers lib) t u)"
    using incremental_payload [OF assms] root_null [OF assms(4)] assms(3)
    by (cases "kind_of_tree u = KindNull") (auto simp: merge_incremental_def)
qed

lemma unit_lib_ok:
  "accepts_json unit_lib" "numbers_ok (lib_numbers unit_lib) JavaScript" "numbers_stable (lib_numbers unit_lib)"
proof -
  show "accepts_json unit_lib" by (simp add: accepts_json_def unit_lib_def)
  show "numbers_ok (lib_numbers unit_lib) JavaScript" using unit_numbers_ok by (simp add: unit_lib_def)
  have "is_finite_f64 (parse_f64 [0x31])" by code_simp
  then show "numbers_stable (lib_numbers unit_lib)"
    by (auto simp: numbers_stable_def unit_lib_def unit_numbers_def write_number_def Let_def split: if_splits)
qed

theorem merges_follow_trees_witness:
  "\<exists>m. merge_incremental unit_lib (string_of_bytes [0x31]) (string_of_bytes literal_true) = Some (Ok m)
    \<and> payload_tree m (JPrim literal_true)"
  using merges_follow_trees [OF unit_lib_ok(1,2) sample_payloads]
  by (simp add: js_prim literal_null_def literal_true_def literal_false_def)

text \<open>
  C19. A repeated snapshot changes nothing: merging a usage snapshot twice gives, byte for byte, the
  payload of merging it once, when a printed number is printed as itself.
\<close>

theorem repeated_snapshots:
  assumes "accepts_json lib" "numbers_ok (lib_numbers lib) JavaScript" "numbers_stable (lib_numbers lib)"
    "payload_tree p t" "payload_tree q u"
  shows "\<exists>m. merge_overwriting_objects lib p q = Some (Ok m) \<and> merge_overwriting_objects lib m q = Some (Ok m)"
proof -
  let ?x = "overwritten (lib_numbers lib) t u" and ?m = "string_of_bytes (tree_text (overwritten (lib_numbers lib) t u))"
  note once = overwriting_payload [OF assms(1,2,4,5)]
  have "overwritten (lib_numbers lib) ?x u = ?x"
    using overwritten_twice payload_well assms by blast
  then have "merge_overwriting_objects lib ?m q = Some (Ok ?m)"
    using overwriting_payload(1) [OF assms(1,2) once(2) assms(5)] by simp
  then show ?thesis using once(1) by blast
qed

theorem repeated_snapshots_witness:
  "\<exists>m. merge_overwriting_objects unit_lib (string_of_bytes [0x31]) (string_of_bytes literal_true) = Some (Ok m)
    \<and> merge_overwriting_objects unit_lib m (string_of_bytes literal_true) = Some (Ok m)"
  by (rule repeated_snapshots [OF unit_lib_ok sample_payloads])

section \<open>Defaults on trees\<close>

definition with_defaults ::
  "(u16 list \<times> json_tree) list \<Rightarrow> (u16 list \<times> json_tree) list \<Rightarrow> (u16 list \<times> json_tree) list" where
  "with_defaults kts lts = kts @ filter (\<lambda>(k, u). k \<notin> fst ` set kts) lts"

lemma missing_entries_alt:
  "distinct (map fst ys) \<Longrightarrow> missing_entries seen ys = filter (\<lambda>(k, x). k \<notin> seen) ys"
proof (induction seen ys rule: missing_entries.induct)
  case (2 seen k x r)
  then have "k \<notin> fst ` set r" by simp
  then have "filter (\<lambda>(k', x). k' \<notin> insert k seen) r = filter (\<lambda>(k', x). k' \<notin> seen) r"
    by (intro filter_cong) (auto simp: rev_image_eqI)
  then show ?case using 2 by simp
qed simp

lemma object_payload_entries:
  assumes "payload_tree p (JObj b kts)"
  shows "\<exists>sc es. payload_scanner p = Ok sc \<and> node_kind (scanned sc) (root_node sc) = KindObject
    \<and> entries_of sc what = Ok es
    \<and> list_all2 (\<lambda>e kt. fst e = fst kt \<and> (\<exists>s. stands_for s (fst (snd e)) (snd (snd e)) (snd kt))) es kts"
proof -
  obtain sc where sc: "payload_scanner p = Ok sc"
      "stands_for (bytes_of_string p) (scanned sc) (root_node sc) (JObj b kts)"
    using payload_reads [OF assms] by blast
  obtain ms where ms: "object_entries (scanned sc) (root_node sc) = Some ms"
      "list_all2 (\<lambda>m kt. fst m = fst kt \<and> stands_for (bytes_of_string p) (scanned sc) (snd m) (snd kt)) ms kts"
    using stands_obj [OF sc(2)] by blast
  have "list_all2 (\<lambda>e kt. fst e = fst kt \<and> (\<exists>s. stands_for s (fst (snd e)) (snd (snd e)) (snd kt)))
      (map (\<lambda>(k, i). (k, scanned sc, i)) ms) kts"
    unfolding list_all2_map1 by (rule list_all2_mono [OF ms(2)]) auto
  then show ?thesis
    using sc(1) ms(1) stands_views(1) [OF sc(2)] by (auto simp: entries_of_def missing_part_def)
qed

lemma canonical_payload:
  assumes "payload_tree p t" "numbers_ok (lib_numbers lib) JavaScript"
  shows "canonical_json lib JavaScript p = Some (Ok (tree_text (js (lib_numbers lib) t)))"
proof -
  obtain sc where sc: "payload_scanner p = Ok sc" "stands_for (bytes_of_string p) (scanned sc) (root_node sc) t"
    using payload_reads [OF assms(1)] by blast
  show ?thesis
    using serialize_js [OF sc(2) assms(2)] sc(1)
    by (simp add: canonical_json_def canonical_json_with_fields_def serialize_json_node_def)
qed

text \<open>
  Default fields fill the gaps of an object: the result is the canonical JavaScript image of the
  members of the base, followed by those members of the defaults whose exact key the base does
  not have; nothing of the base is replaced.
\<close>

theorem defaults_fill_gaps:
  assumes "accepts_json lib" "numbers_ok (lib_numbers lib) JavaScript" "numbers_stable (lib_numbers lib)"
    "payload_tree p (JObj b kts)" "payload_tree q (JObj b' lts)"
  shows "\<exists>m. with_missing_object_fields lib JavaScript p q = Some (Ok m)
    \<and> payload_tree m (js (lib_numbers lib) (object_tree (with_defaults kts lts)))"
proof -
  let ?nums = "lib_numbers lib"
  obtain a xs where a: "payload_scanner p = Ok a" "node_kind (scanned a) (root_node a) = KindObject"
      "entries_of a ''JSON base object has no flat children'' = Ok xs"
      "list_all2 (\<lambda>e kt. fst e = fst kt \<and> (\<exists>s. stands_for s (fst (snd e)) (snd (snd e)) (snd kt))) xs kts"
    using object_payload_entries [OF assms(4)] by blast
  obtain c ys where c: "payload_scanner q = Ok c" "node_kind (scanned c) (root_node c) = KindObject"
      "entries_of c ''JSON defaults object has no flat children'' = Ok ys"
      "list_all2 (\<lambda>e kt. fst e = fst kt \<and> (\<exists>s. stands_for s (fst (snd e)) (snd (snd e)) (snd kt))) ys lts"
    using object_payload_entries [OF assms(5)] by blast
  note keys = related_keys [OF a(4)] related_keys [OF c(4)]
  have w: "well_tree (JObj b kts)" "well_tree (JObj b' lts)" using payload_well assms(4,5) by blast+
  let ?es = "xs @ missing_entries (fst ` set xs) ys" and ?kts = "with_defaults kts lts"
  have "missing_entries (fst ` set xs) ys = filter (\<lambda>(k, x). k \<notin> fst ` set kts) ys"
    using missing_entries_alt [of ys] w(2) keys by (simp flip: set_map)
  then have rel: "list_all2 (\<lambda>e kt. fst e = fst kt \<and> (\<exists>s. stands_for s (fst (snd e)) (snd (snd e)) (snd kt))) ?es ?kts"
    using list_all2_appendI [OF a(4) related_filter [OF c(4)]] by (simp add: with_defaults_def)
  have "list_all2 (\<lambda>(d, i) t. \<exists>s. stands_for s d i t) (map snd ?es) (map snd ?kts)"
    unfolding list_all2_map1 list_all2_map2 by (rule list_all2_mono [OF rel]) auto
  from serialized_items [OF assms(2) this]
  have S: "serialize_items ?nums JavaScript (map snd ?es) = Some (Ok (map (\<lambda>t. tree_text (js ?nums t)) (map snd ?kts)))" .
  let ?kjs = "map (\<lambda>(k, t). (k, js ?nums t)) ?kts"
  have wk: "distinct (map fst ?kts)" "list_all (\<lambda>kt. well_tree (snd kt)) ?kts"
    using w by (force simp: with_defaults_def distinct_map_filter, force simp: with_defaults_def list_all_iff)
  have "zip (map fst ?es) (map (\<lambda>t. tree_text (js ?nums t)) (map snd ?kts)) = member_texts ?kjs"
    unfolding related_keys [OF rel] by (simp add: member_texts_def zip_map_map zip_same_conv_map comp_def case_prod_beta')
  then have F: "from_fields (zip (map fst ?es) (map (\<lambda>t. tree_text (js ?nums t)) (map snd ?kts))) = tree_text (object_tree ?kjs)"
    by (simp only: from_fields_texts) (simp add: object_tree_def)
  have s: "sentence (object_tree ?kjs)"
    unfolding object_tree_def
    by (rule object_sentence)
      (use wk js_sentence [OF _ assms(2)] in \<open>auto simp: comp_def case_prod_beta' list_all_iff\<close>)
  let ?m = "string_of_bytes (tree_text (object_tree ?kjs))"
  have m: "payload_tree ?m (object_tree ?kjs)" by (rule parse_sentence(2) [OF assms(1) s])
  have j: "js ?nums (object_tree ?kjs) = js ?nums (object_tree ?kts)"
  proof -
    have "js ?nums (js ?nums t) = js ?nums t" if "(k, t) \<in> set ?kts" for k t
      using that wk(2) js_stable [OF assms(2,3)] by (force simp: list_all_iff)
    then have e: "map (\<lambda>(k, t). (k, js ?nums t)) ?kjs = ?kjs" by auto
    have "map (\<lambda>(k, t). (k, js ?nums t)) (javascript_order xs) = javascript_order (map (\<lambda>(k, t). (k, js ?nums t)) xs)" for xs
      using ordered_members_map [of JavaScript "js ?nums" xs] by (simp add: ordered_members_def)
    then show ?thesis unfolding object_tree_def js_simps by (simp only: e)
  qed
  have wm: "well_tree (object_tree ?kjs)" using payload_well m by blast
  have sj: "sentence (js ?nums (object_tree ?kjs))" using js_sentence wm assms(2) by blast
  have "utf8_error (tree_text (object_tree ?kjs)) = None" using sentence_text [OF s] by (simp add: valid_utf8_def)
  then have "with_missing_object_fields lib JavaScript p q =
      Some (Ok (string_of_bytes (tree_text (js ?nums (object_tree ?kjs)))))"
    using parse_sentence(1) [OF assms(1) s] parse_sentence(1) [OF assms(1) sj] canonical_payload [OF m assms(2)]
    by (simp add: with_missing_object_fields_def a(1-3) c(1-3) S F checked_utf8_def reparsed_def del: map_map map_append)
  then show ?thesis using parse_sentence(2) [OF assms(1) sj] by (simp add: j)
qed

lemma sample_objects:
  "payload_tree (string_of_bytes [0x7B, 0x7D]) (JObj [0x7B, 0x7D] [])"
  using empty_object [of "[]"] by (simp add: payload_tree_def valid_utf8_def utf8_error_def utf8_width_def)

theorem defaults_fill_gaps_witness:
  "\<exists>m. with_missing_object_fields unit_lib JavaScript (string_of_bytes [0x7B, 0x7D]) (string_of_bytes [0x7B, 0x7D]) = Some (Ok m)
    \<and> payload_tree m (JObj [0x7B, 0x7D] [])"
  using defaults_fill_gaps [OF unit_lib_ok sample_objects sample_objects]
  by (simp add: with_defaults_def js_simps object_tree_def javascript_order_def object_text_def)

end
