(* ===== verification/Json_Fragments.thy ===== *)
theory Json_Fragments
  imports Payload_Merge
begin

text \<open>
  Streamed JSON source (\<^verbatim>\<open>JsonPayloadFragment\<close> and \<^verbatim>\<open>json_source_from_utf16_units\<close> of
  \<^verbatim>\<open>src/protocol/json_payload.rs\<close>): provider frames carry pieces of a source as UTF-16
  units, cut anywhere, and the joined units are turned back into UTF-8 source.  A lone surrogate
  in a string becomes an escape; elsewhere it stays malformed.
\<close>

section \<open>Fragments\<close>

definition is_surrogate :: "u16 \<Rightarrow> bool" where
  "is_surrogate u \<longleftrightarrow> is_high u \<or> is_low u"

text \<open>The loop, with its flags \<^verbatim>\<open>in_string\<close> and \<^verbatim>\<open>escaped\<close>.\<close>

fun source_from_units :: "bool \<Rightarrow> bool \<Rightarrow> u16 list \<Rightarrow> bytes" where
  "source_from_units inside esc [] = []"
| "source_from_units inside esc (u # us) =
    (if inside \<and> esc then
       utf8_of_scalar (if is_surrogate u then 0xFFFD else unat u) @ source_from_units inside False us
     else if inside \<and> u = 0x5C then 0x5C # source_from_units inside True us
     else if u = 0x22 then 0x22 # source_from_units (\<not> inside) esc us
     else if inside \<and> is_high u \<and> (case us of v # r \<Rightarrow> is_low v | [] \<Rightarrow> False) then
       utf8_of_scalar (join_pair u (hd us)) @ source_from_units inside esc (tl us)
     else if inside \<and> is_surrogate u then
       unicode_escape_text (unat u) @ source_from_units inside esc us
     else if \<not> inside \<and> is_surrogate u then
       utf8_of_scalar 0xFFFD @ source_from_units inside esc us
     else utf8_of_scalar (unat u) @ source_from_units inside esc us)"

definition json_source_from_utf16_units :: "u16 list \<Rightarrow> bytes" where
  "json_source_from_utf16_units us = source_from_units False False us"

definition parse_fragments :: "json_lib \<Rightarrow> u16 list list \<Rightarrow> string + json_payload" where
  "parse_fragments lib frs = parse_payload lib (json_source_from_utf16_units (concat frs))"

definition fragment_from_text :: "scalars \<Rightarrow> u16 list" where
  "fragment_from_text s = encode_utf16 s"

text \<open>The JSON form of a fragment: a string value with exactly its units.\<close>

definition serialize_fragment :: "json_lib \<Rightarrow> u16 list \<Rightarrow> string + bytes" where
  "serialize_fragment lib us = raw_value lib (write_json_string_from_utf16 us)"

definition deserialize_fragment :: "bytes \<Rightarrow> content_error + u16 list" where
  "deserialize_fragment raw =
    bind_result (map_err ContentScan (parse_scanner raw ''JSON payload fragment is not a valid string'')) (\<lambda>sc.
      if kind_at sc [] \<noteq> Some KindString then Err (content_text ''JSON payload fragment must be a string'')
      else (case string_units (scanned sc) (root_node sc) of
              None \<Rightarrow> Err (content_text ''JSON payload fragment is not a string'')
            | Some us \<Rightarrow> Ok us))"

section \<open>Where the bytes of a source may lie\<close>

text \<open>Outside strings and after a backslash every byte of a sentence is ASCII; the flags after it
are those before it.\<close>

fun tame :: "bool \<Rightarrow> bool \<Rightarrow> bytes \<Rightarrow> bool" where
  "tame inside esc [] \<longleftrightarrow> True"
| "tame inside esc (b # bs) \<longleftrightarrow>
    (if inside \<and> esc then b < 0x80 \<and> tame inside False bs
     else if inside \<and> b = 0x5C then tame inside True bs
     else if b = 0x22 then tame (\<not> inside) esc bs
     else (inside \<or> b < 0x80) \<and> tame inside esc bs)"

lemma tame_outside:
  "list_all (\<lambda>b. b < 0x80 \<and> b \<noteq> 0x22) bs \<Longrightarrow> tame False False (bs @ r) \<longleftrightarrow> tame False False r"
  by (induction bs) simp_all

lemma tame_inside:
  "list_all (\<lambda>b. b \<noteq> 0x5C \<and> b \<noteq> 0x22) bs \<Longrightarrow> tame True False (bs @ r) \<longleftrightarrow> tame True False r"
  by (induction bs) simp_all

lemma number_plain: "number_text bs \<Longrightarrow> list_all (\<lambda>b. b < 0x80 \<and> b \<noteq> 0x22) bs"
proof -
  have d: "list_all (\<lambda>b. b < 0x80 \<and> b \<noteq> 0x22) ds" if "digit_run ds" for ds
    using that by (auto simp: digit_run_def list_all_iff is_ascii_digit_def word_le_nat_alt word_less_nat_alt)
  show "number_text bs \<Longrightarrow> list_all (\<lambda>b. b < 0x80 \<and> b \<noteq> 0x22) bs"
    using d by (fastforce simp: number_text_def int_text_def frac_text_def exp_text_def)
qed

lemma literal_plain:
  "bs = literal_null \<or> bs = literal_true \<or> bs = literal_false \<Longrightarrow> list_all (\<lambda>b. b < 0x80 \<and> b \<noteq> 0x22) bs"
  by (auto simp: literal_null_def literal_true_def literal_false_def)

lemma ws_plain: "is_ws w \<Longrightarrow> list_all (\<lambda>b. b < 0x80 \<and> b \<noteq> 0x22) w"
  by (auto simp: is_ws_def is_json_ws_def list_all_iff)

lemma plain_valid: "list_all (\<lambda>b. b < 0x80 \<and> b \<noteq> 0x22) bs \<Longrightarrow> valid_utf8 (bs @ r) \<Longrightarrow> valid_utf8 r"
  by (rule valid_ascii_run) (auto simp: list_all_iff)

lemma hex_digits_plain: "hex_fold v ds = Some u \<Longrightarrow> list_all (\<lambda>b. b < 0x80 \<and> b \<noteq> 0x5C \<and> b \<noteq> 0x22) ds"
proof (induction v ds rule: hex_fold.induct)
  case (2 v d ds)
  then show ?case
    by (auto simp: hex_value_def word_le_nat_alt word_less_nat_alt split: if_splits option.splits)
qed simp

lemma char_bytes:
  assumes "valid_utf8 (cs @ r)" "next_char cs = Some (c, length cs)"
  shows "list_all is_cont (tl cs)" "valid_utf8 r"
proof -
  obtain a xs where cs: "cs = a # xs" using assms(2) by (cases cs) (simp_all add: next_char_def)
  have "next_char (cs @ r) = Some (c, length cs)" using next_char_append assms(2) by blast
  then have w: "utf8_width a = Suc (length xs)" "1 \<le> utf8_width a \<and> utf8_width a \<le> 4"
    by (auto simp: cs next_char_def Let_def utf8_width_def split: if_splits)
  then show "valid_utf8 r" using valid_utf8_first(2) [of a "xs @ r"] assms(1) by (simp add: cs)
  have v: "valid_utf8 (a # xs @ r)" using assms(1) by (simp add: cs)
  have "is_cont b" if second: "second_ok3 x b \<or> second_ok4 x b" for x b
    using second by (auto simp: second_ok3_def second_ok4_def is_cont_def word_le_nat_alt split: if_splits)
  note second = this
  consider "xs = []" | b where "xs = [b]" | b c where "xs = [b, c]" | b c d where "xs = [b, c, d]"
    using w by (cases xs; cases "tl xs"; cases "tl (tl xs)"; cases "tl (tl (tl xs))") auto
  then show "list_all is_cont (tl cs)"
  proof cases
    case 2
    then show ?thesis using v w unfolding valid_utf8_Cons by (simp add: cs)
  next
    case 3
    then show ?thesis using v w second unfolding valid_utf8_Cons by (auto simp: cs)
  next
    case 4
    then show ?thesis using v w second unfolding valid_utf8_Cons by (auto simp: cs)
  qed (simp add: cs)
qed

lemma cont_plain: "is_cont b \<Longrightarrow> b \<noteq> 0x5C \<and> b \<noteq> 0x22"
  by (auto simp: is_cont_def)

lemma string_tame:
  "string_chars cs us \<Longrightarrow> valid_utf8 (cs @ r) \<Longrightarrow> valid_utf8 r \<and> (tame True False (cs @ r) \<longleftrightarrow> tame True False r)"
proof (induction arbitrary: r rule: string_chars.induct)
  case (short_escape e u bs us)
  have e: "e < 0x80" using short_escape.hyps(1) by (auto simp: simple_escape_def split: if_splits)
  have "valid_utf8 (bs @ r)" using short_escape.prems e by (auto dest!: valid_ascii)
  then show ?case using short_escape.IH e by simp
next
  case (unicode_escape ds v bs us)
  have d: "list_all (\<lambda>b. b < 0x80 \<and> b \<noteq> 0x5C \<and> b \<noteq> 0x22) ds" by (rule hex_digits_plain [OF unicode_escape.hyps(2)])
  have "valid_utf8 (0x75 # ds @ bs @ r)" using valid_ascii [of "0x5C"] unicode_escape.prems by simp
  then have "valid_utf8 (ds @ bs @ r)" using valid_ascii [of "0x75"] by simp
  then have v: "valid_utf8 (bs @ r)" by (rule valid_ascii_run [rotated]) (use d in \<open>auto simp: list_all_iff\<close>)
  have "tame True False (ds @ bs @ r) \<longleftrightarrow> tame True False (bs @ r)"
    by (rule tame_inside) (use d in \<open>auto simp: list_all_iff\<close>)
  then show ?case using unicode_escape.IH [OF v] by simp
next
  case (plain_char cs c bs us)
  have v: "valid_utf8 (cs @ (bs @ r))" using plain_char.prems by simp
  note c = char_bytes [OF v plain_char.hyps(1)]
  obtain a xs where cs: "cs = a # xs" using plain_char.hyps(1) by (cases cs) (simp_all add: next_char_def)
  have "list_all (\<lambda>b. b \<noteq> 0x5C \<and> b \<noteq> 0x22) xs"
    using c(1) cont_plain unfolding cs list.sel by (rule list.pred_mono_strong) blast
  then have "list_all (\<lambda>b. b \<noteq> 0x5C \<and> b \<noteq> 0x22) cs" using plain_char.hyps(2,3) by (simp add: cs)
  then have "tame True False (cs @ bs @ r) \<longleftrightarrow> tame True False (bs @ r)" by (rule tame_inside)
  then show ?case using plain_char.IH [OF c(2)] by simp
qed simp

definition settles :: "bytes \<Rightarrow> bool" where
  "settles bs \<longleftrightarrow> (\<forall>r. valid_utf8 (bs @ r) \<longrightarrow> valid_utf8 r \<and> (tame False False (bs @ r) \<longleftrightarrow> tame False False r))"

lemma settles_append:
  assumes "settles a" "settles b"
  shows "settles (a @ b)"
  unfolding settles_def
proof (intro allI impI)
  fix r assume "valid_utf8 ((a @ b) @ r)"
  then have v: "valid_utf8 (a @ (b @ r))" by simp
  have A: "valid_utf8 (b @ r)" "tame False False (a @ (b @ r)) \<longleftrightarrow> tame False False (b @ r)"
    using assms(1) v unfolding settles_def by blast+
  have B: "valid_utf8 r" "tame False False (b @ r) \<longleftrightarrow> tame False False r"
    using assms(2) A(1) unfolding settles_def by blast+
  show "valid_utf8 r \<and> (tame False False ((a @ b) @ r) \<longleftrightarrow> tame False False r)" using A(2) B by simp
qed

lemma settles_plain: "list_all (\<lambda>b. b < 0x80 \<and> b \<noteq> 0x22) bs \<Longrightarrow> settles bs"
  using plain_valid tame_outside by (auto simp: settles_def)

lemma settles_string: "string_chars cs us \<Longrightarrow> settles (0x22 # cs @ [0x22])"
  unfolding settles_def
proof (intro allI impI)
  fix r assume c: "string_chars cs us" and v: "valid_utf8 ((0x22 # cs @ [0x22]) @ r)"
  then have v': "valid_utf8 (cs @ 0x22 # r)" using valid_ascii [of "0x22"] by simp
  show "valid_utf8 r \<and> (tame False False ((0x22 # cs @ [0x22]) @ r) \<longleftrightarrow> tame False False r)"
    using string_tame [OF c v'] valid_ascii [of "0x22" r] by simp
qed

lemma settles_Cons: "b < 0x80 \<Longrightarrow> b \<noteq> 0x22 \<Longrightarrow> settles bs \<Longrightarrow> settles (b # bs)"
  using settles_append [OF settles_plain [of "[b]"]] by simp

lemma settles_bracket:
  assumes "a < 0x80" "a \<noteq> 0x22" "z < 0x80" "z \<noteq> 0x22" "settles bs"
  shows "settles (a # bs @ [z])"
  using settles_Cons [OF assms(1,2) settles_append [OF assms(5) settles_plain [of "[z]"]]] assms(3,4) by simp

lemma settles_ws: "is_ws w \<Longrightarrow> settles w"
  using settles_plain ws_plain by blast

lemma settles_value:
  "value_text b t \<Longrightarrow> settles b"
  "elements_text b ts \<Longrightarrow> settles b"
  "members_text b kts \<Longrightarrow> settles b"
proof (induction rule: value_text_elements_text_members_text.inducts)
  case (first_member w cs k v v' bs t w')
  have "settles w" "settles (0x22 # cs @ [0x22])" "settles v" "settles [0x3A]" "settles v'" "settles bs" "settles w'"
    using first_member by (simp_all add: settles_ws settles_string settles_plain)
  then have "settles (w @ (0x22 # cs @ [0x22]) @ v @ [0x3A] @ v' @ bs @ w')" by (intro settles_append)
  then show ?case by simp
next
  case (next_member ms kts w cs k v v' bs t w')
  have "settles ms" "settles [0x2C]" "settles w" "settles (0x22 # cs @ [0x22])" "settles v" "settles [0x3A]"
      "settles v'" "settles bs" "settles w'"
    using next_member by (simp_all add: settles_ws settles_string settles_plain)
  then have "settles (ms @ [0x2C] @ w @ (0x22 # cs @ [0x22]) @ v @ [0x3A] @ v' @ bs @ w')" by (intro settles_append)
  then show ?case by simp
next
  case (next_element es ts w bs t w')
  then have "settles es" "settles [0x2C]" "settles w" "settles bs" "settles w'"
    by (simp_all add: settles_ws settles_plain)
  then have "settles (es @ [0x2C] @ w @ bs @ w')" by (intro settles_append)
  then show ?case by simp
next
  case (first_element w bs t w')
  then have "settles w" "settles bs" "settles w'" by (simp_all add: settles_ws)
  then show ?case by (intro settles_append)
qed (simp_all add: settles_bracket settles_ws settles_string settles_plain literal_plain number_plain)

lemma sentence_tame:
  assumes "json_text s t" "valid_utf8 s"
  shows "tame False False s"
proof -
  obtain w bs w' where s: "s = w @ bs @ w'" "is_ws w" "is_ws w'" "value_text bs t"
    using assms(1) by (auto simp: json_text_def)
  have "settles s" unfolding s(1) by (intro settles_append settles_ws settles_value(1)) (fact s)+
  then show ?thesis using assms(2) unfolding settles_def by (metis append_Nil2 tame.simps(1))
qed

section \<open>Joined units\<close>

lemma scalar_bytes:
  assumes "is_scalar c" "0x80 \<le> c"
  shows "utf8_of_scalar c \<noteq> []" "list_all (\<lambda>b. 0x80 \<le> b) (utf8_of_scalar c)"
proof -
  have w: "width_ok c (utf8_of_scalar c)" using utf8_scalar_ok [OF assms(1)] .
  then show ne: "utf8_of_scalar c \<noteq> []" by (simp add: width_ok_def)
  have "valid_utf8 []" by (simp add: valid_utf8_def utf8_error_def)
  then have "valid_utf8 (utf8_of_scalar c @ [])" using w unfolding width_ok_def by blast
  then have "list_all is_cont (tl (utf8_of_scalar c))"
    using char_bytes(1) w unfolding width_ok_def by blast
  moreover have "0x80 \<le> hd (utf8_of_scalar c)" using w assms(2) by (simp add: width_ok_def)
  ultimately show "list_all (\<lambda>b. 0x80 \<le> b) (utf8_of_scalar c)"
    using ne by (cases "utf8_of_scalar c") (auto simp: is_cont_def list_all_iff)
qed

lemma tame_high:
  "list_all (\<lambda>b. 0x80 \<le> b) bs \<Longrightarrow> tame inside esc (bs @ r) \<Longrightarrow>
    (bs = [] \<or> inside \<and> \<not> esc) \<and> tame inside esc r"
proof (induction bs)
  case (Cons b bs)
  then have "\<not> b < 0x80" "b \<noteq> 0x5C" "b \<noteq> 0x22" by auto
  then show ?case using Cons by (auto split: if_splits)
qed simp

lemma scalar_pair:
  assumes "is_scalar c" "\<not> c < 0x10000"
  shows "\<exists>h l. is_high h \<and> is_low l \<and> join_pair h l = c \<and> utf16_of_scalar c = [h, l]"
proof -
  let ?h = "word_of_nat (0xD800 + (c - 0x10000) div 0x400) :: u16"
  let ?l = "word_of_nat (0xDC00 + (c - 0x10000) mod 0x400) :: u16"
  have c: "c < 0x110000" using assms by (auto simp: is_scalar_def)
  then have "(c - 0x10000) div 0x400 < 0x400" by (simp add: less_mult_imp_div_less)
  then have u: "unat ?h = 0xD800 + (c - 0x10000) div 0x400" "unat ?l = 0xDC00 + (c - 0x10000) mod 0x400"
    by (intro unat_u16_of_nat; simp)+
  have "is_high ?h" "is_low ?l"
    using \<open>(c - 0x10000) div 0x400 < 0x400\<close> unfolding is_high_def is_low_def word_le_nat_alt word_less_nat_alt u by simp_all
  moreover have "join_pair ?h ?l = c" unfolding join_pair_def u using assms(2) by simp
  ultimately show ?thesis using assms(2) by (auto simp: utf16_of_scalar_def)
qed

lemma ascii_unit:
  assumes "c < 0x80"
  shows "utf16_of_scalar c = [word_of_nat c]" "utf8_of_scalar c = [word_of_nat c]" "\<not> is_surrogate (word_of_nat c)"
    "unat (word_of_nat c :: u16) = c" "(word_of_nat c :: byte) < 0x80"
    "(word_of_nat c :: byte) = 0x5C \<longleftrightarrow> (word_of_nat c :: u16) = 0x5C"
    "(word_of_nat c :: byte) = 0x22 \<longleftrightarrow> (word_of_nat c :: u16) = 0x22"
proof -
  have u: "unat (word_of_nat c :: u16) = c" "unat (word_of_nat c :: byte) = c"
    using assms by (simp_all add: unat_of_nat)
  show "utf16_of_scalar c = [word_of_nat c]" "utf8_of_scalar c = [word_of_nat c]"
    using assms by (simp_all add: utf16_of_scalar_def utf8_of_scalar_def)
  show "unat (word_of_nat c :: u16) = c" by (rule u)
  show "\<not> is_surrogate (word_of_nat c)" "(word_of_nat c :: byte) < 0x80"
    using assms by (simp_all add: is_surrogate_def is_high_def is_low_def word_le_nat_alt word_less_nat_alt u)
  show "(word_of_nat c :: byte) = 0x5C \<longleftrightarrow> (word_of_nat c :: u16) = 0x5C"
    "(word_of_nat c :: byte) = 0x22 \<longleftrightarrow> (word_of_nat c :: u16) = 0x22"
    unfolding word_unat_eq_iff u by simp_all
qed

lemma joined_source:
  "list_all is_scalar ss \<Longrightarrow> tame inside esc (encode_utf8 ss) \<Longrightarrow>
    source_from_units inside esc (encode_utf16 ss) = encode_utf8 ss"
proof (induction ss arbitrary: inside esc)
  case (Cons c ss)
  have c: "is_scalar c" "list_all is_scalar ss" using Cons.prems(1) by simp_all
  have e: "encode_utf8 (c # ss) = utf8_of_scalar c @ encode_utf8 ss"
    "encode_utf16 (c # ss) = utf16_of_scalar c @ encode_utf16 ss"
    by (simp_all add: encode_utf8_def encode_utf16_def)
  have t: "tame inside esc (utf8_of_scalar c @ encode_utf8 ss)" using Cons.prems(2) by (simp add: e)
  note IH = Cons.IH [OF c(2)]
  consider "c < 0x80" | "0x80 \<le> c" "c < 0x10000" | "\<not> c < 0x10000" by fastforce
  then show ?case
  proof cases
    case 1
    note u = ascii_unit [OF 1]
    have "utf8_of_scalar (unat (word_of_nat c :: u16)) = [word_of_nat c]" using u(2,4) by simp
    then show ?thesis
      using t IH u(3,5) unfolding e u(1,2)
      by (auto simp: u(6,7) is_surrogate_def split: if_splits)
  next
    case 2
    have h: "inside" "\<not> esc" "tame inside esc (encode_utf8 ss)"
      using tame_high [OF scalar_bytes(2) [OF c(1) 2(1)] t] scalar_bytes(1) [OF c(1) 2(1)] by auto
    let ?u = "word_of_nat c :: u16"
    have u: "unat ?u = c" by (rule unat_u16_of_nat [OF 2(2)])
    have "\<not> is_high ?u" "\<not> is_low ?u" "?u \<noteq> 0x5C" "?u \<noteq> 0x22"
      using c(1) 2 by (auto simp: is_high_def is_low_def is_scalar_def word_le_nat_alt word_less_nat_alt u word_unat_eq_iff)
    then show ?thesis
      using IH [OF h(3)] h(1,2) 2(2) u unfolding e by (simp add: utf16_of_scalar_def is_surrogate_def)
  next
    case 3
    have h: "inside" "\<not> esc" "tame inside esc (encode_utf8 ss)"
      using tame_high [OF scalar_bytes(2) [OF c(1)] t] scalar_bytes(1) [OF c(1)] 3 by auto
    obtain u v where u: "is_high u" "is_low v" "join_pair u v = c" "utf16_of_scalar c = [u, v]"
      using scalar_pair [OF c(1) 3] by blast
    then have "u \<noteq> 0x5C" "u \<noteq> 0x22" by (auto simp: is_high_def)
    then show ?thesis using IH [OF h(3)] h(1,2) u unfolding e by simp
  qed
qed (simp add: encode_utf8_def encode_utf16_def)

lemma encode_valid: "list_all is_scalar ss \<Longrightarrow> valid_utf8 (encode_utf8 ss)"
proof (induction ss)
  case Nil
  then show ?case by (simp add: encode_utf8_def valid_utf8_def utf8_error_def)
next
  case (Cons c ss)
  then show ?case using utf8_scalar_ok [of c] by (simp add: encode_utf8_def width_ok_def)
qed

text \<open>Text of a string with no quote, backslash or control unit is written as the exact writer
writes it.\<close>

definition plain_unit :: "u16 \<Rightarrow> bool" where
  "plain_unit u \<longleftrightarrow> u \<noteq> 0x22 \<and> u \<noteq> 0x5C \<and> 0x20 \<le> u"

lemma plain_char_written: "0x20 \<le> c \<Longrightarrow> c \<noteq> 0x22 \<Longrightarrow> c \<noteq> 0x5C \<Longrightarrow> write_json_char c = utf8_of_scalar c"
  by (simp add: write_json_char_def)

lemma plain_unit_written: "plain_unit u \<Longrightarrow> \<not> is_high u \<Longrightarrow> \<not> is_low u \<Longrightarrow> write_unit u = utf8_of_scalar (unat u)"
  by (auto simp: write_unit_def plain_unit_def word_le_nat_alt word_unat_eq_iff intro: plain_char_written)

lemma joined_string:
  "list_all plain_unit us \<Longrightarrow> source_from_units True False (us @ [0x22]) = write_units us @ [0x22]"
proof (induction us rule: write_units.induct)
  case 1
  then show ?case by (simp add: utf8_of_scalar_def)
next
  case (2 u)
  then show ?case
    using plain_unit_written [of u]
    by (auto simp: is_surrogate_def write_unit_def plain_unit_def is_low_def)
next
  case (3 u v us)
  have p: "plain_unit u" "list_all plain_unit us" "list_all plain_unit (v # us)" using "3.prems" by simp_all
  show ?case
  proof (cases "is_high u \<and> is_low v")
    case True
    have "write_json_char (join_pair u v) = utf8_of_scalar (join_pair u v)"
      by (rule plain_char_written) (simp_all add: join_pair_def)
    then show ?thesis using "3.IH"(1) [OF True p(2)] True p(1) by (simp add: plain_unit_def)
  next
    case False
    then show ?thesis
      using "3.IH"(2) [OF False p(3)] p(1) plain_unit_written [OF p(1)]
      by (auto simp: is_surrogate_def write_unit_def plain_unit_def)
  qed
qed

lemma string_payload:
  assumes "accepts_json lib"
  shows "\<exists>p. parse_payload lib (write_json_string_from_utf16 us) = Ok p \<and> root_string_code_units p = Some us"
proof -
  let ?t = "JStr (write_json_string_from_utf16 us) us"
  have s: "sentence ?t" using string_written string_written_utf8 by (simp add: sentence_def)
  let ?p = "string_of_bytes (tree_text ?t)"
  obtain sc where sc: "payload_scanner ?p = Ok sc" "stands_for (bytes_of_string ?p) (scanned sc) (root_node sc) ?t"
    using payload_reads [OF parse_sentence(2) [OF assms s]] by blast
  have "root_string_code_units ?p = Some us"
    using stands_views(1,2) [OF sc(2)] root_read [OF sc(1)] sc(1)
    by (simp add: root_string_code_units_def reading_def kind_at_def on_node_def)
  then show ?thesis using parse_sentence(1) [OF assms s] by auto
qed

section \<open>Properties\<close>

text \<open>
  C18. Fragments reassemble: however the UTF-16 units of a JSON source are cut into fragments, parsing
  the fragments gives the payload with exactly that source; and a string whose text carries lone
  surrogates is reassembled to a string with exactly those units.
\<close>

theorem fragments_reassemble:
  assumes "accepts_json lib" "list_all is_scalar ss" "value_text (encode_utf8 ss) t" "concat frs = encode_utf16 ss"
    and "list_all plain_unit us" "concat frs' = 0x22 # us @ [0x22]"
  shows "parse_fragments lib frs = Ok (string_of_bytes (encode_utf8 ss))
    \<and> (\<exists>p. parse_fragments lib frs' = Ok p \<and> root_string_code_units p = Some us)"
proof
  have v: "valid_utf8 (encode_utf8 ss)" by (rule encode_valid [OF assms(2)])
  have "source_from_units False False (encode_utf16 ss) = encode_utf8 ss"
    by (rule joined_source [OF assms(2) sentence_tame [OF value_json [OF assms(3)] v]])
  moreover have "raw_value lib (encode_utf8 ss) = Ok (encode_utf8 ss)"
    using assms(1,3) v unfolding accepts_json_def by blast
  ultimately show "parse_fragments lib frs = Ok (string_of_bytes (encode_utf8 ss))"
    by (simp add: parse_fragments_def json_source_from_utf16_units_def parse_payload_def assms(4))
  have "json_source_from_utf16_units (concat frs') = write_json_string_from_utf16 us"
    using joined_string [OF assms(5)]
    by (simp add: json_source_from_utf16_units_def assms(6) write_json_string_from_utf16_def)
  then show "\<exists>p. parse_fragments lib frs' = Ok p \<and> root_string_code_units p = Some us"
    using string_payload [OF assms(1), of us] by (simp add: parse_fragments_def)
qed

theorem fragments_reassemble_witness:
  "parse_fragments unit_lib [[0x74, 0x72], [], [0x75, 0x65]] = Ok (string_of_bytes literal_true)
    \<and> (\<exists>p. parse_fragments unit_lib [[0x22], [0xD800], [0x22]] = Ok p \<and> root_string_code_units p = Some [0xD800])"
proof -
  let ?ss = "[0x74, 0x72, 0x75, 0x65] :: scalars"
  have e: "encode_utf8 ?ss = literal_true" "encode_utf16 ?ss = [0x74, 0x72, 0x75, 0x65]"
    by (simp_all add: encode_utf8_def utf8_of_scalar_def literal_true_def encode_utf16_def utf16_of_scalar_def)
  have v: "value_text (encode_utf8 ?ss) (JPrim literal_true)" unfolding e by (rule literal_value) simp
  show ?thesis
    using fragments_reassemble [OF unit_lib_ok(1) _ v, of "[[0x74, 0x72], [], [0x75, 0x65]]" "[0xD800]" "[[0x22], [0xD800], [0x22]]"]
    by (simp add: e is_scalar_def plain_unit_def)
qed

text \<open>A fragment that is written is read back, with its exact units.\<close>

lemma fragment_read_back:
  assumes "accepts_json lib" "serialize_fragment lib us = Ok b"
  shows "deserialize_fragment b = Ok us"
proof -
  let ?t = "JStr (write_json_string_from_utf16 us) us"
  have s: "sentence ?t" using string_written string_written_utf8 by (simp add: sentence_def)
  have b: "b = tree_text ?t"
    using assms sentence_text [OF s] s by (auto simp: serialize_fragment_def accepts_json_def sentence_def)
  obtain sc where sc: "parse_scanner b ''JSON payload fragment is not a valid string'' = Ok sc"
      "stands_for b (scanned sc) (root_node sc) ?t"
    using parse_reads sentence_text [OF s] unfolding b by blast
  then have "payload_scanner (string_of_bytes b) = Ok sc"
    by (auto simp: payload_scanner_def parse_scanner_Ok)
  then show ?thesis
    using root_read sc(1) stands_views(1,2) [OF sc(2)]
    by (simp add: deserialize_fragment_def kind_at_def on_node_def)
qed

end
