(* ===== verification/Spec2Isabelle.thy ===== *)
theory Spec2Isabelle
  imports Sse Event_Stream Usage_Report Resolution Output_Budget Failover Stream_Decoder Stream_Assembly Price_Bounds Config_Publish Replay Json_Fragments
begin

text \<open>
  A verification development for the provider-neutral LLM client, the Rust crate under
  \<^verbatim>\<open>src/\<close> (paths below are relative to \<^verbatim>\<open>src/src/\<close>).

  The program.  An application describes accounts at model providers; the client merges
  them with built-in definitions into provider profiles and publishes the profiles as an
  immutable snapshot.  A request names a model; the client resolves the name to a chain of
  connections, budgets the output, sends the request over one connection after another,
  splits and decodes the reply stream, assembles it into a message, counts its tokens and
  prices them.  The theories follow this path.

  \<^bold>\<open>Shared vocabulary.\<close>
  \<^item> \<^verbatim>\<open>Prelude\<close>: machine integers as words with checked and saturating arithmetic, UTF-8
    validation, UTF-16 projections, the list and string operations of the standard library.
  \<^item> \<^verbatim>\<open>Json_Value\<close>: \<^verbatim>\<open>serde_json::Value\<close> with insertion-ordered objects; floats are IEEE bit
    patterns, and reading one from text is a parameter.
  \<^item> \<^verbatim>\<open>Protocol_Types\<close>, \<^verbatim>\<open>Errors\<close>: \<^verbatim>\<open>protocol/provider.rs\<close> and the error taxonomy of
    \<^verbatim>\<open>protocol/llm.rs\<close>.  Error messages are lists of format pieces.

  \<^bold>\<open>From bytes to a message.\<close>
  \<^item> \<^verbatim>\<open>Framing\<close> is the locale of a batch splitter: feeding chunks one by one is feeding their
    concatenation.  \<^verbatim>\<open>Sse\<close> (\<^verbatim>\<open>framing/sse.rs\<close>) and \<^verbatim>\<open>Event_Stream\<close>
    (\<^verbatim>\<open>framing/eventstream.rs\<close>) model the two splitters byte by byte, with their size limits as
    arguments or as the constants of the source, and interpret the locale.  Their lemmas give a
    refinement of a whole-input reference parser, round trips, and a bound on what a hostile
    length field can make the splitter keep.
  \<^item> \<^verbatim>\<open>Stream_Events\<close>, \<^verbatim>\<open>Stream_Decoder\<close> (\<^verbatim>\<open>codecs/stream.rs\<close>): the canonical events and the
    adapter from raw bytes to events over any provider decoder, which is a parameter.  Chunking
    is invisible to its output and nothing follows a terminal event.
  \<^item> \<^verbatim>\<open>Stream_Assembly\<close> (\<^verbatim>\<open>stream_assembly.rs\<close>): the accumulator of blocks and tool inputs, its
    projections and its final verdict.  The operations on exact JSON text are a parameter record.
  \<^item> \<^verbatim>\<open>Usage_Report\<close> (\<^verbatim>\<open>codecs/usage.rs\<close>, \<^verbatim>\<open>protocol/usage_report.rs\<close> and the usage decoders of
    each wire): counters with the source's saturation, folding of raw reports, and what a
    complete report means.

  \<^bold>\<open>Exact JSON.\<close>  Provider JSON is never turned into a tree of the host language: a scanner
  indexes the source, and every value keeps the bytes it was written with, lone surrogates included.
  \<^item> \<^verbatim>\<open>Json_Scanner\<close> (\<^verbatim>\<open>response_json.rs\<close>, \<^verbatim>\<open>ResponseJsonParser\<close>): the parser with its explicit
    stack of frames, its arena of nodes and its tables of exact spellings.  \<^verbatim>\<open>Json_Grammar\<close>,
    \<^verbatim>\<open>Json_Parse\<close>, \<^verbatim>\<open>Json_Accept\<close> and \<^verbatim>\<open>Json_Unique\<close> give the reference: sentences as trees, every
    sentence is scanned to its tree, every scanned source is a sentence, and the tree is unique.
  \<^item> \<^verbatim>\<open>Json_Document\<close>: the reads of a scanned document, the texts of an error body, the joining of
    decoded text parts and the hand-over of exact text.  \<^verbatim>\<open>Json_Pointers\<close>: a lookup in the pointer
    index is a walk of the document, with the exception of keys that display alike.
  \<^item> \<^verbatim>\<open>Exact_Json\<close>, \<^verbatim>\<open>Exact_Canonical\<close> (\<^verbatim>\<open>exact_json.rs\<close>): the writer of exact strings, the
    work-stack writer and its refinement to a recursive canonical form, the order of JavaScript
    properties, and the normalisation of native bodies.
  \<^item> \<^verbatim>\<open>Json_Payload\<close> (\<^verbatim>\<open>protocol/json_payload.rs\<close>): the value type over exact source, its reads and
    its field edits.
  \<^item> \<^verbatim>\<open>Content_Codec\<close> (\<^verbatim>\<open>protocol/message.rs\<close>): the JSON form of a content block, written and
    read back through the scanner.
  \<^item> \<^verbatim>\<open>Replay\<close> (\<^verbatim>\<open>replay.rs\<close>, \<^verbatim>\<open>protocol/cache.rs\<close>, \<^verbatim>\<open>protocol/continuation.rs\<close>): which blocks
    another wire family may replay, and the adaptation of a request with the positions it keeps.

  \<^bold>\<open>From a model name to connections.\<close>
  \<^item> \<^verbatim>\<open>Inference\<close>, \<^verbatim>\<open>Provider\<close> (\<^verbatim>\<open>protocol/inference.rs\<close>, \<^verbatim>\<open>protocol/provider.rs\<close>): capability
    facts and connection configuration.
  \<^item> \<^verbatim>\<open>Routing\<close>, \<^verbatim>\<open>Resolution\<close> (\<^verbatim>\<open>client/snapshot.rs\<close>, \<^verbatim>\<open>resolve.rs\<close>, \<^verbatim>\<open>route.rs\<close>): the
    snapshot, its indexes and every resolution entry point.  Indexing a list out of range is a
    value of its own, so that a panic is a result theorems speak about.
  \<^item> \<^verbatim>\<open>Output_Budget\<close>, \<^verbatim>\<open>Context_Policy\<close> (\<^verbatim>\<open>client/output_budget.rs\<close>, \<^verbatim>\<open>client/context.rs\<close>):
    token budgets on unsigned 64-bit words.
  \<^item> \<^verbatim>\<open>Failover\<close> (\<^verbatim>\<open>client/executor.rs\<close>): the walk over the chain, as a function and as an
    inductive step relation that the function is shown to follow.  Sending one attempt is a
    parameter.

  \<^bold>\<open>Prices.\<close>  \<^verbatim>\<open>Price_Query\<close>, \<^verbatim>\<open>Cost_Estimate\<close>, \<^verbatim>\<open>Price_Bounds\<close> (\<^verbatim>\<open>client/price_query.rs\<close>,
  \<^verbatim>\<open>pricing.rs\<close>, \<^verbatim>\<open>frozen_pricing.rs\<close>, \<^verbatim>\<open>price_bounds.rs\<close>): selection of a rule of a price table,
  validation, charges of a bill and bounds over every interactive quote.  Time zones and IEEE
  multiplication are parameters with named laws.

  \<^bold>\<open>Configuration.\<close>  \<^verbatim>\<open>Config_Model\<close> (\<^verbatim>\<open>configuration/model.rs\<close>, \<^verbatim>\<open>merge.rs\<close>), \<^verbatim>\<open>Config_Sync\<close>
  (\<^verbatim>\<open>sync.rs\<close>), \<^verbatim>\<open>Config_Repository\<close> (\<^verbatim>\<open>repository.rs\<close>, \<^verbatim>\<open>coordinator.rs\<close>) and
  \<^verbatim>\<open>Config_Publish\<close> (\<^verbatim>\<open>client/store.rs\<close>): saved accounts, merge with the definitions, directory
  synchronisation, the file, and the manager that publishes snapshots.  \<^verbatim>\<open>store_step\<close> interleaves
  every operation of the manager with writes of other processes; the invariants on secrets,
  generations and revisions are proved by rule induction over it.

  \<^bold>\<open>Bounds and fuel.\<close>  The page walk of a directory uses the source's own limit of a hundred
  pages as its fuel, so no behaviour is cut off.  The search for a free row identity is a
  \<^verbatim>\<open>function\<close> whose termination is proved from the finite set of used names.  The loops of the scanner and
  of the exact writer are \<^verbatim>\<open>partial_function\<close>s whose result is an option; the refinements state
  that they return.  Every other loop is structural recursion or has a termination proof.

  \<^bold>\<open>Parameters and their laws.\<close>  Third-party code is an argument: the JSON text codec of the
  configuration file, the string writer, the number reader and the derived readers of
  \<^verbatim>\<open>serde_json\<close>, the time-zone database, IEEE multiplication, URL parsing, the transport of
  one attempt.  A theorem that needs a fact of them states it as a hypothesis and has a witness
  that instantiates it.

  \<^bold>\<open>Not modelled.\<close>  Input and output (HTTP, sockets, files, clocks), request
  encoders and response decoders of the individual wires, the resource services of each provider
  (batches, files, knowledge bases, speech, images), the catalog data, authentication
  cryptography, the merges of provider snapshots in \<^verbatim>\<open>json_payload.rs\<close> and the mapping of text
  overrides in \<^verbatim>\<open>exact_json.rs\<close>.  The component list of the manifest gives the reason
  for each.
\<close>

end
